(* ===== verification/Prelude.thy ===== *)
theory Prelude
  imports Main "HOL-Library.Word" "HOL-Library.Multiset" "HOL-Library.Char_ord" "HOL-Library.List_Lexorder" "HOL-Library.Code_Target_Nat"
begin

text \<open>
  What the components share: results with errors as values, strings, bytes and their
  hexadecimal form, UUID syntax, UTF-8 and the runtime's date format, reachability of a step
  relation, and the two interface contracts (a rank on a finite vocabulary, an invariant kept
  by every step) that several components instantiate.
\<close>

named_theorems uuid_defs \<open>unfolding the UUID syntax check on literals\<close>
named_theorems enum_defs \<open>executable definitions over the closed vocabularies\<close>

section \<open>Results\<close>

text \<open>A raised error is \<open>Inl\<close>, a returned value \<open>Inr\<close>; \<open>bindE\<close> sequences two calls.\<close>

definition bindE :: "'e + 'a \<Rightarrow> ('a \<Rightarrow> 'e + 'b) \<Rightarrow> 'e + 'b" where
  "bindE m f = (case m of Inl e \<Rightarrow> Inl e | Inr x \<Rightarrow> f x)"

definition guardE :: "bool \<Rightarrow> 'e \<Rightarrow> 'e + unit" where
  "guardE b e = (if b then Inr () else Inl e)"

fun collectE :: "('e + 'a) list \<Rightarrow> 'e + 'a list" where
  "collectE [] = Inr []"
| "collectE (Inl e # xs) = Inl e"
| "collectE (Inr x # xs) = (case collectE xs of Inl e \<Rightarrow> Inl e | Inr ys \<Rightarrow> Inr (x # ys))"

lemma bindE_simps [simp]:
  "bindE (Inl e) f = Inl e" "bindE (Inr x) f = f x"
  by (simp_all add: bindE_def)

lemma bindE_Inr_iff: "bindE m f = Inr y \<longleftrightarrow> (\<exists>x. m = Inr x \<and> f x = Inr y)"
  by (cases m) auto

lemma bindE_InrE:
  assumes "bindE m f = Inr y"
  obtains x where "m = Inr x" and "f x = Inr y"
  using assms by (auto simp: bindE_Inr_iff)

lemma guardE_simps [simp]:
  "guardE True e = Inr ()" "guardE False e = Inl e"
  "guardE b e = Inr u \<longleftrightarrow> b" "guardE b e = Inl e' \<longleftrightarrow> \<not> b \<and> e' = e"
  by (auto simp: guardE_def)

lemma collectE_Inr_iff: "collectE xs = Inr ys \<longleftrightarrow> xs = map Inr ys"
proof (induction xs arbitrary: ys rule: collectE.induct)
  case (3 x xs)
  show ?case
  proof (cases "collectE xs")
    case (Inl e)
    with 3 show ?thesis by (cases ys) auto
  next
    case (Inr zs)
    with 3 show ?thesis by (cases ys) auto
  qed
qed auto

section \<open>Bytes and hexadecimal\<close>

type_synonym bytes = "8 word list"

definition hex_digits :: string where
  "hex_digits = ''0123456789abcdef''"

definition hex_char :: "nat \<Rightarrow> char" where
  "hex_char n = hex_digits ! n"

definition hex_byte :: "8 word \<Rightarrow> string" where
  "hex_byte b = [hex_char (unat b div 16), hex_char (unat b mod 16)]"

text \<open>\<open>Buffer.toString('hex')\<close>\<close>

definition hex_of :: "bytes \<Rightarrow> string" where
  "hex_of bs = concat (map hex_byte bs)"

lemma hex_char_inj: "hex_char m = hex_char n \<Longrightarrow> m < 16 \<Longrightarrow> n < 16 \<Longrightarrow> m = n"
proof -
  have d: "distinct hex_digits" and l: "length hex_digits = 16"
    by (simp_all add: hex_digits_def)
  assume "hex_char m = hex_char n" "m < 16" "n < 16"
  then show "m = n" using d l by (simp add: hex_char_def nth_eq_iff_index_eq)
qed

lemma unat_lt2p_byte: "unat (x :: 8 word) < 256"
  using unsigned_less [of x, where ?'a = nat] by simp

lemma hex_byte_inj: "hex_byte a = hex_byte b \<Longrightarrow> a = b"
proof -
  assume eq: "hex_byte a = hex_byte b"
  have bnd: "unat x div 16 < 16" "unat x mod 16 < 16" for x :: "8 word"
    using unat_lt2p_byte [of x] by simp_all
  from eq have "unat a div 16 = unat b div 16" "unat a mod 16 = unat b mod 16"
    by (auto simp: hex_byte_def intro: hex_char_inj bnd)
  then have "unat a = unat b" by (metis div_mult_mod_eq)
  then show "a = b" by (rule unsigned_word_eqI)
qed

lemma hex_of_inj: "hex_of xs = hex_of ys \<Longrightarrow> xs = ys"
proof (induction xs arbitrary: ys)
  case Nil
  then show ?case by (cases ys) (auto simp: hex_of_def hex_byte_def)
next
  case (Cons x xs)
  then obtain y ys' where ys: "ys = y # ys'"
    by (cases ys) (auto simp: hex_of_def hex_byte_def)
  from Cons.prems have "hex_byte x @ hex_of xs = hex_byte y @ hex_of ys'"
    by (simp add: ys hex_of_def)
  then have "hex_byte x = hex_byte y" "hex_of xs = hex_of ys'"
    by (auto simp: hex_byte_def)
  with Cons.IH ys show ?case by (auto dest: hex_byte_inj)
qed

definition hex_digit_val :: "char \<Rightarrow> nat option" where
  "hex_digit_val c = (let n = of_char c :: nat in
     if 48 \<le> n \<and> n \<le> 57 then Some (n - 48)
     else if 97 \<le> n \<and> n \<le> 102 then Some (n - 87)
     else if 65 \<le> n \<and> n \<le> 70 then Some (n - 55) else None)"

text \<open>\<open>Buffer.from(s, 'hex')\<close>: pairs of digits up to the first pair that is not one.\<close>

fun from_hex :: "string \<Rightarrow> bytes" where
  "from_hex (a # b # cs) = (case (hex_digit_val a, hex_digit_val b) of
     (Some m, Some n) \<Rightarrow> word_of_nat (16 * m + n) # from_hex cs | _ \<Rightarrow> [])"
| "from_hex cs = []"

lemma hex_digit_val_hex_char: "n < 16 \<Longrightarrow> hex_digit_val (hex_char n) = Some n"
proof -
  have "\<forall>n \<in> set [0..<16]. hex_digit_val (hex_char n) = Some n" by code_simp
  then show "n < 16 \<Longrightarrow> hex_digit_val (hex_char n) = Some n" by simp
qed

lemma from_hex_of: "from_hex (hex_of bs) = bs"
proof (induction bs)
  case (Cons b bs)
  have "unat b div 16 < 16" "unat b mod 16 < 16" using unat_lt2p_byte [of b] by simp_all
  then have "from_hex (hex_of (b # bs)) = word_of_nat (16 * (unat b div 16) + unat b mod 16) # from_hex (hex_of bs)"
    by (simp add: hex_of_def hex_byte_def hex_digit_val_hex_char del: of_nat_add of_nat_mult)
  also have "16 * (unat b div 16) + unat b mod 16 = unat b" by simp
  finally show ?case using Cons.IH by simp
qed (simp add: hex_of_def)

section \<open>Decimal numerals\<close>

text \<open>\<open>BigInt.prototype.toString()\<close> of a non-negative integer.\<close>

definition dec_char :: "nat \<Rightarrow> char" where
  "dec_char n = ''0123456789'' ! n"

definition dec_val_char :: "char \<Rightarrow> nat" where
  "dec_val_char c = of_char c - 48"

fun dec_of :: "nat \<Rightarrow> string" where
  "dec_of n = (if n < 10 then [dec_char n] else dec_of (n div 10) @ [dec_char (n mod 10)])"

declare dec_of.simps [simp del]

definition dec_val :: "string \<Rightarrow> nat" where
  "dec_val s = foldl (\<lambda>a c. 10 * a + dec_val_char c) 0 s"

lemma nat_lt_10_cases: "n < 10 \<Longrightarrow> n \<in> {0,1,2,3,4,5,6,7,8,9::nat}"
  by auto

lemma dec_val_dec_char: "n < 10 \<Longrightarrow> dec_val_char (dec_char n) = n"
  by (drule nat_lt_10_cases) (auto simp: dec_val_char_def dec_char_def)

lemma dec_val_dec_of: "dec_val (dec_of n) = n"
proof (induction n rule: dec_of.induct)
  case (1 n)
  show ?case
  proof (cases "n < 10")
    case True
    then show ?thesis by (subst dec_of.simps) (simp add: dec_val_def dec_val_dec_char)
  next
    case False
    with 1 have ih: "dec_val (dec_of (n div 10)) = n div 10" by simp
    have "dec_val (dec_of n) = 10 * dec_val (dec_of (n div 10)) + dec_val_char (dec_char (n mod 10))"
      using False by (subst dec_of.simps) (simp add: dec_val_def)
    also have "\<dots> = 10 * (n div 10) + n mod 10"
      by (simp add: ih dec_val_dec_char)
    finally show ?thesis by simp
  qed
qed

lemma dec_of_inj: "dec_of m = dec_of n \<longleftrightarrow> m = n"
  by (metis dec_val_dec_of)

section \<open>UUID syntax and UTF-8\<close>

text \<open>The pattern \<open>UUID_RE\<close> of the sources: 8-4-4-4-12 hexadecimal digits, any case.\<close>

definition is_hex_char :: "char \<Rightarrow> bool" where
  "is_hex_char c = (c \<in> set ''0123456789abcdefABCDEF'')"

definition is_uuid :: "string \<Rightarrow> bool" where
  "is_uuid s = (length s = 36 \<and>
     list_all (\<lambda>(i, c). if i \<in> set [8, 13, 18, 23] then c = CHR ''-'' else is_hex_char c)
       (zip [0..<36] s))"

definition lower_char :: "char \<Rightarrow> char" where
  "lower_char c = (let n = of_char c :: nat in if 65 \<le> n \<and> n \<le> 90 then char_of (n + 32) else c)"

definition lower :: "string \<Rightarrow> string" where
  "lower s = map lower_char s"

text \<open>
  The database's \<open>uuid\<close> type: the hyphenated form in any case is read, the text form it gives
  back is lower case; anything else is a cast error.
\<close>

definition pg_uuid :: "string \<Rightarrow> string option" where
  "pg_uuid s = (if is_uuid s then Some (lower s) else None)"

lemma pg_uuid_SomeD: "pg_uuid s = Some u \<Longrightarrow> is_uuid s \<and> u = lower s"
  by (auto simp: pg_uuid_def split: if_splits)

lemma lower_char_idem [simp]: "lower_char (lower_char c) = lower_char c"
proof -
  have "of_char (char_of (of_char c + 32 :: nat) :: char) = (of_char c + 32 :: nat)"
    if "(of_char c :: nat) \<le> 90" using that by simp
  then show ?thesis by (auto simp: lower_char_def Let_def)
qed

lemma lower_idem [simp]: "lower (lower s) = lower s"
  by (simp add: lower_def)

text \<open>
  Strings range over the code units below 256, so \<open>Buffer.from(s, 'utf8')\<close> writes one or two
  bytes per character.
\<close>

definition utf8_char :: "char \<Rightarrow> bytes" where
  "utf8_char c = (let n = of_char c :: nat in
     if n < 128 then [word_of_nat n]
     else [word_of_nat (192 + n div 64), word_of_nat (128 + n mod 64)])"

definition utf8 :: "string \<Rightarrow> bytes" where
  "utf8 s = concat (map utf8_char s)"

lemma unat_byte: "n < 256 \<Longrightarrow> unat (word_of_nat n :: 8 word) = n"
  by (simp add: unat_of_nat)

lemma of_char_lt: "(of_char c :: nat) < 256"
  by (simp add: nat_of_char_less_256)

lemma of_char_inj: "(of_char c :: nat) = of_char d \<Longrightarrow> c = d"
  by simp

lemma utf8_char_append_inj:
  assumes "utf8_char c @ xs = utf8_char d @ ys"
  shows "c = d \<and> xs = ys"
proof -
  have lt: "(of_char c :: nat) < 256" "(of_char d :: nat) < 256" by (rule of_char_lt)+
  have u: "word_of_nat m = (word_of_nat n :: 8 word) \<Longrightarrow> m < 256 \<Longrightarrow> n < 256 \<Longrightarrow> m = n" for m n :: nat
    by (metis unat_byte)
  consider "(of_char c :: nat) < 128 \<and> (of_char d :: nat) < 128"
    | "(of_char c :: nat) < 128 \<and> \<not> (of_char d :: nat) < 128"
    | "\<not> (of_char c :: nat) < 128 \<and> (of_char d :: nat) < 128"
    | "\<not> (of_char c :: nat) < 128 \<and> \<not> (of_char d :: nat) < 128" by blast
  then show ?thesis
  proof cases
    case 1
    with assms have "word_of_nat (of_char c) = (word_of_nat (of_char d) :: 8 word)" "xs = ys"
      by (simp_all add: utf8_char_def Let_def)
    with u [of "of_char c" "of_char d"] lt show ?thesis by (auto dest: of_char_inj)
  next
    case 2
    with assms have "word_of_nat (of_char c) = (word_of_nat (192 + of_char d div 64) :: 8 word)"
      by (simp add: utf8_char_def Let_def del: of_nat_add)
    from u [OF this] lt have "(of_char c :: nat) = 192 + of_char d div 64" by linarith
    with 2 show ?thesis by linarith
  next
    case 3
    with assms have "word_of_nat (192 + of_char c div 64) = (word_of_nat (of_char d) :: 8 word)"
      by (simp add: utf8_char_def Let_def del: of_nat_add)
    from u [OF this] lt have "192 + of_char c div 64 = (of_char d :: nat)" by linarith
    with 3 show ?thesis by linarith
  next
    case 4
    with assms have w: "word_of_nat (192 + of_char c div 64) = (word_of_nat (192 + of_char d div 64) :: 8 word)"
      "word_of_nat (128 + of_char c mod 64) = (word_of_nat (128 + of_char d mod 64) :: 8 word)"
      and r: "xs = ys"
      by (simp_all add: utf8_char_def Let_def del: of_nat_add)
    have "(of_char c :: nat) div 64 = of_char d div 64"
      using u [OF w(1)] lt by linarith
    moreover have "(of_char c :: nat) mod 64 = of_char d mod 64"
      using u [OF w(2)] pos_mod_bound by linarith
    ultimately have "(of_char c :: nat) = of_char d" by (metis div_mult_mod_eq)
    with r show ?thesis by simp
  qed
qed

lemma utf8_inj: "utf8 s = utf8 t \<Longrightarrow> s = t"
proof (induction s arbitrary: t)
  case Nil
  then show ?case by (cases t) (auto simp: utf8_def utf8_char_def Let_def split: if_splits)
next
  case (Cons c s)
  then obtain d t' where t: "t = d # t'"
    by (cases t) (auto simp: utf8_def utf8_char_def Let_def split: if_splits)
  from Cons.prems have "utf8_char c @ utf8 s = utf8_char d @ utf8 t'"
    by (simp add: t utf8_def)
  then have "c = d \<and> utf8 s = utf8 t'" by (rule utf8_char_append_inj)
  with Cons.IH t show ?case by blast
qed

section \<open>White space and splitting\<close>

text \<open>White space of the pattern \<open>\s\<close> and of \<open>trim\<close> below 256.\<close>

definition is_space :: "char \<Rightarrow> bool" where
  "is_space c = (let n = of_char c :: nat in n = 32 \<or> n = 160 \<or> (9 \<le> n \<and> n \<le> 13))"

definition trim :: "string \<Rightarrow> string" where
  "trim s = rev (dropWhile is_space (rev (dropWhile is_space s)))"

lemma trim_set: "set (trim s) \<subseteq> set s"
  by (auto simp: trim_def dest!: set_dropWhileD)

text \<open>\<open>s.split(c)\<close> for a single character.\<close>

fun split_on :: "char \<Rightarrow> string \<Rightarrow> string list" where
  "split_on d [] = [[]]"
| "split_on d (c # cs) =
     (if c = d then [] # split_on d cs
      else (case split_on d cs of [] \<Rightarrow> [[c]] | w # ws \<Rightarrow> (c # w) # ws))"

text \<open>\<open>xs.join(sep)\<close>.\<close>

fun join_with :: "string \<Rightarrow> string list \<Rightarrow> string" where
  "join_with sep [] = []"
| "join_with sep [s] = s"
| "join_with sep (s # t # ss) = s @ sep @ join_with sep (t # ss)"

definition is_digit :: "char \<Rightarrow> bool" where
  "is_digit c = (let n = of_char c :: nat in 48 \<le> n \<and> n \<le> 57)"

lemma split_on_not_Nil [simp]: "split_on d s \<noteq> []"
  by (induction s) (auto split: list.splits)

section \<open>Dates\<close>

text \<open>
  A \<open>Date\<close> is its time value in milliseconds since the epoch, \<open>None\<close> for an Invalid Date.
  \<open>toISOString\<close> is the proleptic Gregorian calendar; it throws on an Invalid Date.
\<close>

type_synonym js_date = "int option"

definition pad :: "nat \<Rightarrow> int \<Rightarrow> string" where
  "pad w n = (let s = dec_of (nat n) in replicate (w - length s) (CHR ''0'') @ s)"

definition civil_of_days :: "int \<Rightarrow> int \<times> int \<times> int" where
  "civil_of_days z0 =
     (let z = z0 + 719468;
          era = z div 146097;
          doe = z mod 146097;
          yoe = (doe - doe div 1460 + doe div 36524 - doe div 146096) div 365;
          doy = doe - (365 * yoe + yoe div 4 - yoe div 100);
          mp = (5 * doy + 2) div 153;
          d = doy - (153 * mp + 2) div 5 + 1;
          m = (if mp < 10 then mp + 3 else mp - 9);
          y = yoe + era * 400 + (if m \<le> 2 then 1 else 0)
      in (y, m, d))"

definition iso_year :: "int \<Rightarrow> string" where
  "iso_year y = (if 0 \<le> y \<and> y \<le> 9999 then pad 4 y
                 else (if y < 0 then ''-'' else ''+'') @ pad 6 \<bar>y\<bar>)"

definition iso_of_ms :: "int \<Rightarrow> string" where
  "iso_of_ms t =
     (let (y, m, d) = civil_of_days (t div 86400000); r = t mod 86400000 in
      iso_year y @ ''-'' @ pad 2 m @ ''-'' @ pad 2 d @ ''T'' @
      pad 2 (r div 3600000) @ '':'' @ pad 2 (r div 60000 mod 60) @ '':'' @
      pad 2 (r div 1000 mod 60) @ ''.'' @ pad 3 (r mod 1000) @ ''Z'')"

lemma iso_of_ms_example: "iso_of_ms 1767225600123 = ''2026-01-01T00:00:00.123Z''"
  by code_simp

section \<open>Reachability and the invariant contract\<close>

inductive reach :: "('s \<Rightarrow> bool) \<Rightarrow> ('s \<Rightarrow> 's \<Rightarrow> bool) \<Rightarrow> 's \<Rightarrow> bool"
  for ini :: "'s \<Rightarrow> bool" and step :: "'s \<Rightarrow> 's \<Rightarrow> bool" where
  reach_init: "ini s \<Longrightarrow> reach ini step s"
| reach_step: "reach ini step s \<Longrightarrow> step s t \<Longrightarrow> reach ini step t"

text \<open>
  A component with steps promises an invariant that holds at the start and that every step
  keeps; the clients get it for every reachable state.
\<close>

locale kept_invariant =
  fixes ini :: "'s \<Rightarrow> bool" and step :: "'s \<Rightarrow> 's \<Rightarrow> bool" and inv :: "'s \<Rightarrow> bool"
  assumes inv_init: "ini s \<Longrightarrow> inv s"
    and inv_step: "inv s \<Longrightarrow> step s t \<Longrightarrow> inv t"
begin

lemma inv_reach: "reach ini step s \<Longrightarrow> inv s"
  by (induction rule: reach.induct) (auto intro: inv_init inv_step)

lemma inv_run: "inv s \<Longrightarrow> step\<^sup>*\<^sup>* s t \<Longrightarrow> inv t"
  by (rotate_tac 1, induction rule: rtranclp_induct) (auto intro: inv_step)

end

section \<open>The append-log contract\<close>

text \<open>
  What the writers of evidence rely on: an append that returns has left an entry that records
  its input, and no append ever removes an entry.
\<close>

locale append_log =
  fixes append :: "'i \<Rightarrow> 'd \<Rightarrow> 'e + 'o \<times> 'd" and entries :: "'d \<Rightarrow> 'v set" and records :: "'i \<Rightarrow> 'v \<Rightarrow> bool"
  assumes append_grows: "append i d = Inr (out, d') \<Longrightarrow> entries d \<subseteq> entries d'"
    and append_records: "append i d = Inr (out, d') \<Longrightarrow> \<exists>v \<in> entries d'. records i v"
begin

definition appended :: "'d \<Rightarrow> 'd \<Rightarrow> bool" where
  "appended d d' \<longleftrightarrow> (\<exists>i out. append i d = Inr (out, d'))"

lemma run_grows: "appended\<^sup>*\<^sup>* d d' \<Longrightarrow> entries d \<subseteq> entries d'"
  by (induction rule: rtranclp_induct) (auto simp: appended_def dest: append_grows)

lemma recorded_forever:
  assumes "append i d = Inr (out, d')" "appended\<^sup>*\<^sup>* d' d''"
  shows "\<exists>v \<in> entries d''. records i v"
  using append_records [OF assms(1)] run_grows [OF assms(2)] by blast

end

section \<open>Ranked vocabularies\<close>

text \<open>
  Several components order a closed vocabulary by a numeric table (risk classes, recommended
  actions, source quality) and keep the strictest value seen. \<open>pick_max\<close> is that loop:
  a later value replaces the current one only when its rank is strictly higher.
\<close>

definition pick_max :: "('a \<Rightarrow> nat) \<Rightarrow> 'a \<Rightarrow> 'a list \<Rightarrow> 'a" where
  "pick_max rank a xs = foldl (\<lambda>m x. if rank m < rank x then x else m) a xs"

lemma pick_max_simps [simp]:
  "pick_max rank a [] = a"
  "pick_max rank a (x # xs) = pick_max rank (if rank a < rank x then x else a) xs"
  by (simp_all add: pick_max_def)

lemma pick_max_append [simp]:
  "pick_max rank a (xs @ ys) = pick_max rank (pick_max rank a xs) ys"
  by (simp add: pick_max_def)

lemma pick_max_ge: "rank a \<le> rank (pick_max rank a xs)"
  by (induction xs arbitrary: a) (auto, metis order.strict_implies_order order.trans)

lemma pick_max_upper: "x \<in> set xs \<Longrightarrow> rank x \<le> rank (pick_max rank a xs)"
proof (induction xs arbitrary: a)
  case (Cons y ys)
  have "rank y \<le> rank (if rank a < rank y then y else a)" by simp
  also have "\<dots> \<le> rank (pick_max rank a (y # ys))"
    by (metis pick_max_ge pick_max_simps(2))
  finally show ?case using Cons by auto
qed simp

lemma pick_max_in: "pick_max rank a xs \<in> insert a (set xs)"
  by (induction xs arbitrary: a) auto

locale ranked =
  fixes rank :: "'a \<Rightarrow> nat"
  assumes rank_eqD: "rank x = rank y \<Longrightarrow> x = y"
begin

lemma pick_max_unique:
  assumes "m \<in> insert a (set xs)" and "\<And>x. x \<in> insert a (set xs) \<Longrightarrow> rank x \<le> rank m"
  shows "pick_max rank a xs = m"
proof (rule rank_eqD, rule antisym)
  show "rank (pick_max rank a xs) \<le> rank m"
    using assms(2) pick_max_in by metis
  show "rank m \<le> rank (pick_max rank a xs)"
    using assms(1) pick_max_ge pick_max_upper by (metis insertE)
qed

lemma pick_max_cong_set:
  "insert a (set xs) = insert b (set ys) \<Longrightarrow> pick_max rank a xs = pick_max rank b ys"
  by (rule pick_max_unique) (metis pick_max_in, metis insertE pick_max_ge pick_max_upper)

lemma pick_max_mono:
  "insert a (set xs) \<subseteq> insert b (set ys) \<Longrightarrow> rank (pick_max rank a xs) \<le> rank (pick_max rank b ys)"
  by (metis insertE pick_max_ge pick_max_in pick_max_upper subset_eq)

end

end
