(* ===== verification/Canonical_Json.thy ===== *)
theory Canonical_Json
  imports Complex_Main Prelude
begin

text \<open>
  \<^bold>\<open>packages/core-audit/src/canonical-json.ts\<close>: the deterministic serializer whose output is
  hashed and authenticated. The values are the JavaScript values \<open>stringify\<close> distinguishes; a
  finite number is its exact rational value and its text is the runtime's
  \<open>Number.prototype.toString\<close>, a parameter \<open>num\<close> of the serializer. The main result is
  that equal output means equal values up to the order of object keys and \<open>undefined\<close>
  properties, so the authenticated bytes determine the event.
\<close>

section \<open>Values\<close>

datatype js_num = Finite rat | NonFinite

datatype jsval =
    JUndef
  | JNull
  | JBool bool
  | JNum js_num
  | JStr string
  | JBigInt int
  | JFun
  | JArr "jsval list"
  | JObj "(string \<times> jsval) list"

datatype canon_error = NonFiniteNumber | BigIntNotSupported | UndefinedNotSerializable | UnsupportedType

section \<open>Strings\<close>

text \<open>\<open>JSON.stringify\<close> of a string.\<close>

definition esc_char :: "char \<Rightarrow> string" where
  "esc_char c = (let n = of_char c :: nat in
     if n = 34 then [CHR 0x5C, CHR 0x22]
     else if n = 92 then [CHR 0x5C, CHR 0x5C]
     else if n = 8 then [CHR 0x5C, CHR ''b'']
     else if n = 9 then [CHR 0x5C, CHR ''t'']
     else if n = 10 then [CHR 0x5C, CHR ''n'']
     else if n = 12 then [CHR 0x5C, CHR ''f'']
     else if n = 13 then [CHR 0x5C, CHR ''r'']
     else if n < 32 then [CHR 0x5C, CHR ''u'', CHR ''0'', CHR ''0'', hex_char (n div 16), hex_char (n mod 16)]
     else [c])"

definition quote_str :: "string \<Rightarrow> string" where
  "quote_str s = CHR 0x22 # concat (map esc_char s) @ [CHR 0x22]"

fun join_comma :: "string list \<Rightarrow> string" where
  "join_comma [] = []"
| "join_comma [s] = s"
| "join_comma (s # t # ss) = s @ CHR '','' # join_comma (t # ss)"

section \<open>The serializer\<close>

lemma size_arr_item: "x \<in> set vs \<Longrightarrow> size x < size (JArr vs)"
  by (auto simp: less_Suc_eq_le intro: size_list_estimation')

lemma size_obj_item: "(k, v) \<in> set ps \<Longrightarrow> size v < size (JObj ps)"
  by (auto simp: less_Suc_eq_le intro!: size_list_estimation' [where x = "(k, v)"])

function stringify :: "(rat \<Rightarrow> string) \<Rightarrow> jsval \<Rightarrow> canon_error + string" where
  "stringify num JUndef = Inl UndefinedNotSerializable"
| "stringify num JNull = Inr ''null''"
| "stringify num (JBool b) = Inr (if b then ''true'' else ''false'')"
| "stringify num (JNum n) = (case n of NonFinite \<Rightarrow> Inl NonFiniteNumber | Finite q \<Rightarrow> Inr (num q))"
| "stringify num (JStr s) = Inr (quote_str s)"
| "stringify num (JBigInt i) = Inl BigIntNotSupported"
| "stringify num JFun = Inl UnsupportedType"
| "stringify num (JArr vs) =
     bindE (collectE (map (stringify num) vs)) (\<lambda>parts. Inr (CHR ''['' # join_comma parts @ '']''))"
| "stringify num (JObj ps) =
     bindE (collectE (map (\<lambda>(k, v). bindE (stringify num v) (\<lambda>t. Inr (quote_str k @ CHR '':'' # t)))
              (filter (\<lambda>(k, v). v \<noteq> JUndef) (sort_key fst ps))))
       (\<lambda>parts. Inr (CHR ''{'' # join_comma parts @ ''}''))"
  by pat_completeness auto
termination
  by (relation "measure (\<lambda>(num, v). size v)")
     (auto simp del: jsval.size intro: size_arr_item size_obj_item)

definition canonicalize :: "(rat \<Rightarrow> string) \<Rightarrow> jsval \<Rightarrow> canon_error + string" where
  "canonicalize num v = stringify num v"

section \<open>The value the text stands for\<close>

text \<open>Keys sorted and \<open>undefined\<close> properties dropped, at every depth.\<close>

function jnorm :: "jsval \<Rightarrow> jsval" where
  "jnorm (JArr vs) = JArr (map jnorm vs)"
| "jnorm (JObj ps) =
     JObj (map (\<lambda>(k, v). (k, jnorm v)) (filter (\<lambda>(k, v). v \<noteq> JUndef) (sort_key fst ps)))"
| "jnorm JUndef = JUndef"
| "jnorm JNull = JNull"
| "jnorm (JBool b) = JBool b"
| "jnorm (JNum n) = JNum n"
| "jnorm (JStr s) = JStr s"
| "jnorm (JBigInt i) = JBigInt i"
| "jnorm JFun = JFun"
  by pat_completeness auto
termination
  by (relation "measure size") (auto simp del: jsval.size intro: size_arr_item size_obj_item)

text \<open>
  What is assumed of \<open>Number.prototype.toString\<close> on finite values: a non-empty text over the
  number alphabet that starts with a digit or a minus sign, different for different values.
\<close>

definition num_text_ok :: "(rat \<Rightarrow> string) \<Rightarrow> bool" where
  "num_text_ok num \<longleftrightarrow> inj num \<and>
     (\<forall>q. num q \<noteq> [] \<and> hd (num q) \<in> set ''-0123456789'' \<and> set (num q) \<subseteq> set ''0123456789+-.e'')"

definition delim :: "string \<Rightarrow> bool" where
  "delim r \<longleftrightarrow> r = [] \<or> hd r \<in> set '',]}''"

lemma delim_simps [simp]:
  "delim []" "delim (CHR '','' # r)" "delim (CHR '']'' # r)" "delim (CHR ''}'' # r)"
  by (simp_all add: delim_def)

subsection \<open>String literals are self-delimiting\<close>

definition hex_val :: "char \<Rightarrow> nat" where
  "hex_val c = (let n = of_char c :: nat in if n < 58 then n - 48 else n - 87)"

lemma hex_val_hex_char: "n < 16 \<Longrightarrow> hex_val (hex_char n) = n"
proof -
  have "\<forall>n \<in> set [0..<16]. hex_val (hex_char n) = n" by code_simp
  then show "n < 16 \<Longrightarrow> hex_val (hex_char n) = n" by simp
qed

definition unesc :: "string \<Rightarrow> char \<times> string" where
  "unesc s = (let c = hd s; cs = tl s; d = hd cs; ds = tl cs in
     if c \<noteq> CHR 0x5C then (c, cs)
     else if d = CHR 0x22 then (char_of (34::nat), ds)
     else if d = CHR 0x5C then (char_of (92::nat), ds)
     else if d = CHR ''b'' then (char_of (8::nat), ds)
     else if d = CHR ''t'' then (char_of (9::nat), ds)
     else if d = CHR ''n'' then (char_of (10::nat), ds)
     else if d = CHR ''f'' then (char_of (12::nat), ds)
     else if d = CHR ''r'' then (char_of (13::nat), ds)
     else (char_of (16 * hex_val (ds ! 2) + hex_val (ds ! 3)), drop 4 ds))"

lemma char_eq_of_char: "(of_char c :: nat) = n \<Longrightarrow> c = char_of n"
  by (metis char_of_char)

lemma unesc_esc: "unesc (esc_char c @ r) = (c, r)"
proof -
  define n where "n = (of_char c :: nat)"
  consider "n \<in> {34, 92, 8, 9, 10, 12, 13}" | "n \<notin> {34, 92, 8, 9, 10, 12, 13}" "n < 32"
    | "n \<notin> {34, 92, 8, 9, 10, 12, 13}" "\<not> n < 32" by blast
  then show ?thesis
  proof cases
    case 1
    have "c = char_of n" by (simp add: n_def)
    with 1 have "c \<in> {char_of (34::nat), char_of (92::nat), char_of (8::nat), char_of (9::nat),
        char_of (10::nat), char_of (12::nat), char_of (13::nat)}" by blast
    then show ?thesis
      by (elim insertE emptyE; simp only:; simp add: esc_char_def unesc_def)
  next
    case 2
    then have "hex_val (hex_char (n div 16)) = n div 16" "hex_val (hex_char (n mod 16)) = n mod 16"
      by (auto intro: hex_val_hex_char)
    moreover have "16 * (n div 16) + n mod 16 = n" by simp
    ultimately show ?thesis using 2
      by (auto simp: esc_char_def unesc_def Let_def n_def [symmetric] numeral_2_eq_2 numeral_3_eq_3)
         (simp add: n_def)
  next
    case 3
    then have "c \<noteq> CHR 0x5C" by (auto simp: n_def)
    with 3 show ?thesis by (auto simp: esc_char_def unesc_def Let_def n_def)
  qed
qed

lemma esc_char_append_inj: "esc_char c @ x = esc_char d @ y \<Longrightarrow> c = d \<and> x = y"
  by (metis prod.inject unesc_esc)

lemma esc_char_head: "\<exists>h u. esc_char c = h # u \<and> h \<noteq> CHR 0x22"
  by (auto simp: esc_char_def Let_def)

lemma quote_body_uniq:
  "concat (map esc_char s) @ CHR 0x22 # r = concat (map esc_char t) @ CHR 0x22 # q \<Longrightarrow> s = t \<and> r = q"
proof (induction s arbitrary: t)
  case Nil
  then show ?case
    using esc_char_head by (cases t) (auto, metis append_Cons list.inject)
next
  case (Cons c s)
  show ?case
  proof (cases t)
    case Nil
    then show ?thesis using Cons.prems esc_char_head [of c] by auto
  next
    case (Cons d t')
    with Cons.prems have "esc_char c @ (concat (map esc_char s) @ CHR 0x22 # r)
        = esc_char d @ (concat (map esc_char t') @ CHR 0x22 # q)" by simp
    then have "c = d" "concat (map esc_char s) @ CHR 0x22 # r = concat (map esc_char t') @ CHR 0x22 # q"
      by (auto dest: esc_char_append_inj)
    with Cons.IH Cons show ?thesis by blast
  qed
qed

lemma quote_str_uniq: "quote_str s @ r = quote_str t @ q \<Longrightarrow> s = t \<and> r = q"
  using quote_body_uniq [of s r t q] by (simp add: quote_str_def)

subsection \<open>The first character tells the kind\<close>

fun kind_of :: "jsval \<Rightarrow> nat" where
  "kind_of JNull = 0"
| "kind_of (JBool b) = (if b then 1 else 2)"
| "kind_of (JNum n) = 3"
| "kind_of (JStr s) = 4"
| "kind_of (JArr vs) = 5"
| "kind_of (JObj ps) = 6"
| "kind_of v = 7"

definition char_kind :: "char \<Rightarrow> nat" where
  "char_kind c = (if c = CHR ''n'' then 0 else if c = CHR ''t'' then 1 else if c = CHR ''f'' then 2
     else if c \<in> set ''-0123456789'' then 3 else if c = CHR 0x22 then 4
     else if c = CHR ''['' then 5 else if c = CHR ''{'' then 6 else 8)"

lemma stringify_head:
  assumes "num_text_ok num" "stringify num v = Inr s"
  shows "s \<noteq> [] \<and> char_kind (hd s) = kind_of v"
proof (cases v)
  case (JNum n)
  with assms obtain q where q: "s = num q" by (cases n) auto
  with assms(1) have "s \<noteq> []" "hd s \<in> set ''-0123456789''" by (auto simp: num_text_ok_def)
  then show ?thesis by (auto simp: JNum char_kind_def)
qed (use assms(2) in \<open>auto simp: char_kind_def quote_str_def bindE_Inr_iff split: if_splits\<close>)

lemma stringify_head_close:
  assumes "num_text_ok num" "stringify num v = Inr s"
  shows "s \<noteq> []" "hd s \<notin> set '',]}''"
proof -
  from stringify_head [OF assms] show "s \<noteq> []" by simp
  from assms(2) have "kind_of v \<noteq> 8" by (cases v) auto
  with stringify_head [OF assms] show "hd s \<notin> set '',]}''" by (auto simp: char_kind_def)
qed

lemma append_takeWhile_uniq:
  assumes "s @ r = t @ q" "\<And>c. c \<in> set s \<union> set t \<Longrightarrow> P c"
    "r = [] \<or> \<not> P (hd r)" "q = [] \<or> \<not> P (hd q)"
  shows "s = t \<and> r = q"
proof -
  have "takeWhile P (s @ r) = s" "takeWhile P (t @ q) = t"
    using assms(2-4) by (auto simp: takeWhile_append takeWhile_eq_Nil_iff)
  with assms(1) show ?thesis by (metis same_append_eq)
qed

lemma num_text_uniq:
  assumes ok: "num_text_ok num" and eq: "num a @ r = num b @ q" and "delim r" "delim q"
  shows "a = b \<and> r = q"
proof -
  have "num a = num b \<and> r = q"
  proof (rule append_takeWhile_uniq [OF eq, where P = "\<lambda>c. c \<in> set ''0123456789+-.e''"])
    fix c assume "c \<in> set (num a) \<union> set (num b)"
    with ok show "c \<in> set ''0123456789+-.e''" unfolding num_text_ok_def by blast
  qed (use assms(3,4) in \<open>auto simp: delim_def\<close>)
  with ok show ?thesis by (auto simp: num_text_ok_def inj_def)
qed

subsection \<open>Comma-separated lists are self-delimiting before their closing bracket\<close>

lemma join_comma_Cons: "ss \<noteq> [] \<Longrightarrow> join_comma (s # ss) = s @ CHR '','' # join_comma ss"
  by (cases ss) auto

lemma join_comma_uniq:
  assumes one: "\<And>x y s t r q. x \<in> set xs \<Longrightarrow> y \<in> set ys \<Longrightarrow> f x = Inr s \<Longrightarrow> g y = Inr t \<Longrightarrow>
      s @ r = t @ q \<Longrightarrow> delim r \<Longrightarrow> delim q \<Longrightarrow> N x y \<and> r = q"
    and hf: "\<And>x s. x \<in> set xs \<Longrightarrow> f x = Inr s \<Longrightarrow> s \<noteq> [] \<and> hd s \<noteq> cl"
    and hg: "\<And>y t. y \<in> set ys \<Longrightarrow> g y = Inr t \<Longrightarrow> t \<noteq> [] \<and> hd t \<noteq> cl"
    and cl: "cl \<in> set '']}''"
    and "collectE (map f xs) = Inr ps" "collectE (map g ys) = Inr qs"
    and "join_comma ps @ cl # r = join_comma qs @ cl # q"
  shows "list_all2 N xs ys \<and> r = q"
  using assms
proof (induction xs arbitrary: ys ps qs)
  case Nil
  show ?case
  proof (cases ys)
    case (Cons y ys')
    with Nil.prems(6) obtain t qs' where qs: "g y = Inr t" "qs = t # qs'"
      by (cases qs) (auto simp: collectE_Inr_iff)
    with Nil.prems(3) Cons have "t \<noteq> []" "hd t \<noteq> cl" by auto
    with qs Nil.prems(5,7) show ?thesis by (cases qs'; cases t) auto
  qed (use Nil in auto)
next
  case (Cons x xs)
  from Cons.prems(5) obtain s ps' where ps: "f x = Inr s" "ps = s # ps'" "collectE (map f xs) = Inr ps'"
    by (cases ps) (auto simp: collectE_Inr_iff)
  show ?case
  proof (cases ys)
    case Nil
    from Cons.prems(2) ps have "s \<noteq> []" "hd s \<noteq> cl" by auto
    with ps Cons.prems(6,7) Nil show ?thesis by (cases ps'; cases s) auto
  next
    case (Cons y ys')
    with Cons.prems(6) obtain t qs' where qs: "g y = Inr t" "qs = t # qs'" "collectE (map g ys') = Inr qs'"
      by (cases qs) (auto simp: collectE_Inr_iff)
    define rs where "rs us u = (if us = [] then cl # u else CHR '','' # join_comma us @ cl # u)" for us u
    have dl: "delim (rs us u)" for us u using cl by (auto simp: rs_def)
    have split: "join_comma (a # us) @ cl # u = a @ rs us u" for a us u
      by (cases us) (auto simp: rs_def)
    have "s @ rs ps' r = t @ rs qs' q"
      using Cons.prems(7) by (simp add: ps(2) qs(2) split)
    then have N: "N x y" and rest: "rs ps' r = rs qs' q"
      using Cons.prems(1) [of x y s t "rs ps' r" "rs qs' q"] Cons ps(1) qs(1) dl by auto
    have "list_all2 N xs ys' \<and> r = q"
    proof (cases "ps' = []")
      case True
      with rest cl have "qs' = []" "r = q" by (auto simp: rs_def split: if_splits)
      moreover have "xs = []" "ys' = []"
        using True calculation(1) ps(3) qs(3) by (auto simp: collectE_Inr_iff)
      ultimately show ?thesis by simp
    next
      case False
      with rest cl have "join_comma ps' @ cl # r = join_comma qs' @ cl # q"
        by (auto simp: rs_def split: if_splits)
      then show ?thesis
      proof (rule Cons.IH [OF _ _ _ cl ps(3) qs(3), rotated 3])
        fix x' y' s t r q
        assume "x' \<in> set xs" "y' \<in> set ys'" "f x' = Inr s" "g y' = Inr t" "s @ r = t @ q" "delim r" "delim q"
        then show "N x' y' \<and> r = q" by (intro Cons.prems(1)) (simp_all add: Cons)
      next
        fix x' s assume "x' \<in> set xs" "f x' = Inr s"
        then show "s \<noteq> [] \<and> hd s \<noteq> cl" by (intro Cons.prems(2)) simp_all
      next
        fix y' t assume "y' \<in> set ys'" "g y' = Inr t"
        then show "t \<noteq> [] \<and> hd t \<noteq> cl" by (intro Cons.prems(3)) (simp_all add: Cons)
      qed
    qed
    with N Cons show ?thesis by simp
  qed
qed

subsection \<open>Equal text, equal value\<close>

lemma jnorm_undef_iff [simp]: "jnorm v = JUndef \<longleftrightarrow> v = JUndef"
  by (cases v) auto

definition prop_text :: "(rat \<Rightarrow> string) \<Rightarrow> string \<times> jsval \<Rightarrow> canon_error + string" where
  "prop_text num = (\<lambda>(k, v). bindE (stringify num v) (\<lambda>t. Inr (quote_str k @ CHR '':'' # t)))"

definition live_props :: "(string \<times> jsval) list \<Rightarrow> (string \<times> jsval) list" where
  "live_props ps = filter (\<lambda>(k, v). v \<noteq> JUndef) (sort_key fst ps)"

lemma set_live_props: "(k, v) \<in> set (live_props ps) \<longleftrightarrow> (k, v) \<in> set ps \<and> v \<noteq> JUndef"
  by (auto simp: live_props_def)

lemma stringify_obj:
  "stringify num (JObj ps) =
     bindE (collectE (map (prop_text num) (live_props ps))) (\<lambda>parts. Inr (CHR ''{'' # join_comma parts @ ''}''))"
  by (simp add: prop_text_def live_props_def)

lemma jnorm_obj: "jnorm (JObj ps) = JObj (map (\<lambda>(k, v). (k, jnorm v)) (live_props ps))"
  by (simp add: live_props_def)

lemma stringify_uniq:
  assumes ok: "num_text_ok num"
  shows "stringify num v = Inr s \<Longrightarrow> stringify num w = Inr t \<Longrightarrow> s @ r = t @ q \<Longrightarrow> delim r \<Longrightarrow> delim q
    \<Longrightarrow> jnorm v = jnorm w \<and> r = q"
proof (induction v arbitrary: w s t r q rule: measure_induct_rule [where f = size])
  case (less v)
  have "s \<noteq> []" "t \<noteq> []" "char_kind (hd s) = kind_of v" "char_kind (hd t) = kind_of w"
    using stringify_head [OF ok] less.prems(1,2) by blast+
  moreover have "hd s = hd t" using less.prems(3) calculation(1,2) by (metis hd_append2)
  ultimately have kinds: "kind_of v = kind_of w" by simp
  show ?case
  proof (cases v)
    case (JNum n)
    with kinds obtain m where w: "w = JNum m" by (cases w) (auto split: if_splits)
    from less.prems(1,2) JNum w obtain a b where "n = Finite a" "m = Finite b" "s = num a" "t = num b"
      by (cases n; cases m) auto
    with num_text_uniq [OF ok, of a r b q] less.prems(3-5) JNum w show ?thesis by simp
  next
    case (JStr x)
    with kinds obtain y where w: "w = JStr y" by (cases w) (auto split: if_splits)
    with quote_str_uniq [of x r y q] less.prems(1-3) JStr show ?thesis by simp
  next
    case (JArr vs)
    with kinds obtain ws where w: "w = JArr ws" by (cases w) (auto split: if_splits)
    from less.prems(1) JArr obtain ps where ps: "collectE (map (stringify num) vs) = Inr ps"
      "s = CHR ''['' # join_comma ps @ '']''" by (auto simp: bindE_Inr_iff)
    from less.prems(2) w obtain qs where qs: "collectE (map (stringify num) ws) = Inr qs"
      "t = CHR ''['' # join_comma qs @ '']''" by (auto simp: bindE_Inr_iff)
    have "list_all2 (\<lambda>x y. jnorm x = jnorm y) vs ws \<and> r = q"
    proof (rule join_comma_uniq [OF _ _ _ _ ps(1) qs(1), where cl = "CHR '']''"])
      show "join_comma ps @ CHR '']'' # r = join_comma qs @ CHR '']'' # q"
        using less.prems(3) ps(2) qs(2) by simp
    next
      fix x y s t r q
      assume x: "x \<in> set vs" and "stringify num x = Inr s" "stringify num y = Inr t" "s @ r = t @ q"
        "delim r" "delim q"
      then show "jnorm x = jnorm y \<and> r = q"
        using less.IH [of x s y t r q] size_arr_item [OF x] JArr by simp
    qed (use stringify_head_close [OF ok] in fastforce)+
    with JArr w show ?thesis by (simp add: list_all2_conv_all_nth list_eq_iff_nth_eq)
  next
    case (JObj vs)
    with kinds obtain ws where w: "w = JObj ws" by (cases w) (auto split: if_splits)
    from less.prems(1) JObj obtain ps where ps: "collectE (map (prop_text num) (live_props vs)) = Inr ps"
      "s = CHR ''{'' # join_comma ps @ ''}''" by (auto simp: bindE_Inr_iff stringify_obj simp del: stringify.simps)
    from less.prems(2) w obtain qs where qs: "collectE (map (prop_text num) (live_props ws)) = Inr qs"
      "t = CHR ''{'' # join_comma qs @ ''}''" by (auto simp: bindE_Inr_iff stringify_obj simp del: stringify.simps)
    have "list_all2 (\<lambda>(k, x) (l, y). k = l \<and> jnorm x = jnorm y) (live_props vs) (live_props ws) \<and> r = q"
    proof (rule join_comma_uniq [OF _ _ _ _ ps(1) qs(1), where cl = "CHR ''}''"])
      show "join_comma ps @ CHR ''}'' # r = join_comma qs @ CHR ''}'' # q"
        using less.prems(3) ps(2) qs(2) by simp
    next
      fix x y s t r q
      assume x: "x \<in> set (live_props vs)" and xs: "prop_text num x = Inr s" and yt: "prop_text num y = Inr t"
        and eq: "s @ r = t @ q" and dl: "delim r" "delim q"
      obtain k a l b where xy: "x = (k, a)" "y = (l, b)" by (cases x; cases y)
      from xs yt xy obtain s' t' where st: "stringify num a = Inr s'" "s = quote_str k @ CHR '':'' # s'"
        "stringify num b = Inr t'" "t = quote_str l @ CHR '':'' # t'"
        by (auto simp: prop_text_def bindE_Inr_iff)
      from quote_str_uniq [of k "CHR '':'' # s' @ r" l "CHR '':'' # t' @ q"] eq st
      have kl: "k = l" and rest: "s' @ r = t' @ q" by simp_all
      from x xy have "(k, a) \<in> set vs" by (simp add: set_live_props)
      from less.IH [of a s' b t' r q] size_obj_item [OF this] JObj st(1,3) rest dl
      show "(case x of (k, x) \<Rightarrow> \<lambda>(l, y). k = l \<and> jnorm x = jnorm y) y \<and> r = q"
        by (simp add: xy kl)
    qed (auto simp: prop_text_def bindE_Inr_iff quote_str_def)
    then have "map (\<lambda>(k, x). (k, jnorm x)) (live_props vs) = map (\<lambda>(k, x). (k, jnorm x)) (live_props ws)"
      and "r = q" by (auto simp: list_all2_conv_all_nth intro!: nth_equalityI split: prod.splits)
    with JObj w show ?thesis by (simp add: jnorm_obj del: jnorm.simps)
  qed (use kinds less.prems in \<open>cases w; auto split: if_splits\<close>)+
qed

lemma sorted_live_props: "sorted (map fst (live_props ps))"
  by (simp add: live_props_def sorted_filter)

lemma live_props_normal:
  "live_props (map (\<lambda>(k, v). (k, jnorm v)) (live_props ps)) = map (\<lambda>(k, v). (k, jnorm v)) (live_props ps)"
proof -
  let ?qs = "map (\<lambda>(k, v). (k, jnorm v)) (live_props ps)"
  have "map fst ?qs = map fst (live_props ps)" by (simp add: comp_def split_def)
  then have "sort_key fst ?qs = ?qs"
    using sorted_live_props by (intro sort_key_id_if_sorted) metis
  moreover have "filter (\<lambda>(k, v). v \<noteq> JUndef) ?qs = ?qs"
    by (rule filter_True) (auto simp: set_live_props)
  ultimately show ?thesis by (simp add: live_props_def)
qed

lemma stringify_jnorm: "stringify num (jnorm v) = stringify num v"
proof (induction v rule: measure_induct_rule [where f = size])
  case (less v)
  show ?case
  proof (cases v)
    case (JArr vs)
    have "map (stringify num) (map jnorm vs) = map (stringify num) vs"
      using less JArr size_arr_item by auto
    then show ?thesis by (simp add: JArr del: map_map)
  next
    case (JObj ps)
    have "prop_text num (k, jnorm x) = prop_text num (k, x)" if "(k, x) \<in> set (live_props ps)" for k x
      using less [of x] size_obj_item [of k x ps] that JObj by (simp add: prop_text_def set_live_props)
    then have "map (prop_text num) (map (\<lambda>(k, v). (k, jnorm v)) (live_props ps)) = map (prop_text num) (live_props ps)"
      by auto
    then show ?thesis by (simp only: JObj jnorm_obj stringify_obj live_props_normal)
  qed simp_all
qed

section \<open>A concrete number text\<close>

text \<open>Numerator and denominator around an \<open>e\<close>: it meets \<open>num_text_ok\<close>, so the contract can hold.\<close>

definition sample_num :: "rat \<Rightarrow> string" where
  "sample_num q = (let (a, b) = quotient_of q in
     (if a < 0 then ''-'' else []) @ dec_of (nat \<bar>a\<bar>) @ CHR ''e'' # dec_of (nat b))"

lemma dec_char_digit: "n < 10 \<Longrightarrow> dec_char n \<in> set ''0123456789''"
  by (drule nat_lt_10_cases) (auto simp: dec_char_def)

lemma dec_of_digits: "set (dec_of n) \<subseteq> set ''0123456789'' \<and> dec_of n \<noteq> []"
proof (induction n rule: dec_of.induct)
  case (1 n)
  show ?case
  proof (cases "n < 10")
    case True
    then have "dec_of n = [dec_char n]" by (subst dec_of.simps) simp
    then show ?thesis using dec_char_digit [OF True] by auto
  next
    case False
    then have "dec_of n = dec_of (n div 10) @ [dec_char (n mod 10)]" by (subst dec_of.simps) simp
    moreover from 1 False have "set (dec_of (n div 10)) \<subseteq> set ''0123456789''" by simp
    moreover have "dec_char (n mod 10) \<in> set ''0123456789''" by (rule dec_char_digit) simp
    ultimately show ?thesis by auto
  qed
qed

lemma sample_num_inj: "sample_num p = sample_num q \<Longrightarrow> p = q"
proof -
  assume eq: "sample_num p = sample_num q"
  obtain a b c d where ab: "quotient_of p = (a, b)" and cd: "quotient_of q = (c, d)"
    by (cases "quotient_of p"; cases "quotient_of q")
  have pos: "0 < b" "0 < d" using ab cd by (auto dest: quotient_of_denom_pos)
  let ?sg = "\<lambda>x::int. if x < 0 then ''-'' else []"
  have dg: "x \<in> set (dec_of n) \<Longrightarrow> x \<in> set ''0123456789''" for x n using dec_of_digits by blast
  have h: "(?sg a @ dec_of (nat \<bar>a\<bar>)) @ CHR ''e'' # dec_of (nat b)
      = (?sg c @ dec_of (nat \<bar>c\<bar>)) @ CHR ''e'' # dec_of (nat d)"
    using eq by (simp add: sample_num_def ab cd)
  have split: "?sg a @ dec_of (nat \<bar>a\<bar>) = ?sg c @ dec_of (nat \<bar>c\<bar>)
      \<and> CHR ''e'' # dec_of (nat b) = CHR ''e'' # dec_of (nat d)"
    by (rule append_takeWhile_uniq [OF h, where P = "\<lambda>x. x \<noteq> CHR ''e''"]) (auto dest: dg split: if_splits)
  then have "nat b = nat d" by (simp add: dec_of_inj)
  with pos have "b = d" by simp
  moreover have "a = c"
  proof -
    have nm: "dec_of n \<noteq> CHR ''-'' # s" for n s
      using dg [of "CHR ''-''" n] by auto
    have "(a < 0) = (c < 0)" "nat \<bar>a\<bar> = nat \<bar>c\<bar>"
      using split nm [symmetric] nm by (auto simp: dec_of_inj split: if_splits)
    then show ?thesis by auto
  qed
  ultimately show "p = q" using ab cd by (metis quotient_of_inject_eq)
qed

lemma sample_num_ok: "num_text_ok sample_num"
proof -
  have "sample_num q \<noteq> [] \<and> hd (sample_num q) \<in> set ''-0123456789'' \<and>
      set (sample_num q) \<subseteq> set ''0123456789+-.e''" for q
  proof -
    obtain a b where ab: "quotient_of q = (a, b)" by (cases "quotient_of q")
    let ?d = "dec_of (nat \<bar>a\<bar>)" and ?e = "dec_of (nat b)"
    define D A F where "D = set ''0123456789''" and "A = set ''0123456789+-.e''" and "F = set ''-0123456789''"
    have D: "D \<subseteq> F" "D \<subseteq> A" "{CHR ''-'', CHR ''e''} \<subseteq> A" "CHR ''-'' \<in> F"
      by (simp_all add: D_def A_def F_def)
    have d: "?d \<noteq> []" "set ?d \<subseteq> D" "set ?e \<subseteq> D"
      using dec_of_digits unfolding D_def by blast+
    then have hd: "hd ?d \<in> D" by (meson hd_in_set subsetD)
    have "sample_num q \<noteq> [] \<and> hd (sample_num q) \<in> F \<and> set (sample_num q) \<subseteq> A"
    proof (cases "a < 0")
      case True
      then have s: "sample_num q = CHR ''-'' # ?d @ CHR ''e'' # ?e" by (simp add: sample_num_def ab)
      have "set (sample_num q) \<subseteq> {CHR ''-'', CHR ''e''} \<union> D" using d unfolding s by auto
      with D show ?thesis unfolding s by simp blast
    next
      case False
      then have s: "sample_num q = ?d @ CHR ''e'' # ?e" by (simp add: sample_num_def ab)
      have "set (sample_num q) \<subseteq> {CHR ''e''} \<union> D" using d unfolding s by auto
      moreover have "hd (sample_num q) \<in> D" using d hd unfolding s by simp
      moreover have "sample_num q \<noteq> []" using d unfolding s by simp
      ultimately show ?thesis using D by blast
    qed
    then show ?thesis unfolding D_def A_def F_def .
  qed
  then show ?thesis unfolding num_text_ok_def by (auto simp: inj_def intro: sample_num_inj)
qed

section \<open>Properties\<close>

text \<open>C7. The canonical text is injective up to normalization: two values that serialize to
the same text are the same value, but for the order of object keys and properties whose value
is \<open>undefined\<close>. So a hash or HMAC over the canonical bytes speaks about every field.\<close>

theorem canonicalize_determines_value:
  assumes "num_text_ok num"
    and "canonicalize num v = Inr s" and "canonicalize num w = Inr s"
  shows "jnorm v = jnorm w"
  using stringify_uniq [OF assms(1), of v s w s "[]" "[]"] assms(2,3) by (simp add: canonicalize_def)

theorem canonicalize_determines_value_witness:
  "canonicalize sample_num (JObj [(''b'', JNull), (''a'', JArr [JBool True])])
     = Inr (CHR ''{'' # quote_str ''a'' @ '':[true],'' @ quote_str ''b'' @ '':null}'') \<and>
   jnorm (JObj [(''b'', JNull), (''a'', JArr [JBool True])])
     = jnorm (JObj [(''a'', JArr [JBool True]), (''c'', JUndef), (''b'', JNull)])"
proof -
  have a: "canonicalize sample_num (JObj [(''b'', JNull), (''a'', JArr [JBool True])])
      = Inr (CHR ''{'' # quote_str ''a'' @ '':[true],'' @ quote_str ''b'' @ '':null}'')" by code_simp
  have b: "canonicalize sample_num (JObj [(''a'', JArr [JBool True]), (''c'', JUndef), (''b'', JNull)])
      = Inr (CHR ''{'' # quote_str ''a'' @ '':[true],'' @ quote_str ''b'' @ '':null}'')" by code_simp
  show ?thesis using a canonicalize_determines_value [OF sample_num_ok a b] by simp
qed

text \<open>The canonical text does not depend on the insertion order of an object's keys, nor
on properties whose value is \<open>undefined\<close>: rearranging the properties of an object with
distinct keys and dropping \<open>undefined\<close> ones gives the same text or the same error, and so
does normalizing at every depth.\<close>

theorem canonicalize_order_independent:
  assumes "distinct (map fst ps)" and "mset (filter (\<lambda>(k, v). v \<noteq> JUndef) ps) = mset qs"
  shows "canonicalize num (JObj ps) = canonicalize num (JObj qs) \<and>
    canonicalize num (jnorm v) = canonicalize num v"
proof -
  have dist: "distinct (map fst (filter (\<lambda>(k, v). v \<noteq> JUndef) ps))"
    using assms(1) by (simp add: distinct_map_filter)
  have inj: "inj_on fst (set (filter (\<lambda>(k, v). v \<noteq> JUndef) ps))"
    using dist by (simp add: distinct_map)
  have "set qs = set (filter (\<lambda>(k, v). v \<noteq> JUndef) ps)"
    using assms(2) by (metis set_mset_mset)
  then have "live_props qs = sort_key fst qs"
    unfolding live_props_def by (intro filter_True) auto
  also have "\<dots> = sort_key fst (filter (\<lambda>(k, v). v \<noteq> JUndef) ps)"
    using sort_key_inj_key_eq [of "filter (\<lambda>(k, v). v \<noteq> JUndef) ps" "sort_key fst qs" fst] assms(2) inj
    by simp
  also have "\<dots> = live_props ps"
    by (simp add: live_props_def filter_sort)
  finally have "canonicalize num (JObj ps) = canonicalize num (JObj qs)"
    by (simp only: canonicalize_def stringify_obj)
  then show ?thesis
    by (simp add: canonicalize_def stringify_jnorm)
qed

theorem canonicalize_order_independent_witness:
  "canonicalize sample_num (JObj [(''b'', JNull), (''a'', JUndef), (''A'', JStr ''x'')])
     = canonicalize sample_num (JObj [(''A'', JStr ''x''), (''b'', JNull)])"
  using canonicalize_order_independent
    [of "[(''b'', JNull), (''a'', JUndef), (''A'', JStr ''x'')]" "[(''A'', JStr ''x''), (''b'', JNull)]" sample_num JNull]
  by simp

end
