(* ===== verification/Audit_Chain.thy ===== *)
theory Audit_Chain
  imports Canonical_Json
begin

text \<open>
  \<^bold>\<open>packages/core-audit/src\<close> (\<open>append.ts\<close>, \<open>verify.ts\<close>, \<open>hmac.ts\<close>, \<open>lock-key.ts\<close>) with the
  SQL function \<open>govai.audit_append_locked\<close> of migration 0001: the append-only table of audit
  events, one chain per (organization, chain id), the append that computes the next sequence
  number, previous HMAC, canonical bytes, hash and HMAC, and the two verifiers.

  A call is one transaction: it returns the error it raises, or its result and the new tables;
  on an error the caller rolls back, so the tables are the old ones. The per-chain advisory lock
  makes a call atomic with respect to other appends on the chain. Reads go through row-level
  security: only rows of the session's organization are visible. SHA-256, the KMS and the text
  of a number are parameters (record \<open>crypto\<close>); a KMS call that throws is \<open>None\<close>.
\<close>

section \<open>Data\<close>

record crypto =
  sha :: "bytes \<Rightarrow> bytes"
  kms :: "string \<Rightarrow> string \<Rightarrow> int \<Rightarrow> bytes \<Rightarrow> bytes option"
  num_text :: "rat \<Rightarrow> string"

record audit_event =
  ev_id :: string
  ev_org :: string
  ev_chain :: string
  ev_seq :: int
  ev_type :: string
  ev_version :: string
  ev_subject_type :: string
  ev_subject_id :: string
  ev_occurred :: int
  ev_payload_hash :: bytes
  ev_payload_ref :: "string option"
  ev_redaction :: jsval
  ev_prev :: "bytes option"
  ev_hmac :: bytes
  ev_chash :: bytes
  ev_cbytes :: bytes
  ev_key_id :: string
  ev_key_version :: int
  ev_evidence :: string

datatype payload_status = PActive | PCryptoShredded | PTombstoned

record audit_payload =
  pl_id :: string
  pl_org :: string
  pl_encrypted :: bytes
  pl_dek :: "bytes option"
  pl_key_id :: string
  pl_key_version :: int
  pl_status :: payload_status
  pl_shredded_by :: "string option"

record audit_db =
  db_events :: "audit_event list"
  db_payloads :: "audit_payload list"

record append_input =
  ai_org :: string
  ai_chain :: string
  ai_type :: string
  ai_version :: string
  ai_subject_type :: string
  ai_subject_id :: string
  ai_occurred :: js_date
  ai_payload_hash :: bytes
  ai_payload_encrypted :: "bytes option"
  ai_dek_wrapped :: "bytes option"
  ai_key_id :: string
  ai_key_version :: int
  ai_redaction :: jsval
  ai_evidence :: "string option"
  ai_event_id :: "string option"

record append_output =
  ao_event_id :: string
  ao_payload_id :: "string option"
  ao_seq :: int
  ao_hmac :: bytes
  ao_cbytes :: bytes
  ao_chash :: bytes

datatype mismatch_field =
    MOrg | MChain | MType | MVersion | MSubjectType | MSubjectId | MPayloadHash
  | MPayloadStorage | MPayloadPresence | MKeyId | MKeyVersion | MEvidence | MCaptureId

datatype audit_error =
    TenantContextMismatch
  | EventIdNotUuid
  | DivergentContent mismatch_field
  | InvalidDate
  | Canon canon_error
  | KmsFailure
  | CastError
  | SqlTenantMismatch
  | EvidenceNotImplemented
  | PayloadIdWithoutPayload
  | PayloadWithoutIdOrDek
  | PreviousHmacMismatch
  | SequenceMismatch
  | UniqueViolation

section \<open>HMAC and lock key\<close>

definition byte_at :: "bytes \<Rightarrow> nat \<Rightarrow> 8 word" where
  "byte_at bs i = (if i < length bs then bs ! i else 0)"

text \<open>The comparison loop of \<open>hmacVerify\<close>: it accumulates the differences of all bytes.\<close>

unbundle bit_operations_syntax

definition bytes_diff :: "bytes \<Rightarrow> bytes \<Rightarrow> 8 word" where
  "bytes_diff actual expected =
     foldl (\<lambda>d i. d OR (byte_at actual i XOR byte_at expected i)) 0 [0..<length actual]"

definition hmacSign :: "crypto \<Rightarrow> string \<Rightarrow> string \<Rightarrow> int \<Rightarrow> bytes \<Rightarrow> audit_error + bytes" where
  "hmacSign cr org kid kv msg = (case kms cr org kid kv msg of None \<Rightarrow> Inl KmsFailure | Some m \<Rightarrow> Inr m)"

definition hmacVerify :: "crypto \<Rightarrow> string \<Rightarrow> string \<Rightarrow> int \<Rightarrow> bytes \<Rightarrow> bytes \<Rightarrow> audit_error + bool" where
  "hmacVerify cr org kid kv msg expected =
     bindE (hmacSign cr org kid kv msg) (\<lambda>actual.
       if length actual \<noteq> length expected then Inr False
       else Inr (bytes_diff actual expected = 0))"

text \<open>The first eight bytes of the digest, big-endian, as a signed 64-bit integer.\<close>

definition chainLockKey :: "crypto \<Rightarrow> string \<Rightarrow> int" where
  "chainLockKey cr chain =
     sint (foldl (\<lambda>a b. push_bit 8 a OR ucast b) (0 :: 64 word) (take 8 (sha cr (utf8 chain))))"

section \<open>Reads\<close>

text \<open>
  \<open>sess\<close> is the setting \<open>app.org_id\<close>; the policies show a row only when its organization
  is that setting.
\<close>

definition visible :: "string option \<Rightarrow> audit_event \<Rightarrow> bool" where
  "visible sess e = (sess = Some (ev_org e))"

definition chain_rows :: "string option \<Rightarrow> string \<Rightarrow> 'a audit_db_scheme \<Rightarrow> audit_event list" where
  "chain_rows sess chain db =
     sort_key ev_seq (filter (\<lambda>e. visible sess e \<and> ev_chain e = chain) (db_events db))"

definition chain_head :: "string option \<Rightarrow> string \<Rightarrow> 'a audit_db_scheme \<Rightarrow> audit_event option" where
  "chain_head sess chain db =
     (let rows = chain_rows sess chain db in if rows = [] then None else Some (last rows))"

text \<open>The cast of the id has been checked by the caller (\<open>isUuid\<close>).\<close>

definition findExistingEventById :: "string option \<Rightarrow> string \<Rightarrow> 'a audit_db_scheme \<Rightarrow> audit_event option" where
  "findExistingEventById sess eid db =
     find (\<lambda>e. visible sess e \<and> ev_id e = lower eid) (db_events db)"

section \<open>Reuse of an explicit event id\<close>

definition obj_get :: "jsval \<Rightarrow> string \<Rightarrow> jsval option" where
  "obj_get v k = (case v of JObj ps \<Rightarrow> map_of ps k | _ \<Rightarrow> None)"

definition readSealerCaptureId :: "jsval \<Rightarrow> string option" where
  "readSealerCaptureId red =
     (case obj_get red ''audit_sealer'' of
        Some sealer \<Rightarrow> (case obj_get sealer ''capture_id'' of Some (JStr s) \<Rightarrow> Some s | _ \<Rightarrow> None)
      | None \<Rightarrow> None)"

definition evidence_of :: "append_input \<Rightarrow> string" where
  "evidence_of i = (case ai_evidence i of None \<Rightarrow> ''hmac_internal'' | Some s \<Rightarrow> s)"

definition assertExistingEventMatches :: "append_input \<Rightarrow> audit_event \<Rightarrow> audit_error + unit" where
  "assertExistingEventMatches i row =
     (if ev_org row \<noteq> ai_org i then Inl (DivergentContent MOrg)
      else if ev_chain row \<noteq> ai_chain i then Inl (DivergentContent MChain)
      else if ev_type row \<noteq> ai_type i then Inl (DivergentContent MType)
      else if ev_version row \<noteq> ai_version i then Inl (DivergentContent MVersion)
      else if ev_subject_type row \<noteq> ai_subject_type i then Inl (DivergentContent MSubjectType)
      else if ev_subject_id row \<noteq> ai_subject_id i then Inl (DivergentContent MSubjectId)
      else if hex_of (ev_payload_hash row) \<noteq> hex_of (ai_payload_hash i) then Inl (DivergentContent MPayloadHash)
      else if (ai_payload_encrypted i \<noteq> None) \<noteq> (ai_dek_wrapped i \<noteq> None)
        then Inl (DivergentContent MPayloadStorage)
      else if (ev_payload_ref row \<noteq> None) \<noteq> (ai_payload_encrypted i \<noteq> None)
        then Inl (DivergentContent MPayloadPresence)
      else if ev_key_id row \<noteq> ai_key_id i then Inl (DivergentContent MKeyId)
      else if ev_key_version row \<noteq> ai_key_version i then Inl (DivergentContent MKeyVersion)
      else if ev_evidence row \<noteq> evidence_of i then Inl (DivergentContent MEvidence)
      else (case readSealerCaptureId (ai_redaction i) of
              None \<Rightarrow> Inr ()
            | Some cid \<Rightarrow> if readSealerCaptureId (ev_redaction row) \<noteq> Some cid
                then Inl (DivergentContent MCaptureId) else Inr ()))"

definition existingEventToOutput :: "audit_event \<Rightarrow> append_output" where
  "existingEventToOutput row =
     \<lparr> ao_event_id = ev_id row, ao_payload_id = ev_payload_ref row, ao_seq = ev_seq row,
       ao_hmac = ev_hmac row, ao_cbytes = ev_cbytes row, ao_chash = ev_chash row \<rparr>"

section \<open>The SQL append\<close>

text \<open>
  \<open>govai.audit_append_locked\<close>: \<open>row\<close> holds the columns of the event it is asked to
  write. \<open>UNIQUE (chain_id, sequence_number)\<close> and the primary keys see every row, also
  those of other organizations.
\<close>

definition insert_conflict :: "audit_event \<Rightarrow> 'a audit_db_scheme \<Rightarrow> bool" where
  "insert_conflict row db =
     list_ex (\<lambda>e. ev_id e = ev_id row \<or> (ev_chain e = ev_chain row \<and> ev_seq e = ev_seq row)) (db_events db)"

definition audit_append_locked ::
  "string option \<Rightarrow> audit_event \<Rightarrow> bytes option \<Rightarrow> bytes option \<Rightarrow> 'a audit_db_scheme
   \<Rightarrow> audit_error + 'a audit_db_scheme" where
  "audit_append_locked sess row enc dek db =
     (if sess = None \<or> sess = Some [] \<or> sess \<noteq> Some (ev_org row) then Inl SqlTenantMismatch
      else if ev_evidence row \<notin> {''hmac_internal'', ''dev_signed''} then Inl EvidenceNotImplemented
      else if enc = None \<and> ev_payload_ref row \<noteq> None then Inl PayloadIdWithoutPayload
      else if enc \<noteq> None \<and> (ev_payload_ref row = None \<or> dek = None) then Inl PayloadWithoutIdOrDek
      else
        let head = chain_head sess (ev_chain row) db in
        if map_option ev_hmac head \<noteq> ev_prev row then Inl PreviousHmacMismatch
        else if (case head of None \<Rightarrow> 0 | Some h \<Rightarrow> ev_seq h) + 1 \<noteq> ev_seq row then Inl SequenceMismatch
        else
          let pls = (case (enc, ev_payload_ref row) of
              (Some b, Some pid) \<Rightarrow>
                [\<lparr> pl_id = pid, pl_org = ev_org row, pl_encrypted = b, pl_dek = dek,
                   pl_key_id = ev_key_id row, pl_key_version = ev_key_version row,
                   pl_status = PActive, pl_shredded_by = None \<rparr>]
            | _ \<Rightarrow> [])
          in if list_ex (\<lambda>p. list_ex (\<lambda>q. pl_id q = pl_id p) (db_payloads db)) pls then Inl UniqueViolation
             else if insert_conflict row db then Inl UniqueViolation
             else Inr (db\<lparr> db_events := db_events db @ [row], db_payloads := db_payloads db @ pls \<rparr>))"

section \<open>The append\<close>

definition event_value ::
  "string \<Rightarrow> string \<Rightarrow> string \<Rightarrow> int \<Rightarrow> bytes option \<Rightarrow> string \<Rightarrow> string \<Rightarrow> string \<Rightarrow> string \<Rightarrow> int
   \<Rightarrow> bytes \<Rightarrow> string option \<Rightarrow> string \<Rightarrow> int \<Rightarrow> string \<Rightarrow> jsval \<Rightarrow> jsval" where
  "event_value eid org chain sq prev typ ver st sid occ ph pref kid kv evi red = JObj
     [(''event_id'', JStr eid),
      (''org_id'', JStr org),
      (''chain_id'', JStr chain),
      (''sequence_number'', JStr (dec_of (nat sq))),
      (''previous_hmac'', case prev of None \<Rightarrow> JNull | Some h \<Rightarrow> JStr (hex_of h)),
      (''event_type'', JStr typ),
      (''event_version'', JStr ver),
      (''subject_type'', JStr st),
      (''subject_id'', JStr sid),
      (''occurred_at'', JStr (iso_of_ms occ)),
      (''payload_hash'', JStr (hex_of ph)),
      (''payload_ref'', case pref of None \<Rightarrow> JNull | Some p \<Rightarrow> JStr p),
      (''key_id'', JStr kid),
      (''key_version'', JNum (Finite (of_int kv))),
      (''evidence_strength'', JStr evi),
      (''redaction_metadata'', red)]"

text \<open>The \<open>jsonb\<close> column: \<open>JSON.stringify\<close> drops the \<open>undefined\<close> properties, key order is the database's.\<close>

definition to_jsonb :: "jsval \<Rightarrow> jsval" where
  "to_jsonb v = jnorm v"

text \<open>
  What PostgreSQL refuses when it casts a parameter: a \<open>text\<close> with the character NUL, a
  \<open>jsonb\<close> with that character in a string or a key (\<open>JSON.stringify\<close> writes it as an escape
  that \<open>jsonb\<close> cannot hold), and a \<open>timestamptz\<close> whose ISO text has no four-digit year from 0001
  on: \<open>toISOString\<close> writes the other years as 0000 or with a sign and six digits.
\<close>

definition pg_text :: "string \<Rightarrow> bool" where
  "pg_text s = (CHR 0x00 \<notin> set s)"

function pg_jsonb :: "jsval \<Rightarrow> bool" where
  "pg_jsonb (JArr vs) = list_all pg_jsonb vs"
| "pg_jsonb (JObj ps) = list_all (\<lambda>(k, v). v = JUndef \<or> pg_text k \<and> pg_jsonb v) ps"
| "pg_jsonb (JStr s) = pg_text s"
| "pg_jsonb (JNum n) = True"
| "pg_jsonb JNull = True"
| "pg_jsonb (JBool b) = True"
| "pg_jsonb JUndef = True"
| "pg_jsonb (JBigInt i) = True"
| "pg_jsonb JFun = True"
  by pat_completeness auto
termination
  by (relation "measure size") (auto simp del: jsval.size intro: size_arr_item size_obj_item)

definition pg_timestamptz :: "int \<Rightarrow> bool" where
  "pg_timestamptz ms = (- 62135596800000 \<le> ms \<and> ms < 253402300800000)"

lemma pg_timestamptz_bounds:
  "iso_of_ms (- 62135596800000) = ''0001-01-01T00:00:00.000Z''" "iso_of_ms (- 62135596800001) = ''0000-12-31T23:59:59.999Z''"
  "iso_of_ms 253402300799999 = ''9999-12-31T23:59:59.999Z''" "iso_of_ms 253402300800000 = ''+010000-01-01T00:00:00.000Z''"
  by code_simp+

definition castable :: "append_input \<Rightarrow> bool" where
  "castable i \<longleftrightarrow> pg_text (ai_type i) \<and> pg_text (ai_version i) \<and> pg_text (ai_subject_type i) \<and> pg_text (ai_key_id i) \<and>
     pg_text (evidence_of i) \<and> pg_jsonb (ai_redaction i) \<and> (case ai_occurred i of None \<Rightarrow> True | Some occ \<Rightarrow> pg_timestamptz occ)"

text \<open>
  The arguments of the SQL call: the read of the head, canonical text, hash, HMAC, then the
  casts of the parameters.
\<close>

definition event_row ::
  "crypto \<Rightarrow> audit_event option \<Rightarrow> string \<Rightarrow> string option \<Rightarrow> append_input \<Rightarrow> audit_error + audit_event" where
  "event_row cr head eid pid i =
     (let prev = map_option ev_hmac head;
          sq = (case head of None \<Rightarrow> 0 | Some h \<Rightarrow> ev_seq h) + 1
      in if \<not> pg_text (ai_chain i) then Inl CastError
      else case ai_occurred i of None \<Rightarrow> Inl InvalidDate | Some occ \<Rightarrow>
        (case canonicalize (num_text cr)
           (event_value eid (ai_org i) (ai_chain i) sq prev (ai_type i) (ai_version i)
              (ai_subject_type i) (ai_subject_id i) occ (ai_payload_hash i) pid
              (ai_key_id i) (ai_key_version i) (evidence_of i) (ai_redaction i)) of
           Inl e \<Rightarrow> Inl (Canon e)
         | Inr canonical \<Rightarrow>
             let cb = utf8 canonical in
             bindE (hmacSign cr (ai_org i) (ai_key_id i) (ai_key_version i) cb) (\<lambda>mac.
             case (pg_uuid eid, pg_uuid (ai_org i), pg_uuid (ai_subject_id i),
                   case pid of None \<Rightarrow> Some None | Some p \<Rightarrow> map_option Some (pg_uuid p)) of
               (Some eid', Some org', Some sid', Some pid') \<Rightarrow>
                 if ai_key_version i < - (2 ^ 31) \<or> 2 ^ 31 \<le> ai_key_version i \<or> 2 ^ 63 \<le> sq \<or> \<not> castable i
                 then Inl CastError
                 else Inr \<lparr> ev_id = eid', ev_org = org', ev_chain = ai_chain i, ev_seq = sq,
                        ev_type = ai_type i, ev_version = ai_version i,
                        ev_subject_type = ai_subject_type i, ev_subject_id = sid',
                        ev_occurred = occ, ev_payload_hash = ai_payload_hash i,
                        ev_payload_ref = pid', ev_redaction = to_jsonb (ai_redaction i),
                        ev_prev = prev, ev_hmac = mac, ev_chash = sha cr cb, ev_cbytes = cb,
                        ev_key_id = ai_key_id i, ev_key_version = ai_key_version i,
                        ev_evidence = evidence_of i \<rparr>
             | _ \<Rightarrow> Inl CastError)))"

definition auditAppend ::
  "crypto \<Rightarrow> string option \<Rightarrow> string \<Rightarrow> string \<Rightarrow> append_input \<Rightarrow> 'a audit_db_scheme
   \<Rightarrow> audit_error + append_output \<times> 'a audit_db_scheme" where
  "auditAppend cr sess rnd_event rnd_payload i db =
     (if sess = None \<or> sess = Some [] \<or> sess \<noteq> Some (ai_org i) then Inl TenantContextMismatch
      else if (case ai_event_id i of None \<Rightarrow> False | Some eid \<Rightarrow> \<not> is_uuid eid) then Inl EventIdNotUuid
      else
        case Option.bind (ai_event_id i) (\<lambda>eid. findExistingEventById sess eid db) of
          Some row \<Rightarrow>
            bindE (assertExistingEventMatches i row) (\<lambda>_. Inr (existingEventToOutput row, db))
        | None \<Rightarrow>
            let eid = (case ai_event_id i of None \<Rightarrow> rnd_event | Some e \<Rightarrow> e);
                pid = (if ai_payload_encrypted i \<noteq> None then Some rnd_payload else None)
            in bindE (event_row cr (chain_head sess (ai_chain i) db) eid pid i) (\<lambda>row.
               bindE (audit_append_locked sess row (ai_payload_encrypted i) (ai_dek_wrapped i) db) (\<lambda>db'.
               Inr (\<lparr> ao_event_id = eid, ao_payload_id = pid, ao_seq = ev_seq row,
                      ao_hmac = ev_hmac row, ao_cbytes = ev_cbytes row, ao_chash = ev_chash row \<rparr>, db'))))"

section \<open>Verification of a chain\<close>

datatype verify_reason =
  SequenceGap int | PrevNullMismatch | ChainBreak | HashMismatch | HmacMismatch

record verify_result =
  vr_valid :: bool
  vr_events :: nat
  vr_first :: "int option"
  vr_reason :: "verify_reason option"

definition vr_ok :: "nat \<Rightarrow> verify_result" where
  "vr_ok n = \<lparr> vr_valid = True, vr_events = n, vr_first = None, vr_reason = None \<rparr>"

definition vr_bad :: "nat \<Rightarrow> audit_event \<Rightarrow> verify_reason \<Rightarrow> verify_result" where
  "vr_bad n row r = \<lparr> vr_valid = False, vr_events = n, vr_first = Some (ev_seq row), vr_reason = Some r \<rparr>"

fun verify_loop ::
  "crypto \<Rightarrow> nat \<Rightarrow> int \<Rightarrow> bytes option \<Rightarrow> audit_event list \<Rightarrow> audit_error + verify_result" where
  "verify_loop cr n expectedSeq prev [] = Inr (vr_ok n)"
| "verify_loop cr n expectedSeq prev (row # rows) =
     (if ev_seq row \<noteq> expectedSeq then Inr (vr_bad n row (SequenceGap expectedSeq))
      else if (prev = None) \<noteq> (ev_prev row = None) then Inr (vr_bad n row PrevNullMismatch)
      else if prev \<noteq> None \<and> ev_prev row \<noteq> None \<and> prev \<noteq> ev_prev row then Inr (vr_bad n row ChainBreak)
      else if sha cr (ev_cbytes row) \<noteq> ev_chash row then Inr (vr_bad n row HashMismatch)
      else bindE (hmacVerify cr (ev_org row) (ev_key_id row) (ev_key_version row) (ev_cbytes row) (ev_hmac row))
        (\<lambda>ok. if \<not> ok then Inr (vr_bad n row HmacMismatch)
               else verify_loop cr n (expectedSeq + 1) (Some (ev_hmac row)) rows))"

definition verifyFullChain ::
  "crypto \<Rightarrow> string option \<Rightarrow> string \<Rightarrow> 'a audit_db_scheme \<Rightarrow> audit_error + verify_result" where
  "verifyFullChain cr sess chain db =
     (let rows = chain_rows sess chain db in
      if length rows = 0 then Inr (vr_ok 0) else verify_loop cr (length rows) 1 None rows)"

fun tail_loop ::
  "crypto \<Rightarrow> nat \<Rightarrow> bytes option \<Rightarrow> audit_event list \<Rightarrow> audit_error + verify_result" where
  "tail_loop cr n prev [] = Inr (vr_ok n)"
| "tail_loop cr n prev (row # rows) =
     (if sha cr (ev_cbytes row) \<noteq> ev_chash row then Inr (vr_bad n row HashMismatch)
      else bindE (hmacVerify cr (ev_org row) (ev_key_id row) (ev_key_version row) (ev_cbytes row) (ev_hmac row))
        (\<lambda>ok. if \<not> ok then Inr (vr_bad n row HmacMismatch)
               else if prev \<noteq> None \<and> ev_prev row \<noteq> None \<and> prev \<noteq> ev_prev row
                 then Inr (vr_bad n row ChainBreak)
               else tail_loop cr n (Some (ev_hmac row)) rows))"

definition verifyTailWindow ::
  "crypto \<Rightarrow> string option \<Rightarrow> string \<Rightarrow> nat \<Rightarrow> 'a audit_db_scheme \<Rightarrow> audit_error + verify_result" where
  "verifyTailWindow cr sess chain windowSize db =
     (let tail_rows = take windowSize (rev (chain_rows sess chain db)) in
      if length tail_rows = 0 then Inr (vr_ok 0)
      else let rows = rev tail_rows in tail_loop cr (length rows) (ev_prev (hd rows)) rows)"

section \<open>The HMAC comparison\<close>

lemma foldl_or_zero: "foldl (\<lambda>d i. d OR f i) a xs = (0 :: 8 word) \<longleftrightarrow> a = 0 \<and> (\<forall>i\<in>set xs. f i = 0)"
  by (induction xs arbitrary: a) (auto simp: or_eq_0_iff)

lemma xor_zero_iff: "x XOR y = (0 :: 8 word) \<longleftrightarrow> x = y"
  by (metis xor.assoc xor.left_neutral xor_self_eq)

lemma bytes_diff_zero:
  "length actual = length expected \<Longrightarrow> bytes_diff actual expected = 0 \<longleftrightarrow> actual = expected"
  unfolding bytes_diff_def foldl_or_zero xor_zero_iff
  by (simp only: list_eq_iff_nth_eq [where xs = actual]) (simp add: byte_at_def Ball_def)

lemma hmacVerify_simp:
  "hmacVerify cr org kid kv msg expected =
     (case kms cr org kid kv msg of None \<Rightarrow> Inl KmsFailure | Some actual \<Rightarrow> Inr (actual = expected))"
  by (auto simp: hmacVerify_def hmacSign_def bytes_diff_zero split: option.splits)

section \<open>What a well-formed chain is\<close>

definition row_ok :: "crypto \<Rightarrow> int \<Rightarrow> bytes option \<Rightarrow> audit_event \<Rightarrow> bool" where
  "row_ok cr e p row = (ev_seq row = e \<and> ev_prev row = p \<and> ev_chash row = sha cr (ev_cbytes row) \<and>
     kms cr (ev_org row) (ev_key_id row) (ev_key_version row) (ev_cbytes row) = Some (ev_hmac row))"

text \<open>Row \<open>k\<close> has sequence number \<open>k + 1\<close> and the HMAC of row \<open>k - 1\<close>, and authenticates its bytes.\<close>

definition chain_ok :: "crypto \<Rightarrow> audit_event list \<Rightarrow> bool" where
  "chain_ok cr rows = (\<forall>k < length rows.
     row_ok cr (1 + int k) (if k = 0 then None else Some (ev_hmac (rows ! (k - 1)))) (rows ! k))"

fun ok_from :: "crypto \<Rightarrow> int \<Rightarrow> bytes option \<Rightarrow> audit_event list \<Rightarrow> bool" where
  "ok_from cr e p [] = True"
| "ok_from cr e p (row # rows) = (row_ok cr e p row \<and> ok_from cr (e + 1) (Some (ev_hmac row)) rows)"

lemma ok_from_nth:
  "ok_from cr e p rows = (\<forall>k < length rows.
     row_ok cr (e + int k) (if k = 0 then p else Some (ev_hmac (rows ! (k - 1)))) (rows ! k))"
proof (induction rows arbitrary: e p)
  case (Cons row rows)
  have "(\<forall>k < length (row # rows). row_ok cr (e + int k)
          (if k = 0 then p else Some (ev_hmac ((row # rows) ! (k - 1)))) ((row # rows) ! k)) =
        (row_ok cr e p row \<and> (\<forall>k < length rows. row_ok cr (e + int (Suc k))
          (Some (ev_hmac ((row # rows) ! k))) (rows ! k)))"
    by (auto simp: less_Suc_eq_0_disj)
  moreover have "Some (ev_hmac ((row # rows) ! k))
      = (if k = 0 then Some (ev_hmac row) else Some (ev_hmac (rows ! (k - 1))))" for k
    by (cases k) auto
  ultimately show ?case by (simp add: Cons.IH add.assoc)
qed simp

lemma chain_ok_from: "chain_ok cr rows = ok_from cr 1 None rows"
  by (simp add: chain_ok_def ok_from_nth)

lemma ok_from_append:
  "ok_from cr e p (xs @ ys) = (ok_from cr e p xs \<and>
     ok_from cr (e + int (length xs)) (if xs = [] then p else Some (ev_hmac (last xs))) ys)"
  by (induction xs arbitrary: e p) (auto simp: add.assoc add.commute [of 1])

lemma chain_ok_Nil [simp]: "chain_ok cr []"
  by (simp add: chain_ok_def)

lemma chain_ok_snoc:
  "chain_ok cr (rows @ [row]) = (chain_ok cr rows \<and>
     row_ok cr (1 + int (length rows)) (if rows = [] then None else Some (ev_hmac (last rows))) row)"
  by (simp add: chain_ok_from ok_from_append)

lemma chain_ok_prefix: "chain_ok cr (xs @ ys) \<Longrightarrow> chain_ok cr xs"
  by (simp add: chain_ok_from ok_from_append)

lemma chain_ok_last_seq: "chain_ok cr rows \<Longrightarrow> rows \<noteq> [] \<Longrightarrow> ev_seq (last rows) = int (length rows)"
  by (cases rows rule: rev_cases) (auto simp: chain_ok_snoc row_ok_def)

subsection \<open>The verifier decides it\<close>

lemma vr_bad_simps [simp]:
  "vr_bad n row r \<noteq> vr_ok m" "vr_ok m \<noteq> vr_bad n row r" "vr_valid (vr_ok n)"
  "\<not> vr_valid (vr_bad n row r)" "vr_first (vr_bad n row r) = Some (ev_seq row)"
  "vr_events (vr_bad n row r) = n"
  by (simp_all add: vr_bad_def vr_ok_def)

lemma verify_loop_ok: "verify_loop cr n e p rows = Inr (vr_ok n) \<longleftrightarrow> ok_from cr e p rows"
proof (induction rows arbitrary: e p)
  case (Cons row rows)
  show ?case
    by (cases "kms cr (ev_org row) (ev_key_id row) (ev_key_version row) (ev_cbytes row)")
       (auto simp: Cons.IH row_ok_def hmacVerify_simp)
qed simp

lemma verify_loop_bad:
  "verify_loop cr n e p rows = Inr r \<Longrightarrow> r \<noteq> vr_ok n \<Longrightarrow>
     \<exists>k < length rows. ok_from cr e p (take k rows) \<and> \<not> ok_from cr e p (take (Suc k) rows) \<and>
       \<not> vr_valid r \<and> vr_first r = Some (ev_seq (rows ! k)) \<and> vr_events r = n"
proof (induction rows arbitrary: e p)
  case (Cons row rows)
  show ?case
  proof (cases "row_ok cr e p row")
    case True
    then have "verify_loop cr n (e + 1) (Some (ev_hmac row)) rows = Inr r"
      using Cons.prems(1) by (auto simp: row_ok_def hmacVerify_simp)
    from Cons.IH [OF this Cons.prems(2)] obtain k where
      "k < length rows" "ok_from cr (e + 1) (Some (ev_hmac row)) (take k rows)"
      "\<not> ok_from cr (e + 1) (Some (ev_hmac row)) (take (Suc k) rows)"
      "\<not> vr_valid r \<and> vr_first r = Some (ev_seq (rows ! k)) \<and> vr_events r = n" by blast
    with True show ?thesis by (intro exI [of _ "Suc k"]) auto
  next
    case False
    then have "\<not> vr_valid r \<and> vr_first r = Some (ev_seq row) \<and> vr_events r = n"
      using Cons.prems by (cases "kms cr (ev_org row) (ev_key_id row) (ev_key_version row) (ev_cbytes row)")
        (auto simp: row_ok_def hmacVerify_simp split: if_split_asm)
    with False show ?thesis by (intro exI [of _ 0]) auto
  qed
qed simp

lemma verifyFullChain_ok:
  "verifyFullChain cr sess chain db = Inr (vr_ok (length (chain_rows sess chain db)))
     \<longleftrightarrow> chain_ok cr (chain_rows sess chain db)"
  by (auto simp: verifyFullChain_def Let_def verify_loop_ok chain_ok_from)

section \<open>What an append does\<close>

lemma sort_key_snoc_max:
  fixes f :: "'a \<Rightarrow> 'b :: linorder"
  assumes "\<And>y. y \<in> set xs \<Longrightarrow> f y \<le> f x"
  shows "sort_key f (xs @ [x]) = sort_key f xs @ [x]"
proof (rule properties_for_sort_key)
  show "filter (\<lambda>y. f k = f y) (sort_key f xs @ [x]) = filter (\<lambda>y. f k = f y) (xs @ [x])" for k
    using sort_key_stable [of f "f k" xs] by (simp add: eq_commute)
  show "sorted (map f (sort_key f xs @ [x]))"
    using assms by (auto simp: sorted_append)
qed simp

lemma chain_rows_set: "set (chain_rows sess chain db) = {e \<in> set (db_events db). visible sess e \<and> ev_chain e = chain}"
  by (auto simp: chain_rows_def)

lemma chain_rows_sorted: "sorted (map ev_seq (chain_rows sess chain db))"
  by (simp add: chain_rows_def)

lemma chain_head_max:
  assumes "chain_head sess chain db = Some h" "e \<in> set (chain_rows sess chain db)"
  shows "ev_seq e \<le> ev_seq h"
proof -
  from assms(1) have h: "chain_rows sess chain db \<noteq> []" "h = last (chain_rows sess chain db)"
    by (auto simp: chain_head_def Let_def split: if_splits)
  then obtain ys where ys: "chain_rows sess chain db = ys @ [h]"
    by (metis append_butlast_last_id)
  with chain_rows_sorted [of sess chain db] assms(2) show ?thesis
    by (auto simp: sorted_append)
qed

text \<open>The tables after a row has been written.\<close>

lemma chain_rows_insert:
  assumes seq: "ev_seq row = (case chain_head sess (ev_chain row) db of None \<Rightarrow> 0 | Some h \<Rightarrow> ev_seq h) + 1"
    and own: "visible sess row"
    and db': "db_events db' = db_events db @ [row]"
  shows "chain_rows s c db' = chain_rows s c db @ (if s = sess \<and> c = ev_chain row then [row] else [])"
proof (cases "visible s row \<and> ev_chain row = c")
  case True
  with own have s: "s = sess" "c = ev_chain row" by (auto simp: visible_def)
  define xs where "xs = filter (\<lambda>e. visible s e \<and> ev_chain e = c) (db_events db)"
  have "ev_seq y \<le> ev_seq row" if "y \<in> set xs" for y
  proof -
    from that have y: "y \<in> set (chain_rows sess c db)" by (simp add: xs_def chain_rows_def s(1))
    then obtain h where "chain_head sess c db = Some h"
      by (cases "chain_head sess c db") (auto simp: chain_head_def Let_def split: if_splits)
    with chain_head_max [OF this y] seq s(2) show ?thesis by simp
  qed
  then have "sort_key ev_seq (xs @ [row]) = sort_key ev_seq xs @ [row]"
    by (rule sort_key_snoc_max)
  with True s show ?thesis by (simp add: chain_rows_def db' xs_def)
next
  case False
  with own have "\<not> (s = sess \<and> c = ev_chain row)" by auto
  with False show ?thesis by (auto simp: chain_rows_def db')
qed

lemma audit_append_lockedE:
  assumes "audit_append_locked sess row enc dek db = Inr db'"
  obtains pls where "visible sess row"
    and "map_option ev_hmac (chain_head sess (ev_chain row) db) = ev_prev row"
    and "ev_seq row = (case chain_head sess (ev_chain row) db of None \<Rightarrow> 0 | Some h \<Rightarrow> ev_seq h) + 1"
    and "\<not> insert_conflict row db"
    and "db' = db\<lparr> db_events := db_events db @ [row], db_payloads := db_payloads db @ pls \<rparr>"
    and "(enc = None \<and> ev_payload_ref row = None \<and> pls = []) \<or>
         (\<exists>b d pid. enc = Some b \<and> dek = Some d \<and> ev_payload_ref row = Some pid \<and>
            pid \<notin> pl_id ` set (db_payloads db) \<and>
            pls = [\<lparr> pl_id = pid, pl_org = ev_org row, pl_encrypted = b, pl_dek = Some d,
                   pl_key_id = ev_key_id row, pl_key_version = ev_key_version row,
                   pl_status = PActive, pl_shredded_by = None \<rparr>])"
proof (cases "enc")
  case None
  with assms have "ev_payload_ref row = None"
    by (auto simp: audit_append_locked_def split: if_split_asm)
  with None assms show thesis
    by (intro that [of "[]"]) (auto simp: audit_append_locked_def Let_def visible_def split: if_split_asm)
next
  case (Some b)
  with assms obtain d pid where "dek = Some d" "ev_payload_ref row = Some pid"
    by (cases dek; cases "ev_payload_ref row") (auto simp: audit_append_locked_def split: if_split_asm)
  with Some assms show thesis
    by (intro that [of "[\<lparr> pl_id = pid, pl_org = ev_org row, pl_encrypted = b, pl_dek = Some d,
                   pl_key_id = ev_key_id row, pl_key_version = ev_key_version row,
                   pl_status = PActive, pl_shredded_by = None \<rparr>]"])
       (auto simp: audit_append_locked_def Let_def visible_def list_ex_iff split: if_split_asm)
qed

lemma event_row_Inr:
  assumes "event_row cr head eid pid i = Inr row"
  obtains occ canonical mac where "ai_occurred i = Some occ"
    and "canonicalize (num_text cr)
           (event_value eid (ai_org i) (ai_chain i) (ev_seq row) (ev_prev row) (ai_type i) (ai_version i)
              (ai_subject_type i) (ai_subject_id i) occ (ai_payload_hash i) pid
              (ai_key_id i) (ai_key_version i) (evidence_of i) (ai_redaction i)) = Inr canonical"
    and "kms cr (ai_org i) (ai_key_id i) (ai_key_version i) (utf8 canonical) = Some mac"
    and "is_uuid eid" "is_uuid (ai_org i)" "is_uuid (ai_subject_id i)"
    and "row = \<lparr> ev_id = lower eid, ev_org = lower (ai_org i), ev_chain = ai_chain i,
                 ev_seq = (case head of None \<Rightarrow> 0 | Some h \<Rightarrow> ev_seq h) + 1,
                 ev_type = ai_type i, ev_version = ai_version i,
                 ev_subject_type = ai_subject_type i, ev_subject_id = lower (ai_subject_id i),
                 ev_occurred = occ, ev_payload_hash = ai_payload_hash i,
                 ev_payload_ref = map_option lower pid, ev_redaction = to_jsonb (ai_redaction i),
                 ev_prev = map_option ev_hmac head, ev_hmac = mac, ev_chash = sha cr (utf8 canonical),
                 ev_cbytes = utf8 canonical,
                 ev_key_id = ai_key_id i, ev_key_version = ai_key_version i,
                 ev_evidence = evidence_of i \<rparr>"
proof -
  have ch: "pg_text (ai_chain i) = True" using assms by (simp add: event_row_def Let_def split: if_split_asm)
  obtain occ where occ: "ai_occurred i = Some occ"
    using assms by (auto simp: event_row_def Let_def ch split: option.splits)
  define sq where "sq = (case head of None \<Rightarrow> 0 | Some h \<Rightarrow> ev_seq h) + 1"
  obtain canonical where can: "canonicalize (num_text cr)
           (event_value eid (ai_org i) (ai_chain i) sq (map_option ev_hmac head) (ai_type i) (ai_version i)
              (ai_subject_type i) (ai_subject_id i) occ (ai_payload_hash i) pid
              (ai_key_id i) (ai_key_version i) (evidence_of i) (ai_redaction i)) = Inr canonical"
    using assms occ by (auto simp: event_row_def Let_def ch sq_def split: sum.splits)
  obtain mac where mac: "kms cr (ai_org i) (ai_key_id i) (ai_key_version i) (utf8 canonical) = Some mac"
    using assms occ can by (auto simp: event_row_def Let_def ch sq_def [symmetric] hmacSign_def split: option.splits)
  obtain eid' org' sid' pid' where casts: "pg_uuid eid = Some eid'" "pg_uuid (ai_org i) = Some org'"
    "pg_uuid (ai_subject_id i) = Some sid'"
    "(case pid of None \<Rightarrow> Some None | Some p \<Rightarrow> map_option Some (pg_uuid p)) = Some pid'"
    using assms by (simp only: event_row_def Let_def ch not_True_eq_False if_False sq_def [symmetric] occ can mac hmacSign_def bindE_simps
        option.case sum.case split: option.splits prod.splits) auto
  note row = assms [unfolded event_row_def Let_def ch not_True_eq_False if_False sq_def [symmetric] occ option.case can sum.case
      hmacSign_def mac bindE_simps casts prod.case]
  from casts have ids: "is_uuid eid" "eid' = lower eid" "is_uuid (ai_org i)" "org' = lower (ai_org i)"
    "is_uuid (ai_subject_id i)" "sid' = lower (ai_subject_id i)" "pid' = map_option lower pid"
    by (auto dest!: pg_uuid_SomeD split: option.splits)
  have "row = \<lparr> ev_id = lower eid, ev_org = lower (ai_org i), ev_chain = ai_chain i, ev_seq = sq,
                 ev_type = ai_type i, ev_version = ai_version i,
                 ev_subject_type = ai_subject_type i, ev_subject_id = lower (ai_subject_id i),
                 ev_occurred = occ, ev_payload_hash = ai_payload_hash i,
                 ev_payload_ref = map_option lower pid, ev_redaction = to_jsonb (ai_redaction i),
                 ev_prev = map_option ev_hmac head, ev_hmac = mac, ev_chash = sha cr (utf8 canonical),
                 ev_cbytes = utf8 canonical,
                 ev_key_id = ai_key_id i, ev_key_version = ai_key_version i,
                 ev_evidence = evidence_of i \<rparr>"
    using row by (simp add: ids split: if_split_asm)
  with occ can mac ids show thesis by (intro that) (simp_all add: sq_def)
qed

lemma auditAppend_cases:
  assumes "auditAppend cr sess re rp i db = Inr (out, db')"
  obtains (reuse) eid row where "sess = Some (ai_org i)" "ai_event_id i = Some eid" "is_uuid eid"
      "findExistingEventById sess eid db = Some row" "assertExistingEventMatches i row = Inr ()"
      "out = existingEventToOutput row" "db' = db"
  | (fresh) row eid pid where "sess = Some (ai_org i)"
      "Option.bind (ai_event_id i) (\<lambda>eid. findExistingEventById sess eid db) = None"
      "eid = (case ai_event_id i of None \<Rightarrow> re | Some e \<Rightarrow> e)"
      "pid = (if ai_payload_encrypted i \<noteq> None then Some rp else None)"
      "event_row cr (chain_head sess (ai_chain i) db) eid pid i = Inr row"
      "audit_append_locked sess row (ai_payload_encrypted i) (ai_dek_wrapped i) db = Inr db'"
      "out = \<lparr> ao_event_id = eid, ao_payload_id = pid, ao_seq = ev_seq row,
               ao_hmac = ev_hmac row, ao_cbytes = ev_cbytes row, ao_chash = ev_chash row \<rparr>"
proof -
  from assms have sess: "sess = Some (ai_org i)"
    by (auto simp: auditAppend_def split: if_split_asm)
  from assms have uuid: "ai_event_id i = Some eid \<Longrightarrow> is_uuid eid" for eid
    by (auto simp: auditAppend_def split: if_split_asm)
  show thesis
  proof (cases "Option.bind (ai_event_id i) (\<lambda>eid. findExistingEventById sess eid db)")
    case (Some row)
    then obtain eid where "ai_event_id i = Some eid" "findExistingEventById sess eid db = Some row"
      by (auto simp: bind_eq_Some_conv)
    with assms Some sess uuid show thesis
      by (intro reuse [of eid row]) (auto simp: auditAppend_def bindE_Inr_iff split: if_split_asm)
  next
    case None
    define eid pid where "eid = (case ai_event_id i of None \<Rightarrow> re | Some e \<Rightarrow> e)"
      and "pid = (if ai_payload_encrypted i \<noteq> None then Some rp else None)"
    have "bindE (event_row cr (chain_head sess (ai_chain i) db) eid pid i) (\<lambda>row.
               bindE (audit_append_locked sess row (ai_payload_encrypted i) (ai_dek_wrapped i) db) (\<lambda>db'.
               Inr (\<lparr> ao_event_id = eid, ao_payload_id = pid, ao_seq = ev_seq row,
                      ao_hmac = ev_hmac row, ao_cbytes = ev_cbytes row, ao_chash = ev_chash row \<rparr>, db')))
          = Inr (out, db')"
      using assms unfolding auditAppend_def None option.case Let_def eid_def pid_def
      by (simp split: if_split_asm)
    then show thesis
      by (elim bindE_InrE) (rule fresh [OF sess None eid_def pid_def], auto)
  qed
qed

section \<open>The invariant of the tables\<close>

text \<open>
  A row is bound to its columns: its canonical bytes are the serialization of exactly these
  column values, with the ids as the caller wrote them (the columns hold them in lower case).
\<close>

definition bound_to :: "crypto \<Rightarrow> string \<Rightarrow> string option \<Rightarrow> string \<Rightarrow> jsval \<Rightarrow> audit_event \<Rightarrow> bool" where
  "bound_to cr eid pid sid red e \<longleftrightarrow>
     lower eid = ev_id e \<and> map_option lower pid = ev_payload_ref e \<and> lower sid = ev_subject_id e \<and>
     to_jsonb red = ev_redaction e \<and> 0 < ev_seq e \<and>
     (\<exists>t. canonicalize (num_text cr)
        (event_value eid (ev_org e) (ev_chain e) (ev_seq e) (ev_prev e) (ev_type e) (ev_version e)
           (ev_subject_type e) sid (ev_occurred e) (ev_payload_hash e) pid
           (ev_key_id e) (ev_key_version e) (ev_evidence e) red) = Inr t \<and> ev_cbytes e = utf8 t)"

definition content_bound :: "crypto \<Rightarrow> audit_event \<Rightarrow> bool" where
  "content_bound cr e \<longleftrightarrow> (\<exists>eid pid sid red. bound_to cr eid pid sid red e)"

definition store_ok :: "crypto \<Rightarrow> 'a audit_db_scheme \<Rightarrow> bool" where
  "store_ok cr db \<longleftrightarrow>
     (\<forall>s c. chain_ok cr (chain_rows s c db)) \<and>
     (\<forall>e \<in> set (db_events db). content_bound cr e) \<and>
     distinct (map ev_id (db_events db)) \<and>
     distinct (map (\<lambda>e. (ev_chain e, ev_seq e)) (db_events db)) \<and>
     distinct (map pl_id (db_payloads db)) \<and>
     (\<forall>e \<in> set (db_events db). \<forall>p. ev_payload_ref e = Some p \<longrightarrow>
        (\<exists>pl \<in> set (db_payloads db). pl_id pl = p \<and> pl_org pl = ev_org e \<and> pl_dek pl \<noteq> None))"

definition empty_store :: "'a audit_db_scheme \<Rightarrow> bool" where
  "empty_store db = (db_events db = [] \<and> db_payloads db = [])"

text \<open>A step of the table: any session appends anything, with any random ids.\<close>

inductive append_step :: "crypto \<Rightarrow> 'a audit_db_scheme \<Rightarrow> 'a audit_db_scheme \<Rightarrow> bool" for cr where
  append_step: "auditAppend cr sess re rp i db = Inr (out, db') \<Longrightarrow> append_step cr db db'"

inductive_cases append_stepE: "append_step cr db db'"

lemma fresh_row:
  assumes sess: "sess = Some (ai_org i)"
    and row: "event_row cr (chain_head sess (ai_chain i) db) eid pid i = Inr row"
    and sql: "audit_append_locked sess row enc dek db = Inr db'"
  shows "visible sess row" "ev_chain row = ai_chain i"
    "ev_seq row = (case chain_head sess (ai_chain i) db of None \<Rightarrow> 0 | Some h \<Rightarrow> ev_seq h) + 1"
    "ev_prev row = map_option ev_hmac (chain_head sess (ai_chain i) db)"
    "row_ok cr (ev_seq row) (ev_prev row) row"
    "0 < ev_seq row \<Longrightarrow> content_bound cr row"
proof -
  show v: "visible sess row" using sql by (rule audit_append_lockedE)
  with sess have org: "ev_org row = ai_org i" by (simp add: visible_def)
  from row obtain occ canonical mac where i: "ai_occurred i = Some occ"
    and can: "canonicalize (num_text cr)
           (event_value eid (ai_org i) (ai_chain i) (ev_seq row) (ev_prev row) (ai_type i) (ai_version i)
              (ai_subject_type i) (ai_subject_id i) occ (ai_payload_hash i) pid
              (ai_key_id i) (ai_key_version i) (evidence_of i) (ai_redaction i)) = Inr canonical"
    and mac: "kms cr (ai_org i) (ai_key_id i) (ai_key_version i) (utf8 canonical) = Some mac"
    and r: "row = \<lparr> ev_id = lower eid, ev_org = lower (ai_org i), ev_chain = ai_chain i,
                 ev_seq = (case chain_head sess (ai_chain i) db of None \<Rightarrow> 0 | Some h \<Rightarrow> ev_seq h) + 1,
                 ev_type = ai_type i, ev_version = ai_version i,
                 ev_subject_type = ai_subject_type i, ev_subject_id = lower (ai_subject_id i),
                 ev_occurred = occ, ev_payload_hash = ai_payload_hash i,
                 ev_payload_ref = map_option lower pid, ev_redaction = to_jsonb (ai_redaction i),
                 ev_prev = map_option ev_hmac (chain_head sess (ai_chain i) db),
                 ev_hmac = mac, ev_chash = sha cr (utf8 canonical), ev_cbytes = utf8 canonical,
                 ev_key_id = ai_key_id i, ev_key_version = ai_key_version i,
                 ev_evidence = evidence_of i \<rparr>"
    by (rule event_row_Inr)
  show "ev_chain row = ai_chain i" by (simp add: r)
  show "ev_seq row = (case chain_head sess (ai_chain i) db of None \<Rightarrow> 0 | Some h \<Rightarrow> ev_seq h) + 1"
    by (simp add: r)
  show "ev_prev row = map_option ev_hmac (chain_head sess (ai_chain i) db)" by (simp add: r)
  have cb: "ev_cbytes row = utf8 canonical" "ev_chash row = sha cr (utf8 canonical)" "ev_hmac row = mac"
    "ev_key_id row = ai_key_id i" "ev_key_version row = ai_key_version i" by (simp_all add: r)
  show "row_ok cr (ev_seq row) (ev_prev row) row"
    by (simp add: row_ok_def cb org mac)
  have cols: "ev_chain row = ai_chain i" "ev_type row = ai_type i" "ev_version row = ai_version i"
    "ev_subject_type row = ai_subject_type i" "ev_occurred row = occ"
    "ev_payload_hash row = ai_payload_hash i" "ev_evidence row = evidence_of i"
    "ev_id row = lower eid" "ev_payload_ref row = map_option lower pid"
    "ev_subject_id row = lower (ai_subject_id i)" "ev_redaction row = to_jsonb (ai_redaction i)"
    by (simp_all add: r)
  show "content_bound cr row" if "0 < ev_seq row"
    unfolding content_bound_def bound_to_def
    by (intro exI [of _ eid] exI [of _ pid] exI [of _ "ai_subject_id i"] exI [of _ "ai_redaction i"])
       (use that can cb cols in \<open>simp add: org\<close>)
qed

lemma head_seq_chain:
  assumes "chain_ok cr (chain_rows s c db)"
  shows "(case chain_head s c db of None \<Rightarrow> 0 | Some h \<Rightarrow> ev_seq h) = int (length (chain_rows s c db))"
    "chain_head s c db = (if chain_rows s c db = [] then None else Some (last (chain_rows s c db)))"
  using chain_ok_last_seq [OF assms] by (auto simp: chain_head_def Let_def)

lemma insert_conflict_iff:
  "insert_conflict row db \<longleftrightarrow> ev_id row \<in> ev_id ` set (db_events db) \<or>
     (ev_chain row, ev_seq row) \<in> (\<lambda>e. (ev_chain e, ev_seq e)) ` set (db_events db)"
  unfolding insert_conflict_def list_ex_iff image_iff by (metis prod.inject)

text \<open>The audit invariant reads the audit tables only.\<close>

lemma store_ok_cong:
  fixes a :: "'a audit_db_scheme" and b :: "'b audit_db_scheme"
  assumes "db_events a = db_events b" "db_payloads a = db_payloads b"
  shows "store_ok cr a = store_ok cr b"
  using assms by (simp add: store_ok_def chain_rows_def)

lemma store_ok_insert:
  assumes ok: "store_ok cr db" and sess: "sess = Some (ai_org i)"
    and row: "event_row cr (chain_head sess (ai_chain i) db) eid pid i = Inr row"
    and sql: "audit_append_locked sess row enc dek db = Inr db'"
  shows "store_ok cr db'"
    "chain_rows s c db' = chain_rows s c db @ (if s = sess \<and> c = ai_chain i then [row] else [])"
    "ev_seq row = int (length (chain_rows sess (ai_chain i) db)) + 1"
    "db_events db' = db_events db @ [row]"
proof -
  note f = fresh_row [OF sess row sql]
  from sql obtain pls where c: "\<not> insert_conflict row db"
    and db': "db' = db\<lparr> db_events := db_events db @ [row], db_payloads := db_payloads db @ pls \<rparr>"
    and pls: "(enc = None \<and> ev_payload_ref row = None \<and> pls = []) \<or>
         (\<exists>b d pid. enc = Some b \<and> dek = Some d \<and> ev_payload_ref row = Some pid \<and>
            pid \<notin> pl_id ` set (db_payloads db) \<and>
            pls = [\<lparr> pl_id = pid, pl_org = ev_org row, pl_encrypted = b, pl_dek = Some d,
                   pl_key_id = ev_key_id row, pl_key_version = ev_key_version row,
                   pl_status = PActive, pl_shredded_by = None \<rparr>])"
    by (rule audit_append_lockedE)
  show ev: "db_events db' = db_events db @ [row]" by (simp add: db')
  show rows: "chain_rows s c db' = chain_rows s c db @ (if s = sess \<and> c = ai_chain i then [row] else [])" for s c
    using chain_rows_insert [OF _ f(1) ev] f(2,3) by auto
  have ch: "chain_ok cr (chain_rows s c db)" for s c using ok by (simp add: store_ok_def)
  note hd = head_seq_chain [OF ch]
  show seq: "ev_seq row = int (length (chain_rows sess (ai_chain i) db)) + 1"
    using f(3) hd(1) by simp
  have "row_ok cr (1 + int (length (chain_rows sess (ai_chain i) db)))
      (if chain_rows sess (ai_chain i) db = [] then None
       else Some (ev_hmac (last (chain_rows sess (ai_chain i) db)))) row"
    using f(5) by (simp add: seq f(4) hd(2) add.commute if_distrib [of "map_option ev_hmac"] cong: if_cong)
  then have chains: "chain_ok cr (chain_rows s c db')" for s c
    by (simp add: rows chain_ok_snoc ch)
  have "\<exists>pl \<in> set (db_payloads db @ pls). pl_id pl = p \<and> pl_org pl = ev_org row \<and> pl_dek pl \<noteq> None"
    if "ev_payload_ref row = Some p" for p
    using pls that by auto
  moreover have "\<exists>pl \<in> set (db_payloads db @ pls). pl_id pl = p \<and> pl_org pl = ev_org e \<and> pl_dek pl \<noteq> None"
    if "e \<in> set (db_events db)" "ev_payload_ref e = Some p" for e p
  proof -
    from ok that have "\<exists>pl \<in> set (db_payloads db). pl_id pl = p \<and> pl_org pl = ev_org e \<and> pl_dek pl \<noteq> None"
      unfolding store_ok_def by blast
    then show ?thesis by auto
  qed
  ultimately have refs: "\<forall>e \<in> set (db_events db'). \<forall>p. ev_payload_ref e = Some p \<longrightarrow>
        (\<exists>pl \<in> set (db_payloads db'). pl_id pl = p \<and> pl_org pl = ev_org e \<and> pl_dek pl \<noteq> None)"
    by (simp add: db')
  have "distinct (map pl_id (db_payloads db'))"
    using pls ok by (auto simp: db' store_ok_def)
  moreover have "distinct (map ev_id (db_events db'))"
    "distinct (map (\<lambda>e. (ev_chain e, ev_seq e)) (db_events db'))"
    using ok c by (simp_all add: ev store_ok_def insert_conflict_iff)
  moreover have "\<forall>e \<in> set (db_events db'). content_bound cr e"
    using ok f(6) seq by (simp add: ev store_ok_def)
  ultimately show "store_ok cr db'"
    using chains refs by (simp add: store_ok_def)
qed

lemma append_step_ok: "store_ok cr db \<Longrightarrow> append_step cr db db' \<Longrightarrow> store_ok cr db'"
  by (erule append_stepE, erule auditAppend_cases) (auto dest: store_ok_insert(1))

lemma empty_store_ok: "empty_store db \<Longrightarrow> store_ok cr db"
  by (simp add: empty_store_def store_ok_def chain_rows_def)

interpretation audit_log: kept_invariant empty_store "append_step cr" "store_ok cr" for cr
  by unfold_locales (auto intro: empty_store_ok append_step_ok)

section \<open>Properties\<close>

subsection \<open>A sample store\<close>

text \<open>
  Concrete parameters for the examples, small enough to be evaluated: a digest of a few bytes
  and a MAC that also depends on the key.
\<close>

definition demo_cr :: crypto where
  "demo_cr = \<lparr> sha = (\<lambda>b. take 9 b), kms = (\<lambda>org kid kv m. Some (utf8 kid @ take 2 (drop 180 m))), num_text = sample_num \<rparr>"

definition demo_org :: string where
  "demo_org = ''00000000-0000-4000-8000-000000000001''"

definition demo_id :: "char \<Rightarrow> string" where
  "demo_id c = ''00000000-0000-4000-8000-00000000000'' @ [c]"

definition demo_input :: "string option \<Rightarrow> append_input" where
  "demo_input eid = \<lparr> ai_org = demo_org, ai_chain = ''c'', ai_type = ''run.created'', ai_version = ''1'',
     ai_subject_type = ''run'', ai_subject_id = demo_id (CHR ''2''), ai_occurred = Some 1767225600123,
     ai_payload_hash = [7], ai_payload_encrypted = None, ai_dek_wrapped = None,
     ai_key_id = ''k'', ai_key_version = 1, ai_redaction = JObj [(''a'', JUndef), (''b'', JNull)],
     ai_evidence = None, ai_event_id = eid \<rparr>"

definition demo_db0 :: audit_db where
  "demo_db0 = \<lparr> db_events = [], db_payloads = [] \<rparr>"

definition demo_append :: "string option \<Rightarrow> char \<Rightarrow> audit_db \<Rightarrow> audit_error + append_output \<times> audit_db" where
  "demo_append eid c db = auditAppend demo_cr (Some demo_org) (demo_id c) (demo_id (CHR ''9'')) (demo_input eid) db"

definition demo_db :: "string option \<Rightarrow> char \<Rightarrow> audit_db \<Rightarrow> audit_db" where
  "demo_db eid c db = (case demo_append eid c db of Inl e \<Rightarrow> demo_db0 | Inr r \<Rightarrow> snd r)"

definition demo_out :: "string option \<Rightarrow> char \<Rightarrow> audit_db \<Rightarrow> append_output" where
  "demo_out eid c db = (case demo_append eid c db of
     Inl e \<Rightarrow> \<lparr> ao_event_id = [], ao_payload_id = None, ao_seq = 0, ao_hmac = [], ao_cbytes = [], ao_chash = [] \<rparr>
   | Inr r \<Rightarrow> fst r)"

definition demo_db1 :: audit_db where "demo_db1 = demo_db (Some (demo_id (CHR ''3''))) (CHR ''3'') demo_db0"
definition demo_db2 :: audit_db where "demo_db2 = demo_db None (CHR ''4'') demo_db1"

lemma demo_isl1: "\<not> isl (demo_append (Some (demo_id (CHR ''3''))) (CHR ''3'') demo_db0)"
  by code_simp

lemma demo_isl2: "\<not> isl (demo_append None (CHR ''4'') demo_db1)"
  by code_simp

lemma isl_neg_Inr: "\<not> isl m \<Longrightarrow> \<exists>x. m = Inr x"
  by (cases m) auto

lemma demo_append_Inr:
  "\<not> isl (demo_append eid c db) \<Longrightarrow> auditAppend demo_cr (Some demo_org) (demo_id c) (demo_id (CHR ''9''))
     (demo_input eid) db = Inr (demo_out eid c db, demo_db eid c db)"
  by (cases "demo_append eid c db") (auto simp: demo_append_def demo_out_def demo_db_def)

lemmas demo_step1 = demo_append_Inr [OF demo_isl1, folded demo_db1_def]
lemmas demo_step2 = demo_append_Inr [OF demo_isl2, folded demo_db2_def]

lemma demo_reach0: "reach empty_store (append_step demo_cr) demo_db0"
  by (rule reach_init) (simp add: empty_store_def demo_db0_def)

lemma demo_reach1: "reach empty_store (append_step demo_cr) demo_db1"
  by (rule reach_step [OF demo_reach0 append_step [OF demo_step1]])

lemma demo_reach2: "reach empty_store (append_step demo_cr) demo_db2"
  by (rule reach_step [OF demo_reach1 append_step [OF demo_step2]])

subsection \<open>Appending and verifying\<close>

text \<open>
  C2. Whatever sequence of \<open>auditAppend\<close> calls, by any sessions with any inputs, has built
  the tables, \<open>verifyFullChain\<close> accepts every chain every session can see, and every stored
  event's canonical bytes are the serialization of its own columns.
\<close>

theorem appended_chains_verify:
  assumes "reach empty_store (append_step cr) db"
  shows "verifyFullChain cr sess chain db = Inr (vr_ok (length (chain_rows sess chain db))) \<and>
    list_all (content_bound cr) (chain_rows sess chain db)"
  using audit_log.inv_reach [OF assms]
  by (auto simp: store_ok_def verifyFullChain_ok list_all_iff chain_rows_set)

theorem appended_chains_verify_witness:
  "verifyFullChain demo_cr (Some demo_org) ''c'' demo_db2
     = Inr (vr_ok (length (chain_rows (Some demo_org) ''c'' demo_db2)))"
  using appended_chains_verify [OF demo_reach2, of "Some demo_org" "''c''"] by blast

text \<open>
  A call of \<open>auditAppend\<close> that returns has either found the explicit event id among the
  session's events and left the tables as they were, or has written exactly one event: at the
  end of its own chain, with the next sequence number, in the session's organization, every
  other chain of every organization unchanged.
\<close>

theorem append_extends_own_chain:
  assumes "reach empty_store (append_step cr) db"
    and "auditAppend cr sess re rp i db = Inr (out, db')"
  shows "(db' = db \<and> (\<exists>row \<in> set (db_events db). \<exists>eid. ai_event_id i = Some eid \<and>
            ev_id row = lower eid \<and> visible sess row \<and> out = existingEventToOutput row)) \<or>
         (\<exists>row. db_events db' = db_events db @ [row] \<and> ev_org row = ai_org i \<and> ev_chain row = ai_chain i \<and>
            ev_seq row = int (length (chain_rows sess (ai_chain i) db)) + 1 \<and>
            ao_seq out = ev_seq row \<and> ao_hmac out = ev_hmac row \<and>
            (\<forall>s c. chain_rows s c db' = chain_rows s c db @ (if s = sess \<and> c = ai_chain i then [row] else [])))"
  using assms(2)
proof (cases rule: auditAppend_cases)
  case (reuse eid row)
  then show ?thesis by (auto simp: findExistingEventById_def find_Some_iff)
next
  case (fresh row eid pid)
  note ins = store_ok_insert [OF audit_log.inv_reach [OF assms(1)] fresh(1,5,6)]
  note f = fresh_row [OF fresh(1,5,6)]
  have "ev_org row = ai_org i" using f(1) fresh(1) by (simp add: visible_def)
  with ins(2-4) f(2) fresh(7) show ?thesis by auto
qed

theorem append_extends_own_chain_witness:
  "\<exists>row. db_events demo_db2 = db_events demo_db1 @ [row] \<and> ev_chain row = ''c''"
  using append_extends_own_chain [OF demo_reach1 demo_step2] by (auto simp: demo_input_def)

text \<open>
  C4. \<open>verifyFullChain\<close> decides well-formedness: it answers valid exactly when row \<open>k\<close> has
  number \<open>k + 1\<close>, carries the HMAC of row \<open>k - 1\<close> and authenticates its own bytes; any other
  answer names the first row at which that fails, the rows before it forming a valid chain.
\<close>

theorem verify_finds_first_bad_row:
  assumes "verifyFullChain cr sess chain db = Inr r"
  shows "(vr_valid r \<longleftrightarrow> chain_ok cr (chain_rows sess chain db)) \<and> vr_events r = length (chain_rows sess chain db) \<and>
    (\<not> vr_valid r \<longrightarrow> (\<exists>k < length (chain_rows sess chain db).
       chain_ok cr (take k (chain_rows sess chain db)) \<and>
       \<not> chain_ok cr (take (Suc k) (chain_rows sess chain db)) \<and>
       vr_first r = Some (ev_seq (chain_rows sess chain db ! k))))"
proof (cases "r = vr_ok (length (chain_rows sess chain db))")
  case True
  with assms verifyFullChain_ok [of cr sess chain db] show ?thesis by (simp add: vr_ok_def)
next
  case False
  then have "verify_loop cr (length (chain_rows sess chain db)) 1 None (chain_rows sess chain db) = Inr r"
    using assms by (auto simp: verifyFullChain_def Let_def split: if_split_asm)
  from verify_loop_bad [OF this False] verifyFullChain_ok [of cr sess chain db] assms False show ?thesis
    by (auto simp: chain_ok_from)
qed

definition demo_row :: audit_event where
  "demo_row = \<lparr> ev_id = demo_id (CHR ''3''), ev_org = demo_org, ev_chain = ''c'', ev_seq = 1, ev_type = ''t'',
     ev_version = ''1'', ev_subject_type = ''run'', ev_subject_id = demo_id (CHR ''2''), ev_occurred = 0,
     ev_payload_hash = [7], ev_payload_ref = None, ev_redaction = JObj [], ev_prev = None, ev_hmac = [107],
     ev_chash = [1, 2], ev_cbytes = [1, 2], ev_key_id = ''k'', ev_key_version = 1,
     ev_evidence = ''hmac_internal'' \<rparr>"

theorem verify_finds_first_bad_row_witness:
  "\<not> chain_ok demo_cr (chain_rows (Some demo_org) ''c'' (demo_db0\<lparr> db_events := [demo_row\<lparr> ev_prev := Some [] \<rparr>] \<rparr>))"
proof -
  have "verifyFullChain demo_cr (Some demo_org) ''c'' (demo_db0\<lparr> db_events := [demo_row\<lparr> ev_prev := Some [] \<rparr>] \<rparr>)
      = Inr (vr_bad 1 (demo_row\<lparr> ev_prev := Some [] \<rparr>) PrevNullMismatch)"
    by (simp add: verifyFullChain_def chain_rows_def demo_db0_def demo_row_def visible_def)
  from verify_finds_first_bad_row [OF this] show ?thesis by simp
qed

subsection \<open>Idempotent retries\<close>

lemma map_of_live:
  assumes "distinct (map fst ps)"
  shows "map_of (map (\<lambda>(k, v). (k, jnorm v)) (filter (\<lambda>(k, v). v \<noteq> JUndef) (sort_key fst ps))) k =
    (case map_of ps k of Some v \<Rightarrow> if v = JUndef then None else Some (jnorm v) | None \<Rightarrow> None)"
proof -
  let ?qs = "map (\<lambda>(k, v). (k, jnorm v)) (filter (\<lambda>(k, v). v \<noteq> JUndef) (sort_key fst ps))"
  have m: "mset (map fst (sort_key fst ps)) = mset (map fst ps)"
    by (simp only: mset_map mset_sort)
  have "distinct (map fst (sort_key fst ps))"
    using assms mset_eq_imp_distinct_iff [OF m] by simp
  then have d: "distinct (map fst ?qs)"
    by (simp add: comp_def split_def distinct_map_filter)
  have "map_of ?qs k = Some w \<longleftrightarrow> (\<exists>v. map_of ps k = Some v \<and> v \<noteq> JUndef \<and> w = jnorm v)" for w
    unfolding map_of_eq_Some_iff [OF d] map_of_eq_Some_iff [OF assms] by auto
  moreover have "m = (case n of Some v \<Rightarrow> if v = JUndef then None else Some (jnorm v) | None \<Rightarrow> None)"
    if m: "\<And>w. m = Some w \<longleftrightarrow> (\<exists>v. n = Some v \<and> v \<noteq> JUndef \<and> w = jnorm v)" for m n
  proof (cases n)
    case None
    with m show ?thesis by (cases m) auto
  next
    case (Some v)
    with m [of "jnorm v"] m show ?thesis by (cases "v = JUndef"; cases m) auto
  qed
  ultimately show ?thesis by blast
qed

definition keys_ok :: "jsval \<Rightarrow> bool" where
  "keys_ok v = (case v of JObj ps \<Rightarrow> distinct (map fst ps) | _ \<Rightarrow> True)"

lemma obj_get_jnorm:
  "keys_ok v \<Longrightarrow> obj_get (jnorm v) k =
     (case obj_get v k of Some x \<Rightarrow> if x = JUndef then None else Some (jnorm x) | None \<Rightarrow> None)"
  by (cases v) (simp_all add: keys_ok_def obj_get_def map_of_live del: filter.simps)

text \<open>An object has one property per key, at the two levels the capture id is read from.\<close>

definition redaction_ok :: "jsval \<Rightarrow> bool" where
  "redaction_ok red = (keys_ok red \<and> (case obj_get red ''audit_sealer'' of Some s \<Rightarrow> keys_ok s | None \<Rightarrow> True))"

lemma readSealerCaptureId_jsonb:
  assumes "redaction_ok red"
  shows "readSealerCaptureId (to_jsonb red) = readSealerCaptureId red"
proof (cases "obj_get red ''audit_sealer''")
  case None
  with assms show ?thesis by (simp add: redaction_ok_def readSealerCaptureId_def to_jsonb_def obj_get_jnorm)
next
  case (Some s)
  with assms have k: "keys_ok red" "keys_ok s" by (simp_all add: redaction_ok_def)
  show ?thesis
  proof (cases "s = JUndef")
    case True
    with Some k show ?thesis
      by (simp add: readSealerCaptureId_def to_jsonb_def obj_get_jnorm) (simp add: obj_get_def)
  next
    case False
    have j: "jnorm x = JStr t \<longleftrightarrow> x = JStr t" for x t by (cases x) auto
    from False Some k show ?thesis
      by (cases "obj_get s ''capture_id''")
         (auto simp: readSealerCaptureId_def to_jsonb_def obj_get_jnorm j split: jsval.splits)
  qed
qed

lemma append_step_grows: "append_step cr db db' \<Longrightarrow> set (db_events db) \<subseteq> set (db_events db')"
  by (erule append_stepE, erule auditAppend_cases) (auto elim: audit_append_lockedE)

lemma append_run_grows: "(append_step cr)\<^sup>*\<^sup>* db db' \<Longrightarrow> set (db_events db) \<subseteq> set (db_events db')"
  by (induction rule: rtranclp_induct) (auto dest: append_step_grows)

lemma find_existing:
  assumes "distinct (map ev_id (db_events db))" "row \<in> set (db_events db)" "visible sess row" "ev_id row = lower eid"
  shows "findExistingEventById sess eid db = Some row"
proof -
  from assms(2,3,4) obtain r where r: "findExistingEventById sess eid db = Some r"
    by (cases "findExistingEventById sess eid db") (auto simp: findExistingEventById_def find_None_iff)
  then have "r \<in> set (db_events db)" "ev_id r = lower eid"
    by (auto simp: findExistingEventById_def find_Some_iff)
  with assms(1,2,4) have "r = row" by (auto simp: distinct_map inj_on_def)
  with r show ?thesis by simp
qed

text \<open>The row an accepted call leaves behind accepts the same call again.\<close>

lemma accepted_row:
  assumes call: "auditAppend cr sess re rp i db = Inr (out, db')" and eid: "ai_event_id i = Some eid"
    and dek: "ai_payload_encrypted i = None \<longrightarrow> ai_dek_wrapped i = None"
    and sid: "lower (ai_subject_id i) = ai_subject_id i"
    and red: "readSealerCaptureId (to_jsonb (ai_redaction i)) = readSealerCaptureId (ai_redaction i)"
  obtains row where "row \<in> set (db_events db')" "visible sess row" "ev_id row = lower eid"
    "assertExistingEventMatches i row = Inr ()"
    "ao_seq out = ev_seq row" "ao_hmac out = ev_hmac row" "ao_cbytes out = ev_cbytes row"
    "ao_chash out = ev_chash row"
  using call
proof (cases rule: auditAppend_cases)
  case (reuse eid' row)
  then show thesis using eid
    by (intro that [of row]) (auto simp: findExistingEventById_def find_Some_iff existingEventToOutput_def)
next
  case (fresh row eid' pid)
  from fresh(6) have dekc: "ai_payload_encrypted i \<noteq> None \<longrightarrow> ai_dek_wrapped i \<noteq> None"
    by (rule audit_append_lockedE) auto
  note f = fresh_row [OF fresh(1,5,6)]
  have org: "ev_org row = ai_org i" using f(1) fresh(1) by (simp add: visible_def)
  from fresh(5) have cols: "ev_chain row = ai_chain i" "ev_type row = ai_type i"
    "ev_version row = ai_version i" "ev_subject_type row = ai_subject_type i"
    "ev_subject_id row = ai_subject_id i" "ev_payload_hash row = ai_payload_hash i"
    "ev_payload_ref row = map_option lower pid" "ev_redaction row = to_jsonb (ai_redaction i)"
    "ev_key_id row = ai_key_id i" "ev_key_version row = ai_key_version i"
    "ev_evidence row = evidence_of i" "ev_id row = lower eid'"
    by (rule event_row_Inr; simp add: sid)+
  have "assertExistingEventMatches i row = Inr ()"
    using dek dekc
    by (auto simp: assertExistingEventMatches_def org cols fresh(4) red
        split: option.split)
  moreover have "row \<in> set (db_events db')" using fresh(6) by (rule audit_append_lockedE) simp
  ultimately show thesis using f(1) cols(12) fresh(3,7) eid by (intro that [of row]) simp_all
qed

text \<open>
  A call with an explicit event id can be retried at any later time, after any other
  appends: the retry writes nothing and returns the sequence number, HMAC, bytes and hash of
  the first call. It needs the subject id in the database's lower case and a wrapped key only
  together with a payload.
\<close>

theorem explicit_id_retry_idempotent:
  assumes "reach empty_store (append_step cr) db"
    and call: "auditAppend cr sess re rp i db = Inr (out, db')" and "ai_event_id i = Some eid"
    and later: "(append_step cr)\<^sup>*\<^sup>* db' db2"
    and "ai_payload_encrypted i = None \<longrightarrow> ai_dek_wrapped i = None"
    and "lower (ai_subject_id i) = ai_subject_id i" and "redaction_ok (ai_redaction i)"
  shows "\<exists>out'. auditAppend cr sess re2 rp2 i db2 = Inr (out', db2) \<and> ao_event_id out' = lower eid \<and>
    ao_seq out' = ao_seq out \<and> ao_hmac out' = ao_hmac out \<and> ao_cbytes out' = ao_cbytes out \<and>
    ao_chash out' = ao_chash out"
proof -
  from call assms(3,5,6) readSealerCaptureId_jsonb [OF assms(7)] obtain row where row: "row \<in> set (db_events db')" "visible sess row"
    "ev_id row = lower eid" "assertExistingEventMatches i row = Inr ()"
    "ao_seq out = ev_seq row" "ao_hmac out = ev_hmac row" "ao_cbytes out = ev_cbytes row"
    "ao_chash out = ev_chash row"
    by (rule accepted_row)
  have "store_ok cr db2"
    using audit_log.inv_run [OF append_step_ok [OF audit_log.inv_reach [OF assms(1)] append_step [OF call]] later] .
  moreover have "row \<in> set (db_events db2)" using append_run_grows [OF later] row(1) by blast
  ultimately have "findExistingEventById sess eid db2 = Some row"
    using row(2,3) by (intro find_existing) (auto simp: store_ok_def)
  moreover have "sess = Some (ai_org i)" "sess \<noteq> Some []" "is_uuid eid"
    using call assms(3) by (auto simp: auditAppend_def split: if_split_asm)
  ultimately show ?thesis
    by (simp add: auditAppend_def assms(3) row existingEventToOutput_def)
qed

theorem explicit_id_retry_idempotent_witness:
  "\<exists>out'. auditAppend demo_cr (Some demo_org) [] [] (demo_input (Some (demo_id (CHR ''3'')))) demo_db2 = Inr (out', demo_db2)"
proof -
  have "(append_step demo_cr)\<^sup>*\<^sup>* demo_db1 demo_db2"
    using append_step [OF demo_step2] by blast
  moreover have "lower (demo_id (CHR ''2'')) = demo_id (CHR ''2'')" by code_simp
  ultimately show ?thesis
    using explicit_id_retry_idempotent [OF demo_reach0 demo_step1, of "demo_id (CHR ''3'')" demo_db2 "[]" "[]"]
    by (auto simp: demo_input_def redaction_ok_def keys_ok_def obj_get_def)
qed

subsection \<open>What a stored event records\<close>

text \<open>A defined property survives the way through the database, whatever the other keys.\<close>

lemma map_of_filter_key: "map_of (filter (\<lambda>p. fst p = k) ps) k = map_of ps k"
  by (induction ps) auto

lemma map_of_sort: "map_of (sort_key fst ps) k = map_of ps k"
  by (metis map_of_filter_key sort_key_stable)

lemma obj_get_jnorm_Some:
  assumes "obj_get v k = Some x" "x \<noteq> JUndef"
  shows "obj_get (jnorm v) k = Some (jnorm x)"
proof -
  from assms(1) obtain ps where v: "v = JObj ps" "map_of ps k = Some x"
    by (auto simp: obj_get_def split: jsval.splits)
  have "map_of (map (\<lambda>(k, v). (k, jnorm v)) (filter (\<lambda>(k, v). v \<noteq> JUndef) qs)) k = Some (jnorm x)"
    if "map_of qs k = Some x" for qs
    using that assms(2) by (induction qs) (auto split: if_split_asm)
  with v show ?thesis by (simp add: obj_get_def map_of_sort)
qed

lemma capture_id_stored:
  assumes "readSealerCaptureId red = Some cid"
  shows "readSealerCaptureId (to_jsonb red) = Some cid"
proof -
  from assms obtain s where s: "obj_get red ''audit_sealer'' = Some s" "obj_get s ''capture_id'' = Some (JStr cid)"
    by (auto simp: readSealerCaptureId_def split: option.splits jsval.splits)
  then have "s \<noteq> JUndef" by (auto simp: obj_get_def)
  with s show ?thesis
    by (simp add: readSealerCaptureId_def to_jsonb_def obj_get_jnorm_Some)
qed

text \<open>
  The columns of \<open>e\<close> are those the call asked for; the subject id up to the case of its digits,
  and the capture id, when the call carries one.
\<close>

definition event_records :: "append_input \<Rightarrow> audit_event \<Rightarrow> bool" where
  "event_records i e \<longleftrightarrow> ev_org e = ai_org i \<and> ev_chain e = ai_chain i \<and> ev_type e = ai_type i \<and>
     ev_version e = ai_version i \<and> ev_subject_type e = ai_subject_type i \<and>
     lower (ev_subject_id e) = lower (ai_subject_id i) \<and> ev_payload_hash e = ai_payload_hash i \<and>
     ev_key_id e = ai_key_id i \<and> ev_key_version e = ai_key_version i \<and> ev_evidence e = evidence_of i \<and>
     (\<forall>cid. readSealerCaptureId (ai_redaction i) = Some cid \<longrightarrow> readSealerCaptureId (ev_redaction e) = Some cid)"

lemma append_leaves_record:
  assumes "auditAppend cr sess re rp i db = Inr (out, db')"
  shows "\<exists>e \<in> set (db_events db'). visible sess e \<and> event_records i e \<and> ev_id e = lower (ao_event_id out) \<and>
    (\<forall>eid. ai_event_id i = Some eid \<longrightarrow> ev_id e = lower eid)"
  using assms
proof (cases rule: auditAppend_cases)
  case (reuse eid row)
  then have "row \<in> set (db_events db')" "visible sess row" "ev_id row = lower eid"
    by (auto simp: findExistingEventById_def find_Some_iff)
  moreover have "event_records i row"
    using reuse(5) by (auto simp: event_records_def assertExistingEventMatches_def dest: hex_of_inj
        split: if_split_asm option.splits)
  ultimately show ?thesis using reuse by (auto simp: existingEventToOutput_def)
next
  case (fresh row eid pid)
  note f = fresh_row [OF fresh(1,5,6)]
  have org: "ev_org row = ai_org i" using f(1) fresh(1) by (simp add: visible_def)
  from fresh(5) have cols: "ev_type row = ai_type i"
    "ev_version row = ai_version i" "ev_subject_type row = ai_subject_type i"
    "ev_subject_id row = lower (ai_subject_id i)" "ev_payload_hash row = ai_payload_hash i"
    "ev_redaction row = to_jsonb (ai_redaction i)"
    "ev_key_id row = ai_key_id i" "ev_key_version row = ai_key_version i"
    "ev_evidence row = evidence_of i" "ev_id row = lower eid"
    by (rule event_row_Inr; simp)+
  have "event_records i row" by (simp add: event_records_def org cols f(2) capture_id_stored)
  moreover have "row \<in> set (db_events db')" using fresh(6) by (rule audit_append_lockedE) simp
  ultimately show ?thesis using f(1) cols(10) fresh(3,7) by auto
qed

text \<open>The audit chain is an append log; its clients get \<open>audit_writer.recorded_forever\<close>.\<close>

interpretation audit_writer: append_log
  "\<lambda>(sess, re, rp, i). auditAppend cr sess re rp i" "\<lambda>db. set (db_events db)"
  "\<lambda>(sess, re, rp, i) e. visible sess e \<and> event_records i e" for cr
proof unfold_locales
  fix i :: "string option \<times> string \<times> string \<times> append_input" and d d' :: "'a audit_db_scheme" and out
  assume a: "(case i of (sess, re, rp, i) \<Rightarrow> auditAppend cr sess re rp i) d = Inr (out, d')"
  obtain sess re rp j where i: "i = (sess, re, rp, j)" by (cases i)
  show "set (db_events d) \<subseteq> set (db_events d')"
    using append_step_grows [OF append_step, of cr sess re rp j d out d'] a by (simp add: i)
  show "\<exists>v\<in>set (db_events d'). (case i of (sess, re, rp, i) \<Rightarrow> \<lambda>e. visible sess e \<and> event_records i e) v"
    using append_leaves_record [of cr sess re rp j d out d'] a by (auto simp: i)
qed

subsection \<open>What an HMAC commits to\<close>

lemma obj_get_event:
  "obj_get (event_value eid org chain sq prev typ ver st sid occ ph pref kid kv evi red) ''event_id'' = Some (JStr eid)"
  "obj_get (event_value eid org chain sq prev typ ver st sid occ ph pref kid kv evi red) ''org_id'' = Some (JStr org)"
  "obj_get (event_value eid org chain sq prev typ ver st sid occ ph pref kid kv evi red) ''chain_id'' = Some (JStr chain)"
  "obj_get (event_value eid org chain sq prev typ ver st sid occ ph pref kid kv evi red) ''sequence_number'' = Some (JStr (dec_of (nat sq)))"
  "obj_get (event_value eid org chain sq prev typ ver st sid occ ph pref kid kv evi red) ''previous_hmac''
     = Some (case prev of None \<Rightarrow> JNull | Some h \<Rightarrow> JStr (hex_of h))"
  "obj_get (event_value eid org chain sq prev typ ver st sid occ ph pref kid kv evi red) ''event_type'' = Some (JStr typ)"
  "obj_get (event_value eid org chain sq prev typ ver st sid occ ph pref kid kv evi red) ''event_version'' = Some (JStr ver)"
  "obj_get (event_value eid org chain sq prev typ ver st sid occ ph pref kid kv evi red) ''subject_type'' = Some (JStr st)"
  "obj_get (event_value eid org chain sq prev typ ver st sid occ ph pref kid kv evi red) ''subject_id'' = Some (JStr sid)"
  "obj_get (event_value eid org chain sq prev typ ver st sid occ ph pref kid kv evi red) ''occurred_at'' = Some (JStr (iso_of_ms occ))"
  "obj_get (event_value eid org chain sq prev typ ver st sid occ ph pref kid kv evi red) ''payload_hash'' = Some (JStr (hex_of ph))"
  "obj_get (event_value eid org chain sq prev typ ver st sid occ ph pref kid kv evi red) ''payload_ref''
     = Some (case pref of None \<Rightarrow> JNull | Some p \<Rightarrow> JStr p)"
  "obj_get (event_value eid org chain sq prev typ ver st sid occ ph pref kid kv evi red) ''key_id'' = Some (JStr kid)"
  "obj_get (event_value eid org chain sq prev typ ver st sid occ ph pref kid kv evi red) ''key_version'' = Some (JNum (Finite (of_int kv)))"
  "obj_get (event_value eid org chain sq prev typ ver st sid occ ph pref kid kv evi red) ''evidence_strength'' = Some (JStr evi)"
  "obj_get (event_value eid org chain sq prev typ ver st sid occ ph pref kid kv evi red) ''redaction_metadata'' = Some red"
  by (simp_all add: event_value_def obj_get_def)

lemma keys_ok_event: "keys_ok (event_value eid org chain sq prev typ ver st sid occ ph pref kid kv evi red)"
  by (simp add: event_value_def keys_ok_def)

text \<open>Equal values have, under each key, equal normal forms.\<close>

lemma jnorm_get_eq:
  assumes "jnorm v = jnorm w" "keys_ok v" "keys_ok w" "obj_get v k = Some x" "obj_get w k = Some y"
  shows "jnorm x = jnorm y"
proof -
  have u: "jnorm x = JUndef \<longleftrightarrow> x = JUndef" for x by (cases x) auto
  from assms obj_get_jnorm [of v k] obj_get_jnorm [of w k] show ?thesis
    by (auto simp: split: if_split_asm)
qed

lemma jnorm_prev_eq:
  "jnorm (case p of None \<Rightarrow> JNull | Some h \<Rightarrow> JStr (hex_of h)) = jnorm (case q of None \<Rightarrow> JNull | Some h \<Rightarrow> JStr (hex_of h))
    \<Longrightarrow> p = q"
  by (auto dest: hex_of_inj split: option.splits)

lemma jnorm_ref_eq:
  "jnorm (case p of None \<Rightarrow> JNull | Some h \<Rightarrow> JStr h) = jnorm (case q of None \<Rightarrow> JNull | Some h \<Rightarrow> JStr h) \<Longrightarrow> p = q"
  by (auto split: option.splits)

text \<open>
  Everything a row holds except its own HMAC and hash, the date in the text form that is
  authenticated.
\<close>

definition row_content :: "audit_event \<Rightarrow> (string \<times> string \<times> string \<times> int \<times> bytes option) \<times>
    (string \<times> string \<times> string \<times> string \<times> string) \<times> (bytes \<times> string option \<times> string \<times> int \<times> string \<times> jsval)" where
  "row_content e = ((ev_id e, ev_org e, ev_chain e, ev_seq e, ev_prev e),
     (ev_type e, ev_version e, ev_subject_type e, ev_subject_id e, iso_of_ms (ev_occurred e)),
     (ev_payload_hash e, ev_payload_ref e, ev_key_id e, ev_key_version e, ev_evidence e, ev_redaction e))"

lemma bytes_determine_content:
  assumes num: "num_text_ok (num_text cr)" and bnd: "content_bound cr a" "content_bound cr b"
    and eq: "ev_cbytes a = ev_cbytes b"
  shows "row_content a = row_content b"
proof -
  from bnd obtain ea pa sa ra eb pb sb rb where
    A: "bound_to cr ea pa sa ra a" and B: "bound_to cr eb pb sb rb b"
    by (auto simp: content_bound_def)
  let ?va = "event_value ea (ev_org a) (ev_chain a) (ev_seq a) (ev_prev a) (ev_type a) (ev_version a)
           (ev_subject_type a) sa (ev_occurred a) (ev_payload_hash a) pa
           (ev_key_id a) (ev_key_version a) (ev_evidence a) ra"
  let ?vb = "event_value eb (ev_org b) (ev_chain b) (ev_seq b) (ev_prev b) (ev_type b) (ev_version b)
           (ev_subject_type b) sb (ev_occurred b) (ev_payload_hash b) pb
           (ev_key_id b) (ev_key_version b) (ev_evidence b) rb"
  from A B eq obtain t where "canonicalize (num_text cr) ?va = Inr t" "canonicalize (num_text cr) ?vb = Inr t"
    unfolding bound_to_def by (metis utf8_inj)
  then have j: "jnorm ?va = jnorm ?vb"
    using stringify_uniq [OF num, of ?va t ?vb t "[]" "[]"] by (simp add: canonicalize_def)
  note g = jnorm_get_eq [OF j keys_ok_event keys_ok_event]
  have "ea = eb" "ev_org a = ev_org b" "ev_chain a = ev_chain b" "dec_of (nat (ev_seq a)) = dec_of (nat (ev_seq b))"
    using g [OF obj_get_event(1) obj_get_event(1)] g [OF obj_get_event(2) obj_get_event(2)]
      g [OF obj_get_event(3) obj_get_event(3)] g [OF obj_get_event(4) obj_get_event(4)] by simp_all
  moreover have "ev_prev a = ev_prev b" using g [OF obj_get_event(5) obj_get_event(5)] by (rule jnorm_prev_eq)
  moreover have "ev_type a = ev_type b" "ev_version a = ev_version b" "ev_subject_type a = ev_subject_type b"
      "sa = sb" "iso_of_ms (ev_occurred a) = iso_of_ms (ev_occurred b)"
    using g [OF obj_get_event(6) obj_get_event(6)] g [OF obj_get_event(7) obj_get_event(7)]
      g [OF obj_get_event(8) obj_get_event(8)] g [OF obj_get_event(9) obj_get_event(9)]
      g [OF obj_get_event(10) obj_get_event(10)] by simp_all
  moreover have "ev_payload_hash a = ev_payload_hash b"
    using g [OF obj_get_event(11) obj_get_event(11)] by (simp add: hex_of_inj)
  moreover have "pa = pb" using g [OF obj_get_event(12) obj_get_event(12)] by (rule jnorm_ref_eq)
  moreover have "ev_key_id a = ev_key_id b" "ev_key_version a = ev_key_version b" "ev_evidence a = ev_evidence b"
      "jnorm ra = jnorm rb"
    using g [OF obj_get_event(13) obj_get_event(13)] g [OF obj_get_event(14) obj_get_event(14)]
      g [OF obj_get_event(15) obj_get_event(15)] g [OF obj_get_event(16) obj_get_event(16)] by simp_all
  ultimately show ?thesis
    using A B by (simp add: row_content_def bound_to_def to_jsonb_def dec_of_inj nat_eq_iff)
qed

text \<open>No two messages share a MAC, whatever the keys: the idealisation of HMAC-SHA-256.\<close>

definition mac_injective :: "crypto \<Rightarrow> bool" where
  "mac_injective cr \<longleftrightarrow> (\<forall>o1 k1 v1 m1 o2 k2 v2 m2 h.
     kms cr o1 k1 v1 m1 = Some h \<longrightarrow> kms cr o2 k2 v2 m2 = Some h \<longrightarrow> m1 = m2)"

lemma same_head_same_chain:
  assumes num: "num_text_ok (num_text cr)" and mac: "mac_injective cr"
  shows "chain_ok cr xs \<Longrightarrow> chain_ok cr ys \<Longrightarrow> list_all (content_bound cr) xs \<Longrightarrow> list_all (content_bound cr) ys \<Longrightarrow>
    map_option ev_hmac (if xs = [] then None else Some (last xs))
      = map_option ev_hmac (if ys = [] then None else Some (last ys)) \<Longrightarrow>
    map row_content xs = map row_content ys"
proof (induction xs arbitrary: ys rule: rev_induct)
  case (snoc x xs)
  from snoc.prems(5) obtain y ys' where ys: "ys = ys' @ [y]" and h: "ev_hmac x = ev_hmac y"
    by (cases ys rule: rev_cases) (auto split: if_split_asm)
  from snoc.prems(1,2) have x: "row_ok cr (1 + int (length xs)) (if xs = [] then None else Some (ev_hmac (last xs))) x"
    and y: "row_ok cr (1 + int (length ys')) (if ys' = [] then None else Some (ev_hmac (last ys'))) y"
    and cs: "chain_ok cr xs" "chain_ok cr ys'" by (simp_all add: ys chain_ok_snoc)
  have "ev_cbytes x = ev_cbytes y"
    using x y h mac unfolding row_ok_def mac_injective_def by metis
  with bytes_determine_content [OF num] snoc.prems(3,4) have c: "row_content x = row_content y"
    by (simp add: ys)
  then have "ev_prev x = ev_prev y" by (simp add: row_content_def)
  with x y have "map_option ev_hmac (if xs = [] then None else Some (last xs))
      = map_option ev_hmac (if ys' = [] then None else Some (last ys'))"
    by (simp add: row_ok_def split: if_split_asm)
  from snoc.IH [OF cs _ _ this] snoc.prems(3,4) c show ?case by (simp add: ys)
qed (auto split: if_split_asm)

text \<open>
  C3. The HMAC of a chain's last event commits to the whole chain: two stores built by
  \<open>auditAppend\<close>, however different their histories, whose chains end in the same HMAC hold the
  same events in these chains, column by column (dates to the authenticated millisecond).
  Assumes that the MAC is injective and that number texts are unambiguous.
\<close>

theorem head_hmac_commits_to_chain:
  assumes "num_text_ok (num_text cr)" and "mac_injective cr"
    and "reach empty_store (append_step cr) db1" and "reach empty_store (append_step cr) db2"
    and "chain_head s1 c1 db1 = Some h1" and "chain_head s2 c2 db2 = Some h2" and "ev_hmac h1 = ev_hmac h2"
  shows "map row_content (chain_rows s1 c1 db1) = map row_content (chain_rows s2 c2 db2)"
proof -
  note ok = audit_log.inv_reach [OF assms(3)] audit_log.inv_reach [OF assms(4)]
  from assms(5-7) have "map_option ev_hmac (chain_head s1 c1 db1) = map_option ev_hmac (chain_head s2 c2 db2)"
    by simp
  with ok show ?thesis
    by (intro same_head_same_chain [OF assms(1,2)])
       (auto simp: store_ok_def list_all_iff chain_rows_set chain_head_def Let_def split: if_split_asm)
qed

text \<open>A crypto record whose MAC is the message itself satisfies the assumptions.\<close>

definition ideal_cr :: crypto where
  "ideal_cr = demo_cr\<lparr> kms := \<lambda>org kid kv m. Some m \<rparr>"

lemma ideal_cr_ok: "num_text_ok (num_text ideal_cr)" "mac_injective ideal_cr"
  by (simp_all add: ideal_cr_def demo_cr_def sample_num_ok mac_injective_def)

lemma append_extends_chain_rows:
  assumes "reach empty_store (append_step cr) db" and "auditAppend cr sess re rp i db = Inr (out, db')"
    and "ai_event_id i = None"
  shows "\<exists>row. db_events db' = db_events db @ [row] \<and>
    (\<forall>c. chain_rows sess c db' = chain_rows sess c db @ (if c = ai_chain i then [row] else []))"
  using assms(2)
proof (cases rule: auditAppend_cases)
  case (reuse eid row)
  with assms(3) show ?thesis by simp
next
  case (fresh row eid pid)
  from store_ok_insert(2,4) [OF audit_log.inv_reach [OF assms(1)] fresh(1,5,6)] show ?thesis by simp
qed

definition ideal_append :: "char \<Rightarrow> string \<Rightarrow> audit_db \<Rightarrow> audit_error + append_output \<times> audit_db" where
  "ideal_append c chain db = auditAppend ideal_cr (Some demo_org) (demo_id c) (demo_id (CHR ''9''))
     ((demo_input None)\<lparr> ai_chain := chain \<rparr>) db"

text \<open>Two appends, to the chains \<open>c\<close> and \<open>d\<close>.\<close>

lemma ideal_runs:
  "\<not> isl (bindE (ideal_append (CHR ''3'') ''c'' demo_db0) (\<lambda>r. ideal_append (CHR ''4'') ''d'' (snd r)))"
  by code_simp

theorem head_hmac_commits_to_chain_witness:
  "\<exists>(db1 :: audit_db) (db2 :: audit_db). length (db_events db1) = 1 \<and> length (db_events db2) = 2 \<and>
     map row_content (chain_rows (Some demo_org) ''c'' db1) = map row_content (chain_rows (Some demo_org) ''c'' db2) \<and>
     chain_rows (Some demo_org) ''c'' db1 \<noteq> []"
proof -
  define i where "i = (\<lambda>c. (demo_input None)\<lparr> ai_chain := c \<rparr>)"
  have i: "ai_event_id (i c) = None" "ai_chain (i c) = c" for c
    by (simp_all add: i_def demo_input_def)
  have "\<exists>o1 db1 o2 db2. ideal_append (CHR ''3'') ''c'' demo_db0 = Inr (o1, db1) \<and>
      ideal_append (CHR ''4'') ''d'' db1 = Inr (o2, db2)"
    using ideal_runs by (cases "ideal_append (CHR ''3'') ''c'' demo_db0";
      cases "bindE (ideal_append (CHR ''3'') ''c'' demo_db0) (\<lambda>r. ideal_append (CHR ''4'') ''d'' (snd r))") auto
  then obtain o1 db1 o2 db2 where
    r1: "auditAppend ideal_cr (Some demo_org) (demo_id (CHR ''3'')) (demo_id (CHR ''9'')) (i ''c'') demo_db0 = Inr (o1, db1)"
    and r2: "auditAppend ideal_cr (Some demo_org) (demo_id (CHR ''4'')) (demo_id (CHR ''9'')) (i ''d'') db1 = Inr (o2, db2)"
    by (auto simp: ideal_append_def i_def)
  have re0: "reach empty_store (append_step ideal_cr) demo_db0"
    by (rule reach_init) (simp add: empty_store_def demo_db0_def)
  note re1 = reach_step [OF re0 append_step [OF r1]]
  note re2 = reach_step [OF re1 append_step [OF r2]]
  note x1 = append_extends_chain_rows [OF re0 r1 i(1)] and x2 = append_extends_chain_rows [OF re1 r2 i(1)]
  from x1 obtain e1 where e1: "db_events db1 = [e1]" "chain_rows (Some demo_org) ''c'' db1 = [e1]"
    by (auto simp: i demo_db0_def chain_rows_def)
  from x2 obtain e2 where e2: "db_events db2 = [e1, e2]" "chain_rows (Some demo_org) ''c'' db2 = [e1]"
    by (auto simp: i e1)
  have "chain_head (Some demo_org) ''c'' db1 = Some e1" "chain_head (Some demo_org) ''c'' db2 = Some e1"
    by (simp_all add: chain_head_def Let_def e1 e2)
  note same = head_hmac_commits_to_chain [OF ideal_cr_ok re1 re2 this refl]
  show ?thesis
    by (intro exI [of _ db1] exI [of _ db2] conjI) (simp add: e1, simp add: e2, rule same, simp add: e1)
qed

subsection \<open>Concurrent appends, and what verification does not see\<close>

text \<open>
  Two callers that computed their row against the same head cannot both write: once one of
  them has appended to the chain, the SQL function refuses the other, so a chain never forks.
\<close>

theorem stale_head_is_refused:
  assumes "reach empty_store (append_step cr) db"
    and "event_row cr (chain_head sess (ai_chain i) db) eid pid i = Inr row"
    and "auditAppend cr sess re rp j db = Inr (out, db')" and "ai_event_id j = None" and "ai_chain j = ai_chain i"
    and "sess = Some (ai_org i)"
  shows "\<exists>e. audit_append_locked sess row enc dek db' = Inl e"
proof (cases "audit_append_locked sess row enc dek db'")
  case (Inr db'')
  from append_extends_chain_rows [OF assms(1,3,4)] obtain r where
    r: "chain_rows sess (ai_chain i) db' = chain_rows sess (ai_chain i) db @ [r]"
    by (auto simp: assms(5))
  note ok = audit_log.inv_reach [OF assms(1)]
  note ok' = append_step_ok [OF ok append_step [OF assms(3)]]
  from Inr have s: "ev_seq row = (case chain_head sess (ev_chain row) db' of None \<Rightarrow> 0 | Some h \<Rightarrow> ev_seq h) + 1"
    by (rule audit_append_lockedE)
  from assms(2) have "ev_chain row = ai_chain i"
    "ev_seq row = (case chain_head sess (ai_chain i) db of None \<Rightarrow> 0 | Some h \<Rightarrow> ev_seq h) + 1"
    by (rule event_row_Inr, simp)+
  with s have "(case chain_head sess (ai_chain i) db of None \<Rightarrow> 0 | Some h \<Rightarrow> ev_seq h)
      = (case chain_head sess (ai_chain i) db' of None \<Rightarrow> 0 | Some h \<Rightarrow> ev_seq h)" by simp
  moreover have "(case chain_head sess (ai_chain i) db of None \<Rightarrow> 0 | Some h \<Rightarrow> ev_seq h) = int (length (chain_rows sess (ai_chain i) db))"
    "(case chain_head sess (ai_chain i) db' of None \<Rightarrow> 0 | Some h \<Rightarrow> ev_seq h) = int (length (chain_rows sess (ai_chain i) db'))"
    using ok ok' by (auto simp: store_ok_def intro!: head_seq_chain(1) [where cr = cr])
  ultimately show ?thesis by (simp add: r)
qed simp

theorem stale_head_is_refused_witness:
  "\<exists>row e. event_row demo_cr (chain_head (Some demo_org) ''c'' demo_db1) (demo_id (CHR ''5'')) None (demo_input None) = Inr row \<and>
     audit_append_locked (Some demo_org) row None None demo_db2 = Inl e"
proof -
  have i: "ai_event_id (demo_input None) = None" "ai_chain (demo_input None) = ''c''" "Some demo_org = Some (ai_org (demo_input None))"
    by (simp_all add: demo_input_def)
  have "\<not> isl (event_row demo_cr (chain_head (Some demo_org) ''c'' demo_db1) (demo_id (CHR ''5'')) None (demo_input None))"
    by code_simp
  then obtain row where r: "event_row demo_cr (chain_head (Some demo_org) (ai_chain (demo_input None)) demo_db1)
      (demo_id (CHR ''5'')) None (demo_input None) = Inr row"
    by (auto simp: i(2) dest: isl_neg_Inr)
  from stale_head_is_refused [OF demo_reach1 r demo_step2 i(1) refl i(3)] r show ?thesis
    by (auto simp: i(2))
qed

lemma tail_loop_ok: "ok_from cr e p rows \<Longrightarrow> tail_loop cr n p rows = Inr (vr_ok n)"
  by (induction rows arbitrary: e p) (auto simp: row_ok_def hmacVerify_simp)

lemma tail_of_ok:
  assumes "chain_ok cr rows"
  shows "\<exists>e p. ok_from cr e p (rev (take w (rev rows)))"
proof -
  have "rows = take (length rows - w) rows @ rev (take w (rev rows))"
    by (simp add: take_rev)
  with assms show ?thesis by (metis chain_ok_from ok_from_append)
qed

text \<open>
  \<open>verifyTailWindow\<close> raises no false alarm: on a chain that \<open>verifyFullChain\<close> accepts it
  accepts the tail, whatever the window size, and reports the number of rows it has checked.
\<close>

theorem tail_window_agrees:
  assumes "verifyFullChain cr sess chain db = Inr r" and "vr_valid r"
  shows "verifyTailWindow cr sess chain w db = Inr (vr_ok (min w (length (chain_rows sess chain db))))"
proof -
  let ?rows = "chain_rows sess chain db"
  let ?t = "rev (take w (rev ?rows))"
  have "r = vr_ok (length ?rows)"
    using assms by (auto simp: verifyFullChain_def Let_def split: if_split_asm dest: verify_loop_bad)
  with assms(1) have "chain_ok cr ?rows" using verifyFullChain_ok [of cr sess chain db] by simp
  from tail_of_ok [OF this, of w] obtain e p where ok: "ok_from cr e p ?t" by blast
  show ?thesis
  proof (cases ?t)
    case Nil
    then show ?thesis by (auto simp: verifyTailWindow_def Let_def)
  next
    case (Cons row rest)
    then have "verifyTailWindow cr sess chain w db = tail_loop cr (length ?t) (ev_prev (hd ?t)) ?t"
      by (auto simp: verifyTailWindow_def Let_def)
    also have "ev_prev (hd ?t) = p" using ok by (simp add: Cons row_ok_def)
    also have "tail_loop cr (length ?t) p ?t = Inr (vr_ok (length ?t))" by (rule tail_loop_ok [OF ok])
    finally show ?thesis by (simp add: min.commute)
  qed
qed

theorem tail_window_agrees_witness:
  "verifyTailWindow demo_cr (Some demo_org) ''c'' 1 demo_db2 = Inr (vr_ok (min 1 (length (chain_rows (Some demo_org) ''c'' demo_db2))))"
proof -
  have "verifyFullChain demo_cr (Some demo_org) ''c'' demo_db2 = Inr (vr_ok (length (chain_rows (Some demo_org) ''c'' demo_db2)))"
    using audit_log.inv_reach [OF demo_reach2] by (simp add: verifyFullChain_ok store_ok_def)
  from tail_window_agrees [OF this] show ?thesis by simp
qed

fun relink :: "int \<Rightarrow> bytes option \<Rightarrow> audit_event list \<Rightarrow> audit_event list" where
  "relink e p [] = []"
| "relink e p (row # rows) = row\<lparr> ev_seq := e, ev_prev := p \<rparr> # relink (e + 1) (Some (ev_hmac row)) rows"

lemma relink_ok: "ok_from cr e p rows \<Longrightarrow> ok_from cr e' p' (relink e' p' rows)"
  by (induction rows arbitrary: e p e' p') (auto simp: row_ok_def)

lemma relink_seqs: "map ev_seq (relink e p rows) = map (\<lambda>k. e + int k) [0..<length rows]"
proof (induction rows arbitrary: e p)
  case (Cons row rows)
  show ?case
    by (simp add: Cons.IH upt_conv_Cons map_Suc_upt [symmetric] comp_def add.assoc del: upt_Suc map_Suc_upt)
qed simp

lemma relink_visible:
  "list_all (\<lambda>e. visible s e \<and> ev_chain e = c) rows \<Longrightarrow> list_all (\<lambda>e. visible s e \<and> ev_chain e = c) (relink e p rows)"
  by (induction rows arbitrary: e p) (auto simp: visible_def)

definition drop_event :: "nat \<Rightarrow> audit_event list \<Rightarrow> audit_event list" where
  "drop_event k rows = take k rows @ relink (int k + 1)
     (if k = 0 then None else Some (ev_hmac (rows ! (k - 1)))) (drop (Suc k) rows)"

text \<open>
  C8. The limit of verification: it never compares the columns with the authenticated bytes.
  Deleting any event of a valid chain and rewriting only the sequence numbers and
  \<open>previous_hmac\<close> columns of the rows after it, without any key, leaves a chain
  \<open>verifyFullChain\<close> accepts.
\<close>

theorem deleted_event_goes_unnoticed:
  assumes "verifyFullChain cr sess chain db = Inr (vr_ok (length (chain_rows sess chain db)))"
    and "k < length (chain_rows sess chain db)"
    and "db_events db' = drop_event k (chain_rows sess chain db)"
  shows "verifyFullChain cr sess chain db' = Inr (vr_ok (length (chain_rows sess chain db) - 1))"
proof -
  let ?rows = "chain_rows sess chain db"
  let ?p = "if k = 0 then None else Some (ev_hmac (?rows ! (k - 1)))"
  have "?rows = take k ?rows @ ?rows ! k # drop (Suc k) ?rows" by (rule id_take_nth_drop [OF assms(2)])
  moreover have ok: "ok_from cr 1 None ?rows" using assms(1) by (simp add: verifyFullChain_ok chain_ok_from)
  ultimately have "ok_from cr 1 None (take k ?rows @ ?rows ! k # drop (Suc k) ?rows)" by simp
  then have pre: "ok_from cr 1 None (take k ?rows)"
    and rest: "ok_from cr (1 + int k + 1) (Some (ev_hmac (?rows ! k))) (drop (Suc k) ?rows)"
    using assms(2) by (simp_all add: ok_from_append min_def)
  have p: "?p = (if take k ?rows = [] then None else Some (ev_hmac (last (take k ?rows))))"
    using assms(2) by (auto simp: last_conv_nth min_def)
  have ok': "ok_from cr 1 None (db_events db')"
    unfolding assms(3) drop_event_def using pre assms(2) relink_ok [OF rest, of "int k + 1" ?p]
    by (simp only: ok_from_append p) (simp add: min_def add.commute)
  have "list_all (\<lambda>e. visible sess e \<and> ev_chain e = chain) (db_events db')"
    unfolding assms(3) drop_event_def list_all_append
    by (intro conjI relink_visible) (auto simp: list_all_iff chain_rows_set dest!: in_set_takeD in_set_dropD)
  then have "filter (\<lambda>e. visible sess e \<and> ev_chain e = chain) (db_events db') = db_events db'"
    by (simp add: list_all_iff filter_id_conv)
  moreover have "sorted (map ev_seq (db_events db'))"
    using ok' unfolding ok_from_nth row_ok_def by (simp add: sorted_iff_nth_mono)
  ultimately have rows': "chain_rows sess chain db' = db_events db'"
    by (simp add: chain_rows_def sort_key_id_if_sorted)
  have "length (relink e p rs) = length rs" for e p rs by (induction rs arbitrary: e p) auto
  then have "length (db_events db') = length ?rows - 1"
    using assms(2) by (simp add: assms(3) drop_event_def)
  with ok' verifyFullChain_ok [of cr sess chain db'] rows' show ?thesis by (simp add: chain_ok_from)
qed

definition demo_chain :: "audit_event list" where
  "demo_chain = [demo_row, demo_row\<lparr> ev_seq := 2, ev_prev := Some [107] \<rparr>,
     demo_row\<lparr> ev_seq := 3, ev_prev := Some [107] \<rparr>]"

theorem deleted_event_goes_unnoticed_witness:
  "verifyFullChain demo_cr (Some demo_org) ''c'' (demo_db0\<lparr> db_events := drop_event 1 demo_chain \<rparr>) = Inr (vr_ok 2)"
proof -
  let ?db = "demo_db0\<lparr> db_events := demo_chain \<rparr>"
  have rows: "chain_rows (Some demo_org) ''c'' ?db = demo_chain"
    by (simp add: chain_rows_def demo_chain_def visible_def demo_row_def)
  have "chain_ok demo_cr demo_chain"
    unfolding chain_ok_from demo_chain_def by code_simp
  then have "verifyFullChain demo_cr (Some demo_org) ''c'' ?db = Inr (vr_ok (length (chain_rows (Some demo_org) ''c'' ?db)))"
    using verifyFullChain_ok [of demo_cr "Some demo_org" "''c''" ?db] by (simp add: rows)
  from deleted_event_goes_unnoticed [OF this, of 1 "demo_db0\<lparr> db_events := drop_event 1 demo_chain \<rparr>"]
  show ?thesis by (simp add: rows) (simp add: demo_chain_def numeral_2_eq_2)
qed

end
