(* ===== verification/Capture_Outbox.thy ===== *)
theory Capture_Outbox
  imports Audit_Chain
begin

text \<open>
  \<^bold>\<open>packages/core-audit/src/capture.ts\<close> with the outbox of migrations 0025 and 0026: the
  write-ahead table of captures, one numbered queue per capture chain, whose rows go from
  \<open>captured\<close> through \<open>sealing\<close> to \<open>sealed\<close> or \<open>failed\<close>, strictly in order. The tables extend
  those of the audit chain. The SQL functions run as the table owner under forced row-level
  security, so they see the rows of the session's organization; uniqueness constraints see
  every row. Times are milliseconds; of the lifecycle times only \<open>sealing_started_at\<close>, which
  recovery reads, is kept.
\<close>

section \<open>Data\<close>

record capture =
  cp_id :: string
  cp_org :: string
  cp_chain :: string
  cp_category :: string
  cp_type :: string
  cp_version :: string
  cp_subject_type :: string
  cp_subject_id :: string
  cp_occurred :: int
  cp_payload_hash :: bytes
  cp_payload_encrypted :: "bytes option"
  cp_dek_wrapped :: "bytes option"
  cp_key_id :: string
  cp_key_version :: int
  cp_redaction :: jsval
  cp_evidence :: string
  cp_tag :: "bytes option"
  cp_alg :: "string option"
  cp_posture :: string

datatype ob_status = Captured | Sealing | Sealed | Failed

record outbox_row =
  ob_capture :: capture
  ob_seq :: int
  ob_status :: ob_status
  ob_started :: "int option"
  ob_event :: "string option"
  ob_attempts :: int
  ob_error :: "string option"

record chain_state =
  cs_org :: string
  cs_category :: string
  cs_captured :: int
  cs_sealed :: int

record capture_ref =
  rf_org :: string
  rf_capture :: string
  rf_event :: string

record outbox_db = audit_db +
  ob_chains :: "string \<rightharpoonup> chain_state"
  ob_rows :: "outbox_row list"
  ob_refs :: "capture_ref list"

datatype occurred_in = OccDate js_date | OccText string

record capture_input =
  ci_capture_id :: string
  ci_org :: string
  ci_chain :: string
  ci_category :: string
  ci_type :: string
  ci_version :: string
  ci_subject_type :: string
  ci_subject_id :: string
  ci_occurred :: occurred_in
  ci_payload_hash :: bytes
  ci_payload_encrypted :: "bytes option"
  ci_dek_wrapped :: "bytes option"
  ci_key_id :: string
  ci_key_version :: int
  ci_redaction :: "jsval option"
  ci_evidence :: "string option"
  ci_tag :: "bytes option"
  ci_alg :: "string option"
  ci_posture :: "string option"

datatype capture_error =
    CaptureIdNotUuid | OrgIdNotUuid | SubjectIdNotUuid | EmptyChainId | BadCategory | EmptyEventType
  | EmptyEventVersion | EmptySubjectType | EmptyKeyId | NegativeKeyVersion | BadPosture | TagAlgPairing
  | BadAlg | RedactionNotObject | BannedRedactionKey | InvalidOccurredAt | BigIntInJson
  | CaptureCastError | CaptureTenantMismatch | ChainTenantMismatch | CaptureDivergent | CaptureUniqueViolation
  | CaptureNotFound | CaptureOrgMismatch | SealedWithOtherEvent | NotSealing | SealSequenceMismatch | NotFailable

section \<open>The adapter's validation\<close>

definition SQL_BANNED_REDACTION_KEYS :: "string list" where
  "SQL_BANNED_REDACTION_KEYS = [''prompt'', ''response'', ''raw_input'', ''raw_output'']"

definition TS_BANNED_REDACTION_KEYS :: "string list" where
  "TS_BANNED_REDACTION_KEYS = [''messages'', ''completion'', ''requestBody'', ''responseBody'']"

definition ALL_BANNED_REDACTION_KEYS :: "string list" where
  "ALL_BANNED_REDACTION_KEYS = SQL_BANNED_REDACTION_KEYS @ TS_BANNED_REDACTION_KEYS"

definition top_keys :: "jsval \<Rightarrow> string list" where
  "top_keys v = (case v of JObj ps \<Rightarrow> map fst ps | _ \<Rightarrow> [])"

definition is_object :: "jsval \<Rightarrow> bool" where
  "is_object v = (case v of JObj ps \<Rightarrow> True | _ \<Rightarrow> False)"

definition is_category :: "string \<Rightarrow> bool" where
  "is_category c = (c \<in> {''auth'', ''run'', ''policy'', ''admin''})"

definition is_posture :: "string \<Rightarrow> bool" where
  "is_posture p = (p \<in> {''strict'', ''best_effort''})"

definition is_alg :: "string \<Rightarrow> bool" where
  "is_alg a = (a \<in> {''kms_hmac_sha256'', ''sha256_digest''})"

definition posture_of :: "capture_input \<Rightarrow> string" where
  "posture_of i = (case ci_posture i of None \<Rightarrow> ''best_effort'' | Some p \<Rightarrow> p)"

definition validateInput :: "capture_input \<Rightarrow> capture_error + unit" where
  "validateInput i =
     (if \<not> is_uuid (ci_capture_id i) then Inl CaptureIdNotUuid
      else if \<not> is_uuid (ci_org i) then Inl OrgIdNotUuid
      else if \<not> is_uuid (ci_subject_id i) then Inl SubjectIdNotUuid
      else if ci_chain i = [] then Inl EmptyChainId
      else if \<not> is_category (ci_category i) then Inl BadCategory
      else if ci_type i = [] then Inl EmptyEventType
      else if ci_version i = [] then Inl EmptyEventVersion
      else if ci_subject_type i = [] then Inl EmptySubjectType
      else if ci_key_id i = [] then Inl EmptyKeyId
      else if ci_key_version i < 0 then Inl NegativeKeyVersion
      else if \<not> is_posture (posture_of i) then Inl BadPosture
      else if (ci_tag i \<noteq> None) \<noteq> (ci_alg i \<noteq> None) then Inl TagAlgPairing
      else if (case ci_alg i of None \<Rightarrow> False | Some a \<Rightarrow> \<not> is_alg a) then Inl BadAlg
      else if (case ci_redaction i of None \<Rightarrow> False | Some r \<Rightarrow> \<not> is_object r) then Inl RedactionNotObject
      else if (case ci_redaction i of None \<Rightarrow> False
               | Some r \<Rightarrow> list_ex (\<lambda>k. k \<in> set (top_keys r)) ALL_BANNED_REDACTION_KEYS) then Inl BannedRedactionKey
      else if ci_occurred i = OccDate None then Inl InvalidOccurredAt
      else Inr ())"

text \<open>
  \<open>JSON.parse(JSON.stringify(v))\<close>: no \<open>undefined\<close> or function properties, \<open>null\<close> for them in
  arrays and for non-finite numbers; a BigInt throws.
\<close>

function has_bigint :: "jsval \<Rightarrow> bool" where
  "has_bigint (JBigInt i) = True"
| "has_bigint (JArr vs) = list_ex has_bigint vs"
| "has_bigint (JObj ps) = list_ex (\<lambda>(k, v). has_bigint v) ps"
| "has_bigint JUndef = False"
| "has_bigint JNull = False"
| "has_bigint (JBool b) = False"
| "has_bigint (JNum n) = False"
| "has_bigint (JStr s) = False"
| "has_bigint JFun = False"
  by pat_completeness auto
termination
  by (relation "measure size") (auto simp del: jsval.size intro: size_arr_item size_obj_item)

function json_value :: "jsval \<Rightarrow> jsval" where
  "json_value (JArr vs) = JArr (map (\<lambda>v. if v = JUndef \<or> v = JFun then JNull else json_value v) vs)"
| "json_value (JObj ps) =
     JObj (map (\<lambda>(k, v). (k, json_value v)) (filter (\<lambda>(k, v). v \<noteq> JUndef \<and> v \<noteq> JFun) (sort_key fst ps)))"
| "json_value (JNum n) = (case n of NonFinite \<Rightarrow> JNull | Finite q \<Rightarrow> JNum n)"
| "json_value (JBigInt i) = JBigInt i"
| "json_value JUndef = JUndef"
| "json_value JNull = JNull"
| "json_value (JBool b) = JBool b"
| "json_value (JStr s) = JStr s"
| "json_value JFun = JFun"
  by pat_completeness auto
termination
  by (relation "measure size") (auto simp del: jsval.size intro: size_arr_item size_obj_item)

section \<open>The SQL functions\<close>

definition own_session :: "string option \<Rightarrow> string \<Rightarrow> bool" where
  "own_session sess org = (sess \<noteq> None \<and> sess \<noteq> Some [] \<and> sess = Some org)"

text \<open>Columns compared when the capture id exists; migration 0026 leaves \<open>redaction_metadata\<close> out.\<close>

definition same_immutable :: "capture \<Rightarrow> capture \<Rightarrow> bool" where
  "same_immutable a b = (cp_redaction_update (\<lambda>_. JNull) a = cp_redaction_update (\<lambda>_. JNull) b)"

definition audit_capture_insert_locked ::
  "string option \<Rightarrow> capture \<Rightarrow> 'a outbox_db_scheme \<Rightarrow> capture_error + (string \<times> int) \<times> 'a outbox_db_scheme" where
  "audit_capture_insert_locked sess c db =
     (if \<not> own_session sess (cp_org c) then Inl CaptureTenantMismatch
      else if \<not> is_category (cp_category c) then Inl BadCategory
      else if \<not> is_posture (cp_posture c) then Inl BadPosture
      else if \<not> is_object (cp_redaction c) then Inl RedactionNotObject
      else if list_ex (\<lambda>k. k \<in> set (top_keys (cp_redaction c))) SQL_BANNED_REDACTION_KEYS then Inl BannedRedactionKey
      else if (cp_tag c = None) \<noteq> (cp_alg c = None) then Inl TagAlgPairing
      else if (case cp_alg c of None \<Rightarrow> False | Some a \<Rightarrow> \<not> is_alg a) then Inl BadAlg
      else
        let state = (case ob_chains db (cp_chain c) of
              None \<Rightarrow> \<lparr> cs_org = cp_org c, cs_category = cp_category c, cs_captured = 0, cs_sealed = 0 \<rparr>
            | Some s \<Rightarrow> s)
        in if cs_org state \<noteq> cp_org c then Inl ChainTenantMismatch
        else case find (\<lambda>r. sess = Some (cp_org (ob_capture r)) \<and> cp_id (ob_capture r) = cp_id c) (ob_rows db) of
          Some r \<Rightarrow>
            if \<not> same_immutable (ob_capture r) c then Inl CaptureDivergent
            else Inr ((cp_id (ob_capture r), ob_seq r), db\<lparr> ob_chains := (ob_chains db)(cp_chain c \<mapsto> state) \<rparr>)
        | None \<Rightarrow>
            let next = cs_captured state + 1 in
            if list_ex (\<lambda>r. cp_id (ob_capture r) = cp_id c \<or>
                 (cp_chain (ob_capture r) = cp_chain c \<and> ob_seq r = next)) (ob_rows db) then Inl CaptureUniqueViolation
            else Inr ((cp_id c, next),
                db\<lparr> ob_chains := (ob_chains db)(cp_chain c \<mapsto> state\<lparr> cs_captured := next \<rparr>),
                    ob_rows := ob_rows db @
                      [\<lparr> ob_capture = c, ob_seq = next, ob_status = Captured, ob_started = None,
                         ob_event = None, ob_attempts = 0, ob_error = None \<rparr>] \<rparr>))"

text \<open>
  The casts to \<open>text\<close>, \<open>jsonb\<close> and \<open>timestamptz\<close>; a date is passed as its ISO text. \<open>pg_ts\<close> is
  the database's reading of a timestamp text, used when the caller passes a string.
\<close>

definition castable_capture :: "capture_input \<Rightarrow> bool" where
  "castable_capture i \<longleftrightarrow> pg_text (ci_chain i) \<and> pg_text (ci_type i) \<and> pg_text (ci_version i) \<and>
     pg_text (ci_subject_type i) \<and> pg_text (ci_key_id i) \<and>
     (case ci_evidence i of None \<Rightarrow> True | Some e \<Rightarrow> pg_text e) \<and>
     (case ci_redaction i of None \<Rightarrow> True | Some r \<Rightarrow> pg_jsonb (json_value r)) \<and>
     (case ci_occurred i of OccDate (Some d) \<Rightarrow> pg_timestamptz d | _ \<Rightarrow> True)"

definition captureAuditEvent ::
  "(string \<Rightarrow> int option) \<Rightarrow> string option \<Rightarrow> capture_input \<Rightarrow> 'a outbox_db_scheme
   \<Rightarrow> capture_error + (string \<times> int) \<times> 'a outbox_db_scheme" where
  "captureAuditEvent pg_ts sess i db =
     bindE (validateInput i) (\<lambda>_.
       let red = (case ci_redaction i of None \<Rightarrow> JObj [] | Some r \<Rightarrow> r) in
       if has_bigint red then Inl BigIntInJson
       else case (pg_uuid (ci_capture_id i), pg_uuid (ci_org i), pg_uuid (ci_subject_id i),
                  case ci_occurred i of OccDate d \<Rightarrow> d | OccText t \<Rightarrow> pg_ts t) of
         (Some cid, Some org, Some sid, Some occ) \<Rightarrow>
           if 2 ^ 31 \<le> ci_key_version i \<or> \<not> castable_capture i then Inl CaptureCastError
           else audit_capture_insert_locked sess
             \<lparr> cp_id = cid, cp_org = org, cp_chain = ci_chain i, cp_category = ci_category i,
               cp_type = ci_type i, cp_version = ci_version i, cp_subject_type = ci_subject_type i,
               cp_subject_id = sid, cp_occurred = occ, cp_payload_hash = ci_payload_hash i,
               cp_payload_encrypted = ci_payload_encrypted i, cp_dek_wrapped = ci_dek_wrapped i,
               cp_key_id = ci_key_id i, cp_key_version = ci_key_version i, cp_redaction = json_value red,
               cp_evidence = (case ci_evidence i of None \<Rightarrow> ''hmac_internal'' | Some e \<Rightarrow> e),
               cp_tag = ci_tag i, cp_alg = ci_alg i, cp_posture = posture_of i \<rparr> db
       | _ \<Rightarrow> Inl CaptureCastError)"

text \<open>The update of the rows a condition selects.\<close>

definition update_rows :: "(outbox_row \<Rightarrow> bool) \<Rightarrow> (outbox_row \<Rightarrow> outbox_row) \<Rightarrow> outbox_row list \<Rightarrow> outbox_row list" where
  "update_rows p f rows = map (\<lambda>r. if p r then f r else r) rows"

definition claimable :: "string option \<Rightarrow> string \<Rightarrow> int \<Rightarrow> outbox_row \<Rightarrow> bool" where
  "claimable sess chain target r = (sess = Some (cp_org (ob_capture r)) \<and> cp_chain (ob_capture r) = chain \<and>
     ob_seq r = target \<and> ob_status r = Captured)"

definition audit_capture_claim_for_seal ::
  "string option \<Rightarrow> int \<Rightarrow> string \<Rightarrow> string \<Rightarrow> 'a outbox_db_scheme
   \<Rightarrow> capture_error + outbox_row option \<times> 'a outbox_db_scheme" where
  "audit_capture_claim_for_seal sess now org chain db =
     (if \<not> own_session sess org then Inl CaptureTenantMismatch
      else case ob_chains db chain of
        None \<Rightarrow> Inr (None, db)
      | Some s \<Rightarrow>
          if cs_org s \<noteq> org then Inr (None, db)
          else
            let p = claimable sess chain (cs_sealed s + 1);
                f = (\<lambda>r. r\<lparr> ob_status := Sealing, ob_started := Some now, ob_attempts := ob_attempts r + 1 \<rparr>)
            in Inr (map_option f (find p (ob_rows db)), db\<lparr> ob_rows := update_rows p f (ob_rows db) \<rparr>))"

definition has_capture :: "string option \<Rightarrow> string \<Rightarrow> outbox_row \<Rightarrow> bool" where
  "has_capture sess cid r = (sess = Some (cp_org (ob_capture r)) \<and> cp_id (ob_capture r) = cid)"

definition audit_capture_mark_sealed ::
  "string option \<Rightarrow> string \<Rightarrow> string \<Rightarrow> string \<Rightarrow> 'a outbox_db_scheme \<Rightarrow> capture_error + 'a outbox_db_scheme" where
  "audit_capture_mark_sealed sess org cid eid db =
     (if \<not> own_session sess org then Inl CaptureTenantMismatch
      else case find (has_capture sess cid) (ob_rows db) of
        None \<Rightarrow> Inl CaptureNotFound
      | Some row \<Rightarrow>
          if ob_status row = Sealed then
            (if list_ex (\<lambda>r. sess = Some (rf_org r) \<and> rf_capture r = cid \<and> rf_event r = eid) (ob_refs db)
             then Inr db else Inl SealedWithOtherEvent)
          else if ob_status row \<noteq> Sealing then Inl NotSealing
          else case ob_chains db (cp_chain (ob_capture row)) of
            None \<Rightarrow> Inl SealSequenceMismatch
          | Some s \<Rightarrow>
              if cs_org s \<noteq> org \<or> cs_sealed s + 1 \<noteq> ob_seq row then Inl SealSequenceMismatch
              else if list_ex (\<lambda>r. rf_capture r = cid \<or> rf_event r = eid) (ob_refs db) then Inl CaptureUniqueViolation
              else Inr (db\<lparr>
                ob_refs := ob_refs db @ [\<lparr> rf_org = org, rf_capture = cid, rf_event = eid \<rparr>],
                ob_rows := update_rows (has_capture sess cid)
                  (\<lambda>r. r\<lparr> ob_status := Sealed, ob_event := Some eid \<rparr>) (ob_rows db),
                ob_chains := (ob_chains db)(cp_chain (ob_capture row) \<mapsto> s\<lparr> cs_sealed := ob_seq row \<rparr>) \<rparr>))"

definition audit_capture_mark_failed ::
  "string option \<Rightarrow> string \<Rightarrow> string \<Rightarrow> string \<Rightarrow> string \<Rightarrow> 'a outbox_db_scheme \<Rightarrow> capture_error + 'a outbox_db_scheme" where
  "audit_capture_mark_failed sess org cid cls msg db =
     (if \<not> own_session sess org then Inl CaptureTenantMismatch
      else case find (has_capture sess cid) (ob_rows db) of
        None \<Rightarrow> Inl CaptureNotFound
      | Some row \<Rightarrow>
          if ob_status row \<noteq> Captured \<and> ob_status row \<noteq> Sealing then Inl NotFailable
          else Inr (db\<lparr> ob_rows := update_rows (has_capture sess cid)
            (\<lambda>r. r\<lparr> ob_status := Failed, ob_attempts := ob_attempts r + 1,
                     ob_error := Some (take 200 (''['' @ cls @ ''] '' @ msg)) \<rparr>) (ob_rows db) \<rparr>))"

section \<open>The invariant of the outbox\<close>

text \<open>What the casts and checks of a capture leave of its columns.\<close>

definition capture_ok :: "capture \<Rightarrow> bool" where
  "capture_ok c \<longleftrightarrow> lower (cp_id c) = cp_id c \<and> lower (cp_org c) = cp_org c \<and>
     lower (cp_subject_id c) = cp_subject_id c \<and> cp_chain c \<noteq> []"

definition row_inv :: "(string \<rightharpoonup> chain_state) \<Rightarrow> outbox_row \<Rightarrow> bool" where
  "row_inv chs r = (case chs (cp_chain (ob_capture r)) of None \<Rightarrow> False
     | Some s \<Rightarrow> cs_org s = cp_org (ob_capture r) \<and>
         (ob_status r = Sealed \<longleftrightarrow> ob_seq r \<le> cs_sealed s) \<and>
         (ob_status r = Sealing \<longrightarrow> ob_seq r = cs_sealed s + 1) \<and>
         (ob_status r = Sealed \<longleftrightarrow> ob_event r \<noteq> None) \<and>
         capture_ok (ob_capture r) \<and>
         \<not> list_ex (\<lambda>k. k \<in> set (top_keys (cp_redaction (ob_capture r)))) SQL_BANNED_REDACTION_KEYS)"

definition chain_seqs :: "string \<Rightarrow> outbox_row list \<Rightarrow> int list" where
  "chain_seqs c rows = map ob_seq (filter (\<lambda>r. cp_chain (ob_capture r) = c) rows)"

definition chain_inv :: "outbox_row list \<Rightarrow> string \<Rightarrow> chain_state \<Rightarrow> bool" where
  "chain_inv rows c s = (0 \<le> cs_sealed s \<and> cs_sealed s \<le> cs_captured s \<and>
     chain_seqs c rows = map (\<lambda>k. int k + 1) [0..<nat (cs_captured s)])"

definition refs_inv :: "outbox_row list \<Rightarrow> capture_ref list \<Rightarrow> bool" where
  "refs_inv rows refs \<longleftrightarrow> distinct (map rf_capture refs) \<and> distinct (map rf_event refs) \<and>
     (\<forall>f. f \<in> set refs \<longleftrightarrow> (\<exists>r \<in> set rows. ob_event r = Some (rf_event f) \<and>
        rf_capture f = cp_id (ob_capture r) \<and> rf_org f = cp_org (ob_capture r)))"

definition outbox_inv :: "(string \<rightharpoonup> chain_state) \<Rightarrow> outbox_row list \<Rightarrow> capture_ref list \<Rightarrow> bool" where
  "outbox_inv chs rows refs \<longleftrightarrow> distinct (map (\<lambda>r. cp_id (ob_capture r)) rows) \<and>
     list_all (row_inv chs) rows \<and> (\<forall>c s. chs c = Some s \<longrightarrow> chain_inv rows c s) \<and> refs_inv rows refs"

definition outbox_ok :: "'a outbox_db_scheme \<Rightarrow> bool" where
  "outbox_ok db = outbox_inv (ob_chains db) (ob_rows db) (ob_refs db)"

definition outbox_empty :: "'a outbox_db_scheme \<Rightarrow> bool" where
  "outbox_empty db = (ob_chains db = Map.empty \<and> ob_rows db = [] \<and> ob_refs db = [])"

inductive outbox_step :: "(string \<Rightarrow> int option) \<Rightarrow> crypto \<Rightarrow> 'a outbox_db_scheme \<Rightarrow> 'a outbox_db_scheme \<Rightarrow> bool"
  for pg_ts cr where
  ob_capture: "captureAuditEvent pg_ts sess i db = Inr (out, db') \<Longrightarrow> outbox_step pg_ts cr db db'"
| ob_claim: "audit_capture_claim_for_seal sess now org chain db = Inr (row, db') \<Longrightarrow> outbox_step pg_ts cr db db'"
| ob_seal: "audit_capture_mark_sealed sess org cid eid db = Inr db' \<Longrightarrow> outbox_step pg_ts cr db db'"
| ob_fail: "audit_capture_mark_failed sess org cid cls msg db = Inr db' \<Longrightarrow> outbox_step pg_ts cr db db'"
| ob_append: "auditAppend cr sess re rp j db = Inr (o', db') \<Longrightarrow> outbox_step pg_ts cr db db'"

inductive_cases outbox_stepE: "outbox_step pg_ts cr db db'"

subsection \<open>Updates keep what identifies a row\<close>

lemma update_rows_map: "(\<And>r. g (f r) = g r) \<Longrightarrow> map g (update_rows p f rows) = map g rows"
  by (induction rows) (auto simp: update_rows_def)

lemma update_rows_seqs:
  assumes "\<And>r. ob_capture (f r) = ob_capture r" "\<And>r. ob_seq (f r) = ob_seq r"
  shows "chain_seqs c (update_rows p f rows) = chain_seqs c rows"
  using assms by (induction rows) (auto simp: update_rows_def chain_seqs_def)

lemma update_rows_set: "r \<in> set (update_rows p f rows) \<longleftrightarrow> (\<exists>q \<in> set rows. r = (if p q then f q else q))"
  by (auto simp: update_rows_def)

text \<open>One chain's counters change; the other rows keep their invariant.\<close>

lemma chain_inv_cong: "chain_seqs c rows = chain_seqs c rows' \<Longrightarrow> chain_inv rows c s = chain_inv rows' c s"
  by (simp add: chain_inv_def)

lemma find_capture:
  assumes "find (has_capture sess cid) rows = Some row"
  shows "row \<in> set rows" "cp_id (ob_capture row) = cid" "sess = Some (cp_org (ob_capture row))"
  using assms by (auto simp: find_Some_iff has_capture_def)

lemma same_row:
  assumes "distinct (map (\<lambda>r. cp_id (ob_capture r)) rows)" "a \<in> set rows" "b \<in> set rows"
    "cp_id (ob_capture a) = cp_id (ob_capture b)"
  shows "a = b"
  using assms by (auto simp: distinct_map inj_on_def)

lemma same_seq:
  assumes "chain_inv rows c s" "a \<in> set rows" "b \<in> set rows" "cp_chain (ob_capture a) = c"
    "cp_chain (ob_capture b) = c" "ob_seq a = ob_seq b"
  shows "a = b"
proof -
  have "distinct (chain_seqs c rows)"
    using assms(1) by (simp add: chain_inv_def distinct_map inj_on_def)
  with assms show ?thesis by (auto simp: chain_seqs_def distinct_map inj_on_def)
qed

lemma seq_bounds:
  assumes "chain_inv rows c s" "r \<in> set rows" "cp_chain (ob_capture r) = c"
  shows "1 \<le> ob_seq r \<and> ob_seq r \<le> cs_captured s"
proof -
  have "ob_seq r \<in> set (chain_seqs c rows)" using assms(2,3) by (simp add: chain_seqs_def)
  with assms(1) show ?thesis by (auto simp: chain_inv_def)
qed

lemma outbox_invD:
  assumes "outbox_inv chs rows refs"
  shows "distinct (map (\<lambda>r. cp_id (ob_capture r)) rows)" "\<And>r. r \<in> set rows \<Longrightarrow> row_inv chs r"
    "\<And>c s. chs c = Some s \<Longrightarrow> chain_inv rows c s" "refs_inv rows refs"
  using assms by (auto simp: outbox_inv_def list_all_iff)

lemma row_invD:
  assumes "row_inv chs r"
  obtains s where "chs (cp_chain (ob_capture r)) = Some s" "cs_org s = cp_org (ob_capture r)"
    "ob_status r = Sealed \<longleftrightarrow> ob_seq r \<le> cs_sealed s" "ob_status r = Sealing \<Longrightarrow> ob_seq r = cs_sealed s + 1"
    "ob_status r = Sealed \<longleftrightarrow> ob_event r \<noteq> None" "lower (cp_id (ob_capture r)) = cp_id (ob_capture r)"
    "capture_ok (ob_capture r)"
  using assms by (auto simp: row_inv_def capture_ok_def split: option.splits)

subsection \<open>Every operation keeps it\<close>

lemma insert_rows:
  assumes "audit_capture_insert_locked sess c db = Inr ((cid, n), db')" "outbox_ok db"
  shows "cid = cp_id c \<and> own_session sess (cp_org c) \<and>
    ((\<exists>r \<in> set (ob_rows db). same_immutable (ob_capture r) c \<and> n = ob_seq r \<and>
        ob_chains db' = ob_chains db \<and> db' = db\<lparr> ob_chains := ob_chains db' \<rparr>) \<or>
     (\<exists>s. cs_org s = cp_org c \<and> n = cs_captured s + 1 \<and>
        (ob_chains db (cp_chain c) = Some s \<or> ob_chains db (cp_chain c) = None \<and> cs_captured s = 0 \<and> cs_sealed s = 0) \<and>
        cp_id c \<notin> (\<lambda>r. cp_id (ob_capture r)) ` set (ob_rows db) \<and>
        \<not> list_ex (\<lambda>k. k \<in> set (top_keys (cp_redaction c))) SQL_BANNED_REDACTION_KEYS \<and>
        db' = db\<lparr> ob_chains := (ob_chains db)(cp_chain c \<mapsto> s\<lparr> cs_captured := n \<rparr>),
                 ob_rows := ob_rows db @ [\<lparr> ob_capture = c, ob_seq = n, ob_status = Captured, ob_started = None,
                   ob_event = None, ob_attempts = 0, ob_error = None \<rparr>] \<rparr>))"
proof -
  define state where "state = (case ob_chains db (cp_chain c) of
      None \<Rightarrow> \<lparr> cs_org = cp_org c, cs_category = cp_category c, cs_captured = 0, cs_sealed = 0 \<rparr> | Some s \<Rightarrow> s)"
  note call = assms(1) [unfolded audit_capture_insert_locked_def Let_def, folded state_def]
  from call have own: "own_session sess (cp_org c)" and org: "cs_org state = cp_org c"
    and ban: "\<not> list_ex (\<lambda>k. k \<in> set (top_keys (cp_redaction c))) SQL_BANNED_REDACTION_KEYS"
    by (auto split: if_split_asm)
  show ?thesis
  proof (cases "find (\<lambda>r. sess = Some (cp_org (ob_capture r)) \<and> cp_id (ob_capture r) = cp_id c) (ob_rows db)")
    case (Some r)
    with call have r: "same_immutable (ob_capture r) c" "cid = cp_id (ob_capture r)" "n = ob_seq r"
      "db' = db\<lparr> ob_chains := (ob_chains db)(cp_chain c \<mapsto> state) \<rparr>"
      by (auto split: if_split_asm)
    from Some have mem: "r \<in> set (ob_rows db)" "cp_id (ob_capture r) = cp_id c" by (auto simp: find_Some_iff)
    from r(1) have "cp_chain (ob_capture r) = cp_chain c"
      by (cases "ob_capture r"; cases c) (simp add: same_immutable_def)
    with mem(1) assms(2) obtain s where "ob_chains db (cp_chain c) = Some s"
      unfolding outbox_ok_def by (metis outbox_invD(2) row_invD)
    then have "(ob_chains db)(cp_chain c \<mapsto> state) = ob_chains db" by (auto simp: state_def)
    with r mem own show ?thesis by auto
  next
    case None
    have st: "ob_chains db (cp_chain c) = Some state \<or>
        ob_chains db (cp_chain c) = None \<and> cs_captured state = 0 \<and> cs_sealed state = 0"
      by (auto simp: state_def split: option.split)
    from call None have n: "cid = cp_id c" "n = cs_captured state + 1"
      "\<not> list_ex (\<lambda>r. cp_id (ob_capture r) = cp_id c \<or>
                 (cp_chain (ob_capture r) = cp_chain c \<and> ob_seq r = cs_captured state + 1)) (ob_rows db)"
      "db' = db\<lparr> ob_chains := (ob_chains db)(cp_chain c \<mapsto> state\<lparr> cs_captured := cs_captured state + 1 \<rparr>),
                 ob_rows := ob_rows db @ [\<lparr> ob_capture = c, ob_seq = cs_captured state + 1, ob_status = Captured,
                   ob_started = None, ob_event = None, ob_attempts = 0, ob_error = None \<rparr>] \<rparr>"
      by (auto split: if_split_asm)
    from n(3) have "cp_id c \<notin> (\<lambda>r. cp_id (ob_capture r)) ` set (ob_rows db)" by (auto simp: list_ex_iff)
    with n st own org ban show ?thesis by blast
  qed
qed

lemma insert_keeps:
  assumes "audit_capture_insert_locked sess c db = Inr ((cid, n), db')" "outbox_ok db"
    and low: "capture_ok c"
  shows "outbox_ok db'"
proof -
  from insert_rows [OF assms(1,2)] consider (old) "ob_chains db' = ob_chains db" "db' = db\<lparr> ob_chains := ob_chains db' \<rparr>"
    | (new) s where "cs_org s = cp_org c" "n = cs_captured s + 1"
        "ob_chains db (cp_chain c) = Some s \<or> ob_chains db (cp_chain c) = None \<and> cs_captured s = 0 \<and> cs_sealed s = 0"
        "cp_id c \<notin> (\<lambda>r. cp_id (ob_capture r)) ` set (ob_rows db)"
        "\<not> list_ex (\<lambda>k. k \<in> set (top_keys (cp_redaction c))) SQL_BANNED_REDACTION_KEYS"
        "db' = db\<lparr> ob_chains := (ob_chains db)(cp_chain c \<mapsto> s\<lparr> cs_captured := n \<rparr>),
                 ob_rows := ob_rows db @ [\<lparr> ob_capture = c, ob_seq = n, ob_status = Captured, ob_started = None,
                   ob_event = None, ob_attempts = 0, ob_error = None \<rparr>] \<rparr>"
    by blast
  then show ?thesis
  proof cases
    case old
    from old(2) have "ob_rows db' = ob_rows db" "ob_refs db' = ob_refs db"
      by (metis outbox_db.select_convs(2,3) outbox_db.surjective outbox_db.update_convs(1))+
    with old(1) assms(2) show ?thesis by (simp add: outbox_ok_def)
  next
    case new
    define chs where "chs = ob_chains db"
    define rows where "rows = ob_rows db"
    define row where "row = \<lparr> ob_capture = c, ob_seq = n, ob_status = Captured, ob_started = None,
                   ob_event = None, ob_attempts = 0, ob_error = None \<rparr>"
    define chs' where "chs' = chs(cp_chain c \<mapsto> s\<lparr> cs_captured := n \<rparr>)"
    from assms(2) have inv: "outbox_inv chs rows (ob_refs db)" by (simp add: outbox_ok_def chs_def rows_def)
    note d = outbox_invD [OF inv]
    have seqs: "0 \<le> cs_sealed s \<and> cs_sealed s \<le> cs_captured s \<and>
        chain_seqs (cp_chain c) rows = map (\<lambda>k. int k + 1) [0..<nat (cs_captured s)]"
    proof (cases "chs (cp_chain c)")
      case None
      then have "cp_chain (ob_capture r) \<noteq> cp_chain c" if "r \<in> set rows" for r
        using d(2) [OF that] by (auto simp: row_inv_def split: option.splits)
      then have "chain_seqs (cp_chain c) rows = []" by (auto simp: chain_seqs_def filter_empty_conv)
      with new(3) None show ?thesis by (simp add: chs_def)
    next
      case (Some s')
      with new(3) d(3) [OF Some] show ?thesis by (auto simp: chain_inv_def chs_def)
    qed
    have "nat n = Suc (nat (cs_captured s))" using new(2) seqs by linarith
    then have "chain_inv (rows @ [row]) (cp_chain c) (s\<lparr> cs_captured := n \<rparr>)"
      using seqs new(2) by (auto simp: chain_inv_def chain_seqs_def row_def)
    moreover have "chain_inv (rows @ [row]) c' s'" if "chs c' = Some s'" "c' \<noteq> cp_chain c" for c' s'
      using d(3) [OF that(1)] that(2) by (auto simp: chain_inv_def chain_seqs_def row_def)
    ultimately have ch: "chs' c' = Some s' \<longrightarrow> chain_inv (rows @ [row]) c' s'" for c' s'
      by (auto simp: chs'_def)
    have "row_inv chs' r" if "r \<in> set rows" for r
      using d(2) [OF that] new(3) by (auto simp: row_inv_def chs'_def chs_def split: option.splits)
    moreover have "row_inv chs' row"
      using seqs new(1,2,5) low by (simp add: row_inv_def chs'_def row_def)
    ultimately have ri: "list_all (row_inv chs') (rows @ [row])" by (simp add: list_all_iff)
    have "refs_inv (rows @ [row]) (ob_refs db)" using d(4) by (simp add: refs_inv_def row_def)
    moreover have "distinct (map (\<lambda>r. cp_id (ob_capture r)) (rows @ [row]))"
      using d(1) new(4) by (simp add: row_def rows_def)
    ultimately have "outbox_inv chs' (rows @ [row]) (ob_refs db)"
      using ch ri by (simp add: outbox_inv_def)
    then show ?thesis by (simp add: outbox_ok_def new(6) chs'_def chs_def rows_def row_def)
  qed
qed

lemma refs_inv_update:
  assumes "\<And>r. ob_capture (f r) = ob_capture r" "\<And>r. ob_event (f r) = ob_event r"
  shows "refs_inv (update_rows p f rows) refs = refs_inv rows refs"
proof -
  let ?g = "\<lambda>r. (ob_event r, ob_capture r)"
  have ex: "(\<exists>r \<in> set xs. ob_event r = Some e \<and> c = cp_id (ob_capture r) \<and> o1 = cp_org (ob_capture r)) \<longleftrightarrow>
      (\<exists>x \<in> set (map ?g xs). fst x = Some e \<and> c = cp_id (snd x) \<and> o1 = cp_org (snd x))" for xs e c o1
    by auto
  have "map ?g (update_rows p f rows) = map ?g rows"
    by (rule update_rows_map) (simp add: assms)
  then show ?thesis unfolding refs_inv_def ex by simp
qed

lemma update_keeps:
  assumes inv: "outbox_inv chs rows refs"
    and f: "\<And>r. ob_capture (f r) = ob_capture r" "\<And>r. ob_seq (f r) = ob_seq r" "\<And>r. ob_event (f r) = ob_event r"
    and ri: "\<And>r. r \<in> set rows \<Longrightarrow> p r \<Longrightarrow> row_inv chs (f r)"
  shows "outbox_inv chs (update_rows p f rows) refs"
proof -
  note d = outbox_invD [OF inv]
  have "map (\<lambda>r. cp_id (ob_capture r)) (update_rows p f rows) = map (\<lambda>r. cp_id (ob_capture r)) rows"
    by (rule update_rows_map) (simp add: f(1))
  moreover have "chain_inv (update_rows p f rows) c s = chain_inv rows c s" for c s
    by (rule chain_inv_cong) (simp add: update_rows_seqs f)
  moreover have "list_all (row_inv chs) (update_rows p f rows)"
    using d(2) ri by (auto simp: list_all_iff update_rows_def)
  ultimately show ?thesis
    using d by (simp add: outbox_inv_def refs_inv_update f)
qed

lemma claim_rows:
  assumes "audit_capture_claim_for_seal sess now org chain db = Inr (got, db')"
  shows "own_session sess org \<and> (got = None \<and> db' = db \<or> (\<exists>s. ob_chains db chain = Some s \<and> cs_org s = org \<and>
    db' = db\<lparr> ob_rows := update_rows (claimable sess chain (cs_sealed s + 1))
      (\<lambda>r. r\<lparr> ob_status := Sealing, ob_started := Some now, ob_attempts := ob_attempts r + 1 \<rparr>) (ob_rows db) \<rparr> \<and>
    got = map_option (\<lambda>r. r\<lparr> ob_status := Sealing, ob_started := Some now, ob_attempts := ob_attempts r + 1 \<rparr>)
      (find (claimable sess chain (cs_sealed s + 1)) (ob_rows db))))"
  using assms by (auto simp: audit_capture_claim_for_seal_def Let_def split: if_split_asm option.splits)

lemma claim_keeps:
  assumes "audit_capture_claim_for_seal sess now org chain db = Inr (got, db')" "outbox_ok db"
  shows "outbox_ok db'"
proof -
  from assms(2) have inv: "outbox_inv (ob_chains db) (ob_rows db) (ob_refs db)" by (simp add: outbox_ok_def)
  have "row_inv (ob_chains db) (r\<lparr> ob_status := Sealing, ob_started := t, ob_attempts := a \<rparr>)"
    if "r \<in> set (ob_rows db)" "claimable sess chain (cs_sealed s + 1) r" "ob_chains db chain = Some s" for r s t a
    using outbox_invD(2) [OF inv that(1)] that(2,3) by (auto simp: row_inv_def claimable_def split: option.splits)
  then show ?thesis
    using claim_rows [OF assms(1)] assms(2) by (auto simp: outbox_ok_def intro!: update_keeps)
qed

lemma fail_rows:
  assumes "audit_capture_mark_failed sess org cid cls msg db = Inr db'"
  shows "\<exists>row. find (has_capture sess cid) (ob_rows db) = Some row \<and> own_session sess org \<and>
    (ob_status row = Captured \<or> ob_status row = Sealing) \<and>
    db' = db\<lparr> ob_rows := update_rows (has_capture sess cid)
      (\<lambda>r. r\<lparr> ob_status := Failed, ob_attempts := ob_attempts r + 1,
               ob_error := Some (take 200 (''['' @ cls @ ''] '' @ msg)) \<rparr>) (ob_rows db) \<rparr>"
  using assms by (auto simp: audit_capture_mark_failed_def split: if_split_asm option.splits)

lemma fail_keeps:
  assumes "audit_capture_mark_failed sess org cid cls msg db = Inr db'" "outbox_ok db"
  shows "outbox_ok db'"
proof -
  from fail_rows [OF assms(1)] obtain row where f: "find (has_capture sess cid) (ob_rows db) = Some row"
    and st: "ob_status row = Captured \<or> ob_status row = Sealing"
    and db': "db' = db\<lparr> ob_rows := update_rows (has_capture sess cid)
      (\<lambda>r. r\<lparr> ob_status := Failed, ob_attempts := ob_attempts r + 1,
               ob_error := Some (take 200 (''['' @ cls @ ''] '' @ msg)) \<rparr>) (ob_rows db) \<rparr>" by blast
  from assms(2) have inv: "outbox_inv (ob_chains db) (ob_rows db) (ob_refs db)" by (simp add: outbox_ok_def)
  note d = outbox_invD [OF inv]
  have one: "r = row" if "r \<in> set (ob_rows db)" "has_capture sess cid r" for r
    using same_row [OF d(1) that(1) find_capture(1) [OF f]] find_capture(2) [OF f] that(2)
    by (simp add: has_capture_def)
  have "row_inv (ob_chains db) (row\<lparr> ob_status := Failed, ob_attempts := a, ob_error := e \<rparr>)" for a e
    using d(2) [OF find_capture(1) [OF f]] st by (auto simp: row_inv_def split: option.splits)
  then have "outbox_inv (ob_chains db) (update_rows (has_capture sess cid)
      (\<lambda>r. r\<lparr> ob_status := Failed, ob_attempts := ob_attempts r + 1,
               ob_error := Some (take 200 (''['' @ cls @ ''] '' @ msg)) \<rparr>) (ob_rows db)) (ob_refs db)"
    using one by (intro update_keeps [OF inv]) auto
  then show ?thesis by (simp add: db' outbox_ok_def)
qed

lemma seal_rows:
  assumes "audit_capture_mark_sealed sess org cid eid db = Inr db'"
  shows "own_session sess org \<and> (\<exists>row. find (has_capture sess cid) (ob_rows db) = Some row \<and>
    (ob_status row = Sealed \<and> db' = db \<and> (\<exists>r \<in> set (ob_refs db). rf_capture r = cid \<and> rf_event r = eid) \<or>
     ob_status row = Sealing \<and> (\<exists>s. ob_chains db (cp_chain (ob_capture row)) = Some s \<and> cs_org s = org \<and>
       cs_sealed s + 1 = ob_seq row \<and> cid \<notin> rf_capture ` set (ob_refs db) \<and> eid \<notin> rf_event ` set (ob_refs db) \<and>
       db' = db\<lparr> ob_refs := ob_refs db @ [\<lparr> rf_org = org, rf_capture = cid, rf_event = eid \<rparr>],
                ob_rows := update_rows (has_capture sess cid)
                  (\<lambda>r. r\<lparr> ob_status := Sealed, ob_event := Some eid \<rparr>) (ob_rows db),
                ob_chains := (ob_chains db)(cp_chain (ob_capture row) \<mapsto> s\<lparr> cs_sealed := ob_seq row \<rparr>) \<rparr>)))"
proof -
  from assms obtain row where row: "own_session sess org" "find (has_capture sess cid) (ob_rows db) = Some row"
    by (auto simp: audit_capture_mark_sealed_def split: if_split_asm option.splits)
  note call = assms [unfolded audit_capture_mark_sealed_def row(2) option.case]
  show ?thesis
  proof (cases "ob_status row = Sealed")
    case True
    with call row show ?thesis by (auto simp: list_ex_iff split: if_split_asm)
  next
    case False
    with call row(1) obtain s where s: "ob_chains db (cp_chain (ob_capture row)) = Some s"
      by (auto split: if_split_asm option.splits)
    from call False row(1) have "ob_status row = Sealing" "cs_org s = org" "cs_sealed s + 1 = ob_seq row"
      "\<not> list_ex (\<lambda>r. rf_capture r = cid \<or> rf_event r = eid) (ob_refs db)"
      by (simp_all add: s split: if_split_asm)
    moreover have "cid \<notin> rf_capture ` set (ob_refs db)" "eid \<notin> rf_event ` set (ob_refs db)"
      using calculation(4) by (auto simp: list_ex_iff)
    ultimately show ?thesis using call row False s by simp
  qed
qed

lemma seal_keeps:
  assumes "audit_capture_mark_sealed sess org cid eid db = Inr db'" "outbox_ok db"
  shows "outbox_ok db'"
proof -
  from seal_rows [OF assms(1)] consider "db' = db" | row s where
    "find (has_capture sess cid) (ob_rows db) = Some row" "ob_status row = Sealing"
    "ob_chains db (cp_chain (ob_capture row)) = Some s" "cs_org s = org" "cs_sealed s + 1 = ob_seq row"
    "cid \<notin> rf_capture ` set (ob_refs db)" "eid \<notin> rf_event ` set (ob_refs db)"
    "db' = db\<lparr> ob_refs := ob_refs db @ [\<lparr> rf_org = org, rf_capture = cid, rf_event = eid \<rparr>],
                ob_rows := update_rows (has_capture sess cid)
                  (\<lambda>r. r\<lparr> ob_status := Sealed, ob_event := Some eid \<rparr>) (ob_rows db),
                ob_chains := (ob_chains db)(cp_chain (ob_capture row) \<mapsto> s\<lparr> cs_sealed := ob_seq row \<rparr>) \<rparr>"
    by blast
  then show ?thesis
  proof cases
    case 1
    with assms(2) show ?thesis by simp
  next
    case (2 row s)
    define rows where "rows = ob_rows db"
    define c where "c = cp_chain (ob_capture row)"
    define f where "f = (\<lambda>r :: outbox_row. r\<lparr> ob_status := Sealed, ob_event := Some eid \<rparr>)"
    define rows' where "rows' = update_rows (has_capture sess cid) f rows"
    define chs' where "chs' = (ob_chains db)(c \<mapsto> s\<lparr> cs_sealed := ob_seq row \<rparr>)"
    from assms(2) have inv: "outbox_inv (ob_chains db) rows (ob_refs db)" by (simp add: outbox_ok_def rows_def)
    note d = outbox_invD [OF inv] and fc = find_capture [OF 2(1), folded rows_def]
    have upd: "has_capture sess cid r \<longleftrightarrow> r = row" if "r \<in> set rows" for r
      using same_row [OF d(1) that fc(1)] fc(2,3) by (auto simp: has_capture_def)
    have f: "ob_capture (f r) = ob_capture r" "ob_seq (f r) = ob_seq r" for r by (simp_all add: f_def)
    have mem: "r \<in> set rows' \<longleftrightarrow> r = f row \<or> r \<in> set rows \<and> r \<noteq> row" for r
      using upd fc(1) by (auto simp: rows'_def update_rows_set)
    have rs: "ob_chains db c = Some s" using 2(3) by (simp add: c_def)
    have ci: "chain_inv rows c s" by (rule d(3) [OF rs])
    have cap: "ob_seq row \<le> cs_captured s" using seq_bounds [OF ci fc(1)] by (simp add: c_def)
    have seqs: "chain_seqs c' rows' = chain_seqs c' rows" for c'
      by (simp add: rows'_def update_rows_seqs f)
    have ch: "chain_inv rows' c' s'" if "chs' c' = Some s'" for c' s'
    proof (cases "c' = c")
      case True
      with that have s': "s' = s\<lparr> cs_sealed := ob_seq row \<rparr>" by (simp add: chs'_def)
      from ci cap 2(5) show ?thesis by (auto simp: chain_inv_def seqs s' True)
    next
      case False
      with that d(3) [of c' s'] show ?thesis by (simp add: chs'_def chain_inv_def seqs)
    qed
    have ri: "row_inv chs' r" if "r \<in> set rows'" for r
    proof (cases "r = f row")
      case True
      with d(2) [OF fc(1)] rs show ?thesis by (auto simp: row_inv_def chs'_def f_def c_def)
    next
      case False
      with that have r: "r \<in> set rows" "r \<noteq> row" by (simp_all add: mem)
      show ?thesis
      proof (cases "cp_chain (ob_capture r) = c")
        case True
        with same_seq [OF ci r(1) fc(1)] r(2) c_def have ne: "ob_seq r \<noteq> ob_seq row" by blast
        have "(ob_seq r \<le> ob_seq row) = (ob_seq r \<le> cs_sealed s)" "ob_seq r \<noteq> cs_sealed s + 1"
          using ne 2(5) by linarith+
        with d(2) [OF r(1)] rs show ?thesis by (simp add: row_inv_def chs'_def True) blast
      next
        case False
        with d(2) [OF r(1)] show ?thesis by (auto simp: row_inv_def chs'_def)
      qed
    qed
    have ev: "ob_event row = None" using d(2) [OF fc(1)] 2(2) by (auto simp: row_inv_def split: option.splits)
    have "own_session sess org" using seal_rows [OF assms(1)] by blast
    then have org: "cp_org (ob_capture row) = org" using fc(3) by (auto simp: own_session_def)
    let ?ref = "\<lparr> rf_org = org, rf_capture = cid, rf_event = eid \<rparr>"
    have "g \<in> set (ob_refs db @ [?ref]) \<longleftrightarrow> (\<exists>r \<in> set rows'. ob_event r = Some (rf_event g) \<and>
        rf_capture g = cp_id (ob_capture r) \<and> rf_org g = cp_org (ob_capture r))" for g
    proof -
      have old: "g \<in> set (ob_refs db) \<longleftrightarrow> (\<exists>r \<in> set rows. r \<noteq> row \<and> ob_event r = Some (rf_event g) \<and>
          rf_capture g = cp_id (ob_capture r) \<and> rf_org g = cp_org (ob_capture r))"
      proof -
        from d(4) have "g \<in> set (ob_refs db) \<longleftrightarrow> (\<exists>r \<in> set rows. ob_event r = Some (rf_event g) \<and>
          rf_capture g = cp_id (ob_capture r) \<and> rf_org g = cp_org (ob_capture r))" by (simp add: refs_inv_def)
        also have "\<dots> \<longleftrightarrow> (\<exists>r \<in> set rows. r \<noteq> row \<and> ob_event r = Some (rf_event g) \<and>
          rf_capture g = cp_id (ob_capture r) \<and> rf_org g = cp_org (ob_capture r))"
          by (rule bex_cong [OF refl]) (auto simp: ev)
        finally show ?thesis .
      qed
      have new: "g = ?ref \<longleftrightarrow> ob_event (f row) = Some (rf_event g) \<and>
          rf_capture g = cp_id (ob_capture (f row)) \<and> rf_org g = cp_org (ob_capture (f row))"
        using fc(2) org by (cases g) (auto simp: f_def)
      show ?thesis using old new by (auto simp: mem)
    qed
    then have "refs_inv rows' (ob_refs db @ [?ref])"
      using d(4) 2(6,7) by (auto simp: refs_inv_def)
    moreover have "map (\<lambda>r. cp_id (ob_capture r)) rows' = map (\<lambda>r. cp_id (ob_capture r)) rows"
      unfolding rows'_def by (rule update_rows_map) (simp add: f)
    ultimately have "outbox_inv chs' rows' (ob_refs db @ [?ref])"
      using ch ri d(1) by (simp add: outbox_inv_def list_all_iff)
    then show ?thesis
      by (simp add: outbox_ok_def 2(8) chs'_def rows'_def rows_def c_def f_def)
  qed
qed

lemma append_outbox:
  fixes db :: "'a outbox_db_scheme"
  assumes "auditAppend cr sess re rp i db = Inr (out, db')"
  shows "ob_chains db' = ob_chains db" "ob_rows db' = ob_rows db" "ob_refs db' = ob_refs db"
  using assms by (auto elim!: auditAppend_cases audit_append_lockedE)

lemma capture_insert:
  assumes "captureAuditEvent pg_ts sess i db = Inr (out, db')"
  obtains c where "audit_capture_insert_locked sess c db = Inr (out, db')" "capture_ok c"
  using assms
  by (auto dest!: pg_uuid_SomeD simp: capture_ok_def captureAuditEvent_def validateInput_def bindE_Inr_iff Let_def split: if_split_asm option.splits occurred_in.splits)

lemma outbox_step_ok: "outbox_ok db \<Longrightarrow> outbox_step pg_ts cr db db' \<Longrightarrow> outbox_ok db'"
proof (erule outbox_stepE)
  fix sess i out assume "outbox_ok db" "captureAuditEvent pg_ts sess i db = Inr (out, db')"
  then show ?thesis by (metis capture_insert insert_keeps surj_pair)
next
  fix sess re rp j o' assume "outbox_ok db" "auditAppend cr sess re rp j db = Inr (o', db')"
  with append_outbox [OF this(2)] show ?thesis by (simp add: outbox_ok_def)
qed (auto intro: claim_keeps seal_keeps fail_keeps)

lemma outbox_empty_ok: "outbox_empty db \<Longrightarrow> outbox_ok db"
  by (simp add: outbox_empty_def outbox_ok_def outbox_inv_def refs_inv_def)

interpretation outbox: kept_invariant outbox_empty "outbox_step pg_ts cr" outbox_ok for pg_ts cr
  by unfold_locales (auto intro: outbox_empty_ok outbox_step_ok)

subsection \<open>What no step undoes\<close>

lemma step_cases:
  assumes "outbox_ok db" "outbox_step pg_ts cr db db'"
  obtains (same) "ob_rows db' = ob_rows db"
  | (add) row where "ob_rows db' = ob_rows db @ [row]"
  | (upd) p f where "ob_rows db' = update_rows p f (ob_rows db)" "\<And>r. ob_capture (f r) = ob_capture r"
      "\<And>r. ob_seq (f r) = ob_seq r" "\<And>r. r \<in> set (ob_rows db) \<Longrightarrow> p r \<Longrightarrow> ob_status r \<noteq> Failed \<and> ob_status r \<noteq> Sealed"
proof -
  have d: "distinct (map (\<lambda>r. cp_id (ob_capture r)) (ob_rows db))"
    using assms(1) by (simp add: outbox_ok_def outbox_inv_def)
  have one: "r = row" if "find (has_capture sess cid) (ob_rows db) = Some row" "r \<in> set (ob_rows db)" "has_capture sess cid r"
    for sess cid r row
    using same_row [OF d that(2) find_capture(1) [OF that(1)]] find_capture(2) [OF that(1)] that(3)
    by (simp add: has_capture_def)
  from assms(2) show thesis
  proof cases
    case (ob_capture sess i out)
    obtain cid n where out: "out = (cid, n)" by (cases out)
    from ob_capture obtain c where "audit_capture_insert_locked sess c db = Inr ((cid, n), db')"
      unfolding out by (rule capture_insert)
    from insert_rows [OF this assms(1)] show thesis
    proof (elim conjE disjE bexE exE)
      assume "db' = db\<lparr> ob_chains := ob_chains db' \<rparr>"
      then have "ob_rows db' = ob_rows db"
        by (metis outbox_db.select_convs(2) outbox_db.surjective outbox_db.update_convs(1))
      then show thesis by (rule same)
    next
      fix s assume "db' = db\<lparr> ob_chains := (ob_chains db)(cp_chain c \<mapsto> s\<lparr> cs_captured := n \<rparr>),
                 ob_rows := ob_rows db @ [\<lparr> ob_capture = c, ob_seq = n, ob_status = Captured, ob_started = None,
                   ob_event = None, ob_attempts = 0, ob_error = None \<rparr>] \<rparr>"
      then show thesis by (intro add) simp
    qed (rule add, simp)
  next
    case (ob_claim sess now org chain got)
    from claim_rows [OF ob_claim] show thesis
    proof (elim conjE disjE exE)
      assume "db' = db"
      then show thesis by (intro same) simp
    next
      fix s assume u: "db' = db\<lparr> ob_rows := update_rows (claimable sess chain (cs_sealed s + 1))
        (\<lambda>r. r\<lparr> ob_status := Sealing, ob_started := Some now, ob_attempts := ob_attempts r + 1 \<rparr>) (ob_rows db) \<rparr>"
      show thesis by (rule upd [of "claimable sess chain (cs_sealed s + 1)"
          "\<lambda>r. r\<lparr> ob_status := Sealing, ob_started := Some now, ob_attempts := ob_attempts r + 1 \<rparr>"])
        (simp_all add: u claimable_def)
    qed
  next
    case (ob_seal sess org cid eid)
    from seal_rows [OF ob_seal] obtain row where f: "find (has_capture sess cid) (ob_rows db) = Some row"
      and alt: "db' = db \<or> ob_status row = Sealing \<and> ob_rows db' = update_rows (has_capture sess cid)
                  (\<lambda>r. r\<lparr> ob_status := Sealed, ob_event := Some eid \<rparr>) (ob_rows db)"
      by auto
    from alt show thesis
    proof (elim disjE conjE)
      assume "db' = db" then show thesis by (intro same) simp
    next
      assume st: "ob_status row = Sealing" and r: "ob_rows db' = update_rows (has_capture sess cid)
                  (\<lambda>r. r\<lparr> ob_status := Sealed, ob_event := Some eid \<rparr>) (ob_rows db)"
      show thesis by (rule upd [OF r]) (use st one [OF f] in auto)
    qed
  next
    case (ob_fail sess org cid cls msg)
    from fail_rows [OF ob_fail] obtain row where f: "find (has_capture sess cid) (ob_rows db) = Some row"
      and st: "ob_status row = Captured \<or> ob_status row = Sealing"
      and r: "ob_rows db' = update_rows (has_capture sess cid)
      (\<lambda>r. r\<lparr> ob_status := Failed, ob_attempts := ob_attempts r + 1,
               ob_error := Some (take 200 (''['' @ cls @ ''] '' @ msg)) \<rparr>) (ob_rows db)" by auto
    show thesis by (rule upd [OF r]) (use st one [OF f] in auto)
  next
    case (ob_append sess re rp j o')
    with append_outbox(2) show thesis by (intro same) blast
  qed
qed

text \<open>A row that is sealed or failed stays in the table as it is; a capture keeps its number.\<close>

lemma terminal_kept:
  assumes "outbox_ok db" "outbox_step pg_ts cr db db'" "r \<in> set (ob_rows db)" "ob_status r = Failed \<or> ob_status r = Sealed"
  shows "r \<in> set (ob_rows db')"
  using assms(1,2)
proof (cases rule: step_cases)
  case (upd p f)
  with assms(3,4) have "\<not> p r" by auto
  with assms(3) upd(1) show ?thesis by (auto simp: update_rows_def)
qed (use assms(3) in auto)

lemma capture_kept:
  assumes "outbox_ok db" "outbox_step pg_ts cr db db'" "r \<in> set (ob_rows db)"
  shows "\<exists>q \<in> set (ob_rows db'). ob_capture q = ob_capture r \<and> ob_seq q = ob_seq r"
  using assms(1,2)
proof (cases rule: step_cases)
  case (upd p f)
  with assms(3) have "(if p r then f r else r) \<in> set (ob_rows db')" by (auto simp: update_rows_def)
  with upd(2,3) show ?thesis by (intro bexI [of _ "if p r then f r else r"]) auto
qed (use assms(3) in auto)

lemma terminal_kept_run:
  assumes "(outbox_step pg_ts cr)\<^sup>*\<^sup>* db db'" "outbox_ok db" "r \<in> set (ob_rows db)"
    "ob_status r = Failed \<or> ob_status r = Sealed"
  shows "r \<in> set (ob_rows db')"
  using assms by (induction rule: rtranclp_induct) (blast dest: terminal_kept outbox.inv_run)+

lemma capture_kept_run:
  assumes "(outbox_step pg_ts cr)\<^sup>*\<^sup>* db db'" "outbox_ok db" "r \<in> set (ob_rows db)"
  shows "\<exists>q \<in> set (ob_rows db'). ob_capture q = ob_capture r \<and> ob_seq q = ob_seq r"
  using assms
proof (induction rule: rtranclp_induct)
  case (step y z)
  then obtain q where "q \<in> set (ob_rows y)" "ob_capture q = ob_capture r" "ob_seq q = ob_seq r" by blast
  with capture_kept [OF outbox.inv_run [OF step.prems(1) step.hyps(1)] step.hyps(2)] show ?case by metis
qed blast

section \<open>Properties\<close>

definition demo_capture :: "string \<Rightarrow> capture_input" where
  "demo_capture cid = \<lparr> ci_capture_id = cid, ci_org = demo_org, ci_chain = ''c'', ci_category = ''run'',
     ci_type = ''run.created'', ci_version = ''1'', ci_subject_type = ''run'', ci_subject_id = demo_id (CHR ''2''),
     ci_occurred = OccDate (Some 1767225600123), ci_payload_hash = [7], ci_payload_encrypted = None,
     ci_dek_wrapped = None, ci_key_id = ''k'', ci_key_version = 1, ci_redaction = Some (JObj [(''a'', JBool True)]),
     ci_evidence = None, ci_tag = None, ci_alg = None, ci_posture = None \<rparr>"

definition demo_ob0 :: outbox_db where
  "demo_ob0 = \<lparr> db_events = [], db_payloads = [], ob_chains = Map.empty, ob_rows = [], ob_refs = [] \<rparr>"

definition demo_call :: "capture_error + (string \<times> int) \<times> outbox_db" where
  "demo_call = captureAuditEvent (\<lambda>_. None) (Some demo_org) (demo_capture (demo_id (CHR ''5''))) demo_ob0"

definition demo_ob1 :: outbox_db where
  "demo_ob1 = (case demo_call of Inl e \<Rightarrow> demo_ob0 | Inr (o', d) \<Rightarrow> d)"

lemma demo_call_eval:
  "(case demo_call of Inl e \<Rightarrow> False | Inr (o', d) \<Rightarrow> o' = (demo_id (CHR ''5''), 1) \<and>
     map ob_seq (ob_rows d) = [1] \<and> map ob_status (ob_rows d) = [Captured] \<and>
     map (cp_chain \<circ> ob_capture) (ob_rows d) = [''c''] \<and>
     map_option cs_captured (ob_chains d ''c'') = Some 1 \<and> map_option cs_sealed (ob_chains d ''c'') = Some 0 \<and>
     (case audit_capture_mark_failed (Some demo_org) demo_org (demo_id (CHR ''5'')) ''E'' ''m'' d of
        Inl e \<Rightarrow> False | Inr d' \<Rightarrow> map ob_status (ob_rows d') = [Failed] \<and>
          map (cp_chain \<circ> ob_capture) (ob_rows d') = [''c'']))"
  by code_simp

lemma demo_call1:
  "captureAuditEvent (\<lambda>_. None) (Some demo_org) (demo_capture (demo_id (CHR ''5''))) demo_ob0
     = Inr ((demo_id (CHR ''5''), 1), demo_ob1)"
  using demo_call_eval by (cases demo_call) (auto simp: demo_ob1_def demo_call_def)

lemma demo_ob_reach0: "reach outbox_empty (outbox_step pg_ts cr) demo_ob0"
  by (rule reach_init) (simp add: outbox_empty_def demo_ob0_def)

lemma demo_ob_reach1: "reach outbox_empty (outbox_step (\<lambda>_. None) cr) demo_ob1"
  by (rule reach_step [OF demo_ob_reach0 ob_capture [OF demo_call1]])

lemma demo_ob1_state:
  obtains s r where "ob_chains demo_ob1 ''c'' = Some s" "cs_captured s = 1" "cs_sealed s = 0"
    "ob_rows demo_ob1 = [r]" "ob_seq r = 1" "ob_status r = Captured" "cp_chain (ob_capture r) = ''c''"
proof -
  from demo_call_eval have "map ob_seq (ob_rows demo_ob1) = [1]" "map ob_status (ob_rows demo_ob1) = [Captured]"
    "map (cp_chain \<circ> ob_capture) (ob_rows demo_ob1) = [''c'']"
    "map_option cs_captured (ob_chains demo_ob1 ''c'') = Some 1" "map_option cs_sealed (ob_chains demo_ob1 ''c'') = Some 0"
    using demo_call1 by (simp_all add: demo_call_def)
  then show thesis using that by (auto simp: map_eq_Cons_conv)
qed

text \<open>
  C5. In every reachable state of the outbox, the captures of a chain are numbered 1, 2, ...
  without gap in the order they were captured; the sealed ones are exactly those up to the
  chain's \<open>last_sealed_capture_seq\<close>, and at most the next one is being sealed.
\<close>

theorem captures_seal_in_order:
  assumes "reach outbox_empty (outbox_step pg_ts cr) db" and "ob_chains db c = Some s"
  shows "chain_seqs c (ob_rows db) = map (\<lambda>k. int k + 1) [0..<nat (cs_captured s)] \<and>
    map ob_seq (filter (\<lambda>r. cp_chain (ob_capture r) = c \<and> ob_status r = Sealed) (ob_rows db))
      = map (\<lambda>k. int k + 1) [0..<nat (cs_sealed s)] \<and>
    list_all (\<lambda>r. cp_chain (ob_capture r) = c \<and> ob_status r = Sealing \<longrightarrow> ob_seq r = cs_sealed s + 1) (ob_rows db)"
proof -
  have "outbox_ok db" by (rule outbox.inv_reach [OF assms(1)])
  then have inv: "outbox_inv (ob_chains db) (ob_rows db) (ob_refs db)" by (simp add: outbox_ok_def)
  note ci = outbox_invD(3) [OF inv assms(2)]
  have ri: "(ob_status r = Sealed \<longleftrightarrow> ob_seq r \<le> cs_sealed s) \<and> (ob_status r = Sealing \<longrightarrow> ob_seq r = cs_sealed s + 1)"
    if "r \<in> set (ob_rows db)" "cp_chain (ob_capture r) = c" for r
    using outbox_invD(2) [OF inv that(1)] that(2) assms(2) by (auto simp: row_inv_def)
  have "filter (\<lambda>r. cp_chain (ob_capture r) = c \<and> ob_status r = Sealed) (ob_rows db) =
      filter (\<lambda>r. ob_seq r \<le> cs_sealed s) (filter (\<lambda>r. cp_chain (ob_capture r) = c) (ob_rows db))"
    using ri by (auto intro!: filter_cong)
  then have "map ob_seq (filter (\<lambda>r. cp_chain (ob_capture r) = c \<and> ob_status r = Sealed) (ob_rows db))
      = filter (\<lambda>n. n \<le> cs_sealed s) (chain_seqs c (ob_rows db))"
    by (simp add: chain_seqs_def filter_map comp_def)
  also have "\<dots> = map (\<lambda>k. int k + 1) (filter (\<lambda>k. k < nat (cs_sealed s)) [0..<nat (cs_captured s)])"
    using ci by (auto simp: chain_inv_def filter_map comp_def intro!: arg_cong [of _ _ "map _"] filter_cong)
  also have "filter (\<lambda>k. k < nat (cs_sealed s)) [0..<nat (cs_captured s)] = [0..<nat (cs_sealed s)]"
  proof -
    have le: "nat (cs_sealed s) \<le> nat (cs_captured s)" using ci by (simp add: chain_inv_def nat_mono)
    then have "[0..<nat (cs_captured s)] = [0..<nat (cs_sealed s)] @ [nat (cs_sealed s)..<nat (cs_captured s)]"
      by (metis le_iff_add upt_add_eq_append zero_le)
    then show ?thesis by (simp add: filter_id_conv filter_empty_conv)
  qed
  finally show ?thesis using ci ri by (auto simp: chain_inv_def list_all_iff)
qed

theorem captures_seal_in_order_witness:
  "chain_seqs ''c'' (ob_rows demo_ob1) = [1]"
proof -
  obtain s where "ob_chains demo_ob1 ''c'' = Some s" "cs_captured s = 1" by (rule demo_ob1_state)
  with captures_seal_in_order [OF demo_ob_reach1, of "''c''" s] show ?thesis by simp
qed

text \<open>
  A failed capture blocks its chain for good: whatever happens later, it stays failed, the
  chain's sealed counter stays below its number, and no claim ever returns it or a later
  capture of the chain.
\<close>

theorem failed_capture_stalls_chain:
  assumes "reach outbox_empty (outbox_step pg_ts cr) db" and "r \<in> set (ob_rows db)" and "ob_status r = Failed"
    and "(outbox_step pg_ts cr)\<^sup>*\<^sup>* db db'"
    and "ob_chains db' (cp_chain (ob_capture r)) = Some s"
  shows "r \<in> set (ob_rows db') \<and> cs_sealed s < ob_seq r \<and>
    (\<forall>sess now org q db''. audit_capture_claim_for_seal sess now org (cp_chain (ob_capture r)) db' = Inr (Some q, db'')
       \<longrightarrow> ob_seq q < ob_seq r)"
proof -
  have ok: "outbox_ok db" "outbox_ok db'"
    using outbox.inv_reach [OF assms(1)] outbox.inv_run [OF _ assms(4)] by blast+
  have r': "r \<in> set (ob_rows db')"
    using terminal_kept_run [OF assms(4) ok(1) assms(2)] assms(3) by blast
  from ok(2) have inv: "outbox_inv (ob_chains db') (ob_rows db') (ob_refs db')" by (simp add: outbox_ok_def)
  have lt: "cs_sealed s < ob_seq r"
    using outbox_invD(2) [OF inv r'] assms(3,5) by (auto simp: row_inv_def)
  moreover have "ob_seq q < ob_seq r"
    if claim: "audit_capture_claim_for_seal sess now org (cp_chain (ob_capture r)) db' = Inr (Some q, db'')"
    for sess now org q db''
  proof -
    from claim_rows [OF claim] assms(5) obtain p where
      "find (claimable sess (cp_chain (ob_capture r)) (cs_sealed s + 1)) (ob_rows db') = Some p" "ob_seq q = ob_seq p"
      by (cases "find (claimable sess (cp_chain (ob_capture r)) (cs_sealed s + 1)) (ob_rows db')") auto
    then have p: "p \<in> set (ob_rows db')" "cp_chain (ob_capture p) = cp_chain (ob_capture r)"
      "ob_seq p = cs_sealed s + 1" "ob_status p = Captured" "ob_seq q = cs_sealed s + 1"
      by (auto simp: find_Some_iff claimable_def)
    have "ob_seq p \<noteq> ob_seq r"
      using same_seq [OF outbox_invD(3) [OF inv assms(5)] p(1) r'] p(2,4) assms(3) by auto
    with lt p(3,5) show ?thesis by simp
  qed
  ultimately show ?thesis using r' by blast
qed

theorem failed_capture_stalls_chain_witness:
  "\<exists>(d :: outbox_db) r s. ob_rows d = [r] \<and> ob_status r = Failed \<and> ob_chains d ''c'' = Some s \<and> cs_sealed s < ob_seq r"
proof -
  from demo_call_eval have "(case audit_capture_mark_failed (Some demo_org) demo_org (demo_id (CHR ''5'')) ''E'' ''m'' demo_ob1 of
        Inl e \<Rightarrow> False | Inr d' \<Rightarrow> map ob_status (ob_rows d') = [Failed] \<and>
          map (cp_chain \<circ> ob_capture) (ob_rows d') = [''c''])"
    using demo_call1 by (simp add: demo_call_def)
  then obtain d r where d: "audit_capture_mark_failed (Some demo_org) demo_org (demo_id (CHR ''5'')) ''E'' ''m'' demo_ob1 = Inr d"
    "ob_rows d = [r]" "ob_status r = Failed" "cp_chain (ob_capture r) = ''c''"
    by (auto simp: map_eq_Cons_conv split: sum.splits)
  have re: "reach outbox_empty (outbox_step (\<lambda>_. None) demo_cr) d"
    by (rule reach_step [OF demo_ob_reach1 ob_fail [OF d(1)]])
  have "outbox_ok d" by (rule outbox.inv_reach [OF re])
  then have "row_inv (ob_chains d) r" using d(2) by (simp add: outbox_ok_def outbox_inv_def)
  then obtain s where s: "ob_chains d ''c'' = Some s" using d(4) by (auto elim: row_invD)
  from failed_capture_stalls_chain [OF re, of r d s] d s show ?thesis by auto
qed

text \<open>
  Capturing is idempotent in the capture id: the same call repeated at any later time, in
  any state the queue has moved on to, returns the same sequence number and changes nothing.
\<close>

theorem capture_retry_idempotent:
  assumes "reach outbox_empty (outbox_step pg_ts cr) db"
    and call: "captureAuditEvent pg_ts sess i db = Inr (out, db')"
    and later: "(outbox_step pg_ts cr)\<^sup>*\<^sup>* db' db2"
  shows "captureAuditEvent pg_ts sess i db2 = Inr (out, db2)"
proof -
  obtain cid n where out: "out = (cid, n)" by (cases out)
  have ok: "outbox_ok db" "outbox_ok db'" "outbox_ok db2"
    using outbox.inv_reach [OF assms(1)] outbox_step_ok [OF _ ob_capture [OF call]] outbox.inv_run [OF _ later]
    by blast+
  from call obtain c where ins: "audit_capture_insert_locked sess c db = Inr ((cid, n), db')"
    and same: "captureAuditEvent pg_ts sess i db2 = audit_capture_insert_locked sess c db2"
    unfolding out
    by (auto simp: captureAuditEvent_def bindE_Inr_iff Let_def split: if_split_asm option.splits occurred_in.splits)
  note ir = insert_rows [OF ins ok(1)]
  have "\<exists>r \<in> set (ob_rows db'). same_immutable (ob_capture r) c \<and> n = ob_seq r"
    using ir
  proof (elim conjE disjE bexE exE)
    fix r assume "r \<in> set (ob_rows db)" "same_immutable (ob_capture r) c" "n = ob_seq r"
      "db' = db\<lparr> ob_chains := ob_chains db' \<rparr>"
    then show ?thesis by (metis outbox_db.select_convs(2) outbox_db.surjective outbox_db.update_convs(1))
  qed (auto simp: same_immutable_def)
  then obtain r where r: "r \<in> set (ob_rows db')" "same_immutable (ob_capture r) c" "n = ob_seq r" by blast
  from capture_kept_run [OF later ok(2) r(1)] obtain q where q: "q \<in> set (ob_rows db2)"
    "ob_capture q = ob_capture r" "ob_seq q = ob_seq r" by blast
  from ok(3) have inv: "outbox_inv (ob_chains db2) (ob_rows db2) (ob_refs db2)" by (simp add: outbox_ok_def)
  have eq: "cp_id (ob_capture q) = cp_id c" "cp_org (ob_capture q) = cp_org c" "cp_chain (ob_capture q) = cp_chain c"
    using r(2) by (cases "ob_capture r"; cases c; simp add: q(2) same_immutable_def)+
  let ?P = "\<lambda>r. sess = Some (cp_org (ob_capture r)) \<and> cp_id (ob_capture r) = cp_id c"
  have own: "sess = Some (cp_org c)" using ir by (simp add: own_session_def)
  have "find ?P (ob_rows db2) = Some q"
  proof (cases "find ?P (ob_rows db2)")
    case None
    then show ?thesis using q(1) eq own by (auto simp: find_None_iff)
  next
    case (Some p)
    then have "p \<in> set (ob_rows db2)" "cp_id (ob_capture p) = cp_id c" by (auto simp: find_Some_iff)
    with same_row [OF outbox_invD(1) [OF inv] _ q(1)] eq Some show ?thesis by simp
  qed
  moreover obtain s where s: "ob_chains db2 (cp_chain c) = Some s" "cs_org s = cp_org c"
    using outbox_invD(2) [OF inv q(1)] eq by (auto elim: row_invD)
  moreover have "(ob_chains db2)(cp_chain c \<mapsto> s) = ob_chains db2" using s(1) by auto
  moreover have "\<not> (cp_tag c = None) \<noteq> (cp_alg c = None)" and "is_category (cp_category c)" "is_posture (cp_posture c)"
    "is_object (cp_redaction c)" "\<not> list_ex (\<lambda>k. k \<in> set (top_keys (cp_redaction c))) SQL_BANNED_REDACTION_KEYS"
    "\<not> (case cp_alg c of None \<Rightarrow> False | Some a \<Rightarrow> \<not> is_alg a)" "own_session sess (cp_org c)"
    using ins by (auto simp: audit_capture_insert_locked_def split: if_split_asm)
  ultimately have "audit_capture_insert_locked sess c db2 = Inr ((cp_id c, n), db2)"
    using q r eq by (simp add: audit_capture_insert_locked_def)
  then show ?thesis using same ir by (simp add: out)
qed

theorem capture_retry_idempotent_witness:
  "captureAuditEvent (\<lambda>_. None) (Some demo_org) (demo_capture (demo_id (CHR ''5''))) demo_ob1
     = Inr ((demo_id (CHR ''5''), 1), demo_ob1)"
  by (rule capture_retry_idempotent [OF demo_ob_reach0 demo_call1 rtranclp.rtrancl_refl])

end
