(* ===== verification/Sealer.thy ===== *)
theory Sealer
  imports Capture_Outbox
begin

text \<open>
  \<^bold>\<open>packages/core-audit/src/sealer.ts\<close> and \<open>sealer-event-id.ts\<close>, with the runner's seal
  transaction, drain loop, stale recovery and backoff (\<open>apps/audit-sealer/src\<close>:
  \<open>seal-once.ts\<close>, \<open>claim-loop.ts\<close>, \<open>stale-recovery.ts\<close>, \<open>backoff.ts\<close>): the worker that turns
  captures into events of the HMAC chain. A seal is one transaction of claim, append and
  mark-sealed; the event id is a UUIDv5 of the organization and the capture, so a repeated seal
  finds the event it has already written. SHA-1 is a parameter. A timestamp read from the
  database is its millisecond value: the code writes it as ISO text and reads that back.
\<close>

section \<open>Deterministic event ids\<close>

definition set_byte :: "nat \<Rightarrow> 8 word \<Rightarrow> bytes \<Rightarrow> bytes" where
  "set_byte i w bs = (if i < length bs then bs[i := w] else bs)"

definition slice :: "nat \<Rightarrow> nat \<Rightarrow> 'a list \<Rightarrow> 'a list" where
  "slice a b xs = drop a (take b xs)"

unbundle bit_operations_syntax

definition uuid5 :: "(bytes \<Rightarrow> bytes) \<Rightarrow> string \<Rightarrow> string \<Rightarrow> string option" where
  "uuid5 sha1 ns name =
     (if \<not> is_uuid ns then None
      else
        let nsb = from_hex (filter (\<lambda>c. c \<noteq> CHR ''-'') ns);
            bytes0 = take 16 (sha1 (nsb @ utf8 name));
            bytes1 = set_byte 6 ((byte_at bytes0 6 AND 0x0F) OR 0x50) bytes0;
            bytes2 = set_byte 8 ((byte_at bytes1 8 AND 0x3F) OR 0x80) bytes1;
            hex = hex_of bytes2
        in Some (slice 0 8 hex @ ''-'' @ slice 8 12 hex @ ''-'' @ slice 12 16 hex @ ''-'' @
                 slice 16 20 hex @ ''-'' @ slice 20 32 hex))"

definition CAPTURE_EVENT_NAMESPACE :: string where
  "CAPTURE_EVENT_NAMESPACE = ''6b005489-aad5-576d-bcf8-a8c55fe40417''"

definition deriveAuditSealerCaptureEventId :: "(bytes \<Rightarrow> bytes) \<Rightarrow> string \<Rightarrow> string \<Rightarrow> string option" where
  "deriveAuditSealerCaptureEventId sha1 org cid =
     (if \<not> is_uuid org then None else if \<not> is_uuid cid then None
      else uuid5 sha1 CAPTURE_EVENT_NAMESPACE (''org:'' @ org @ '':capture:'' @ cid))"

section \<open>The error sanitizer\<close>

text \<open>What is thrown: an \<open>Error\<close> with its name and message, a string, nothing, or another value.\<close>

datatype thrown = ThrownError string string | ThrownString string | ThrownNothing | ThrownOther

definition extractErrorClassMessage :: "thrown \<Rightarrow> string \<times> string" where
  "extractErrorClassMessage v = (case v of
     ThrownError name msg \<Rightarrow> (if name = [] then ''Error'' else name, msg)
   | ThrownString s \<Rightarrow> (''unknown'', s)
   | ThrownNothing \<Rightarrow> (''unknown'', [])
   | ThrownOther \<Rightarrow> (''unknown'', ''<non-error value>''))"

text \<open>A run of white space becomes one blank.\<close>

fun squeeze :: "bool \<Rightarrow> string \<Rightarrow> string" where
  "squeeze prev [] = []"
| "squeeze prev (c # cs) =
     (if is_space c then (if prev then squeeze True cs else CHR '' '' # squeeze True cs)
      else c # squeeze False cs)"

definition SEALER_ERROR_MESSAGE_MAX :: nat where
  "SEALER_ERROR_MESSAGE_MAX = 200"

definition is_class_char :: "char \<Rightarrow> bool" where
  "is_class_char c = (let n = of_char c :: nat in
     (65 \<le> n \<and> n \<le> 90) \<or> (97 \<le> n \<and> n \<le> 122) \<or> (48 \<le> n \<and> n \<le> 57) \<or> c \<in> {CHR ''_'', CHR ''.'', CHR ''-''})"

text \<open>
  Explicit class and message take precedence over a thrown value. The first replacement of the
  code (runs of line breaks and tabs) is subsumed by the second; \<open>dots\<close> is the code unit
  U+2026, which is outside the range of the modelled characters.
\<close>

definition sanitizeSealerError ::
  "char \<Rightarrow> thrown \<Rightarrow> string option \<Rightarrow> string option \<Rightarrow> string \<times> string" where
  "sanitizeSealerError dots err errorClass errorMessage =
     (let (cls, msg) =
        (if errorClass \<noteq> None \<or> errorMessage \<noteq> None then
           (case errorClass of Some c \<Rightarrow> if c \<noteq> [] then c else ''unknown'' | None \<Rightarrow> ''unknown'',
            case errorMessage of Some m \<Rightarrow> m | None \<Rightarrow> [])
         else extractErrorClassMessage err);
        msg1 = trim (squeeze False msg);
        msg2 = (if SEALER_ERROR_MESSAGE_MAX - 1 < length msg1
                then take (SEALER_ERROR_MESSAGE_MAX - 1) msg1 @ [dots] else msg1);
        msg3 = (if msg2 = [] then ''<no_message>'' else msg2);
        cls1 = take 64 (filter is_class_char cls)
      in (if cls1 = [] then ''unknown'' else cls1, msg3))"

section \<open>Claimed captures\<close>

record claimed =
  cl_capture_id :: string
  cl_org :: string
  cl_chain :: string
  cl_category :: string
  cl_seq :: string
  cl_type :: string
  cl_version :: string
  cl_subject_type :: string
  cl_subject_id :: string
  cl_occurred :: int
  cl_payload_hex :: string
  cl_has_payload :: bool
  cl_has_dek :: bool
  cl_key_id :: string
  cl_key_version :: int
  cl_redaction :: jsval
  cl_evidence :: string
  cl_alg :: "string option"
  cl_has_tag :: bool
  cl_posture :: string

datatype sealer_error =
    SealerBadOrg | SealerBadChain | SealerBadCapture | SealerBadEvent | SealerBadCategory | SealerBadPosture
  | SealerBadAlg | SealerTenantContext | SealerBannedKey | SealerInvalidDate | SealerStamp | SealerEventId
  | SealerCapture capture_error | SealerAudit audit_error | SealerInfra

fun liftE :: "('e \<Rightarrow> 'f) \<Rightarrow> 'e + 'a \<Rightarrow> 'f + 'a" where
  "liftE f (Inl e) = Inl (f e)"
| "liftE f (Inr x) = Inr x"

definition mapOutboxRowToClaimedAuditCapture :: "outbox_row \<Rightarrow> sealer_error + claimed" where
  "mapOutboxRowToClaimedAuditCapture r =
     (let c = ob_capture r in
      if \<not> is_category (cp_category c) then Inl SealerBadCategory
      else if (case cp_alg c of None \<Rightarrow> False | Some a \<Rightarrow> \<not> is_alg a) then Inl SealerBadAlg
      else if \<not> is_posture (cp_posture c) then Inl SealerBadPosture
      else Inr \<lparr> cl_capture_id = cp_id c, cl_org = cp_org c, cl_chain = cp_chain c, cl_category = cp_category c,
        cl_seq = dec_of (nat (ob_seq r)), cl_type = cp_type c, cl_version = cp_version c,
        cl_subject_type = cp_subject_type c, cl_subject_id = cp_subject_id c, cl_occurred = cp_occurred c,
        cl_payload_hex = hex_of (cp_payload_hash c), cl_has_payload = (cp_payload_encrypted c \<noteq> None),
        cl_has_dek = (cp_dek_wrapped c \<noteq> None), cl_key_id = cp_key_id c, cl_key_version = cp_key_version c,
        cl_redaction = (if is_object (cp_redaction c) then cp_redaction c else JObj []),
        cl_evidence = cp_evidence c, cl_alg = cp_alg c, cl_has_tag = (cp_tag c \<noteq> None), cl_posture = cp_posture c \<rparr>)"

text \<open>The casts of the organization id to \<open>uuid\<close> cannot fail: it has been checked.\<close>

definition claimAuditCaptureForSeal ::
  "string option \<Rightarrow> int \<Rightarrow> string \<Rightarrow> string \<Rightarrow> 'a outbox_db_scheme
   \<Rightarrow> sealer_error + claimed option \<times> 'a outbox_db_scheme" where
  "claimAuditCaptureForSeal sess now org chain db =
     (if \<not> is_uuid org then Inl SealerBadOrg
      else if chain = [] then Inl SealerBadChain
      else bindE (liftE SealerCapture (audit_capture_claim_for_seal sess now (lower org) chain db)) (\<lambda>(row, db').
        case row of
          None \<Rightarrow> Inr (None, db')
        | Some r \<Rightarrow> bindE (mapOutboxRowToClaimedAuditCapture r) (\<lambda>c. Inr (Some c, db'))))"

definition loadSealingCaptureForRecovery ::
  "string option \<Rightarrow> string \<Rightarrow> string \<Rightarrow> 'a outbox_db_scheme \<Rightarrow> sealer_error + claimed option" where
  "loadSealingCaptureForRecovery sess org cid db =
     (if \<not> is_uuid org then Inl SealerBadOrg
      else if \<not> is_uuid cid then Inl SealerBadCapture
      else if sess = None \<or> sess = Some [] \<or> sess \<noteq> Some org then Inl SealerTenantContext
      else case find (\<lambda>r. sess = Some (cp_org (ob_capture r)) \<and> cp_org (ob_capture r) = lower org \<and>
                       cp_id (ob_capture r) = lower cid \<and> ob_status r = Sealing) (ob_rows db) of
        None \<Rightarrow> Inr None
      | Some r \<Rightarrow> bindE (mapOutboxRowToClaimedAuditCapture r) (\<lambda>c. Inr (Some c)))"

section \<open>The audit event of a capture\<close>

definition auditCategoryChainId :: "string \<Rightarrow> string \<Rightarrow> string" where
  "auditCategoryChainId org category = org @ '':'' @ category"

definition is_worker_char :: "char \<Rightarrow> bool" where
  "is_worker_char c = (let n = of_char c :: nat in
     (65 \<le> n \<and> n \<le> 90) \<or> (97 \<le> n \<and> n \<le> 122) \<or> (48 \<le> n \<and> n \<le> 57) \<or>
     c \<in> {CHR ''.'', CHR ''_'', CHR '':'', CHR ''-''})"

definition safeWorkerId :: "string option \<Rightarrow> string option" where
  "safeWorkerId w = (case w of None \<Rightarrow> None
     | Some s \<Rightarrow> let cleaned = take 64 (filter is_worker_char s) in if cleaned = [] then None else Some cleaned)"

text \<open>A property set by an object literal after a spread: it replaces one of the same name.\<close>

fun set_prop :: "string \<Rightarrow> jsval \<Rightarrow> (string \<times> jsval) list \<Rightarrow> (string \<times> jsval) list" where
  "set_prop k v [] = [(k, v)]"
| "set_prop k v ((k', v') # ps) = (if k' = k then (k, v) # ps else (k', v') # set_prop k v ps)"

definition props_of :: "jsval \<Rightarrow> (string \<times> jsval) list" where
  "props_of v = (case v of JObj ps \<Rightarrow> ps | _ \<Rightarrow> [])"

definition sealer_block :: "claimed \<Rightarrow> string option \<Rightarrow> int \<Rightarrow> jsval" where
  "sealer_block c worker sealed_at = JObj
     ([(''version'', JNum (Finite 1)),
       (''capture_id'', JStr (cl_capture_id c)),
       (''capture_seq'', JStr (cl_seq c)),
       (''capture_chain_id'', JStr (cl_chain c)),
       (''chain_category'', JStr (cl_category c)),
       (''posture'', JStr (cl_posture c)),
       (''capture_integrity_alg'', case cl_alg c of None \<Rightarrow> JNull | Some a \<Rightarrow> JStr a),
       (''has_payload_encrypted'', JBool (cl_has_payload c)),
       (''has_dek_wrapped'', JBool (cl_has_dek c)),
       (''has_capture_integrity_tag'', JBool (cl_has_tag c)),
       (''sealed_at'', JStr (iso_of_ms sealed_at)),
       (''sealed_by'', JStr ''audit-sealer-core'')] @
      (case worker of None \<Rightarrow> [] | Some w \<Rightarrow> [(''worker_id'', JStr w)]))"

definition buildAuditCaptureSealingEvent ::
  "claimed \<Rightarrow> string option \<Rightarrow> js_date \<Rightarrow> sealer_error + append_input" where
  "buildAuditCaptureSealingEvent c workerId sealedAt =
     (if list_ex (\<lambda>k. k \<in> set (top_keys (cl_redaction c))) ALL_BANNED_REDACTION_KEYS then Inl SealerBannedKey
      else case sealedAt of None \<Rightarrow> Inl SealerInvalidDate | Some t \<Rightarrow>
        Inr \<lparr> ai_org = cl_org c, ai_chain = auditCategoryChainId (cl_org c) (cl_category c),
              ai_type = cl_type c, ai_version = cl_version c, ai_subject_type = cl_subject_type c,
              ai_subject_id = cl_subject_id c, ai_occurred = Some (cl_occurred c),
              ai_payload_hash = from_hex (cl_payload_hex c), ai_payload_encrypted = None, ai_dek_wrapped = None,
              ai_key_id = cl_key_id c, ai_key_version = cl_key_version c,
              ai_redaction = JObj (set_prop ''audit_sealer'' (sealer_block c (safeWorkerId workerId) t)
                 (props_of (cl_redaction c))),
              ai_evidence = Some (if cl_evidence c = ''dev_signed'' then ''dev_signed'' else ''hmac_internal''),
              ai_event_id = None \<rparr>)"

section \<open>Mark and seal\<close>

definition markAuditCaptureSealed ::
  "string option \<Rightarrow> string \<Rightarrow> string \<Rightarrow> string \<Rightarrow> string \<Rightarrow> 'a outbox_db_scheme \<Rightarrow> sealer_error + 'a outbox_db_scheme" where
  "markAuditCaptureSealed sess org chain cid eid db =
     (if \<not> is_uuid org then Inl SealerBadOrg
      else if chain = [] then Inl SealerBadChain
      else if \<not> is_uuid cid then Inl SealerBadCapture
      else if \<not> is_uuid eid then Inl SealerBadEvent
      else liftE SealerCapture (audit_capture_mark_sealed sess (lower org) (lower cid) (lower eid) db))"

definition markAuditCaptureFailed ::
  "char \<Rightarrow> string option \<Rightarrow> string \<Rightarrow> string \<Rightarrow> thrown \<Rightarrow> string option \<Rightarrow> string option \<Rightarrow> 'a outbox_db_scheme
   \<Rightarrow> sealer_error + 'a outbox_db_scheme" where
  "markAuditCaptureFailed dots sess org cid err errorClass errorMessage db =
     (if \<not> is_uuid org then Inl SealerBadOrg
      else if \<not> is_uuid cid then Inl SealerBadCapture
      else
        let (cls, msg) = sanitizeSealerError dots err errorClass errorMessage
        in liftE SealerCapture (audit_capture_mark_failed sess (lower org) (lower cid) cls msg db))"

datatype seal_result = Idle | SealedOne string string string string

text \<open>
  One transaction: on \<open>Inl\<close> the runner rolls back. \<open>rnd\<close> are the random ids \<open>auditAppend\<close> draws
  (unused here: the event id is given and there is no payload).
\<close>

definition sealNextAuditCapture ::
  "(bytes \<Rightarrow> bytes) \<Rightarrow> crypto \<Rightarrow> string option \<Rightarrow> int \<Rightarrow> string option \<Rightarrow> string \<Rightarrow> string \<Rightarrow> string \<Rightarrow> 'a outbox_db_scheme
   \<Rightarrow> sealer_error + seal_result \<times> 'a outbox_db_scheme" where
  "sealNextAuditCapture sha1 cr sess now workerId rnd org chain db =
     (if \<not> is_uuid org then Inl SealerBadOrg
      else if chain = [] then Inl SealerBadChain
      else bindE (claimAuditCaptureForSeal sess now org chain db) (\<lambda>(got, db1).
        case got of
          None \<Rightarrow> Inr (Idle, db1)
        | Some c \<Rightarrow>
            bindE (buildAuditCaptureSealingEvent c workerId (Some now)) (\<lambda>ev.
            case deriveAuditSealerCaptureEventId sha1 (cl_org c) (cl_capture_id c) of
              None \<Rightarrow> Inl SealerBadCapture
            | Some eid \<Rightarrow>
                if Option.bind (obj_get (ai_redaction ev) ''audit_sealer'') (\<lambda>s. obj_get s ''capture_id'')
                     \<noteq> Some (JStr (cl_capture_id c)) then Inl SealerStamp
                else bindE (liftE SealerAudit (auditAppend cr sess rnd rnd (ev\<lparr> ai_event_id := Some eid \<rparr>) db1))
                  (\<lambda>(out, db2).
                  if ao_event_id out \<noteq> eid then Inl SealerEventId
                  else bindE (markAuditCaptureSealed sess (cl_org c) (cl_chain c) (cl_capture_id c) (ao_event_id out) db2)
                    (\<lambda>db3. Inr (SealedOne (cl_chain c) (cl_capture_id c) (cl_seq c) (ao_event_id out), db3))))))"

section \<open>The runner\<close>

datatype recovery = RecoveredSealed string | RecoveredAbsent

definition attemptRecovery ::
  "(bytes \<Rightarrow> bytes) \<Rightarrow> crypto \<Rightarrow> js_date \<Rightarrow> string \<Rightarrow> string \<Rightarrow> string \<Rightarrow> string \<Rightarrow> 'a outbox_db_scheme
   \<Rightarrow> sealer_error + recovery \<times> 'a outbox_db_scheme" where
  "attemptRecovery sha1 cr now workerId rnd org cid db =
     (let sess = Some org in
      bindE (loadSealingCaptureForRecovery sess org cid db) (\<lambda>got.
        case got of
          None \<Rightarrow> Inr (RecoveredAbsent, db)
        | Some c \<Rightarrow>
            bindE (buildAuditCaptureSealingEvent c (Some workerId) now) (\<lambda>ev.
            case deriveAuditSealerCaptureEventId sha1 org cid of
              None \<Rightarrow> Inl SealerBadCapture
            | Some eid \<Rightarrow>
                bindE (liftE SealerAudit (auditAppend cr sess rnd rnd (ev\<lparr> ai_event_id := Some eid \<rparr>) db)) (\<lambda>(out, db1).
                bindE (markAuditCaptureSealed sess org (cl_chain c) cid (ao_event_id out) db1) (\<lambda>db2.
                Inr (RecoveredSealed (ao_event_id out), db2))))))"

datatype error_class = Divergent | TenantContext | Transient

text \<open>The code matches the texts of the messages these errors are raised with.\<close>

definition classifyError :: "sealer_error \<Rightarrow> error_class" where
  "classifyError e = (case e of
     SealerAudit (DivergentContent f) \<Rightarrow> Divergent
   | SealerCapture CaptureDivergent \<Rightarrow> Divergent
   | SealerTenantContext \<Rightarrow> TenantContext
   | _ \<Rightarrow> Transient)"

datatype fail_reason = DivergentReason | MaxRetries

datatype recover_outcome =
  OutSealed string | OutSkipped | OutFailed fail_reason | OutError

text \<open>
  A terminal failure is written in a transaction of its own; when that one fails, the row stays.
  \<open>text_of\<close> is the thrown error as an \<open>Error\<close> object.
\<close>

definition markFailedTerminal ::
  "char \<Rightarrow> (sealer_error \<Rightarrow> thrown) \<Rightarrow> bool \<Rightarrow> string \<Rightarrow> string \<Rightarrow> sealer_error \<Rightarrow> 'a outbox_db_scheme \<Rightarrow> 'a outbox_db_scheme" where
  "markFailedTerminal dots text_of up org cid err db =
     (if \<not> up then db
      else case markAuditCaptureFailed dots (Some org) org cid (text_of err) None None db of Inl e \<Rightarrow> db | Inr db' \<Rightarrow> db')"

text \<open>
  \<open>tx n\<close> is the transaction of attempt \<open>n\<close>; it also fails when the database cannot be reached.
  The loop runs at most \<open>maxRetries\<close> times.
\<close>

fun recover_loop ::
  "(nat \<Rightarrow> 'd \<Rightarrow> sealer_error + recovery \<times> 'd) \<Rightarrow> (sealer_error \<Rightarrow> 'd \<Rightarrow> 'd) \<Rightarrow> nat \<Rightarrow> nat \<Rightarrow> sealer_error \<Rightarrow> 'd
   \<Rightarrow> recover_outcome \<times> 'd" where
  "recover_loop tx failed 0 attempt lastErr db = (OutFailed MaxRetries, failed lastErr db)"
| "recover_loop tx failed (Suc n) attempt lastErr db =
     (case tx attempt db of
        Inr (RecoveredAbsent, db') \<Rightarrow> (OutSkipped, db')
      | Inr (RecoveredSealed eid, db') \<Rightarrow> (OutSealed eid, db')
      | Inl e \<Rightarrow> (case classifyError e of
          Divergent \<Rightarrow> (OutFailed DivergentReason, failed e db)
        | TenantContext \<Rightarrow> (OutError, db)
        | Transient \<Rightarrow> recover_loop tx failed n (attempt + 1) e db))"

definition recoverStaleRow ::
  "(bytes \<Rightarrow> bytes) \<Rightarrow> crypto \<Rightarrow> char \<Rightarrow> (sealer_error \<Rightarrow> thrown) \<Rightarrow> (nat \<Rightarrow> bool) \<Rightarrow> (nat \<Rightarrow> js_date) \<Rightarrow> string \<Rightarrow> string
   \<Rightarrow> nat \<Rightarrow> string \<Rightarrow> string \<Rightarrow> 'a outbox_db_scheme \<Rightarrow> recover_outcome \<times> 'a outbox_db_scheme" where
  "recoverStaleRow sha1 cr dots text_of up now workerId rnd maxRetries org cid db =
     recover_loop
       (\<lambda>n db. if up n then attemptRecovery sha1 cr (now n) workerId rnd org cid db else Inl SealerInfra)
       (\<lambda>e db. markFailedTerminal dots text_of (up maxRetries) org cid e db)
       maxRetries 0 SealerInfra db"

fun drain_loop ::
  "('d \<Rightarrow> sealer_error + seal_result \<times> 'd) \<Rightarrow> nat \<Rightarrow> nat \<Rightarrow> 'd \<Rightarrow> nat \<times> 'd" where
  "drain_loop seal 0 n db = (n, db)"
| "drain_loop seal (Suc k) n db =
     (case seal db of
        Inl e \<Rightarrow> (n, db)
      | Inr (Idle, db') \<Rightarrow> (n, db')
      | Inr (SealedOne c i q e, db') \<Rightarrow> drain_loop seal k (n + 1) db')"

definition drainChain ::
  "(bytes \<Rightarrow> bytes) \<Rightarrow> crypto \<Rightarrow> int \<Rightarrow> string \<Rightarrow> string \<Rightarrow> nat \<Rightarrow> string \<Rightarrow> string \<Rightarrow> 'a outbox_db_scheme
   \<Rightarrow> nat \<times> 'a outbox_db_scheme" where
  "drainChain sha1 cr now workerId rnd claimBatch org chain db =
     drain_loop (sealNextAuditCapture sha1 cr (Some org) now (Some workerId) rnd org chain) claimBatch 0 db"

subsection \<open>Backoff\<close>

text \<open>Milliseconds are natural numbers; the drawn fraction is a rational number in [0, 1).\<close>

definition backoffBaseMs :: "int \<Rightarrow> nat \<Rightarrow> nat \<Rightarrow> nat" where
  "backoffBaseMs attempt minMs maxMs =
     (let safeAttempt = (if attempt < 0 then 0 else nat attempt);
          e = min safeAttempt 53
      in min (minMs * 2 ^ e) maxMs)"

definition jitter :: "nat \<Rightarrow> rat \<Rightarrow> int" where
  "jitter baseMs r = (let half = rat_of_nat baseMs / 2 in \<lfloor>half + r * half + 1 / 2\<rfloor>)"

definition backoffWithJitterMs :: "int \<Rightarrow> nat \<Rightarrow> nat \<Rightarrow> rat \<Rightarrow> int" where
  "backoffWithJitterMs attempt minMs maxMs r = jitter (backoffBaseMs attempt minMs maxMs) r"

section \<open>A capture's event carries the capture\<close>

lemma set_prop_get: "map_of (set_prop k v ps) k = Some v"
  by (induction ps) auto

lemma build_Inr:
  assumes "buildAuditCaptureSealingEvent c w now = Inr ev"
  shows "ai_org ev = cl_org c" "ai_chain ev = auditCategoryChainId (cl_org c) (cl_category c)" "ai_type ev = cl_type c"
    "ai_version ev = cl_version c" "ai_subject_type ev = cl_subject_type c" "ai_subject_id ev = cl_subject_id c"
    "ai_payload_hash ev = from_hex (cl_payload_hex c)" "ai_key_id ev = cl_key_id c" "ai_key_version ev = cl_key_version c"
    "ai_payload_encrypted ev = None" "ai_dek_wrapped ev = None"
    "readSealerCaptureId (ai_redaction ev) = Some (cl_capture_id c)"
proof -
  from assms obtain t where t: "now = Some t"
    by (cases now) (simp_all add: buildAuditCaptureSealingEvent_def split: if_split_asm)
  have ev: "ev = \<lparr> ai_org = cl_org c, ai_chain = auditCategoryChainId (cl_org c) (cl_category c),
              ai_type = cl_type c, ai_version = cl_version c, ai_subject_type = cl_subject_type c,
              ai_subject_id = cl_subject_id c, ai_occurred = Some (cl_occurred c),
              ai_payload_hash = from_hex (cl_payload_hex c), ai_payload_encrypted = None, ai_dek_wrapped = None,
              ai_key_id = cl_key_id c, ai_key_version = cl_key_version c,
              ai_redaction = JObj (set_prop ''audit_sealer'' (sealer_block c (safeWorkerId w) t)
                 (props_of (cl_redaction c))),
              ai_evidence = Some (if cl_evidence c = ''dev_signed'' then ''dev_signed'' else ''hmac_internal''),
              ai_event_id = None \<rparr>"
    using assms unfolding buildAuditCaptureSealingEvent_def t option.case
    by (cases "list_ex (\<lambda>k. k \<in> set (top_keys (cl_redaction c))) ALL_BANNED_REDACTION_KEYS") simp_all
  have "obj_get (sealer_block c x t) ''capture_id'' = Some (JStr (cl_capture_id c))" for x t
    by (simp add: sealer_block_def obj_get_def)
  then have "readSealerCaptureId (JObj (set_prop ''audit_sealer'' (sealer_block c x t) ps)) = Some (cl_capture_id c)" for x t ps
    by (simp add: readSealerCaptureId_def obj_get_def [of "JObj qs" for qs] set_prop_get)
  then show "ai_org ev = cl_org c" "ai_chain ev = auditCategoryChainId (cl_org c) (cl_category c)" "ai_type ev = cl_type c"
    "ai_version ev = cl_version c" "ai_subject_type ev = cl_subject_type c" "ai_subject_id ev = cl_subject_id c"
    "ai_payload_hash ev = from_hex (cl_payload_hex c)" "ai_key_id ev = cl_key_id c" "ai_key_version ev = cl_key_version c"
    "ai_payload_encrypted ev = None" "ai_dek_wrapped ev = None"
    "readSealerCaptureId (ai_redaction ev) = Some (cl_capture_id c)"
    by (simp_all add: ev)
qed

lemma map_row_Inr:
  assumes "mapOutboxRowToClaimedAuditCapture r = Inr c"
  shows "cl_capture_id c = cp_id (ob_capture r)" "cl_org c = cp_org (ob_capture r)" "cl_chain c = cp_chain (ob_capture r)"
    "cl_category c = cp_category (ob_capture r)" "cl_type c = cp_type (ob_capture r)" "cl_version c = cp_version (ob_capture r)"
    "cl_subject_type c = cp_subject_type (ob_capture r)" "cl_subject_id c = cp_subject_id (ob_capture r)"
    "cl_payload_hex c = hex_of (cp_payload_hash (ob_capture r))" "cl_key_id c = cp_key_id (ob_capture r)"
    "cl_key_version c = cp_key_version (ob_capture r)" "cl_seq c = dec_of (nat (ob_seq r))"
  using assms by (auto simp: mapOutboxRowToClaimedAuditCapture_def Let_def split: if_split_asm)

text \<open>The event stored for a capture: the capture's own content, on the chain of its category.\<close>

definition evidence_for :: "capture \<Rightarrow> audit_event \<Rightarrow> bool" where
  "evidence_for c e \<longleftrightarrow> ev_org e = cp_org c \<and> ev_chain e = auditCategoryChainId (cp_org c) (cp_category c) \<and>
     ev_type e = cp_type c \<and> ev_version e = cp_version c \<and> ev_subject_type e = cp_subject_type c \<and>
     lower (ev_subject_id e) = lower (cp_subject_id c) \<and> ev_payload_hash e = cp_payload_hash c \<and>
     ev_key_id e = cp_key_id c \<and> ev_key_version e = cp_key_version c \<and>
     readSealerCaptureId (ev_redaction e) = Some (cp_id c)"

lemma records_evidence:
  assumes "mapOutboxRowToClaimedAuditCapture r = Inr c" "buildAuditCaptureSealingEvent c w now = Inr ev"
    "event_records (ev\<lparr> ai_event_id := i \<rparr>) e"
  shows "evidence_for (ob_capture r) e"
  using assms(3) map_row_Inr [OF assms(1)] build_Inr [OF assms(2)]
  by (simp add: event_records_def evidence_for_def from_hex_of)

lemma distinct_mapI: "distinct (map f xs) \<Longrightarrow> distinct xs"
  by (simp add: distinct_map)

lemma filter_one: "e \<in> set xs \<Longrightarrow> distinct xs \<Longrightarrow> filter (\<lambda>x. x = e) xs = [e]"
  by (induction xs) (auto simp: filter_empty_conv)

section \<open>What a seal does\<close>

lemma liftE_Inr_iff: "liftE f m = Inr x \<longleftrightarrow> m = Inr x"
  by (cases m) auto

lemma liftE_Inl_iff: "liftE f m = Inl x \<longleftrightarrow> (\<exists>e. m = Inl e \<and> x = f e)"
  by (cases m) auto

text \<open>Sealing and recovery end in the same two calls: append the event, mark the row.\<close>

definition sealed_by ::
  "crypto \<Rightarrow> outbox_row \<Rightarrow> string \<Rightarrow> 'a outbox_db_scheme \<Rightarrow> 'a outbox_db_scheme \<Rightarrow> bool" where
  "sealed_by cr row eid db db' \<longleftrightarrow> (\<exists>c w now ev i rnd out db1 org cid.
     mapOutboxRowToClaimedAuditCapture row = Inr c \<and> buildAuditCaptureSealingEvent c w now = Inr ev \<and>
     is_uuid eid \<and>
     auditAppend cr (Some (cp_org (ob_capture row))) rnd rnd (ev\<lparr> ai_event_id := Some i \<rparr>) db = Inr (out, db1) \<and>
     ao_event_id out = eid \<and> lower i = lower eid \<and>
     audit_capture_mark_sealed (Some (cp_org (ob_capture row))) org cid (lower eid) db1 = Inr db' \<and>
     cid = cp_id (ob_capture row) \<and> org = cp_org (ob_capture row))"

lemma sealed_by_effect:
  assumes "sealed_by cr row eid db db'" "outbox_ok db" "row \<in> set (ob_rows db)" "ob_status row = Sealing"
  shows "\<exists>db1 e s. db_events db1 = db_events db' \<and> ob_rows db1 = ob_rows db \<and> ob_chains db1 = ob_chains db \<and>
      ob_refs db1 = ob_refs db \<and>
      (\<exists>sess rnd i out j. auditAppend cr sess rnd rnd i db = Inr (out, db1) \<and> ai_event_id i = Some j \<and> lower j = lower eid) \<and>
      e \<in> set (db_events db') \<and> ev_id e = lower eid \<and> evidence_for (ob_capture row) e \<and>
      ob_chains db (cp_chain (ob_capture row)) = Some s \<and> cs_sealed s + 1 = ob_seq row \<and>
      ob_chains db' = (ob_chains db)(cp_chain (ob_capture row) \<mapsto> s\<lparr> cs_sealed := ob_seq row \<rparr>) \<and>
      ob_rows db' = map (\<lambda>r. if r = row then r\<lparr> ob_status := Sealed, ob_event := Some (lower eid) \<rparr> else r) (ob_rows db) \<and>
      ob_refs db' = ob_refs db @ [\<lparr> rf_org = cp_org (ob_capture row), rf_capture = cp_id (ob_capture row), rf_event = lower eid \<rparr>]"
proof -
  let ?org = "cp_org (ob_capture row)" and ?cid = "cp_id (ob_capture row)"
  from assms(1) obtain c w now ev i rnd out db1 where
    m: "mapOutboxRowToClaimedAuditCapture row = Inr c" and b: "buildAuditCaptureSealingEvent c w now = Inr ev"
    and a: "auditAppend cr (Some ?org) rnd rnd (ev\<lparr> ai_event_id := Some i \<rparr>) db = Inr (out, db1)"
    and eid: "lower i = lower eid"
    and k: "audit_capture_mark_sealed (Some ?org) ?org ?cid (lower eid) db1 = Inr db'"
    by (auto simp: sealed_by_def)
  from append_leaves_record [OF a] obtain e where e: "e \<in> set (db_events db1)"
    "event_records (ev\<lparr> ai_event_id := Some i \<rparr>) e" "ev_id e = lower i" by auto
  note ev = records_evidence [OF m b e(2)]
  note o = append_outbox [OF a]
  from assms(2) have inv: "outbox_inv (ob_chains db) (ob_rows db) (ob_refs db)" by (simp add: outbox_ok_def)
  have one: "has_capture (Some ?org) ?cid r \<longleftrightarrow> r = row" if "r \<in> set (ob_rows db)" for r
    using same_row [OF outbox_invD(1) [OF inv] that assms(3)] by (auto simp: has_capture_def)
  obtain row' where f: "find (has_capture (Some ?org) ?cid) (ob_rows db1) = Some row'"
    using seal_rows [OF k] by blast
  have "row' = row" using find_capture [OF f] one f by (auto simp: o find_Some_iff)
  with f have f: "find (has_capture (Some ?org) ?cid) (ob_rows db1) = Some row" by simp
  from seal_rows [OF k] obtain s where s: "ob_chains db (cp_chain (ob_capture row)) = Some s" "cs_sealed s + 1 = ob_seq row"
    "db' = db1\<lparr> ob_refs := ob_refs db1 @ [\<lparr> rf_org = ?org, rf_capture = ?cid, rf_event = lower eid \<rparr>],
                ob_rows := update_rows (has_capture (Some ?org) ?cid)
                  (\<lambda>r. r\<lparr> ob_status := Sealed, ob_event := Some (lower eid) \<rparr>) (ob_rows db1),
                ob_chains := (ob_chains db1)(cp_chain (ob_capture row) \<mapsto> s\<lparr> cs_sealed := ob_seq row \<rparr>) \<rparr>"
    unfolding f using assms(4) by (auto simp: o)
  have "update_rows (has_capture (Some ?org) ?cid) f (ob_rows db) = map (\<lambda>r. if r = row then f r else r) (ob_rows db)" for f
    unfolding update_rows_def by (rule map_cong [OF refl]) (simp add: one)
  moreover have "\<exists>sess rnd j out k. auditAppend cr sess rnd rnd j db = Inr (out, db1) \<and> ai_event_id j = Some k \<and> lower k = lower eid"
    by (intro exI conjI) (rule a, simp, rule eid)
  ultimately show ?thesis using s e ev eid o
    by (intro exI [of _ db1] exI [of _ e] exI [of _ s]) auto
qed

lemma claim_Inr:
  assumes "claimAuditCaptureForSeal sess now org chain db = Inr (got, db')"
  shows "\<exists>row. audit_capture_claim_for_seal sess now (lower org) chain db = Inr (row, db') \<and> chain \<noteq> [] \<and>
    (case row of None \<Rightarrow> got = None
     | Some r \<Rightarrow> (\<exists>c. got = Some c \<and> mapOutboxRowToClaimedAuditCapture r = Inr c) \<and> r \<in> set (ob_rows db') \<and>
         ob_status r = Sealing \<and> sess = Some (cp_org (ob_capture r)) \<and> cp_chain (ob_capture r) = chain \<and>
         cp_org (ob_capture r) = lower org)"
proof -
  from assms obtain row where c: "audit_capture_claim_for_seal sess now (lower org) chain db = Inr (row, db')"
    and ch: "chain \<noteq> []"
    and g: "case row of None \<Rightarrow> got = None | Some r \<Rightarrow> \<exists>c. got = Some c \<and> mapOutboxRowToClaimedAuditCapture r = Inr c"
    by (auto simp: claimAuditCaptureForSeal_def bindE_Inr_iff liftE_Inr_iff split: if_split_asm option.splits)
  have "r \<in> set (ob_rows db') \<and> ob_status r = Sealing \<and> sess = Some (cp_org (ob_capture r)) \<and>
      cp_chain (ob_capture r) = chain \<and> cp_org (ob_capture r) = lower org" if row: "row = Some r" for r
  proof -
    define f where "f = (\<lambda>r :: outbox_row. r\<lparr> ob_status := Sealing, ob_started := Some now, ob_attempts := ob_attempts r + 1 \<rparr>)"
    from claim_rows [OF c] row have "own_session sess (lower org) \<and>
        (\<exists>s :: chain_state. db' = db\<lparr> ob_rows := update_rows (claimable sess chain (cs_sealed s + 1)) f (ob_rows db) \<rparr> \<and>
          row = map_option f (find (claimable sess chain (cs_sealed s + 1)) (ob_rows db)))"
      unfolding f_def by (elim conjE disjE exE) (simp, blast)
    then obtain s :: chain_state where own: "own_session sess (lower org)"
      and db': "db' = db\<lparr> ob_rows := update_rows (claimable sess chain (cs_sealed s + 1)) f (ob_rows db) \<rparr>"
      and m: "row = map_option f (find (claimable sess chain (cs_sealed s + 1)) (ob_rows db))" by blast
    from m row obtain p where p: "find (claimable sess chain (cs_sealed s + 1)) (ob_rows db) = Some p" "r = f p"
      by (cases "find (claimable sess chain (cs_sealed s + 1)) (ob_rows db)") auto
    then have "p \<in> set (ob_rows db)" "claimable sess chain (cs_sealed s + 1) p" by (auto simp: find_Some_iff)
    with p own show ?thesis
      by (auto simp: db' update_rows_def claimable_def own_session_def image_iff f_def)
  qed
  with c ch g show ?thesis by (auto split: option.splits)
qed

lemma mark_Inr:
  assumes "markAuditCaptureSealed sess org chain cid eid db = Inr db'"
  shows "is_uuid eid \<and> audit_capture_mark_sealed sess (lower org) (lower cid) (lower eid) db = Inr db'"
  using assms by (auto simp: markAuditCaptureSealed_def liftE_Inr_iff split: if_split_asm)

lemma mark_lower:
  assumes "audit_capture_mark_sealed sess org cid eid db = Inr db'"
  shows "sess = Some org"
  using seal_rows [OF assms] by (auto simp: own_session_def)

text \<open>A seal is a claim that returns no row, or a claim followed by \<open>sealed_by\<close> on its row.\<close>

lemma sealNext_Inr:
  assumes "sealNextAuditCapture sha1 cr sess now w rnd org chain db = Inr (res, db')" "outbox_ok db"
  shows "\<exists>row db1. audit_capture_claim_for_seal sess now (lower org) chain db = Inr (row, db1) \<and>
    (case row of None \<Rightarrow> res = Idle \<and> db' = db1
     | Some r \<Rightarrow> r \<in> set (ob_rows db1) \<and> ob_status r = Sealing \<and> cp_chain (ob_capture r) = chain \<and>
         cp_org (ob_capture r) = lower org \<and>
         (\<exists>eid. deriveAuditSealerCaptureEventId sha1 (cp_org (ob_capture r)) (cp_id (ob_capture r)) = Some eid \<and>
            sealed_by cr r eid db1 db' \<and>
            res = SealedOne (cp_chain (ob_capture r)) (cp_id (ob_capture r)) (dec_of (nat (ob_seq r))) eid))"
proof -
  from assms(1) obtain got db1 where cl: "claimAuditCaptureForSeal sess now org chain db = Inr (got, db1)"
    by (auto simp: sealNextAuditCapture_def bindE_Inr_iff split: if_split_asm)
  from claim_Inr [OF cl] obtain row where row: "audit_capture_claim_for_seal sess now (lower org) chain db = Inr (row, db1)"
    and alt: "case row of None \<Rightarrow> got = None
     | Some r \<Rightarrow> (\<exists>c. got = Some c \<and> mapOutboxRowToClaimedAuditCapture r = Inr c) \<and> r \<in> set (ob_rows db1) \<and>
         ob_status r = Sealing \<and> sess = Some (cp_org (ob_capture r)) \<and> cp_chain (ob_capture r) = chain \<and>
         cp_org (ob_capture r) = lower org" by blast
  show ?thesis
  proof (cases row)
    case None
    with alt assms(1) cl row show ?thesis
      by (auto simp: sealNextAuditCapture_def split: if_split_asm)
  next
    case (Some r)
    with alt obtain c where c: "got = Some c" "mapOutboxRowToClaimedAuditCapture r = Inr c"
      and r: "r \<in> set (ob_rows db1)" "ob_status r = Sealing" "sess = Some (cp_org (ob_capture r))"
        "cp_chain (ob_capture r) = chain" "cp_org (ob_capture r) = lower org" by auto
    note mc = map_row_Inr [OF c(2)]
    from assms(1) cl c(1) obtain ev eid out db2 where
      ev: "buildAuditCaptureSealingEvent c w (Some now) = Inr ev"
      and eid: "deriveAuditSealerCaptureEventId sha1 (cl_org c) (cl_capture_id c) = Some eid"
      and app: "auditAppend cr sess rnd rnd (ev\<lparr> ai_event_id := Some eid \<rparr>) db1 = Inr (out, db2)"
      and out: "ao_event_id out = eid"
      and mark: "markAuditCaptureSealed sess (cl_org c) (cl_chain c) (cl_capture_id c) (ao_event_id out) db2 = Inr db'"
      and res: "res = SealedOne (cl_chain c) (cl_capture_id c) (cl_seq c) (ao_event_id out)"
      by (auto simp: sealNextAuditCapture_def bindE_Inr_iff liftE_Inr_iff split: if_split_asm option.splits)
    have "outbox_ok db1" by (rule claim_keeps [OF row assms(2)])
    then have low: "lower (cp_id (ob_capture r)) = cp_id (ob_capture r)"
      using r(1) by (auto simp: outbox_ok_def dest!: outbox_invD(2) elim: row_invD)
    from mark_Inr [OF mark] have "is_uuid eid"
      "audit_capture_mark_sealed sess (cp_org (ob_capture r)) (cp_id (ob_capture r)) (lower eid) db2 = Inr db'"
      by (simp_all add: mc out r(5) low)
    then have "sealed_by cr r eid db1 db'"
      unfolding sealed_by_def using c(2) ev app out r(3) by blast
    with row Some r eid res out show ?thesis by (auto simp: mc)
  qed
qed

lemma attemptRecovery_Inr:
  assumes "attemptRecovery sha1 cr now w rnd org cid db = Inr (res, db')" "outbox_ok db"
  shows "res = RecoveredAbsent \<and> db' = db \<or>
    (\<exists>r eid eid'. r \<in> set (ob_rows db) \<and> ob_status r = Sealing \<and> cp_org (ob_capture r) = org \<and>
       cp_id (ob_capture r) = lower cid \<and> deriveAuditSealerCaptureEventId sha1 org cid = Some eid \<and>
       lower eid' = lower eid \<and> res = RecoveredSealed eid' \<and> sealed_by cr r eid' db db')"
proof -
  from assms(1) obtain got where ld: "loadSealingCaptureForRecovery (Some org) org cid db = Inr got"
    by (auto simp: attemptRecovery_def Let_def bindE_Inr_iff)
  show ?thesis
  proof (cases got)
    case None
    with assms(1) ld show ?thesis by (auto simp: attemptRecovery_def Let_def)
  next
    case (Some c)
    with ld obtain r where c: "mapOutboxRowToClaimedAuditCapture r = Inr c"
      and f: "find (\<lambda>r. Some org = Some (cp_org (ob_capture r)) \<and> cp_org (ob_capture r) = lower org \<and>
                       cp_id (ob_capture r) = lower cid \<and> ob_status r = Sealing) (ob_rows db) = Some r"
      by (auto simp: loadSealingCaptureForRecovery_def bindE_Inr_iff split: if_split_asm option.splits)
    then have r: "r \<in> set (ob_rows db)" "cp_org (ob_capture r) = org" "lower org = org"
      "cp_id (ob_capture r) = lower cid" "ob_status r = Sealing"
      by (auto simp: find_Some_iff)
    from assms(1) ld Some obtain ev eid out db1 where
      ev: "buildAuditCaptureSealingEvent c (Some w) now = Inr ev"
      and eid: "deriveAuditSealerCaptureEventId sha1 org cid = Some eid"
      and app: "auditAppend cr (Some org) rnd rnd (ev\<lparr> ai_event_id := Some eid \<rparr>) db = Inr (out, db1)"
      and mark: "markAuditCaptureSealed (Some org) org (cl_chain c) cid (ao_event_id out) db1 = Inr db'"
      and res: "res = RecoveredSealed (ao_event_id out)"
      by (auto simp: attemptRecovery_def Let_def bindE_Inr_iff liftE_Inr_iff split: option.splits)
    from append_leaves_record [OF app] have "lower (ao_event_id out) = lower eid" by auto
    moreover from mark_Inr [OF mark] have "is_uuid (ao_event_id out)"
      "audit_capture_mark_sealed (Some org) org (cp_id (ob_capture r)) (lower (ao_event_id out)) db1 = Inr db'"
      by (simp_all add: r)
    ultimately have "sealed_by cr r (ao_event_id out) db db'"
      unfolding sealed_by_def r(2) using c ev app by metis
    with r eid res \<open>lower (ao_event_id out) = lower eid\<close> show ?thesis by blast
  qed
qed

section \<open>The system of captures and events\<close>

text \<open>
  Who changes the tables: the request path captures events and appends to the audit chain, the
  runner seals and recovers. A claim may also be committed alone (the state a runner that stops
  between its phases would leave), and a capture may be marked failed. Only the sealer writes the
  property \<open>audit_sealer\<close> of a redaction record (\<open>buildAuditCaptureSealingEvent\<close> is its only writer
  in the repository), so what the request path appends carries no capture id.
\<close>

inductive sys_step :: "(string \<Rightarrow> int option) \<Rightarrow> (bytes \<Rightarrow> bytes) \<Rightarrow> crypto \<Rightarrow> outbox_db \<Rightarrow> outbox_db \<Rightarrow> bool"
  for pg_ts sha1 cr where
  sys_capture: "captureAuditEvent pg_ts sess i db = Inr (out, db') \<Longrightarrow> sys_step pg_ts sha1 cr db db'"
| sys_append: "auditAppend cr sess re rp j db = Inr (o', db') \<Longrightarrow> readSealerCaptureId (to_jsonb (ai_redaction j)) = None \<Longrightarrow>
    sys_step pg_ts sha1 cr db db'"
| sys_claim: "audit_capture_claim_for_seal sess now org chain db = Inr (row, db') \<Longrightarrow> sys_step pg_ts sha1 cr db db'"
| sys_seal: "sealNextAuditCapture sha1 cr sess now w rnd org chain db = Inr (res, db') \<Longrightarrow> sys_step pg_ts sha1 cr db db'"
| sys_recover: "attemptRecovery sha1 cr t w rnd org cid db = Inr (r, db') \<Longrightarrow> sys_step pg_ts sha1 cr db db'"
| sys_fail: "markAuditCaptureFailed dots sess org cid err ec em db = Inr db' \<Longrightarrow> sys_step pg_ts sha1 cr db db'"

text \<open>Every sealed row has its event in the audit chain.\<close>

definition row_evidence :: "audit_event list \<Rightarrow> outbox_row \<Rightarrow> bool" where
  "row_evidence evs r = (case ob_event r of None \<Rightarrow> True
     | Some eid \<Rightarrow> list_ex (\<lambda>e. ev_id e = eid \<and> evidence_for (ob_capture r) e) evs)"

text \<open>And every event that carries a capture id is the event of a sealed row with that capture.\<close>

definition stamped :: "outbox_row list \<Rightarrow> audit_event \<Rightarrow> bool" where
  "stamped rows e = (case readSealerCaptureId (ev_redaction e) of None \<Rightarrow> True
     | Some cid \<Rightarrow> list_ex (\<lambda>r. cp_id (ob_capture r) = cid \<and> ob_event r = Some (ev_id e)) rows)"

definition sys_ok :: "crypto \<Rightarrow> outbox_db \<Rightarrow> bool" where
  "sys_ok cr db = (store_ok cr db \<and> outbox_ok db \<and> list_all (row_evidence (db_events db)) (ob_rows db) \<and>
     list_all (stamped (ob_rows db)) (db_events db))"

definition sys_empty :: "outbox_db \<Rightarrow> bool" where
  "sys_empty db = (empty_store db \<and> outbox_empty db)"

lemma row_evidence_mono: "set evs \<subseteq> set evs' \<Longrightarrow> row_evidence evs r \<Longrightarrow> row_evidence evs' r"
  by (auto simp: row_evidence_def list_ex_iff split: option.splits)

lemma chain_rows_cong: "db_events db' = db_events db \<Longrightarrow> chain_rows s c db' = chain_rows s c db"
  by (simp add: chain_rows_def)

lemma evidence_kept:
  assumes "list_all (row_evidence evs) rows" "set evs \<subseteq> set evs'"
    and "\<And>r. r \<in> set rows' \<Longrightarrow> ob_event r = None \<or> (\<exists>q \<in> set rows. ob_event q = ob_event r \<and> ob_capture q = ob_capture r)"
  shows "list_all (row_evidence evs') rows'"
proof -
  have "row_evidence evs' r" if "r \<in> set rows'" for r
    using assms(3) [OF that]
  proof
    assume "\<exists>q \<in> set rows. ob_event q = ob_event r \<and> ob_capture q = ob_capture r"
    then obtain q where "q \<in> set rows" "ob_event q = ob_event r" "ob_capture q = ob_capture r" by blast
    moreover from this assms(1,2) have "row_evidence evs' q" by (auto simp: list_all_iff intro: row_evidence_mono)
    ultimately show ?thesis by (cases "ob_event r") (simp_all add: row_evidence_def)
  qed (simp add: row_evidence_def)
  then show ?thesis by (simp add: list_all_iff)
qed

lemma stamped_kept:
  assumes "list_all (stamped rows) evs" "\<And>e. e \<in> set evs' \<Longrightarrow> e \<in> set evs \<or> readSealerCaptureId (ev_redaction e) = None"
    and "\<And>q. q \<in> set rows \<Longrightarrow> ob_event q \<noteq> None \<Longrightarrow> \<exists>r \<in> set rows'. ob_event r = ob_event q \<and> ob_capture r = ob_capture q"
  shows "list_all (stamped rows') evs'"
proof -
  have "stamped rows' e" if "e \<in> set evs'" for e
    using assms(2) [OF that]
  proof
    assume "e \<in> set evs"
    with assms(1) have st: "stamped rows e" by (simp add: list_all_iff)
    show ?thesis
    proof (cases "readSealerCaptureId (ev_redaction e)")
      case (Some cid)
      with st obtain q where q: "q \<in> set rows" "cp_id (ob_capture q) = cid" "ob_event q = Some (ev_id e)"
        by (auto simp: stamped_def list_ex_iff)
      with assms(3) [OF q(1)] obtain r where "r \<in> set rows'" "ob_event r = ob_event q" "ob_capture r = ob_capture q" by auto
      with q Some show ?thesis unfolding stamped_def list_ex_iff Some option.case by (intro bexI [of _ r]) simp_all
    qed (simp add: stamped_def)
  qed (simp add: stamped_def)
  then show ?thesis by (simp add: list_all_iff)
qed

lemma sys_ok_frame:
  assumes "sys_ok cr db" "store_ok cr db'" "outbox_ok db'" "set (db_events db) \<subseteq> set (db_events db')"
    and "\<And>r. r \<in> set (ob_rows db') \<Longrightarrow> ob_event r = None \<or>
      (\<exists>q \<in> set (ob_rows db). ob_event q = ob_event r \<and> ob_capture q = ob_capture r)"
    and "\<And>e. e \<in> set (db_events db') \<Longrightarrow> e \<in> set (db_events db) \<or> readSealerCaptureId (ev_redaction e) = None"
    and "\<And>q. q \<in> set (ob_rows db) \<Longrightarrow> ob_event q \<noteq> None \<Longrightarrow>
      \<exists>r \<in> set (ob_rows db'). ob_event r = ob_event q \<and> ob_capture r = ob_capture q"
  shows "sys_ok cr db'"
proof -
  have ev: "list_all (row_evidence (db_events db)) (ob_rows db)" and st: "list_all (stamped (ob_rows db)) (db_events db)"
    using assms(1) by (simp_all add: sys_ok_def)
  have "list_all (row_evidence (db_events db')) (ob_rows db')" by (rule evidence_kept [OF ev assms(4,5)])
  moreover have "list_all (stamped (ob_rows db')) (db_events db')" by (rule stamped_kept [OF st assms(6,7)])
  ultimately show ?thesis using assms(2,3) by (simp add: sys_ok_def)
qed

lemma update_rows_origin:
  assumes "\<And>r. ob_event (f r) = ob_event r" "\<And>r. ob_capture (f r) = ob_capture r" "r \<in> set (update_rows p f rows)"
  shows "\<exists>q \<in> set rows. ob_event q = ob_event r \<and> ob_capture q = ob_capture r"
proof -
  from assms(3) obtain q where "q \<in> set rows" "r = (if p q then f q else q)" by (auto simp: update_rows_set)
  with assms(1,2) show ?thesis by (intro bexI [of _ q]) auto
qed

lemma update_rows_image:
  assumes "\<And>r. ob_event (f r) = ob_event r" "\<And>r. ob_capture (f r) = ob_capture r" "q \<in> set rows"
  shows "\<exists>r \<in> set (update_rows p f rows). ob_event r = ob_event q \<and> ob_capture r = ob_capture q"
proof -
  have "(if p q then f q else q) \<in> set (update_rows p f rows)" using assms(3) by (auto simp: update_rows_set)
  with assms(1,2) show ?thesis by (intro bexI [of _ "if p q then f q else q"]) auto
qed

lemma claim_sys:
  assumes "audit_capture_claim_for_seal sess now org chain db = Inr (row, db')" "sys_ok cr db"
  shows "sys_ok cr db'" "db_events db' = db_events db"
proof -
  have ev: "db_events db' = db_events db" "db_payloads db' = db_payloads db"
    using claim_rows [OF assms(1)] by (elim conjE disjE exE; simp)+
  then show "db_events db' = db_events db" by simp
  have rows: "\<exists>q \<in> set (ob_rows db). ob_event q = ob_event r \<and> ob_capture q = ob_capture r"
    if "r \<in> set (ob_rows db')" for r
    using claim_rows [OF assms(1)]
  proof (elim conjE disjE exE)
    fix s assume db': "db' = db\<lparr> ob_rows := update_rows (claimable sess chain (cs_sealed s + 1))
      (\<lambda>r. r\<lparr> ob_status := Sealing, ob_started := Some now, ob_attempts := ob_attempts r + 1 \<rparr>) (ob_rows db) \<rparr>"
    show ?thesis using that unfolding db' by (intro update_rows_origin) auto
  qed (use that in auto)
  have img: "\<exists>r \<in> set (ob_rows db'). ob_event r = ob_event q \<and> ob_capture r = ob_capture q"
    if "q \<in> set (ob_rows db)" for q
    using claim_rows [OF assms(1)]
  proof (elim conjE disjE exE)
    fix s assume db': "db' = db\<lparr> ob_rows := update_rows (claimable sess chain (cs_sealed s + 1))
      (\<lambda>r. r\<lparr> ob_status := Sealing, ob_started := Some now, ob_attempts := ob_attempts r + 1 \<rparr>) (ob_rows db) \<rparr>"
    show ?thesis using that unfolding db' by simp (intro update_rows_image; simp)
  qed (use that in auto)
  show "sys_ok cr db'"
    by (rule sys_ok_frame [OF assms(2)])
       (use assms(2) claim_keeps [OF assms(1)] rows img in \<open>auto simp: sys_ok_def store_ok_cong [OF ev] ev\<close>)
qed

lemma capture_sys:
  assumes "captureAuditEvent pg_ts sess i db = Inr (out, db')" "sys_ok cr db"
  shows "sys_ok cr db'"
proof -
  obtain cid n where out: "out = (cid, n)" by (cases out)
  from assms(2) have ok: "outbox_ok db" by (simp add: sys_ok_def)
  from assms(1) obtain c where ins: "audit_capture_insert_locked sess c db = Inr ((cid, n), db')"
    and low: "capture_ok c"
    unfolding out by (rule capture_insert)
  define same where "same \<longleftrightarrow> db_events db' = db_events db \<and> db_payloads db' = db_payloads db \<and>
      (ob_rows db' = ob_rows db \<or> (\<exists>row. ob_rows db' = ob_rows db @ [row] \<and> ob_event row = None))"
  from insert_rows [OF ins ok] have same
  proof (elim conjE disjE bexE exE)
    assume eq: "db' = db\<lparr> ob_chains := ob_chains db' \<rparr>"
    have "db_events db' = db_events db" "db_payloads db' = db_payloads db" "ob_rows db' = ob_rows db"
      by (subst eq, simp)+
    then show same by (simp add: same_def)
  qed (simp_all add: same_def)
  then have ev: "db_events db' = db_events db" "db_payloads db' = db_payloads db"
    and rows: "\<And>r. r \<in> set (ob_rows db') \<Longrightarrow> ob_event r = None \<or> r \<in> set (ob_rows db)"
    and kept: "\<And>r. r \<in> set (ob_rows db) \<Longrightarrow> r \<in> set (ob_rows db')"
    by (auto simp: same_def)
  show ?thesis
    by (rule sys_ok_frame [OF assms(2)])
       (use assms(2) insert_keeps [OF ins ok low] rows kept in \<open>auto simp: sys_ok_def store_ok_cong [OF ev] ev\<close>)
qed

text \<open>What an append adds carries the capture id of its record.\<close>

lemma append_new_event:
  assumes "auditAppend cr sess re rp i db = Inr (out, db')" "e \<in> set (db_events db')"
  shows "e \<in> set (db_events db) \<or> readSealerCaptureId (ev_redaction e) = readSealerCaptureId (to_jsonb (ai_redaction i)) \<and>
    ev_id e = lower (ao_event_id out)"
  using assms(1)
proof (cases rule: auditAppend_cases)
  case (fresh row eid pid)
  from fresh(5) have "ev_redaction row = to_jsonb (ai_redaction i)" "ev_id row = lower eid" by (rule event_row_Inr; simp)+
  moreover from fresh(6) have "db_events db' = db_events db @ [row]" by (rule audit_append_lockedE) simp
  ultimately show ?thesis using assms(2) fresh(7) by auto
qed (use assms(2) in simp)

lemma append_sys:
  assumes "auditAppend cr sess re rp i db = Inr (out, db')" "sys_ok cr db" "readSealerCaptureId (to_jsonb (ai_redaction i)) = None"
  shows "sys_ok cr db'"
proof -
  have new: "e \<in> set (db_events db) \<or> readSealerCaptureId (ev_redaction e) = None" if "e \<in> set (db_events db')" for e
    using append_new_event [OF assms(1) that] assms(3) by auto
  show ?thesis
    by (rule sys_ok_frame [OF assms(2) _ _ _ _ new])
       (use assms(2) append_step_ok [OF _ append_step [OF assms(1)]] append_outbox [OF assms(1)]
          append_step_grows [OF append_step [OF assms(1)]] in \<open>auto simp: sys_ok_def outbox_ok_def\<close>)
qed

lemma sealed_by_sys:
  assumes "sealed_by cr row eid db db'" "sys_ok cr db" "row \<in> set (ob_rows db)" "ob_status row = Sealing"
  shows "sys_ok cr db'"
proof -
  from assms(2) have ok: "outbox_ok db" by (simp add: sys_ok_def)
  from sealed_by_effect [OF assms(1) ok assms(3,4)] obtain db1 e sess rnd i out j where
    app: "auditAppend cr sess rnd rnd i db = Inr (out, db1)" and ev: "db_events db1 = db_events db'"
    and j: "ai_event_id i = Some j" "lower j = lower eid"
    and e: "e \<in> set (db_events db')" "ev_id e = lower eid" "evidence_for (ob_capture row) e"
    and rows: "ob_rows db' = map (\<lambda>r. if r = row then r\<lparr> ob_status := Sealed, ob_event := Some (lower eid) \<rparr> else r) (ob_rows db)"
    by blast
  have app_id: "lower (ao_event_id out) = lower eid" using append_leaves_record [OF app] j by auto
  from assms(1) obtain sess' org cid eid' db1' where
    mk: "audit_capture_mark_sealed sess' org cid eid' db1' = Inr db'"
    and app': "\<exists>i rnd out. auditAppend cr sess' rnd rnd i db = Inr (out, db1')"
    unfolding sealed_by_def by blast
  from app' obtain i' rnd' out' where app': "auditAppend cr sess' rnd' rnd' i' db = Inr (out', db1')" by blast
  have "db_events db' = db_events db1'" "db_payloads db' = db_payloads db1'"
    using seal_rows [OF mk] by auto
  then have "store_ok cr db'"
    using append_step_ok [OF _ append_step [OF app']] assms(2) by (simp add: sys_ok_def store_ok_cong [of db' db1'])
  moreover have "outbox_ok db'"
    using ok append_outbox [OF app'] seal_keeps [OF mk] by (simp add: outbox_ok_def)
  moreover have "list_all (row_evidence (db_events db')) (ob_rows db')"
  proof -
    have old: "row_evidence (db_events db') r" if "r \<in> set (ob_rows db)" for r
      using that assms(2) append_step_grows [OF append_step [OF app]]
      by (auto simp: sys_ok_def list_all_iff ev intro: row_evidence_mono)
    have "row_evidence (db_events db') (row\<lparr> ob_status := Sealed, ob_event := Some (lower eid) \<rparr>)"
      using e by (auto simp: row_evidence_def list_ex_iff)
    with old show ?thesis by (auto simp: rows list_all_iff)
  qed
  moreover have "list_all (stamped (ob_rows db')) (db_events db')"
  proof -
    have inv: "outbox_inv (ob_chains db) (ob_rows db) (ob_refs db)" using ok by (simp add: outbox_ok_def)
    have none: "ob_event row = None" using outbox_invD(2) [OF inv assms(3)] assms(4) by (auto elim: row_invD)
    have "stamped (ob_rows db') x" if x: "x \<in> set (db_events db')" for x
    proof (cases "x \<in> set (db_events db)")
      case True
      with assms(2) have "stamped (ob_rows db) x" by (simp add: sys_ok_def list_all_iff)
      with none show ?thesis by (fastforce simp: stamped_def rows list_ex_iff split: option.splits)
    next
      case False
      have "distinct (map ev_id (db_events db'))" using \<open>store_ok cr db'\<close> by (simp add: store_ok_def)
      moreover have "ev_id x = lower eid" using append_new_event [OF app, of x] False x ev app_id by auto
      ultimately have "x = e" using inj_onD [of ev_id "set (db_events db')" x e] e(1,2) x by (simp add: distinct_map)
      with e(2,3) assms(3) show ?thesis by (auto simp: stamped_def evidence_for_def rows list_ex_iff)
    qed
    then show ?thesis by (simp add: list_all_iff)
  qed
  ultimately show ?thesis by (simp add: sys_ok_def)
qed

lemma fail_sys:
  assumes "markAuditCaptureFailed dots sess org cid err ec em db = Inr db'" "sys_ok cr db"
  shows "sys_ok cr db'"
proof -
  from assms(1) obtain o' c' cls msg where
    f: "audit_capture_mark_failed sess o' c' cls msg db = Inr db'"
    by (auto simp: markAuditCaptureFailed_def liftE_Inr_iff split: if_split_asm prod.splits)
  from fail_rows [OF f] obtain p g where
    db': "db' = db\<lparr> ob_rows := update_rows p g (ob_rows db) \<rparr>"
    and g: "\<And>r. ob_event (g r) = ob_event r" "\<And>r. ob_capture (g r) = ob_capture r"
    by (auto simp del: append.simps take_Suc_Cons)
  have ev: "db_events db' = db_events db" "db_payloads db' = db_payloads db" by (simp_all add: db')
  have rows: "\<exists>q \<in> set (ob_rows db). ob_event q = ob_event r \<and> ob_capture q = ob_capture r"
    if "r \<in> set (ob_rows db')" for r
    using that unfolding db' by (intro update_rows_origin [OF g]) simp
  have img: "\<exists>r \<in> set (ob_rows db'). ob_event r = ob_event q \<and> ob_capture r = ob_capture q"
    if "q \<in> set (ob_rows db)" for q
    using that unfolding db' by simp (intro update_rows_image [OF g])
  show ?thesis
    by (rule sys_ok_frame [OF assms(2)])
       (use assms(2) fail_keeps [OF f] rows img in \<open>auto simp: sys_ok_def store_ok_cong [OF ev] ev\<close>)
qed

lemma sys_step_ok:
  assumes "sys_ok cr db" "sys_step pg_ts sha1 cr db db'"
  shows "sys_ok cr db'"
  using assms(2)
proof cases
  case (sys_seal sess now w rnd org chain res)
  have "outbox_ok db" using assms(1) by (simp add: sys_ok_def)
  from sealNext_Inr [OF sys_seal this] obtain row db1 where
    cl: "audit_capture_claim_for_seal sess now (lower org) chain db = Inr (row, db1)"
    and alt: "case row of None \<Rightarrow> res = Idle \<and> db' = db1
       | Some r \<Rightarrow> r \<in> set (ob_rows db1) \<and> ob_status r = Sealing \<and> (\<exists>eid. sealed_by cr r eid db1 db')"
    by (auto split: option.splits) blast
  from claim_sys(1) [OF cl assms(1)] alt show ?thesis
    by (auto split: option.splits intro: sealed_by_sys)
next
  case (sys_recover t w rnd org cid r)
  have "outbox_ok db" using assms(1) by (simp add: sys_ok_def)
  from attemptRecovery_Inr [OF sys_recover this] show ?thesis
    using assms(1) by (auto intro: sealed_by_sys)
qed (use assms(1) in \<open>auto intro: capture_sys append_sys claim_sys fail_sys\<close>)

lemma sys_empty_ok: "sys_empty db \<Longrightarrow> sys_ok cr db"
  by (simp add: sys_empty_def sys_ok_def empty_store_ok outbox_empty_ok) (simp add: outbox_empty_def empty_store_def)

interpretation sealing: kept_invariant sys_empty "sys_step pg_ts sha1 cr" "sys_ok cr" for pg_ts sha1 cr
  by unfold_locales (auto intro: sys_empty_ok sys_step_ok)

section \<open>Properties\<close>

definition demo_sha1 :: "bytes \<Rightarrow> bytes" where
  "demo_sha1 b = take 20 (drop 30 b)"

definition demo_seal :: "sealer_error + seal_result \<times> outbox_db" where
  "demo_seal = sealNextAuditCapture demo_sha1 demo_cr (Some demo_org) 1767225601000 (Some ''w'') [] demo_org ''c'' demo_ob1"

definition demo_ob2 :: outbox_db where
  "demo_ob2 = (case demo_seal of Inl e \<Rightarrow> demo_ob1 | Inr (r, d) \<Rightarrow> d)"

lemma demo_seal_eval:
  "(case demo_seal of Inr (SealedOne ch cid q eid, d) \<Rightarrow> ch = ''c'' \<and> q = ''1'' \<and> map ob_status (ob_rows d) = [Sealed]
     | _ \<Rightarrow> False)"
  by code_simp

lemma demo_seal_run:
  obtains cid eid where "sealNextAuditCapture demo_sha1 demo_cr (Some demo_org) 1767225601000 (Some ''w'') [] demo_org ''c'' demo_ob1
     = Inr (SealedOne ''c'' cid ''1'' eid, demo_ob2)"
    "map ob_status (ob_rows demo_ob2) = [Sealed]"
proof (cases demo_seal)
  case (Inr p)
  obtain res d where p: "p = (res, d)" by (cases p)
  from demo_seal_eval Inr p show thesis
    by (cases res) (auto simp: demo_ob2_def demo_seal_def intro: that)
next
  case (Inl a)
  from demo_seal_eval [unfolded Inl sum.case] show thesis ..
qed

lemma demo_sys_reach1: "reach sys_empty (sys_step (\<lambda>_. None) demo_sha1 demo_cr) demo_ob1"
proof -
  have "reach sys_empty (sys_step (\<lambda>_. None) demo_sha1 demo_cr) demo_ob0"
    by (rule reach_init) (simp add: sys_empty_def empty_store_def outbox_empty_def demo_ob0_def)
  from reach_step [OF this sys_capture [OF demo_call1]] show ?thesis .
qed

lemma demo_sys_reach2: "reach sys_empty (sys_step (\<lambda>_. None) demo_sha1 demo_cr) demo_ob2"
proof -
  obtain cid eid where "sealNextAuditCapture demo_sha1 demo_cr (Some demo_org) 1767225601000 (Some ''w'') [] demo_org ''c'' demo_ob1
     = Inr (SealedOne ''c'' cid ''1'' eid, demo_ob2)" by (rule demo_seal_run)
  from reach_step [OF demo_sys_reach1 sys_seal [OF this]] show ?thesis .
qed

text \<open>
  C1. In every reachable state, whatever the interleaving of captures, appends, claims, seals,
  recoveries and failures: of a sealed capture the audit log holds exactly one event that carries
  its capture id, it is the event the outbox row names, it has the capture's organization,
  category chain, type, subject, payload hash and key, and the mapping table gives it to this
  capture and to no other; of a capture that is not sealed the audit log holds no event that
  carries its capture id.
\<close>

theorem sealed_capture_has_its_event:
  assumes "reach sys_empty (sys_step pg_ts sha1 cr) db" and "r \<in> set (ob_rows db)"
  shows "if ob_status r = Sealed
    then \<exists>e. filter (\<lambda>x. readSealerCaptureId (ev_redaction x) = Some (cp_id (ob_capture r))) (db_events db) = [e] \<and>
      ob_event r = Some (ev_id e) \<and> evidence_for (ob_capture r) e \<and>
      map (\<lambda>f. (rf_org f, rf_capture f)) (filter (\<lambda>f. rf_event f = ev_id e) (ob_refs db)) =
        [(cp_org (ob_capture r), cp_id (ob_capture r))]
    else filter (\<lambda>x. readSealerCaptureId (ev_redaction x) = Some (cp_id (ob_capture r))) (db_events db) = []"
proof -
  have ok: "sys_ok cr db" by (rule sealing.inv_reach [OF assms(1)])
  then have inv: "outbox_inv (ob_chains db) (ob_rows db) (ob_refs db)" by (simp add: sys_ok_def outbox_ok_def)
  have own: "ob_event r = Some (ev_id x)"
    if "x \<in> set (db_events db)" "readSealerCaptureId (ev_redaction x) = Some (cp_id (ob_capture r))" for x
  proof -
    from ok that(1) have "stamped (ob_rows db) x" by (simp add: sys_ok_def list_all_iff)
    with that(2) obtain q where "q \<in> set (ob_rows db)" "cp_id (ob_capture q) = cp_id (ob_capture r)" "ob_event q = Some (ev_id x)"
      by (auto simp: stamped_def list_ex_iff)
    with same_row [OF outbox_invD(1) [OF inv] _ assms(2)] show ?thesis by auto
  qed
  show ?thesis
  proof (cases "ob_status r = Sealed")
    case False
    then have "ob_event r = None" using outbox_invD(2) [OF inv assms(2)] by (auto elim: row_invD)
    with own False show ?thesis by (auto simp: filter_empty_conv)
  next
    case True
    from outbox_invD(2) [OF inv assms(2)] True obtain eid where eid: "ob_event r = Some eid"
      by (auto elim: row_invD)
    from ok assms(2) have "row_evidence (db_events db) r" by (simp add: sys_ok_def list_all_iff)
    with eid obtain e where e: "e \<in> set (db_events db)" "ev_id e = eid" "evidence_for (ob_capture r) e"
      by (auto simp: row_evidence_def list_ex_iff)
    have dist: "distinct (map ev_id (db_events db))" using ok by (simp add: sys_ok_def store_ok_def)
    have same: "readSealerCaptureId (ev_redaction x) = Some (cp_id (ob_capture r)) \<longleftrightarrow> x = e" if "x \<in> set (db_events db)" for x
    proof
      assume "readSealerCaptureId (ev_redaction x) = Some (cp_id (ob_capture r))"
      with own [OF that] eid e(2) have "ev_id x = ev_id e" by simp
      with dist that e(1) show "x = e" by (auto simp: distinct_map dest: inj_onD)
    qed (use e(3) in \<open>simp add: evidence_for_def\<close>)
    have one: "filter (\<lambda>x. x = e) (db_events db) = [e]"
      using e(1) distinct_mapI [OF dist] by (rule filter_one)
    have "filter (\<lambda>x. readSealerCaptureId (ev_redaction x) = Some (cp_id (ob_capture r))) (db_events db) = filter (\<lambda>x. x = e) (db_events db)"
      by (rule filter_cong [OF refl]) (rule same)
    with one have ev1: "filter (\<lambda>x. readSealerCaptureId (ev_redaction x) = Some (cp_id (ob_capture r))) (db_events db) = [e]" by simp
    let ?f = "\<lparr> rf_org = cp_org (ob_capture r), rf_capture = cp_id (ob_capture r), rf_event = eid \<rparr>"
    have ref: "f \<in> set (ob_refs db) \<longleftrightarrow> (\<exists>r \<in> set (ob_rows db). ob_event r = Some (rf_event f) \<and>
          rf_capture f = cp_id (ob_capture r) \<and> rf_org f = cp_org (ob_capture r))" for f
      using outbox_invD(4) [OF inv] by (simp add: refs_inv_def)
    have mem: "?f \<in> set (ob_refs db)" using assms(2) eid by (subst ref) auto
    have distf: "distinct (map rf_event (ob_refs db))" using outbox_invD(4) [OF inv] by (simp add: refs_inv_def)
    have "filter (\<lambda>f. rf_event f = eid) (ob_refs db) = filter (\<lambda>f. f = ?f) (ob_refs db)"
    proof (rule filter_cong [OF refl])
      fix f assume "f \<in> set (ob_refs db)"
      with distf mem have "rf_event f = rf_event ?f \<Longrightarrow> f = ?f" unfolding distinct_map by (blast dest: inj_onD)
      then show "rf_event f = eid \<longleftrightarrow> f = ?f" by auto
    qed
    moreover have "filter (\<lambda>f. f = ?f) (ob_refs db) = [?f]" using mem distinct_mapI [OF distf] by (rule filter_one)
    ultimately show ?thesis using True ev1 eid e by (intro if_P [THEN iffD2] exI [of _ e]) simp_all
  qed
qed

theorem sealed_capture_has_its_event_witness:
  "\<exists>r e. ob_rows demo_ob2 = [r] \<and> evidence_for (ob_capture r) e \<and>
    filter (\<lambda>x. readSealerCaptureId (ev_redaction x) = Some (cp_id (ob_capture r))) (db_events demo_ob2) = [e]"
proof -
  obtain r where r: "ob_rows demo_ob2 = [r]" "ob_status r = Sealed"
    by (rule demo_seal_run) (auto simp: map_eq_Cons_conv)
  from sealed_capture_has_its_event [OF demo_sys_reach2, of r] r show ?thesis by auto
qed

text \<open>
  One seal: the claimed capture is the next of its chain; when the call returns, exactly
  that row has become sealed, the chain's counter has advanced by one, and the audit chain has
  either grown by exactly one event or already held it.
\<close>

theorem seal_advances_by_one:
  assumes "reach sys_empty (sys_step pg_ts sha1 cr) db"
    and "sealNextAuditCapture sha1 cr sess now w rnd org chain db = Inr (SealedOne ch cid q eid, db')"
  shows "\<exists>s s'. ob_chains db chain = Some s \<and> ob_chains db' chain = Some s' \<and> cs_sealed s' = cs_sealed s + 1 \<and>
    q = dec_of (nat (cs_sealed s + 1)) \<and>
    map ob_status (ob_rows db') = map (\<lambda>r. if cp_id (ob_capture r) = cid then Sealed else ob_status r) (ob_rows db) \<and>
    (db_events db' = db_events db \<or> (\<exists>e. db_events db' = db_events db @ [e] \<and> ev_id e = lower eid))"
proof -
  have ok: "sys_ok cr db" by (rule sealing.inv_reach [OF assms(1)])
  then have oo: "outbox_ok db" by (simp add: sys_ok_def)
  from sealNext_Inr [OF assms(2) oo] obtain r db1 where
    cl: "audit_capture_claim_for_seal sess now (lower org) chain db = Inr (Some r, db1)"
    and r: "r \<in> set (ob_rows db1)" "ob_status r = Sealing" "cp_chain (ob_capture r) = chain"
    and sb: "sealed_by cr r eid db1 db'" and res: "ch = cp_chain (ob_capture r)" "cid = cp_id (ob_capture r)"
      "q = dec_of (nat (ob_seq r))"
    by (auto split: option.splits)
  have ok1: "sys_ok cr db1" "db_events db1 = db_events db" by (rule claim_sys [OF cl ok])+
  then have oo1: "outbox_ok db1" by (simp add: sys_ok_def)
  from sealed_by_effect [OF sb oo1 r(1,2)] obtain db2 s sess' rnd' i out j where
    ev: "db_events db2 = db_events db'" and app: "auditAppend cr sess' rnd' rnd' i db1 = Inr (out, db2)"
    and j: "ai_event_id i = Some j" "lower j = lower eid"
    and s: "ob_chains db1 chain = Some s" "cs_sealed s + 1 = ob_seq r"
    and ch: "ob_chains db' = (ob_chains db1)(chain \<mapsto> s\<lparr> cs_sealed := ob_seq r \<rparr>)"
    and rows: "ob_rows db' = map (\<lambda>x. if x = r then x\<lparr> ob_status := Sealed, ob_event := Some (lower eid) \<rparr> else x) (ob_rows db1)"
    unfolding r(3) by blast
  define f where "f = (\<lambda>r :: outbox_row. r\<lparr> ob_status := Sealing, ob_started := Some now, ob_attempts := ob_attempts r + 1 \<rparr>)"
  from claim_rows [OF cl] s(1) have chains: "ob_chains db1 = ob_chains db"
    and rows1: "ob_rows db1 = update_rows (claimable sess chain (cs_sealed s + 1)) f (ob_rows db)"
    by (auto simp: f_def)
  from oo1 have inv1: "outbox_inv (ob_chains db1) (ob_rows db1) (ob_refs db1)" by (simp add: outbox_ok_def)
  have claimed: "cp_id (ob_capture x) = cid" if "x \<in> set (ob_rows db)" "claimable sess chain (cs_sealed s + 1) x" for x
  proof -
    have "f x \<in> set (ob_rows db1)" using that by (auto simp: rows1 update_rows_def)
    with same_seq [OF outbox_invD(3) [OF inv1 s(1)] _ r(1)] that(2) r(3) s(2) have "f x = r"
      by (auto simp: claimable_def f_def)
    then show ?thesis using res(2) by (auto simp: f_def)
  qed
  have "map ob_status (ob_rows db') = map (\<lambda>x. if cp_id (ob_capture x) = cid then Sealed else ob_status x) (ob_rows db1)"
    unfolding rows map_map res(2) by (rule map_cong [OF refl]) (use same_row [OF outbox_invD(1) [OF inv1] _ r(1)] in auto)
  also have "\<dots> = map (\<lambda>x. if cp_id (ob_capture x) = cid then Sealed else ob_status x) (ob_rows db)"
    unfolding rows1 update_rows_def map_map by (rule map_cong [OF refl]) (use claimed in \<open>auto simp: f_def\<close>)
  finally have st: "map ob_status (ob_rows db') = map (\<lambda>x. if cp_id (ob_capture x) = cid then Sealed else ob_status x) (ob_rows db)" .
  have "db_events db2 = db_events db1 \<or> (\<exists>e. db_events db2 = db_events db1 @ [e] \<and> ev_id e = lower eid)"
    using app
  proof (cases rule: auditAppend_cases)
    case (fresh row eid' pid)
    have "store_ok cr db1" using ok1 by (simp add: sys_ok_def)
    note ins = store_ok_insert(4) [OF this fresh(1,5,6)]
    from fresh(5) have "ev_id row = lower eid'" by (rule event_row_Inr) simp
    with ins fresh(3) j show ?thesis by simp
  qed simp
  then have "db_events db' = db_events db \<or> (\<exists>e. db_events db' = db_events db @ [e] \<and> ev_id e = lower eid)"
    by (simp add: ev ok1)
  with st s ch chains res(3) show ?thesis
    by (intro exI [of _ s] exI [of _ "s\<lparr> cs_sealed := ob_seq r \<rparr>"]) auto
qed

theorem seal_advances_by_one_witness:
  "\<exists>s'. ob_chains demo_ob2 ''c'' = Some s' \<and> cs_sealed s' = 1"
proof -
  obtain cid eid where run: "sealNextAuditCapture demo_sha1 demo_cr (Some demo_org) 1767225601000 (Some ''w'') [] demo_org ''c'' demo_ob1
     = Inr (SealedOne ''c'' cid ''1'' eid, demo_ob2)" by (rule demo_seal_run)
  obtain s where "ob_chains demo_ob1 ''c'' = Some s" "cs_sealed s = 0" by (rule demo_ob1_state)
  with seal_advances_by_one [OF demo_sys_reach1 run] show ?thesis by auto
qed

text \<open>A capture is marked sealed when its row is being sealed and no mapping names it or its event.\<close>

lemma mark_succeeds:
  assumes ok: "outbox_ok db" and r: "r \<in> set (ob_rows db)" "ob_status r = Sealing"
    and free: "\<And>q. q \<in> set (ob_rows db) \<Longrightarrow> ob_event q \<noteq> Some eid" and org: "cp_org (ob_capture r) \<noteq> []"
  obtains db' where "audit_capture_mark_sealed (Some (cp_org (ob_capture r))) (cp_org (ob_capture r)) (cp_id (ob_capture r)) eid db = Inr db'"
    "db_events db' = db_events db" "db_payloads db' = db_payloads db"
    "ob_rows db' = map (\<lambda>q. if q = r then q\<lparr> ob_status := Sealed, ob_event := Some eid \<rparr> else q) (ob_rows db)"
proof -
  let ?org = "cp_org (ob_capture r)" and ?cid = "cp_id (ob_capture r)"
  have inv: "outbox_inv (ob_chains db) (ob_rows db) (ob_refs db)" using ok by (simp add: outbox_ok_def)
  obtain s where s: "ob_chains db (cp_chain (ob_capture r)) = Some s" "cs_org s = ?org"
    "ob_seq r = cs_sealed s + 1" "ob_event r = None"
    by (rule row_invD [OF outbox_invD(2) [OF inv r(1)]]) (use r(2) in simp)
  have one: "has_capture (Some ?org) ?cid q \<longleftrightarrow> q = r" if "q \<in> set (ob_rows db)" for q
    using same_row [OF outbox_invD(1) [OF inv] that r(1)] by (auto simp: has_capture_def)
  have "find (has_capture (Some ?org) ?cid) (ob_rows db) \<noteq> None" using one r(1) by (auto simp: find_None_iff)
  then obtain q where q: "find (has_capture (Some ?org) ?cid) (ob_rows db) = Some q" by blast
  with one have f: "find (has_capture (Some ?org) ?cid) (ob_rows db) = Some r" by (auto simp: find_Some_iff)
  have ref: "\<exists>q \<in> set (ob_rows db). ob_event q = Some (rf_event f) \<and> rf_capture f = cp_id (ob_capture q)" if "f \<in> set (ob_refs db)" for f
    using outbox_invD(4) [OF inv] that by (auto simp: refs_inv_def)
  have none: "\<not> (rf_capture f = ?cid \<or> rf_event f = eid)" if "f \<in> set (ob_refs db)" for f
  proof -
    from ref [OF that] obtain q where q: "q \<in> set (ob_rows db)" "ob_event q = Some (rf_event f)" "rf_capture f = cp_id (ob_capture q)" by blast
    from same_row [OF outbox_invD(1) [OF inv] q(1) r(1)] q s(4) free [OF q(1)] show ?thesis by auto
  qed
  have rows: "update_rows (has_capture (Some ?org) ?cid) f (ob_rows db) = map (\<lambda>q. if q = r then f q else q) (ob_rows db)" for f
    unfolding update_rows_def by (rule map_cong [OF refl]) (simp add: one)
  have "\<not> list_ex (\<lambda>f. rf_capture f = ?cid \<or> rf_event f = eid) (ob_refs db)" using none by (auto simp: list_ex_iff)
  then have "audit_capture_mark_sealed (Some ?org) ?org ?cid eid db = Inr (db\<lparr>
      ob_refs := ob_refs db @ [\<lparr> rf_org = ?org, rf_capture = ?cid, rf_event = eid \<rparr>],
      ob_rows := map (\<lambda>q. if q = r then q\<lparr> ob_status := Sealed, ob_event := Some eid \<rparr> else q) (ob_rows db),
      ob_chains := (ob_chains db)(cp_chain (ob_capture r) \<mapsto> s\<lparr> cs_sealed := ob_seq r \<rparr>) \<rparr>)"
    using f s r(2) org by (simp add: audit_capture_mark_sealed_def own_session_def rows)
  then show thesis by (rule that) simp_all
qed

lemma given_id:
  assumes "auditAppend cr sess re rp i db = Inr (out, db')" "ai_event_id i = Some eid"
  shows "is_uuid eid"
  using assms by (auto simp: auditAppend_def split: if_split_asm)

lemma lower_hex: "is_hex_char c \<Longrightarrow> is_hex_char (lower_char c)"
proof -
  have "list_all (\<lambda>c. is_hex_char (lower_char c)) ''0123456789abcdefABCDEF''" by code_simp
  then show "is_hex_char c \<Longrightarrow> is_hex_char (lower_char c)" unfolding list_all_iff is_hex_char_def [of c] by blast
qed

lemma lower_dash: "lower_char CHR ''-'' = CHR ''-''"
  by code_simp

lemma is_uuid_lower:
  assumes "is_uuid s"
  shows "is_uuid (lower s)"
proof -
  have "if i \<in> set [8, 13, 18, 23] then s ! i = CHR ''-'' else is_hex_char (s ! i)" if "i < 36" for i
    using assms that by (auto simp: is_uuid_def list_all_length)
  then show ?thesis
    using assms by (auto simp: is_uuid_def list_all_length lower_def lower_hex lower_dash)
qed

lemma find_unique: "r \<in> set xs \<Longrightarrow> (\<And>x. x \<in> set xs \<Longrightarrow> P x \<longleftrightarrow> x = r) \<Longrightarrow> find P xs = Some r"
  by (induction xs) auto

text \<open>Two builds of one capture's event differ only in time and worker, which the reuse check leaves out.\<close>

lemma rebuilt_matches:
  assumes "buildAuditCaptureSealingEvent c w now = Inr ev" "assertExistingEventMatches (ev\<lparr> ai_event_id := i \<rparr>) e = Inr ()"
  shows "\<exists>ev'. buildAuditCaptureSealingEvent c w' (Some t) = Inr ev' \<and>
    assertExistingEventMatches (ev'\<lparr> ai_event_id := j \<rparr>) e = Inr () \<and> ai_org ev' = cl_org c"
proof -
  have nb: "\<not> list_ex (\<lambda>k. k \<in> set (top_keys (cl_redaction c))) ALL_BANNED_REDACTION_KEYS"
    using assms(1) by (simp add: buildAuditCaptureSealingEvent_def split: if_split_asm)
  then obtain ev' where ev': "buildAuditCaptureSealingEvent c w' (Some t) = Inr ev'"
    by (auto simp: buildAuditCaptureSealingEvent_def)
  have evd: "evidence_of ev' = evidence_of ev"
    using assms(1) ev' nb by (cases now) (auto simp: buildAuditCaptureSealingEvent_def evidence_of_def)
  have evs: "evidence_of (ev\<lparr> ai_event_id := i \<rparr>) = evidence_of ev'" "evidence_of (ev'\<lparr> ai_event_id := j \<rparr>) = evidence_of ev'"
    using evd by (simp_all add: evidence_of_def)
  have "assertExistingEventMatches (ev'\<lparr> ai_event_id := j \<rparr>) e = assertExistingEventMatches (ev\<lparr> ai_event_id := i \<rparr>) e"
    by (simp add: assertExistingEventMatches_def evs build_Inr [OF assms(1)] build_Inr [OF ev'] cong: if_cong)
  with assms(2) have "assertExistingEventMatches (ev'\<lparr> ai_event_id := j \<rparr>) e = Inr ()" by simp
  with ev' build_Inr [OF ev'] show ?thesis by blast
qed

text \<open>
  C6. A seal or a recovery whose append has committed but which stopped before it marked its row is
  completed from the event it left. In any reachable state, let \<open>r\<close> be a row that is being sealed,
  and let the append of its event under its deterministic id have returned. Then a recovery of the
  capture, by any worker, at any time, with any key service, even one that fails on every call,
  succeeds, names that same event, adds no event and no payload, and marks \<open>r\<close>, and no other row,
  as sealed with it.
\<close>

theorem recovery_never_duplicates:
  assumes "reach sys_empty (sys_step pg_ts sha1 cr) db" and r: "r \<in> set (ob_rows db)" "ob_status r = Sealing"
    and c: "mapOutboxRowToClaimedAuditCapture r = Inr c" and ev: "buildAuditCaptureSealingEvent c w now = Inr ev"
    and eid: "deriveAuditSealerCaptureEventId sha1 (cp_org (ob_capture r)) (cp_id (ob_capture r)) = Some eid"
    and app: "auditAppend cr (Some (cp_org (ob_capture r))) rnd rnd' (ev\<lparr> ai_event_id := Some eid \<rparr>) db = Inr (out, db1)"
  shows "\<exists>db2. attemptRecovery sha1 cr' (Some t) w' rnd'' (cp_org (ob_capture r)) (cp_id (ob_capture r)) db1 =
      Inr (RecoveredSealed (lower (ao_event_id out)), db2) \<and>
    db_events db2 = db_events db1 \<and> db_payloads db2 = db_payloads db1 \<and>
    ob_rows db2 = map (\<lambda>q. if q = r then q\<lparr> ob_status := Sealed, ob_event := Some (lower (ao_event_id out)) \<rparr> else q) (ob_rows db1)"
proof -
  let ?org = "cp_org (ob_capture r)" and ?cid = "cp_id (ob_capture r)" and ?i = "ev\<lparr> ai_event_id := Some eid \<rparr>"
  have ok: "sys_ok cr db" by (rule sealing.inv_reach [OF assms(1)])
  then have st: "store_ok cr db" and oo: "outbox_ok db" by (simp_all add: sys_ok_def)
  note o = append_outbox [OF app]
  have oo1: "outbox_ok db1" using oo o by (simp add: outbox_ok_def)
  have inv: "outbox_inv (ob_chains db) (ob_rows db) (ob_refs db)" using oo by (simp add: outbox_ok_def)
  have st1: "store_ok cr db1" by (rule append_step_ok [OF st append_step [OF app]])
  have "capture_ok (ob_capture r)" by (rule row_invD [OF outbox_invD(2) [OF inv r(1)]])
  then have cap: "lower ?cid = ?cid" "lower (cp_subject_id (ob_capture r)) = cp_subject_id (ob_capture r)"
    "cp_chain (ob_capture r) \<noteq> []" and fresh_org: "lower ?org = ?org" by (simp_all add: capture_ok_def)
  note mc = map_row_Inr [OF c] and bd = build_Inr [OF ev]
  have uu: "is_uuid ?org" "is_uuid ?cid" using eid by (auto simp: deriveAuditSealerCaptureEventId_def split: if_split_asm)
  obtain e where e: "e \<in> set (db_events db1)" "visible (Some ?org) e" "ev_id e = lower eid" "assertExistingEventMatches ?i e = Inr ()"
    by (rule accepted_row [OF app]) (use bd mc cap capture_id_stored [OF bd(12)] in auto)
  have id: "lower (ao_event_id out) = lower eid" using append_leaves_record [OF app] by auto
  from uu(1) e have org: "ev_org e = ?org" "?org \<noteq> []" by (auto simp: visible_def is_uuid_def)
  from rebuilt_matches [OF ev e(4), of "Some w'" t "Some eid"] obtain ev' where
    ev': "buildAuditCaptureSealingEvent c (Some w') (Some t) = Inr ev'" "assertExistingEventMatches (ev'\<lparr> ai_event_id := Some eid \<rparr>) e = Inr ()"
      "ai_org ev' = cl_org c" by blast
  have uid: "is_uuid eid" "is_uuid (ev_id e)" "lower (ev_id e) = ev_id e"
    using given_id [OF app] e(3) by (auto simp: lower_idem is_uuid_lower)
  have find: "findExistingEventById (Some ?org) eid db1 = Some e"
    by (rule find_existing) (use st1 e in \<open>simp_all add: store_ok_def\<close>)
  have again: "auditAppend cr' (Some ?org) rnd'' rnd'' (ev'\<lparr> ai_event_id := Some eid \<rparr>) db1 = Inr (existingEventToOutput e, db1)"
    using ev'(2,3) mc(2) org(2) uid(1) find by (simp add: auditAppend_def)
  have stamp: "readSealerCaptureId (ev_redaction e) = Some ?cid"
    using e(4) bd(12) mc(1) by (auto simp: assertExistingEventMatches_def split: if_split_asm)
  have free: "ob_event q \<noteq> Some (ev_id e)" if q: "q \<in> set (ob_rows db1)" for q
  proof -
    show "ob_event q \<noteq> Some (ev_id e)"
    proof
      assume a: "ob_event q = Some (ev_id e)"
      from q o have q': "q \<in> set (ob_rows db)" by simp
      with ok have "row_evidence (db_events db) q" by (simp add: sys_ok_def list_all_iff)
      with a obtain x where x: "x \<in> set (db_events db)" "ev_id x = ev_id e" "evidence_for (ob_capture q) x"
        by (auto simp: row_evidence_def list_ex_iff)
      have "set (db_events db) \<subseteq> set (db_events db1)" by (rule append_step_grows [OF append_step [OF app]])
      with x e(1) st1 have "x = e" by (auto simp: store_ok_def distinct_map dest: inj_onD)
      with x(3) stamp have "cp_id (ob_capture q) = ?cid" by (simp add: evidence_for_def)
      with same_row [OF outbox_invD(1) [OF inv] q' r(1)] have "q = r" .
      with a outbox_invD(2) [OF inv r(1)] r(2) show False by (auto elim: row_invD)
    qed
  qed
  have r1: "r \<in> set (ob_rows db1)" using r(1) o by simp
  obtain db2 where mk: "audit_capture_mark_sealed (Some ?org) ?org ?cid (ev_id e) db1 = Inr db2"
    "db_events db2 = db_events db1" "db_payloads db2 = db_payloads db1"
    "ob_rows db2 = map (\<lambda>q. if q = r then q\<lparr> ob_status := Sealed, ob_event := Some (ev_id e) \<rparr> else q) (ob_rows db1)"
    by (rule mark_succeeds [OF oo1 r1 r(2) free org(2)])
  have load: "loadSealingCaptureForRecovery (Some ?org) ?org ?cid db1 = Inr (Some c)"
  proof -
    let ?P = "\<lambda>r'. cp_org (ob_capture r') = lower ?org \<and> cp_id (ob_capture r') = lower ?cid \<and> ob_status r' = Sealing"
    have "?P q \<longleftrightarrow> q = r" if "q \<in> set (ob_rows db1)" for q
      using same_row [OF outbox_invD(1) [OF inv] _ r(1)] that o r(2) cap(1) fresh_org by auto
    with r1 have "find (\<lambda>r'. Some ?org = Some (cp_org (ob_capture r')) \<and> ?P r') (ob_rows db1) = Some r"
      using find_unique [of r "ob_rows db1" "\<lambda>r'. Some ?org = Some (cp_org (ob_capture r')) \<and> ?P r'"] by auto
    then show ?thesis using uu org(2) c by (simp add: loadSealingCaptureForRecovery_def)
  qed
  have mark: "markAuditCaptureSealed (Some ?org) ?org (cl_chain c) ?cid (ev_id e) db1 = Inr db2"
    using uu uid cap mk(1) mc(3) fresh_org by (simp add: markAuditCaptureSealed_def)
  have "attemptRecovery sha1 cr' (Some t) w' rnd'' ?org ?cid db1 = Inr (RecoveredSealed (ev_id e), db2)"
    using load ev'(1) eid again mark by (simp add: attemptRecovery_def existingEventToOutput_def)
  with mk e(3) id show ?thesis by simp
qed

text \<open>A runner that stopped after the claim, one that stopped after its append, and the recovery of their row.\<close>

definition demo_stuck :: outbox_db where
  "demo_stuck = (case audit_capture_claim_for_seal (Some demo_org) 1767225600500 demo_org ''c'' demo_ob1 of
     Inl e \<Rightarrow> demo_ob1 | Inr (r, d) \<Rightarrow> d)"

definition demo_eid :: string where
  "demo_eid = (case deriveAuditSealerCaptureEventId demo_sha1 demo_org (demo_id (CHR ''5'')) of None \<Rightarrow> [] | Some e \<Rightarrow> e)"

definition demo_event :: "outbox_row \<Rightarrow> sealer_error + append_input" where
  "demo_event r = bindE (mapOutboxRowToClaimedAuditCapture r) (\<lambda>c. buildAuditCaptureSealingEvent c (Some ''v'') (Some 1767225600500))"

definition no_kms :: crypto where
  "no_kms = demo_cr\<lparr> kms := (\<lambda>_ _ _ _. None) \<rparr>"

lemma demo_stuck_run:
  "\<not> isl (audit_capture_claim_for_seal (Some demo_org) 1767225600500 demo_org ''c'' demo_ob1) \<and>
   (case attemptRecovery demo_sha1 demo_cr (Some 1767225601000) ''w'' [] demo_org (demo_id (CHR ''5'')) demo_stuck of
      Inr (RecoveredSealed eid, d) \<Rightarrow> True | _ \<Rightarrow> False)"
  by code_simp

lemma demo_stuck_append:
  "list_all (\<lambda>r. ob_status r = Sealing \<and> cp_org (ob_capture r) = demo_org \<and> cp_id (ob_capture r) = demo_id (CHR ''5'') \<and>
     deriveAuditSealerCaptureEventId demo_sha1 demo_org (demo_id (CHR ''5'')) = Some demo_eid \<and>
     (case bindE (demo_event r) (\<lambda>ev. liftE SealerAudit (auditAppend demo_cr (Some demo_org) [] [] (ev\<lparr> ai_event_id := Some demo_eid \<rparr>) demo_stuck)) of
        Inr (out, db1) \<Rightarrow> length (db_events db1) = 1 | _ \<Rightarrow> False)) (ob_rows demo_stuck) \<and> ob_rows demo_stuck \<noteq> []"
  by code_simp

lemma demo_stuck_reach: "reach sys_empty (sys_step (\<lambda>_. None) demo_sha1 demo_cr) demo_stuck"
proof -
  from demo_stuck_run obtain row where "audit_capture_claim_for_seal (Some demo_org) 1767225600500 demo_org ''c'' demo_ob1 = Inr (row, demo_stuck)"
    by (cases "audit_capture_claim_for_seal (Some demo_org) 1767225600500 demo_org ''c'' demo_ob1") (auto simp: demo_stuck_def)
  from reach_step [OF demo_sys_reach1 sys_claim [OF this]] show ?thesis .
qed

theorem recovery_never_duplicates_witness:
  "\<exists>ev out db1 db2. auditAppend demo_cr (Some demo_org) [] [] (ev\<lparr> ai_event_id := Some demo_eid \<rparr>) demo_stuck = Inr (out, db1) \<and>
     attemptRecovery demo_sha1 no_kms (Some 1767225601000) ''w'' [] demo_org (demo_id (CHR ''5'')) db1 =
       Inr (RecoveredSealed (lower (ao_event_id out)), db2) \<and>
     length (db_events db1) = 1 \<and> db_events db2 = db_events db1"
proof -
  from demo_stuck_append obtain r where mem: "r \<in> set (ob_rows demo_stuck)" by (cases "ob_rows demo_stuck") auto
  with demo_stuck_append have r: "ob_status r = Sealing" "cp_org (ob_capture r) = demo_org" "cp_id (ob_capture r) = demo_id (CHR ''5'')"
    "deriveAuditSealerCaptureEventId demo_sha1 demo_org (demo_id (CHR ''5'')) = Some demo_eid"
    and run: "case bindE (demo_event r) (\<lambda>ev. liftE SealerAudit (auditAppend demo_cr (Some demo_org) [] [] (ev\<lparr> ai_event_id := Some demo_eid \<rparr>) demo_stuck)) of
        Inr (out, db1) \<Rightarrow> length (db_events db1) = 1 | _ \<Rightarrow> False" by (auto simp: list_all_iff)
  then obtain c ev out db1 where c: "mapOutboxRowToClaimedAuditCapture r = Inr c"
    "buildAuditCaptureSealingEvent c (Some ''v'') (Some 1767225600500) = Inr ev"
    "auditAppend demo_cr (Some demo_org) [] [] (ev\<lparr> ai_event_id := Some demo_eid \<rparr>) demo_stuck = Inr (out, db1)"
    "length (db_events db1) = 1"
    by (auto simp: demo_event_def bindE_Inr_iff liftE_Inr_iff split: sum.splits)
  from recovery_never_duplicates [OF demo_stuck_reach mem r(1) c(1,2), of demo_eid "[]" "[]" out db1 no_kms 1767225601000 "''w''" "[]"] r c
  show ?thesis by auto
qed

lemma recover_loop_outcome:
  "recover_loop tx failed n a e0 db = (out, db') \<Longrightarrow>
     (case out of
        OutSealed eid \<Rightarrow> (\<exists>k. a \<le> k \<and> k < a + n \<and> tx k db = Inr (RecoveredSealed eid, db'))
      | OutSkipped \<Rightarrow> (\<exists>k. a \<le> k \<and> k < a + n \<and> tx k db = Inr (RecoveredAbsent, db'))
      | OutFailed DivergentReason \<Rightarrow> (\<exists>k e. a \<le> k \<and> k < a + n \<and> tx k db = Inl e \<and> classifyError e = Divergent)
      | OutFailed MaxRetries \<Rightarrow> (\<forall>k. a \<le> k \<and> k < a + n \<longrightarrow> (\<exists>e. tx k db = Inl e \<and> classifyError e = Transient))
      | OutError \<Rightarrow> db' = db \<and> (\<exists>k e. a \<le> k \<and> k < a + n \<and> tx k db = Inl e \<and> classifyError e = TenantContext))"
proof (induction n arbitrary: a e0)
  case (Suc n)
  show ?case
  proof (cases "tx a db")
    case (Inr p)
    with Suc.prems show ?thesis by (cases p; cases "fst p") (auto intro!: exI [of _ a])
  next
    case (Inl e)
    show ?thesis
    proof (cases "classifyError e")
      case Transient
      with Inl Suc.prems have "recover_loop tx failed n (a + 1) e db = (out, db')" by simp
      note ih = Suc.IH [OF this]
      have ex: "\<exists>k\<ge>a. k < a + Suc n \<and> P k" if "\<exists>k\<ge>a + 1. k < a + 1 + n \<and> P k" for P
        using that by (elim exE conjE, intro exI conjI) auto
      have al: "\<forall>k. a \<le> k \<and> k < a + Suc n \<longrightarrow> P k" if "\<forall>k. a + 1 \<le> k \<and> k < a + 1 + n \<longrightarrow> P k" "P a" for P
      proof (intro allI impI)
        fix k assume "a \<le> k \<and> k < a + Suc n"
        with that show "P k" by (cases "k = a") auto
      qed
      show ?thesis
      proof (cases out)
        case (OutSealed eid)
        with ih ex show ?thesis by simp
      next
        case OutSkipped
        with ih ex show ?thesis by simp
      next
        case (OutFailed r)
        show ?thesis
        proof (cases r)
          case DivergentReason
          with ih OutFailed ex [of "\<lambda>k. \<exists>e. tx k db = Inl e \<and> classifyError e = Divergent"] show ?thesis by simp
        next
          case MaxRetries
          with ih OutFailed al [of "\<lambda>k. \<exists>e. tx k db = Inl e \<and> classifyError e = Transient"] Inl Transient show ?thesis by simp
        qed
      next
        case OutError
        with ih ex [of "\<lambda>k. \<exists>e. tx k db = Inl e \<and> classifyError e = TenantContext"] show ?thesis by simp
      qed
    qed (use Inl Suc.prems in \<open>auto intro!: exI [of _ a]\<close>)
  qed
qed auto

text \<open>
  The outcome of recovering a stale row, whatever attempts fail and why: it is reported
  sealed only when an attempt sealed it, marked failed only when an attempt found an event with
  divergent content or when every one of the \<open>maxRetries\<close> attempts failed, and left untouched
  on a tenant-context error.
\<close>

theorem recovery_outcome:
  assumes "recoverStaleRow sha1 cr dots text_of up now w rnd maxRetries org cid db = (out, db')"
  shows "case out of
      OutSealed eid \<Rightarrow> \<exists>k < maxRetries. up k \<and> attemptRecovery sha1 cr (now k) w rnd org cid db = Inr (RecoveredSealed eid, db')
    | OutSkipped \<Rightarrow> \<exists>k < maxRetries. up k \<and> attemptRecovery sha1 cr (now k) w rnd org cid db = Inr (RecoveredAbsent, db')
    | OutFailed DivergentReason \<Rightarrow> \<exists>k < maxRetries. \<exists>f. attemptRecovery sha1 cr (now k) w rnd org cid db = Inl f \<and> classifyError f = Divergent
    | OutFailed MaxRetries \<Rightarrow> \<forall>k < maxRetries. up k \<longrightarrow> isl (attemptRecovery sha1 cr (now k) w rnd org cid db)
    | OutError \<Rightarrow> db' = db"
proof -
  note out = recover_loop_outcome [OF assms [unfolded recoverStaleRow_def]]
  show ?thesis
  proof (cases out)
    case (OutFailed r)
    show ?thesis
    proof (cases r)
      case DivergentReason
      with out OutFailed obtain k e where k: "k < maxRetries" "classifyError e = Divergent"
        "(if up k then attemptRecovery sha1 cr (now k) w rnd org cid db else Inl SealerInfra) = Inl e" by auto
      have "classifyError SealerInfra \<noteq> Divergent" by (simp add: classifyError_def)
      with k have "attemptRecovery sha1 cr (now k) w rnd org cid db = Inl e" by (cases "up k") auto
      with k(1,2) OutFailed DivergentReason show ?thesis by auto
    next
      case MaxRetries
      have "isl (attemptRecovery sha1 cr (now k) w rnd org cid db)" if "k < maxRetries" "up k" for k
        using out that by (auto simp: OutFailed MaxRetries dest: spec [of _ k])
      with OutFailed MaxRetries show ?thesis by simp
    qed
  qed (use out in \<open>auto split: if_split_asm\<close>)
qed

theorem recovery_outcome_witness:
  "recoverStaleRow demo_sha1 demo_cr CHR ''x'' (\<lambda>_. ThrownOther) (\<lambda>_. True) (\<lambda>_. None) ''w'' [] 3 [] [] demo_ob0
     = (OutFailed MaxRetries, demo_ob0) \<and>
   isl (attemptRecovery demo_sha1 demo_cr None ''w'' [] [] [] demo_ob0)"
proof -
  have "\<not> is_uuid []" by (simp add: is_uuid_def)
  then have r: "recoverStaleRow demo_sha1 demo_cr CHR ''x'' (\<lambda>_. ThrownOther) (\<lambda>_. True) (\<lambda>_. None) ''w'' [] 3 [] [] demo_ob0
      = (OutFailed MaxRetries, demo_ob0)"
    by (simp add: recoverStaleRow_def attemptRecovery_def loadSealingCaptureForRecovery_def Let_def numeral_3_eq_3
        classifyError_def markFailedTerminal_def markAuditCaptureFailed_def)
  have "\<forall>k < (3::nat). True \<longrightarrow> isl (attemptRecovery demo_sha1 demo_cr None ''w'' [] [] [] demo_ob0)"
    using recovery_outcome [OF r] by simp
  from this [rule_format, of 0] have "isl (attemptRecovery demo_sha1 demo_cr None ''w'' [] [] [] demo_ob0)" by simp
  with r show ?thesis by blast
qed

lemma squeeze_no_break: "c \<in> set (squeeze b s) \<Longrightarrow> is_space c \<Longrightarrow> c = CHR '' ''"
  by (induction b s rule: squeeze.induct) (auto split: if_split_asm)

text \<open>
  The sanitizer's output always fits the database column and a log line: a class of 1 to 64
  safe characters, a non-empty message of at most 200 characters in which white space is single
  blanks, whatever was thrown.
\<close>

theorem sanitized_error_fits:
  assumes "\<not> is_space dots"
  shows "case sanitizeSealerError dots err ec em of (cls, msg) \<Rightarrow>
    0 < length cls \<and> length cls \<le> 64 \<and> list_all is_class_char cls \<and>
    0 < length msg \<and> length msg \<le> SEALER_ERROR_MESSAGE_MAX \<and> list_all (\<lambda>c. \<not> is_space c \<or> c = CHR '' '') msg"
proof -
  obtain cls msg where cm: "(if ec \<noteq> None \<or> em \<noteq> None then
           (case ec of Some c \<Rightarrow> if c \<noteq> [] then c else ''unknown'' | None \<Rightarrow> ''unknown'',
            case em of Some m \<Rightarrow> m | None \<Rightarrow> [])
         else extractErrorClassMessage err) = (cls, msg)" by (cases "(if ec \<noteq> None \<or> em \<noteq> None then
           (case ec of Some c \<Rightarrow> if c \<noteq> [] then c else ''unknown'' | None \<Rightarrow> ''unknown'',
            case em of Some m \<Rightarrow> m | None \<Rightarrow> [])
         else extractErrorClassMessage err)")
  define m1 where "m1 = trim (squeeze False msg)"
  define m2 where "m2 = (if SEALER_ERROR_MESSAGE_MAX - 1 < length m1 then take (SEALER_ERROR_MESSAGE_MAX - 1) m1 @ [dots] else m1)"
  define m3 where "m3 = (if m2 = [] then ''<no_message>'' else m2)"
  define c1 where "c1 = take 64 (filter is_class_char cls)"
  have out: "sanitizeSealerError dots err ec em = (if c1 = [] then ''unknown'' else c1, m3)"
    unfolding sanitizeSealerError_def cm by (simp add: m1_def m2_def m3_def c1_def)
  have sp1: "\<not> is_space c \<or> c = CHR '' ''" if "c \<in> set m1" for c
    using that trim_set squeeze_no_break unfolding m1_def by blast
  have sp2: "\<not> is_space c \<or> c = CHR '' ''" if "c \<in> set m2" for c
    using that sp1 assms by (auto simp: m2_def split: if_split_asm dest: in_set_takeD)
  have len2: "length m2 \<le> SEALER_ERROR_MESSAGE_MAX"
    by (auto simp: m2_def SEALER_ERROR_MESSAGE_MAX_def)
  have nm: "list_all (\<lambda>c. \<not> is_space c \<or> c = CHR '' '') ''<no_message>''" and un: "list_all is_class_char ''unknown''"
    by code_simp+
  have "0 < length m3" by (simp add: m3_def)
  moreover have "length m3 \<le> SEALER_ERROR_MESSAGE_MAX"
    using len2 by (simp add: m3_def SEALER_ERROR_MESSAGE_MAX_def)
  moreover have "list_all (\<lambda>c. \<not> is_space c \<or> c = CHR '' '') m3"
    using sp2 nm by (auto simp: m3_def list_all_iff)
  moreover have "list_all is_class_char (if c1 = [] then ''unknown'' else c1)"
    using un by (auto simp: c1_def list_all_iff dest: in_set_takeD)
  moreover have "0 < length (if c1 = [] then ''unknown'' else c1) \<and> length (if c1 = [] then ''unknown'' else c1) \<le> 64"
    by (simp add: c1_def)
  ultimately show ?thesis by (simp add: out)
qed

theorem sanitized_error_fits_witness:
  "case sanitizeSealerError (CHR 0x85) (ThrownError [] []) None None of (cls, msg) \<Rightarrow> 0 < length msg"
proof -
  have "\<not> is_space (CHR 0x85)" by code_simp
  from sanitized_error_fits [OF this, of "ThrownError [] []" None None] show ?thesis by (auto split: prod.splits)
qed

text \<open>
  The retry delays: the base doubles from \<open>minMs\<close> with each attempt and never passes
  \<open>maxMs\<close>, later attempts never wait less, and the jittered delay stays between half the base
  and the base.
\<close>

theorem backoff_bounds:
  assumes "minMs \<le> maxMs" and "0 \<le> r" and "r < 1" and "a \<le> b"
  shows "minMs \<le> backoffBaseMs a minMs maxMs \<and> backoffBaseMs a minMs maxMs \<le> maxMs \<and>
    backoffBaseMs a minMs maxMs \<le> backoffBaseMs b minMs maxMs \<and>
    int (backoffBaseMs a minMs maxMs) \<le> 2 * backoffWithJitterMs a minMs maxMs r \<and>
    backoffWithJitterMs a minMs maxMs r \<le> int (backoffBaseMs a minMs maxMs)"
proof -
  define e where "e x = min (if x < 0 then 0 else nat x) 53" for x :: int
  have b: "backoffBaseMs x minMs maxMs = min (minMs * 2 ^ e x) maxMs" for x
    by (simp add: backoffBaseMs_def e_def)
  have "e a \<le> e b" using assms(4) by (auto simp: e_def)
  then have "minMs * 2 ^ e a \<le> minMs * 2 ^ e b" by simp
  from min.mono [OF this order_refl]
  have mono: "backoffBaseMs a minMs maxMs \<le> backoffBaseMs b minMs maxMs" unfolding b .
  have "minMs * 1 \<le> minMs * 2 ^ e a" by (rule mult_left_mono) auto
  then have lo: "minMs \<le> backoffBaseMs a minMs maxMs" using assms(1) by (simp add: b)
  define n where "n = backoffBaseMs a minMs maxMs"
  define h where "h = rat_of_nat n / 2"
  have h: "0 \<le> h" "h + h = rat_of_nat n" by (simp_all add: h_def)
  have rh: "0 \<le> r * h" "r * h \<le> h"
    using assms(2,3) h(1) mult_right_mono [of r 1 h] by simp_all
  have "\<lfloor>h + r * h + 1 / 2\<rfloor> \<le> int n"
  proof -
    have "h + r * h + 1 / 2 < rat_of_int (int n + 1)" using rh h by simp
    then have "\<lfloor>h + r * h + 1 / 2\<rfloor> < int n + 1" by (simp only: floor_less_iff)
    then show ?thesis by simp
  qed
  moreover have "int n \<le> 2 * \<lfloor>h + r * h + 1 / 2\<rfloor>"
  proof -
    define k where "k = \<lfloor>h + r * h + 1 / 2\<rfloor>"
    have "h + 1 / 2 < rat_of_int k + 1"
      using floor_correct [of "h + r * h + 1 / 2"] rh(1) by (simp add: k_def)
    then have "rat_of_nat n < rat_of_int (2 * k + 1)" using h(2) by simp
    then have "rat_of_int (int n) < rat_of_int (2 * k + 1)" by simp
    then have "int n < 2 * k + 1" by (simp only: of_int_less_iff)
    then show ?thesis by (simp add: k_def)
  qed
  ultimately show ?thesis
    using mono lo by (simp add: backoffWithJitterMs_def jitter_def Let_def n_def h_def b)
qed

theorem backoff_bounds_witness:
  "backoffBaseMs 3 1000 30000 = 8000 \<and> backoffBaseMs 7 1000 30000 = 30000 \<and>
   backoffWithJitterMs 3 1000 30000 (1 / 4) \<le> int (backoffBaseMs 3 1000 30000)"
proof -
  have "backoffWithJitterMs 3 1000 30000 (1 / 4) \<le> int (backoffBaseMs 3 1000 30000)"
    using backoff_bounds [of 1000 30000 "1 / 4" 3 3] by simp
  moreover have "backoffBaseMs 3 1000 30000 = 8000" "backoffBaseMs 7 1000 30000 = 30000"
    by (simp_all add: backoffBaseMs_def)
  ultimately show ?thesis by blast
qed

end
