(* ===== verification/Run_Dispatch.thy ===== *)
theory Run_Dispatch
  imports Capture_Outbox
begin

text \<open>
  Durable provider dispatch (\<open>apps/api/src/pipeline/run-dispatch-state.ts\<close>, with the schemas of
  \<open>packages/core-events/src/run-dispatch-lifecycle.ts\<close> and the state matrix of migration 0029):
  a run is prepared, claimed by exactly one executor, crosses a durable boundary before the
  provider is called, and ends in a known result or an honest unknown; recovery closes the runs
  whose executor disappeared. Every exported function is one transaction, the value \<open>Inl\<close> stands
  for its rollback. Database times are microseconds, the \<open>Date\<close>s read from them milliseconds. The
  formats \<open>z.string().uuid()\<close> and \<open>.datetime()\<close> of the schema library are parameters. The foreign
  keys into the workroom tables are not modelled.
\<close>

section \<open>Data\<close>

datatype run_status =
  Queued | Running | Completed | Failed_run | Denied | Outcome_unknown | Awaiting_approval

record run_row =
  run_id :: string
  run_org :: string
  run_actor :: string
  run_mode :: string
  run_workroom :: "string option"
  run_participant :: "string option"
  run_created_at :: int
  run_status :: run_status
  run_protocol :: "int option"
  run_prepared_at :: "int option"
  run_token :: "string option"
  run_claimed_at :: "int option"
  run_started_at :: "int option"
  run_timeout_ms :: "int option"
  run_deadline :: "int option"
  run_boundary :: "int option"
  run_completed_at :: "int option"
  run_unknown_at :: "int option"
  run_error :: "string option"

record invocation =
  in_id :: string
  in_run :: string
  in_org :: string
  in_provider :: string
  in_endpoint :: string
  in_request :: bytes
  in_response :: "bytes option"
  in_status :: "int option"
  in_latency :: "int option"
  in_preq :: "string option"
  in_error :: "string option"
  in_usage :: jsval
  in_token :: "string option"

record workroom_turn =
  tn_id :: string
  tn_org :: string
  tn_workroom :: string
  tn_number :: int
  tn_actor :: string
  tn_kind :: string
  tn_event :: string
  tn_ref :: "string option"

record run_db = audit_db +
  db_runs :: "run_row list"
  db_invs :: "invocation list"
  db_turns :: "workroom_turn list"

record event_ctx =
  cx_org :: string
  cx_run :: string
  cx_chain :: string
  cx_workroom :: "(string \<times> string) option"

record run_ctx = event_ctx +
  cx_actor :: string
  cx_mode :: string
  cx_provider :: string
  cx_capability :: string
  cx_model :: string
  cx_policy :: "string option"

text \<open>
  What one transaction reads from its surroundings: the database clock (at its start, and at two
  later statements), the results of \<open>randomUUID()\<close>, and the runs other transactions hold locked.
\<close>

record tx_env =
  tx_now :: int
  tx_clock :: int
  tx_clock2 :: int
  tx_token :: string
  tx_event :: string
  tx_event2 :: string
  tx_event3 :: string
  tx_payload :: string
  tx_inv :: string
  tx_turn :: string
  tx_locked :: "string list"

record zod_formats =
  z_uuid :: "string \<Rightarrow> bool"
  z_datetime :: "string \<Rightarrow> bool"

datatype conflict =
    CAlreadyTerminal run_status run_status
  | CNoInvocation
  | CRequestIdentity
  | CUnverifiable
  | CDivergentResult
  | CBlockUnverifiable
  | CDivergentBlock
  | CLocalMismatch
  | CNotAccepting run_status
  | CInvisibleInvocation

datatype run_error =
    RAudit audit_error
  | RCanon canon_error
  | RBigInt
  | RNotUuid
  | RCast
  | RSchema
  | RStateCheck
  | RTimeoutCheck
  | RUnique
  | TokenMismatch
  | OutcomeConflict conflict

definition ms_of :: "int \<Rightarrow> int" where
  "ms_of us = us div 1000"

definition iso_us :: "int \<Rightarrow> string" where
  "iso_us us = iso_of_ms (ms_of us)"

definition int4 :: "int \<Rightarrow> bool" where
  "int4 i = (- (2 ^ 31) \<le> i \<and> i < 2 ^ 31)"

section \<open>The table of runs\<close>

text \<open>The constraint \<open>runs_dispatch_v1_state_check\<close> of migration 0029.\<close>

definition runs_dispatch_v1_state_check :: "run_row \<Rightarrow> bool" where
  "runs_dispatch_v1_state_check r =
     ((run_protocol r = None \<and> run_status r \<noteq> Outcome_unknown \<and> run_boundary r = None) \<or>
      (run_protocol r = Some 1 \<and> run_prepared_at r \<noteq> None \<and>
       (run_boundary r = None \<or>
          (run_token r \<noteq> None \<and> run_claimed_at r \<noteq> None \<and> run_deadline r \<noteq> None \<and> run_timeout_ms r \<noteq> None)) \<and>
       ((run_status r = Queued \<and> run_token r = None \<and> run_claimed_at r = None \<and> run_deadline r = None \<and>
           run_started_at r = None \<and> run_completed_at r = None \<and> run_unknown_at r = None) \<or>
        (run_status r = Running \<and> run_token r \<noteq> None \<and> run_claimed_at r \<noteq> None \<and> run_deadline r \<noteq> None \<and>
           run_timeout_ms r \<noteq> None \<and> run_started_at r \<noteq> None \<and> run_completed_at r = None \<and>
           run_unknown_at r = None) \<or>
        (run_status r = Completed \<and> run_token r \<noteq> None \<and> run_claimed_at r \<noteq> None \<and> run_deadline r \<noteq> None \<and>
           run_completed_at r \<noteq> None \<and> run_boundary r \<noteq> None) \<or>
        (run_status r = Outcome_unknown \<and> run_token r \<noteq> None \<and> run_claimed_at r \<noteq> None \<and>
           run_deadline r \<noteq> None \<and> run_unknown_at r \<noteq> None \<and> run_completed_at r = None \<and>
           run_error r \<noteq> None \<and> run_boundary r \<noteq> None) \<or>
        (run_status r = Failed_run \<and> run_token r = None \<and> run_claimed_at r = None \<and> run_deadline r = None \<and>
           run_completed_at r \<noteq> None \<and> run_error r \<noteq> None \<and> run_boundary r = None) \<or>
        (run_status r = Failed_run \<and> run_token r \<noteq> None \<and> run_claimed_at r \<noteq> None \<and> run_deadline r \<noteq> None \<and>
           run_completed_at r \<noteq> None) \<or>
        (run_status r = Denied \<and> run_token r \<noteq> None \<and> run_claimed_at r \<noteq> None \<and> run_deadline r \<noteq> None \<and>
           run_completed_at r \<noteq> None))))"

text \<open>\<open>runs_dispatch_timeout_ms_check\<close> and the unique index \<open>runs_dispatch_token_uniq\<close>.\<close>

definition timeout_check :: "run_row \<Rightarrow> bool" where
  "timeout_check r = (case run_timeout_ms r of None \<Rightarrow> True | Some t \<Rightarrow> 1000 \<le> t \<and> t \<le> 900000)"

definition token_taken :: "run_row \<Rightarrow> 'a run_db_scheme \<Rightarrow> bool" where
  "token_taken r db = (run_token r \<noteq> None \<and>
     list_ex (\<lambda>q. run_id q \<noteq> run_id r \<and> run_token q = run_token r) (db_runs db))"

definition run_visible :: "string \<Rightarrow> run_row \<Rightarrow> bool" where
  "run_visible org r = (run_org r = org)"

definition select_run :: "string \<Rightarrow> string \<Rightarrow> 'a run_db_scheme \<Rightarrow> run_error + run_row option" where
  "select_run org rid db = (case pg_uuid rid of None \<Rightarrow> Inl RCast
     | Some u \<Rightarrow> Inr (find (\<lambda>r. run_visible org r \<and> run_id r = u) (db_runs db)))"

definition put_run :: "run_row \<Rightarrow> 'a run_db_scheme \<Rightarrow> 'a run_db_scheme" where
  "put_run r' db = db\<lparr> db_runs := map (\<lambda>r. if run_id r = run_id r' then r' else r) (db_runs db) \<rparr>"

text \<open>
  \<open>UPDATE govai.runs SET .. WHERE id = .. AND cond RETURNING ..\<close>: no row when the id is not
  visible or \<open>cond\<close> fails; the constraints are checked on the new row.
\<close>

definition update_run ::
  "string \<Rightarrow> string \<Rightarrow> (run_row \<Rightarrow> bool) \<Rightarrow> (run_row \<Rightarrow> run_row) \<Rightarrow> 'a run_db_scheme
   \<Rightarrow> run_error + run_row option \<times> 'a run_db_scheme" where
  "update_run org rid cond f db =
     bindE (select_run org rid db) (\<lambda>found. case found of None \<Rightarrow> Inr (None, db)
       | Some r \<Rightarrow>
           if \<not> cond r then Inr (None, db)
           else if \<not> runs_dispatch_v1_state_check (f r) then Inl RStateCheck
           else if \<not> timeout_check (f r) then Inl RTimeoutCheck
           else if token_taken (f r) db then Inl RUnique
           else Inr (Some (f r), put_run (f r) db))"

text \<open>\<open>SELECT status FROM govai.runs\<close> after an update that matched no row.\<close>

definition status_of :: "string \<Rightarrow> string \<Rightarrow> 'a run_db_scheme \<Rightarrow> run_error + run_status option" where
  "status_of org rid db = bindE (select_run org rid db) (\<lambda>r. Inr (map_option run_status r))"

definition withTenantTx :: "string \<Rightarrow> (run_error + 'r) \<Rightarrow> run_error + 'r" where
  "withTenantTx org body = (if is_uuid org then body else Inl RNotUuid)"

section \<open>Events\<close>

text \<open>\<open>JSON.stringify\<close>: as \<open>canonicalize\<close>, but in insertion order and total on plain values.\<close>

function json_text :: "(rat \<Rightarrow> string) \<Rightarrow> jsval \<Rightarrow> string" where
  "json_text num (JArr vs) = CHR ''['' #
     join_comma (map (\<lambda>v. if v = JUndef \<or> v = JFun then ''null'' else json_text num v) vs) @ '']''"
| "json_text num (JObj ps) = CHR ''{'' #
     join_comma (map (\<lambda>(k, v). quote_str k @ CHR '':'' # json_text num v)
       (filter (\<lambda>(k, v). v \<noteq> JUndef \<and> v \<noteq> JFun) ps)) @ ''}''"
| "json_text num (JNum n) = (case n of NonFinite \<Rightarrow> ''null'' | Finite q \<Rightarrow> num q)"
| "json_text num (JStr s) = quote_str s"
| "json_text num (JBool b) = (if b then ''true'' else ''false'')"
| "json_text num JNull = ''null''"
| "json_text num JUndef = ''undefined''"
| "json_text num JFun = ''undefined''"
| "json_text num (JBigInt i) = []"
  by pat_completeness auto
termination
  by (relation "measure (\<lambda>(num, v). size v)")
     (auto simp del: jsval.size intro: size_arr_item size_obj_item)

definition str_prop :: "jsval \<Rightarrow> string \<Rightarrow> string option" where
  "str_prop v k = (case obj_get v k of Some (JStr s) \<Rightarrow> Some s | _ \<Rightarrow> None)"

definition num_prop :: "jsval \<Rightarrow> string \<Rightarrow> rat option" where
  "num_prop v k = (case obj_get v k of Some (JNum (Finite q)) \<Rightarrow> Some q | _ \<Rightarrow> None)"

definition run_event_input ::
  "'c event_ctx_scheme \<Rightarrow> string \<Rightarrow> string \<Rightarrow> int \<Rightarrow> bytes \<Rightarrow> jsval \<Rightarrow> append_input" where
  "run_event_input ctx typ ver occ ph red =
     \<lparr> ai_org = cx_org ctx, ai_chain = cx_chain ctx, ai_type = typ, ai_version = ver,
       ai_subject_type = ''run'', ai_subject_id = cx_run ctx, ai_occurred = Some occ,
       ai_payload_hash = ph, ai_payload_encrypted = None, ai_dek_wrapped = None,
       ai_key_id = ''audit-1'', ai_key_version = 1, ai_redaction = red, ai_evidence = None,
       ai_event_id = None \<rparr>"

definition append_run_event ::
  "crypto \<Rightarrow> string \<Rightarrow> 'c event_ctx_scheme \<Rightarrow> string \<Rightarrow> string \<Rightarrow> int \<Rightarrow> bytes \<Rightarrow> jsval \<Rightarrow> 'a audit_db_scheme
   \<Rightarrow> run_error + string \<times> 'a audit_db_scheme" where
  "append_run_event cr re ctx typ ver occ ph red db =
     (case auditAppend cr (Some (cx_org ctx)) re [] (run_event_input ctx typ ver occ ph red) db of
        Inl e \<Rightarrow> Inl (RAudit e) | Inr (out, db') \<Rightarrow> Inr (ao_event_id out, db'))"

definition appendLifecycleEvent ::
  "crypto \<Rightarrow> string \<Rightarrow> 'c event_ctx_scheme \<Rightarrow> jsval \<Rightarrow> int \<Rightarrow> 'a audit_db_scheme
   \<Rightarrow> run_error + string \<times> 'a audit_db_scheme" where
  "appendLifecycleEvent cr re ctx event occ db =
     (case canonicalize (num_text cr) event of Inl e \<Rightarrow> Inl (RCanon e)
      | Inr t \<Rightarrow> append_run_event cr re ctx ((case str_prop event ''event_type'' of None \<Rightarrow> [] | Some s \<Rightarrow> s)) ''1'' occ
                  (sha cr (utf8 t)) event db)"

definition persistCapturedV4 ::
  "crypto \<Rightarrow> string \<Rightarrow> 'c event_ctx_scheme \<Rightarrow> jsval \<Rightarrow> int \<Rightarrow> 'a audit_db_scheme
   \<Rightarrow> run_error + string \<times> 'a audit_db_scheme" where
  "persistCapturedV4 cr re ctx event occ db =
     (if has_bigint event then Inl RBigInt
      else append_run_event cr re ctx ''passthrough.invoked'' ''4'' occ
             (sha cr (utf8 (json_text (num_text cr) event)))
             (JObj [(''passthrough_invoked_v4'', event)]) db)"

definition appendTerminalRunEvent ::
  "crypto \<Rightarrow> string \<Rightarrow> 'c event_ctx_scheme \<Rightarrow> string \<Rightarrow> int \<Rightarrow> string \<Rightarrow> jsval \<Rightarrow> 'a audit_db_scheme
   \<Rightarrow> run_error + string \<times> 'a audit_db_scheme" where
  "appendTerminalRunEvent cr re ctx typ occ payload red db =
     append_run_event cr re ctx typ ''1'' occ (sha cr (utf8 payload)) red db"

section \<open>Event schemas\<close>

definition z_str :: "(string \<Rightarrow> bool) \<Rightarrow> string \<Rightarrow> jsval \<Rightarrow> bool" where
  "z_str P k v = (case obj_get v k of Some (JStr s) \<Rightarrow> P s | _ \<Rightarrow> False)"

definition z_opt :: "(string \<Rightarrow> bool) \<Rightarrow> string \<Rightarrow> jsval \<Rightarrow> bool" where
  "z_opt P k v = (case obj_get v k of None \<Rightarrow> True | Some JUndef \<Rightarrow> True | Some (JStr s) \<Rightarrow> P s | _ \<Rightarrow> False)"

definition z_int :: "int \<Rightarrow> int \<Rightarrow> string \<Rightarrow> jsval \<Rightarrow> bool" where
  "z_int lo hi k v = (case num_prop v k of None \<Rightarrow> False
     | Some q \<Rightarrow> q = of_int \<lfloor>q\<rfloor> \<and> lo \<le> \<lfloor>q\<rfloor> \<and> \<lfloor>q\<rfloor> \<le> hi)"

definition HEX_64 :: "string \<Rightarrow> bool" where
  "HEX_64 s = (length s = 64 \<and> list_all (\<lambda>c. c \<in> set hex_digits) s)"

definition DispatchErrorClass :: "string list" where
  "DispatchErrorClass =
     [''dispatch_preclaim_failed'', ''dispatch_never_claimed'', ''dispatch_never_started'',
      ''stale_dispatch_claim'', ''dispatch_pre_forward_failed'', ''dispatch_boundary_persist_failed'',
      ''provider_timeout'', ''provider_io_unknown'']"

definition ForwardObservation :: "string list" where
  "ForwardObservation = [''observed_local_forward_invocation'', ''not_observed'']"

definition RunDispatchPreparedSchema :: "zod_formats \<Rightarrow> jsval \<Rightarrow> bool" where
  "RunDispatchPreparedSchema z v =
     (z_str (\<lambda>s. s = ''run.dispatch_prepared'') ''event_type'' v \<and> z_int 1 1 ''schema_version'' v \<and>
      z_str (z_uuid z) ''org_id'' v \<and> z_str (z_uuid z) ''run_id'' v \<and>
      z_str (\<lambda>s. s \<in> {''governed'', ''passthrough''}) ''mode'' v \<and>
      z_str (\<lambda>s. s \<in> {''anthropic'', ''openai''}) ''provider'' v \<and>
      z_str (\<lambda>s. s \<noteq> []) ''capability_id'' v \<and> z_str (\<lambda>s. s \<noteq> []) ''model'' v \<and>
      z_str HEX_64 ''native_request_hash'' v \<and> z_opt (z_uuid z) ''approval_request_id'' v \<and>
      z_opt (z_uuid z) ''workroom_id'' v \<and> z_str (z_datetime z) ''occurred_at'' v \<and>
      z_str (\<lambda>s. s = ''run'') ''chain_category'' v)"

definition RunDispatchClaimedSchema :: "zod_formats \<Rightarrow> jsval \<Rightarrow> bool" where
  "RunDispatchClaimedSchema z v =
     (z_str (\<lambda>s. s = ''run.dispatch_claimed'') ''event_type'' v \<and> z_int 1 1 ''schema_version'' v \<and>
      z_str (z_uuid z) ''org_id'' v \<and> z_str (z_uuid z) ''run_id'' v \<and>
      z_str (z_uuid z) ''dispatch_token'' v \<and> z_int 1000 900000 ''dispatch_timeout_ms'' v \<and>
      z_str (z_datetime z) ''dispatch_claimed_at'' v \<and> z_str (z_datetime z) ''dispatch_deadline_at'' v \<and>
      z_str (z_datetime z) ''occurred_at'' v \<and> z_str (\<lambda>s. s = ''run'') ''chain_category'' v)"

definition RunOutcomeUnknownSchema :: "zod_formats \<Rightarrow> jsval \<Rightarrow> bool" where
  "RunOutcomeUnknownSchema z v =
     (z_str (\<lambda>s. s = ''run.outcome_unknown'') ''event_type'' v \<and> z_int 1 1 ''schema_version'' v \<and>
      z_str (z_uuid z) ''org_id'' v \<and> z_str (z_uuid z) ''run_id'' v \<and>
      z_str (z_uuid z) ''dispatch_token'' v \<and>
      z_str (\<lambda>s. s \<in> set DispatchErrorClass) ''dispatch_error_class'' v \<and>
      z_str (\<lambda>s. s \<in> set ForwardObservation) ''forward_observation'' v \<and>
      z_str (z_datetime z) ''dispatch_boundary_committed_at'' v \<and>
      z_str (z_datetime z) ''outcome_unknown_at'' v \<and> z_str (z_datetime z) ''occurred_at'' v \<and>
      z_str (\<lambda>s. s = ''run'') ''chain_category'' v)"

definition RunOutcomeReconciledSchema :: "zod_formats \<Rightarrow> jsval \<Rightarrow> bool" where
  "RunOutcomeReconciledSchema z v =
     (z_str (\<lambda>s. s = ''run.outcome_reconciled'') ''event_type'' v \<and> z_int 1 1 ''schema_version'' v \<and>
      z_str (z_uuid z) ''org_id'' v \<and> z_str (z_uuid z) ''run_id'' v \<and>
      z_str (\<lambda>s. s = ''outcome_unknown'') ''previous_status'' v \<and>
      z_str (\<lambda>s. s \<in> {''completed'', ''failed''}) ''final_status'' v \<and>
      z_str (z_uuid z) ''dispatch_token'' v \<and> z_str (z_uuid z) ''provider_invocation_id'' v \<and>
      z_str HEX_64 ''native_request_hash'' v \<and> z_opt HEX_64 ''native_response_hash'' v \<and>
      z_str (z_datetime z) ''occurred_at'' v \<and> z_str (\<lambda>s. s = ''run'') ''chain_category'' v)"

definition opt_str :: "string \<Rightarrow> string option \<Rightarrow> (string \<times> jsval) list" where
  "opt_str k x = (case x of None \<Rightarrow> [] | Some s \<Rightarrow> [(k, JStr s)])"

section \<open>Turns and invocations\<close>

definition ensureRunEventTurn ::
  "string \<Rightarrow> string \<Rightarrow> string \<Rightarrow> string \<Rightarrow> string \<Rightarrow> string \<Rightarrow> 'a run_db_scheme
   \<Rightarrow> run_error + bool \<times> 'a run_db_scheme" where
  "ensureRunEventTurn rnd org workroom participant rid eid db =
     (case (pg_uuid workroom, pg_uuid participant, pg_uuid rid, pg_uuid eid) of
        (Some w, Some p, Some r, Some e) \<Rightarrow>
          if list_ex (\<lambda>t. tn_org t = org \<and> tn_kind t = ''run_event'' \<and> tn_ref t = Some r) (db_turns db)
          then Inr (False, db)
          else
            let next = Max (insert 0 (tn_number ` {t \<in> set (db_turns db). tn_org t = org \<and> tn_workroom t = w})) + 1
            in if list_ex (\<lambda>t. tn_id t = rnd \<or> (tn_workroom t = w \<and> tn_number t = next) \<or>
                             (tn_kind t = ''run_event'' \<and> tn_ref t = Some r)) (db_turns db)
               then Inl RUnique
               else Inr (True, db\<lparr> db_turns := db_turns db @
                      [\<lparr> tn_id = rnd, tn_org = org, tn_workroom = w, tn_number = next, tn_actor = p,
                         tn_kind = ''run_event'', tn_event = e, tn_ref = Some r \<rparr>] \<rparr>)
      | _ \<Rightarrow> Inl RCast)"

definition maybeEnsureTurn ::
  "tx_env \<Rightarrow> 'c event_ctx_scheme \<Rightarrow> string \<Rightarrow> 'a run_db_scheme \<Rightarrow> run_error + 'a run_db_scheme" where
  "maybeEnsureTurn env ctx eid db = (case cx_workroom ctx of None \<Rightarrow> Inr db
     | Some (w, p) \<Rightarrow> bindE (ensureRunEventTurn (tx_turn env) (cx_org ctx) w p (cx_run ctx) eid db)
                        (\<lambda>(_, db'). Inr db'))"

text \<open>\<open>nw\<close> is the row to insert; its id is the random one.\<close>

definition insertOrReuseInvocation ::
  "run_ctx \<Rightarrow> invocation \<Rightarrow> 'a run_db_scheme \<Rightarrow> run_error + (string \<times> bool) \<times> 'a run_db_scheme" where
  "insertOrReuseInvocation ctx nw db =
     (case (pg_uuid (cx_run ctx), Option.bind (in_token nw) pg_uuid) of
        (Some r, Some t) \<Rightarrow>
          if has_bigint (in_usage nw) then Inl RBigInt
          else if (case in_status nw of None \<Rightarrow> False | Some i \<Rightarrow> \<not> int4 i) \<or>
                  (case in_latency nw of None \<Rightarrow> False | Some i \<Rightarrow> \<not> int4 i) then Inl RCast
          else if list_ex (\<lambda>i. in_run i = r \<and> in_token i = Some t) (db_invs db) then
            (case filter (\<lambda>i. in_org i = cx_org ctx \<and> in_run i = r \<and> in_token i = Some t) (db_invs db) of
               [row] \<Rightarrow>
                 if in_endpoint row \<noteq> in_endpoint nw \<or> in_request row \<noteq> in_request nw
                 then Inl (OutcomeConflict CRequestIdentity) else Inr ((in_id row, False), db)
             | _ \<Rightarrow> Inl (OutcomeConflict CInvisibleInvocation))
          else if list_ex (\<lambda>i. in_id i = in_id nw) (db_invs db) then Inl RUnique
          else Inr ((in_id nw, True), db\<lparr> db_invs := db_invs db @
                 [nw\<lparr> in_run := r, in_org := cx_org ctx, in_provider := cx_provider ctx,
                       in_token := Some t, in_usage := json_value (in_usage nw) \<rparr>] \<rparr>)
      | _ \<Rightarrow> Inl RCast)"

section \<open>Preparation and claim\<close>

definition appendDispatchPreparedEvent ::
  "zod_formats \<Rightarrow> crypto \<Rightarrow> tx_env \<Rightarrow> run_ctx \<Rightarrow> string \<Rightarrow> string option \<Rightarrow> int \<Rightarrow> 'a audit_db_scheme
   \<Rightarrow> run_error + string \<times> 'a audit_db_scheme" where
  "appendDispatchPreparedEvent z cr env ctx reqHashHex approval occurredAt db =
     (let event = JObj ([(''event_type'', JStr ''run.dispatch_prepared''),
            (''schema_version'', JNum (Finite 1)), (''org_id'', JStr (cx_org ctx)),
            (''run_id'', JStr (cx_run ctx)), (''mode'', JStr (cx_mode ctx)),
            (''provider'', JStr (cx_provider ctx)), (''capability_id'', JStr (cx_capability ctx)),
            (''model'', JStr (cx_model ctx)), (''native_request_hash'', JStr reqHashHex)] @
            (if approval = Some [] then [] else opt_str ''approval_request_id'' approval) @
            opt_str ''workroom_id'' (map_option fst (cx_workroom ctx)) @
            [(''occurred_at'', JStr (iso_of_ms occurredAt)), (''chain_category'', JStr ''run'')])
      in if \<not> RunDispatchPreparedSchema z event then Inl RSchema
         else appendLifecycleEvent cr (tx_event env) ctx event occurredAt db)"

datatype claim_result = Claimed string int int | NotClaimed "run_status option"

definition claim_update :: "int \<Rightarrow> string \<Rightarrow> int \<Rightarrow> run_row \<Rightarrow> run_row" where
  "claim_update now token timeoutMs r =
     r\<lparr> run_status := Running, run_token := Some token, run_claimed_at := Some now,
        run_started_at := Some now, run_timeout_ms := Some timeoutMs,
        run_deadline := Some (now + timeoutMs * 1000) \<rparr>"

definition claim_cond :: "run_row \<Rightarrow> bool" where
  "claim_cond r = (run_status r = Queued \<and> run_protocol r = Some 1 \<and> run_token r = None)"

definition claimDispatch ::
  "zod_formats \<Rightarrow> crypto \<Rightarrow> tx_env \<Rightarrow> run_ctx \<Rightarrow> int \<Rightarrow> 'a run_db_scheme
   \<Rightarrow> run_error + claim_result \<times> 'a run_db_scheme" where
  "claimDispatch z cr env ctx timeoutMs db = withTenantTx (cx_org ctx)
     (let token = tx_token env; now = tx_now env in
      case pg_uuid token of None \<Rightarrow> Inl RCast
      | Some t \<Rightarrow> if \<not> int4 timeoutMs then Inl RCast else
      bindE (update_run (cx_org ctx) (cx_run ctx) claim_cond (claim_update now t timeoutMs) db) (\<lambda>(upd, db1).
      case upd of
        None \<Rightarrow> bindE (status_of (cx_org ctx) (cx_run ctx) db1) (\<lambda>st. Inr (NotClaimed st, db1))
      | Some row \<Rightarrow>
          let claimed = JStr (iso_us now); deadlineAt = now + timeoutMs * 1000;
              event = JObj [(''event_type'', JStr ''run.dispatch_claimed''),
                (''schema_version'', JNum (Finite 1)), (''org_id'', JStr (cx_org ctx)),
                (''run_id'', JStr (cx_run ctx)), (''dispatch_token'', JStr token),
                (''dispatch_timeout_ms'', JNum (Finite (of_int timeoutMs))),
                (''dispatch_claimed_at'', claimed),
                (''dispatch_deadline_at'', JStr (iso_us deadlineAt)),
                (''occurred_at'', claimed), (''chain_category'', JStr ''run'')]
          in if \<not> RunDispatchClaimedSchema z event then Inl RSchema
             else bindE (appendLifecycleEvent cr (tx_event env) ctx event (ms_of now) db1) (\<lambda>(_, db2).
               Inr (Claimed token (ms_of now) (ms_of deadlineAt), db2))))"

section \<open>The durable boundary\<close>

datatype boundary_failure =
  Wrong_token | Not_running | Deadline_expired | Boundary_already_committed | Run_missing

datatype boundary_result = Committed int | NotCommitted boundary_failure

definition boundary_cond :: "int \<Rightarrow> string \<Rightarrow> run_row \<Rightarrow> bool" where
  "boundary_cond clock token r = (run_token r = Some token \<and> run_status r = Running \<and> run_boundary r = None \<and>
     (case run_deadline r of None \<Rightarrow> False | Some d \<Rightarrow> clock < d))"

definition commitDispatchBoundary ::
  "tx_env \<Rightarrow> string \<Rightarrow> string \<Rightarrow> string \<Rightarrow> 'a run_db_scheme
   \<Rightarrow> run_error + boundary_result \<times> 'a run_db_scheme" where
  "commitDispatchBoundary env org rid token db = withTenantTx org
     (case pg_uuid token of None \<Rightarrow> Inl RCast | Some t \<Rightarrow>
      bindE (update_run org rid (boundary_cond (tx_clock env) t)
               (\<lambda>r. r\<lparr> run_boundary := Some (tx_clock env) \<rparr>) db) (\<lambda>(upd, db1).
      case upd of
        Some _ \<Rightarrow> Inr (Committed (ms_of (tx_clock env)), db1)
      | None \<Rightarrow> bindE (select_run org rid db1) (\<lambda>found. Inr (NotCommitted (case found of
            None \<Rightarrow> Run_missing
          | Some row \<Rightarrow>
              if run_token row \<noteq> Some token then Wrong_token
              else if run_boundary row \<noteq> None then Boundary_already_committed
              else if run_status row \<noteq> Running then Not_running
              else Deadline_expired), db1))))"

definition no_call_meta :: "run_ctx \<Rightarrow> string \<Rightarrow> string option \<Rightarrow> jsval" where
  "no_call_meta ctx errorClass message = JObj ([(''actor_user_id'', JStr (cx_actor ctx)),
     (''run_mode'', JStr (cx_mode ctx)), (''error_class'', JStr errorClass)] @
     opt_str ''error_message'' message @ [(''provider_call_count'', JNum (Finite 0))])"

definition fail_update :: "int \<Rightarrow> string \<Rightarrow> run_row \<Rightarrow> run_row" where
  "fail_update now errorClass r =
     r\<lparr> run_status := Failed_run, run_completed_at := Some now, run_error := Some errorClass \<rparr>"

definition failBoundaryNotEstablished ::
  "crypto \<Rightarrow> tx_env \<Rightarrow> run_ctx \<Rightarrow> string \<Rightarrow> 'a run_db_scheme
   \<Rightarrow> run_error + (bool \<times> run_status option \<times> string option) \<times> 'a run_db_scheme" where
  "failBoundaryNotEstablished cr env ctx token db = withTenantTx (cx_org ctx)
     (case pg_uuid token of None \<Rightarrow> Inl RCast | Some t \<Rightarrow>
      bindE (update_run (cx_org ctx) (cx_run ctx)
               (\<lambda>r. run_token r = Some t \<and> run_status r = Running \<and> run_boundary r = None)
               (fail_update (tx_now env) ''dispatch_boundary_persist_failed'') db) (\<lambda>(upd, db1).
      case upd of
        None \<Rightarrow> bindE (status_of (cx_org ctx) (cx_run ctx) db1) (\<lambda>st. Inr ((False, st, None), db1))
      | Some _ \<Rightarrow>
          bindE (appendTerminalRunEvent cr (tx_event env) ctx ''run.failed'' (ms_of (tx_now env))
                   (''dispatch_boundary_persist_failed:'' @ cx_run ctx)
                   (no_call_meta ctx ''dispatch_boundary_persist_failed'' None) db1) (\<lambda>(eid, db2).
          bindE (maybeEnsureTurn env ctx eid db2) (\<lambda>db3.
          Inr ((True, Some Failed_run, Some eid), db3)))))"

definition failPreclaim ::
  "crypto \<Rightarrow> tx_env \<Rightarrow> run_ctx \<Rightarrow> string \<Rightarrow> 'a run_db_scheme \<Rightarrow> run_error + bool \<times> 'a run_db_scheme" where
  "failPreclaim cr env ctx message db = withTenantTx (cx_org ctx)
     (bindE (update_run (cx_org ctx) (cx_run ctx) claim_cond
               (fail_update (tx_now env) ''dispatch_preclaim_failed'') db) (\<lambda>(upd, db1).
      case upd of None \<Rightarrow> Inr (False, db1)
      | Some _ \<Rightarrow>
          bindE (appendTerminalRunEvent cr (tx_event env) ctx ''run.failed'' (ms_of (tx_now env))
                   (''dispatch_preclaim_failed:'' @ message)
                   (no_call_meta ctx ''dispatch_preclaim_failed'' (Some (take 200 message))) db1) (\<lambda>(eid, db2).
          bindE (maybeEnsureTurn env ctx eid db2) (\<lambda>db3. Inr (True, db3)))))"

section \<open>Honest unknown\<close>

text \<open>The classes a live executor reports: \<open>'provider_timeout' | 'provider_io_unknown'\<close>.\<close>

datatype unknown_class = Provider_timeout | Provider_io_unknown

fun class_text :: "unknown_class \<Rightarrow> string" where
  "class_text Provider_timeout = ''provider_timeout''"
| "class_text Provider_io_unknown = ''provider_io_unknown''"

definition unknown_update :: "int \<Rightarrow> string \<Rightarrow> run_row \<Rightarrow> run_row" where
  "unknown_update now errorClass r =
     r\<lparr> run_status := Outcome_unknown, run_unknown_at := Some now, run_error := Some errorClass \<rparr>"

definition unknown_event :: "string \<Rightarrow> string \<Rightarrow> string \<Rightarrow> string \<Rightarrow> string \<Rightarrow> int option \<Rightarrow> int \<Rightarrow> jsval" where
  "unknown_event org rid token errorClass observation boundary now = JObj
     [(''event_type'', JStr ''run.outcome_unknown''), (''schema_version'', JNum (Finite 1)),
      (''org_id'', JStr org), (''run_id'', JStr rid), (''dispatch_token'', JStr token),
      (''dispatch_error_class'', JStr errorClass), (''forward_observation'', JStr observation),
      (''dispatch_boundary_committed_at'', case boundary of None \<Rightarrow> JNull | Some b \<Rightarrow> JStr (iso_us b)),
      (''outcome_unknown_at'', JStr (iso_us now)), (''occurred_at'', JStr (iso_us now)),
      (''chain_category'', JStr ''run'')]"

definition unknown_invocation :: "tx_env \<Rightarrow> string \<Rightarrow> string \<times> bytes \<Rightarrow> invocation" where
  "unknown_invocation env token = (\<lambda>(endpoint, reqHash).
     \<lparr> in_id = tx_inv env, in_run = [], in_org = [], in_provider = [], in_endpoint = endpoint,
       in_request = reqHash, in_response = None, in_status = None, in_latency = None, in_preq = None,
       in_error = Some ''dispatch_outcome_unknown'',
       in_usage = JObj [(''source'', JStr ''dispatch_outcome_unknown'')], in_token = Some token \<rparr>)"

definition ensureInvocation ::
  "tx_env \<Rightarrow> run_ctx \<Rightarrow> string \<Rightarrow> string \<Rightarrow> (string \<times> bytes) option \<Rightarrow> 'a run_db_scheme
   \<Rightarrow> run_error + string option \<times> 'a run_db_scheme" where
  "ensureInvocation env ctx token observation invocation db =
     (case invocation of
        None \<Rightarrow> Inr (None, db)
      | Some i \<Rightarrow>
          if observation \<noteq> ''observed_local_forward_invocation'' then Inr (None, db)
          else bindE (insertOrReuseInvocation ctx (unknown_invocation env token i) db)
                 (\<lambda>((iid, _), db'). Inr (Some iid, db')))"

definition markOutcomeUnknown ::
  "zod_formats \<Rightarrow> crypto \<Rightarrow> tx_env \<Rightarrow> run_ctx \<Rightarrow> string \<Rightarrow> unknown_class \<Rightarrow> string \<Rightarrow> (string \<times> bytes) option
   \<Rightarrow> 'a run_db_scheme
   \<Rightarrow> run_error + (bool \<times> run_status option \<times> string option \<times> string option) \<times> 'a run_db_scheme" where
  "markOutcomeUnknown z cr env ctx token cls observation invocation db = withTenantTx (cx_org ctx)
     (case pg_uuid token of None \<Rightarrow> Inl RCast | Some t \<Rightarrow>
      bindE (update_run (cx_org ctx) (cx_run ctx)
               (\<lambda>r. run_token r = Some t \<and> run_status r = Running \<and> run_boundary r \<noteq> None)
               (unknown_update (tx_now env) (class_text cls)) db) (\<lambda>(upd, db1).
      case upd of
        None \<Rightarrow>
          bindE (select_run (cx_org ctx) (cx_run ctx) db1) (\<lambda>found. case found of
            None \<Rightarrow> Inr ((False, None, None, None), db1)
          | Some row \<Rightarrow>
              if run_token row = Some token \<and> run_status row = Outcome_unknown
              then bindE (ensureInvocation env ctx token observation invocation db1) (\<lambda>(iid, db2).
                     Inr ((False, Some (run_status row), None, iid), db2))
              else Inr ((False, Some (run_status row), None, None), db1))
      | Some row \<Rightarrow>
          bindE (ensureInvocation env ctx token observation invocation db1) (\<lambda>(iid, db2).
          let event = unknown_event (cx_org ctx) (cx_run ctx) token (class_text cls) observation
                        (run_boundary row) (tx_now env)
          in if \<not> RunOutcomeUnknownSchema z event then Inl RSchema
             else bindE (appendLifecycleEvent cr (tx_event env) ctx event (ms_of (tx_now env)) db2) (\<lambda>(eid, db3).
                  bindE (maybeEnsureTurn env ctx eid db3) (\<lambda>db4.
                  Inr ((True, Some Outcome_unknown, Some eid, iid), db4))))))"

section \<open>Known result\<close>

record http_result =
  hr_status :: int
  hr_endpoint :: string
  hr_request_hex :: string
  hr_response_hex :: string
  hr_latency :: int
  hr_preq :: "string option"
  hr_usage :: jsval
  hr_captured :: "jsval option"
  hr_findings :: "int option"

datatype known_outcome =
  Http http_result | Blocked string "jsval option" | Local_error string

record finalize_result =
  fin_status :: run_status
  fin_invocation :: "string option"
  fin_event :: string
  fin_v4 :: "string option"
  fin_reconciled :: bool
  fin_duplicate :: bool

definition http_ok :: "http_result \<Rightarrow> bool" where
  "http_ok h = (200 \<le> hr_status h \<and> hr_status h < 300)"

definition terminal_of :: "known_outcome \<Rightarrow> run_status" where
  "terminal_of out = (case out of
     Http h \<Rightarrow> if http_ok h then Completed else Failed_run | Blocked _ _ \<Rightarrow> Denied | Local_error _ \<Rightarrow> Failed_run)"

definition terminal_types :: "string list" where
  "terminal_types = [''run.completed'', ''run.failed'', ''run.denied'']"

definition readTerminalEventMeta ::
  "string \<Rightarrow> string \<Rightarrow> 'a audit_db_scheme \<Rightarrow> run_error + jsval option" where
  "readTerminalEventMeta org rid db = (case pg_uuid rid of None \<Rightarrow> Inl RCast | Some r \<Rightarrow>
     let rows = sort_key ev_seq (filter (\<lambda>e. visible (Some org) e \<and> ev_subject_type e = ''run'' \<and>
                  ev_subject_id e = r \<and> ev_type e \<in> set terminal_types) (db_events db))
     in Inr (if rows = [] then None
             else if ev_redaction (last rows) = JNull then None else Some (ev_redaction (last rows))))"

definition or_else :: "'b option \<Rightarrow> 'b option \<Rightarrow> 'b option" where
  "or_else a b = (case a of None \<Rightarrow> b | Some x \<Rightarrow> Some x)"

definition meta_num :: "jsval option \<Rightarrow> string \<Rightarrow> rat option" where
  "meta_num m k = Option.bind m (\<lambda>v. num_prop v k)"

definition meta_str :: "jsval option \<Rightarrow> string \<Rightarrow> string option" where
  "meta_str m k = Option.bind m (\<lambda>v. str_prop v k)"

text \<open>The checks on a second known result for a run that is already terminal.\<close>

definition check_duplicate ::
  "string \<Rightarrow> string \<Rightarrow> string \<Rightarrow> known_outcome \<Rightarrow> 'a run_db_scheme \<Rightarrow> run_error + string option" where
  "check_duplicate org rid token out db =
     bindE (readTerminalEventMeta org rid db) (\<lambda>meta.
     case out of
       Http h \<Rightarrow>
         (case filter (\<lambda>i. in_org i = org \<and> Some (in_run i) = pg_uuid rid \<and>
                        in_token i = pg_uuid token \<and> in_token i \<noteq> None) (db_invs db) of
            [] \<Rightarrow> Inl (OutcomeConflict CNoInvocation)
          | i # _ \<Rightarrow>
              if in_endpoint i \<noteq> hr_endpoint h \<or> hex_of (in_request i) \<noteq> hr_request_hex h
              then Inl (OutcomeConflict CRequestIdentity)
              else
                let s0 = map_option rat_of_int (in_status i); h0 = map_option hex_of (in_response i);
                    knownStatus = or_else s0 (if s0 = None \<or> h0 = None
                      then or_else (meta_num meta ''status_code'') (meta_num meta ''error_status'') else None);
                    knownHash = or_else h0 (if s0 = None \<or> h0 = None
                      then meta_str meta ''native_response_hash'' else None)
                in if knownStatus = None \<or> knownHash = None then Inl (OutcomeConflict CUnverifiable)
                   else if knownStatus \<noteq> Some (of_int (hr_status h)) \<or> knownHash \<noteq> Some (hr_response_hex h)
                   then Inl (OutcomeConflict CDivergentResult)
                   else Inr (Some (in_id i)))
     | Blocked reason _ \<Rightarrow>
         if meta_str meta ''governed_block_reason'' = None then Inl (OutcomeConflict CBlockUnverifiable)
         else if meta_str meta ''governed_block_reason'' \<noteq> Some reason then Inl (OutcomeConflict CDivergentBlock)
         else Inr None
     | Local_error message \<Rightarrow>
         if meta_str meta ''error_class'' \<noteq> Some ''dispatch_pre_forward_failed'' \<or>
            meta_str meta ''error_message'' \<noteq> Some (take 200 message)
         then Inl (OutcomeConflict CLocalMismatch) else Inr None)"

definition boundary_binding :: "run_row \<Rightarrow> (string \<times> jsval) list" where
  "boundary_binding r = opt_str ''dispatch_boundary_committed_at'' (map_option iso_us (run_boundary r))"

definition findings_prop :: "int option \<Rightarrow> (string \<times> jsval) list" where
  "findings_prop n = (case n of None \<Rightarrow> [] | Some k \<Rightarrow> [(''finding_count'', JNum (Finite (of_int k)))])"

definition or_null :: "string option \<Rightarrow> jsval" where
  "or_null x = (case x of None \<Rightarrow> JNull | Some s \<Rightarrow> JStr s)"

text \<open>An empty string is falsy in \<open>...(x ? \{..\} : \{\})\<close>.\<close>

definition truthy_str :: "string \<Rightarrow> string option \<Rightarrow> (string \<times> jsval) list" where
  "truthy_str k x = (if x = Some [] then [] else opt_str k x)"

text \<open>The terminal event: its type, the text its payload hash is taken of, and its metadata.\<close>

definition terminal_event ::
  "(rat \<Rightarrow> string) \<Rightarrow> run_ctx \<Rightarrow> run_row \<Rightarrow> string option \<Rightarrow> known_outcome \<Rightarrow> string \<times> string \<times> jsval" where
  "terminal_event num ctx row iid out =
     (let bb = boundary_binding row;
          actor = [(''actor_user_id'', JStr (cx_actor ctx)), (''run_mode'', JStr (cx_mode ctx))];
          policy = truthy_str ''policy_decision_id'' (cx_policy ctx);
          observe = (if cx_mode ctx = ''passthrough'' then [(''enforcement'', JStr ''observe'')] else []);
          called = [(''provider'', JStr (cx_provider ctx)), (''capability'', JStr (cx_capability ctx))] @ policy @
            [(''provider_invocation_id'', or_null iid)]
      in case out of
        Http h \<Rightarrow>
          let hashes = [(''native_request_hash'', JStr (hr_request_hex h)),
                        (''native_response_hash'', JStr (hr_response_hex h))];
              status = JNum (Finite (of_int (hr_status h)))
          in if http_ok h then
               (''run.completed'',
                json_text num (JObj ([(''run_id'', JStr (cx_run ctx)), (''provider_invocation_id'', or_null iid),
                  (''policy_decision_id'', or_null (cx_policy ctx)), (''provider_request_id'', or_null (hr_preq h)),
                  (''status_code'', status)] @ hashes @ findings_prop (hr_findings h) @ bb)),
                JObj (actor @ observe @ called @ [(''status_code'', status)] @ hashes @
                  truthy_str ''provider_request_id'' (hr_preq h) @ findings_prop (hr_findings h) @ bb))
             else
               (''run.failed'',
                json_text num (JObj ([(''run_id'', JStr (cx_run ctx)), (''error_status'', status),
                  (''error_class'', JStr ''provider_error'')] @ hashes @ bb)),
                JObj (actor @ observe @ called @ [(''error_status'', status),
                  (''error_class'', JStr ''provider_error'')] @ hashes @ bb))
      | Blocked reason _ \<Rightarrow>
          (''run.denied'', ''governed_blocked:'' @ reason,
           JObj (actor @ policy @ [(''governed_block_reason'', JStr reason),
             (''provider_call_count'', JNum (Finite 0))]))
      | Local_error message \<Rightarrow>
          (''run.failed'',
           json_text num (JObj ([(''run_id'', JStr (cx_run ctx)),
             (''error_class'', JStr ''dispatch_pre_forward_failed''),
             (''error_message'', JStr (take 200 message))] @ bb)),
           JObj (actor @ policy @ [(''error_class'', JStr ''dispatch_pre_forward_failed''),
             (''error_message'', JStr (take 200 message)), (''provider_call_count'', JNum (Finite 0))] @ bb)))"

definition known_invocation :: "tx_env \<Rightarrow> string \<Rightarrow> http_result \<Rightarrow> invocation" where
  "known_invocation env token h =
     \<lparr> in_id = tx_inv env, in_run = [], in_org = [], in_provider = [], in_endpoint = hr_endpoint h,
       in_request = from_hex (hr_request_hex h), in_response = Some (from_hex (hr_response_hex h)),
       in_status = Some (hr_status h), in_latency = Some (hr_latency h), in_preq = hr_preq h,
       in_error = (if http_ok h then None else Some ''provider_error''), in_usage = hr_usage h,
       in_token = Some token \<rparr>"

definition captured_v4 :: "known_outcome \<Rightarrow> jsval option" where
  "captured_v4 out = (case out of Http h \<Rightarrow> hr_captured h | Blocked _ v \<Rightarrow> v | Local_error _ \<Rightarrow> None)"

definition known_update :: "int \<Rightarrow> known_outcome \<Rightarrow> run_row \<Rightarrow> run_row" where
  "known_update now out r =
     r\<lparr> run_status := terminal_of out, run_completed_at := Some now,
        run_error := (case out of Local_error _ \<Rightarrow> Some ''dispatch_pre_forward_failed'' | _ \<Rightarrow> None) \<rparr>"

definition reconciled_event :: "run_ctx \<Rightarrow> string \<Rightarrow> string option \<Rightarrow> http_result \<Rightarrow> int \<Rightarrow> jsval" where
  "reconciled_event ctx token iid h now = JObj
     [(''event_type'', JStr ''run.outcome_reconciled''), (''schema_version'', JNum (Finite 1)),
      (''org_id'', JStr (cx_org ctx)), (''run_id'', JStr (cx_run ctx)),
      (''previous_status'', JStr ''outcome_unknown''),
      (''final_status'', JStr (if http_ok h then ''completed'' else ''failed'')),
      (''dispatch_token'', JStr token), (''provider_invocation_id'', or_null iid),
      (''native_request_hash'', JStr (hr_request_hex h)), (''native_response_hash'', JStr (hr_response_hex h)),
      (''occurred_at'', JStr (iso_us now)), (''chain_category'', JStr ''run'')]"

text \<open>
  On a run that is running or unknown: 1. the invocation, 2. the run row, 3. the captured event,
  4. the reconciliation, 5. the terminal event and the turn.
\<close>

definition record_invocation ::
  "tx_env \<Rightarrow> run_ctx \<Rightarrow> string \<Rightarrow> known_outcome \<Rightarrow> 'a run_db_scheme \<Rightarrow> run_error + string option \<times> 'a run_db_scheme" where
  "record_invocation env ctx token out db = (case out of
       Http h \<Rightarrow> bindE (insertOrReuseInvocation ctx (known_invocation env token h) db)
                  (\<lambda>((iid, _), db'). Inr (Some iid, db'))
     | _ \<Rightarrow> Inr (None, db))"

definition record_captured ::
  "crypto \<Rightarrow> tx_env \<Rightarrow> run_ctx \<Rightarrow> known_outcome \<Rightarrow> 'a run_db_scheme \<Rightarrow> run_error + string option \<times> 'a run_db_scheme" where
  "record_captured cr env ctx out db = (case captured_v4 out of
       None \<Rightarrow> Inr (None, db)
     | Some v4 \<Rightarrow> bindE (persistCapturedV4 cr (tx_event2 env) ctx v4 (ms_of (tx_now env)) db)
                    (\<lambda>(eid, db'). Inr (Some eid, db')))"

definition record_reconciled ::
  "zod_formats \<Rightarrow> crypto \<Rightarrow> tx_env \<Rightarrow> run_ctx \<Rightarrow> string \<Rightarrow> run_row \<Rightarrow> string option \<Rightarrow> known_outcome \<Rightarrow> 'a run_db_scheme
   \<Rightarrow> run_error + bool \<times> 'a run_db_scheme" where
  "record_reconciled z cr env ctx token row iid out db = (case out of
       Http h \<Rightarrow>
         if run_status row = Outcome_unknown \<and> iid \<noteq> None then
           let event = reconciled_event ctx token iid h (tx_now env)
           in if \<not> RunOutcomeReconciledSchema z event then Inl RSchema
              else bindE (appendLifecycleEvent cr (tx_event3 env) ctx event (ms_of (tx_now env)) db)
                     (\<lambda>(_, db'). Inr (True, db'))
         else Inr (False, db)
     | _ \<Rightarrow> Inr (False, db))"

definition record_known ::
  "zod_formats \<Rightarrow> crypto \<Rightarrow> tx_env \<Rightarrow> run_ctx \<Rightarrow> string \<Rightarrow> run_row \<Rightarrow> known_outcome \<Rightarrow> 'a run_db_scheme
   \<Rightarrow> run_error + finalize_result \<times> 'a run_db_scheme" where
  "record_known z cr env ctx token row out db =
     bindE (record_invocation env ctx token out db) (\<lambda>(iid, db1).
     bindE (update_run (cx_org ctx) (cx_run ctx) (\<lambda>_. True) (known_update (tx_now env) out) db1) (\<lambda>(_, db2).
     bindE (record_captured cr env ctx out db2) (\<lambda>(v4EventId, db3).
     bindE (record_reconciled z cr env ctx token row iid out db3) (\<lambda>(reconciled, db4).
     case terminal_event (num_text cr) ctx row iid out of (typ, payload, red) \<Rightarrow>
     bindE (appendTerminalRunEvent cr (tx_event env) ctx typ (ms_of (tx_now env)) payload red db4) (\<lambda>(eid, db5).
     bindE (maybeEnsureTurn env ctx eid db5) (\<lambda>db6.
     Inr (\<lparr> fin_status = terminal_of out, fin_invocation = iid, fin_event = eid, fin_v4 = v4EventId,
            fin_reconciled = reconciled, fin_duplicate = False \<rparr>, db6)))))))"

definition finalizeKnownOutcome ::
  "zod_formats \<Rightarrow> crypto \<Rightarrow> tx_env \<Rightarrow> run_ctx \<Rightarrow> string \<Rightarrow> known_outcome \<Rightarrow> 'a run_db_scheme
   \<Rightarrow> run_error + finalize_result \<times> 'a run_db_scheme" where
  "finalizeKnownOutcome z cr env ctx token out db = withTenantTx (cx_org ctx)
     (bindE (select_run (cx_org ctx) (cx_run ctx) db) (\<lambda>found. case found of
        None \<Rightarrow> Inl TokenMismatch
      | Some row \<Rightarrow>
          if run_token row \<noteq> Some token then Inl TokenMismatch
          else if run_status row \<in> {Completed, Failed_run, Denied} then
            if run_status row \<noteq> terminal_of out
            then Inl (OutcomeConflict (CAlreadyTerminal (run_status row) (terminal_of out)))
            else bindE (check_duplicate (cx_org ctx) (cx_run ctx) token out db) (\<lambda>iid.
              Inr (\<lparr> fin_status = run_status row, fin_invocation = iid, fin_event = [], fin_v4 = None,
                     fin_reconciled = False, fin_duplicate = True \<rparr>, db))
          else if run_status row \<noteq> Running \<and> run_status row \<noteq> Outcome_unknown
          then Inl (OutcomeConflict (CNotAccepting (run_status row)))
          else record_known z cr env ctx token row out db))"

section \<open>Recovery of one run\<close>

definition recoveryEventCtx :: "string \<Rightarrow> string \<Rightarrow> run_row \<Rightarrow> event_ctx" where
  "recoveryEventCtx org rid r =
     \<lparr> cx_org = org, cx_run = rid, cx_chain = org @ '':run'',
       cx_workroom = (case (run_workroom r, run_participant r) of (Some w, Some p) \<Rightarrow> Some (w, p) | _ \<Rightarrow> None) \<rparr>"

definition recovered_meta :: "run_row \<Rightarrow> string \<Rightarrow> jsval" where
  "recovered_meta r errorClass = JObj [(''actor_user_id'', JStr (run_actor r)), (''run_mode'', JStr (run_mode r)),
     (''error_class'', JStr errorClass), (''provider_call_count'', JNum (Finite 0)),
     (''recovered_by'', JStr ''run_dispatch_recovery'')]"

definition queued_stale :: "int \<Rightarrow> int \<Rightarrow> run_row \<Rightarrow> bool" where
  "queued_stale now graceMs r = (run_protocol r = Some 1 \<and> run_status r = Queued \<and> run_token r = None \<and>
     (case run_prepared_at r of None \<Rightarrow> False | Some t \<Rightarrow> t < now - graceMs * 1000))"

definition running_stale :: "int \<Rightarrow> int \<Rightarrow> run_row \<Rightarrow> bool" where
  "running_stale now graceMs r = (run_protocol r = Some 1 \<and> run_status r = Running \<and>
     (case run_deadline r of None \<Rightarrow> False | Some d \<Rightarrow> d + graceMs * 1000 < now))"

text \<open>\<open>SELECT .. FOR UPDATE SKIP LOCKED\<close>.\<close>

definition select_unlocked ::
  "tx_env \<Rightarrow> string \<Rightarrow> string \<Rightarrow> (run_row \<Rightarrow> bool) \<Rightarrow> 'a run_db_scheme \<Rightarrow> run_error + run_row option" where
  "select_unlocked env org rid cond db = bindE (select_run org rid db) (\<lambda>found.
     Inr (case found of None \<Rightarrow> None
          | Some r \<Rightarrow> if cond r \<and> run_id r \<notin> set (tx_locked env) then Some r else None))"

definition recoverQueuedStale ::
  "crypto \<Rightarrow> tx_env \<Rightarrow> string \<Rightarrow> string \<Rightarrow> int \<Rightarrow> 'a run_db_scheme \<Rightarrow> run_error + bool \<times> 'a run_db_scheme" where
  "recoverQueuedStale cr env org rid preparedGraceMs db = withTenantTx org
     (bindE (select_unlocked env org rid (queued_stale (tx_now env) preparedGraceMs) db) (\<lambda>found. case found of
        None \<Rightarrow> Inr (False, db)
      | Some r \<Rightarrow>
          bindE (update_run org rid (\<lambda>_. True) (fail_update (tx_now env) ''dispatch_never_claimed'') db) (\<lambda>(_, db1).
          let ctx = recoveryEventCtx org rid r in
          bindE (appendTerminalRunEvent cr (tx_event env) ctx ''run.failed'' (ms_of (tx_now env))
                   (''dispatch_never_claimed:'' @ rid) (recovered_meta r ''dispatch_never_claimed'') db1) (\<lambda>(eid, db2).
          bindE (maybeEnsureTurn env ctx eid db2) (\<lambda>db3. Inr (True, db3))))))"

datatype running_recovery = Not_recovered | Failed_never_started | Recovered_unknown

definition recoverRunningStale ::
  "zod_formats \<Rightarrow> crypto \<Rightarrow> tx_env \<Rightarrow> string \<Rightarrow> string \<Rightarrow> int \<Rightarrow> 'a run_db_scheme
   \<Rightarrow> run_error + running_recovery \<times> 'a run_db_scheme" where
  "recoverRunningStale z cr env org rid recoveryGraceMs db = withTenantTx org
     (bindE (select_unlocked env org rid (running_stale (tx_now env) recoveryGraceMs) db) (\<lambda>found.
      case found of
        None \<Rightarrow> Inr (Not_recovered, db)
      | Some r \<Rightarrow>
        (case run_token r of
          None \<Rightarrow> Inr (Not_recovered, db)
        | Some token \<Rightarrow>
          let ctx = recoveryEventCtx org rid r in
          if run_boundary r = None then
            bindE (update_run org rid (\<lambda>_. True) (fail_update (tx_now env) ''dispatch_never_started'') db) (\<lambda>(_, db1).
            bindE (appendTerminalRunEvent cr (tx_event env) ctx ''run.failed'' (ms_of (tx_now env))
                     (''dispatch_never_started:'' @ rid) (recovered_meta r ''dispatch_never_started'') db1) (\<lambda>(eid, db2).
            bindE (maybeEnsureTurn env ctx eid db2) (\<lambda>db3. Inr (Failed_never_started, db3))))
          else
            bindE (update_run org rid (\<lambda>_. True) (unknown_update (tx_now env) ''stale_dispatch_claim'') db) (\<lambda>(_, db1).
            let event = unknown_event org rid token ''stale_dispatch_claim'' ''not_observed''
                          (run_boundary r) (tx_now env)
            in if \<not> RunOutcomeUnknownSchema z event then Inl RSchema
               else bindE (appendLifecycleEvent cr (tx_event env) ctx event (ms_of (tx_now env)) db1) (\<lambda>(eid, db2).
                    bindE (maybeEnsureTurn env ctx eid db2) (\<lambda>db3. Inr (Recovered_unknown, db3)))))))"

section \<open>The whole protocol as one step\<close>

text \<open>
  The durable part of the preparing transaction (\<open>run-orchestrator.ts\<close>): the run row with
  protocol 1, then its prepared event. \<open>cx_run\<close> is the random run id.
\<close>

definition prepareRun ::
  "zod_formats \<Rightarrow> crypto \<Rightarrow> tx_env \<Rightarrow> run_ctx \<Rightarrow> string \<Rightarrow> string option \<Rightarrow> 'a run_db_scheme
   \<Rightarrow> run_error + string \<times> 'a run_db_scheme" where
  "prepareRun z cr env ctx reqHashHex approval db = withTenantTx (cx_org ctx)
     (case pg_uuid (cx_run ctx) of None \<Rightarrow> Inl RCast
      | Some u \<Rightarrow>
          if list_ex (\<lambda>r. run_id r = u) (db_runs db) then Inl RUnique
          else
            let row = \<lparr> run_id = u, run_org = cx_org ctx, run_actor = cx_actor ctx, run_mode = cx_mode ctx,
                  run_workroom = map_option fst (cx_workroom ctx),
                  run_participant = map_option snd (cx_workroom ctx), run_created_at = tx_now env,
                  run_status = Queued, run_protocol = Some 1, run_prepared_at = Some (tx_now env),
                  run_token = None, run_claimed_at = None, run_started_at = None, run_timeout_ms = None,
                  run_deadline = None, run_boundary = None, run_completed_at = None,
                  run_unknown_at = None, run_error = None \<rparr>
            in appendDispatchPreparedEvent z cr env ctx reqHashHex approval (ms_of (tx_now env))
                 (db\<lparr> db_runs := db_runs db @ [row] \<rparr>))"

text \<open>
  The only assumption on \<open>randomUUID()\<close> is that the id of a new run is not yet the subject of an
  event or the run of an invocation.
\<close>

inductive dispatch_step :: "zod_formats \<Rightarrow> crypto \<Rightarrow> 'a run_db_scheme \<Rightarrow> 'a run_db_scheme \<Rightarrow> bool" for z cr where
  prepare: "prepareRun z cr env ctx h ap db = Inr (eid, db') \<Longrightarrow>
     (\<forall>e \<in> set (db_events db). ev_subject_id e \<noteq> lower (cx_run ctx)) \<Longrightarrow>
     (\<forall>i \<in> set (db_invs db). in_run i \<noteq> lower (cx_run ctx)) \<Longrightarrow> dispatch_step z cr db db'"
| claim: "claimDispatch z cr env ctx ms db = Inr (cl, db') \<Longrightarrow> dispatch_step z cr db db'"
| boundary: "commitDispatchBoundary env org rid tk db = Inr (br, db') \<Longrightarrow> dispatch_step z cr db db'"
| no_boundary: "failBoundaryNotEstablished cr env ctx tk db = Inr (fr, db') \<Longrightarrow> dispatch_step z cr db db'"
| preclaim: "failPreclaim cr env ctx msg db = Inr (b, db') \<Longrightarrow> dispatch_step z cr db db'"
| unknown: "markOutcomeUnknown z cr env ctx tk cls ob iv db = Inr (ur, db') \<Longrightarrow> dispatch_step z cr db db'"
| known: "finalizeKnownOutcome z cr env ctx tk out db = Inr (fin, db') \<Longrightarrow> dispatch_step z cr db db'"
| recover_queued: "recoverQueuedStale cr env org rid g db = Inr (b, db') \<Longrightarrow> dispatch_step z cr db db'"
| recover_running: "recoverRunningStale z cr env org rid g db = Inr (rr, db') \<Longrightarrow> dispatch_step z cr db db'"

section \<open>The lifecycle of a run\<close>

text \<open>
  The specification the operations implement, in its own words: when one run may move, what the row
  is afterwards, which events the move writes, and which invocation it may leave: none, the trace
  of a call with unknown result, or the call with its result.
\<close>

fun result_status :: "known_outcome \<Rightarrow> run_status" where
  "result_status (Http h) = (if 200 \<le> hr_status h \<and> hr_status h \<le> 299 then Completed else Failed_run)"
| "result_status (Blocked _ _) = Denied"
| "result_status (Local_error _) = Failed_run"

fun result_error :: "known_outcome \<Rightarrow> string option" where
  "result_error (Http _) = None"
| "result_error (Blocked _ _) = None"
| "result_error (Local_error _) = Some ''dispatch_pre_forward_failed''"

definition reported :: "known_outcome \<Rightarrow> string list" where
  "reported out = [case result_status out of Completed \<Rightarrow> ''run.completed'' | Denied \<Rightarrow> ''run.denied'' | _ \<Rightarrow> ''run.failed'']"

definition no_call :: "invocation \<Rightarrow> bool" where "no_call i = False"
definition trace_only :: "invocation \<Rightarrow> bool" where "trace_only i = (in_status i = None \<and> in_response i = None)"

definition call_of :: "known_outcome \<Rightarrow> invocation \<Rightarrow> bool" where
  "call_of out i = (case out of
     Http h \<Rightarrow> in_status i = Some (hr_status h) \<and> in_response i = Some (from_hex (hr_response_hex h)) | _ \<Rightarrow> False)"

inductive run_move :: "run_row \<Rightarrow> string list \<Rightarrow> (invocation \<Rightarrow> bool) \<Rightarrow> run_row \<Rightarrow> bool" where
  claim: "run_status r = Queued \<Longrightarrow> run_protocol r = Some 1 \<Longrightarrow> run_token r = None \<Longrightarrow> lower t = t \<Longrightarrow>
     run_move r [''run.dispatch_claimed''] no_call
       (r\<lparr> run_status := Running, run_token := Some t, run_claimed_at := Some now, run_started_at := Some now,
           run_timeout_ms := Some ms, run_deadline := Some (now + ms * 1000) \<rparr>)"
| boundary: "run_status r = Running \<Longrightarrow> run_token r = Some t \<Longrightarrow> run_boundary r = None \<Longrightarrow> run_deadline r = Some d \<Longrightarrow>
     clock < d \<Longrightarrow> run_move r [] no_call (r\<lparr> run_boundary := Some clock \<rparr>)"
| never_claimed: "run_status r = Queued \<Longrightarrow> run_protocol r = Some 1 \<Longrightarrow> run_token r = None \<Longrightarrow>
     c \<in> {''dispatch_preclaim_failed'', ''dispatch_never_claimed''} \<Longrightarrow>
     run_move r [''run.failed''] no_call (r\<lparr> run_status := Failed_run, run_completed_at := Some now, run_error := Some c \<rparr>)"
| never_started: "run_status r = Running \<Longrightarrow> run_boundary r = None \<Longrightarrow>
     c \<in> {''dispatch_boundary_persist_failed'', ''dispatch_never_started''} \<Longrightarrow>
     run_move r [''run.failed''] no_call (r\<lparr> run_status := Failed_run, run_completed_at := Some now, run_error := Some c \<rparr>)"
| unknown: "run_status r = Running \<Longrightarrow> run_boundary r \<noteq> None \<Longrightarrow>
     c \<in> {''provider_timeout'', ''provider_io_unknown'', ''stale_dispatch_claim''} \<Longrightarrow>
     run_move r [''run.outcome_unknown''] trace_only
       (r\<lparr> run_status := Outcome_unknown, run_unknown_at := Some now, run_error := Some c \<rparr>)"
| trace: "run_status r = Outcome_unknown \<Longrightarrow> run_move r [] trace_only r"
| known: "run_status r \<in> {Running, Outcome_unknown} \<Longrightarrow>
     typs \<in> {[], [''passthrough.invoked'']} \<Longrightarrow>
     recs = (case out of Http _ \<Rightarrow> if run_status r = Outcome_unknown then [''run.outcome_reconciled''] else [] | _ \<Rightarrow> []) \<Longrightarrow>
     run_move r (typs @ recs @ reported out) (call_of out)
       (r\<lparr> run_status := result_status out, run_completed_at := Some now, run_error := result_error out \<rparr>)"

text \<open>What a move adds to the tables: events of this run, one turn at most, one invocation at most.\<close>

definition new_events :: "string \<Rightarrow> string list \<Rightarrow> audit_event list \<Rightarrow> audit_event list \<Rightarrow> bool" where
  "new_events rid typs old upd \<longleftrightarrow> (\<exists>es. upd = old @ es \<and> map ev_type es = typs \<and>
     (\<forall>e \<in> set es. ev_subject_type e = ''run'' \<and> ev_subject_id e = rid))"

definition new_turns :: "string \<Rightarrow> workroom_turn list \<Rightarrow> workroom_turn list \<Rightarrow> bool" where
  "new_turns rid old upd \<longleftrightarrow> upd = old \<or> (\<exists>t. upd = old @ [t] \<and> tn_kind t = ''run_event'' \<and> tn_ref t = Some rid \<and>
     (\<forall>u \<in> set old. tn_id u \<noteq> tn_id t \<and> (tn_workroom u, tn_number u) \<noteq> (tn_workroom t, tn_number t) \<and>
        \<not> (tn_kind u = ''run_event'' \<and> tn_ref u = Some rid)))"

definition new_invs :: "(invocation \<Rightarrow> bool) \<Rightarrow> string \<Rightarrow> string \<Rightarrow> invocation list \<Rightarrow> invocation list \<Rightarrow> bool" where
  "new_invs P rid t old upd \<longleftrightarrow> upd = old \<or> (\<exists>i. upd = old @ [i] \<and> P i \<and> in_run i = rid \<and> in_token i = Some t \<and>
     (\<forall>j \<in> set old. in_id j \<noteq> in_id i \<and> \<not> (in_run j = rid \<and> in_token j = Some t)))"

text \<open>A run that ended with an answer of the provider has the call, under its own token.\<close>

definition has_result :: "run_row \<Rightarrow> bool" where
  "has_result r = (run_status r = Completed \<or> run_status r = Failed_run \<and> run_error r = None)"

definition answered :: "invocation list \<Rightarrow> run_row \<Rightarrow> bool" where
  "answered is r \<longleftrightarrow> (has_result r \<longrightarrow>
     list_ex (\<lambda>i. in_run i = run_id r \<and> in_token i \<noteq> None \<and> in_token i = map_option lower (run_token r)) is)"

definition effect ::
  "crypto \<Rightarrow> 'a run_db_scheme \<Rightarrow> run_row \<Rightarrow> string list \<Rightarrow> (invocation \<Rightarrow> bool) \<Rightarrow> run_row \<Rightarrow> 'a run_db_scheme \<Rightarrow> bool" where
  "effect cr db r typs b r' db' \<longleftrightarrow> r \<in> set (db_runs db) \<and>
     (r' = r \<and> db_runs db' = db_runs db \<or>
      runs_dispatch_v1_state_check r' \<and> timeout_check r' \<and> \<not> token_taken r' db \<and>
      db_runs db' = map (\<lambda>q. if run_id q = run_id r' then r' else q) (db_runs db)) \<and>
     new_events (run_id r) typs (db_events db) (db_events db') \<and> (store_ok cr db \<longrightarrow> store_ok cr db') \<and>
     new_turns (run_id r) (db_turns db) (db_turns db') \<and>
     (run_status r' \<in> {Queued, Running} \<longrightarrow> db_turns db' = db_turns db) \<and> answered (db_invs db') r' \<and>
     (db_invs db' = db_invs db \<or>
      (\<exists>t. run_token r = Some t \<and> new_invs b (run_id r) (lower t) (db_invs db) (db_invs db')))"

section \<open>What the parts of an operation do\<close>

lemma withTenantTx_Inr: "withTenantTx org b = Inr x \<longleftrightarrow> is_uuid org \<and> b = Inr x"
  by (simp add: withTenantTx_def)

lemma select_run_Some:
  assumes "select_run org rid db = Inr (Some r)"
  shows "r \<in> set (db_runs db)" "run_org r = org" "run_id r = lower rid" "is_uuid rid"
  using assms by (auto simp: select_run_def find_Some_iff run_visible_def dest: pg_uuid_SomeD split: option.splits)

lemma update_run_Inr:
  assumes "update_run org rid cond f db = Inr (x, db')"
  obtains (none) "x = None" "db' = db"
  | (some) r where "x = Some (f r)" "select_run org rid db = Inr (Some r)" "cond r"
      "runs_dispatch_v1_state_check (f r)" "timeout_check (f r)" "\<not> token_taken (f r) db" "db' = put_run (f r) db"
  using assms by (auto simp: update_run_def bindE_Inr_iff split: option.splits if_splits)

text \<open>The parts that write events, turns and invocations leave the other tables alone.\<close>

definition logged :: "crypto \<Rightarrow> string \<Rightarrow> string list \<Rightarrow> 'a run_db_scheme \<Rightarrow> 'a run_db_scheme \<Rightarrow> bool" where
  "logged cr rid typs db db' \<longleftrightarrow> new_events rid typs (db_events db) (db_events db') \<and> (store_ok cr db \<longrightarrow> store_ok cr db') \<and>
     db_runs db' = db_runs db \<and> db_invs db' = db_invs db \<and> db_turns db' = db_turns db"

definition turned :: "string \<Rightarrow> 'a run_db_scheme \<Rightarrow> 'a run_db_scheme \<Rightarrow> bool" where
  "turned rid db db' \<longleftrightarrow> new_turns rid (db_turns db) (db_turns db') \<and>
     db_runs db' = db_runs db \<and> db_invs db' = db_invs db \<and> db_events db' = db_events db \<and>
     db_payloads db' = db_payloads db"

definition traced :: "(invocation \<Rightarrow> bool) \<Rightarrow> string \<Rightarrow> string \<Rightarrow> 'a run_db_scheme \<Rightarrow> 'a run_db_scheme \<Rightarrow> bool" where
  "traced P rid t db db' \<longleftrightarrow> new_invs P rid t (db_invs db) (db_invs db') \<and>
     db_runs db' = db_runs db \<and> db_events db' = db_events db \<and> db_turns db' = db_turns db \<and>
     db_payloads db' = db_payloads db"

lemma new_events_refl: "new_events rid [] es es"
  by (simp add: new_events_def)

lemma logged_refl: "logged cr rid [] db db"
  by (simp add: logged_def new_events_refl)

lemma turned_refl: "turned rid db db"
  by (simp add: turned_def new_turns_def)

lemma traced_refl: "traced P rid t db db"
  by (simp add: traced_def new_invs_def)

lemma new_events_trans:
  assumes "new_events rid xs a b" "new_events rid ys b c"
  shows "new_events rid (xs @ ys) a c"
proof -
  from assms obtain es fs where "b = a @ es" "map ev_type es = xs" "c = b @ fs" "map ev_type fs = ys"
    "\<forall>e \<in> set es. ev_subject_type e = ''run'' \<and> ev_subject_id e = rid"
    "\<forall>e \<in> set fs. ev_subject_type e = ''run'' \<and> ev_subject_id e = rid"
    by (auto simp: new_events_def)
  then show ?thesis unfolding new_events_def by (intro exI [of _ "es @ fs"]) auto
qed

lemma logged_trans: "logged cr rid xs a b \<Longrightarrow> logged cr rid ys b c \<Longrightarrow> logged cr rid (xs @ ys) a c"
  by (auto simp: logged_def intro: new_events_trans)

lemma append_run_event_Inr:
  fixes db :: "'a audit_db_scheme"
  assumes "append_run_event cr re ctx typ ver occ ph red db = Inr (eid, db')"
  obtains row where "db' = db\<lparr> db_events := db_events db @ [row] \<rparr>" "visible (Some (cx_org ctx)) row"
    "ev_type row = typ" "ev_subject_type row = ''run''" "ev_subject_id row = lower (cx_run ctx)"
    "ev_redaction row = to_jsonb red" "ev_id row = lower eid" "eid = re" "is_uuid (cx_run ctx)"
    "ev_seq row = (case chain_head (Some (cx_org ctx)) (cx_chain ctx) db of None \<Rightarrow> 0 | Some h \<Rightarrow> ev_seq h) + 1"
    "store_ok cr db \<Longrightarrow> store_ok cr db'"
proof -
  from assms obtain out where a: "auditAppend cr (Some (cx_org ctx)) re [] (run_event_input ctx typ ver occ ph red) db = Inr (out, db')"
    and eid: "eid = ao_event_id out"
    by (auto simp: append_run_event_def split: sum.splits)
  from a show thesis
  proof (cases rule: auditAppend_cases)
    case (reuse e row)
    then show ?thesis by (simp add: run_event_input_def)
  next
    case (fresh row e pid)
    from fresh(5) have cols: "ev_type row = typ" "ev_subject_type row = ''run''"
      "ev_subject_id row = lower (cx_run ctx)" "ev_redaction row = to_jsonb red" "ev_id row = lower e" "is_uuid (cx_run ctx)"
      "ev_seq row = (case chain_head (Some (cx_org ctx)) (cx_chain ctx) db of None \<Rightarrow> 0 | Some h \<Rightarrow> ev_seq h) + 1"
      by (rule event_row_Inr; simp add: run_event_input_def)+
    have "visible (Some (cx_org ctx)) row" "db' = db\<lparr> db_events := db_events db @ [row] \<rparr>"
      by (rule audit_append_lockedE [OF fresh(6)]; simp add: run_event_input_def)+
    moreover have "e = re" using fresh(3) by (simp add: run_event_input_def)
    ultimately show ?thesis using cols fresh(7) eid append_step [OF a]
      by (intro that) (auto intro: audit_log.inv_step)
  qed
qed

lemma append_run_event_logged:
  fixes db :: "'a run_db_scheme"
  assumes "append_run_event cr re ctx typ ver occ ph red db = Inr (eid, db')"
  shows "logged cr (lower (cx_run ctx)) [typ] db db'"
  using assms by (rule append_run_event_Inr) (auto simp: logged_def new_events_def)

lemma appendTerminal_logged:
  fixes db :: "'a run_db_scheme"
  shows "appendTerminalRunEvent cr re ctx typ occ pl red db = Inr (eid, db') \<Longrightarrow> logged cr (lower (cx_run ctx)) [typ] db db'"
  unfolding appendTerminalRunEvent_def by (rule append_run_event_logged)

lemma appendLifecycle_logged:
  fixes db :: "'a run_db_scheme"
  assumes "appendLifecycleEvent cr re ctx event occ db = Inr (eid, db')" "str_prop event ''event_type'' = Some typ"
  shows "logged cr (lower (cx_run ctx)) [typ] db db'"
  using assms by (auto simp: appendLifecycleEvent_def split: sum.splits intro: append_run_event_logged)

lemma ensureRunEventTurn_turned:
  fixes db :: "'a run_db_scheme"
  assumes "ensureRunEventTurn rnd org w p rid eid db = Inr (b, db')"
  shows "turned (lower rid) db db'"
proof -
  obtain w' p' r e where c: "pg_uuid w = Some w'" "pg_uuid p = Some p'" "pg_uuid rid = Some r" "pg_uuid eid = Some e"
    using assms by (auto simp: ensureRunEventTurn_def split: option.splits)
  then have r: "r = lower rid" by (auto dest: pg_uuid_SomeD)
  show ?thesis
  proof (cases "list_ex (\<lambda>t. tn_org t = org \<and> tn_kind t = ''run_event'' \<and> tn_ref t = Some r) (db_turns db)")
    case True
    with assms c show ?thesis by (auto simp: ensureRunEventTurn_def turned_refl)
  next
    case False
    define n where "n = Max (insert 0 (tn_number ` {t \<in> set (db_turns db). tn_org t = org \<and> tn_workroom t = w'})) + 1"
    define t where "t = \<lparr> tn_id = rnd, tn_org = org, tn_workroom = w', tn_number = n, tn_actor = p',
                         tn_kind = ''run_event'', tn_event = e, tn_ref = Some r \<rparr>"
    have e: "ensureRunEventTurn rnd org w p rid eid db =
       (if list_ex (\<lambda>t. tn_id t = rnd \<or> (tn_workroom t = w' \<and> tn_number t = n) \<or>
                      (tn_kind t = ''run_event'' \<and> tn_ref t = Some r)) (db_turns db)
        then Inl RUnique else Inr (True, db\<lparr> db_turns := db_turns db @ [t] \<rparr>))"
      unfolding ensureRunEventTurn_def c option.case prod.case if_not_P [OF False] Let_def n_def t_def by (rule refl)
    with assms have free: "\<not> list_ex (\<lambda>t. tn_id t = rnd \<or> (tn_workroom t = w' \<and> tn_number t = n) \<or>
                      (tn_kind t = ''run_event'' \<and> tn_ref t = Some r)) (db_turns db)"
      and db': "db' = db\<lparr> db_turns := db_turns db @ [t] \<rparr>" by (auto split: if_split_asm)
    from free show ?thesis
      by (auto simp: turned_def new_turns_def db' list_ex_iff t_def r)
  qed
qed

lemma maybeEnsureTurn_turned:
  fixes db :: "'a run_db_scheme"
  assumes "maybeEnsureTurn env ctx eid db = Inr db'"
  shows "turned (lower (cx_run ctx)) db db'"
proof (cases "cx_workroom ctx")
  case None
  with assms show ?thesis by (simp add: maybeEnsureTurn_def turned_refl)
next
  case (Some wp)
  with assms show ?thesis
    by (cases wp) (auto simp: maybeEnsureTurn_def bindE_Inr_iff dest: ensureRunEventTurn_turned)
qed

lemma insertOrReuse_traced:
  fixes db :: "'a run_db_scheme"
  assumes "insertOrReuseInvocation ctx nw db = Inr (ib, db')" "in_token nw = Some token"
  shows "traced (\<lambda>i. in_status i = in_status nw \<and> in_response i = in_response nw) (lower (cx_run ctx)) (lower token) db db'"
proof -
  obtain r t where c: "pg_uuid (cx_run ctx) = Some r" "pg_uuid token = Some t"
    using assms by (auto simp: insertOrReuseInvocation_def split: option.splits)
  then have rt: "r = lower (cx_run ctx)" "t = lower token" by (auto dest: pg_uuid_SomeD)
  show ?thesis
  proof (cases "list_ex (\<lambda>i. in_run i = r \<and> in_token i = Some t) (db_invs db)")
    case True
    with assms c have "db' = db"
      by (auto simp: insertOrReuseInvocation_def split: if_split_asm list.split_asm)
    then show ?thesis by (simp add: traced_refl)
  next
    case False
    define i where "i = nw\<lparr> in_run := r, in_org := cx_org ctx, in_provider := cx_provider ctx,
                       in_token := Some t, in_usage := json_value (in_usage nw) \<rparr>"
    have "db' = db\<lparr> db_invs := db_invs db @ [i] \<rparr>" "in_run i = r" "in_token i = Some t"
      "in_status i = in_status nw" "in_response i = in_response nw"
      "\<not> list_ex (\<lambda>j. in_id j = in_id i) (db_invs db)"
      using assms c False by (auto simp: insertOrReuseInvocation_def i_def split: if_split_asm)
    with False rt show ?thesis
      by (auto simp: traced_def new_invs_def list_ex_iff)
  qed
qed

lemma traced_mono: "traced P rid t db db' \<Longrightarrow> (\<And>i. P i \<Longrightarrow> Q i) \<Longrightarrow> traced Q rid t db db'"
  by (auto simp: traced_def new_invs_def)

section \<open>The operations implement the lifecycle\<close>

lemma put_run_sel [simp]:
  "db_events (put_run r db) = db_events db" "db_invs (put_run r db) = db_invs db"
  "db_turns (put_run r db) = db_turns db" "db_payloads (put_run r db) = db_payloads db"
  "db_runs (put_run r db) = map (\<lambda>q. if run_id q = run_id r then r else q) (db_runs db)"
  by (simp_all add: put_run_def)

lemma update_statuses [simp]:
  "run_status (claim_update now t ms r) = Running" "run_status (fail_update now c r) = Failed_run"
  "run_status (unknown_update now c r) = Outcome_unknown"
  "\<not> has_result (claim_update now t ms r)" "\<not> has_result (fail_update now c r)" "\<not> has_result (unknown_update now c r)"
  by (simp_all add: claim_update_def fail_update_def unknown_update_def has_result_def)

lemma update_spec:
  "claim_update now t ms r = r\<lparr> run_status := Running, run_token := Some t, run_claimed_at := Some now,
     run_started_at := Some now, run_timeout_ms := Some ms, run_deadline := Some (now + ms * 1000) \<rparr>"
  "fail_update now c r = r\<lparr> run_status := Failed_run, run_completed_at := Some now, run_error := Some c \<rparr>"
  "unknown_update now c r = r\<lparr> run_status := Outcome_unknown, run_unknown_at := Some now, run_error := Some c \<rparr>"
  by (simp_all add: claim_update_def fail_update_def unknown_update_def)

lemma terminal_spec: "terminal_of out = result_status out"
  by (cases out) (auto simp: terminal_of_def http_ok_def)

lemma known_spec: "known_update now out r =
    r\<lparr> run_status := result_status out, run_completed_at := Some now, run_error := result_error out \<rparr>"
  by (cases out) (simp_all add: known_update_def terminal_spec)

lemma has_result_known: "has_result (known_update now out r) \<longleftrightarrow> (\<exists>h. out = Http h)"
  by (cases out) (simp_all add: known_spec has_result_def)

text \<open>An operation assembled from its parts; the invocation comes before or after the run row.\<close>

lemma effect_parts:
  fixes db :: "'a run_db_scheme"
  assumes "r \<in> set (db_runs db)" "runs_dispatch_v1_state_check r'" "timeout_check r'" "\<not> token_taken r' db"
    and "db_runs db1 = map (\<lambda>q. if run_id q = run_id r' then r' else q) (db_runs db)"
      "db_events db1 = db_events db" "db_turns db1 = db_turns db" "db_payloads db1 = db_payloads db"
      "db_invs db1 = db_invs db \<or> (\<exists>t. run_token r = Some t \<and> new_invs b (run_id r) (lower t) (db_invs db) (db_invs db1))"
    and "logged cr (run_id r) typs db1 db2" and "turned (run_id r) db2 db3"
    and "run_status r' \<in> {Queued, Running} \<Longrightarrow> db_turns db3 = db_turns db2" and "answered (db_invs db1) r'"
  shows "effect cr db r typs b r' db3"
  using assms store_ok_cong [of db db1 cr] store_ok_cong [of db2 db3 cr]
  by (simp add: effect_def logged_def turned_def)

lemma effect_update:
  fixes db :: "'a run_db_scheme"
  assumes "r \<in> set (db_runs db)" "runs_dispatch_v1_state_check r'" "timeout_check r'" "\<not> token_taken r' db"
    and "logged cr (run_id r) typs (put_run r' db) db2" and "turned (run_id r) db2 db3"
    and "run_status r' \<in> {Queued, Running} \<Longrightarrow> db_turns db3 = db_turns db2" and "\<not> has_result r'"
  shows "effect cr db r typs b r' db3"
  using assms by (intro effect_parts [where ?db1.0 = "put_run r' db" and ?db2.0 = db2]) (simp_all add: answered_def)

lemma effect_trace:
  fixes db :: "'a run_db_scheme"
  assumes "r \<in> set (db_runs db)" "traced trace_only (run_id r) (lower t) db db'" "run_token r = Some t" "run_status r = Outcome_unknown"
  shows "effect cr db r [] trace_only r db'"
  using assms store_ok_cong [of db db' cr] by (auto simp: effect_def traced_def new_events_refl new_turns_def answered_def has_result_def)

text \<open>One operation on one run: nothing, or one move.\<close>

definition implements :: "crypto \<Rightarrow> 'a run_db_scheme \<Rightarrow> 'a run_db_scheme \<Rightarrow> bool" where
  "implements cr db db' \<longleftrightarrow> db' = db \<or> (\<exists>r typs b r'. run_move r typs b r' \<and> effect cr db r typs b r' db')"

lemma implementsI: "run_move r typs b r' \<Longrightarrow> effect cr db r typs b r' db' \<Longrightarrow> implements cr db db'"
  by (auto simp: implements_def)

lemma claim_implements:
  fixes db :: "'a run_db_scheme"
  assumes "claimDispatch z cr env ctx ms db = Inr (cl, db')"
  obtains (no) st where "cl = NotClaimed st" "db' = db"
  | (yes) r t where "cl = Claimed (tx_token env) (ms_of (tx_now env)) (ms_of (tx_now env + ms * 1000))"
      "pg_uuid (tx_token env) = Some t" "claim_cond r" "r \<in> set (db_runs db)" "run_id r = lower (cx_run ctx)"
      "effect cr db r [''run.dispatch_claimed''] no_call (claim_update (tx_now env) t ms r) db'"
proof -
  from assms obtain t upd db1 where t: "pg_uuid (tx_token env) = Some t" "int4 ms"
    and u: "update_run (cx_org ctx) (cx_run ctx) claim_cond (claim_update (tx_now env) t ms) db = Inr (upd, db1)"
    and rest: "(case upd of
        None \<Rightarrow> bindE (status_of (cx_org ctx) (cx_run ctx) db1) (\<lambda>st. Inr (NotClaimed st, db1))
      | Some row \<Rightarrow>
          let claimed = JStr (iso_us (tx_now env)); deadlineAt = tx_now env + ms * 1000;
              event = JObj [(''event_type'', JStr ''run.dispatch_claimed''),
                (''schema_version'', JNum (Finite 1)), (''org_id'', JStr (cx_org ctx)),
                (''run_id'', JStr (cx_run ctx)), (''dispatch_token'', JStr (tx_token env)),
                (''dispatch_timeout_ms'', JNum (Finite (of_int ms))),
                (''dispatch_claimed_at'', claimed),
                (''dispatch_deadline_at'', JStr (iso_us deadlineAt)),
                (''occurred_at'', claimed), (''chain_category'', JStr ''run'')]
          in if \<not> RunDispatchClaimedSchema z event then Inl RSchema
             else bindE (appendLifecycleEvent cr (tx_event env) ctx event (ms_of (tx_now env)) db1) (\<lambda>(_, db2).
               Inr (Claimed (tx_token env) (ms_of (tx_now env)) (ms_of deadlineAt), db2))) = Inr (cl, db')"
    by (auto simp: claimDispatch_def withTenantTx_Inr Let_def bindE_Inr_iff split: option.split_asm if_split_asm)
  from u show thesis
  proof (cases rule: update_run_Inr)
    case none
    with rest show ?thesis by (auto simp: bindE_Inr_iff intro: no)
  next
    case (some r)
    note sel = select_run_Some [OF some(2)]
    define ev where "ev = JObj [(''event_type'', JStr ''run.dispatch_claimed''),
                (''schema_version'', JNum (Finite 1)), (''org_id'', JStr (cx_org ctx)),
                (''run_id'', JStr (cx_run ctx)), (''dispatch_token'', JStr (tx_token env)),
                (''dispatch_timeout_ms'', JNum (Finite (of_int ms))),
                (''dispatch_claimed_at'', JStr (iso_us (tx_now env))),
                (''dispatch_deadline_at'', JStr (iso_us (tx_now env + ms * 1000))),
                (''occurred_at'', JStr (iso_us (tx_now env))), (''chain_category'', JStr ''run'')]"
    have ty: "str_prop ev ''event_type'' = Some ''run.dispatch_claimed''"
      by (simp add: ev_def str_prop_def obj_get_def)
    from rest [unfolded some(1) option.case Let_def, folded ev_def]
    obtain e where cl: "cl = Claimed (tx_token env) (ms_of (tx_now env)) (ms_of (tx_now env + ms * 1000))"
      and l: "appendLifecycleEvent cr (tx_event env) ctx ev (ms_of (tx_now env)) db1 = Inr (e, db')"
      by (auto simp: bindE_Inr_iff split: if_split_asm)
    have "logged cr (run_id r) [''run.dispatch_claimed''] (put_run (claim_update (tx_now env) t ms r) db) db'"
      using appendLifecycle_logged [OF l ty] sel(3) some(7) by simp
    then have "effect cr db r [''run.dispatch_claimed''] no_call (claim_update (tx_now env) t ms r) db'"
      using some(4-6) sel(1) by (intro effect_update [OF _ _ _ _ _ turned_refl]) simp_all
    with cl t some sel show ?thesis by (intro yes) auto
  qed
qed

lemma boundary_implements:
  fixes db :: "'a run_db_scheme"
  assumes "commitDispatchBoundary env org rid tk db = Inr (br, db')"
  obtains (no) why where "br = NotCommitted why" "db' = db"
  | (yes) r where "br = Committed (ms_of (tx_clock env))" "boundary_cond (tx_clock env) (lower tk) r"
      "r \<in> set (db_runs db)" "run_id r = lower rid" "run_org r = org"
      "db' = put_run (r\<lparr> run_boundary := Some (tx_clock env) \<rparr>) db"
      "effect cr db r [] no_call (r\<lparr> run_boundary := Some (tx_clock env) \<rparr>) db'"
proof -
  obtain t where t: "pg_uuid tk = Some t"
    using assms by (cases "pg_uuid tk") (simp_all add: commitDispatchBoundary_def withTenantTx_Inr)
  from assms [unfolded commitDispatchBoundary_def withTenantTx_Inr t option.case, THEN conjunct2]
  obtain q where q: "update_run org rid (boundary_cond (tx_clock env) t) (\<lambda>r. r\<lparr> run_boundary := Some (tx_clock env) \<rparr>) db = Inr q"
    and q': "(case q of (upd, db1) \<Rightarrow> case upd of
        Some _ \<Rightarrow> Inr (Committed (ms_of (tx_clock env)), db1)
      | None \<Rightarrow> bindE (select_run org rid db1) (\<lambda>found. Inr (NotCommitted (case found of
            None \<Rightarrow> Run_missing
          | Some row \<Rightarrow>
              if run_token row \<noteq> Some tk then Wrong_token
              else if run_boundary row \<noteq> None then Boundary_already_committed
              else if run_status row \<noteq> Running then Not_running
              else Deadline_expired), db1))) = Inr (br, db')"
    by (rule bindE_InrE)
  obtain upd db1 where qq: "q = (upd, db1)" by (cases q)
  note u = q [unfolded qq] and rest = q' [unfolded qq prod.case]
  have tk: "t = lower tk" using t by (auto dest: pg_uuid_SomeD)
  from u show thesis
  proof (cases rule: update_run_Inr)
    case none
    with rest show ?thesis by (auto simp: bindE_Inr_iff intro: no)
  next
    case (some r)
    note sel = select_run_Some [OF some(2)]
    have "effect cr db r [] no_call (r\<lparr> run_boundary := Some (tx_clock env) \<rparr>) db1"
      unfolding some(7) using some(3-6) sel(1)
      by (intro effect_update [OF _ _ _ _ logged_refl turned_refl]) (auto simp: has_result_def boundary_cond_def)
    with rest some sel tk show ?thesis by (intro yes) auto
  qed
qed

lemma terminal_tail:
  fixes db1 :: "'a run_db_scheme"
  assumes "bindE (appendTerminalRunEvent cr re ctx typ occ pl red db1) (\<lambda>(eid, db2).
      bindE (maybeEnsureTurn env ctx eid db2) (\<lambda>db3. Inr (g eid, db3))) = Inr (x, db')"
  obtains eid db2 where "appendTerminalRunEvent cr re ctx typ occ pl red db1 = Inr (eid, db2)"
    "maybeEnsureTurn env ctx eid db2 = Inr db'" "x = g eid"
    "logged cr (lower (cx_run ctx)) [typ] db1 db2" "turned (lower (cx_run ctx)) db2 db'"
  using assms by (auto simp: bindE_Inr_iff intro: appendTerminal_logged maybeEnsureTurn_turned)

lemma lifecycle_tail:
  fixes db1 :: "'a run_db_scheme"
  assumes "bindE (appendLifecycleEvent cr re ctx ev occ db1) (\<lambda>(eid, db2).
      bindE (maybeEnsureTurn env ctx eid db2) (\<lambda>db3. Inr (g eid, db3))) = Inr (x, db')"
    and "str_prop ev ''event_type'' = Some typ"
  obtains eid db2 where "appendLifecycleEvent cr re ctx ev occ db1 = Inr (eid, db2)"
    "maybeEnsureTurn env ctx eid db2 = Inr db'" "x = g eid"
    "logged cr (lower (cx_run ctx)) [typ] db1 db2" "turned (lower (cx_run ctx)) db2 db'"
  using assms by (auto simp: bindE_Inr_iff intro: appendLifecycle_logged maybeEnsureTurn_turned)

lemma no_boundary_implements:
  fixes db :: "'a run_db_scheme"
  assumes "failBoundaryNotEstablished cr env ctx tk db = Inr (fr, db')"
  obtains (no) st where "fr = (False, st, None)" "db' = db"
  | (yes) r eid where "fr = (True, Some Failed_run, Some eid)" "run_status r = Running" "run_boundary r = None"
      "run_id r = lower (cx_run ctx)"
      "effect cr db r [''run.failed''] no_call (fail_update (tx_now env) ''dispatch_boundary_persist_failed'' r) db'"
proof -
  from assms obtain t upd db1 where t: "pg_uuid tk = Some t"
    and u: "update_run (cx_org ctx) (cx_run ctx)
               (\<lambda>r. run_token r = Some t \<and> run_status r = Running \<and> run_boundary r = None)
               (fail_update (tx_now env) ''dispatch_boundary_persist_failed'') db = Inr (upd, db1)"
    and rest: "(case upd of
        None \<Rightarrow> bindE (status_of (cx_org ctx) (cx_run ctx) db1) (\<lambda>st. Inr ((False, st, None), db1))
      | Some _ \<Rightarrow>
          bindE (appendTerminalRunEvent cr (tx_event env) ctx ''run.failed'' (ms_of (tx_now env))
                   (''dispatch_boundary_persist_failed:'' @ cx_run ctx)
                   (no_call_meta ctx ''dispatch_boundary_persist_failed'' None) db1) (\<lambda>(eid, db2).
          bindE (maybeEnsureTurn env ctx eid db2) (\<lambda>db3.
          Inr ((True, Some Failed_run, Some eid), db3)))) = Inr (fr, db')"
    by (auto simp: failBoundaryNotEstablished_def withTenantTx_Inr bindE_Inr_iff split: option.split_asm)
  from u show thesis
  proof (cases rule: update_run_Inr)
    case none
    with rest show ?thesis by (auto simp: bindE_Inr_iff intro: no)
  next
    case (some r)
    note sel = select_run_Some [OF some(2)]
    from rest [unfolded some(1) option.case] obtain eid db2 where fr: "fr = (True, Some Failed_run, Some eid)"
      and l: "logged cr (lower (cx_run ctx)) [''run.failed''] db1 db2" "turned (lower (cx_run ctx)) db2 db'"
      by (rule terminal_tail)
    have "effect cr db r [''run.failed''] no_call (fail_update (tx_now env) ''dispatch_boundary_persist_failed'' r) db'"
      using l some(4-7) sel by (intro effect_update [where ?db2.0 = db2]) auto
    with fr some sel show ?thesis by (intro yes) auto
  qed
qed

lemma preclaim_implements:
  fixes db :: "'a run_db_scheme"
  assumes "failPreclaim cr env ctx msg db = Inr (b, db')"
  obtains (no) "\<not> b" "db' = db"
  | (yes) r where "b" "claim_cond r" "run_id r = lower (cx_run ctx)"
      "effect cr db r [''run.failed''] no_call (fail_update (tx_now env) ''dispatch_preclaim_failed'' r) db'"
proof -
  from assms obtain upd db1 where
    u: "update_run (cx_org ctx) (cx_run ctx) claim_cond (fail_update (tx_now env) ''dispatch_preclaim_failed'') db = Inr (upd, db1)"
    and rest: "(case upd of None \<Rightarrow> Inr (False, db1)
      | Some _ \<Rightarrow>
          bindE (appendTerminalRunEvent cr (tx_event env) ctx ''run.failed'' (ms_of (tx_now env))
                   (''dispatch_preclaim_failed:'' @ msg)
                   (no_call_meta ctx ''dispatch_preclaim_failed'' (Some (take 200 msg))) db1) (\<lambda>(eid, db2).
          bindE (maybeEnsureTurn env ctx eid db2) (\<lambda>db3. Inr (True, db3)))) = Inr (b, db')"
    by (auto simp: failPreclaim_def withTenantTx_Inr bindE_Inr_iff)
  from u show thesis
  proof (cases rule: update_run_Inr)
    case none
    with rest show ?thesis by (auto intro: no)
  next
    case (some r)
    note sel = select_run_Some [OF some(2)]
    from rest [unfolded some(1) option.case] obtain db2 where b: "b"
      and l: "logged cr (lower (cx_run ctx)) [''run.failed''] db1 db2" "turned (lower (cx_run ctx)) db2 db'"
      by (rule terminal_tail) simp
    have "effect cr db r [''run.failed''] no_call (fail_update (tx_now env) ''dispatch_preclaim_failed'' r) db'"
      using l some(4-7) sel by (intro effect_update [where ?db2.0 = db2]) auto
    with b some sel show ?thesis by (intro yes) auto
  qed
qed

lemma ensureInvocation_traced:
  fixes db :: "'a run_db_scheme"
  assumes "ensureInvocation env ctx tk ob iv db = Inr (iid, db')"
  shows "traced trace_only (lower (cx_run ctx)) (lower tk) db db'"
  using assms
  by (auto simp: ensureInvocation_def unknown_invocation_def bindE_Inr_iff traced_refl trace_only_def
      split: option.split_asm if_split_asm intro: traced_mono [OF insertOrReuse_traced])

lemma unknown_event_type: "str_prop (unknown_event og r t c ob b n) ''event_type'' = Some ''run.outcome_unknown''"
  by (simp add: unknown_event_def str_prop_def obj_get_def)

lemma unknown_implements:
  fixes db :: "'a run_db_scheme"
  assumes "markOutcomeUnknown z cr env ctx tk cls ob iv db = Inr (ur, db')"
  obtains (no) st where "ur = (False, st, None, None)" "db' = db"
  | (again) r iid where "ur = (False, Some Outcome_unknown, None, iid)" "run_status r = Outcome_unknown"
      "run_id r = lower (cx_run ctx)" "effect cr db r [] trace_only r db'"
  | (yes) r eid iid where "ur = (True, Some Outcome_unknown, Some eid, iid)" "run_status r = Running" "run_boundary r \<noteq> None"
      "run_id r = lower (cx_run ctx)"
      "effect cr db r [''run.outcome_unknown''] trace_only (unknown_update (tx_now env) (class_text cls) r) db'"
proof -
  obtain t where t: "pg_uuid tk = Some t"
    using assms by (cases "pg_uuid tk") (simp_all add: markOutcomeUnknown_def withTenantTx_Inr)
  from assms [unfolded markOutcomeUnknown_def withTenantTx_Inr t option.case, THEN conjunct2]
  obtain q where q: "update_run (cx_org ctx) (cx_run ctx)
               (\<lambda>r. run_token r = Some t \<and> run_status r = Running \<and> run_boundary r \<noteq> None)
               (unknown_update (tx_now env) (class_text cls)) db = Inr q"
    and q': "(case q of (upd, db1) \<Rightarrow> case upd of
        None \<Rightarrow>
          bindE (select_run (cx_org ctx) (cx_run ctx) db1) (\<lambda>found. case found of
            None \<Rightarrow> Inr ((False, None, None, None), db1)
          | Some row \<Rightarrow>
              if run_token row = Some tk \<and> run_status row = Outcome_unknown
              then bindE (ensureInvocation env ctx tk ob iv db1) (\<lambda>(iid, db2).
                     Inr ((False, Some (run_status row), None, iid), db2))
              else Inr ((False, Some (run_status row), None, None), db1))
      | Some row \<Rightarrow>
          bindE (ensureInvocation env ctx tk ob iv db1) (\<lambda>(iid, db2).
          let event = unknown_event (cx_org ctx) (cx_run ctx) tk (class_text cls) ob
                        (run_boundary row) (tx_now env)
          in if \<not> RunOutcomeUnknownSchema z event then Inl RSchema
             else bindE (appendLifecycleEvent cr (tx_event env) ctx event (ms_of (tx_now env)) db2) (\<lambda>(eid, db3).
                  bindE (maybeEnsureTurn env ctx eid db3) (\<lambda>db4.
                  Inr ((True, Some Outcome_unknown, Some eid, iid), db4))))) = Inr (ur, db')"
    by (rule bindE_InrE)
  obtain upd db1 where qq: "q = (upd, db1)" by (cases q)
  note u = q [unfolded qq] and rest = q' [unfolded qq prod.case]
  have tk: "t = lower tk" using t by (auto dest: pg_uuid_SomeD)
  from u show thesis
  proof (cases rule: update_run_Inr)
    case none
    from rest [unfolded none option.case] obtain found where f: "select_run (cx_org ctx) (cx_run ctx) db = Inr found"
      and rest': "(case found of
            None \<Rightarrow> Inr ((False, None, None, None), db)
          | Some row \<Rightarrow>
              if run_token row = Some tk \<and> run_status row = Outcome_unknown
              then bindE (ensureInvocation env ctx tk ob iv db) (\<lambda>(iid, db2).
                     Inr ((False, Some (run_status row), None, iid), db2))
              else Inr ((False, Some (run_status row), None, None), db)) = Inr (ur, db')"
      by (auto simp: bindE_Inr_iff)
    show ?thesis
    proof (cases "\<exists>row. found = Some row \<and> run_token row = Some tk \<and> run_status row = Outcome_unknown")
      case True
      then obtain row where row: "found = Some row" "run_token row = Some tk" "run_status row = Outcome_unknown" by blast
      note sel = select_run_Some [OF f [unfolded row(1)]]
      from rest' row obtain iid where "ensureInvocation env ctx tk ob iv db = Inr (iid, db')"
        and ur: "ur = (False, Some Outcome_unknown, None, iid)" by (auto simp: bindE_Inr_iff)
      then have "effect cr db row [] trace_only row db'"
        using ensureInvocation_traced [of env ctx tk ob iv db iid db'] sel row(2,3) by (intro effect_trace) auto
      with ur row sel show ?thesis by (intro again) auto
    next
      case False
      with rest' show ?thesis by (auto split: option.split_asm if_split_asm intro: no)
    qed
  next
    case (some r)
    note sel = select_run_Some [OF some(2)]
    from rest [unfolded some(1) option.case] obtain iid db2 where
      i: "ensureInvocation env ctx tk ob iv db1 = Inr (iid, db2)"
      and rest': "bindE (appendLifecycleEvent cr (tx_event env) ctx (unknown_event (cx_org ctx) (cx_run ctx) tk (class_text cls) ob
                        (run_boundary (unknown_update (tx_now env) (class_text cls) r)) (tx_now env)) (ms_of (tx_now env)) db2) (\<lambda>(eid, db3).
                  bindE (maybeEnsureTurn env ctx eid db3) (\<lambda>db4.
                  Inr ((True, Some Outcome_unknown, Some eid, iid), db4))) = Inr (ur, db')"
      by (auto simp: bindE_Inr_iff Let_def split: if_split_asm)
    from rest' unknown_event_type obtain eid db3 where ur: "ur = (True, Some Outcome_unknown, Some eid, iid)"
      and l: "logged cr (lower (cx_run ctx)) [''run.outcome_unknown''] db2 db3" "turned (lower (cx_run ctx)) db3 db'"
      by (rule lifecycle_tail)
    have "traced trace_only (lower (cx_run ctx)) (lower tk) db1 db2" using i by (rule ensureInvocation_traced)
    then have "effect cr db r [''run.outcome_unknown''] trace_only (unknown_update (tx_now env) (class_text cls) r) db'"
      using l some(3-7) sel tk by (intro effect_parts [where ?db1.0 = db2 and ?db2.0 = db3]) (auto simp: traced_def answered_def)
    with ur some sel show ?thesis by (intro yes) auto
  qed
qed

lemma record_invocation_traced:
  fixes db :: "'a run_db_scheme"
  assumes "record_invocation env ctx tk out db = Inr (iid, db')"
  shows "traced (call_of out) (lower (cx_run ctx)) (lower tk) db db' \<and> (iid \<noteq> None \<longleftrightarrow> (\<exists>h. out = Http h))"
  using assms
  by (cases out) (auto simp: record_invocation_def known_invocation_def bindE_Inr_iff traced_refl call_of_def
      intro: traced_mono [OF insertOrReuse_traced])

lemma record_invocation_call:
  fixes db :: "'a run_db_scheme"
  assumes "record_invocation env ctx tk (Http h) db = Inr (iid, db')"
  shows "list_ex (\<lambda>i. in_run i = lower (cx_run ctx) \<and> in_token i = Some (lower tk)) (db_invs db')"
proof -
  from assms obtain x where x: "insertOrReuseInvocation ctx (known_invocation env tk h) db = Inr (x, db')"
    by (auto simp: record_invocation_def bindE_Inr_iff)
  then obtain r t where c: "pg_uuid (cx_run ctx) = Some r" "pg_uuid tk = Some t"
    by (auto simp: insertOrReuseInvocation_def known_invocation_def split: option.splits)
  then have rt: "r = lower (cx_run ctx)" "t = lower tk" by (auto dest: pg_uuid_SomeD)
  show ?thesis
  proof (cases "list_ex (\<lambda>i. in_run i = r \<and> in_token i = Some t) (db_invs db)")
    case True
    with x c have "db' = db"
      by (auto simp: insertOrReuseInvocation_def known_invocation_def split: if_split_asm list.split_asm)
    with True rt show ?thesis by simp
  next
    case False
    with x c rt show ?thesis
      by (auto simp: insertOrReuseInvocation_def known_invocation_def split: if_split_asm)
  qed
qed

lemma record_captured_logged:
  fixes db :: "'a run_db_scheme"
  assumes "record_captured cr env ctx out db = Inr (v4, db')"
  obtains typs where "typs \<in> {[], [''passthrough.invoked'']}" "logged cr (lower (cx_run ctx)) typs db db'"
  using assms
  by (cases "captured_v4 out") (auto simp: record_captured_def persistCapturedV4_def bindE_Inr_iff
      split: if_split_asm intro: logged_refl append_run_event_logged)

lemma reconciled_event_type: "str_prop (reconciled_event ctx t i h n) ''event_type'' = Some ''run.outcome_reconciled''"
  by (simp add: reconciled_event_def str_prop_def obj_get_def)

lemma record_reconciled_logged:
  fixes db :: "'a run_db_scheme"
  assumes "record_reconciled z cr env ctx tk row iid out db = Inr (rec, db')" "iid \<noteq> None \<longleftrightarrow> (\<exists>h. out = Http h)"
  shows "logged cr (lower (cx_run ctx)) (case out of Http _ \<Rightarrow>
      if run_status row = Outcome_unknown then [''run.outcome_reconciled''] else [] | _ \<Rightarrow> []) db db' \<and>
    (rec \<longleftrightarrow> run_status row = Outcome_unknown \<and> (\<exists>h. out = Http h))"
proof (cases out)
  case (Http h)
  show ?thesis
  proof (cases "run_status row = Outcome_unknown")
    case True
    with assms Http obtain e where "appendLifecycleEvent cr (tx_event3 env) ctx (reconciled_event ctx tk iid h (tx_now env))
        (ms_of (tx_now env)) db = Inr (e, db')" and rec: rec
      by (auto simp: record_reconciled_def Let_def bindE_Inr_iff split: if_split_asm)
    from appendLifecycle_logged [OF this(1) reconciled_event_type] True Http rec show ?thesis by simp
  qed (use assms Http in \<open>simp add: record_reconciled_def logged_refl\<close>)
qed (use assms in \<open>simp_all add: record_reconciled_def logged_refl\<close>)

lemma terminal_event_type: "[fst (terminal_event num ctx row iid out)] = reported out"
  by (cases out) (auto simp: terminal_event_def reported_def http_ok_def Let_def)

lemma known_update_id [simp]: "run_id (known_update n out r) = run_id r"
  by (simp add: known_update_def)

lemma record_known_effect:
  fixes db :: "'a run_db_scheme"
  assumes sel: "select_run (cx_org ctx) (cx_run ctx) db = Inr (Some row)" and tok: "run_token row = Some tk"
    and rk: "record_known z cr env ctx tk row out db = Inr (fin, db')"
  obtains typs where "typs \<in> {[], [''passthrough.invoked'']}"
    "effect cr db row (typs @ (case out of Http _ \<Rightarrow>
       if run_status row = Outcome_unknown then [''run.outcome_reconciled''] else [] | _ \<Rightarrow> []) @ reported out)
       (call_of out) (known_update (tx_now env) out row) db'"
    "fin_status fin = terminal_of out" "\<not> fin_duplicate fin"
    "fin_reconciled fin = (run_status row = Outcome_unknown \<and> (\<exists>h. out = Http h))"
proof -
  from rk obtain iid db1 upd db2 v4 db3 rec db4 eid db5 where
    inv: "record_invocation env ctx tk out db = Inr (iid, db1)"
    and upd: "update_run (cx_org ctx) (cx_run ctx) (\<lambda>_. True) (known_update (tx_now env) out) db1 = Inr (upd, db2)"
    and cap: "record_captured cr env ctx out db2 = Inr (v4, db3)"
    and recon: "record_reconciled z cr env ctx tk row iid out db3 = Inr (rec, db4)"
    and app: "appendTerminalRunEvent cr (tx_event env) ctx (fst (terminal_event (num_text cr) ctx row iid out))
       (ms_of (tx_now env)) (fst (snd (terminal_event (num_text cr) ctx row iid out)))
       (snd (snd (terminal_event (num_text cr) ctx row iid out))) db4 = Inr (eid, db5)"
    and turn: "maybeEnsureTurn env ctx eid db5 = Inr db'"
    and fin: "fin = \<lparr> fin_status = terminal_of out, fin_invocation = iid, fin_event = eid, fin_v4 = v4,
            fin_reconciled = rec, fin_duplicate = False \<rparr>"
    by (auto simp: record_known_def bindE_Inr_iff case_prod_beta)
  note inv' = record_invocation_traced [OF inv]
  note s = select_run_Some [OF sel]
  from inv' have t1: "traced (call_of out) (lower (cx_run ctx)) (lower tk) db db1" ..
  then have runs1: "db_runs db1 = db_runs db" by (simp add: traced_def)
  then have sel1: "select_run (cx_org ctx) (cx_run ctx) db1 = Inr (Some row)"
    using sel by (simp add: select_run_def split: option.splits)
  from upd have up: "runs_dispatch_v1_state_check (known_update (tx_now env) out row)"
    "timeout_check (known_update (tx_now env) out row)" "\<not> token_taken (known_update (tx_now env) out row) db"
    "db2 = put_run (known_update (tx_now env) out row) db1"
    using sel1 runs1 by (auto simp: update_run_def token_taken_def split: if_split_asm)
  obtain typs where typs: "typs \<in> {[], [''passthrough.invoked'']}" "logged cr (lower (cx_run ctx)) typs db2 db3"
    using cap by (rule record_captured_logged)
  have ans: "answered (db_invs db2) (known_update (tx_now env) out row)"
  proof (cases "\<exists>h. out = Http h")
    case True
    then obtain h where "out = Http h" ..
    with record_invocation_call [of env ctx tk h db iid db1] inv s(3) tok up(4)
    show ?thesis by (simp add: answered_def known_spec list_ex_iff) blast
  next
    case False
    then show ?thesis by (simp add: answered_def has_result_known)
  qed
  have terminal_known: "run_status (known_update (tx_now env) out row) \<notin> {Queued, Running}"
    by (cases out) (simp_all add: known_spec)
  note r = record_reconciled_logged [OF recon conjunct2 [OF inv']]
  note l = logged_trans [OF typs(2) logged_trans [OF conjunct1 [OF r] appendTerminal_logged [OF app]]]
  have "effect cr db row (typs @ (case out of Http _ \<Rightarrow>
       if run_status row = Outcome_unknown then [''run.outcome_reconciled''] else [] | _ \<Rightarrow> []) @ reported out)
       (call_of out) (known_update (tx_now env) out row) db'"
    using s up t1 tok l maybeEnsureTurn_turned [OF turn] ans terminal_known
    by (intro effect_parts [where ?db1.0 = db2 and ?db2.0 = db5]) (simp_all add: terminal_event_type traced_def)
  with typs(1) show thesis by (rule that) (use fin r in auto)
qed

lemma known_implements:
  fixes db :: "'a run_db_scheme"
  assumes "finalizeKnownOutcome z cr env ctx tk out db = Inr (fin, db')"
  obtains (again) row iid where "select_run (cx_org ctx) (cx_run ctx) db = Inr (Some row)" "run_token row = Some tk"
      "run_status row \<in> {Completed, Failed_run, Denied}" "run_status row = terminal_of out"
      "check_duplicate (cx_org ctx) (cx_run ctx) tk out db = Inr iid" "fin_duplicate fin" "db' = db"
  | (yes) row typs where "select_run (cx_org ctx) (cx_run ctx) db = Inr (Some row)" "run_token row = Some tk"
      "run_status row \<in> {Running, Outcome_unknown}" "record_known z cr env ctx tk row out db = Inr (fin, db')"
      "typs \<in> {[], [''passthrough.invoked'']}"
      "effect cr db row (typs @ (case out of Http _ \<Rightarrow>
         if run_status row = Outcome_unknown then [''run.outcome_reconciled''] else [] | _ \<Rightarrow> []) @ reported out)
         (call_of out) (known_update (tx_now env) out row) db'"
      "\<not> fin_duplicate fin"
proof -
  from assms have f: "bindE (select_run (cx_org ctx) (cx_run ctx) db) (\<lambda>found. case found of
        None \<Rightarrow> Inl TokenMismatch
      | Some row \<Rightarrow>
          if run_token row \<noteq> Some tk then Inl TokenMismatch
          else if run_status row \<in> {Completed, Failed_run, Denied} then
            if run_status row \<noteq> terminal_of out
            then Inl (OutcomeConflict (CAlreadyTerminal (run_status row) (terminal_of out)))
            else bindE (check_duplicate (cx_org ctx) (cx_run ctx) tk out db) (\<lambda>iid.
              Inr (\<lparr> fin_status = run_status row, fin_invocation = iid, fin_event = [], fin_v4 = None,
                     fin_reconciled = False, fin_duplicate = True \<rparr>, db))
          else if run_status row \<noteq> Running \<and> run_status row \<noteq> Outcome_unknown
          then Inl (OutcomeConflict (CNotAccepting (run_status row)))
          else record_known z cr env ctx tk row out db) = Inr (fin, db')"
    by (simp only: finalizeKnownOutcome_def withTenantTx_Inr)
  then obtain found where found: "select_run (cx_org ctx) (cx_run ctx) db = Inr found"
    by (rule bindE_InrE)
  note f1 = f [unfolded found bindE_simps]
  from f1 obtain row where row: "found = Some row" by (cases found) simp_all
  note f2 = f1 [unfolded row option.case] and sel = found [unfolded row]
  have tok: "run_token row = Some tk" by (rule ccontr) (use f2 in simp)
  have f': "(if run_status row \<in> {Completed, Failed_run, Denied} then
            if run_status row \<noteq> terminal_of out
            then Inl (OutcomeConflict (CAlreadyTerminal (run_status row) (terminal_of out)))
            else bindE (check_duplicate (cx_org ctx) (cx_run ctx) tk out db) (\<lambda>iid.
              Inr (\<lparr> fin_status = run_status row, fin_invocation = iid, fin_event = [], fin_v4 = None,
                     fin_reconciled = False, fin_duplicate = True \<rparr>, db))
          else if run_status row \<noteq> Running \<and> run_status row \<noteq> Outcome_unknown
          then Inl (OutcomeConflict (CNotAccepting (run_status row)))
          else record_known z cr env ctx tk row out db) = Inr (fin, db')"
    using f2 by (simp only: tok not_True_eq_False simp_thms if_False)
  show thesis
  proof (cases "run_status row \<in> {Completed, Failed_run, Denied}")
    case True
    note f3 = f' [unfolded if_P [OF True]]
    have st: "run_status row = terminal_of out" by (rule ccontr) (use f3 in simp)
    from f3 obtain iid where "check_duplicate (cx_org ctx) (cx_run ctx) tk out db = Inr iid" "fin_duplicate fin" "db' = db"
      unfolding st by (auto simp: bindE_Inr_iff)
    with sel tok True st show thesis by (intro again)
  next
    case False
    note f3 = f' [unfolded if_not_P [OF False]]
    have st: "run_status row \<in> {Running, Outcome_unknown}" by (rule ccontr) (use f3 in simp)
    have rk: "record_known z cr env ctx tk row out db = Inr (fin, db')" using f3 st by (simp split: if_split_asm)
    from sel tok rk show thesis
      by (rule record_known_effect) (rule yes [OF sel tok st rk])
  qed
qed

lemma select_unlocked_Some:
  assumes "select_unlocked env org rid cond db = Inr (Some r)"
  shows "select_run org rid db = Inr (Some r)" "cond r" "run_id r \<notin> set (tx_locked env)"
  using assms by (auto simp: select_unlocked_def bindE_Inr_iff split: option.split_asm if_split_asm)

lemma update_always:
  assumes "update_run org rid (\<lambda>_. True) f db = Inr (upd, db')" "select_run org rid db = Inr (Some r)"
  shows "runs_dispatch_v1_state_check (f r)" "timeout_check (f r)" "\<not> token_taken (f r) db" "db' = put_run (f r) db"
  using assms by (auto simp: update_run_def split: if_split_asm)

lemma recoveryEventCtx_sel [simp]:
  "cx_run (recoveryEventCtx org rid r) = rid" "cx_org (recoveryEventCtx org rid r) = org"
  by (simp_all add: recoveryEventCtx_def)

lemma recover_queued_implements:
  fixes db :: "'a run_db_scheme"
  assumes "recoverQueuedStale cr env org rid g db = Inr (b, db')"
  obtains (no) "\<not> b" "db' = db" "select_unlocked env org rid (queued_stale (tx_now env) g) db = Inr None"
  | (yes) r where "b" "select_unlocked env org rid (queued_stale (tx_now env) g) db = Inr (Some r)"
      "effect cr db r [''run.failed''] no_call (fail_update (tx_now env) ''dispatch_never_claimed'' r) db'"
proof -
  from assms [unfolded recoverQueuedStale_def withTenantTx_Inr, THEN conjunct2]
  obtain found where f: "select_unlocked env org rid (queued_stale (tx_now env) g) db = Inr found"
    and rest: "(case found of None \<Rightarrow> Inr (False, db)
      | Some r \<Rightarrow>
          bindE (update_run org rid (\<lambda>_. True) (fail_update (tx_now env) ''dispatch_never_claimed'') db) (\<lambda>(_, db1).
          let ctx = recoveryEventCtx org rid r in
          bindE (appendTerminalRunEvent cr (tx_event env) ctx ''run.failed'' (ms_of (tx_now env))
                   (''dispatch_never_claimed:'' @ rid) (recovered_meta r ''dispatch_never_claimed'') db1) (\<lambda>(eid, db2).
          bindE (maybeEnsureTurn env ctx eid db2) (\<lambda>db3. Inr (True, db3))))) = Inr (b, db')"
    by (rule bindE_InrE)
  show thesis
  proof (cases found)
    case None
    with rest f show ?thesis by (intro no) auto
  next
    case (Some r)
    note sel = select_unlocked_Some [OF f [unfolded Some]]
    note s = select_run_Some [OF sel(1)]
    from rest [unfolded Some option.case]
    obtain upd db1 where u: "update_run org rid (\<lambda>_. True) (fail_update (tx_now env) ''dispatch_never_claimed'') db = Inr (upd, db1)"
      and t: "bindE (appendTerminalRunEvent cr (tx_event env) (recoveryEventCtx org rid r) ''run.failed'' (ms_of (tx_now env))
                   (''dispatch_never_claimed:'' @ rid) (recovered_meta r ''dispatch_never_claimed'') db1) (\<lambda>(eid, db2).
          bindE (maybeEnsureTurn env (recoveryEventCtx org rid r) eid db2) (\<lambda>db3. Inr (True, db3))) = Inr (b, db')"
      by (auto simp: Let_def elim!: bindE_InrE)
    from t obtain db2 where b: "b" and l: "logged cr (lower rid) [''run.failed''] db1 db2" "turned (lower rid) db2 db'"
      by (rule terminal_tail) simp
    note up = update_always [OF u sel(1)]
    have "effect cr db r [''run.failed''] no_call (fail_update (tx_now env) ''dispatch_never_claimed'' r) db'"
      using l up s by (intro effect_update [where ?db2.0 = db2]) auto
    with b f Some show ?thesis by (intro yes) auto
  qed
qed

lemma recover_running_implements:
  fixes db :: "'a run_db_scheme"
  assumes "recoverRunningStale z cr env org rid g db = Inr (rr, db')"
  obtains (no) "rr = Not_recovered" "db' = db"
      "\<forall>r. select_unlocked env org rid (running_stale (tx_now env) g) db = Inr (Some r) \<longrightarrow> run_token r = None"
  | (never) r where "rr = Failed_never_started" "select_unlocked env org rid (running_stale (tx_now env) g) db = Inr (Some r)"
      "run_boundary r = None"
      "effect cr db r [''run.failed''] no_call (fail_update (tx_now env) ''dispatch_never_started'' r) db'"
  | (unknown) r where "rr = Recovered_unknown" "select_unlocked env org rid (running_stale (tx_now env) g) db = Inr (Some r)"
      "run_boundary r \<noteq> None"
      "effect cr db r [''run.outcome_unknown''] no_call (unknown_update (tx_now env) ''stale_dispatch_claim'' r) db'"
proof -
  note a = assms [unfolded recoverRunningStale_def withTenantTx_Inr, THEN conjunct2]
  then obtain found where f: "select_unlocked env org rid (running_stale (tx_now env) g) db = Inr found"
    by (rule bindE_InrE)
  note a1 = a [unfolded f bindE_simps]
  show thesis
  proof (cases "\<exists>r tk. found = Some r \<and> run_token r = Some tk")
    case False
    with a1 f show ?thesis by (intro no) (auto split: option.split_asm)
  next
    case True
    then obtain r tk where r: "found = Some r" "run_token r = Some tk" by blast
    note sel = select_unlocked_Some [OF f [unfolded r(1)]]
    note s = select_run_Some [OF sel(1)]
    note a2 = a1 [unfolded r option.case Let_def]
    show ?thesis
    proof (cases "run_boundary r = None")
      case True
      from a2 [unfolded if_P [OF True]]
      obtain upd db1 where u: "update_run org rid (\<lambda>_. True) (fail_update (tx_now env) ''dispatch_never_started'') db = Inr (upd, db1)"
        and t: "bindE (appendTerminalRunEvent cr (tx_event env) (recoveryEventCtx org rid r) ''run.failed'' (ms_of (tx_now env))
                   (''dispatch_never_started:'' @ rid) (recovered_meta r ''dispatch_never_started'') db1) (\<lambda>(eid, db2).
          bindE (maybeEnsureTurn env (recoveryEventCtx org rid r) eid db2) (\<lambda>db3. Inr (Failed_never_started, db3))) = Inr (rr, db')"
        by (auto elim!: bindE_InrE)
      from t obtain db2 where rr: "rr = Failed_never_started"
        and l: "logged cr (lower rid) [''run.failed''] db1 db2" "turned (lower rid) db2 db'"
        by (rule terminal_tail) simp
      note up = update_always [OF u sel(1)]
      have "effect cr db r [''run.failed''] no_call (fail_update (tx_now env) ''dispatch_never_started'' r) db'"
        using l up s by (intro effect_update [where ?db2.0 = db2]) auto
      with rr f r True show ?thesis by (intro never) auto
    next
      case False
      from a2 [unfolded if_not_P [OF False]]
      obtain upd db1 where u: "update_run org rid (\<lambda>_. True) (unknown_update (tx_now env) ''stale_dispatch_claim'') db = Inr (upd, db1)"
        and t: "bindE (appendLifecycleEvent cr (tx_event env) (recoveryEventCtx org rid r)
              (unknown_event org rid tk ''stale_dispatch_claim'' ''not_observed'' (run_boundary r) (tx_now env)) (ms_of (tx_now env)) db1)
           (\<lambda>(eid, db2). bindE (maybeEnsureTurn env (recoveryEventCtx org rid r) eid db2) (\<lambda>db3. Inr (Recovered_unknown, db3))) = Inr (rr, db')"
        by (auto elim!: bindE_InrE split: if_split_asm)
      from t unknown_event_type obtain db2 where rr: "rr = Recovered_unknown"
        and l: "logged cr (lower rid) [''run.outcome_unknown''] db1 db2" "turned (lower rid) db2 db'"
        by (rule lifecycle_tail) simp
      note up = update_always [OF u sel(1)]
      have "effect cr db r [''run.outcome_unknown''] no_call (unknown_update (tx_now env) ''stale_dispatch_claim'' r) db'"
        using l up s by (intro effect_update [where ?db2.0 = db2]) auto
      with rr f r False show ?thesis by (intro unknown) auto
    qed
  qed
qed

text \<open>A new run: nothing else changes but its row and its prepared event.\<close>

definition fresh_run :: "run_row \<Rightarrow> bool" where
  "fresh_run r = (lower (run_id r) = run_id r \<and> run_status r = Queued \<and> run_protocol r = Some 1 \<and> run_prepared_at r \<noteq> None \<and>
     run_token r = None \<and> run_claimed_at r = None \<and> run_started_at r = None \<and> run_timeout_ms r = None \<and>
     run_deadline r = None \<and> run_boundary r = None \<and> run_completed_at r = None \<and> run_unknown_at r = None \<and>
     run_error r = None)"

lemma prepare_implements:
  fixes db :: "'a run_db_scheme"
  assumes "prepareRun z cr env ctx h ap db = Inr (eid, db')"
  obtains r where "store_ok cr db \<Longrightarrow> store_ok cr db'" "fresh_run r" "run_id r = lower (cx_run ctx)" "lower (cx_run ctx) \<notin> run_id ` set (db_runs db)"
    "db_runs db' = db_runs db @ [r]" "new_events (run_id r) [''run.dispatch_prepared''] (db_events db) (db_events db')"
    "db_invs db' = db_invs db" "db_turns db' = db_turns db"
proof -
  obtain u where u: "pg_uuid (cx_run ctx) = Some u"
    using assms by (cases "pg_uuid (cx_run ctx)") (simp_all add: prepareRun_def withTenantTx_Inr)
  then have ul: "u = lower (cx_run ctx)" by (auto dest: pg_uuid_SomeD)
  have free: "\<not> list_ex (\<lambda>r. run_id r = u) (db_runs db)"
    using assms u by (auto simp: prepareRun_def withTenantTx_Inr)
  define row where "row = \<lparr> run_id = u, run_org = cx_org ctx, run_actor = cx_actor ctx, run_mode = cx_mode ctx,
                  run_workroom = map_option fst (cx_workroom ctx),
                  run_participant = map_option snd (cx_workroom ctx), run_created_at = tx_now env,
                  run_status = Queued, run_protocol = Some 1, run_prepared_at = Some (tx_now env),
                  run_token = None, run_claimed_at = None, run_started_at = None, run_timeout_ms = None,
                  run_deadline = None, run_boundary = None, run_completed_at = None,
                  run_unknown_at = None, run_error = None \<rparr>"
  have app: "appendDispatchPreparedEvent z cr env ctx h ap (ms_of (tx_now env)) (db\<lparr> db_runs := db_runs db @ [row] \<rparr>) = Inr (eid, db')"
    using assms by (simp add: prepareRun_def withTenantTx_Inr u free Let_def row_def)
  have "logged cr (lower (cx_run ctx)) [''run.dispatch_prepared''] (db\<lparr> db_runs := db_runs db @ [row] \<rparr>) db'"
    using app unfolding appendDispatchPreparedEvent_def Let_def
    by (auto split: if_split_asm intro: appendLifecycle_logged simp: str_prop_def obj_get_def)
  then show thesis
    using ul free store_ok_cong [of db "db\<lparr> db_runs := db_runs db @ [row] \<rparr>" cr]
    by (intro that [of row]) (auto simp: row_def fresh_run_def logged_def list_ex_iff lower_idem)
qed

lemma step_implements:
  fixes db :: "'a run_db_scheme"
  assumes "dispatch_step z cr db db'"
  obtains (move) "implements cr db db'"
  | (new) r where "store_ok cr db \<Longrightarrow> store_ok cr db'" "fresh_run r" "run_id r \<notin> run_id ` set (db_runs db)"
      "\<forall>e \<in> set (db_events db). ev_subject_id e \<noteq> run_id r" "\<forall>i \<in> set (db_invs db). in_run i \<noteq> run_id r"
      "db_runs db' = db_runs db @ [r]" "new_events (run_id r) [''run.dispatch_prepared''] (db_events db) (db_events db')"
      "db_invs db' = db_invs db" "db_turns db' = db_turns db"
  using assms
proof cases
  case (prepare env ctx h ap eid)
  from prepare(1) obtain r where r: "store_ok cr db \<Longrightarrow> store_ok cr db'" "fresh_run r" "run_id r = lower (cx_run ctx)"
    "lower (cx_run ctx) \<notin> run_id ` set (db_runs db)" "db_runs db' = db_runs db @ [r]"
    "new_events (run_id r) [''run.dispatch_prepared''] (db_events db) (db_events db')"
    "db_invs db' = db_invs db" "db_turns db' = db_turns db" by (rule prepare_implements) blast
  show thesis
    by (rule new [OF r(1,2)]) (use r(3-) prepare(2,3) in auto)
next
  case (claim env ctx ms cl)
  from claim show thesis
  proof (cases rule: claim_implements)
    case (yes r t)
    then have "lower t = t" by (auto dest: pg_uuid_SomeD)
    with yes show ?thesis
      by (intro move implementsI [OF run_move.claim]) (auto simp: claim_cond_def update_spec)
  qed (auto simp: implements_def intro: move)
next
  case (boundary env org rid tk br)
  from boundary show thesis
  proof (cases rule: boundary_implements [where cr = cr])
    case (yes r)
    from yes(2) obtain d where "run_status r = Running" "run_token r = Some (lower tk)" "run_boundary r = None"
      "run_deadline r = Some d" "tx_clock env < d" by (auto simp: boundary_cond_def split: option.split_asm)
    from implementsI [OF run_move.boundary [OF this] yes(7)] show ?thesis by (rule move)
  qed (auto simp: implements_def intro: move)
next
  case (no_boundary env ctx tk fr)
  from no_boundary show thesis
  proof (cases rule: no_boundary_implements)
    case (yes r eid)
    show ?thesis by (rule move, rule implementsI [OF run_move.never_started [OF yes(2,3)] yes(5) [unfolded update_spec]]) simp
  qed (auto simp: implements_def intro: move)
next
  case (preclaim env ctx msg b)
  from preclaim show thesis
  proof (cases rule: preclaim_implements)
    case (yes r)
    from yes(2) have "run_status r = Queued" "run_protocol r = Some 1" "run_token r = None" by (simp_all add: claim_cond_def)
    then show ?thesis by (intro move implementsI [OF run_move.never_claimed yes(4) [unfolded update_spec]]) simp_all
  qed (auto simp: implements_def intro: move)
next
  case (unknown env ctx tk cls ob iv ur)
  from unknown show thesis
  proof (cases rule: unknown_implements)
    case (again r iid)
    show ?thesis by (rule move, rule implementsI [OF run_move.trace [OF again(2)] again(4)])
  next
    case (yes r eid iid)
    have "class_text cls \<in> {''provider_timeout'', ''provider_io_unknown'', ''stale_dispatch_claim''}" by (cases cls) simp_all
    from implementsI [OF run_move.unknown [OF yes(2,3) this] yes(5) [unfolded update_spec]] show ?thesis by (rule move)
  qed (auto simp: implements_def intro: move)
next
  case (known env ctx tk out fin)
  from known show thesis
  proof (cases rule: known_implements)
    case (yes row typs)
    show ?thesis by (rule move, rule implementsI [OF run_move.known [OF yes(3,5) refl] yes(6) [unfolded known_spec]])
  qed (auto simp: implements_def intro: move)
next
  case (recover_queued env org rid g b)
  from recover_queued show thesis
  proof (cases rule: recover_queued_implements)
    case (yes r)
    then have "run_status r = Queued" "run_protocol r = Some 1" "run_token r = None"
      by (auto dest: select_unlocked_Some simp: queued_stale_def)
    with yes show ?thesis by (intro move implementsI [OF run_move.never_claimed]) (auto simp: update_spec)
  qed (auto simp: implements_def intro: move)
next
  case (recover_running env org rid g rr)
  from recover_running show thesis
  proof (cases rule: recover_running_implements)
    case (never r)
    then have "run_status r = Running" by (auto dest: select_unlocked_Some simp: running_stale_def)
    with never show ?thesis by (intro move implementsI [OF run_move.never_started]) (auto simp: update_spec)
  next
    case (unknown r)
    then have "run_status r = Running" by (auto dest: select_unlocked_Some simp: running_stale_def)
    moreover have "effect cr db r [''run.outcome_unknown''] trace_only (unknown_update (tx_now env) ''stale_dispatch_claim'' r) db'"
      using unknown(4) by (auto simp: effect_def new_invs_def no_call_def)
    ultimately show ?thesis using unknown(3) by (intro move implementsI [OF run_move.unknown]) (auto simp: update_spec)
  qed (auto simp: implements_def intro: move)
qed

section \<open>The invariant of the protocol\<close>

definition event_count :: "string \<Rightarrow> string \<Rightarrow> audit_event list \<Rightarrow> nat" where
  "event_count rid typ es =
     length (filter (\<lambda>e. ev_subject_type e = ''run'' \<and> ev_subject_id e = rid \<and> ev_type e = typ) es)"

definition no_call_classes :: "string list" where
  "no_call_classes = [''dispatch_preclaim_failed'', ''dispatch_never_claimed'', ''dispatch_never_started'',
     ''dispatch_boundary_persist_failed'']"

text \<open>The evidence a run has in the audit log is exactly what its row says.\<close>

definition evidence_ok :: "audit_event list \<Rightarrow> run_row \<Rightarrow> bool" where
  "evidence_ok es r \<longleftrightarrow>
     event_count (run_id r) ''run.dispatch_prepared'' es = 1 \<and>
     event_count (run_id r) ''run.outcome_reconciled'' es = of_bool (run_unknown_at r \<noteq> None \<and> has_result r) \<and>
     event_count (run_id r) ''run.dispatch_claimed'' es = of_bool (run_token r \<noteq> None) \<and>
     event_count (run_id r) ''run.outcome_unknown'' es = of_bool (run_unknown_at r \<noteq> None) \<and>
     event_count (run_id r) ''run.completed'' es = of_bool (run_status r = Completed) \<and>
     event_count (run_id r) ''run.failed'' es = of_bool (run_status r = Failed_run) \<and>
     event_count (run_id r) ''run.denied'' es = of_bool (run_status r = Denied)"

text \<open>
  An invocation is of the run's own token, only of a run that crossed the claim and is not open any more, and
  a bare trace (no HTTP status, no response) as long as the outcome is unknown; a run that ended with an
  answer has one. A turn announces a run of the table that is not open.
\<close>

definition turns_ok :: "run_row list \<Rightarrow> workroom_turn list \<Rightarrow> bool" where
  "turns_ok rows ts \<longleftrightarrow> (\<forall>t \<in> set ts. tn_kind t = ''run_event'' \<longrightarrow>
     (\<exists>r \<in> set rows. tn_ref t = Some (run_id r) \<and> run_status r \<notin> {Queued, Running}))"

definition calls_ok :: "invocation list \<Rightarrow> run_row \<Rightarrow> bool" where
  "calls_ok is r \<longleftrightarrow> (\<forall>i \<in> set is. in_run i = run_id r \<and> in_token i \<noteq> None \<longrightarrow>
     in_token i = run_token r \<and> run_status r \<notin> {Queued, Running} \<and>
     (run_status r = Outcome_unknown \<longrightarrow> trace_only i) \<and>
     \<not> (run_status r = Failed_run \<and> run_error r \<in> Some ` set no_call_classes)) \<and> answered is r"

definition row_ok_v1 :: "run_row \<Rightarrow> bool" where
  "row_ok_v1 r \<longleftrightarrow> runs_dispatch_v1_state_check r \<and> timeout_check r \<and> run_protocol r = Some 1 \<and>
     map_option lower (run_token r) = run_token r \<and> lower (run_id r) = run_id r"

definition dispatch_inv :: "'a run_db_scheme \<Rightarrow> bool" where
  "dispatch_inv db \<longleftrightarrow> distinct (map run_id (db_runs db)) \<and>
     (\<forall>r \<in> set (db_runs db). row_ok_v1 r \<and> evidence_ok (db_events db) r \<and> calls_ok (db_invs db) r) \<and>
     (\<forall>r \<in> set (db_runs db). \<forall>q \<in> set (db_runs db). run_token r = run_token q \<and> run_token r \<noteq> None \<longrightarrow> run_id r = run_id q) \<and>
     distinct (map (\<lambda>i. (in_run i, in_token i)) (filter (\<lambda>i. in_token i \<noteq> None) (db_invs db))) \<and>
     distinct (map tn_ref (filter (\<lambda>t. tn_kind t = ''run_event'' \<and> tn_ref t \<noteq> None) (db_turns db))) \<and>
     turns_ok (db_runs db) (db_turns db)"

definition run_empty :: "'a run_db_scheme \<Rightarrow> bool" where
  "run_empty db = (db_runs db = [] \<and> db_invs db = [] \<and> db_turns db = [])"

lemma run_move_id: "run_move r typs b r' \<Longrightarrow> run_id r' = run_id r \<and> run_protocol r' = run_protocol r"
  by (induction rule: run_move.induct) simp_all

lemma event_count_new:
  assumes "new_events rid typs old upd"
  shows "event_count rid' typ upd = event_count rid' typ old + (if rid' = rid then count_list typs typ else 0)"
proof -
  from assms obtain es where es: "upd = old @ es" "map ev_type es = typs"
    "\<forall>e \<in> set es. ev_subject_type e = ''run'' \<and> ev_subject_id e = rid" by (auto simp: new_events_def)
  have "length (filter (\<lambda>e. ev_subject_type e = ''run'' \<and> ev_subject_id e = rid' \<and> ev_type e = typ) es) =
      (if rid' = rid then count_list (map ev_type es) typ else 0)"
    using es(3) by (induction es) auto
  with es show ?thesis by (simp add: event_count_def)
qed

lemma run_move_row_ok:
  assumes "run_move r typs b r'" "row_ok_v1 r" "r' = r \<or> runs_dispatch_v1_state_check r' \<and> timeout_check r'"
  shows "row_ok_v1 r'"
  using assms
  by (induction rule: run_move.induct)
     (auto simp: row_ok_v1_def)

lemma known_counts:
  assumes "ts \<in> {[], [''passthrough.invoked'']}" "recs \<in> {[], [''run.outcome_reconciled'']}"
  shows "count_list (ts @ recs @ reported out) ''run.completed'' = of_bool (result_status out = Completed)"
    "count_list (ts @ recs @ reported out) ''run.failed'' = of_bool (result_status out = Failed_run)"
    "count_list (ts @ recs @ reported out) ''run.denied'' = of_bool (result_status out = Denied)"
    "count_list (ts @ recs @ reported out) ''run.dispatch_claimed'' = 0"
    "count_list (ts @ recs @ reported out) ''run.outcome_unknown'' = 0"
    "count_list (ts @ recs @ reported out) ''run.dispatch_prepared'' = 0"
    "count_list (ts @ recs @ reported out) ''run.outcome_reconciled'' = length recs"
  using assms by (cases out; auto simp: reported_def)+

lemma evidence_ok_new:
  assumes "new_events (run_id r) typs old upd" "evidence_ok old r" "run_id r' = run_id r"
    and "count_list typs ''run.dispatch_prepared'' = 0"
      "of_bool (run_unknown_at r' \<noteq> None \<and> has_result r') = of_bool (run_unknown_at r \<noteq> None \<and> has_result r) +
         count_list typs ''run.outcome_reconciled''"
    and "of_bool (run_token r' \<noteq> None) = of_bool (run_token r \<noteq> None) + count_list typs ''run.dispatch_claimed''"
      "of_bool (run_unknown_at r' \<noteq> None) = of_bool (run_unknown_at r \<noteq> None) + count_list typs ''run.outcome_unknown''"
      "of_bool (run_status r' = Completed) = of_bool (run_status r = Completed) + count_list typs ''run.completed''"
      "of_bool (run_status r' = Failed_run) = of_bool (run_status r = Failed_run) + count_list typs ''run.failed''"
      "of_bool (run_status r' = Denied) = of_bool (run_status r = Denied) + count_list typs ''run.denied''"
  shows "evidence_ok upd r'"
  using assms(2-) by (simp add: evidence_ok_def event_count_new [OF assms(1)])

lemma row_ok_v1_open:
  "row_ok_v1 r \<Longrightarrow> run_status r = Queued \<Longrightarrow> run_token r = None \<and> run_unknown_at r = None \<and> run_boundary r = None"
  "row_ok_v1 r \<Longrightarrow> run_status r = Running \<Longrightarrow> run_token r \<noteq> None \<and> run_unknown_at r = None"
  "row_ok_v1 r \<Longrightarrow> run_status r = Outcome_unknown \<Longrightarrow> run_token r \<noteq> None \<and> run_boundary r \<noteq> None \<and> run_unknown_at r \<noteq> None"
  by (auto simp: row_ok_v1_def runs_dispatch_v1_state_check_def)

lemma run_move_evidence:
  assumes "run_move r typs b r'" "row_ok_v1 r" "evidence_ok old r" "new_events (run_id r) typs old upd"
  shows "evidence_ok upd r'"
  using assms(1)
proof cases
  case (known ts recs out now)
  have recs: "recs \<in> {[], [''run.outcome_reconciled'']}" using known(6) by (cases out) auto
  note count = known_counts [OF known(5) recs, of out, folded known(1)]
  have open': "run_token r \<noteq> None" "run_unknown_at r \<noteq> None \<longleftrightarrow> run_status r = Outcome_unknown" "\<not> has_result r"
    using known(4) row_ok_v1_open [OF assms(2)] by (auto simp: has_result_def)
  have status: "run_status r \<noteq> Completed" "run_status r \<noteq> Failed_run" "run_status r \<noteq> Denied" using known(4) by auto
  have result: "has_result r' \<longleftrightarrow> (\<exists>h. out = Http h)"
    by (cases out) (simp_all add: known(3) has_result_def)
  have cols: "run_id r' = run_id r" "run_token r' = run_token r" "run_unknown_at r' = run_unknown_at r" "run_status r' = result_status out"
    by (simp_all add: known(3))
  have len: "length recs = of_bool ((\<exists>h. out = Http h) \<and> run_status r = Outcome_unknown)"
    by (cases out) (simp_all add: known(6))
  show ?thesis
    by (rule evidence_ok_new [OF assms(4,3)]) (use open' in \<open>auto simp: count result len cols status\<close>)
qed (rule evidence_ok_new [OF assms(4,3)]; use row_ok_v1_open [OF assms(2)] in \<open>auto simp: has_result_def\<close>)+

lemma run_move_calls:
  assumes move: "run_move r typs b r'" and row: "row_ok_v1 r" and old: "calls_ok old r"
    and upd: "upd = old \<or> (\<exists>t. run_token r = Some t \<and> new_invs b (run_id r) (lower t) old upd)" and ans: "answered upd r'"
  shows "calls_ok upd r'"
proof -
  have calls: "in_token i = run_token r \<and> i \<in> set old \<and> (run_status r = Outcome_unknown \<longrightarrow> trace_only i)
      \<and> run_status r \<notin> {Queued, Running} \<or> b i \<and> in_token i = run_token r"
    if "i \<in> set upd" "in_run i = run_id r" "in_token i \<noteq> None" for i
    using upd that old row by (auto simp: calls_ok_def new_invs_def row_ok_v1_def)
  have open_none: "in_token i = None"
    if "b = no_call" "run_status r = Queued \<or> run_status r = Running" "i \<in> set upd" "in_run i = run_id r" for i
    using old upd that by (auto simp: calls_ok_def new_invs_def no_call_def)
  from move show ?thesis
  proof cases
    case (trace)
    then show ?thesis using calls ans by (auto simp: calls_ok_def)
  next
    case (known ts recs out now)
    then show ?thesis using calls ans
      by (cases out) (auto simp: calls_ok_def no_call_classes_def)
  next
    case (unknown now c)
    then show ?thesis using calls ans by (auto simp: calls_ok_def)
  qed (use open_none ans in \<open>auto simp: calls_ok_def\<close>)
qed

lemma fresh_run_ok: "fresh_run r \<Longrightarrow> row_ok_v1 r"
  by (simp add: fresh_run_def row_ok_v1_def runs_dispatch_v1_state_check_def timeout_check_def)

lemma event_count_none: "\<forall>e \<in> set es. ev_subject_id e \<noteq> rid \<Longrightarrow> event_count rid typ es = 0"
  by (auto simp: event_count_def filter_empty_conv)

lemma new_turns_distinct:
  assumes "new_turns rid old upd" "distinct (map tn_ref (filter (\<lambda>t. tn_kind t = ''run_event'' \<and> tn_ref t \<noteq> None) old))"
  shows "distinct (map tn_ref (filter (\<lambda>t. tn_kind t = ''run_event'' \<and> tn_ref t \<noteq> None) upd))"
  using assms by (auto simp: new_turns_def)

lemma new_invs_distinct:
  assumes "new_invs P rid t old upd" "distinct (map (\<lambda>i. (in_run i, in_token i)) (filter (\<lambda>i. in_token i \<noteq> None) old))"
  shows "distinct (map (\<lambda>i. (in_run i, in_token i)) (filter (\<lambda>i. in_token i \<noteq> None) upd))"
  using assms by (auto simp: new_invs_def)

lemma calls_ok_other:
  assumes "calls_ok old q" "run_id q \<noteq> rid" "upd = old \<or> (\<exists>t. tk = Some t \<and> new_invs b rid (lower t) old upd)"
  shows "calls_ok upd q"
  using assms by (auto simp: calls_ok_def new_invs_def answered_def)

text \<open>A run that is not open stays so, and the turn of a move announces the row the move leaves.\<close>

lemma run_move_open: "run_move r typs b r' \<Longrightarrow> run_status r \<notin> {Queued, Running} \<Longrightarrow> run_status r' \<notin> {Queued, Running}"
proof (induction rule: run_move.induct)
  case (known r typs recs out now)
  then show ?case by (cases out) simp_all
qed simp_all

lemma move_turns:
  assumes old: "turns_ok rows ts" and tn: "new_turns (run_id r) ts ts'"
    and quiet: "run_status r' \<in> {Queued, Running} \<longrightarrow> ts' = ts"
    and closed: "run_status r \<notin> {Queued, Running} \<Longrightarrow> run_status r' \<notin> {Queued, Running}"
    and r: "r \<in> set rows" and inj: "\<And>q. q \<in> set rows \<Longrightarrow> run_id q = run_id r \<Longrightarrow> q = r" and id: "run_id r' = run_id r"
    and rows': "rows' = map (\<lambda>q. if run_id q = run_id r' then r' else q) rows"
  shows "turns_ok rows' ts'"
proof -
  have r': "r' \<in> set rows'" using r id by (force simp: rows')
  have kept: "\<exists>p \<in> set rows'. run_id p = run_id q \<and> run_status p \<notin> {Queued, Running}"
    if "q \<in> set rows" "run_status q \<notin> {Queued, Running}" for q
  proof (cases "run_id q = run_id r")
    case True
    with inj that closed r' id show ?thesis by metis
  next
    case False
    then have "q \<in> set rows'" using that(1) id by (force simp: rows')
    with that(2) show ?thesis by blast
  qed
  have old': "turns_ok rows' ts" unfolding turns_ok_def
  proof (intro ballI impI)
    fix t assume "t \<in> set ts" "tn_kind t = ''run_event''"
    with old obtain q where "q \<in> set rows" "tn_ref t = Some (run_id q)" "run_status q \<notin> {Queued, Running}"
      unfolding turns_ok_def by blast
    with kept show "\<exists>r \<in> set rows'. tn_ref t = Some (run_id r) \<and> run_status r \<notin> {Queued, Running}" by metis
  qed
  show ?thesis
  proof (cases "ts' = ts")
    case False
    with quiet have st: "run_status r' \<notin> {Queued, Running}" by blast
    from tn False obtain t where t: "ts' = ts @ [t]" "tn_ref t = Some (run_id r')" by (auto simp: new_turns_def id)
    with old' r' st show ?thesis unfolding turns_ok_def by auto
  qed (use old' in simp)
qed

lemma move_inv:
  fixes db :: "'a run_db_scheme"
  assumes inv: "dispatch_inv db" and move: "run_move r typs b r'" and eff: "effect cr db r typs b r' db'"
  shows "dispatch_inv db'"
proof -
  note id = run_move_id [OF move]
  from eff have r: "r \<in> set (db_runs db)" and ev: "new_events (run_id r) typs (db_events db) (db_events db')"
    and tn: "new_turns (run_id r) (db_turns db) (db_turns db')"
    and quiet: "run_status r' \<in> {Queued, Running} \<longrightarrow> db_turns db' = db_turns db" and ans: "answered (db_invs db') r'"
    and ivs: "db_invs db' = db_invs db \<or> (\<exists>t. run_token r = Some t \<and> new_invs b (run_id r) (lower t) (db_invs db) (db_invs db'))"
    and runs: "r' = r \<and> db_runs db' = db_runs db \<or>
      runs_dispatch_v1_state_check r' \<and> timeout_check r' \<and> \<not> token_taken r' db \<and>
      db_runs db' = map (\<lambda>q. if run_id q = run_id r' then r' else q) (db_runs db)"
    by (auto simp: effect_def)
  from inv have dist: "distinct (map run_id (db_runs db))"
    and rows: "\<forall>r \<in> set (db_runs db). row_ok_v1 r \<and> evidence_ok (db_events db) r \<and> calls_ok (db_invs db) r"
    and toks: "\<forall>r \<in> set (db_runs db). \<forall>q \<in> set (db_runs db). run_token r = run_token q \<and> run_token r \<noteq> None \<longrightarrow> run_id r = run_id q"
    and invs: "distinct (map (\<lambda>i. (in_run i, in_token i)) (filter (\<lambda>i. in_token i \<noteq> None) (db_invs db)))"
    and turns: "distinct (map tn_ref (filter (\<lambda>t. tn_kind t = ''run_event'' \<and> tn_ref t \<noteq> None) (db_turns db)))"
    and tref: "turns_ok (db_runs db) (db_turns db)"
    by (auto simp: dispatch_inv_def)
  have inj: "q = r" if "q \<in> set (db_runs db)" "run_id q = run_id r" for q
    using dist that r by (auto simp: distinct_map dest: inj_onD)
  have same: "map run_id (db_runs db') = map run_id (db_runs db)"
  proof -
    have "map run_id (map (\<lambda>q. if run_id q = run_id r' then r' else q) (db_runs db)) = map run_id (db_runs db)"
      by (simp add: comp_def if_distrib cong: if_cong)
    with runs show ?thesis by auto
  qed
  have mem: "q = r' \<or> q \<in> set (db_runs db) \<and> run_id q \<noteq> run_id r" if "q \<in> set (db_runs db')" for q
    using runs that id inj by auto
  have new: "row_ok_v1 r' \<and> evidence_ok (db_events db') r' \<and> calls_ok (db_invs db') r'"
    using run_move_row_ok [OF move] run_move_evidence [OF move _ _ ev] run_move_calls [OF move _ _ ivs ans] rows r runs by blast
  have old: "row_ok_v1 q \<and> evidence_ok (db_events db') q \<and> calls_ok (db_invs db') q"
    if "q \<in> set (db_runs db)" "run_id q \<noteq> run_id r" for q
    using rows that calls_ok_other [OF _ that(2) ivs] by (auto simp: evidence_ok_def event_count_new [OF ev])
  have tok': "run_id p = run_id q"
    if "p \<in> set (db_runs db')" "q \<in> set (db_runs db')" "run_token p = run_token q" "run_token p \<noteq> None" for p q
  proof -
    from runs show ?thesis
    proof
      assume "r' = r \<and> db_runs db' = db_runs db"
      with that(1,2) have "p \<in> set (db_runs db)" "q \<in> set (db_runs db)" by simp_all
      with toks that(3,4) show ?thesis by blast
    next
      assume a: "runs_dispatch_v1_state_check r' \<and> timeout_check r' \<and> \<not> token_taken r' db \<and>
        db_runs db' = map (\<lambda>q. if run_id q = run_id r' then r' else q) (db_runs db)"
      have free: "run_token q \<noteq> run_token r'" if "q \<in> set (db_runs db)" "run_id q \<noteq> run_id r" "run_token r' \<noteq> None" for q
        using a that unfolding token_taken_def list_ex_iff id [THEN conjunct1] by metis
      from mem [OF that(1)] mem [OF that(2)] show ?thesis
      proof (elim disjE)
        assume "p = r'" "q \<in> set (db_runs db) \<and> run_id q \<noteq> run_id r"
        with free [of q] that(3,4) show ?thesis by simp
      next
        assume "p \<in> set (db_runs db) \<and> run_id p \<noteq> run_id r" "q = r'"
        with free [of p] that(3,4) show ?thesis by simp
      next
        assume "p \<in> set (db_runs db) \<and> run_id p \<noteq> run_id r" "q \<in> set (db_runs db) \<and> run_id q \<noteq> run_id r"
        with toks that(3,4) show ?thesis by blast
      qed simp
    qed
  qed
  have "distinct (map (\<lambda>i. (in_run i, in_token i)) (filter (\<lambda>i. in_token i \<noteq> None) (db_invs db')))"
    using ivs invs new_invs_distinct by auto
  moreover have "distinct (map run_id (db_runs db'))" using same dist by simp
  moreover have "\<forall>q \<in> set (db_runs db'). row_ok_v1 q \<and> evidence_ok (db_events db') q \<and> calls_ok (db_invs db') q"
    using mem new old by blast
  moreover have "turns_ok (db_runs db') (db_turns db')"
  proof (rule move_turns [OF tref tn quiet run_move_open [OF move] r inj])
    have "map (\<lambda>q. if run_id q = run_id r then r else q) (db_runs db) = db_runs db"
      by (rule map_idI) (use inj in auto)
    with runs id show "db_runs db' = map (\<lambda>q. if run_id q = run_id r' then r' else q) (db_runs db)" by auto
  qed (use id in auto)
  ultimately show ?thesis
    unfolding dispatch_inv_def using tok' new_turns_distinct [OF tn turns] by blast
qed

lemma dispatch_step_inv:
  fixes db :: "'a run_db_scheme"
  assumes "dispatch_inv db" "dispatch_step z cr db db'"
  shows "dispatch_inv db'"
  using assms(2)
proof (cases rule: step_implements)
  case move
  with assms(1) show ?thesis by (auto simp: implements_def intro: move_inv)
next
  case (new r)
  have cnt: "event_count (run_id r) k (db_events db') = (if k = ''run.dispatch_prepared'' then 1 else 0)" for k
    using event_count_new [OF new(7), of "run_id r" k] event_count_none [OF new(4)] by simp
  have r: "evidence_ok (db_events db') r" "calls_ok (db_invs db') r" "row_ok_v1 r" "run_token r = None"
    using new(2,5,8) fresh_run_ok [OF new(2)]
    by (simp_all add: evidence_ok_def cnt fresh_run_def calls_ok_def answered_def has_result_def)
  have old: "evidence_ok (db_events db') q" if "evidence_ok (db_events db) q" "q \<in> set (db_runs db)" for q
  proof -
    from that(2) new(3) have "run_id q \<noteq> run_id r" by (metis imageI)
    with that(1) show ?thesis by (simp add: evidence_ok_def event_count_new [OF new(7)])
  qed
  from assms(1) have rows: "\<forall>q \<in> set (db_runs db). row_ok_v1 q \<and> evidence_ok (db_events db) q \<and> calls_ok (db_invs db) q"
    and rest: "distinct (map run_id (db_runs db))"
      "distinct (map (\<lambda>i. (in_run i, in_token i)) (filter (\<lambda>i. in_token i \<noteq> None) (db_invs db)))"
      "distinct (map tn_ref (filter (\<lambda>t. tn_kind t = ''run_event'' \<and> tn_ref t \<noteq> None) (db_turns db)))"
      "turns_ok (db_runs db) (db_turns db)"
    and toks: "\<forall>p \<in> set (db_runs db). \<forall>q \<in> set (db_runs db). run_token p = run_token q \<and> run_token p \<noteq> None \<longrightarrow> run_id p = run_id q"
    unfolding dispatch_inv_def by blast+
  have "\<forall>q \<in> set (db_runs db'). row_ok_v1 q \<and> evidence_ok (db_events db') q \<and> calls_ok (db_invs db') q"
    unfolding new(6) new(8) using rows r old new(8) by simp
  moreover have "\<forall>p \<in> set (db_runs db'). \<forall>q \<in> set (db_runs db'). run_token p = run_token q \<and> run_token p \<noteq> None \<longrightarrow> run_id p = run_id q"
  proof (intro ballI impI)
    fix p q
    assume pq: "p \<in> set (db_runs db')" "q \<in> set (db_runs db')" and t: "run_token p = run_token q \<and> run_token p \<noteq> None"
    from t r(4) have "p \<noteq> r" "q \<noteq> r" by metis+
    with pq new(6) have "p \<in> set (db_runs db)" "q \<in> set (db_runs db)" by simp_all
    with toks t show "run_id p = run_id q" by blast
  qed
  moreover have "distinct (map run_id (db_runs db'))" unfolding new(6) using rest(1) new(3) by simp
  moreover have "turns_ok (db_runs db') (db_turns db)" using rest(4) by (auto simp: turns_ok_def new(6))
  ultimately show ?thesis unfolding dispatch_inv_def new(8,9) using rest(2,3) by blast
qed

lemma run_empty_inv: "run_empty db \<Longrightarrow> dispatch_inv db"
  by (simp add: run_empty_def dispatch_inv_def turns_ok_def)

interpretation dispatch: kept_invariant run_empty "dispatch_step z cr" dispatch_inv for z cr
  by unfold_locales (auto intro: run_empty_inv dispatch_step_inv)

text \<open>The audit chain stays well formed through the protocol.\<close>

lemma dispatch_store_ok: "dispatch_step z cr db db' \<Longrightarrow> store_ok cr db \<Longrightarrow> store_ok cr db'"
  by (erule step_implements) (auto simp: implements_def effect_def)

interpretation dispatch_audit: kept_invariant "\<lambda>db. run_empty db \<and> empty_store db" "dispatch_step z cr" "store_ok cr" for z cr
  by unfold_locales (auto intro: empty_store_ok dispatch_store_ok)

end
