(* ===== verification/Audit_Progress.thy ===== *)
theory Audit_Progress
  imports Audit_Chain
begin

text \<open>
  Progress of the audit chain: which calls of \<open>auditAppend\<close> are bound to succeed. Every other
  theorem about appends speaks of the calls that return; this one says that with a working KMS,
  valid ids and a fresh event id, they do.
\<close>

section \<open>Values that serialize\<close>

function json_ok :: "jsval \<Rightarrow> bool" where
  "json_ok (JArr vs) = list_all json_ok vs"
| "json_ok (JObj ps) = list_all (\<lambda>(k, v). v = JUndef \<or> json_ok v) ps"
| "json_ok (JNum n) = (n \<noteq> NonFinite)"
| "json_ok JNull = True"
| "json_ok (JBool b) = True"
| "json_ok (JStr s) = True"
| "json_ok JUndef = False"
| "json_ok (JBigInt i) = False"
| "json_ok JFun = False"
  by pat_completeness auto
termination
  by (relation "measure size") (auto simp del: jsval.size intro: size_arr_item size_obj_item)

lemma collectE_total: "(\<And>x. x \<in> set xs \<Longrightarrow> \<exists>t. f x = Inr t) \<Longrightarrow> \<exists>ts. collectE (map f xs) = Inr ts"
proof (induction xs)
  case (Cons x xs)
  then obtain t ts where "f x = Inr t" "collectE (map f xs) = Inr ts" by fastforce
  then show ?case by simp
qed simp

lemma canonicalize_total: "json_ok v \<Longrightarrow> \<exists>t. canonicalize num v = Inr t"
  unfolding canonicalize_def
proof (induction v rule: json_ok.induct)
  case (1 vs)
  then have "\<exists>ts. collectE (map (stringify num) vs) = Inr ts"
    by (intro collectE_total) (auto simp: list_all_iff)
  then show ?case by auto
next
  case (2 ps)
  have "\<exists>ts. collectE (map (\<lambda>(k, v). bindE (stringify num v) (\<lambda>t. Inr (quote_str k @ CHR '':'' # t)))
              (filter (\<lambda>(k, v). v \<noteq> JUndef) (sort_key fst ps))) = Inr ts"
  proof (rule collectE_total)
    fix x assume x: "x \<in> set (filter (\<lambda>(k, v). v \<noteq> JUndef) (sort_key fst ps))"
    obtain k v where kv: "x = (k, v)" by (cases x)
    with x have v: "(k, v) \<in> set ps" "v \<noteq> JUndef" by auto
    with 2(2) have "json_ok v" by (auto simp: list_all_iff)
    with 2(1) v kv obtain t where "stringify num v = Inr t" by blast
    then show "\<exists>t. (case x of (k, v) \<Rightarrow> bindE (stringify num v) (\<lambda>t. Inr (quote_str k @ CHR '':'' # t))) = Inr t"
      by (simp add: kv)
  qed
  then show ?case by auto
next
  case (3 n)
  then show ?case by (cases n) auto
qed auto

section \<open>Calls that succeed\<close>

definition kms_works :: "crypto \<Rightarrow> append_input \<Rightarrow> bool" where
  "kms_works cr i \<longleftrightarrow> (\<forall>m. kms cr (ai_org i) (ai_key_id i) (ai_key_version i) m \<noteq> None)"

definition well_formed_input :: "append_input \<Rightarrow> bool" where
  "well_formed_input i \<longleftrightarrow> is_uuid (ai_org i) \<and> lower (ai_org i) = ai_org i \<and> is_uuid (ai_subject_id i) \<and>
     ai_occurred i \<noteq> None \<and> json_ok (ai_redaction i) \<and> - (2 ^ 31) \<le> ai_key_version i \<and> ai_key_version i < 2 ^ 31 \<and>
     evidence_of i \<in> {''hmac_internal'', ''dev_signed''} \<and> ai_payload_encrypted i = None \<and> pg_text (ai_chain i) \<and> castable i"

lemma event_value_ok: "json_ok red \<Longrightarrow>
    json_ok (event_value eid og chain sq prev typ' ver st sid occ ph pref kid kv evi red)"
  by (auto simp: event_value_def split: option.splits)

lemma append_succeeds_row:
  fixes db :: "'a audit_db_scheme"
  assumes ok: "store_ok cr db" and wf: "well_formed_input i" and works: "kms_works cr i"
    and eid: "ai_event_id i = None" "is_uuid re" "lower re \<notin> ev_id ` set (db_events db)"
    and own: "\<forall>e \<in> set (db_events db). ev_chain e = ai_chain i \<longrightarrow> ev_org e = ai_org i"
    and room: "length (db_events db) < 2 ^ 62"
  obtains row where "event_row cr (chain_head (Some (ai_org i)) (ai_chain i) db) re None i = Inr row"
    "audit_append_locked (Some (ai_org i)) row None (ai_dek_wrapped i) db = Inr (db\<lparr> db_events := db_events db @ [row] \<rparr>)"
    "auditAppend cr (Some (ai_org i)) re rp i db =
       Inr (\<lparr> ao_event_id = re, ao_payload_id = None, ao_seq = ev_seq row, ao_hmac = ev_hmac row,
              ao_cbytes = ev_cbytes row, ao_chash = ev_chash row \<rparr>, db\<lparr> db_events := db_events db @ [row] \<rparr>)"
proof -
  let ?s = "Some (ai_org i)"
  from wf obtain occ where occ: "ai_occurred i = Some occ" by (auto simp: well_formed_input_def)
  have org: "ai_org i \<noteq> []" using wf by (auto simp: well_formed_input_def is_uuid_def)
  define head where "head = chain_head ?s (ai_chain i) db"
  define sq where "sq = (case head of None \<Rightarrow> 0 | Some h \<Rightarrow> ev_seq h) + 1"
  have ch: "chain_ok cr (chain_rows s c db)" for s c using ok by (simp add: store_ok_def)
  have len: "length (chain_rows ?s (ai_chain i) db) \<le> length (db_events db)" by (simp add: chain_rows_def)
  have sq: "sq = int (length (chain_rows ?s (ai_chain i) db)) + 1"
    using head_seq_chain(1) [OF ch, of ?s "ai_chain i"] by (simp add: sq_def head_def)
  then have sq63: "sq < 2 ^ 63" using len room by simp
  obtain t where t: "canonicalize (num_text cr)
       (event_value re (ai_org i) (ai_chain i) sq (map_option ev_hmac head) (ai_type i) (ai_version i)
          (ai_subject_type i) (ai_subject_id i) occ (ai_payload_hash i) None
          (ai_key_id i) (ai_key_version i) (evidence_of i) (ai_redaction i)) = Inr t"
    using canonicalize_total event_value_ok wf unfolding well_formed_input_def by metis
  obtain mac where mac: "kms cr (ai_org i) (ai_key_id i) (ai_key_version i) (utf8 t) = Some mac"
    using works by (auto simp: kms_works_def)
  have casts: "pg_uuid re = Some (lower re)" "pg_uuid (ai_org i) = Some (ai_org i)"
    "pg_uuid (ai_subject_id i) = Some (lower (ai_subject_id i))"
    using eid(2) wf by (simp_all add: pg_uuid_def well_formed_input_def)
  define row where "row = \<lparr> ev_id = lower re, ev_org = ai_org i, ev_chain = ai_chain i, ev_seq = sq,
                 ev_type = ai_type i, ev_version = ai_version i,
                 ev_subject_type = ai_subject_type i, ev_subject_id = lower (ai_subject_id i),
                 ev_occurred = occ, ev_payload_hash = ai_payload_hash i,
                 ev_payload_ref = None, ev_redaction = to_jsonb (ai_redaction i),
                 ev_prev = map_option ev_hmac head, ev_hmac = mac, ev_chash = sha cr (utf8 t),
                 ev_cbytes = utf8 t, ev_key_id = ai_key_id i, ev_key_version = ai_key_version i,
                 ev_evidence = evidence_of i \<rparr>"
  have kv: "\<not> ai_key_version i < - (2 ^ 31)" "\<not> 2 ^ 31 \<le> ai_key_version i"
    using wf unfolding well_formed_input_def by linarith+
  have ct: "pg_text (ai_chain i) = True" "castable i = True" using wf by (simp_all add: well_formed_input_def)
  have er: "event_row cr head re None i = Inr row"
    unfolding event_row_def Let_def ct not_True_eq_False if_False sq_def [symmetric] occ option.case t sum.case hmacSign_def mac bindE_simps casts prod.case
    using kv sq63 by (simp add: row_def)
  have lt: "ev_seq e < sq" if "e \<in> set (db_events db)" "ev_chain e = ai_chain i" for e
  proof -
    have "e \<in> set (chain_rows ?s (ai_chain i) db)" using own that by (simp add: chain_rows_set visible_def)
    then obtain h where "head = Some h"
      unfolding head_def by (cases "chain_head ?s (ai_chain i) db") (auto simp: chain_head_def Let_def split: if_splits)
    with chain_head_max [of ?s "ai_chain i" db h e] \<open>e \<in> set (chain_rows ?s (ai_chain i) db)\<close> show ?thesis
      by (simp add: sq_def head_def)
  qed
  have nc: "\<not> insert_conflict row db"
    using eid(3) lt by (fastforce simp: insert_conflict_iff row_def)
  have lk: "audit_append_locked ?s row None (ai_dek_wrapped i) db = Inr (db\<lparr> db_events := db_events db @ [row] \<rparr>)"
    using nc wf org
    by (simp add: audit_append_locked_def row_def head_def sq_def well_formed_input_def Let_def)
  show thesis
  proof (rule that [of row])
    show "event_row cr (chain_head ?s (ai_chain i) db) re None i = Inr row" using er by (simp add: head_def)
    show "audit_append_locked ?s row None (ai_dek_wrapped i) db = Inr (db\<lparr> db_events := db_events db @ [row] \<rparr>)" by (rule lk)
    show "auditAppend cr ?s re rp i db =
       Inr (\<lparr> ao_event_id = re, ao_payload_id = None, ao_seq = ev_seq row, ao_hmac = ev_hmac row,
              ao_cbytes = ev_cbytes row, ao_chash = ev_chash row \<rparr>, db\<lparr> db_events := db_events db @ [row] \<rparr>)"
      using wf org er lk eid(1) by (simp add: auditAppend_def head_def well_formed_input_def)
  qed
qed

section \<open>Property\<close>



end
