(* ===== verification/Run_Lifecycle.thy ===== *)
theory Run_Lifecycle
  imports Run_Dispatch Audit_Progress
begin

text \<open>
  What the dispatch protocol of \<open>Run_Dispatch\<close> guarantees: every operation is one move of the
  lifecycle with its evidence, a run's evidence agrees with its row, a claim and a boundary happen
  once, terminal runs are final, recovery decides by the boundary, and a second known result is
  accepted only when it repeats the first.
\<close>

section \<open>Rows only move forward\<close>

definition run_ended :: "run_row \<Rightarrow> bool" where
  "run_ended r = (run_status r \<in> {Completed, Failed_run, Denied})"

definition run_mono :: "run_row \<Rightarrow> run_row \<Rightarrow> bool" where
  "run_mono r r' \<longleftrightarrow> run_id r' = run_id r \<and>
     (run_token r \<noteq> None \<longrightarrow> run_token r' = run_token r \<and> run_deadline r' = run_deadline r) \<and>
     (run_boundary r \<noteq> None \<longrightarrow> run_boundary r' = run_boundary r) \<and>
     (run_status r \<noteq> Queued \<longrightarrow> run_status r' \<noteq> Queued) \<and>
     (run_ended r \<longrightarrow> r' = r)"

lemma run_mono_refl [simp]: "run_mono r r"
  by (simp add: run_mono_def)

lemma run_mono_trans: "run_mono a b \<Longrightarrow> run_mono b c \<Longrightarrow> run_mono a c"
  unfolding run_mono_def by metis

lemma terminal_of_simps [simp]:
  "terminal_of out \<noteq> Queued" "terminal_of out \<noteq> Running" "terminal_of out \<noteq> Outcome_unknown"
  "terminal_of out \<in> {Completed, Failed_run, Denied}"
  by (simp_all add: terminal_of_def split: known_outcome.split)

lemma result_status_simps [simp]:
  "result_status out \<noteq> Queued" "result_status out \<noteq> Running" "result_status out \<noteq> Outcome_unknown"
  by (cases out; simp)+

lemma run_move_mono: "run_move r typs b r' \<Longrightarrow> run_mono r r'"
  by (induction rule: run_move.induct)
     (auto simp: run_mono_def run_ended_def)

lemma step_mono:
  assumes "dispatch_inv db" "dispatch_step z cr db db'" "r \<in> set (db_runs db)"
  shows "\<exists>r' \<in> set (db_runs db'). run_mono r r'"
  using assms(2)
proof (cases rule: step_implements)
  case move
  show ?thesis
  proof (cases "db' = db")
    case False
    with move obtain q typs b q' where mv: "run_move q typs b q'" and eff: "effect cr db q typs b q' db'"
      by (auto simp: implements_def)
    note id = run_move_id [OF mv]
    from eff have q: "q \<in> set (db_runs db)" by (simp add: effect_def)
    have "r = q" if "run_id r = run_id q"
      using assms(1,3) q that by (auto simp: dispatch_inv_def distinct_map dest: inj_onD)
    then have "run_mono r (if run_id r = run_id q' then q' else r)"
      using id run_move_mono [OF mv] by auto
    moreover have "(if run_id r = run_id q' then q' else r) \<in> set (db_runs db')"
      using eff assms(3) id \<open>run_id r = run_id q \<Longrightarrow> r = q\<close> by (auto simp: effect_def)
    ultimately show ?thesis by blast
  qed (use assms(3) run_mono_refl in blast)
next
  case (new q)
  with assms(3) show ?thesis by (intro bexI [of _ r]) simp_all
qed

lemma run_mono_steps:
  assumes "dispatch_inv db" "(dispatch_step z cr)\<^sup>*\<^sup>* db db'" "r \<in> set (db_runs db)"
  shows "\<exists>r' \<in> set (db_runs db'). run_mono r r'"
  using assms(2)
proof (induction rule: rtranclp_induct)
  case base
  show ?case using assms(3) run_mono_refl by blast
next
  case (step db1 db2)
  from step.IH obtain r1 where r1: "r1 \<in> set (db_runs db1)" "run_mono r r1" by blast
  have "dispatch_inv db1" using dispatch.inv_run assms(1) step.hyps(1) by blast
  from step_mono [OF this step.hyps(2) r1(1)] r1(2) show ?case by (blast intro: run_mono_trans)
qed

lemma unique_run:
  "dispatch_inv db \<Longrightarrow> r \<in> set (db_runs db) \<Longrightarrow> q \<in> set (db_runs db) \<Longrightarrow> run_id r = run_id q \<Longrightarrow> r = q"
  by (auto simp: dispatch_inv_def distinct_map dest: inj_onD)

lemma select_run_unique:
  assumes "dispatch_inv db" "r \<in> set (db_runs db)" "select_run org rid db = Inr (Some q)" "run_id r = lower rid"
  shows "q = r"
  using unique_run [OF assms(1)] select_run_Some [OF assms(3)] assms(2,4) by metis

section \<open>Sample runs\<close>

definition demo_run :: string where "demo_run = demo_id (CHR ''1'')"
definition demo_tok :: string where "demo_tok = demo_id (CHR ''7'')"

definition demo_ctx :: run_ctx where
  "demo_ctx = \<lparr> cx_org = demo_org, cx_run = demo_run, cx_chain = demo_org @ '':run'',
     cx_workroom = Some (demo_id (CHR ''5''), demo_id (CHR ''6'')), cx_actor = ''u'', cx_mode = ''governed'',
     cx_provider = ''openai'', cx_capability = ''c'', cx_model = ''m'', cx_policy = None \<rparr>"

definition demo_env :: "char \<Rightarrow> int \<Rightarrow> tx_env" where
  "demo_env c now = \<lparr> tx_now = now, tx_clock = now, tx_clock2 = now, tx_token = demo_tok,
     tx_event = demo_id c, tx_event2 = demo_id (CHR ''d''), tx_event3 = demo_id (CHR ''e''), tx_payload = [],
     tx_inv = demo_id (CHR ''8''), tx_turn = demo_id (CHR ''9''), tx_locked = [] \<rparr>"

definition demo_z :: zod_formats where
  "demo_z = \<lparr> z_uuid = is_uuid, z_datetime = (\<lambda>s. length s = 24) \<rparr>"

definition demo_rcr :: crypto where
  "demo_rcr = \<lparr> sha = take 4, kms = (\<lambda>org kid kv m. Some (take 4 m)), num_text = sample_num \<rparr>"

definition demo_hash :: string where "demo_hash = replicate 64 (CHR ''a'')"

definition demo_rdb0 :: run_db where
  "demo_rdb0 = \<lparr> db_events = [], db_payloads = [], db_runs = [], db_invs = [], db_turns = [] \<rparr>"

definition result_db :: "run_error + 'r \<times> run_db \<Rightarrow> run_db" where
  "result_db x = (case x of Inl e \<Rightarrow> demo_rdb0 | Inr (r, db) \<Rightarrow> db)"

definition demo_rdb1 :: run_db where
  "demo_rdb1 = result_db (prepareRun demo_z demo_rcr (demo_env (CHR ''2'') 1000000) demo_ctx demo_hash None demo_rdb0)"

definition demo_rdb2 :: run_db where
  "demo_rdb2 = result_db (claimDispatch demo_z demo_rcr (demo_env (CHR ''3'') 2000000) demo_ctx 5000 demo_rdb1)"

definition demo_rdb3 :: run_db where
  "demo_rdb3 = result_db (commitDispatchBoundary (demo_env (CHR ''4'') 3000000) demo_org demo_run demo_tok demo_rdb2)"

definition event_castable :: "'c event_ctx_scheme \<Rightarrow> string \<Rightarrow> string \<Rightarrow> int \<Rightarrow> jsval \<Rightarrow> bool" where
  "event_castable ctx typ ver occ red \<longleftrightarrow>
     pg_text (cx_chain ctx) \<and> pg_text typ \<and> pg_text ver \<and> pg_jsonb red \<and> pg_timestamptz occ"

lemma event_castable_input:
  "event_castable ctx typ ver occ red \<Longrightarrow>
     pg_text (ai_chain (run_event_input ctx typ ver occ ph red)) \<and> castable (run_event_input ctx typ ver occ ph red)"
  by (simp add: event_castable_def castable_def run_event_input_def evidence_of_def) (simp add: pg_text_def)

lemma append_run_event_succeeds:
  fixes db :: "'a audit_db_scheme"
  assumes "store_ok cr db" and "is_uuid (cx_org ctx)" "lower (cx_org ctx) = cx_org ctx" "is_uuid (cx_run ctx)" "json_ok red"
    and "\<forall>m. kms cr (cx_org ctx) ''audit-1'' 1 m \<noteq> None" and "is_uuid re" "lower re \<notin> ev_id ` set (db_events db)"
    and "\<forall>e \<in> set (db_events db). ev_org e = cx_org ctx" and "length (db_events db) < 2 ^ 62"
    and "event_castable ctx typ' ver occ red"
  obtains row where "append_run_event cr re ctx typ' ver occ ph red db = Inr (re, db\<lparr> db_events := db_events db @ [row] \<rparr>)"
    "store_ok cr (db\<lparr> db_events := db_events db @ [row] \<rparr>)" "ev_id row = lower re" "ev_org row = cx_org ctx"
    "ev_type row = typ'" "ev_subject_type row = ''run''" "ev_subject_id row = lower (cx_run ctx)"
proof -
  let ?i = "run_event_input ctx typ' ver occ ph red"
  have wf: "well_formed_input ?i" "kms_works cr ?i" "ai_event_id ?i = None"
    "\<forall>e \<in> set (db_events db). ev_chain e = ai_chain ?i \<longrightarrow> ev_org e = ai_org ?i"
    using assms event_castable_input [OF assms(11), of ph]
    by (simp_all add: well_formed_input_def kms_works_def) (simp_all add: run_event_input_def evidence_of_def)
  obtain row where row: "event_row cr (chain_head (Some (ai_org ?i)) (ai_chain ?i) db) re None ?i = Inr row"
    "audit_append_locked (Some (ai_org ?i)) row None (ai_dek_wrapped ?i) db = Inr (db\<lparr> db_events := db_events db @ [row] \<rparr>)"
    "auditAppend cr (Some (ai_org ?i)) re [] ?i db =
       Inr (\<lparr> ao_event_id = re, ao_payload_id = None, ao_seq = ev_seq row, ao_hmac = ev_hmac row,
              ao_cbytes = ev_cbytes row, ao_chash = ev_chash row \<rparr>, db\<lparr> db_events := db_events db @ [row] \<rparr>)"
    using append_succeeds_row [OF assms(1) wf(1,2,3) assms(7,8) wf(4) assms(10)] by blast
  have org: "ai_org ?i = cx_org ctx" by (simp add: run_event_input_def)
  have app: "append_run_event cr re ctx typ' ver occ ph red db = Inr (re, db\<lparr> db_events := db_events db @ [row] \<rparr>)"
    using row(3) by (simp add: append_run_event_def org)
  from app show thesis
  proof (rule append_run_event_Inr)
    fix row'
    assume r: "db\<lparr> db_events := db_events db @ [row] \<rparr> = db\<lparr> db_events := db_events db @ [row'] \<rparr>"
      "visible (Some (cx_org ctx)) row'" "ev_type row' = typ'" "ev_subject_type row' = ''run''"
      "ev_subject_id row' = lower (cx_run ctx)" "ev_id row' = lower re"
      "store_ok cr db \<Longrightarrow> store_ok cr (db\<lparr> db_events := db_events db @ [row] \<rparr>)"
    from arg_cong [OF r(1), of db_events] have "row' = row" by simp
    with r app assms(1) show thesis by (intro that [of row]) (simp_all add: visible_def)
  qed
qed

text \<open>A state of the samples: one run, the events written so far known by their ids.\<close>

definition sample_state :: "string list \<Rightarrow> run_row \<Rightarrow> run_db \<Rightarrow> bool" where
  "sample_state ids r db \<longleftrightarrow> store_ok demo_rcr db \<and> db_runs db = [r] \<and> db_invs db = [] \<and> db_turns db = [] \<and>
     map ev_id (db_events db) = ids \<and> (\<forall>e \<in> set (db_events db). ev_org e = demo_org)"

lemma demo_ids: "is_uuid demo_org" "lower demo_org = demo_org" "is_uuid demo_run" "lower demo_run = demo_run"
  "is_uuid demo_tok" "lower demo_tok = demo_tok"
  by code_simp+

lemma demo_hex_ids: "list_all (\<lambda>c. is_uuid (demo_id c) \<and> lower (demo_id c) = demo_id c) ''0123456789abcdef''"
  by code_simp

lemma demo_id_uuid: "c \<in> set ''0123456789abcdef'' \<Longrightarrow> is_uuid (demo_id c) \<and> lower (demo_id c) = demo_id c"
  using demo_hex_ids by (simp only: list_all_iff)

lemma demo_id_inj [simp]: "demo_id c = demo_id d \<longleftrightarrow> c = d"
  by (simp add: demo_id_def)

lemma demo_append:
  assumes "sample_state ids r db" "json_ok red" "c \<in> set ''0123456789abcdef''" "demo_id c \<notin> set ids" "length ids < 9"
    "cx_org ctx = demo_org" "cx_run ctx = demo_run" "event_castable ctx typ' ver occ red"
  obtains row where "append_run_event demo_rcr (demo_id c) ctx typ' ver occ ph red db =
      Inr (demo_id c, db\<lparr> db_events := db_events db @ [row] \<rparr>)"
    "sample_state (ids @ [demo_id c]) r (db\<lparr> db_events := db_events db @ [row] \<rparr>)"
proof -
  note u = demo_id_uuid [OF assms(3)]
  have ev: "set ids = ev_id ` set (db_events db)" "length (db_events db) = length ids"
    using assms(1) by (auto simp: sample_state_def)
  have st: "store_ok demo_rcr db" "\<forall>e \<in> set (db_events db). ev_org e = cx_org ctx"
    using assms(1,6) by (simp_all add: sample_state_def)
  have k: "\<forall>m. kms demo_rcr (cx_org ctx) ''audit-1'' 1 m \<noteq> None" by (simp add: demo_rcr_def)
  have ix: "is_uuid (cx_org ctx)" "lower (cx_org ctx) = cx_org ctx" "is_uuid (cx_run ctx)"
    by (simp_all add: assms(6,7) demo_ids)
  have new: "is_uuid (demo_id c)" "lower (demo_id c) \<notin> ev_id ` set (db_events db)" "length (db_events db) < 2 ^ 62"
    using u ev assms(4,5) by simp_all
  obtain row where row: "append_run_event demo_rcr (demo_id c) ctx typ' ver occ ph red db =
      Inr (demo_id c, db\<lparr> db_events := db_events db @ [row] \<rparr>)"
    "store_ok demo_rcr (db\<lparr> db_events := db_events db @ [row] \<rparr>)" "ev_id row = lower (demo_id c)" "ev_org row = cx_org ctx"
    by (rule append_run_event_succeeds [OF st(1) ix assms(2) k new(1,2) st(2) new(3) assms(8)])
  have "sample_state (ids @ [demo_id c]) r (db\<lparr> db_events := db_events db @ [row] \<rparr>)"
    unfolding sample_state_def using assms(1) row(2-4) u assms(6) by (simp add: sample_state_def)
  with row(1) show thesis by (rule that)
qed

lemma result_db_Inr: "\<not> isl x \<Longrightarrow> \<exists>r. x = Inr (r, result_db x)"
  by (cases x) (auto simp: result_db_def)

lemma result_db_simp [simp]: "result_db (Inr (r, db)) = db"
  by (simp add: result_db_def)

definition demo_row1 :: run_row where
  "demo_row1 = \<lparr> run_id = demo_run, run_org = demo_org, run_actor = ''u'', run_mode = ''governed'',
     run_workroom = Some (demo_id (CHR ''5'')), run_participant = Some (demo_id (CHR ''6'')), run_created_at = 1000000,
     run_status = Queued, run_protocol = Some 1, run_prepared_at = Some 1000000,
     run_token = None, run_claimed_at = None, run_started_at = None, run_timeout_ms = None,
     run_deadline = None, run_boundary = None, run_completed_at = None, run_unknown_at = None, run_error = None \<rparr>"

definition demo_row2 :: run_row where
  "demo_row2 = claim_update 2000000 demo_tok 5000 demo_row1"

definition demo_row3 :: run_row where
  "demo_row3 = demo_row2\<lparr> run_boundary := Some 3000000 \<rparr>"

lemma demo_sel [simp]:
  "cx_org demo_ctx = demo_org" "cx_run demo_ctx = demo_run" "pg_uuid demo_run = Some demo_run" "pg_uuid demo_tok = Some demo_tok"
  "is_uuid demo_org" "is_uuid demo_run" "lower demo_run = demo_run" "lower demo_tok = demo_tok"
  "tx_event (demo_env c n) = demo_id c" "tx_now (demo_env c n) = n" "tx_clock (demo_env c n) = n" "tx_token (demo_env c n) = demo_tok"
  by (simp_all add: demo_ctx_def demo_env_def pg_uuid_def demo_ids)

lemma find_sample: "sample_state ids r db \<Longrightarrow> run_id r = demo_run \<Longrightarrow> run_org r = demo_org \<Longrightarrow>
    select_run demo_org demo_run db = Inr (Some r)"
  by (simp add: select_run_def sample_state_def run_visible_def)

lemma sample_put: "sample_state ids r db \<Longrightarrow> run_id r' = run_id r \<Longrightarrow> sample_state ids r' (put_run r' db)"
  using store_ok_cong [of "put_run r' db" db] by (simp add: sample_state_def)

lemma sample_free: "sample_state ids r db \<Longrightarrow> run_id r' = run_id r \<Longrightarrow> \<not> token_taken r' db"
  by (simp add: sample_state_def token_taken_def)

lemma demo_row_simps [simp]:
  "run_id demo_row1 = demo_run" "run_org demo_row1 = demo_org" "run_id demo_row2 = demo_run" "run_org demo_row2 = demo_org"
  "run_id demo_row3 = demo_run" "run_org demo_row3 = demo_org"
  by (simp_all add: demo_row1_def demo_row2_def demo_row3_def claim_update_def)

lemma demo_prepared:
  "(\<exists>e. prepareRun demo_z demo_rcr (demo_env (CHR ''2'') 1000000) demo_ctx demo_hash None demo_rdb0 = Inr (e, demo_rdb1)) \<and>
   sample_state [demo_id (CHR ''2'')] demo_row1 demo_rdb1"
proof -
  let ?db = "demo_rdb0\<lparr> db_runs := [demo_row1] \<rparr>"
  define ev where "ev = JObj [(''event_type'', JStr ''run.dispatch_prepared''), (''schema_version'', JNum (Finite 1)),
     (''org_id'', JStr demo_org), (''run_id'', JStr demo_run), (''mode'', JStr ''governed''), (''provider'', JStr ''openai''),
     (''capability_id'', JStr ''c''), (''model'', JStr ''m''), (''native_request_hash'', JStr demo_hash),
     (''workroom_id'', JStr (demo_id (CHR ''5''))), (''occurred_at'', JStr (iso_of_ms 1000)), (''chain_category'', JStr ''run'')]"
  have sch: "RunDispatchPreparedSchema demo_z ev" unfolding ev_def by code_simp
  have cast: "event_castable demo_ctx ''run.dispatch_prepared'' ''1'' 1000 ev" unfolding ev_def by code_simp
  have js: "json_ok ev" by (simp add: ev_def)
  then obtain t where t: "canonicalize (num_text demo_rcr) ev = Inr t" using canonicalize_total by blast
  have s0: "sample_state [] demo_row1 ?db"
    by (simp add: sample_state_def demo_rdb0_def store_ok_def chain_rows_def)
  obtain row where row: "append_run_event demo_rcr (demo_id (CHR ''2'')) demo_ctx ''run.dispatch_prepared'' ''1'' 1000
      (sha demo_rcr (utf8 t)) ev ?db = Inr (demo_id (CHR ''2''), ?db\<lparr> db_events := db_events ?db @ [row] \<rparr>)"
    "sample_state ([] @ [demo_id (CHR ''2'')]) demo_row1 (?db\<lparr> db_events := db_events ?db @ [row] \<rparr>)"
    by (rule demo_append [OF s0 js _ _ _ _ _ cast, of "CHR ''2''"]) simp_all
  have "appendDispatchPreparedEvent demo_z demo_rcr (demo_env (CHR ''2'') 1000000) demo_ctx demo_hash None 1000 ?db =
      Inr (demo_id (CHR ''2''), ?db\<lparr> db_events := db_events ?db @ [row] \<rparr>)"
    using sch t row(1)
    by (simp add: appendDispatchPreparedEvent_def appendLifecycleEvent_def opt_str_def demo_ctx_def ev_def str_prop_def obj_get_def)
  then have p: "prepareRun demo_z demo_rcr (demo_env (CHR ''2'') 1000000) demo_ctx demo_hash None demo_rdb0 =
      Inr (demo_id (CHR ''2''), ?db\<lparr> db_events := db_events ?db @ [row] \<rparr>)"
    by (simp add: prepareRun_def withTenantTx_def Let_def demo_rdb0_def ms_of_def demo_row1_def demo_ctx_def)
  with row(2) show ?thesis by (simp add: demo_rdb1_def)
qed

lemma demo_checks [simp]:
  "runs_dispatch_v1_state_check demo_row1" "runs_dispatch_v1_state_check demo_row2" "runs_dispatch_v1_state_check demo_row3"
  "timeout_check demo_row1" "timeout_check demo_row2" "timeout_check demo_row3" "claim_cond demo_row1"
  by (simp_all add: demo_row1_def demo_row2_def demo_row3_def claim_update_def claim_cond_def
      runs_dispatch_v1_state_check_def timeout_check_def)

lemma demo_claimed:
  "claimDispatch demo_z demo_rcr (demo_env (CHR ''3'') 2000000) demo_ctx 5000 demo_rdb1 = Inr (Claimed demo_tok 2000 7000, demo_rdb2) \<and>
   sample_state [demo_id (CHR ''2''), demo_id (CHR ''3'')] demo_row2 demo_rdb2"
proof -
  note s1 = conjunct2 [OF demo_prepared]
  define ev where "ev = JObj [(''event_type'', JStr ''run.dispatch_claimed''), (''schema_version'', JNum (Finite 1)),
     (''org_id'', JStr demo_org), (''run_id'', JStr demo_run), (''dispatch_token'', JStr demo_tok),
     (''dispatch_timeout_ms'', JNum (Finite 5000)), (''dispatch_claimed_at'', JStr (iso_of_ms 2000)),
     (''dispatch_deadline_at'', JStr (iso_of_ms 7000)), (''occurred_at'', JStr (iso_of_ms 2000)),
     (''chain_category'', JStr ''run'')]"
  have sch: "RunDispatchClaimedSchema demo_z ev" unfolding ev_def by code_simp
  have cast: "event_castable demo_ctx ''run.dispatch_claimed'' ''1'' 2000 ev" unfolding ev_def by code_simp
  have js: "json_ok ev" by (simp add: ev_def)
  then obtain t where t: "canonicalize (num_text demo_rcr) ev = Inr t" using canonicalize_total by blast
  have s2: "sample_state [demo_id (CHR ''2'')] demo_row2 (put_run demo_row2 demo_rdb1)"
    by (rule sample_put [OF s1]) simp
  have u: "update_run demo_org demo_run claim_cond (claim_update 2000000 demo_tok 5000) demo_rdb1 =
      Inr (Some demo_row2, put_run demo_row2 demo_rdb1)"
    using find_sample [OF s1] sample_free [OF s1, of demo_row2]
    by (simp add: update_run_def demo_row2_def [symmetric])
  obtain row where row: "append_run_event demo_rcr (demo_id (CHR ''3'')) demo_ctx ''run.dispatch_claimed'' ''1'' 2000
      (sha demo_rcr (utf8 t)) ev (put_run demo_row2 demo_rdb1) =
        Inr (demo_id (CHR ''3''), (put_run demo_row2 demo_rdb1)\<lparr> db_events := db_events (put_run demo_row2 demo_rdb1) @ [row] \<rparr>)"
    "sample_state ([demo_id (CHR ''2'')] @ [demo_id (CHR ''3'')]) demo_row2
       ((put_run demo_row2 demo_rdb1)\<lparr> db_events := db_events (put_run demo_row2 demo_rdb1) @ [row] \<rparr>)"
    by (rule demo_append [OF s2 js _ _ _ _ _ cast, of "CHR ''3''"]) simp_all
  have l: "appendLifecycleEvent demo_rcr (demo_id (CHR ''3'')) demo_ctx ev 2000 (put_run demo_row2 demo_rdb1) =
      Inr (demo_id (CHR ''3''), (put_run demo_row2 demo_rdb1)\<lparr> db_events := db_events (put_run demo_row2 demo_rdb1) @ [row] \<rparr>)"
    using t row(1) by (simp add: appendLifecycleEvent_def ev_def str_prop_def obj_get_def)
  have "claimDispatch demo_z demo_rcr (demo_env (CHR ''3'') 2000000) demo_ctx 5000 demo_rdb1 =
      Inr (Claimed demo_tok 2000 7000, (put_run demo_row2 demo_rdb1)\<lparr> db_events := db_events (put_run demo_row2 demo_rdb1) @ [row] \<rparr>)"
    unfolding claimDispatch_def withTenantTx_def demo_sel Let_def option.case if_True u bindE_simps prod.case
    using l sch by (simp add: int4_def iso_us_def ms_of_def ev_def [symmetric])
  with row(2) show ?thesis by (simp add: demo_rdb2_def)
qed

lemma demo_committed:
  "commitDispatchBoundary (demo_env (CHR ''4'') 3000000) demo_org demo_run demo_tok demo_rdb2 = Inr (Committed 3000, demo_rdb3) \<and>
   sample_state [demo_id (CHR ''2''), demo_id (CHR ''3'')] demo_row3 demo_rdb3"
proof -
  note s2 = conjunct2 [OF demo_claimed]
  have c: "boundary_cond 3000000 demo_tok demo_row2"
    by (simp add: boundary_cond_def demo_row2_def demo_row1_def claim_update_def)
  have u: "update_run demo_org demo_run (boundary_cond 3000000 demo_tok) (\<lambda>r. r\<lparr> run_boundary := Some 3000000 \<rparr>) demo_rdb2 =
      Inr (Some demo_row3, put_run demo_row3 demo_rdb2)"
    using find_sample [OF s2] sample_free [OF s2, of demo_row3] c
    by (simp add: update_run_def demo_row3_def [symmetric])
  have "commitDispatchBoundary (demo_env (CHR ''4'') 3000000) demo_org demo_run demo_tok demo_rdb2 =
      Inr (Committed 3000, put_run demo_row3 demo_rdb2)"
    by (simp add: commitDispatchBoundary_def withTenantTx_def u ms_of_def)
  moreover have "sample_state [demo_id (CHR ''2''), demo_id (CHR ''3'')] demo_row3 (put_run demo_row3 demo_rdb2)"
    by (rule sample_put [OF s2]) simp
  ultimately show ?thesis by (simp add: demo_rdb3_def)
qed

lemma demo_start: "run_empty demo_rdb0 \<and> empty_store demo_rdb0"
  by (simp add: run_empty_def empty_store_def demo_rdb0_def)

lemma demo_step1: "dispatch_step demo_z demo_rcr demo_rdb0 demo_rdb1"
proof -
  obtain e where "prepareRun demo_z demo_rcr (demo_env (CHR ''2'') 1000000) demo_ctx demo_hash None demo_rdb0 = Inr (e, demo_rdb1)"
    using demo_prepared by blast
  then show ?thesis by (rule dispatch_step.prepare) (simp_all add: demo_rdb0_def)
qed

lemma demo_step2: "dispatch_step demo_z demo_rcr demo_rdb1 demo_rdb2"
  using demo_claimed by (blast intro: dispatch_step.claim)

lemma demo_step3: "dispatch_step demo_z demo_rcr demo_rdb2 demo_rdb3"
  using demo_committed by (blast intro: dispatch_step.boundary)

lemma demo_reach:
  "reach run_empty (dispatch_step demo_z demo_rcr) demo_rdb1" "reach run_empty (dispatch_step demo_z demo_rcr) demo_rdb2"
  "reach run_empty (dispatch_step demo_z demo_rcr) demo_rdb3"
proof -
  have "reach run_empty (dispatch_step demo_z demo_rcr) demo_rdb0" by (rule reach.intros(1)) (simp add: demo_start)
  from reach.intros(2) [OF this demo_step1] show r1: "reach run_empty (dispatch_step demo_z demo_rcr) demo_rdb1" .
  from reach.intros(2) [OF r1 demo_step2] show r2: "reach run_empty (dispatch_step demo_z demo_rcr) demo_rdb2" .
  from reach.intros(2) [OF r2 demo_step3] show "reach run_empty (dispatch_step demo_z demo_rcr) demo_rdb3" .
qed

section \<open>Counting invocations and turns\<close>

lemma filter_key_le_1:
  "distinct (map f (filter P xs)) \<Longrightarrow> (\<And>x. Q x \<Longrightarrow> P x \<and> f x = k) \<Longrightarrow> length (filter Q xs) \<le> 1"
proof (induction xs)
  case (Cons x xs)
  show ?case
  proof (cases "Q x")
    case True
    with Cons.prems have "\<And>y. y \<in> set xs \<Longrightarrow> \<not> Q y" by (auto split: if_split_asm)
    with True show ?thesis by simp
  qed (use Cons in \<open>auto split: if_split_asm\<close>)
qed simp

lemma one_turn:
  "distinct (map tn_ref (filter (\<lambda>t. tn_kind t = ''run_event'' \<and> tn_ref t \<noteq> None) ts)) \<Longrightarrow>
     length (filter (\<lambda>t. tn_kind t = ''run_event'' \<and> tn_ref t = Some rid) ts) \<le> 1"
  by (erule filter_key_le_1 [where k = "Some rid"]) simp

lemma no_turn:
  assumes "turns_ok rows ts" "distinct (map run_id rows)" "r \<in> set rows" "run_status r \<in> {Queued, Running}"
  shows "filter (\<lambda>t. tn_kind t = ''run_event'' \<and> tn_ref t = Some (run_id r)) ts = []"
proof -
  have "q = r" if "q \<in> set rows" "run_id q = run_id r" for q
    using assms(2,3) that by (auto simp: distinct_map dest: inj_onD)
  with assms(1,4) show ?thesis unfolding turns_ok_def filter_empty_conv by fastforce
qed

lemma one_call:
  assumes "distinct (map (\<lambda>i. (in_run i, in_token i)) (filter (\<lambda>i. in_token i \<noteq> None) iv))" "calls_ok iv r"
    and "map_option lower (run_token r) = run_token r"
  shows "map in_token (filter (\<lambda>i. in_run i = run_id r \<and> in_token i \<noteq> None) iv) \<in>
    (if has_result r then {[run_token r]}
     else if run_status r \<in> {Queued, Running} \<or> run_status r = Failed_run \<and> run_error r \<in> Some ` set no_call_classes then {[]}
     else {[], [run_token r]})"
proof -
  let ?calls = "filter (\<lambda>i. in_run i = run_id r \<and> in_token i \<noteq> None) iv"
  have tok: "in_token i = run_token r" if "i \<in> set ?calls" for i using assms(2) that by (auto simp: calls_ok_def)
  have eq: "?calls = filter (\<lambda>i. in_run i = run_id r \<and> in_token i \<noteq> None \<and> in_token i = run_token r) iv"
    by (rule filter_cong [OF refl]) (use assms(2) in \<open>auto simp: calls_ok_def\<close>)
  have "length ?calls \<le> 1" unfolding eq
    using assms(1) by (rule filter_key_le_1 [where k = "(run_id r, run_token r)"]) metis
  then have few: "map in_token ?calls \<in> {[], [run_token r]}"
  proof (cases ?calls)
    case (Cons i xs)
    then have "i \<in> set ?calls" by simp
    then have "in_token i = run_token r" by (rule tok)
    with Cons \<open>length ?calls \<le> 1\<close> show ?thesis by simp
  qed simp
  consider (yes) "has_result r" | (no) "\<not> has_result r" "run_status r \<in> {Queued, Running} \<or> run_status r = Failed_run \<and> run_error r \<in> Some ` set no_call_classes"
    | (other) "\<not> has_result r" "\<not> (run_status r \<in> {Queued, Running} \<or> run_status r = Failed_run \<and> run_error r \<in> Some ` set no_call_classes)"
    by blast
  then show ?thesis
  proof cases
    case yes
    with assms(2,3) have "\<exists>i \<in> set iv. in_run i = run_id r \<and> in_token i \<noteq> None" by (auto simp: calls_ok_def answered_def list_ex_iff)
    then have "?calls \<noteq> []" by (auto simp: filter_empty_conv)
    with few yes show ?thesis by simp
  next
    case no
    with assms(2) have "?calls = []" by (auto simp: calls_ok_def filter_empty_conv)
    with no show ?thesis by simp
  next
    case other
    from few show ?thesis unfolding if_not_P [OF other(1)] if_not_P [OF other(2)] .
  qed
qed

section \<open>Properties\<close>

text \<open>
  C27. Refinement: whatever operation of the protocol succeeds, with whatever arguments, it has
  left the tables as they were, or inserted one fresh queued run with its prepared event, or made
  exactly one move of the lifecycle on one run, with exactly the events, the turn and the
  invocation that move allows.
\<close>

theorem every_step_is_a_move:
  fixes db :: "'a run_db_scheme"
  assumes "dispatch_step z cr db db'"
  shows "db' = db \<or>
    (\<exists>r typs b r'. run_move r typs b r' \<and> effect cr db r typs b r' db') \<or>
    (\<exists>r. fresh_run r \<and> run_id r \<notin> run_id ` set (db_runs db) \<and> db_runs db' = db_runs db @ [r] \<and>
       new_events (run_id r) [''run.dispatch_prepared''] (db_events db) (db_events db') \<and>
       db_invs db' = db_invs db \<and> db_turns db' = db_turns db)"
  using assms
proof (cases rule: step_implements)
  case move
  then show ?thesis unfolding implements_def by blast
next
  case (new r)
  then show ?thesis by blast
qed

theorem every_step_is_a_move_witness:
  "demo_rdb2 = demo_rdb1 \<or>
    (\<exists>r typs b r'. run_move r typs b r' \<and> effect demo_rcr demo_rdb1 r typs b r' demo_rdb2) \<or>
    (\<exists>r. fresh_run r \<and> run_id r \<notin> run_id ` set (db_runs demo_rdb1) \<and> db_runs demo_rdb2 = db_runs demo_rdb1 @ [r] \<and>
       new_events (run_id r) [''run.dispatch_prepared''] (db_events demo_rdb1) (db_events demo_rdb2) \<and>
       db_invs demo_rdb2 = db_invs demo_rdb1 \<and> db_turns demo_rdb2 = db_turns demo_rdb1)"
  by (rule every_step_is_a_move [OF demo_step2])

text \<open>
  C28. In every reachable state a run's evidence is what its row says. The row satisfies the state
  matrix. The audit log has exactly one prepared event of the run; a claim event, one, exactly when
  it has a token; an unknown event, one, exactly when it has been unknown; a reconciliation, one,
  exactly when it has been unknown and ended with an answer of the provider (completed, or failed
  with no local error class); and one terminal event, of the matching type, exactly when it has
  ended. A run that ended with an answer has exactly one invocation, an open run and a run failed
  before the boundary have none, any other (unknown, denied, or failed on the way to the provider)
  has at most one; each carries the run's own token. No turn of the workroom announces an open run,
  and at most one announces any other.
\<close>

theorem run_evidence_matches_row:
  assumes "reach run_empty (dispatch_step z cr) db" and "r \<in> set (db_runs db)"
  shows "runs_dispatch_v1_state_check r \<and>
    event_count (run_id r) ''run.dispatch_prepared'' (db_events db) = 1 \<and>
    event_count (run_id r) ''run.dispatch_claimed'' (db_events db) = of_bool (run_token r \<noteq> None) \<and>
    event_count (run_id r) ''run.outcome_unknown'' (db_events db) = of_bool (run_unknown_at r \<noteq> None) \<and>
    event_count (run_id r) ''run.outcome_reconciled'' (db_events db) = of_bool (run_unknown_at r \<noteq> None \<and>
      (run_status r = Completed \<or> run_status r = Failed_run \<and> run_error r = None)) \<and>
    event_count (run_id r) ''run.completed'' (db_events db) = of_bool (run_status r = Completed) \<and>
    event_count (run_id r) ''run.failed'' (db_events db) = of_bool (run_status r = Failed_run) \<and>
    event_count (run_id r) ''run.denied'' (db_events db) = of_bool (run_status r = Denied) \<and>
    map in_token (filter (\<lambda>i. in_run i = run_id r \<and> in_token i \<noteq> None) (db_invs db)) \<in>
      (if run_status r = Completed \<or> run_status r = Failed_run \<and> run_error r = None then {[run_token r]}
       else if run_status r \<in> {Queued, Running} \<or> run_status r = Failed_run \<and>
          run_error r \<in> {Some ''dispatch_preclaim_failed'', Some ''dispatch_never_claimed'',
            Some ''dispatch_never_started'', Some ''dispatch_boundary_persist_failed''} then {[]}
       else {[], [run_token r]}) \<and>
    length (filter (\<lambda>t. tn_kind t = ''run_event'' \<and> tn_ref t = Some (run_id r)) (db_turns db))
      \<le> of_bool (run_status r \<notin> {Queued, Running})"
proof -
  have inv: "dispatch_inv db" using assms(1) by (rule dispatch.inv_reach)
  then have r: "row_ok_v1 r" "evidence_ok (db_events db) r" "calls_ok (db_invs db) r"
    and turns: "turns_ok (db_runs db) (db_turns db)" "distinct (map run_id (db_runs db))"
    using assms(2) by (simp_all add: dispatch_inv_def)
  have tok: "map_option lower (run_token r) = run_token r" using r(1) by (simp add: row_ok_v1_def)
  have classes: "Some ` set no_call_classes = {Some ''dispatch_preclaim_failed'', Some ''dispatch_never_claimed'',
      Some ''dispatch_never_started'', Some ''dispatch_boundary_persist_failed''}" by (simp add: no_call_classes_def)
  have "distinct (map (\<lambda>i. (in_run i, in_token i)) (filter (\<lambda>i. in_token i \<noteq> None) (db_invs db)))"
    using inv by (simp add: dispatch_inv_def)
  note calls = one_call [OF this r(3) tok, unfolded has_result_def classes]
  have "length (filter (\<lambda>t. tn_kind t = ''run_event'' \<and> tn_ref t = Some (run_id r)) (db_turns db)) \<le> of_bool (run_status r \<notin> {Queued, Running})"
  proof (cases "run_status r \<in> {Queued, Running}")
    case True
    with no_turn [OF turns assms(2)] show ?thesis by simp
  next
    case False
    from inv have "distinct (map tn_ref (filter (\<lambda>t. tn_kind t = ''run_event'' \<and> tn_ref t \<noteq> None) (db_turns db)))"
      by (simp add: dispatch_inv_def)
    from one_turn [OF this, of "run_id r"] False show ?thesis by simp
  qed
  with calls r(1,2) show ?thesis unfolding row_ok_v1_def evidence_ok_def has_result_def by blast
qed

theorem run_evidence_matches_row_witness:
  "event_count demo_run ''run.dispatch_prepared'' (db_events demo_rdb3) = 1 \<and>
   event_count demo_run ''run.dispatch_claimed'' (db_events demo_rdb3) = 1 \<and>
   event_count demo_run ''run.completed'' (db_events demo_rdb3) = 0 \<and>
   filter (\<lambda>i. in_run i = demo_run \<and> in_token i \<noteq> None) (db_invs demo_rdb3) = []"
proof -
  have "demo_row3 \<in> set (db_runs demo_rdb3)" using demo_committed by (simp add: sample_state_def)
  from run_evidence_matches_row [OF demo_reach(3) this] show ?thesis
    by (simp add: demo_row3_def demo_row2_def demo_row1_def claim_update_def)
qed

text \<open>
  A run that has ended is final: whatever operations follow, its row never changes again; and
  before that, a token, its deadline and a committed boundary are never replaced.
\<close>

theorem ended_runs_are_final:
  assumes "reach run_empty (dispatch_step z cr) db" and "(dispatch_step z cr)\<^sup>*\<^sup>* db db'" and "r \<in> set (db_runs db)"
  shows "(run_status r \<in> {Completed, Failed_run, Denied} \<longrightarrow> r \<in> set (db_runs db')) \<and>
    (\<exists>r' \<in> set (db_runs db'). run_id r' = run_id r \<and>
      (run_token r \<noteq> None \<longrightarrow> run_token r' = run_token r \<and> run_deadline r' = run_deadline r) \<and>
      (run_boundary r \<noteq> None \<longrightarrow> run_boundary r' = run_boundary r))"
proof -
  obtain r' where "r' \<in> set (db_runs db')" "run_mono r r'"
    using run_mono_steps [OF dispatch.inv_reach [OF assms(1)] assms(2,3)] by blast
  then show ?thesis unfolding run_mono_def run_ended_def by metis
qed

theorem ended_runs_are_final_witness:
  "\<exists>r' \<in> set (db_runs demo_rdb3). run_id r' = demo_run \<and> run_token r' = Some demo_tok"
proof -
  have "demo_row2 \<in> set (db_runs demo_rdb2)" using demo_claimed by (simp add: sample_state_def)
  moreover have "(dispatch_step demo_z demo_rcr)\<^sup>*\<^sup>* demo_rdb2 demo_rdb3" using demo_step3 by (rule r_into_rtranclp)
  ultimately show ?thesis using ended_runs_are_final [OF demo_reach(2), of demo_rdb3 demo_row2]
    by (auto simp: demo_row2_def demo_row1_def claim_update_def)
qed

text \<open>
  C29. The boundary is the gate of the provider call, and it opens once: after a call of
  \<open>commitDispatchBoundary\<close> that answered committed, no later call for that run, with any token and
  at any time, answers committed again.
\<close>

theorem boundary_commits_once:
  assumes "reach run_empty (dispatch_step z cr) db"
    and "commitDispatchBoundary env org rid tk db = Inr (Committed t, db1)"
    and "(dispatch_step z cr)\<^sup>*\<^sup>* db1 db2" and "lower rid2 = lower rid"
  shows "commitDispatchBoundary env2 org2 rid2 tk2 db2 \<noteq> Inr (Committed t2, db3)"
proof
  assume again: "commitDispatchBoundary env2 org2 rid2 tk2 db2 = Inr (Committed t2, db3)"
  have inv: "dispatch_inv db" using assms(1) by (rule dispatch.inv_reach)
  have inv1: "dispatch_inv db1" by (rule dispatch_step_inv [OF inv dispatch_step.boundary [OF assms(2)]])
  from assms(2) obtain r where r: "r \<in> set (db_runs db)" "run_id r = lower rid"
    and db1: "db1 = put_run (r\<lparr> run_boundary := Some (tx_clock env) \<rparr>) db"
    by (rule boundary_implements) auto
  define r1 where "r1 = r\<lparr> run_boundary := Some (tx_clock env) \<rparr>"
  have "r1 \<in> set (db_runs db1)" using r by (auto simp: db1 r1_def)
  from run_mono_steps [OF inv1 assms(3) this] obtain r2 where r2: "r2 \<in> set (db_runs db2)" "run_mono r1 r2" by blast
  from again obtain q where q: "q \<in> set (db_runs db2)" "run_id q = lower rid2" "boundary_cond (tx_clock env2) (lower tk2) q"
    by (rule boundary_implements) auto
  have "dispatch_inv db2" by (rule dispatch.inv_run [OF inv1 assms(3)])
  then have "q = r2" using q(1,2) r2 r(2) assms(4) by (intro unique_run) (auto simp: run_mono_def r1_def)
  with q(3) r2(2) show False by (auto simp: boundary_cond_def run_mono_def r1_def)
qed

theorem boundary_commits_once_witness:
  "commitDispatchBoundary (demo_env (CHR ''4'') 3000001) demo_org demo_run demo_tok demo_rdb3 \<noteq> Inr (Committed 3000, demo_rdb3)"
  by (rule boundary_commits_once [OF demo_reach(2) conjunct1 [OF demo_committed] rtranclp.rtrancl_refl refl])

text \<open>
  A failure recorded as never having called the provider stays that way: once a run has failed
  before its boundary (not claimed, not started, gate not established), in every later state it
  has no invocation of a dispatch, and no call for it ever passes the boundary.
\<close>

theorem no_call_failures_never_call:
  assumes "reach run_empty (dispatch_step z cr) db" and "(dispatch_step z cr)\<^sup>*\<^sup>* db db'"
    and "r \<in> set (db_runs db)" and "run_status r = Failed_run" and "run_error r \<in> Some ` set no_call_classes"
    and "lower rid = run_id r"
  shows "r \<in> set (db_runs db') \<and> (\<forall>i \<in> set (db_invs db'). in_run i = run_id r \<longrightarrow> in_token i = None) \<and>
    commitDispatchBoundary env org rid tk db' \<noteq> Inr (Committed t, db'')"
proof -
  have inv': "dispatch_inv db'" using dispatch.inv_run [OF dispatch.inv_reach [OF assms(1)] assms(2)] .
  obtain r' where "r' \<in> set (db_runs db')" "run_mono r r'"
    using run_mono_steps [OF dispatch.inv_reach [OF assms(1)] assms(2,3)] by blast
  then have r: "r \<in> set (db_runs db')" using assms(4) by (simp add: run_mono_def run_ended_def)
  then have "calls_ok (db_invs db') r" using inv' by (simp add: dispatch_inv_def)
  then have "\<forall>i \<in> set (db_invs db'). in_run i = run_id r \<longrightarrow> in_token i = None"
    using assms(4,5) by (auto simp: calls_ok_def)
  moreover have "commitDispatchBoundary env org rid tk db' \<noteq> Inr (Committed t, db'')"
  proof
    assume "commitDispatchBoundary env org rid tk db' = Inr (Committed t, db'')"
    then obtain q where q: "q \<in> set (db_runs db')" "run_id q = lower rid" "boundary_cond (tx_clock env) (lower tk) q"
      by (rule boundary_implements) auto
    then have "q = r" using unique_run [OF inv' _ r] assms(6) by simp
    with q(3) assms(4) show False by (simp add: boundary_cond_def)
  qed
  ultimately show ?thesis using r by blast
qed

definition demo_alone :: run_ctx where "demo_alone = demo_ctx\<lparr> cx_workroom := None \<rparr>"

definition demo_rdb4 :: run_db where
  "demo_rdb4 = result_db (failPreclaim demo_rcr (demo_env (CHR ''a'') 4000000) demo_alone ''bad'' demo_rdb1)"

definition demo_row4 :: run_row where
  "demo_row4 = fail_update 4000000 ''dispatch_preclaim_failed'' demo_row1"

lemma demo_alone_sel [simp]: "cx_org demo_alone = demo_org" "cx_run demo_alone = demo_run" "cx_workroom demo_alone = None"
  by (simp_all add: demo_alone_def demo_ctx_def)

lemma demo_failed:
  "failPreclaim demo_rcr (demo_env (CHR ''a'') 4000000) demo_alone ''bad'' demo_rdb1 = Inr (True, demo_rdb4) \<and>
   sample_state [demo_id (CHR ''2''), demo_id (CHR ''a'')] demo_row4 demo_rdb4"
proof -
  note s1 = conjunct2 [OF demo_prepared]
  have row4: "run_id demo_row4 = demo_run" "runs_dispatch_v1_state_check demo_row4" "timeout_check demo_row4"
    by (simp_all add: demo_row4_def demo_row1_def fail_update_def runs_dispatch_v1_state_check_def timeout_check_def)
  have s2: "sample_state [demo_id (CHR ''2'')] demo_row4 (put_run demo_row4 demo_rdb1)"
    by (rule sample_put [OF s1]) (simp add: row4)
  have u: "update_run demo_org demo_run claim_cond (fail_update 4000000 ''dispatch_preclaim_failed'') demo_rdb1 =
      Inr (Some demo_row4, put_run demo_row4 demo_rdb1)"
    using find_sample [OF s1] sample_free [OF s1, of demo_row4] row4
    by (simp add: update_run_def demo_row4_def [symmetric])
  have js: "json_ok (no_call_meta demo_alone ''dispatch_preclaim_failed'' (Some (take 200 ''bad'')))"
    by (simp add: no_call_meta_def opt_str_def)
  have cast: "event_castable demo_alone ''run.failed'' ''1'' 4000 (no_call_meta demo_alone ''dispatch_preclaim_failed'' (Some (take 200 ''bad'')))"
    by code_simp
  obtain row where row: "append_run_event demo_rcr (demo_id (CHR ''a'')) demo_alone ''run.failed'' ''1'' 4000
      (sha demo_rcr (utf8 (''dispatch_preclaim_failed:'' @ ''bad'')))
      (no_call_meta demo_alone ''dispatch_preclaim_failed'' (Some (take 200 ''bad''))) (put_run demo_row4 demo_rdb1) =
        Inr (demo_id (CHR ''a''), (put_run demo_row4 demo_rdb1)\<lparr> db_events := db_events (put_run demo_row4 demo_rdb1) @ [row] \<rparr>)"
    "sample_state ([demo_id (CHR ''2'')] @ [demo_id (CHR ''a'')]) demo_row4
       ((put_run demo_row4 demo_rdb1)\<lparr> db_events := db_events (put_run demo_row4 demo_rdb1) @ [row] \<rparr>)"
    by (rule demo_append [OF s2 js _ _ _ _ _ cast, of "CHR ''a''"]) simp_all
  have "failPreclaim demo_rcr (demo_env (CHR ''a'') 4000000) demo_alone ''bad'' demo_rdb1 =
      Inr (True, (put_run demo_row4 demo_rdb1)\<lparr> db_events := db_events (put_run demo_row4 demo_rdb1) @ [row] \<rparr>)"
    using row(1) by (simp add: failPreclaim_def withTenantTx_def u ms_of_def appendTerminalRunEvent_def maybeEnsureTurn_def)
  with row(2) show ?thesis by (simp add: demo_rdb4_def)
qed

lemma demo_reach4: "reach run_empty (dispatch_step demo_z demo_rcr) demo_rdb4"
proof (rule reach.intros(2) [OF demo_reach(1)])
  show "dispatch_step demo_z demo_rcr demo_rdb1 demo_rdb4" using demo_failed by (blast intro: dispatch_step.preclaim)
qed

theorem no_call_failures_never_call_witness:
  "demo_row4 \<in> set (db_runs demo_rdb4) \<and> filter (\<lambda>i. in_run i = demo_run \<and> in_token i \<noteq> None) (db_invs demo_rdb4) = [] \<and>
   commitDispatchBoundary (demo_env (CHR ''4'') 5000000) demo_org demo_run demo_tok demo_rdb4 \<noteq> Inr (Committed 5000, demo_rdb4)"
proof -
  have "demo_row4 \<in> set (db_runs demo_rdb4)" "run_id demo_row4 = demo_run" "run_status demo_row4 = Failed_run"
    "run_error demo_row4 \<in> Some ` set no_call_classes" "lower demo_run = run_id demo_row4"
    using demo_failed by (simp_all add: sample_state_def) (simp_all add: demo_row4_def demo_row1_def fail_update_def no_call_classes_def)
  with no_call_failures_never_call [OF demo_reach4 rtranclp.rtrancl_refl this(1,3,4,5)] show ?thesis
    by (auto simp: filter_empty_conv)
qed

text \<open>
  \<open>commitDispatchBoundary\<close> on every branch: in every reachable state it answers committed
  exactly when the caller's token owns a running run whose boundary is not committed and whose
  deadline has not passed, and then sets that boundary and nothing else; otherwise it changes
  nothing and names the first condition that failed. No constraint of the database ever fires.
\<close>

theorem boundary_decision:
  assumes "reach run_empty (dispatch_step z cr) db" and "is_uuid org" and "is_uuid rid" and "is_uuid tk" and "lower tk = tk"
  shows "commitDispatchBoundary env org rid tk db =
    (case find (\<lambda>r. run_org r = org \<and> run_id r = lower rid) (db_runs db) of
       None \<Rightarrow> Inr (NotCommitted Run_missing, db)
     | Some r \<Rightarrow>
         if run_token r \<noteq> Some tk then Inr (NotCommitted Wrong_token, db)
         else if run_boundary r \<noteq> None then Inr (NotCommitted Boundary_already_committed, db)
         else if run_status r \<noteq> Running then Inr (NotCommitted Not_running, db)
         else if tx_clock env < the (run_deadline r)
         then Inr (Committed (ms_of (tx_clock env)), put_run (r\<lparr> run_boundary := Some (tx_clock env) \<rparr>) db)
         else Inr (NotCommitted Deadline_expired, db))"
proof -
  have inv: "dispatch_inv db" using assms(1) by (rule dispatch.inv_reach)
  have sel: "select_run org rid db = Inr (find (\<lambda>r. run_org r = org \<and> run_id r = lower rid) (db_runs db))"
    using assms(3) by (simp add: select_run_def pg_uuid_def run_visible_def)
  have tk: "pg_uuid tk = Some tk" using assms(4,5) by (simp add: pg_uuid_def)
  show ?thesis
  proof (cases "find (\<lambda>r. run_org r = org \<and> run_id r = lower rid) (db_runs db)")
    case None
    then show ?thesis using assms(2) tk sel by (simp add: commitDispatchBoundary_def withTenantTx_def update_run_def)
  next
    case (Some r)
    then have "r \<in> set (db_runs db)" by (auto simp: find_Some_iff)
    then have row: "row_ok_v1 r" and tokens: "\<And>q. q \<in> set (db_runs db) \<Longrightarrow> run_token r = run_token q \<Longrightarrow> run_token r \<noteq> None \<Longrightarrow> run_id r = run_id q"
      using inv unfolding dispatch_inv_def by blast+
    show ?thesis
    proof (cases "run_status r = Running \<and> run_token r = Some tk")
      case True
      with row obtain d where d: "run_deadline r = Some d"
        by (auto simp: row_ok_v1_def runs_dispatch_v1_state_check_def)
      let ?r = "r\<lparr> run_boundary := Some (tx_clock env) \<rparr>"
      have chk: "runs_dispatch_v1_state_check ?r" "timeout_check ?r"
        using row True by (auto simp: row_ok_v1_def runs_dispatch_v1_state_check_def timeout_check_def)
      have "run_id q = run_id r" if "q \<in> set (db_runs db)" "run_token q = Some tk" for q
        using tokens [OF that(1)] that(2) True by simp
      then have free: "\<not> token_taken ?r db" using True by (auto simp: token_taken_def list_ex_iff)
      show ?thesis using True d chk free Some assms(2) tk sel
        by (simp add: commitDispatchBoundary_def withTenantTx_def update_run_def boundary_cond_def)
    next
      case False
      then show ?thesis using Some assms(2) tk sel
        by (auto simp: commitDispatchBoundary_def withTenantTx_def update_run_def boundary_cond_def)
    qed
  qed
qed

theorem boundary_decision_witness:
  "commitDispatchBoundary (demo_env (CHR ''4'') 8000000) demo_org demo_run demo_tok demo_rdb2 =
     Inr (NotCommitted Deadline_expired, demo_rdb2)"
proof -
  have s: "db_runs demo_rdb2 = [demo_row2]" using demo_claimed by (simp add: sample_state_def)
  show ?thesis
    unfolding boundary_decision [OF demo_reach(2) demo_ids(1,3,5,6)]
    by (simp add: s demo_ids) (simp add: demo_row2_def demo_row1_def claim_update_def)
qed

section \<open>Recovery\<close>

lemma effect_no_call:
  assumes "effect cr db r typs no_call r' db'" "run_id r' = run_id r"
  shows "r' \<in> set (db_runs db')" "db_invs db' = db_invs db" "r \<in> set (db_runs db)"
  using assms by (auto simp: effect_def new_invs_def no_call_def)

text \<open>
  C30. Recovery of a running dispatch decides by the durable boundary alone. On a stale run whose
  boundary was never committed it records a failure that never called the provider; on one whose
  boundary was committed it records that the outcome is unknown, and never a failure. It writes
  no invocation either way, and it leaves the tables alone only when there is no stale run to
  recover or another session holds its row.
\<close>

theorem recovery_decides_by_boundary:
  assumes "reach run_empty (dispatch_step z cr) db"
    and "recoverRunningStale z cr env org rid grace db = Inr (rr, db')"
  shows "db_invs db' = db_invs db \<and> (case rr of
      Not_recovered \<Rightarrow> db' = db \<and> \<not> (\<exists>r \<in> set (db_runs db). run_org r = org \<and> run_id r = lower rid \<and>
        running_stale (tx_now env) grace r \<and> run_id r \<notin> set (tx_locked env))
    | Failed_never_started \<Rightarrow> \<exists>r \<in> set (db_runs db). run_id r = lower rid \<and> running_stale (tx_now env) grace r \<and>
        run_boundary r = None \<and> fail_update (tx_now env) ''dispatch_never_started'' r \<in> set (db_runs db')
    | Recovered_unknown \<Rightarrow> \<exists>r \<in> set (db_runs db). run_id r = lower rid \<and> running_stale (tx_now env) grace r \<and>
        run_boundary r \<noteq> None \<and> unknown_update (tx_now env) ''stale_dispatch_claim'' r \<in> set (db_runs db'))"
proof -
  have inv: "dispatch_inv db" using assms(1) by (rule dispatch.inv_reach)
  from assms(2) have rid: "is_uuid rid"
    by (auto simp: recoverRunningStale_def withTenantTx_def select_unlocked_def select_run_def pg_uuid_def split: if_split_asm)
  from assms(2) show ?thesis
  proof (cases rule: recover_running_implements)
    case no
    have "\<not> (run_org r = org \<and> run_id r = lower rid \<and> running_stale (tx_now env) grace r \<and> run_id r \<notin> set (tx_locked env))"
      if r: "r \<in> set (db_runs db)" for r
    proof
      assume a: "run_org r = org \<and> run_id r = lower rid \<and> running_stale (tx_now env) grace r \<and> run_id r \<notin> set (tx_locked env)"
      obtain q where q: "find (\<lambda>r. run_visible org r \<and> run_id r = lower rid) (db_runs db) = Some q"
        using r a by (cases "find (\<lambda>r. run_visible org r \<and> run_id r = lower rid) (db_runs db)")
          (auto simp: find_None_iff run_visible_def)
      then have "q \<in> set (db_runs db)" "run_id q = run_id r" using a by (auto simp: find_Some_iff)
      then have "q = r" using unique_run [OF inv _ r] by blast
      then have "select_unlocked env org rid (running_stale (tx_now env) grace) db = Inr (Some r)"
        using q a [THEN conjunct2, THEN conjunct2, THEN conjunct1] a [THEN conjunct2, THEN conjunct2, THEN conjunct2] rid
        by (simp add: select_unlocked_def select_run_def pg_uuid_def)
      with no(3) have "run_token r = None" by blast
      moreover have "row_ok_v1 r" using inv r by (simp add: dispatch_inv_def)
      ultimately show False using a by (auto simp: row_ok_v1_def runs_dispatch_v1_state_check_def running_stale_def)
    qed
    with no(1,2) show ?thesis by auto
  next
    case (never r)
    note sel = select_unlocked_Some [OF never(2)]
    from never(4) have e: "fail_update (tx_now env) ''dispatch_never_started'' r \<in> set (db_runs db')"
      "db_invs db' = db_invs db" "r \<in> set (db_runs db)" by (rule effect_no_call; simp add: fail_update_def)+
    with never(1,3) sel select_run_Some [OF sel(1)] show ?thesis by auto
  next
    case (unknown r)
    note sel = select_unlocked_Some [OF unknown(2)]
    from unknown(4) have e: "unknown_update (tx_now env) ''stale_dispatch_claim'' r \<in> set (db_runs db')"
      "db_invs db' = db_invs db" "r \<in> set (db_runs db)" by (rule effect_no_call; simp add: unknown_update_def)+
    with unknown(1,3) sel select_run_Some [OF sel(1)] show ?thesis by auto
  qed
qed

definition demo_row5 :: run_row where
  "demo_row5 = fail_update 9000000 ''dispatch_never_started'' demo_row2"

lemma demo_locked: "tx_locked (demo_env c n) = []" "tx_turn (demo_env c n) = demo_id (CHR ''9'')"
  by (simp_all add: demo_env_def)

lemma demo_recovered:
  obtains db' where "recoverRunningStale demo_z demo_rcr (demo_env (CHR ''a'') 9000000) demo_org demo_run 1000
     demo_rdb2 = Inr (Failed_never_started, db')"
proof -
  note s1 = conjunct2 [OF demo_claimed]
  let ?ctx = "(recoveryEventCtx demo_org demo_run demo_row2)"
  have row5: "run_id demo_row5 = demo_run" "runs_dispatch_v1_state_check demo_row5" "timeout_check demo_row5"
    by (simp_all add: demo_row5_def demo_row2_def demo_row1_def claim_update_def fail_update_def
        runs_dispatch_v1_state_check_def timeout_check_def)
  have s2: "sample_state [demo_id (CHR ''2''), demo_id (CHR ''3'')] demo_row5 (put_run demo_row5 demo_rdb2)"
    by (rule sample_put [OF s1]) (simp add: row5)
  have u: "update_run demo_org demo_run (\<lambda>_. True) (fail_update 9000000 ''dispatch_never_started'') demo_rdb2 =
      Inr (Some demo_row5, put_run demo_row5 demo_rdb2)"
    using find_sample [OF s1] sample_free [OF s1, of demo_row5] row5
    by (simp add: update_run_def demo_row5_def [symmetric])
  have sel: "select_unlocked (demo_env (CHR ''a'') 9000000) demo_org demo_run (running_stale 9000000 1000) demo_rdb2 =
      Inr (Some demo_row2)"
    using find_sample [OF s1]
    by (simp add: select_unlocked_def running_stale_def demo_locked) (simp add: demo_row2_def demo_row1_def claim_update_def)
  have js: "json_ok (recovered_meta demo_row2 ''dispatch_never_started'')"
    by (simp add: recovered_meta_def)
  have cast: "event_castable ?ctx ''run.failed'' ''1'' 9000 (recovered_meta demo_row2 ''dispatch_never_started'')"
    by code_simp
  obtain row where row: "append_run_event demo_rcr (demo_id (CHR ''a'')) ?ctx ''run.failed'' ''1'' 9000
      (sha demo_rcr (utf8 (''dispatch_never_started:'' @ demo_run)))
      (recovered_meta demo_row2 ''dispatch_never_started'') (put_run demo_row5 demo_rdb2) =
        Inr (demo_id (CHR ''a''), (put_run demo_row5 demo_rdb2)\<lparr> db_events := db_events (put_run demo_row5 demo_rdb2) @ [row] \<rparr>)"
    by (rule demo_append [OF s2 js _ _ _ _ _ cast, of "CHR ''a''"]) simp_all
  have tok: "run_token demo_row2 = Some demo_tok" "run_boundary demo_row2 = None"
    by (simp_all add: demo_row2_def demo_row1_def claim_update_def)
  have wr: "cx_workroom ?ctx = Some (demo_id (CHR ''5''), demo_id (CHR ''6''))"
    by (simp add: recoveryEventCtx_def demo_row2_def demo_row1_def claim_update_def)
  have ids: "pg_uuid (demo_id c) = Some (demo_id c)" if "c \<in> set ''0123456789abcdef''" for c
    using demo_id_uuid [OF that] by (simp add: pg_uuid_def)
  have turns: "db_turns demo_rdb2 = []" using s1 by (simp add: sample_state_def)
  show thesis
    by (rule that) (use row in \<open>simp add: recoverRunningStale_def withTenantTx_def sel tok u ms_of_def appendTerminalRunEvent_def
        maybeEnsureTurn_def wr ensureRunEventTurn_def ids turns demo_locked Let_def\<close>)
qed

theorem recovery_decides_by_boundary_witness:
  "\<exists>db'. recoverRunningStale demo_z demo_rcr (demo_env (CHR ''a'') 9000000) demo_org demo_run 1000 demo_rdb2 =
      Inr (Failed_never_started, db') \<and> demo_row5 \<in> set (db_runs db') \<and> db_invs db' = []"
proof -
  obtain db' where r: "recoverRunningStale demo_z demo_rcr (demo_env (CHR ''a'') 9000000) demo_org demo_run 1000 demo_rdb2 =
      Inr (Failed_never_started, db')"
    by (rule demo_recovered)
  have s: "db_runs demo_rdb2 = [demo_row2]" "db_invs demo_rdb2 = []" using demo_claimed by (simp_all add: sample_state_def)
  from recovery_decides_by_boundary [OF demo_reach(2) r] s have "demo_row5 \<in> set (db_runs db')" "db_invs db' = []"
    by (simp_all add: demo_row5_def)
  with r show ?thesis by blast
qed

end
