(* ===== verification/Run_Replay.thy ===== *)
theory Run_Replay
  imports Run_Lifecycle
begin

text \<open>
  A second known result for a run. \<open>finalizeKnownOutcome\<close> may be called again with a result for a
  run it has already recorded (a late answer, a retried request): these are the facts the first
  call leaves in the tables, and the checks a second call makes against them.
\<close>

section \<open>What the first result leaves behind\<close>

lemma insertOrReuse_result:
  fixes db :: "'a run_db_scheme"
  assumes "insertOrReuseInvocation ctx nw db = Inr ((iid, b), db')" "in_token nw = Some token"
  obtains i r t where "pg_uuid (cx_run ctx) = Some r" "pg_uuid token = Some t"
    "filter (\<lambda>i. in_org i = cx_org ctx \<and> in_run i = r \<and> in_token i = Some t) (db_invs db') = [i]"
    "in_id i = iid" "in_endpoint i = in_endpoint nw" "in_request i = in_request nw"
    "i \<in> set (db_invs db) \<or> in_status i = in_status nw \<and> in_response i = in_response nw"
proof -
  obtain r t where c: "pg_uuid (cx_run ctx) = Some r" "pg_uuid token = Some t"
    using assms by (auto simp: insertOrReuseInvocation_def split: option.splits)
  show thesis
  proof (cases "list_ex (\<lambda>i. in_run i = r \<and> in_token i = Some t) (db_invs db)")
    case True
    from assms c True obtain i where f: "filter (\<lambda>i. in_org i = cx_org ctx \<and> in_run i = r \<and> in_token i = Some t) (db_invs db) = [i]"
      and i: "in_id i = iid" "in_endpoint i = in_endpoint nw" "in_request i = in_request nw" "db' = db"
      by (auto simp: insertOrReuseInvocation_def split: if_split_asm list.split_asm)
    have "i \<in> set (filter (\<lambda>i. in_org i = cx_org ctx \<and> in_run i = r \<and> in_token i = Some t) (db_invs db))"
      unfolding f by simp
    then have "i \<in> set (db_invs db)" by simp
    with c f i show thesis by (intro that [of r t i]) auto
  next
    case False
    define i where "i = nw\<lparr> in_run := r, in_org := cx_org ctx, in_provider := cx_provider ctx,
                       in_token := Some t, in_usage := json_value (in_usage nw) \<rparr>"
    have i: "db' = db\<lparr> db_invs := db_invs db @ [i] \<rparr>" "in_id nw = iid"
      using assms c False by (auto simp: insertOrReuseInvocation_def i_def split: if_split_asm)
    have "filter (\<lambda>i. in_org i = cx_org ctx \<and> in_run i = r \<and> in_token i = Some t) (db_invs db') = [i]"
      using False by (auto simp: i(1) i_def filter_empty_conv list_ex_iff)
    with c i show thesis by (intro that [of r t i]) (auto simp: i_def)
  qed
qed

lemma one_terminal:
  assumes "e \<in> set es" "P e" "length (filter P es) \<le> 1"
  shows "filter P es = [e]"
proof -
  from assms(1,2) have "e \<in> set (filter P es)" by simp
  with assms(3) show ?thesis by (cases "filter P es") (auto simp: Suc_le_eq)
qed

lemma terminal_count:
  "length (filter (\<lambda>e. ev_subject_type e = ''run'' \<and> ev_subject_id e = r \<and> ev_type e \<in> set terminal_types) es) =
    event_count r ''run.completed'' es + event_count r ''run.failed'' es + event_count r ''run.denied'' es"
  by (induction es) (auto simp: event_count_def terminal_types_def)

lemma ended_count:
  assumes "evidence_ok es r" "run_ended r"
  shows "length (filter (\<lambda>e. ev_subject_type e = ''run'' \<and> ev_subject_id e = run_id r \<and> ev_type e \<in> set terminal_types) es) = 1"
  using assms by (auto simp: terminal_count evidence_ok_def run_ended_def)

lemma terminal_event_in: "fst (terminal_event num ctx row iid out) \<in> set terminal_types"
  by (cases out) (simp_all add: terminal_event_def terminal_types_def Let_def)

lemma readTerminal_single:
  fixes db :: "'a run_db_scheme"
  assumes "evidence_ok (db_events db) r" "run_ended r" "e \<in> set (db_events db)" "visible (Some org) e"
    "ev_subject_type e = ''run''" "ev_subject_id e = run_id r" "ev_type e \<in> set terminal_types"
    "pg_uuid rid = Some (run_id r)" "ev_redaction e \<noteq> JNull"
  shows "readTerminalEventMeta org rid db = Inr (Some (ev_redaction e))"
proof -
  have "filter (\<lambda>e. visible (Some org) e \<and> ev_subject_type e = ''run'' \<and> ev_subject_id e = run_id r \<and>
      ev_type e \<in> set terminal_types) (db_events db) = [e]"
  proof (rule one_terminal)
    have "length (filter (\<lambda>e. visible (Some org) e \<and> ev_subject_type e = ''run'' \<and> ev_subject_id e = run_id r \<and>
        ev_type e \<in> set terminal_types) (db_events db)) \<le>
      length (filter (\<lambda>e. ev_subject_type e = ''run'' \<and> ev_subject_id e = run_id r \<and> ev_type e \<in> set terminal_types) (db_events db))"
      unfolding length_filter_conv_card by (intro card_mono) auto
    then show "length (filter (\<lambda>e. visible (Some org) e \<and> ev_subject_type e = ''run'' \<and> ev_subject_id e = run_id r \<and>
        ev_type e \<in> set terminal_types) (db_events db)) \<le> 1"
      using ended_count [OF assms(1,2)] by simp
  qed (use assms in auto)
  then show ?thesis by (simp add: readTerminalEventMeta_def assms(8,9) Let_def)
qed

definition terminal_meta :: "(rat \<Rightarrow> string) \<Rightarrow> run_ctx \<Rightarrow> run_row \<Rightarrow> string option \<Rightarrow> known_outcome \<Rightarrow> jsval" where
  "terminal_meta num ctx row iid out = snd (snd (terminal_event num ctx row iid out))"

definition live_obj :: "jsval \<Rightarrow> bool" where
  "live_obj v = (case v of JObj ps \<Rightarrow> list_all (\<lambda>p. snd p \<noteq> JUndef) ps | _ \<Rightarrow> False)"

lemma obj_get_live:
  assumes "live_obj v"
  shows "obj_get (to_jsonb v) k = map_option jnorm (obj_get v k)"
proof -
  obtain ps where v: "v = JObj ps" "list_all (\<lambda>p. snd p \<noteq> JUndef) ps" using assms by (cases v) (simp_all add: live_obj_def)
  show ?thesis
  proof (cases "obj_get v k")
    case None
    then have "k \<notin> fst ` set ps" by (simp add: v obj_get_def map_of_eq_None_iff)
    then have "obj_get (to_jsonb v) k = None" by (force simp: v to_jsonb_def obj_get_def map_of_eq_None_iff)
    with None show ?thesis by simp
  next
    case (Some x)
    then have "x \<noteq> JUndef" using v map_of_SomeD [of ps k] by (auto simp: obj_get_def list_all_iff)
    with Some show ?thesis by (simp add: to_jsonb_def obj_get_jnorm_Some)
  qed
qed

lemma opt_props [simp]:
  "map_of (opt_str k x) j = (if j = k then map_option JStr x else None)"
  "map_of (truthy_str k x) j = (if j = k \<and> x \<noteq> Some [] then map_option JStr x else None)"
  "map_of (findings_prop n) j = (if j = ''finding_count'' then map_option (\<lambda>k. JNum (Finite (of_int k))) n else None)"
  "list_all (\<lambda>p. snd p \<noteq> JUndef) (opt_str k x)" "list_all (\<lambda>p. snd p \<noteq> JUndef) (truthy_str k x)"
  "list_all (\<lambda>p. snd p \<noteq> JUndef) (findings_prop n)" "or_null x \<noteq> JUndef"
  by (auto simp: opt_str_def truthy_str_def findings_prop_def or_null_def split: option.split)

lemmas terminal_meta_simps = terminal_meta_def terminal_event_def Let_def obj_get_def
  boundary_binding_def str_prop_def num_prop_def map_add_def

lemma live_terminal: "live_obj (terminal_meta num ctx row iid out)"
  by (cases out) (simp_all add: terminal_meta_simps live_obj_def)

lemma terminal_meta_obj: "\<exists>ps. terminal_meta num ctx row iid out = JObj ps"
  by (cases out) (auto simp: terminal_meta_def terminal_event_def Let_def)

lemma str_prop_jsonb: "live_obj v \<Longrightarrow> str_prop (to_jsonb v) k = str_prop v k"
  by (auto simp: str_prop_def obj_get_live split: option.split jsval.split)

lemma num_prop_jsonb: "live_obj v \<Longrightarrow> num_prop (to_jsonb v) k = num_prop v k"
  by (auto simp: num_prop_def obj_get_live split: option.split jsval.split)

lemma meta_http:
  "or_else (num_prop (terminal_meta num ctx row iid (Http h)) ''status_code'')
     (num_prop (terminal_meta num ctx row iid (Http h)) ''error_status'') = Some (of_int (hr_status h))"
  "str_prop (terminal_meta num ctx row iid (Http h)) ''native_response_hash'' = Some (hr_response_hex h)"
  "\<not> http_ok h \<Longrightarrow> str_prop (terminal_meta num ctx row iid (Http h)) ''error_class'' = Some ''provider_error''"
  by (simp_all add: terminal_meta_simps or_else_def)

lemma meta_blocked:
  "str_prop (terminal_meta num ctx row iid (Blocked reason v)) ''governed_block_reason'' = Some reason"
  by (simp_all add: terminal_meta_simps)

lemma meta_local:
  "num_prop (terminal_meta num ctx row iid (Local_error msg)) ''status_code'' = None"
  "num_prop (terminal_meta num ctx row iid (Local_error msg)) ''error_status'' = None"
  "str_prop (terminal_meta num ctx row iid (Local_error msg)) ''native_response_hash'' = None"
  "str_prop (terminal_meta num ctx row iid (Local_error msg)) ''error_class'' = Some ''dispatch_pre_forward_failed''"
  "str_prop (terminal_meta num ctx row iid (Local_error msg)) ''error_message'' = Some (take 200 msg)"
  by (simp_all add: terminal_meta_simps)

section \<open>Evidence of an ended run is never touched again\<close>

lemma run_move_not_ended: "run_move r typs b r' \<Longrightarrow> \<not> run_ended r"
  by (induction rule: run_move.induct) (auto simp: run_ended_def)

definition kept_evidence :: "string \<Rightarrow> 'a run_db_scheme \<Rightarrow> 'a run_db_scheme \<Rightarrow> bool" where
  "kept_evidence rid db db' \<longleftrightarrow> set (db_events db) \<subseteq> set (db_events db') \<and>
     filter (\<lambda>i. in_run i = rid) (db_invs db') = filter (\<lambda>i. in_run i = rid) (db_invs db)"

lemma ended_step:
  fixes db :: "'a run_db_scheme"
  assumes "dispatch_inv db" "dispatch_step z cr db db'" "r \<in> set (db_runs db)" "run_ended r"
  shows "kept_evidence (run_id r) db db'"
  using assms(2)
proof (cases rule: step_implements)
  case move
  show ?thesis
  proof (cases "db' = db")
    case False
    with move obtain q typs b q' where mv: "run_move q typs b q'" and eff: "effect cr db q typs b q' db'"
      by (auto simp: implements_def)
    from eff have "q \<in> set (db_runs db)" by (simp add: effect_def)
    then have "run_id q \<noteq> run_id r" using unique_run [OF assms(1) _ assms(3)] run_move_not_ended [OF mv] assms(4) by blast
    with eff show ?thesis by (auto simp: effect_def kept_evidence_def new_events_def new_invs_def)
  qed (simp add: kept_evidence_def)
next
  case (new q)
  then show ?thesis by (auto simp: kept_evidence_def new_events_def)
qed

lemma ended_steps:
  fixes db :: "'a run_db_scheme"
  assumes "dispatch_inv db" "(dispatch_step z cr)\<^sup>*\<^sup>* db db'" "r \<in> set (db_runs db)" "run_ended r"
  shows "r \<in> set (db_runs db') \<and> kept_evidence (run_id r) db db' \<and> dispatch_inv db'"
  using assms(2)
proof (induction rule: rtranclp_induct)
  case base
  show ?case using assms by (simp add: kept_evidence_def)
next
  case (step db1 db2)
  then have i: "dispatch_inv db1" and r: "r \<in> set (db_runs db1)" by simp_all
  obtain r' where "r' \<in> set (db_runs db2)" "run_mono r r'" using step_mono [OF i step.hyps(2) r] by blast
  then have "r \<in> set (db_runs db2)" using assms(4) by (simp add: run_mono_def)
  with step.IH ended_step [OF i step.hyps(2) r assms(4)] dispatch_step_inv [OF i step.hyps(2)]
  show ?case by (auto simp: kept_evidence_def)
qed

section \<open>The second call\<close>

text \<open>Two results that the evidence of the first cannot tell apart.\<close>

fun same_result :: "known_outcome \<Rightarrow> known_outcome \<Rightarrow> bool" where
  "same_result (Http h) (Http h2) = (hr_endpoint h = hr_endpoint h2 \<and> hr_request_hex h = hr_request_hex h2 \<and>
     hr_status h = hr_status h2 \<and> hr_response_hex h = hr_response_hex h2)"
| "same_result (Blocked r _) (Blocked r2 _) = (r = r2)"
| "same_result (Local_error m) (Local_error m2) = (take 200 m = take 200 m2)"
| "same_result _ _ = False"

text \<open>Digests are hexadecimal prints of bytes.\<close>

definition digests :: "known_outcome \<Rightarrow> bool" where
  "digests out = (case out of Http h \<Rightarrow> (\<exists>p q. hr_request_hex h = hex_of p \<and> hr_response_hex h = hex_of q) | _ \<Rightarrow> True)"

lemma same_result_terminal: "same_result out out2 \<Longrightarrow> terminal_of out2 = terminal_of out"
  by (induction rule: same_result.induct) (auto simp: terminal_of_def http_ok_def)

text \<open>The tables after a result was recorded, as the second call reads them.\<close>

definition own_calls :: "string \<Rightarrow> string \<Rightarrow> string \<Rightarrow> 'a run_db_scheme \<Rightarrow> invocation list" where
  "own_calls org rid token db = filter (\<lambda>i. in_org i = org \<and> Some (in_run i) = pg_uuid rid \<and>
                        in_token i = pg_uuid token \<and> in_token i \<noteq> None) (db_invs db)"

definition recorded :: "(rat \<Rightarrow> string) \<Rightarrow> run_ctx \<Rightarrow> string \<Rightarrow> known_outcome \<Rightarrow> string option \<Rightarrow> 'a run_db_scheme \<Rightarrow> bool" where
  "recorded num ctx token out iid db \<longleftrightarrow>
     (\<exists>row. readTerminalEventMeta (cx_org ctx) (cx_run ctx) db = Inr (Some (to_jsonb (terminal_meta num ctx row iid out)))) \<and>
     (case out of
        Http h \<Rightarrow> \<exists>i. own_calls (cx_org ctx) (cx_run ctx) token db = [i] \<and> iid = Some (in_id i) \<and>
          in_endpoint i = hr_endpoint h \<and> in_request i = from_hex (hr_request_hex h) \<and>
          (trace_only i \<or> in_status i = Some (hr_status h) \<and> in_response i = Some (from_hex (hr_response_hex h)))
      | _ \<Rightarrow> iid = None \<and> (\<forall>i \<in> set (own_calls (cx_org ctx) (cx_run ctx) token db). trace_only i))"

lemma meta_jsonb:
  "meta_num (Some (to_jsonb (terminal_meta num ctx row iid out))) k = num_prop (terminal_meta num ctx row iid out) k"
  "meta_str (Some (to_jsonb (terminal_meta num ctx row iid out))) k = str_prop (terminal_meta num ctx row iid out) k"
  by (simp_all add: meta_num_def meta_str_def str_prop_jsonb num_prop_jsonb live_terminal)

lemma check_duplicate_recorded:
  fixes db :: "'a run_db_scheme"
  assumes "recorded num ctx token out iid db" "digests out" "terminal_of out2 = terminal_of out"
  shows "check_duplicate (cx_org ctx) (cx_run ctx) token out2 db = Inr x \<longleftrightarrow> same_result out out2 \<and> x = iid"
proof -
  obtain row where m: "readTerminalEventMeta (cx_org ctx) (cx_run ctx) db = Inr (Some (to_jsonb (terminal_meta num ctx row iid out)))"
    using assms(1) by (auto simp: recorded_def)
  have c: "check_duplicate (cx_org ctx) (cx_run ctx) token out2 db =
    (let meta = Some (to_jsonb (terminal_meta num ctx row iid out)) in
     case out2 of
       Http h \<Rightarrow>
         (case own_calls (cx_org ctx) (cx_run ctx) token db of
            [] \<Rightarrow> Inl (OutcomeConflict CNoInvocation)
          | i # _ \<Rightarrow>
              if in_endpoint i \<noteq> hr_endpoint h \<or> hex_of (in_request i) \<noteq> hr_request_hex h
              then Inl (OutcomeConflict CRequestIdentity)
              else
                let s0 = map_option rat_of_int (in_status i); h0 = map_option hex_of (in_response i);
                    knownStatus = or_else s0 (if s0 = None \<or> h0 = None
                      then or_else (meta_num meta ''status_code'') (meta_num meta ''error_status'') else None);
                    knownHash = or_else h0 (if s0 = None \<or> h0 = None
                      then meta_str meta ''native_response_hash'' else None)
                in if knownStatus = None \<or> knownHash = None then Inl (OutcomeConflict CUnverifiable)
                   else if knownStatus \<noteq> Some (of_int (hr_status h)) \<or> knownHash \<noteq> Some (hr_response_hex h)
                   then Inl (OutcomeConflict CDivergentResult)
                   else Inr (Some (in_id i)))
     | Blocked reason _ \<Rightarrow>
         if meta_str meta ''governed_block_reason'' = None then Inl (OutcomeConflict CBlockUnverifiable)
         else if meta_str meta ''governed_block_reason'' \<noteq> Some reason then Inl (OutcomeConflict CDivergentBlock)
         else Inr None
     | Local_error message \<Rightarrow>
         if meta_str meta ''error_class'' \<noteq> Some ''dispatch_pre_forward_failed'' \<or>
            meta_str meta ''error_message'' \<noteq> Some (take 200 message)
         then Inl (OutcomeConflict CLocalMismatch) else Inr None)"
    unfolding check_duplicate_def m bindE_simps own_calls_def Let_def by (rule refl)
  show ?thesis
  proof (cases out)
    case out: (Http h)
    then obtain i where i: "own_calls (cx_org ctx) (cx_run ctx) token db = [i]" "iid = Some (in_id i)"
        "in_endpoint i = hr_endpoint h" "in_request i = from_hex (hr_request_hex h)"
        "trace_only i \<or> in_status i = Some (hr_status h) \<and> in_response i = Some (from_hex (hr_response_hex h))"
      using assms(1) by (auto simp: recorded_def)
    have hx: "hex_of (from_hex (hr_request_hex h)) = hr_request_hex h" "hex_of (from_hex (hr_response_hex h)) = hr_response_hex h"
      using assms(2) out by (auto simp: digests_def from_hex_of)
    show ?thesis
    proof (cases out2)
      case (Http h2)
      let ?s0 = "map_option rat_of_int (in_status i)" and ?h0 = "map_option hex_of (in_response i)"
      have k: "or_else ?s0 (if ?s0 = None \<or> ?h0 = None then Some (of_int (hr_status h)) else None) = Some (of_int (hr_status h))"
        "or_else ?h0 (if ?s0 = None \<or> ?h0 = None then Some (hr_response_hex h) else None) = Some (hr_response_hex h)"
        using i(5) hx by (auto simp: trace_only_def or_else_def)
      have c2: "check_duplicate (cx_org ctx) (cx_run ctx) token out2 db =
          (if hr_endpoint h \<noteq> hr_endpoint h2 \<or> hr_request_hex h \<noteq> hr_request_hex h2 then Inl (OutcomeConflict CRequestIdentity)
           else if hr_status h \<noteq> hr_status h2 \<or> hr_response_hex h \<noteq> hr_response_hex h2 then Inl (OutcomeConflict CDivergentResult)
           else Inr (Some (in_id i)))"
        unfolding c unfolding Http known_outcome.case i(1) list.case i(3,4) hx Let_def meta_jsonb out meta_http k by simp
      then show ?thesis unfolding c2 by (auto simp: Http out i(2))
    next
      case (Blocked r v)
      then show ?thesis using assms(3) out by (simp add: terminal_of_def split: if_split_asm)
    next
      case (Local_error msg)
      then have "\<not> http_ok h" using assms(3) out by (simp add: terminal_of_def split: if_split_asm)
      with Local_error show ?thesis unfolding c by (simp add: out Let_def meta_jsonb meta_http)
    qed
  next
    case out: (Blocked reason v)
    then have "iid = None" using assms(1) by (simp add: recorded_def)
    with out assms(3) show ?thesis unfolding c
      by (cases out2) (auto simp: Let_def meta_jsonb meta_blocked terminal_of_def split: if_split_asm)
  next
    case out: (Local_error msg)
    then have iid: "iid = None" and tr: "\<forall>i \<in> set (own_calls (cx_org ctx) (cx_run ctx) token db). trace_only i"
      using assms(1) by (simp_all add: recorded_def)
    show ?thesis
    proof (cases out2)
      case (Http h2)
      then show ?thesis using tr out unfolding c
        by (cases "own_calls (cx_org ctx) (cx_run ctx) token db")
          (auto simp: Let_def meta_jsonb meta_local trace_only_def or_else_def)
    next
      case (Blocked r v)
      then show ?thesis using assms(3) out by (simp add: terminal_of_def)
    next
      case (Local_error m2)
      then show ?thesis using iid out unfolding c by (auto simp: Let_def meta_jsonb meta_local)
    qed
  qed
qed

lemma update_invs: "update_run org rid c f db = Inr (x, db') \<Longrightarrow> db_invs db' = db_invs db"
  by (erule update_run_Inr) simp_all

lemma record_known_recorded:
  fixes db :: "'a run_db_scheme"
  assumes inv: "dispatch_inv db" and sel: "select_run (cx_org ctx) (cx_run ctx) db = Inr (Some row)"
    and tok: "run_token row = Some tk" and st: "run_status row \<in> {Running, Outcome_unknown}"
    and rk: "record_known z cr env ctx tk row out db = Inr (fin, db')" and inv': "dispatch_inv db''"
    and row': "known_update (tx_now env) out row \<in> set (db_runs db'')" and kept: "kept_evidence (run_id row) db' db''"
  shows "recorded (num_text cr) ctx tk out (fin_invocation fin) db''"
proof -
  from rk obtain iid db1 upd db2 v4 db3 rec db4 eid db5 where
    iv: "record_invocation env ctx tk out db = Inr (iid, db1)"
    and upd: "update_run (cx_org ctx) (cx_run ctx) (\<lambda>_. True) (known_update (tx_now env) out) db1 = Inr (upd, db2)"
    and cap: "record_captured cr env ctx out db2 = Inr (v4, db3)"
    and recon: "record_reconciled z cr env ctx tk row iid out db3 = Inr (rec, db4)"
    and app: "appendTerminalRunEvent cr (tx_event env) ctx (fst (terminal_event (num_text cr) ctx row iid out))
       (ms_of (tx_now env)) (fst (snd (terminal_event (num_text cr) ctx row iid out)))
       (snd (snd (terminal_event (num_text cr) ctx row iid out))) db4 = Inr (eid, db5)"
    and turn: "maybeEnsureTurn env ctx eid db5 = Inr db'"
    and fin: "fin_invocation fin = iid"
    by (auto simp: record_known_def bindE_Inr_iff case_prod_beta)
  have iid: "iid \<noteq> None \<longleftrightarrow> (\<exists>h. out = Http h)" using record_invocation_traced [OF iv] by blast
  obtain typs where "logged cr (lower (cx_run ctx)) typs db2 db3" using cap by (rule record_captured_logged)
  then have invs: "db_invs db' = db_invs db1"
    using conjunct1 [OF record_reconciled_logged [OF recon iid]] appendTerminal_logged [OF app]
      maybeEnsureTurn_turned [OF turn] update_invs [OF upd] by (simp add: logged_def turned_def)
  have calls_set: "i \<in> set (own_calls (cx_org ctx) (cx_run ctx) tk db'') \<longleftrightarrow> i \<in> set (db_invs db') \<and> in_org i = cx_org ctx \<and>
      Some (in_run i) = pg_uuid (cx_run ctx) \<and> in_token i = pg_uuid tk \<and> in_token i \<noteq> None" for i
  proof -
    have "i \<in> set (db_invs db'') \<longleftrightarrow> i \<in> set (db_invs db')" if "in_run i = run_id row"
    proof -
      have "set (filter (\<lambda>i. in_run i = run_id row) (db_invs db'')) = set (filter (\<lambda>i. in_run i = run_id row) (db_invs db'))"
        using kept by (simp add: kept_evidence_def)
      from this [unfolded set_eq_iff, rule_format, of i] that show ?thesis by simp
    qed
    moreover have "Some (in_run i) = pg_uuid (cx_run ctx) \<Longrightarrow> in_run i = run_id row"
      using select_run_Some [OF sel] pg_uuid_SomeD [of "cx_run ctx" "in_run i"] by simp
    ultimately show ?thesis by (auto simp: own_calls_def)
  qed
  have calls_eq: "own_calls (cx_org ctx) (cx_run ctx) tk db'' =
      filter (\<lambda>i. in_org i = cx_org ctx \<and> in_run i = r \<and> in_token i = pg_uuid tk \<and> in_token i \<noteq> None) (db_invs db')"
    if r: "pg_uuid (cx_run ctx) = Some r" for r
  proof -
    have rr: "r = run_id row" using r select_run_Some [OF sel] by (auto dest: pg_uuid_SomeD)
    have f: "filter (\<lambda>i. in_org i = cx_org ctx \<and> in_run i = r \<and> in_token i = pg_uuid tk \<and> in_token i \<noteq> None) xs =
       filter (\<lambda>i. in_org i = cx_org ctx \<and> in_token i = pg_uuid tk \<and> in_token i \<noteq> None) (filter (\<lambda>i. in_run i = r) xs)" for xs
      by (induction xs) auto
    have "own_calls (cx_org ctx) (cx_run ctx) tk db'' =
      filter (\<lambda>i. in_org i = cx_org ctx \<and> in_run i = r \<and> in_token i = pg_uuid tk \<and> in_token i \<noteq> None) (db_invs db'')"
      by (simp add: own_calls_def r)
    also have "\<dots> = filter (\<lambda>i. in_org i = cx_org ctx \<and> in_run i = r \<and> in_token i = pg_uuid tk \<and> in_token i \<noteq> None) (db_invs db')"
      using kept rr unfolding f kept_evidence_def by (simp only:)
    finally show ?thesis .
  qed
  have row_old: "row \<in> set (db_runs db)" "run_id row = lower (cx_run ctx)" using select_run_Some [OF sel] by simp_all
  have "row_ok_v1 row" and calls: "calls_ok (db_invs db) row"
    using inv row_old(1) unfolding dispatch_inv_def by blast+
  obtain e where e: "db5 = db4\<lparr> db_events := db_events db4 @ [e] \<rparr>" "visible (Some (cx_org ctx)) e"
    "ev_type e = fst (terminal_event (num_text cr) ctx row iid out)" "ev_subject_type e = ''run''"
    "ev_subject_id e = lower (cx_run ctx)" "ev_redaction e = to_jsonb (terminal_meta (num_text cr) ctx row iid out)"
    "is_uuid (cx_run ctx)"
    using app unfolding appendTerminalRunEvent_def terminal_meta_def by (rule append_run_event_Inr)
  have "readTerminalEventMeta (cx_org ctx) (cx_run ctx) db'' = Inr (Some (ev_redaction e))"
  proof (rule readTerminal_single [where r = "known_update (tx_now env) out row"])
    show "evidence_ok (db_events db'') (known_update (tx_now env) out row)" using inv' row' by (simp add: dispatch_inv_def)
    show "run_ended (known_update (tx_now env) out row)" using terminal_of_simps(4) [of out] by (simp add: run_ended_def known_update_def)
    show "e \<in> set (db_events db'')" using kept maybeEnsureTurn_turned [OF turn] e(1) by (auto simp: turned_def kept_evidence_def)
    show "ev_redaction e \<noteq> JNull" using terminal_meta_obj [of "num_text cr" ctx row iid out] by (auto simp: e(6) to_jsonb_def)
  qed (use e row_old terminal_event_in in \<open>simp_all add: pg_uuid_def\<close>)
  moreover have old_trace: "trace_only i"
    if "i \<in> set (db_invs db)" "Some (in_run i) = pg_uuid (cx_run ctx)" "in_token i \<noteq> None" for i
    using calls that row_old(2) st pg_uuid_SomeD [of "cx_run ctx" "in_run i"] by (auto simp: calls_ok_def)
  moreover have "case out of
        Http h \<Rightarrow> \<exists>i. own_calls (cx_org ctx) (cx_run ctx) tk db'' = [i] \<and> iid = Some (in_id i) \<and>
          in_endpoint i = hr_endpoint h \<and> in_request i = from_hex (hr_request_hex h) \<and>
          (trace_only i \<or> in_status i = Some (hr_status h) \<and> in_response i = Some (from_hex (hr_response_hex h)))
      | _ \<Rightarrow> iid = None \<and> (\<forall>i \<in> set (own_calls (cx_org ctx) (cx_run ctx) tk db''). trace_only i)"
  proof (cases "\<exists>h. out = Http h")
    case True
    then obtain h where h: "out = Http h" ..
    with iv obtain iid' b where ins: "insertOrReuseInvocation ctx (known_invocation env tk h) db = Inr ((iid', b), db1)"
      and "iid = Some iid'" by (auto simp: record_invocation_def bindE_Inr_iff)
    moreover obtain i r t where i: "pg_uuid (cx_run ctx) = Some r" "pg_uuid tk = Some t"
      "filter (\<lambda>i. in_org i = cx_org ctx \<and> in_run i = r \<and> in_token i = Some t) (db_invs db1) = [i]"
      "in_id i = iid'" "in_endpoint i = hr_endpoint h" "in_request i = from_hex (hr_request_hex h)"
      "i \<in> set (db_invs db) \<or> in_status i = Some (hr_status h) \<and> in_response i = Some (from_hex (hr_response_hex h))"
      by (rule insertOrReuse_result [OF ins, of tk]) (auto simp: known_invocation_def)
    moreover have "in_run i = r \<and> in_token i = Some t"
    proof -
      have "i \<in> set (filter (\<lambda>i. in_org i = cx_org ctx \<and> in_run i = r \<and> in_token i = Some t) (db_invs db1))"
        unfolding i(3) by simp
      then show ?thesis by simp
    qed
    moreover have "own_calls (cx_org ctx) (cx_run ctx) tk db'' = [i]"
      unfolding calls_eq [OF i(1)] i(2) invs i(3) [symmetric] by (rule filter_cong) auto
    ultimately show ?thesis using old_trace [of i] h by auto
  next
    case False
    with iv have "iid = None" "db1 = db" by (cases out; auto simp: record_invocation_def)+
    moreover have "trace_only i" if "i \<in> set (own_calls (cx_org ctx) (cx_run ctx) tk db'')" for i
      using that old_trace [of i] unfolding calls_set invs \<open>db1 = db\<close> by blast
    ultimately show ?thesis using False by (cases out) simp_all
  qed
  ultimately show ?thesis unfolding recorded_def e(6) fin by blast
qed

text \<open>
  A second known result is checked, not trusted. Once \<open>finalizeKnownOutcome\<close> has recorded a
  result for a run, a further call for the same run and token, after any other operations, answers
  the duplicate of that result exactly when it carries the same one (same endpoint, request and
  response digests and HTTP status; same block reason; same local error), naming the same
  invocation and changing nothing; every other result is refused. It holds too when the first
  result reconciled an unknown outcome, where the invocation is a bare trace and the status and
  digest are read back from the terminal event.
\<close>

theorem second_result_is_checked:
  fixes db :: "'a run_db_scheme"
  assumes "reach run_empty (dispatch_step z cr) db"
    and "finalizeKnownOutcome z cr env ctx tk out db = Inr (fin, db1)" and "\<not> fin_duplicate fin" and "digests out"
    and "(dispatch_step z cr)\<^sup>*\<^sup>* db1 db2"
  shows "finalizeKnownOutcome z cr env2 ctx tk out2 db2 = Inr (fin2, db3) \<longleftrightarrow>
    same_result out out2 \<and> db3 = db2 \<and>
    fin2 = \<lparr> fin_status = terminal_of out, fin_invocation = fin_invocation fin, fin_event = [], fin_v4 = None,
             fin_reconciled = False, fin_duplicate = True \<rparr>"
proof -
  have inv: "dispatch_inv db" using assms(1) by (rule dispatch.inv_reach)
  have inv1: "dispatch_inv db1" by (rule dispatch_step_inv [OF inv dispatch_step.known [OF assms(2)]])
  from assms(2,3) obtain row typs where sel: "select_run (cx_org ctx) (cx_run ctx) db = Inr (Some row)"
    and tok: "run_token row = Some tk" and st: "run_status row \<in> {Running, Outcome_unknown}"
    and rk: "record_known z cr env ctx tk row out db = Inr (fin, db1)"
    and eff: "effect cr db row typs (call_of out) (known_update (tx_now env) out row) db1"
    by (cases rule: known_implements) auto
  define r where "r = known_update (tx_now env) out row"
  note s = select_run_Some [OF sel]
  have rs: "run_id r = run_id row" "run_org r = run_org row" "run_token r = Some tk" "run_status r = terminal_of out"
    by (simp_all add: r_def known_update_def tok)
  have "r \<noteq> row" using st rs(4) terminal_of_simps [of out] by auto
  then have "db_runs db1 = map (\<lambda>q. if run_id q = run_id r then r else q) (db_runs db)"
    using eff by (simp add: effect_def r_def)
  then have r1: "r \<in> set (db_runs db1)" using s(1) rs(1) by force
  have "run_ended r" using terminal_of_simps(4) [of out] by (simp add: run_ended_def rs)
  note later = ended_steps [OF inv1 assms(5) r1 this]
  then have rec: "recorded (num_text cr) ctx tk out (fin_invocation fin) db2"
    using record_known_recorded [OF inv sel tok st rk] rs(1) by (simp add: r_def)
  have sel2: "select_run (cx_org ctx) (cx_run ctx) db2 = Inr (Some r)"
  proof -
    obtain q where q: "find (\<lambda>r. run_visible (cx_org ctx) r \<and> run_id r = lower (cx_run ctx)) (db_runs db2) = Some q"
      using later s rs by (cases "find (\<lambda>r. run_visible (cx_org ctx) r \<and> run_id r = lower (cx_run ctx)) (db_runs db2)")
        (auto simp: find_None_iff run_visible_def)
    then have "q \<in> set (db_runs db2)" "run_id q = run_id r" using s rs by (auto simp: find_Some_iff)
    then have "q = r" using unique_run [of db2 q r] later by simp
    with q s(4) show ?thesis by (simp add: select_run_def pg_uuid_def)
  qed
  have org: "is_uuid (cx_org ctx)" using assms(2) by (simp add: finalizeKnownOutcome_def withTenantTx_Inr)
  have fin2: "finalizeKnownOutcome z cr env2 ctx tk out2 db2 =
      (if terminal_of out \<noteq> terminal_of out2 then Inl (OutcomeConflict (CAlreadyTerminal (terminal_of out) (terminal_of out2)))
       else bindE (check_duplicate (cx_org ctx) (cx_run ctx) tk out2 db2) (\<lambda>iid.
              Inr (\<lparr> fin_status = terminal_of out, fin_invocation = iid, fin_event = [], fin_v4 = None,
                     fin_reconciled = False, fin_duplicate = True \<rparr>, db2)))"
    using terminal_of_simps(4) [of out] org rs by (simp add: finalizeKnownOutcome_def withTenantTx_def sel2)
  show ?thesis
  proof (cases "terminal_of out2 = terminal_of out")
    case True
    then show ?thesis unfolding fin2 by (auto simp: bindE_Inr_iff check_duplicate_recorded [OF rec assms(4) True])
  next
    case False
    then show ?thesis using same_result_terminal [of out out2] by (auto simp: fin2)
  qed
qed

definition demo_row6 :: run_row where
  "demo_row6 = known_update 4000000 (Local_error ''reset'') demo_row3"

lemma demo_recorded:
  obtains fin db1 where
    "finalizeKnownOutcome demo_z demo_rcr (demo_env (CHR ''a'') 4000000) demo_alone demo_tok (Local_error ''reset'') demo_rdb3 = Inr (fin, db1)"
    "fin_duplicate fin = False" "fin_invocation fin = None"
proof -
  note s1 = conjunct2 [OF demo_committed]
  let ?out = "Local_error ''reset''"
  let ?te = "terminal_event (num_text demo_rcr) demo_alone demo_row3 None ?out"
  have row3: "run_token demo_row3 = Some demo_tok" "run_status demo_row3 = Running"
    by (simp_all add: demo_row3_def demo_row2_def claim_update_def)
  have row6: "run_id demo_row6 = demo_run" "runs_dispatch_v1_state_check demo_row6" "timeout_check demo_row6"
    by (simp_all add: demo_row6_def demo_row3_def demo_row2_def demo_row1_def claim_update_def known_update_def terminal_of_def
        runs_dispatch_v1_state_check_def timeout_check_def)
  have s2: "sample_state [demo_id (CHR ''2''), demo_id (CHR ''3'')] demo_row6 (put_run demo_row6 demo_rdb3)"
    by (rule sample_put [OF s1]) (simp add: row6)
  have u: "update_run demo_org demo_run (\<lambda>_. True) (known_update 4000000 ?out) demo_rdb3 =
      Inr (Some demo_row6, put_run demo_row6 demo_rdb3)"
    using find_sample [OF s1] sample_free [OF s1, of demo_row6] row6
    by (simp add: update_run_def demo_row6_def [symmetric])
  have js: "json_ok (snd (snd ?te))"
    by (simp add: terminal_event_def Let_def demo_alone_def demo_ctx_def truthy_str_def opt_str_def boundary_binding_def demo_row3_def)
  have cast: "event_castable demo_alone (fst ?te) ''1'' 4000 (snd (snd ?te))" by code_simp
  obtain row where row: "append_run_event demo_rcr (demo_id (CHR ''a'')) demo_alone (fst ?te) ''1'' 4000
      (sha demo_rcr (utf8 (fst (snd ?te)))) (snd (snd ?te)) (put_run demo_row6 demo_rdb3) =
        Inr (demo_id (CHR ''a''), (put_run demo_row6 demo_rdb3)\<lparr> db_events := db_events (put_run demo_row6 demo_rdb3) @ [row] \<rparr>)"
    by (rule demo_append [OF s2 js _ _ _ _ _ cast, of "CHR ''a''"]) simp_all
  obtain ty pay red where te: "?te = (ty, pay, red)" by (metis prod_cases3)
  have rk: "\<exists>fin db1. record_known demo_z demo_rcr (demo_env (CHR ''a'') 4000000) demo_alone demo_tok demo_row3 ?out demo_rdb3 =
      Inr (fin, db1) \<and> fin_duplicate fin = False \<and> fin_invocation fin = None"
    using row unfolding record_known_def
    by (simp add: record_invocation_def u record_captured_def captured_v4_def record_reconciled_def
        te ms_of_def appendTerminalRunEvent_def maybeEnsureTurn_def)
  show thesis using rk find_sample [OF s1]
    by (auto simp: finalizeKnownOutcome_def withTenantTx_def row3 intro: that)
qed

theorem second_result_is_checked_witness:
  "\<exists>fin db1. finalizeKnownOutcome demo_z demo_rcr (demo_env (CHR ''a'') 4000000) demo_alone demo_tok (Local_error ''reset'') demo_rdb3 =
       Inr (fin, db1) \<and>
     finalizeKnownOutcome demo_z demo_rcr (demo_env (CHR ''b'') 5000000) demo_alone demo_tok (Local_error ''reset'') db1 =
       Inr (\<lparr> fin_status = Failed_run, fin_invocation = None, fin_event = [], fin_v4 = None,
             fin_reconciled = False, fin_duplicate = True \<rparr>, db1) \<and>
     finalizeKnownOutcome demo_z demo_rcr (demo_env (CHR ''b'') 5000000) demo_alone demo_tok (Local_error ''timeout'') db1 \<noteq>
       Inr (fin, db1)"
proof -
  obtain fin db1 where f: "finalizeKnownOutcome demo_z demo_rcr (demo_env (CHR ''a'') 4000000) demo_alone demo_tok
      (Local_error ''reset'') demo_rdb3 = Inr (fin, db1)" "fin_duplicate fin = False" "fin_invocation fin = None"
    by (rule demo_recorded)
  have c: "\<not> fin_duplicate fin" "digests (Local_error ''reset'')" using f(2) by (simp_all add: digests_def)
  note second = second_result_is_checked [OF demo_reach(3) f(1) c rtranclp.rtrancl_refl]
  have "finalizeKnownOutcome demo_z demo_rcr (demo_env (CHR ''b'') 5000000) demo_alone demo_tok (Local_error ''reset'') db1 =
       Inr (\<lparr> fin_status = Failed_run, fin_invocation = None, fin_event = [], fin_v4 = None,
             fin_reconciled = False, fin_duplicate = True \<rparr>, db1)"
    unfolding second by (simp add: f(3) terminal_of_def)
  moreover have "finalizeKnownOutcome demo_z demo_rcr (demo_env (CHR ''b'') 5000000) demo_alone demo_tok (Local_error ''timeout'') db1 \<noteq>
       Inr (fin, db1)"
    unfolding second by simp
  ultimately show ?thesis using f(1) by blast
qed

end
