(* ===== verification/Dispatch_Recovery.thy ===== *)
theory Dispatch_Recovery
  imports Run_Lifecycle "HOL-Library.Product_Lexorder"
begin

text \<open>
  The recovery worker of durable dispatch (\<open>run-dispatch-recovery.ts\<close>), its configuration
  (\<open>run-dispatch-config.ts\<close>) and the discovery function it pages through (migration 0029).
  A sweep runs one transaction per candidate. Between two of its transactions other sessions may
  commit: the \<open>k\<close>-th one finds the tables as \<open>oth k\<close> makes them, and reads its clock and random
  ids from \<open>envs k\<close>.
\<close>

section \<open>Configuration\<close>

record dispatch_env =
  env_timeout :: "js_num option"
  env_interval :: "js_num option"
  env_prepared_grace :: "js_num option"
  env_recovery_grace :: "js_num option"
  env_batch :: "js_num option"
  env_enabled :: "bool option"

record dispatch_config =
  cf_timeout :: int
  cf_interval :: int
  cf_prepared_grace :: int
  cf_recovery_grace :: int
  cf_batch :: int
  cf_enabled :: bool

text \<open>The error carries the name of the offending variable.\<close>

definition bounded :: "js_num option \<Rightarrow> int \<Rightarrow> int \<Rightarrow> int \<Rightarrow> string \<Rightarrow> string + int" where
  "bounded val def lo hi name =
     (case (case val of None \<Rightarrow> Finite (of_int def) | Some v \<Rightarrow> v) of
        NonFinite \<Rightarrow> Inl name
      | Finite q \<Rightarrow> if q \<noteq> of_int \<lfloor>q\<rfloor> \<or> q < of_int lo \<or> q > of_int hi then Inl name else Inr \<lfloor>q\<rfloor>)"

definition runDispatchConfigFromEnv :: "dispatch_env \<Rightarrow> string + dispatch_config" where
  "runDispatchConfigFromEnv env =
     bindE (bounded (env_timeout env) 300000 1000 900000 ''GOVAI_PROVIDER_DISPATCH_TIMEOUT_MS'') (\<lambda>timeoutMs.
     bindE (bounded (env_interval env) 30000 1000 3600000 ''RUN_DISPATCH_RECOVERY_INTERVAL_MS'') (\<lambda>intervalMs.
     bindE (bounded (env_prepared_grace env) 60000 1000 3600000 ''RUN_DISPATCH_PREPARED_GRACE_MS'') (\<lambda>preparedMs.
     bindE (bounded (env_recovery_grace env) 30000 0 3600000 ''RUN_DISPATCH_RECOVERY_GRACE_MS'') (\<lambda>recoveryMs.
     bindE (bounded (env_batch env) 50 1 500 ''RUN_DISPATCH_RECOVERY_BATCH_SIZE'') (\<lambda>batch.
     Inr \<lparr> cf_timeout = timeoutMs, cf_interval = intervalMs, cf_prepared_grace = preparedMs,
           cf_recovery_grace = recoveryMs, cf_batch = batch, cf_enabled = (env_enabled env = Some True) \<rparr>)))))"

section \<open>Discovery\<close>

record sweep_cursor =
  sc_created :: int
  sc_run :: string

datatype stale_reason = Queued_stale | Running_stale

record candidate =
  ca_org :: string
  ca_run :: string
  ca_reason :: stale_reason
  ca_created :: int

text \<open>The keyset order \<open>(created_at, id)\<close>.\<close>

definition run_key :: "run_row \<Rightarrow> int \<times> string" where
  "run_key r = (run_created_at r, run_id r)"

definition stale :: "int \<Rightarrow> int \<Rightarrow> int \<Rightarrow> run_row \<Rightarrow> bool" where
  "stale now preparedGrace recoveryGrace r = (queued_stale now preparedGrace r \<or> running_stale now recoveryGrace r)"

definition after_cursor :: "sweep_cursor option \<Rightarrow> run_row \<Rightarrow> bool" where
  "after_cursor cur r = (case cur of None \<Rightarrow> True | Some c \<Rightarrow> (sc_created c, sc_run c) < run_key r)"

definition candidate_of :: "run_row \<Rightarrow> candidate" where
  "candidate_of r = \<lparr> ca_org = run_org r, ca_run = run_id r,
     ca_reason = (if run_status r = Queued then Queued_stale else Running_stale), ca_created = run_created_at r \<rparr>"

definition stale_page :: "int \<Rightarrow> int \<Rightarrow> int \<Rightarrow> sweep_cursor option \<Rightarrow> 'a run_db_scheme \<Rightarrow> run_row list" where
  "stale_page now preparedGrace recoveryGrace cur db =
     sort_key run_key (filter (\<lambda>r. stale now preparedGrace recoveryGrace r \<and> after_cursor cur r) (db_runs db))"

definition recovery_candidates ::
  "int \<Rightarrow> int \<Rightarrow> int \<Rightarrow> int \<Rightarrow> sweep_cursor option \<Rightarrow> 'a run_db_scheme \<Rightarrow> run_error + candidate list" where
  "recovery_candidates now preparedGrace recoveryGrace lmt cur db =
     (if preparedGrace < 1000 \<or> 3600000 < preparedGrace \<or> recoveryGrace < 0 \<or> 3600000 < recoveryGrace \<or> lmt < 1 \<or> 500 < lmt
      then Inl RCast
      else Inr (map candidate_of (take (nat lmt) (stale_page now preparedGrace recoveryGrace cur db))))"

section \<open>One sweep\<close>

record sweep_result =
  sw_candidates :: nat
  sw_queued_failed :: nat
  sw_running_unknown :: nat
  sw_running_never_started :: nat
  sw_skipped :: nat
  sw_errors :: nat

definition no_result :: sweep_result where
  "no_result = \<lparr> sw_candidates = 0, sw_queued_failed = 0, sw_running_unknown = 0, sw_running_never_started = 0,
     sw_skipped = 0, sw_errors = 0 \<rparr>"

definition MAX_BATCHES_PER_SWEEP :: nat where
  "MAX_BATCHES_PER_SWEEP = 20"

text \<open>The per-candidate \<open>try\<close> block: a failed transition is rolled back and counted.\<close>

definition recover_candidate ::
  "zod_formats \<Rightarrow> crypto \<Rightarrow> dispatch_config \<Rightarrow> tx_env \<Rightarrow> candidate \<Rightarrow> sweep_result \<Rightarrow> 'a run_db_scheme \<Rightarrow> sweep_result \<times> 'a run_db_scheme" where
  "recover_candidate z cr cfg env c res db = (case ca_reason c of
       Queued_stale \<Rightarrow>
         (case recoverQueuedStale cr env (ca_org c) (ca_run c) (cf_prepared_grace cfg) db of
            Inl _ \<Rightarrow> (res\<lparr> sw_errors := sw_errors res + 1 \<rparr>, db)
          | Inr (done, db') \<Rightarrow>
              (if done then res\<lparr> sw_queued_failed := sw_queued_failed res + 1 \<rparr>
               else res\<lparr> sw_skipped := sw_skipped res + 1 \<rparr>, db'))
     | Running_stale \<Rightarrow>
         (case recoverRunningStale z cr env (ca_org c) (ca_run c) (cf_recovery_grace cfg) db of
            Inl _ \<Rightarrow> (res\<lparr> sw_errors := sw_errors res + 1 \<rparr>, db)
          | Inr (rr, db') \<Rightarrow>
              (case rr of
                 Recovered_unknown \<Rightarrow> res\<lparr> sw_running_unknown := sw_running_unknown res + 1 \<rparr>
               | Failed_never_started \<Rightarrow> res\<lparr> sw_running_never_started := sw_running_never_started res + 1 \<rparr>
               | Not_recovered \<Rightarrow> res\<lparr> sw_skipped := sw_skipped res + 1 \<rparr>, db')))"

fun sweep_rows ::
  "zod_formats \<Rightarrow> crypto \<Rightarrow> dispatch_config \<Rightarrow> (nat \<Rightarrow> tx_env) \<Rightarrow> (nat \<Rightarrow> 'a run_db_scheme \<Rightarrow> 'a run_db_scheme)
   \<Rightarrow> candidate list \<Rightarrow> nat \<times> sweep_result \<times> 'a run_db_scheme \<Rightarrow> nat \<times> sweep_result \<times> 'a run_db_scheme" where
  "sweep_rows z cr cfg envs oth [] st = st"
| "sweep_rows z cr cfg envs oth (c # cs) (k, res, db) =
     sweep_rows z cr cfg envs oth cs (k + 1, recover_candidate z cr cfg (envs k) c res (oth k db))"

text \<open>The loop over pages: at most \<open>n\<close> more; the flag is \<open>exhausted\<close>. Discovery errors propagate.\<close>

fun sweep_pages ::
  "zod_formats \<Rightarrow> crypto \<Rightarrow> dispatch_config \<Rightarrow> (nat \<Rightarrow> tx_env) \<Rightarrow> (nat \<Rightarrow> 'a run_db_scheme \<Rightarrow> 'a run_db_scheme)
   \<Rightarrow> nat \<Rightarrow> sweep_cursor option \<Rightarrow> nat \<times> sweep_result \<times> 'a run_db_scheme
   \<Rightarrow> run_error + (bool \<times> sweep_cursor option) \<times> nat \<times> sweep_result \<times> 'a run_db_scheme" where
  "sweep_pages z cr cfg envs oth 0 cur st = Inr ((False, cur), st)"
| "sweep_pages z cr cfg envs oth (Suc n) cur (k, res, db) =
     (let db1 = oth k db in
      bindE (recovery_candidates (tx_now (envs k)) (cf_prepared_grace cfg) (cf_recovery_grace cfg) (cf_batch cfg) cur db1)
        (\<lambda>rows.
         if rows = [] then Inr ((True, cur), k + 1, res, db1)
         else
           let st = sweep_rows z cr cfg envs oth rows
                      (k + 1, res\<lparr> sw_candidates := sw_candidates res + length rows \<rparr>, db1)
           in if int (length rows) < cf_batch cfg then Inr ((True, cur), st)
              else sweep_pages z cr cfg envs oth n
                     (Some \<lparr> sc_created = ca_created (last rows), sc_run = ca_run (last rows) \<rparr>) st))"

definition runDispatchRecoverySweepOnce ::
  "zod_formats \<Rightarrow> crypto \<Rightarrow> dispatch_config \<Rightarrow> (nat \<Rightarrow> tx_env) \<Rightarrow> (nat \<Rightarrow> 'a run_db_scheme \<Rightarrow> 'a run_db_scheme)
   \<Rightarrow> sweep_cursor option \<Rightarrow> 'a run_db_scheme \<Rightarrow> run_error + (sweep_result \<times> sweep_cursor option) \<times> 'a run_db_scheme" where
  "runDispatchRecoverySweepOnce z cr cfg envs oth resumeFrom db =
     bindE (sweep_pages z cr cfg envs oth MAX_BATCHES_PER_SWEEP resumeFrom (0, no_result, db))
       (\<lambda>((exhausted, cur), _, res, db'). Inr ((res, if exhausted then None else cur), db'))"

section \<open>The periodic worker\<close>

text \<open>
  The worker's variables: the sweep in flight, whether it settled already, the cursor it
  carries, and the abandoned sweeps whose stalled operation has not settled.
\<close>

datatype in_flight = Idle | Sweeping | Settled | Timed_out

record worker =
  wk_stopped :: bool
  wk_flight :: in_flight
  wk_carry :: "sweep_cursor option"
  wk_zombies :: nat

definition worker_start :: worker where
  "worker_start = \<lparr> wk_stopped = False, wk_flight = Idle, wk_carry = None, wk_zombies = 0 \<rparr>"

definition worker_tick :: "nat \<Rightarrow> worker \<Rightarrow> worker" where
  "worker_tick cap w =
     (if wk_stopped w \<or> wk_flight w \<noteq> Idle then w
      else if cap \<le> wk_zombies w then w
      else w\<lparr> wk_flight := Sweeping \<rparr>)"

text \<open>
  A step of the worker: a tick of the interval; the sweep in flight settles (with its next cursor,
  or with none when it failed); its runtime bound passes first; the \<open>finally\<close> clears it; an
  abandoned sweep settles late; \<open>stop()\<close>.
\<close>

inductive worker_step :: "nat \<Rightarrow> worker \<Rightarrow> worker \<Rightarrow> bool" for cap where
  tick: "worker_step cap w (worker_tick cap w)"
| settles: "wk_flight w = Sweeping \<Longrightarrow> worker_step cap w (w\<lparr> wk_flight := Settled, wk_carry := cur \<rparr>)"
| bound: "wk_flight w = Sweeping \<Longrightarrow>
    worker_step cap w (w\<lparr> wk_flight := Timed_out, wk_zombies := wk_zombies w + 1, wk_carry := None \<rparr>)"
| cleared: "wk_flight w \<in> {Settled, Timed_out} \<Longrightarrow> worker_step cap w (w\<lparr> wk_flight := Idle \<rparr>)"
| late: "0 < wk_zombies w \<Longrightarrow> worker_step cap w (w\<lparr> wk_zombies := wk_zombies w - 1 \<rparr>)"
| stop: "worker_step cap w (w\<lparr> wk_stopped := True \<rparr>)"

text \<open>Sweeps that may hold a pool client.\<close>

definition running_sweeps :: "worker \<Rightarrow> nat" where
  "running_sweeps w = wk_zombies w + (if wk_flight w = Sweeping then 1 else 0)"

definition worker_inv :: "nat \<Rightarrow> worker \<Rightarrow> bool" where
  "worker_inv cap w = (running_sweeps w \<le> cap)"

inductive_cases worker_stepE: "worker_step cap w w'"

interpretation recovery_worker: kept_invariant "\<lambda>w. w = worker_start" "worker_step cap" "worker_inv cap" for cap
  by unfold_locales
     (auto simp: worker_inv_def running_sweeps_def worker_start_def worker_tick_def elim!: worker_stepE split: if_splits)

section \<open>Accounting\<close>

definition processed :: "sweep_result \<Rightarrow> nat" where
  "processed r = sw_queued_failed r + sw_running_unknown r + sw_running_never_started r + sw_skipped r + sw_errors r"

lemma recover_candidate_counts:
  assumes "recover_candidate z cr cfg env c res db = (res', db')"
  shows "processed res' = processed res + 1 \<and> sw_candidates res' = sw_candidates res \<and>
    sw_skipped res \<le> sw_skipped res' \<and> sw_errors res \<le> sw_errors res'"
  using assms
  by (auto simp: recover_candidate_def processed_def split: stale_reason.splits sum.splits prod.splits
      running_recovery.splits if_splits)

lemma sweep_rows_counts:
  "sweep_rows z cr cfg envs oth cs (k, res, db) = (k', res', db') \<Longrightarrow>
    processed res' = processed res + length cs \<and> sw_candidates res' = sw_candidates res \<and> k' = k + length cs \<and>
    sw_skipped res \<le> sw_skipped res' \<and> sw_errors res \<le> sw_errors res'"
proof (induction cs arbitrary: k res db)
  case (Cons c cs)
  obtain res1 db1 where r: "recover_candidate z cr cfg (envs k) c res (oth k db) = (res1, db1)" by fastforce
  from Cons.prems r have "sweep_rows z cr cfg envs oth cs (k + 1, res1, db1) = (k', res', db')" by simp
  from Cons.IH [OF this] recover_candidate_counts [OF r] show ?case by auto
qed simp

lemma candidates_length:
  "recovery_candidates now pg rg lmt cur db = Inr rows \<Longrightarrow> int (length rows) \<le> lmt"
  by (auto simp: recovery_candidates_def split: if_split_asm)

lemma sweep_pages_mono:
  "sweep_pages z cr cfg envs oth n cur (k, res, db) = Inr (x, k', res', db') \<Longrightarrow>
    sw_skipped res \<le> sw_skipped res' \<and> sw_errors res \<le> sw_errors res'"
proof (induction n arbitrary: cur k res db)
  case (Suc n)
  from Suc.prems obtain rows where
    c: "recovery_candidates (tx_now (envs k)) (cf_prepared_grace cfg) (cf_recovery_grace cfg) (cf_batch cfg) cur (oth k db) = Inr rows"
    by (cases "recovery_candidates (tx_now (envs k)) (cf_prepared_grace cfg) (cf_recovery_grace cfg) (cf_batch cfg) cur (oth k db)")
      (simp_all add: Let_def)
  note step = Suc.prems [unfolded sweep_pages.simps Let_def c bindE_simps]
  obtain k1 res1 db1 where r: "sweep_rows z cr cfg envs oth rows
      (k + 1, res\<lparr> sw_candidates := sw_candidates res + length rows \<rparr>, oth k db) = (k1, res1, db1)"
    using prod_cases3 by blast
  have r1: "sw_skipped res \<le> sw_skipped res1 \<and> sw_errors res \<le> sw_errors res1" using sweep_rows_counts [OF r] by simp
  from step r have "res' = res \<or> res' = res1 \<or> sw_skipped res1 \<le> sw_skipped res' \<and> sw_errors res1 \<le> sw_errors res'"
    using Suc.IH by (auto split: if_split_asm)
  with r1 show ?case by auto
qed simp

lemma sweep_pages_counts:
  "sweep_pages z cr cfg envs oth n cur (k, res, db) = Inr ((ex, cur'), k', res', db') \<Longrightarrow> processed res = sw_candidates res \<Longrightarrow>
    processed res' = sw_candidates res' \<and>
    int (sw_candidates res') \<le> int (sw_candidates res) + int n * cf_batch cfg \<and>
    (\<not> ex \<longrightarrow> int (sw_candidates res') = int (sw_candidates res) + int n * cf_batch cfg) \<and>
    sw_skipped res \<le> sw_skipped res' \<and> sw_errors res \<le> sw_errors res'"
proof (induction n arbitrary: cur k res db)
  case (Suc n)
  let ?db = "oth k db"
  from Suc.prems(1) obtain rows where
    c: "recovery_candidates (tx_now (envs k)) (cf_prepared_grace cfg) (cf_recovery_grace cfg) (cf_batch cfg) cur ?db = Inr rows"
    by (cases "recovery_candidates (tx_now (envs k)) (cf_prepared_grace cfg) (cf_recovery_grace cfg) (cf_batch cfg) cur ?db")
      (simp_all add: Let_def)
  have b: "0 \<le> cf_batch cfg * int n" "int (length rows) \<le> cf_batch cfg"
    using c candidates_length [OF c] by (auto simp: recovery_candidates_def split: if_split_asm)
  note step = Suc.prems(1) [unfolded sweep_pages.simps Let_def c bindE_simps]
  show ?case
  proof (cases "rows = []")
    case True
    with step Suc.prems(2) b show ?thesis by (simp add: algebra_simps)
  next
    case False
    let ?r0 = "res\<lparr> sw_candidates := sw_candidates res + length rows \<rparr>"
    obtain k1 res1 db1 where r: "sweep_rows z cr cfg envs oth rows (k + 1, ?r0, ?db) = (k1, res1, db1)"
      using prod_cases3 by blast
    have r1: "processed res1 = sw_candidates res1" "sw_candidates res1 = sw_candidates res + length rows"
      "sw_skipped res \<le> sw_skipped res1" "sw_errors res \<le> sw_errors res1"
      using sweep_rows_counts [OF r] Suc.prems(2) by (simp_all add: processed_def)
    show ?thesis
    proof (cases "int (length rows) < cf_batch cfg")
      case True
      with step False r r1 show ?thesis using b by (simp add: algebra_simps del: zero_le_mult_iff mult_nonneg_nonneg)
    next
      case full: False
      with step False r have "sweep_pages z cr cfg envs oth n
        (Some \<lparr> sc_created = ca_created (last rows), sc_run = ca_run (last rows) \<rparr>) (k1, res1, db1) = Inr ((ex, cur'), k', res', db')"
        by simp
      from Suc.IH [OF this r1(1)] r1(2-) full b show ?thesis by (simp add: algebra_simps)
    qed
  qed
qed simp

lemma sweep_pages_cursor:
  "sweep_pages z cr cfg envs oth n cur (k, res, db) = Inr ((False, cur'), k', res', db') \<Longrightarrow> n \<noteq> 0 \<Longrightarrow> cur' \<noteq> None"
proof (induction n arbitrary: cur k res db)
  case (Suc n)
  from Suc.prems obtain rows where
    c: "recovery_candidates (tx_now (envs k)) (cf_prepared_grace cfg) (cf_recovery_grace cfg) (cf_batch cfg) cur (oth k db) = Inr rows"
    by (cases "recovery_candidates (tx_now (envs k)) (cf_prepared_grace cfg) (cf_recovery_grace cfg) (cf_batch cfg) cur (oth k db)")
      (simp_all add: Let_def)
  note step = Suc.prems(1) [unfolded sweep_pages.simps Let_def c bindE_simps]
  obtain k1 res1 db1 where r: "sweep_rows z cr cfg envs oth rows
      (k + 1, res\<lparr> sw_candidates := sw_candidates res + length rows \<rparr>, oth k db) = (k1, res1, db1)"
    using prod_cases3 by blast
  have "sweep_pages z cr cfg envs oth n (Some \<lparr> sc_created = ca_created (last rows), sc_run = ca_run (last rows) \<rparr>)
      (k1, res1, db1) = Inr ((False, cur'), k', res', db')"
    using step r by (simp split: if_split_asm)
  then show ?case using Suc.IH by (cases "n = 0") auto
qed simp

section \<open>A sweep is a run of protocol steps\<close>

lemma recover_candidate_step:
  "recover_candidate z cr cfg env c res db = (res', db') \<Longrightarrow> db' = db \<or> dispatch_step z cr db db'"
  by (auto simp: recover_candidate_def split: stale_reason.splits sum.splits prod.splits
      intro: dispatch_step.recover_queued dispatch_step.recover_running)

lemma sweep_rows_steps:
  assumes "\<And>k d. (dispatch_step z cr)\<^sup>*\<^sup>* d (oth k d)"
  shows "sweep_rows z cr cfg envs oth cs (k, res, db) = (k', res', db') \<Longrightarrow> (dispatch_step z cr)\<^sup>*\<^sup>* db db'"
proof (induction cs arbitrary: k res db)
  case (Cons c cs)
  obtain res1 db1 where r: "recover_candidate z cr cfg (envs k) c res (oth k db) = (res1, db1)" by fastforce
  with Cons.prems have "(dispatch_step z cr)\<^sup>*\<^sup>* db1 db'" by (intro Cons.IH) simp
  moreover have "(dispatch_step z cr)\<^sup>*\<^sup>* (oth k db) db1" using recover_candidate_step [OF r] by auto
  ultimately show ?case using assms [of db k] by (meson rtranclp_trans)
qed simp

lemma sweep_pages_steps:
  assumes "\<And>k d. (dispatch_step z cr)\<^sup>*\<^sup>* d (oth k d)"
  shows "sweep_pages z cr cfg envs oth n cur (k, res, db) = Inr (x, k', res', db') \<Longrightarrow> (dispatch_step z cr)\<^sup>*\<^sup>* db db'"
proof (induction n arbitrary: cur k res db)
  case (Suc n)
  from Suc.prems obtain rows where
    c: "recovery_candidates (tx_now (envs k)) (cf_prepared_grace cfg) (cf_recovery_grace cfg) (cf_batch cfg) cur (oth k db) = Inr rows"
    by (cases "recovery_candidates (tx_now (envs k)) (cf_prepared_grace cfg) (cf_recovery_grace cfg) (cf_batch cfg) cur (oth k db)")
      (simp_all add: Let_def)
  note step = Suc.prems [unfolded sweep_pages.simps Let_def c bindE_simps]
  obtain k1 res1 db1 where r: "sweep_rows z cr cfg envs oth rows
      (k + 1, res\<lparr> sw_candidates := sw_candidates res + length rows \<rparr>, oth k db) = (k1, res1, db1)"
    using prod_cases3 by blast
  from step r have "db' = oth k db \<or> db' = db1 \<or> (dispatch_step z cr)\<^sup>*\<^sup>* db1 db'"
    by (auto split: if_split_asm intro: Suc.IH)
  then show ?case using assms [of db k] sweep_rows_steps [OF assms r] by (meson rtranclp_trans)
qed simp

section \<open>A complete sweep\<close>

lemma recover_candidate_progress:
  fixes db :: "'a run_db_scheme"
  assumes inv: "dispatch_inv db" and r: "r \<in> set (db_runs db)" "stale (tx_now env) (cf_prepared_grace cfg) (cf_recovery_grace cfg) r"
    and rc: "recover_candidate z cr cfg env (candidate_of r) res db = (res', db')"
    and ok: "sw_skipped res' = sw_skipped res" "sw_errors res' = sw_errors res"
  obtains r' where "run_id r' = run_id r" "run_status r' \<noteq> Queued" "run_status r' \<noteq> Running"
    "db_runs db' = map (\<lambda>q. if run_id q = run_id r then r' else q) (db_runs db)"
proof -
  have id: "lower (run_id r) = run_id r" using inv r(1) by (simp add: dispatch_inv_def row_ok_v1_def)
  have same: "q = r" if "select_unlocked env (run_org r) (run_id r) P db = Inr (Some q)" for q P
    using select_run_Some [OF select_unlocked_Some(1) [OF that]] unique_run [OF inv _ r(1)] id by simp
  have moved: "db_runs db' = map (\<lambda>q. if run_id q = run_id r then r' else q) (db_runs db)"
    if "effect cr db r typs b r' db'" "run_id r' = run_id r" "r' \<noteq> r" for typs b r'
    using that by (auto simp: effect_def)
  show thesis
  proof (cases "run_status r = Queued")
    case True
    then have "ca_reason (candidate_of r) = Queued_stale" "ca_org (candidate_of r) = run_org r" "ca_run (candidate_of r) = run_id r"
      by (simp_all add: candidate_of_def)
    with rc ok have q: "recoverQueuedStale cr env (run_org r) (run_id r) (cf_prepared_grace cfg) db = Inr (True, db')"
      by (auto simp: recover_candidate_def split: sum.splits prod.splits if_splits)
    from q show thesis
    proof (cases rule: recover_queued_implements)
      case (yes q)
      have "q = r" using same [OF yes(2)] .
      with yes(3) True show thesis
        by (intro that [of "fail_update (tx_now env) ''dispatch_never_claimed'' r"] moved)
           (auto simp: fail_update_def dest: arg_cong [of _ _ run_status])
    qed simp
  next
    case False
    then have st: "run_status r = Running" using r(2) by (auto simp: stale_def queued_stale_def running_stale_def)
    then have "ca_reason (candidate_of r) = Running_stale" "ca_org (candidate_of r) = run_org r" "ca_run (candidate_of r) = run_id r"
      by (simp_all add: candidate_of_def)
    with rc ok obtain rr where q: "recoverRunningStale z cr env (run_org r) (run_id r) (cf_recovery_grace cfg) db = Inr (rr, db')"
      "rr \<noteq> Not_recovered"
      by (auto simp: recover_candidate_def split: sum.splits prod.splits running_recovery.splits)
    from q(1) show thesis
    proof (cases rule: recover_running_implements)
      case (never q)
      have "q = r" using same [OF never(2)] .
      with never(4) st show thesis
        by (intro that [of "fail_update (tx_now env) ''dispatch_never_started'' r"] moved)
           (auto simp: fail_update_def dest: arg_cong [of _ _ run_status])
    next
      case (unknown q)
      have "q = r" using same [OF unknown(2)] .
      with unknown(4) st show thesis
        by (intro that [of "unknown_update (tx_now env) ''stale_dispatch_claim'' r"] moved)
           (auto simp: unknown_update_def dest: arg_cong [of _ _ run_status])
    qed (use q(2) in simp)
  qed
qed

text \<open>The stale runs of the tables.\<close>

definition stale_runs :: "int \<Rightarrow> dispatch_config \<Rightarrow> 'a run_db_scheme \<Rightarrow> run_row set" where
  "stale_runs now cfg db = {r \<in> set (db_runs db). stale now (cf_prepared_grace cfg) (cf_recovery_grace cfg) r}"

lemma sweep_rows_recover:
  fixes db :: "'a run_db_scheme"
  assumes now: "\<And>k. tx_now (envs k) = now"
  shows "sweep_rows z cr cfg envs (\<lambda>_ d. d) (map candidate_of rs) (k, res, db) = (k', res', db') \<Longrightarrow> dispatch_inv db \<Longrightarrow>
    distinct rs \<Longrightarrow> set rs \<subseteq> stale_runs now cfg db \<Longrightarrow> sw_skipped res' = sw_skipped res \<Longrightarrow> sw_errors res' = sw_errors res \<Longrightarrow>
    stale_runs now cfg db' = stale_runs now cfg db - set rs \<and> dispatch_inv db'"
proof (induction rs arbitrary: k res db)
  case (Cons r rs)
  obtain res1 db1 where r: "recover_candidate z cr cfg (envs k) (candidate_of r) res db = (res1, db1)" by fastforce
  with Cons.prems(1) have rest: "sweep_rows z cr cfg envs (\<lambda>_ d. d) (map candidate_of rs) (k + 1, res1, db1) = (k', res', db')" by simp
  have cnt: "sw_skipped res1 = sw_skipped res" "sw_errors res1 = sw_errors res"
    "sw_skipped res' = sw_skipped res1" "sw_errors res' = sw_errors res1"
    using recover_candidate_counts [OF r] sweep_rows_counts [OF rest] Cons.prems(5,6) by linarith+
  have rin: "r \<in> set (db_runs db)" "stale now (cf_prepared_grace cfg) (cf_recovery_grace cfg) r"
    using Cons.prems(4) by (auto simp: stale_runs_def)
  obtain r' where r': "run_id r' = run_id r" "run_status r' \<noteq> Queued" "run_status r' \<noteq> Running"
    "db_runs db1 = map (\<lambda>q. if run_id q = run_id r then r' else q) (db_runs db)"
    by (rule recover_candidate_progress [OF Cons.prems(2) rin(1) _ r cnt(1,2)]) (use rin(2) now in simp_all)
  have ns: "\<not> stale now (cf_prepared_grace cfg) (cf_recovery_grace cfg) r'"
    using r'(2,3) by (simp add: stale_def queued_stale_def running_stale_def)
  have only: "q = r" if "q \<in> set (db_runs db)" "run_id q = run_id r" for q
    using unique_run [OF Cons.prems(2) that(1) rin(1) that(2)] .
  have st: "stale_runs now cfg db1 = stale_runs now cfg db - {r}"
    using ns only rin(1) by (auto simp: stale_runs_def r'(4))
  have "dispatch_inv db1" using recover_candidate_step [OF r] dispatch_step_inv Cons.prems(2) by blast
  from Cons.IH [OF rest this] Cons.prems(3,4) cnt(3,4) st show ?case by auto
qed simp

text \<open>What a page leaves behind lies after its last row.\<close>

lemma page_rest:
  fixes db :: "'a run_db_scheme"
  assumes inv: "dispatch_inv db" and r: "r \<in> set (db_runs db)" "stale now pg rg r" "after_cursor cur r"
    and page: "rs = take n (stale_page now pg rg cur db)" "r \<notin> set rs" "rs \<noteq> []"
  shows "run_key (last rs) < run_key r" "length rs = n"
proof -
  let ?p = "stale_page now pg rg cur db"
  have rp: "r \<in> set ?p" using r by (simp add: stale_page_def)
  then have rd: "r \<in> set (drop n ?p)" using page(1,2) by (metis Un_iff append_take_drop_id set_append)
  then show len: "length rs = n" using page(1) by (cases "length ?p \<le> n") auto
  have srt: "sorted (map run_key ?p)" by (simp add: stale_page_def)
  have "last rs \<in> set rs" using page(3) by simp
  moreover have "sorted (map run_key (take n ?p) @ map run_key (drop n ?p))"
    using srt by (simp only: map_append [symmetric] append_take_drop_id)
  then have "run_key a \<le> run_key b" if "a \<in> set (take n ?p)" "b \<in> set (drop n ?p)" for a b
    using that by (simp add: sorted_append)
  ultimately have le: "run_key (last rs) \<le> run_key r" using rd page(1) by blast
  have "last rs \<in> set (db_runs db)" using \<open>last rs \<in> set rs\<close> page(1) by (auto simp: stale_page_def dest: in_set_takeD)
  then have "run_key (last rs) \<noteq> run_key r"
    using unique_run [OF inv _ r(1)] \<open>last rs \<in> set rs\<close> page(2) by (auto simp: run_key_def)
  with le show "run_key (last rs) < run_key r" by simp
qed

lemma sweep_pages_drain:
  fixes db :: "'a run_db_scheme"
  assumes now: "\<And>k. tx_now (envs k) = now"
  shows "sweep_pages z cr cfg envs (\<lambda>_ d. d) n cur (k, res, db) = Inr ((True, cur'), k', res', db') \<Longrightarrow> dispatch_inv db \<Longrightarrow>
    (\<forall>r \<in> stale_runs now cfg db. after_cursor cur r) \<Longrightarrow> sw_skipped res' = sw_skipped res \<Longrightarrow> sw_errors res' = sw_errors res \<Longrightarrow>
    stale_runs now cfg db' = {}"
proof (induction n arbitrary: cur k res db)
  case (Suc n)
  let ?pg = "cf_prepared_grace cfg" and ?rg = "cf_recovery_grace cfg" and ?b = "nat (cf_batch cfg)"
  define rs where "rs = take ?b (stale_page now ?pg ?rg cur db)"
  from Suc.prems(1) have c: "recovery_candidates now ?pg ?rg (cf_batch cfg) cur db = Inr (map candidate_of rs)" and pos: "1 \<le> cf_batch cfg"
    by (auto simp: Let_def now recovery_candidates_def rs_def split: if_split_asm)
  note step = Suc.prems(1) [unfolded sweep_pages.simps Let_def now c bindE_simps]
  have all: "stale_runs now cfg db \<subseteq> set (stale_page now ?pg ?rg cur db)"
    using Suc.prems(3) by (auto simp: stale_runs_def stale_page_def)
  show ?case
  proof (cases "rs = []")
    case True
    then have "stale_page now ?pg ?rg cur db = []" using pos by (simp add: rs_def)
    with all step True show ?thesis by auto
  next
    case False
    obtain k1 res1 db1 where r: "sweep_rows z cr cfg envs (\<lambda>_ d. d) (map candidate_of rs)
        (k + 1, res\<lparr> sw_candidates := sw_candidates res + length rs \<rparr>, db) = (k1, res1, db1)"
      using prod_cases3 by blast
    have mono: "sw_skipped res \<le> sw_skipped res1" "sw_errors res \<le> sw_errors res1"
      using sweep_rows_counts [OF r] by simp_all
    have sub: "distinct rs" "set rs \<subseteq> stale_runs now cfg db"
    proof -
      have "distinct (db_runs db)" using Suc.prems(2) by (simp add: dispatch_inv_def distinct_map)
      then show "distinct rs" by (simp add: rs_def stale_page_def)
      show "set rs \<subseteq> stale_runs now cfg db" by (auto simp: rs_def stale_page_def stale_runs_def dest!: in_set_takeD)
    qed
    have left: "stale_runs now cfg db1 = stale_runs now cfg db - set rs" "dispatch_inv db1"
      if "sw_skipped res1 = sw_skipped res" "sw_errors res1 = sw_errors res"
      using sweep_rows_recover [OF now r Suc.prems(2) sub] that by simp_all
    show ?thesis
    proof (cases "int (length rs) < cf_batch cfg")
      case True
      with step False r have fin: "res' = res1" "db' = db1" by simp_all
      have "stale_runs now cfg db \<subseteq> set rs"
      proof -
        have "length (stale_page now ?pg ?rg cur db) \<le> ?b" using True by (auto simp: rs_def)
        with all show ?thesis by (simp add: rs_def)
      qed
      with left(1) Suc.prems(4,5) fin show ?thesis by auto
    next
      case full: False
      let ?cur = "Some \<lparr> sc_created = ca_created (last (map candidate_of rs)), sc_run = ca_run (last (map candidate_of rs)) \<rparr>"
      from step False r full have rest: "sweep_pages z cr cfg envs (\<lambda>_ d. d) n ?cur (k1, res1, db1) = Inr ((True, cur'), k', res', db')"
        by simp
      have mono2: "sw_skipped res1 \<le> sw_skipped res'" "sw_errors res1 \<le> sw_errors res'"
        using sweep_pages_mono [OF rest] by simp_all
      then have eq: "sw_skipped res1 = sw_skipped res" "sw_errors res1 = sw_errors res"
        "sw_skipped res' = sw_skipped res1" "sw_errors res' = sw_errors res1" using mono Suc.prems(4,5) by linarith+
      have "after_cursor ?cur q" if "q \<in> stale_runs now cfg db1" for q
      proof -
        from that left(1) [OF eq(1,2)] have q: "q \<in> stale_runs now cfg db" "q \<notin> set rs" by auto
        then have "run_key (last rs) < run_key q"
          using page_rest(1) [OF Suc.prems(2) _ _ _ rs_def q(2) False] Suc.prems(3) by (simp add: stale_runs_def)
        then show ?thesis using False by (simp add: after_cursor_def last_map candidate_of_def run_key_def)
      qed
      with Suc.IH [OF rest left(2) [OF eq(1,2)]] eq show ?thesis by simp
    qed
  qed
qed simp

text \<open>
  A sweep accounts for every candidate it discovered: each is counted exactly once as failed,
  marked unknown, failed before its start, skipped or an error. One sweep handles at most twenty
  batches, and it hands a cursor to the next one only when it handled exactly twenty full batches.
\<close>

theorem sweep_accounts_for_candidates:
  assumes "runDispatchRecoverySweepOnce z cr cfg envs oth cur db = Inr ((res, nxt), db')"
  shows "sw_candidates res = sw_queued_failed res + sw_running_unknown res + sw_running_never_started res +
      sw_skipped res + sw_errors res \<and>
    int (sw_candidates res) \<le> 20 * cf_batch cfg \<and>
    (nxt = None \<or> int (sw_candidates res) = 20 * cf_batch cfg)"
proof -
  from assms obtain ex cur' k' where p: "sweep_pages z cr cfg envs oth 20 cur (0, no_result, db) = Inr ((ex, cur'), k', res, db')"
    and n: "nxt = (if ex then None else cur')"
    by (auto simp: runDispatchRecoverySweepOnce_def MAX_BATCHES_PER_SWEEP_def bindE_Inr_iff)
  from sweep_pages_counts [OF p] n show ?thesis by (simp add: processed_def no_result_def)
qed

text \<open>
  A sweep is a run of protocol steps: whatever other sessions commit between its transactions,
  it leaves a reachable state, so every guarantee of the dispatch protocol survives it.
\<close>

theorem sweep_stays_reachable:
  assumes "reach run_empty (dispatch_step z cr) db" and "\<And>k d. (dispatch_step z cr)\<^sup>*\<^sup>* d (oth k d)"
    and "runDispatchRecoverySweepOnce z cr cfg envs oth cur db = Inr (x, db')"
  shows "reach run_empty (dispatch_step z cr) db'"
proof -
  have "(dispatch_step z cr)\<^sup>*\<^sup>* db db'"
    using assms(3) sweep_pages_steps [OF assms(2)] by (auto simp: runDispatchRecoverySweepOnce_def bindE_Inr_iff)
  then show ?thesis using assms(1) by (induction rule: rtranclp_induct) (auto intro: reach.intros(2))
qed

text \<open>
  A complete sweep leaves no stale run behind. With no other session active, a sweep that
  starts from the oldest run, hands on no cursor and reports neither skips nor errors has moved
  every run that was stale, whatever the batch size: paging by \<open>(created_at, id)\<close> misses none.
\<close>

theorem complete_sweep_leaves_none_stale:
  assumes "reach run_empty (dispatch_step z cr) db" and "\<And>k. tx_now (envs k) = now"
    and "runDispatchRecoverySweepOnce z cr cfg envs (\<lambda>_ d. d) None db = Inr ((res, None), db')"
    and "sw_skipped res = 0" and "sw_errors res = 0" and "r \<in> set (db_runs db')"
  shows "\<not> queued_stale now (cf_prepared_grace cfg) r \<and> \<not> running_stale now (cf_recovery_grace cfg) r"
proof -
  have inv: "dispatch_inv db" using assms(1) by (rule dispatch.inv_reach)
  obtain ex cur' k' where p: "sweep_pages z cr cfg envs (\<lambda>_ d. d) 20 None (0, no_result, db) = Inr ((ex, cur'), k', res, db')"
    and n: "None = (if ex then None else cur')"
    using assms(3) by (auto simp: runDispatchRecoverySweepOnce_def MAX_BATCHES_PER_SWEEP_def bindE_Inr_iff)
  have "ex"
  proof (rule ccontr)
    assume "\<not> ex"
    with p have p': "sweep_pages z cr cfg envs (\<lambda>_ d. d) 20 None (0, no_result, db) = Inr ((False, cur'), k', res, db')" by simp
    have "cur' \<noteq> None" by (rule sweep_pages_cursor [OF p']) simp
    with n \<open>\<not> ex\<close> show False by simp
  qed
  with p have p': "sweep_pages z cr cfg envs (\<lambda>_ d. d) 20 None (0, no_result, db) = Inr ((True, cur'), k', res, db')" by simp
  have "stale_runs now cfg db' = {}"
    by (rule sweep_pages_drain [OF assms(2) p' inv]) (simp_all add: after_cursor_def no_result_def assms(4,5))
  with assms(6) show ?thesis by (auto simp: stale_runs_def stale_def)
qed

text \<open>
  What the configuration accepts, everything downstream accepts: with a configuration read
  from the environment, discovery never refuses its parameters and a claim never violates the
  constraint on its timeout or the range of its column.
\<close>

theorem config_accepted_downstream:
  assumes "runDispatchConfigFromEnv env = Inr cfg"
  shows "\<not> isl (recovery_candidates now (cf_prepared_grace cfg) (cf_recovery_grace cfg) (cf_batch cfg) cur db) \<and>
    int4 (cf_timeout cfg) \<and> timeout_check (claim_update now tok (cf_timeout cfg) r)"
proof -
  have b: "bounded v d lo hi n = Inr i \<Longrightarrow> lo \<le> i \<and> i \<le> hi" for v d lo hi n i
    by (auto simp: bounded_def floor_le_iff le_floor_iff split: option.splits js_num.splits if_splits)
  from assms show ?thesis
    by (auto simp: runDispatchConfigFromEnv_def bindE_Inr_iff recovery_candidates_def int4_def timeout_check_def
        claim_update_def dest!: b)
qed

text \<open>
  C32. Recovery cannot drain the connection pool: whatever stalls, settles late, times out or is
  stopped, the sweeps that may still hold a client, abandoned ones included, never exceed the
  configured cap.
\<close>

theorem worker_bounds_clients:
  assumes "reach (\<lambda>w. w = worker_start) (worker_step cap) w"
  shows "running_sweeps w \<le> cap"
  using recovery_worker.inv_reach [OF assms] by (simp add: worker_inv_def)

section \<open>Witnesses\<close>

definition demo_cfg :: dispatch_config where
  "demo_cfg = \<lparr> cf_timeout = 5000, cf_interval = 30000, cf_prepared_grace = 60000, cf_recovery_grace = 1000,
     cf_batch = 1, cf_enabled = True \<rparr>"

text \<open>On the claimed run, past its deadline: one page of one row, then an empty one.\<close>

lemma demo_sweep:
  obtains db' where "runDispatchRecoverySweepOnce demo_z demo_rcr demo_cfg (\<lambda>_. demo_env (CHR ''a'') 9000000) (\<lambda>_ d. d) None demo_rdb2 =
      Inr ((no_result\<lparr> sw_candidates := 1, sw_running_never_started := 1 \<rparr>, None), db')"
proof -
  obtain db' where r: "recoverRunningStale demo_z demo_rcr (demo_env (CHR ''a'') 9000000) demo_org demo_run 1000 demo_rdb2 =
      Inr (Failed_never_started, db')"
    by (rule demo_recovered)
  have runs: "db_runs demo_rdb2 = [demo_row2]" using demo_claimed by (simp add: sample_state_def)
  from r obtain q where q: "select_unlocked (demo_env (CHR ''a'') 9000000) demo_org demo_run (running_stale 9000000 1000) demo_rdb2 = Inr (Some q)"
    and e: "effect demo_rcr demo_rdb2 q [''run.failed''] no_call (fail_update 9000000 ''dispatch_never_started'' q) db'"
    by (cases rule: recover_running_implements) auto
  have "q \<in> set (db_runs demo_rdb2)" using e by (simp add: effect_def)
  then have "q = demo_row2" by (simp add: runs)
  with e have runs': "db_runs db' = [fail_update 9000000 ''dispatch_never_started'' demo_row2]"
    by (auto simp: effect_def runs fail_update_def dest: arg_cong [of _ _ run_status])
  have st: "running_stale 9000000 1000 demo_row2" "\<not> queued_stale 9000000 60000 demo_row2" "run_status demo_row2 = Running"
    by (simp_all add: running_stale_def queued_stale_def demo_row2_def demo_row1_def claim_update_def)
  have c1: "recovery_candidates 9000000 60000 1000 1 None demo_rdb2 = Inr [candidate_of demo_row2]"
    by (simp add: recovery_candidates_def stale_page_def runs stale_def st after_cursor_def)
  have c2: "recovery_candidates 9000000 60000 1000 1 cur db' = Inr []" for cur
    by (simp add: recovery_candidates_def stale_page_def runs' stale_def queued_stale_def running_stale_def fail_update_def)
  have rc: "recover_candidate demo_z demo_rcr demo_cfg (demo_env (CHR ''a'') 9000000) (candidate_of demo_row2) res demo_rdb2 =
      (res\<lparr> sw_running_never_started := sw_running_never_started res + 1 \<rparr>, db')" for res
    using r st(3) by (simp add: recover_candidate_def candidate_of_def demo_cfg_def)
  have cfg: "cf_prepared_grace demo_cfg = 60000" "cf_recovery_grace demo_cfg = 1000" "cf_batch demo_cfg = 1"
    by (simp_all add: demo_cfg_def)
  have p2: "sweep_pages demo_z demo_rcr demo_cfg (\<lambda>_. demo_env (CHR ''a'') 9000000) (\<lambda>_ d. d) 19 cur (k, res, db') =
      Inr ((True, cur), k + 1, res, db')" for cur k res
    using sweep_pages.simps(2) [of demo_z demo_rcr demo_cfg "\<lambda>_. demo_env (CHR ''a'') 9000000" "\<lambda>_ d. d" 18 cur k res db']
    by (simp add: cfg c2)
  have n20: "MAX_BATCHES_PER_SWEEP = Suc (Suc 18)" by (simp add: MAX_BATCHES_PER_SWEEP_def)
  show thesis
    by (rule that [of db'], unfold runDispatchRecoverySweepOnce_def n20 sweep_pages.simps)
       (simp add: cfg c1 c2 p2 rc no_result_def)
qed

theorem sweep_accounts_for_candidates_witness:
  "\<exists>db'. runDispatchRecoverySweepOnce demo_z demo_rcr demo_cfg (\<lambda>_. demo_env (CHR ''a'') 9000000) (\<lambda>_ d. d) None demo_rdb2 =
      Inr ((no_result\<lparr> sw_candidates := 1, sw_running_never_started := 1 \<rparr>, None), db') \<and>
    int (sw_candidates (no_result\<lparr> sw_candidates := 1, sw_running_never_started := 1 \<rparr>)) \<le> 20 * cf_batch demo_cfg"
proof -
  obtain db' where d: "runDispatchRecoverySweepOnce demo_z demo_rcr demo_cfg (\<lambda>_. demo_env (CHR ''a'') 9000000) (\<lambda>_ d. d) None demo_rdb2 =
      Inr ((no_result\<lparr> sw_candidates := 1, sw_running_never_started := 1 \<rparr>, None), db')"
    by (rule demo_sweep)
  show ?thesis using d sweep_accounts_for_candidates [OF d] by blast
qed

theorem sweep_stays_reachable_witness:
  "\<exists>res nxt db'. runDispatchRecoverySweepOnce demo_z demo_rcr demo_cfg (\<lambda>_. demo_env (CHR ''a'') 9000000) (\<lambda>_ d. d) None demo_rdb2 =
      Inr ((res, nxt), db') \<and> reach run_empty (dispatch_step demo_z demo_rcr) db'"
proof -
  obtain db' where d: "runDispatchRecoverySweepOnce demo_z demo_rcr demo_cfg (\<lambda>_. demo_env (CHR ''a'') 9000000) (\<lambda>_ d. d) None demo_rdb2 =
      Inr ((no_result\<lparr> sw_candidates := 1, sw_running_never_started := 1 \<rparr>, None), db')"
    by (rule demo_sweep)
  show ?thesis using d sweep_stays_reachable [OF demo_reach(2) rtranclp.rtrancl_refl d] by blast
qed

theorem complete_sweep_leaves_none_stale_witness:
  "\<exists>res db' r. runDispatchRecoverySweepOnce demo_z demo_rcr demo_cfg (\<lambda>_. demo_env (CHR ''a'') 9000000) (\<lambda>_ d. d) None demo_rdb2 =
      Inr ((res, None), db') \<and> sw_candidates res = 1 \<and> r \<in> set (db_runs db') \<and>
      \<not> queued_stale 9000000 60000 r \<and> \<not> running_stale 9000000 1000 r"
proof -
  obtain db' where d: "runDispatchRecoverySweepOnce demo_z demo_rcr demo_cfg (\<lambda>_. demo_env (CHR ''a'') 9000000) (\<lambda>_ d. d) None demo_rdb2 =
      Inr ((no_result\<lparr> sw_candidates := 1, sw_running_never_started := 1 \<rparr>, None), db')"
    by (rule demo_sweep)
  have t: "\<And>k. tx_now ((\<lambda>_::nat. demo_env (CHR ''a'') 9000000) k) = 9000000" by simp
  have z: "sw_skipped (no_result\<lparr> sw_candidates := 1, sw_running_never_started := 1 \<rparr>) = 0"
    "sw_errors (no_result\<lparr> sw_candidates := 1, sw_running_never_started := 1 \<rparr>) = 0" by (simp_all add: no_result_def)
  have "(dispatch_step demo_z demo_rcr)\<^sup>*\<^sup>* demo_rdb2 db'"
    using d sweep_pages_steps [of demo_z demo_rcr "\<lambda>_ d. d"] by (auto simp: runDispatchRecoverySweepOnce_def bindE_Inr_iff)
  moreover have "demo_row2 \<in> set (db_runs demo_rdb2)" using demo_claimed by (simp add: sample_state_def)
  ultimately obtain r where r: "r \<in> set (db_runs db')"
    using run_mono_steps [OF dispatch.inv_reach [OF demo_reach(2)]] by blast
  from complete_sweep_leaves_none_stale [OF demo_reach(2) t d z r] d r show ?thesis
    by (intro exI [of _ "no_result\<lparr> sw_candidates := 1, sw_running_never_started := 1 \<rparr>"] exI [of _ db'] exI [of _ r])
       (simp add: demo_cfg_def)
qed

definition demo_denv :: dispatch_env where
  "demo_denv = \<lparr> env_timeout = Some (Finite 5000), env_interval = None, env_prepared_grace = None, env_recovery_grace = Some (Finite 0),
     env_batch = Some (Finite 500), env_enabled = Some True \<rparr>"

theorem config_accepted_downstream_witness:
  "runDispatchConfigFromEnv demo_denv = Inr \<lparr> cf_timeout = 5000, cf_interval = 30000, cf_prepared_grace = 60000,
     cf_recovery_grace = 0, cf_batch = 500, cf_enabled = True \<rparr> \<and> int4 5000"
proof -
  have d: "runDispatchConfigFromEnv demo_denv = Inr \<lparr> cf_timeout = 5000, cf_interval = 30000, cf_prepared_grace = 60000,
     cf_recovery_grace = 0, cf_batch = 500, cf_enabled = True \<rparr>"
    by (simp add: runDispatchConfigFromEnv_def demo_denv_def bounded_def)
  show ?thesis using d config_accepted_downstream [OF d, where now = 0 and cur = None and db = demo_rdb0 and tok = "[]" and r = demo_row1] by simp
qed

theorem worker_bounds_clients_witness:
  "reach (\<lambda>w. w = worker_start) (worker_step 1) (worker_tick 1 worker_start) \<and> running_sweeps (worker_tick 1 worker_start) \<le> 1"
proof -
  have r: "reach (\<lambda>w. w = worker_start) (worker_step 1) (worker_tick 1 worker_start)"
    by (rule reach.intros(2) [where s = worker_start]) (rule reach.intros(1), rule refl, rule worker_step.tick)
  show ?thesis using r worker_bounds_clients [OF r] by (rule conjI)
qed

end
