(* ===== verification/Governance.thy ===== *)
theory Governance
  imports Canonical_Json
begin

text \<open>
  The governance decision of a request (\<open>packages/core-governance\<close>, \<open>packages/core-types\<close>): risk
  classes and their escalation, the tier/risk/mode enforcement matrix, beta tokens, capabilities and
  their downgrade-only overrides (with \<open>apps/api/src/pipeline/capability-resolution.ts\<close>), and roles.
\<close>

section \<open>Vocabularies\<close>

datatype risk_class = Risk_A | Risk_B | Risk_C | Risk_D | Risk_E
datatype tier = Starter | Business | Enterprise | Regulated
datatype operational_mode = Production | Pilot | Dev | Test
datatype enforcement_mode = Observe | Warn | Ask | Enforce | Sandbox_required | Blocked_mode

datatype side_effect = Audit_detail_high | Dlp_pre_scan_required bool

datatype precondition =
    Tenant_acceptance_required risk_class
  | Approval_workflow_required bool
  | Sandbox_environment_required bool

record enforcement_resolution =
  er_mode :: enforcement_mode
  er_side_effects :: "side_effect list option"
  er_preconditions :: "precondition list option"

fun RISK_ORDER :: "risk_class \<Rightarrow> nat" where
  "RISK_ORDER Risk_A = 0"
| "RISK_ORDER Risk_B = 1"
| "RISK_ORDER Risk_C = 2"
| "RISK_ORDER Risk_D = 3"
| "RISK_ORDER Risk_E = 4"

fun MODE_RANK :: "enforcement_mode \<Rightarrow> nat" where
  "MODE_RANK Observe = 0"
| "MODE_RANK Warn = 1"
| "MODE_RANK Ask = 2"
| "MODE_RANK Enforce = 3"
| "MODE_RANK Sandbox_required = 4"
| "MODE_RANK Blocked_mode = 5"

interpretation risk: ranked RISK_ORDER
proof unfold_locales
  fix x y assume "RISK_ORDER x = RISK_ORDER y"
  then show "x = y" by (cases x; cases y) simp_all
qed

interpretation mode: ranked MODE_RANK
proof unfold_locales
  fix x y assume "MODE_RANK x = MODE_RANK y"
  then show "x = y" by (cases x; cases y) simp_all
qed

text \<open>The tables order the vocabularies.\<close>

instantiation risk_class :: linorder
begin

definition less_eq_risk_class :: "risk_class \<Rightarrow> risk_class \<Rightarrow> bool" where
  "a \<le> b \<longleftrightarrow> RISK_ORDER a \<le> RISK_ORDER b"

definition less_risk_class :: "risk_class \<Rightarrow> risk_class \<Rightarrow> bool" where
  "a < b \<longleftrightarrow> RISK_ORDER a < RISK_ORDER b"

instance
  by standard (auto simp: less_eq_risk_class_def less_risk_class_def dest: risk.rank_eqD)

end

instantiation enforcement_mode :: linorder
begin

definition less_eq_enforcement_mode :: "enforcement_mode \<Rightarrow> enforcement_mode \<Rightarrow> bool" where
  "a \<le> b \<longleftrightarrow> MODE_RANK a \<le> MODE_RANK b"

definition less_enforcement_mode :: "enforcement_mode \<Rightarrow> enforcement_mode \<Rightarrow> bool" where
  "a < b \<longleftrightarrow> MODE_RANK a < MODE_RANK b"

instance
  by standard (auto simp: less_eq_enforcement_mode_def less_enforcement_mode_def dest: mode.rank_eqD)

end

lemmas [enum_defs] = less_eq_risk_class_def less_risk_class_def less_eq_enforcement_mode_def less_enforcement_mode_def

section \<open>Enforcement\<close>

record enforcement_input =
  ei_tier :: tier
  ei_risk :: risk_class
  ei_mode :: operational_mode
  ei_tool :: "string option"

fun relaxOneNotch :: "enforcement_mode \<Rightarrow> enforcement_mode" where
  "relaxOneNotch Blocked_mode = Sandbox_required"
| "relaxOneNotch Sandbox_required = Enforce"
| "relaxOneNotch Enforce = Ask"
| "relaxOneNotch Ask = Warn"
| "relaxOneNotch Warn = Observe"
| "relaxOneNotch Observe = Observe"

definition productionMode :: "enforcement_input \<Rightarrow> enforcement_mode" where
  "productionMode i = (let r = ei_risk i; t = ei_tier i in
     if r = Risk_E then Blocked_mode
     else if r = Risk_D then
       (if t = Starter then Blocked_mode else if t = Business then Sandbox_required else Enforce)
     else if r = Risk_C then (if t = Starter then Ask else Enforce)
     else if r = Risk_B then Warn else Observe)"

definition computer_use :: "string option \<Rightarrow> bool" where
  "computer_use tool = (tool = Some ''anthropic_provider_hosted_computer_use'' \<or>
     tool = Some ''openai_provider_hosted_computer_use'')"

definition computeEnforcement :: "enforcement_input \<Rightarrow> enforcement_resolution" where
  "computeEnforcement i =
     (if ei_mode i = Dev \<or> ei_mode i = Test
      then \<lparr> er_mode = Observe, er_side_effects = None, er_preconditions = None \<rparr>
      else
        let m0 = productionMode i;
            m1 = (if ei_mode i = Pilot then relaxOneNotch m0 else m0);
            m2 = (if computer_use (ei_tool i) \<and> MODE_RANK m1 < MODE_RANK Sandbox_required then Sandbox_required else m1);
            se = (if MODE_RANK Ask \<le> MODE_RANK m2 then [Audit_detail_high] else []) @
                 (if MODE_RANK Enforce \<le> MODE_RANK m2 then [Dlp_pre_scan_required True] else []);
            pre = (if (m2 = Sandbox_required \<or> m2 = Enforce) \<and> ei_risk i = Risk_D
                   then [Sandbox_environment_required True] else [])
        in \<lparr> er_mode = m2, er_side_effects = (if se = [] then None else Some se),
             er_preconditions = (if pre = [] then None else Some pre) \<rparr>)"

section \<open>Risk escalation\<close>

record escalation =
  es_reason :: string
  es_from :: risk_class
  es_to :: risk_class

definition computeEffectiveRiskClass :: "risk_class \<Rightarrow> escalation list \<Rightarrow> risk_class" where
  "computeEffectiveRiskClass base escs =
     foldl (\<lambda>m e. if es_from e = base then (if RISK_ORDER m < RISK_ORDER (es_to e) then es_to e else m) else m) base escs"

record tool_lite =
  tl_index :: nat
  tl_class :: string
  tl_risk :: risk_class

record dlp_lite =
  dl_detector :: string
  dl_signal :: "string option"

record governance_input =
  gi_base :: risk_class
  gi_tier :: tier
  gi_mode :: operational_mode
  gi_tools :: "tool_lite list"
  gi_dlp :: "dlp_lite list"
  gi_multipart :: bool

record resolved_governance =
  rg_base :: risk_class
  rg_effective :: risk_class
  rg_reasons :: "string list"
  rg_enforcement :: enforcement_mode

text \<open>True for a strong signal.\<close>

definition ddpClassifyDetector :: "string \<Rightarrow> string option \<Rightarrow> bool" where
  "ddpClassifyDetector detector signal =
     (if signal = Some ''pii_strong'' then True
      else if signal = Some ''pii_standard'' then False
      else detector = ''cpf'' \<or> detector = ''cnpj'')"

definition maxRisk :: "risk_class \<Rightarrow> risk_class \<Rightarrow> risk_class" where
  "maxRisk a b = (if RISK_ORDER a < RISK_ORDER b then b else a)"

fun risk_lower :: "risk_class \<Rightarrow> string" where
  "risk_lower Risk_A = ''a''"
| "risk_lower Risk_B = ''b''"
| "risk_lower Risk_C = ''c''"
| "risk_lower Risk_D = ''d''"
| "risk_lower Risk_E = ''e''"

definition risk_classes :: "risk_class list" where
  "risk_classes = [Risk_A, Risk_B, Risk_C, Risk_D, Risk_E]"

definition dlp_tag :: "dlp_lite \<Rightarrow> string" where
  "dlp_tag f = ''dlp:'' @ dl_detector f @ '':'' @
     (if ddpClassifyDetector (dl_detector f) (dl_signal f) then ''pii_strong'' else ''pii_standard'')"

definition dlp_escalations :: "dlp_lite \<Rightarrow> escalation list" where
  "dlp_escalations f =
     (if ddpClassifyDetector (dl_detector f) (dl_signal f)
      then [\<lparr> es_reason = dlp_tag f, es_from = Risk_A, es_to = Risk_C \<rparr>,
            \<lparr> es_reason = dlp_tag f, es_from = Risk_B, es_to = Risk_C \<rparr>,
            \<lparr> es_reason = dlp_tag f, es_from = Risk_C, es_to = Risk_D \<rparr>]
      else [\<lparr> es_reason = dlp_tag f, es_from = Risk_A, es_to = Risk_B \<rparr>])"

definition tool_tag :: "tool_lite \<Rightarrow> string" where
  "tool_tag t = ''tool:'' @ tl_class t @ '':'' @ risk_lower (tl_risk t)"

definition tool_escalations :: "tool_lite \<Rightarrow> escalation list" where
  "tool_escalations t = concat (map (\<lambda>r. let lifted = maxRisk r (tl_risk t) in
     if lifted \<noteq> r then [\<lparr> es_reason = tool_tag t, es_from = r, es_to = lifted \<rparr>] else []) risk_classes)"

definition multipart_escalations :: "bool \<Rightarrow> escalation list" where
  "multipart_escalations m = (if m then [\<lparr> es_reason = ''multipart_upload'', es_from = Risk_B, es_to = Risk_C \<rparr>] else [])"

text \<open>\<open>tool_classifications.reduce(..)\<close>: on equal classes the later tool wins.\<close>

definition dominantTool :: "tool_lite list \<Rightarrow> tool_lite option" where
  "dominantTool ts = (case ts of [] \<Rightarrow> None
     | t # us \<Rightarrow> Some (foldl (\<lambda>acc u. if maxRisk (tl_risk acc) (tl_risk u) = tl_risk u then u else acc) t us))"

definition resolveGovernance :: "governance_input \<Rightarrow> resolved_governance" where
  "resolveGovernance i =
     (let escs = concat (map dlp_escalations (gi_dlp i)) @ concat (map tool_escalations (gi_tools i)) @
            multipart_escalations (gi_multipart i);
          reasons = map dlp_tag (gi_dlp i) @ map tool_tag (gi_tools i) @
            (if gi_multipart i then [''multipart_upload''] else []);
          eff = computeEffectiveRiskClass (gi_base i) escs;
          enf = computeEnforcement \<lparr> ei_tier = gi_tier i, ei_risk = eff, ei_mode = gi_mode i,
                  ei_tool = map_option tl_class (dominantTool (gi_tools i)) \<rparr>
      in \<lparr> rg_base = gi_base i, rg_effective = eff, rg_reasons = reasons, rg_enforcement = er_mode enf \<rparr>)"

section \<open>Beta tokens\<close>

datatype beta_policy =
    Global_allowlist | Org_override_allowed | Hard_denied | Verification_required
  | Denied_until_decision | Removed_as_no_longer_needed

record beta_entry =
  be_token :: string
  be_policy :: beta_policy

datatype beta_source = From_allowlist | From_override | From_legacy | From_denied | From_unknown

datatype audit_marker = Verification_pending | Decision_pending

record beta_resolution =
  br_allow :: bool
  br_source :: beta_source
  br_override :: "string option"
  br_policy :: "beta_policy option"
  br_marker :: "audit_marker option"

text \<open>The loader answers the active overrides of an organization at a provider: token and id.\<close>

definition resolveBeta ::
  "string \<Rightarrow> string \<Rightarrow> string \<Rightarrow> beta_entry list \<Rightarrow> (string \<Rightarrow> string \<Rightarrow> (string \<times> string) list) \<Rightarrow> beta_resolution" where
  "resolveBeta provider org token table loader =
     (case find (\<lambda>e. be_token e = token) table of
        None \<Rightarrow> \<lparr> br_allow = False, br_source = From_unknown, br_override = None, br_policy = None, br_marker = None \<rparr>
      | Some e \<Rightarrow>
         (case be_policy e of
            Global_allowlist \<Rightarrow> \<lparr> br_allow = True, br_source = From_allowlist, br_override = None,
               br_policy = Some Global_allowlist, br_marker = None \<rparr>
          | Org_override_allowed \<Rightarrow>
             (case find (\<lambda>(t, i). t = token) (loader org provider) of
                Some (t, i) \<Rightarrow> \<lparr> br_allow = True, br_source = From_override, br_override = Some i,
                   br_policy = Some Org_override_allowed, br_marker = None \<rparr>
              | None \<Rightarrow> \<lparr> br_allow = False, br_source = From_denied, br_override = None,
                   br_policy = Some Org_override_allowed, br_marker = None \<rparr>)
          | Hard_denied \<Rightarrow> \<lparr> br_allow = False, br_source = From_denied, br_override = None,
               br_policy = Some Hard_denied, br_marker = None \<rparr>
          | Verification_required \<Rightarrow>
             (case find (\<lambda>(t, i). t = token) (loader org provider) of
                Some (t, i) \<Rightarrow> \<lparr> br_allow = True, br_source = From_override, br_override = Some i,
                   br_policy = Some Verification_required, br_marker = Some Verification_pending \<rparr>
              | None \<Rightarrow> \<lparr> br_allow = False, br_source = From_denied, br_override = None,
                   br_policy = Some Verification_required, br_marker = Some Verification_pending \<rparr>)
          | Denied_until_decision \<Rightarrow> \<lparr> br_allow = False, br_source = From_denied, br_override = None,
               br_policy = Some Denied_until_decision, br_marker = Some Decision_pending \<rparr>
          | Removed_as_no_longer_needed \<Rightarrow> \<lparr> br_allow = True, br_source = From_legacy, br_override = None,
               br_policy = Some Removed_as_no_longer_needed, br_marker = None \<rparr>))"

section \<open>Capabilities\<close>

datatype cap_status = Supported | Planned | Experimental | Blocked_cap

datatype evidence_strength = Hmac_internal | Dev_signed | External_anchor | Customer_signed | Icp_brasil_tsa

record facet =
  fc_id :: string
  fc_level :: nat
  fc_status :: cap_status
  fc_evidence :: "evidence_strength option"
  fc_reason :: "string option"
  fc_last_live_test :: "string option"
  fc_docs_url :: "string option"

record capability =
  cap_id :: string
  cap_provider :: string
  cap_status :: cap_status
  cap_facets :: "facet list"

text \<open>The zod schemas; the formats of a date-time and of a URL are parameters.\<close>

definition CapabilityFacet :: "(string \<Rightarrow> bool) \<Rightarrow> (string \<Rightarrow> bool) \<Rightarrow> facet \<Rightarrow> bool" where
  "CapabilityFacet datetime url f =
     (fc_id f \<noteq> [] \<and> fc_level f \<le> 3 \<and> (case fc_last_live_test f of None \<Rightarrow> True | Some t \<Rightarrow> datetime t) \<and>
      (case fc_docs_url f of None \<Rightarrow> True | Some u \<Rightarrow> url u) \<and> (fc_level f = 3 \<longrightarrow> fc_evidence f \<noteq> None))"

definition Capability :: "(string \<Rightarrow> bool) \<Rightarrow> (string \<Rightarrow> bool) \<Rightarrow> capability \<Rightarrow> bool" where
  "Capability datetime url c =
     (cap_id c \<noteq> [] \<and> cap_provider c \<in> {''anthropic'', ''openai''} \<and> cap_facets c \<noteq> [] \<and>
      list_all (CapabilityFacet datetime url) (cap_facets c))"

definition validateRegistry :: "(string \<Rightarrow> bool) \<Rightarrow> (string \<Rightarrow> bool) \<Rightarrow> capability list \<Rightarrow> bool" where
  "validateRegistry datetime url reg = list_all (Capability datetime url) reg"

definition plain_facet :: "string \<Rightarrow> nat \<Rightarrow> cap_status \<Rightarrow> evidence_strength option \<Rightarrow> facet" where
  "plain_facet i lvl st ev = \<lparr> fc_id = i, fc_level = lvl, fc_status = st, fc_evidence = ev, fc_reason = None,
     fc_last_live_test = None, fc_docs_url = None \<rparr>"

definition create_facets :: "facet list" where
  "create_facets = [plain_facet ''pre_dlp'' 2 Supported None, plain_facet ''final_hash'' 3 Supported (Some Hmac_internal)]"

definition stream_facets :: "facet list" where
  "stream_facets = create_facets @ [plain_facet ''realtime_audit'' 3 Supported (Some Hmac_internal)]"

definition tools_facets :: "facet list" where
  "tools_facets = [plain_facet ''tool_call_audit'' 2 Planned None]"

definition BASELINE_REGISTRY :: "capability list" where
  "BASELINE_REGISTRY =
     [\<lparr> cap_id = ''anthropic.messages.create'', cap_provider = ''anthropic'', cap_status = Supported, cap_facets = create_facets \<rparr>,
      \<lparr> cap_id = ''anthropic.messages.stream'', cap_provider = ''anthropic'', cap_status = Supported, cap_facets = stream_facets \<rparr>,
      \<lparr> cap_id = ''anthropic.messages.tools'', cap_provider = ''anthropic'', cap_status = Planned, cap_facets = tools_facets \<rparr>,
      \<lparr> cap_id = ''openai.responses.create'', cap_provider = ''openai'', cap_status = Supported, cap_facets = create_facets \<rparr>,
      \<lparr> cap_id = ''openai.responses.stream'', cap_provider = ''openai'', cap_status = Supported, cap_facets = stream_facets \<rparr>,
      \<lparr> cap_id = ''openai.chat.completions.create'', cap_provider = ''openai'', cap_status = Supported, cap_facets = create_facets \<rparr>,
      \<lparr> cap_id = ''openai.chat.completions.stream'', cap_provider = ''openai'', cap_status = Supported, cap_facets = create_facets \<rparr>,
      \<lparr> cap_id = ''openai.responses.tools'', cap_provider = ''openai'', cap_status = Planned, cap_facets = tools_facets \<rparr>]"

definition findCapability :: "string \<Rightarrow> capability option" where
  "findCapability i = find (\<lambda>c. cap_id c = i) BASELINE_REGISTRY"

datatype cap_error =
    Level_out_of_range js_num
  | Upgrade_not_allowed nat nat
  | Not_registered string
  | Not_supported string cap_status

text \<open>An override row: a level and a status, each possibly \<open>NULL\<close>; a status is one of two.\<close>

datatype override_status = To_blocked | To_experimental

fun override_to :: "override_status \<Rightarrow> cap_status" where
  "override_to To_blocked = Blocked_cap"
| "override_to To_experimental = Experimental"

record override_row =
  ov_facet :: string
  ov_level :: "js_num option"
  ov_status :: "override_status option"

definition resolveEffectiveLevel ::
  "nat \<Rightarrow> (js_num option \<times> override_status option) option \<Rightarrow> cap_error + nat \<times> cap_status option" where
  "resolveEffectiveLevel baseline override =
     (case override of None \<Rightarrow> Inr (baseline, None)
      | Some (lv, st) \<Rightarrow>
          bindE (case lv of None \<Rightarrow> Inr baseline
                 | Some NonFinite \<Rightarrow> Inl (Level_out_of_range NonFinite)
                 | Some (Finite q) \<Rightarrow>
                     if q \<noteq> of_int \<lfloor>q\<rfloor> \<or> q < 0 \<or> 3 < q then Inl (Level_out_of_range (Finite q))
                     else if of_nat baseline < q then Inl (Upgrade_not_allowed baseline (nat \<lfloor>q\<rfloor>))
                     else Inr (nat \<lfloor>q\<rfloor>))
            (\<lambda>level. Inr (if st = Some To_blocked then 0 else level, map_option override_to st)))"

fun STATUS_RANK :: "cap_status \<Rightarrow> nat" where
  "STATUS_RANK Supported = 0"
| "STATUS_RANK Planned = 2"
| "STATUS_RANK Experimental = 3"
| "STATUS_RANK Blocked_cap = 4"

interpretation status: ranked STATUS_RANK
proof unfold_locales
  fix x y assume "STATUS_RANK x = STATUS_RANK y"
  then show "x = y" by (cases x; cases y) simp_all
qed

record effective_facet =
  ef_facet :: facet
  ef_level :: nat
  ef_status :: cap_status
  ef_applied :: bool

record resolved_capability =
  rc_capability :: capability
  rc_facets :: "effective_facet list"
  rc_status :: cap_status

definition effectiveFacet :: "override_row list \<Rightarrow> facet \<Rightarrow> cap_error + effective_facet" where
  "effectiveFacet overrides f =
     (case find (\<lambda>o'. ov_facet o' = fc_id f) overrides of
        None \<Rightarrow> Inr \<lparr> ef_facet = f, ef_level = fc_level f, ef_status = fc_status f, ef_applied = False \<rparr>
      | Some o' \<Rightarrow>
          bindE (resolveEffectiveLevel (fc_level f) (Some (ov_level o', ov_status o'))) (\<lambda>(lv, st).
          Inr \<lparr> ef_facet = f, ef_level = lv, ef_status = (case st of None \<Rightarrow> fc_status f | Some s \<Rightarrow> s), ef_applied = True \<rparr>))"

definition resolveCapability :: "string \<Rightarrow> override_row list \<Rightarrow> cap_error + resolved_capability" where
  "resolveCapability i overrides =
     (case findCapability i of None \<Rightarrow> Inl (Not_registered i)
      | Some c \<Rightarrow>
          bindE (collectE (map (effectiveFacet overrides) (cap_facets c))) (\<lambda>efs.
          Inr \<lparr> rc_capability = c, rc_facets = efs,
            rc_status = foldl (\<lambda>m ef. if STATUS_RANK m < STATUS_RANK (ef_status ef) then ef_status ef else m)
              (Governance.cap_status c) efs \<rparr>))"

text \<open>\<open>new URL\<close> is a parameter: the protocol, user, password and host it parses, or none.\<close>

record url_parts =
  ur_protocol :: string
  ur_username :: string
  ur_password :: string
  ur_hostname :: string

definition isLoopbackUrl :: "(string \<Rightarrow> url_parts option) \<Rightarrow> string \<Rightarrow> bool" where
  "isLoopbackUrl parse raw =
     (raw \<noteq> [] \<and> (case parse raw of None \<Rightarrow> False
      | Some u \<Rightarrow> ur_protocol u \<in> {''http:'', ''https:''} \<and> ur_username u = [] \<and> ur_password u = [] \<and>
          ur_hostname u \<in> {''127.0.0.1'', ''localhost''}))"

record cap_env =
  ce_node_env :: string
  ce_allow_planned :: bool
  ce_base_url :: "string option"

definition assertCapabilityExecutable ::
  "(string \<Rightarrow> url_parts option) \<Rightarrow> string \<Rightarrow> cap_status \<Rightarrow> cap_env \<Rightarrow> cap_error + unit" where
  "assertCapabilityExecutable parse i st env =
     (if st = Supported then Inr ()
      else if st = Planned then
        (if \<not> (ce_node_env env = ''test'' \<or> ce_allow_planned env) \<or>
            \<not> isLoopbackUrl parse (case ce_base_url env of None \<Rightarrow> [] | Some u \<Rightarrow> u)
         then Inl (Not_supported i Planned) else Inr ())
      else Inl (Not_supported i st))"

section \<open>Roles\<close>

datatype role = Admin | Data_protection_officer | Dlp_admin | Developer | Auditor

fun role_text :: "role \<Rightarrow> string" where
  "role_text Admin = ''admin''"
| "role_text Data_protection_officer = ''data_protection_officer''"
| "role_text Dlp_admin = ''dlp_admin''"
| "role_text Developer = ''developer''"
| "role_text Auditor = ''auditor''"

fun hasAnyRole :: "string list \<Rightarrow> role list \<Rightarrow> bool" where
  "hasAnyRole actor [] = False"
| "hasAnyRole actor (r # rs) = (if role_text r \<in> set actor then True else hasAnyRole actor rs)"

definition requireRole :: "string list \<Rightarrow> role list \<Rightarrow> string + unit" where
  "requireRole actor required = (if \<not> hasAnyRole actor required then Inl ''FORBIDDEN'' else Inr ())"

section \<open>The escalation is a maximum\<close>

lemma computeEffective_pick:
  "computeEffectiveRiskClass base escs = pick_max RISK_ORDER base (map es_to (filter (\<lambda>e. es_from e = base) escs))"
proof -
  have "foldl (\<lambda>m e. if es_from e = base then (if RISK_ORDER m < RISK_ORDER (es_to e) then es_to e else m) else m) a escs =
      pick_max RISK_ORDER a (map es_to (filter (\<lambda>e. es_from e = base) escs))" for a
    by (induction escs arbitrary: a) simp_all
  then show ?thesis by (simp add: computeEffectiveRiskClass_def)
qed

text \<open>What one signal makes of a base class, as the source documents it.\<close>

definition dlp_lift :: "risk_class \<Rightarrow> dlp_lite \<Rightarrow> risk_class" where
  "dlp_lift base f = (if ddpClassifyDetector (dl_detector f) (dl_signal f)
     then (case base of Risk_A \<Rightarrow> Risk_C | Risk_B \<Rightarrow> Risk_C | Risk_C \<Rightarrow> Risk_D | _ \<Rightarrow> base)
     else (case base of Risk_A \<Rightarrow> Risk_B | _ \<Rightarrow> base))"

definition tool_lift :: "risk_class \<Rightarrow> tool_lite \<Rightarrow> risk_class" where
  "tool_lift base t = max base (tl_risk t)"

definition multipart_lift :: "risk_class \<Rightarrow> bool \<Rightarrow> risk_class" where
  "multipart_lift base m = (if m \<and> base = Risk_B then Risk_C else base)"

definition lifts :: "governance_input \<Rightarrow> risk_class set" where
  "lifts i = insert (multipart_lift (gi_base i) (gi_multipart i))
     (dlp_lift (gi_base i) ` set (gi_dlp i) \<union> tool_lift (gi_base i) ` set (gi_tools i))"

lemma maxRisk_max: "maxRisk a b = max a b"
  by (auto simp: maxRisk_def max_def less_eq_risk_class_def intro: risk.rank_eqD)

text \<open>The classes the escalations of a list lead to from a base class.\<close>

definition targets :: "risk_class \<Rightarrow> escalation list \<Rightarrow> risk_class set" where
  "targets base escs = set (map es_to (filter (\<lambda>e. es_from e = base) escs))"

lemma targets_simps [simp]:
  "targets base [] = {}"
  "targets base (e # es) = (if es_from e = base then insert (es_to e) (targets base es) else targets base es)"
  "targets base (es @ es') = targets base es \<union> targets base es'"
  by (auto simp: targets_def)

lemma targets_concat: "targets base (concat (map f xs)) = (\<Union>x \<in> set xs. targets base (f x))"
  by (induction xs) auto

lemma dlp_targets: "insert base (targets base (dlp_escalations f)) = {base, dlp_lift base f}"
  by (cases base) (auto simp: dlp_escalations_def dlp_lift_def)

lemma tool_targets: "insert base (targets base (tool_escalations t)) = {base, tool_lift base t}"
  by (cases base; cases "tl_risk t")
    (simp_all add: tool_escalations_def tool_lift_def risk_classes_def Let_def maxRisk_def max_def less_eq_risk_class_def)

lemma multipart_targets: "insert base (targets base (multipart_escalations m)) = {base, multipart_lift base m}"
  by (auto simp: multipart_escalations_def multipart_lift_def)

lemma insert_UN: "insert x (\<Union>a \<in> A. F a) = insert x (\<Union>a \<in> A. insert x (F a))"
  by auto

lemma all_targets:
  "insert base (targets base (concat (map dlp_escalations ds) @ concat (map tool_escalations ts) @ multipart_escalations m)) =
   insert base (insert (multipart_lift base m) (dlp_lift base ` set ds \<union> tool_lift base ` set ts))"
proof -
  have "insert base (targets base (concat (map dlp_escalations ds) @ concat (map tool_escalations ts) @ multipart_escalations m)) =
      insert base (\<Union>d \<in> set ds. targets base (dlp_escalations d)) \<union> insert base (\<Union>t \<in> set ts. targets base (tool_escalations t)) \<union>
      insert base (targets base (multipart_escalations m))"
    by (auto simp: targets_concat)
  also have "\<dots> = insert base (\<Union>d \<in> set ds. {base, dlp_lift base d}) \<union> insert base (\<Union>t \<in> set ts. {base, tool_lift base t}) \<union>
      {base, multipart_lift base m}"
    by (subst (1 2) insert_UN) (simp only: dlp_targets tool_targets multipart_targets)
  also have "\<dots> = insert base (insert (multipart_lift base m) (dlp_lift base ` set ds \<union> tool_lift base ` set ts))"
    by auto
  finally show ?thesis .
qed

lemma lift_ge: "base \<le> dlp_lift base f" "base \<le> tool_lift base t" "base \<le> multipart_lift base m"
proof -
  show "base \<le> dlp_lift base f" by (cases base) (simp_all add: dlp_lift_def less_eq_risk_class_def)
  show "base \<le> tool_lift base t" by (simp add: tool_lift_def)
  show "base \<le> multipart_lift base m" by (cases base) (simp_all add: multipart_lift_def less_eq_risk_class_def)
qed

lemma Max_insert_below:
  assumes "finite X" "x \<in> X" "(base :: 'a :: linorder) \<le> x"
  shows "Max (insert base X) = Max X"
proof -
  have "base \<le> Max X" using Max_ge [OF assms(1,2)] assms(3) by (rule order.trans [rotated])
  moreover have "Max (insert base X) = max base (Max X)" using assms(1,2) by (intro Max_insert) auto
  ultimately show ?thesis by (simp add: max.absorb2)
qed

lemma lifts_finite [simp]: "finite (lifts i)" "lifts i \<noteq> {}"
  by (simp_all add: lifts_def)

lemma multipart_in_lifts: "multipart_lift (gi_base i) (gi_multipart i) \<in> lifts i"
  by (simp add: lifts_def)

lemma effective_is_Max: "rg_effective (resolveGovernance i) = Max (lifts i)"
proof -
  let ?b = "gi_base i"
  let ?e = "concat (map dlp_escalations (gi_dlp i)) @ concat (map tool_escalations (gi_tools i)) @ multipart_escalations (gi_multipart i)"
  have T: "insert ?b (targets ?b ?e) = insert ?b (lifts i)"
    by (simp only: all_targets lifts_def)
  have "pick_max RISK_ORDER ?b (map es_to (filter (\<lambda>e. es_from e = ?b) ?e)) = Max (insert ?b (lifts i))"
  proof (rule risk.pick_max_unique)
    have fin: "finite (insert ?b (lifts i))" by simp
    have S: "insert ?b (set (map es_to (filter (\<lambda>e. es_from e = ?b) ?e))) = insert ?b (lifts i)"
      using T by (simp only: targets_def)
    show "Max (insert ?b (lifts i)) \<in> insert ?b (set (map es_to (filter (\<lambda>e. es_from e = ?b) ?e)))"
      unfolding S by (rule Max_in [OF fin]) simp
    show "RISK_ORDER x \<le> RISK_ORDER (Max (insert ?b (lifts i)))"
      if "x \<in> insert ?b (set (map es_to (filter (\<lambda>e. es_from e = ?b) ?e)))" for x
      using Max_ge [OF fin, of x] that unfolding S by (simp only: less_eq_risk_class_def)
  qed
  moreover have "Max (insert ?b (lifts i)) = Max (lifts i)"
    by (rule Max_insert_below [OF lifts_finite(1) multipart_in_lifts lift_ge(3)])
  ultimately show ?thesis by (simp add: resolveGovernance_def Let_def computeEffective_pick)
qed

text \<open>
  C33. The effective risk class is the worst of its signals: it is the maximum of what every DLP
  finding, every tool and a multipart upload make of the base class. So it does not depend on their
  order or repetition, is never below the base, and more signals never lower it.
\<close>

theorem effective_risk_is_worst:
  "rg_effective (resolveGovernance i) = Max (lifts i) \<and> gi_base i \<le> rg_effective (resolveGovernance i) \<and>
   (gi_base j = gi_base i \<and> set (gi_dlp i) \<subseteq> set (gi_dlp j) \<and> set (gi_tools i) \<subseteq> set (gi_tools j) \<and> (gi_multipart i \<longrightarrow> gi_multipart j)
     \<longrightarrow> rg_effective (resolveGovernance i) \<le> rg_effective (resolveGovernance j))"
proof -
  have le: "gi_base i \<le> Max (lifts i)"
    using lift_ge(3) Max_ge [OF lifts_finite(1) multipart_in_lifts] by (rule order.trans)
  have mono: "Max (lifts i) \<le> Max (lifts j)"
    if j: "gi_base j = gi_base i" "set (gi_dlp i) \<subseteq> set (gi_dlp j)" "set (gi_tools i) \<subseteq> set (gi_tools j)"
      "gi_multipart i \<longrightarrow> gi_multipart j"
  proof (rule Max.boundedI)
    fix x assume "x \<in> lifts i"
    then consider "x = multipart_lift (gi_base i) (gi_multipart i)" | "x \<in> lifts j"
      using j(1-3) by (auto simp: lifts_def)
    then show "x \<le> Max (lifts j)"
    proof cases
      case 1
      then have "x \<le> multipart_lift (gi_base j) (gi_multipart j)"
        using j(1,4) by (auto simp: multipart_lift_def enum_defs)
      then show ?thesis using Max_ge [OF lifts_finite(1) multipart_in_lifts] by (rule order.trans)
    qed (simp add: Max_ge)
  qed simp_all
  show ?thesis using le mono by (auto simp: effective_is_Max)
qed

definition sample_tool :: tool_lite where
  "sample_tool = \<lparr> tl_index = 0, tl_class = ''anthropic_provider_hosted_computer_use'', tl_risk = Risk_D \<rparr>"

definition sample_input :: "tool_lite list \<Rightarrow> governance_input" where
  "sample_input ts = \<lparr> gi_base = Risk_A, gi_tier = Enterprise, gi_mode = Production, gi_tools = ts,
     gi_dlp = [\<lparr> dl_detector = ''email'', dl_signal = None \<rparr>], gi_multipart = False \<rparr>"

theorem effective_risk_is_worst_witness:
  "rg_effective (resolveGovernance (sample_input [])) \<le> rg_effective (resolveGovernance (sample_input [sample_tool])) \<and>
   rg_effective (resolveGovernance (sample_input [])) = Risk_B \<and>
   rg_effective (resolveGovernance (sample_input [sample_tool])) = Risk_D"
proof -
  have v: "rg_effective (resolveGovernance (sample_input [])) = Risk_B"
    "rg_effective (resolveGovernance (sample_input [sample_tool])) = Risk_D"
    by code_simp+
  have "gi_base (sample_input [sample_tool]) = gi_base (sample_input []) \<and>
    set (gi_dlp (sample_input [])) \<subseteq> set (gi_dlp (sample_input [sample_tool])) \<and>
    set (gi_tools (sample_input [])) \<subseteq> set (gi_tools (sample_input [sample_tool])) \<and>
    (gi_multipart (sample_input []) \<longrightarrow> gi_multipart (sample_input [sample_tool]))"
    by (simp add: sample_input_def)
  with effective_risk_is_worst [of "sample_input []" "sample_input [sample_tool]"]
  have "rg_effective (resolveGovernance (sample_input [])) \<le> rg_effective (resolveGovernance (sample_input [sample_tool]))"
    by blast
  with v show ?thesis by blast
qed

section \<open>Enforcement properties\<close>

lemma productionMode_mono:
  "RISK_ORDER r \<le> RISK_ORDER r' \<Longrightarrow>
   MODE_RANK (productionMode \<lparr> ei_tier = t, ei_risk = r, ei_mode = m, ei_tool = c \<rparr>)
     \<le> MODE_RANK (productionMode \<lparr> ei_tier = t, ei_risk = r', ei_mode = m, ei_tool = c \<rparr>)"
  by (cases r; cases r'; cases t) (simp_all add: productionMode_def Let_def)

lemma relax_mono: "MODE_RANK a \<le> MODE_RANK b \<Longrightarrow> MODE_RANK (relaxOneNotch a) \<le> MODE_RANK (relaxOneNotch b)"
  by (cases a; cases b) simp_all

lemma er_mode_simps:
  "er_mode (computeEnforcement i) =
     (if ei_mode i = Dev \<or> ei_mode i = Test then Observe
      else let m1 = (if ei_mode i = Pilot then relaxOneNotch (productionMode i) else productionMode i) in
        if computer_use (ei_tool i) \<and> MODE_RANK m1 < MODE_RANK Sandbox_required then Sandbox_required else m1)"
  by (simp add: computeEnforcement_def Let_def)

text \<open>
  C34. The enforcement matrix is monotone in the risk class: for the same tier, operational mode and
  tool a higher class never gives a weaker mode. A class E request of a production tenant is blocked
  at every tier, in production and pilot a computer-use tool is never below the sandbox mode, and in
  development and test nothing but observation is asked.
\<close>

theorem enforcement_monotone:
  "(r \<le> r' \<longrightarrow> er_mode (computeEnforcement \<lparr> ei_tier = t, ei_risk = r, ei_mode = m, ei_tool = c \<rparr>)
     \<le> er_mode (computeEnforcement \<lparr> ei_tier = t, ei_risk = r', ei_mode = m, ei_tool = c \<rparr>)) \<and>
   er_mode (computeEnforcement \<lparr> ei_tier = t, ei_risk = Risk_E, ei_mode = Production, ei_tool = c \<rparr>) = Blocked_mode \<and>
   (m = Production \<or> m = Pilot \<longrightarrow> computer_use c \<longrightarrow>
      Sandbox_required \<le> er_mode (computeEnforcement \<lparr> ei_tier = t, ei_risk = r, ei_mode = m, ei_tool = c \<rparr>)) \<and>
   (m = Dev \<or> m = Test \<longrightarrow>
      computeEnforcement \<lparr> ei_tier = t, ei_risk = r, ei_mode = m, ei_tool = c \<rparr> =
        \<lparr> er_mode = Observe, er_side_effects = None, er_preconditions = None \<rparr>)"
proof (intro conjI impI)
  assume "r \<le> r'"
  then have "RISK_ORDER r \<le> RISK_ORDER r'" by (simp add: less_eq_risk_class_def)
  note p = productionMode_mono [OF this, of t m c]
  note q = relax_mono [OF p]
  show "er_mode (computeEnforcement \<lparr> ei_tier = t, ei_risk = r, ei_mode = m, ei_tool = c \<rparr>)
     \<le> er_mode (computeEnforcement \<lparr> ei_tier = t, ei_risk = r', ei_mode = m, ei_tool = c \<rparr>)"
    unfolding less_eq_enforcement_mode_def er_mode_simps Let_def using p q by (cases m) auto
qed (auto simp: er_mode_simps Let_def less_eq_enforcement_mode_def productionMode_def computeEnforcement_def split: if_splits)

theorem enforcement_monotone_witness:
  "er_mode (computeEnforcement \<lparr> ei_tier = Business, ei_risk = Risk_B, ei_mode = Pilot, ei_tool = None \<rparr>)
     \<le> er_mode (computeEnforcement \<lparr> ei_tier = Business, ei_risk = Risk_D, ei_mode = Pilot, ei_tool = None \<rparr>) \<and>
   er_mode (computeEnforcement \<lparr> ei_tier = Business, ei_risk = Risk_D, ei_mode = Pilot, ei_tool = None \<rparr>) = Enforce"
proof
  have "Risk_B \<le> Risk_D" by (simp add: enum_defs)
  with enforcement_monotone [of Risk_B Risk_D Business Pilot None]
  show "er_mode (computeEnforcement \<lparr> ei_tier = Business, ei_risk = Risk_B, ei_mode = Pilot, ei_tool = None \<rparr>)
     \<le> er_mode (computeEnforcement \<lparr> ei_tier = Business, ei_risk = Risk_D, ei_mode = Pilot, ei_tool = None \<rparr>)" by blast
qed code_simp

section \<open>The dominant tool\<close>

definition worst_of :: "tool_lite list \<Rightarrow> tool_lite \<Rightarrow> bool" where
  "worst_of ts d = list_all (\<lambda>t. tl_risk t \<le> tl_risk d) ts"

lemma maxRisk_le: "maxRisk a b = b \<longleftrightarrow> a \<le> b"
  by (auto simp: maxRisk_max max_def)

lemma dominant_last:
  "foldl (\<lambda>acc u. if maxRisk (tl_risk acc) (tl_risk u) = tl_risk u then u else acc) t us =
     last (filter (worst_of (t # us)) (t # us)) \<and> filter (worst_of (t # us)) (t # us) \<noteq> []"
proof (induction us rule: rev_induct)
  case (snoc u us)
  let ?old = "filter (worst_of (t # us)) (t # us)" and ?new = "filter (worst_of (t # us @ [u])) (t # us @ [u])"
  let ?a = "last ?old"
  from snoc have "?a \<in> set ?old" by (intro last_in_set) simp
  then have a: "worst_of (t # us) ?a" "?a \<in> set (t # us)" unfolding set_filter mem_Collect_eq by blast+
  show ?case
  proof (cases "tl_risk ?a \<le> tl_risk u")
    case True
    with a have "worst_of (t # us @ [u]) u" by (auto simp: worst_of_def list_all_iff intro: order.trans)
    then have "?new = filter (worst_of (t # us @ [u])) (t # us) @ [u]" by simp
    with True snoc show ?thesis by (simp add: maxRisk_le)
  next
    case False
    have "worst_of (t # us @ [u]) d \<longleftrightarrow> worst_of (t # us) d" if "d \<in> set (t # us)" for d
    proof -
      have "tl_risk u \<le> tl_risk d" if "worst_of (t # us) d"
      proof -
        have "tl_risk ?a \<le> tl_risk d" using that a(2) unfolding worst_of_def list_all_iff by blast
        with False show ?thesis by simp
      qed
      then show ?thesis by (auto simp: worst_of_def)
    qed
    then have "filter (worst_of (t # us @ [u])) (t # us) = ?old" by (intro filter_cong) auto
    moreover have "\<not> worst_of (t # us @ [u]) u" using a(2) False unfolding worst_of_def list_all_iff by auto
    moreover have "?new = filter (worst_of (t # us @ [u])) (t # us) @ filter (worst_of (t # us @ [u])) [u]"
      unfolding append_Cons [symmetric] filter_append ..
    ultimately have "?new = ?old" by (simp only: filter.simps if_False append_Nil2)
    with False snoc show ?thesis by (simp add: maxRisk_le)
  qed
qed (simp add: worst_of_def)

lemma dominantTool_last:
  "dominantTool ts = (if ts = [] then None else Some (last (filter (worst_of ts) ts)))"
  by (cases ts) (use dominant_last in \<open>simp_all add: dominantTool_def\<close>)

lemma dominant_appended: "worst_of (ts @ [d]) d \<Longrightarrow> dominantTool (ts @ [d]) = Some d"
  by (simp add: dominantTool_last)

lemma enforcement_unfold:
  "rg_enforcement (resolveGovernance i) = er_mode (computeEnforcement \<lparr> ei_tier = gi_tier i,
     ei_risk = rg_effective (resolveGovernance i), ei_mode = gi_mode i, ei_tool = map_option tl_class (dominantTool (gi_tools i)) \<rparr>)"
  by (simp add: resolveGovernance_def Let_def)

lemma effective_cong:
  "set us = set ts \<Longrightarrow> rg_effective (resolveGovernance (i\<lparr> gi_tools := us \<rparr>)) = rg_effective (resolveGovernance (i\<lparr> gi_tools := ts \<rparr>))"
  by (simp add: effective_is_Max lifts_def)

definition sample_bash :: tool_lite where
  "sample_bash = \<lparr> tl_index = 1, tl_class = ''anthropic_client_executed_bash'', tl_risk = Risk_D \<rparr>"

text \<open>
  C35. The tool whose classification sets the sandbox floor is the last of the tools no tool has a
  higher class than. So the order of the tools decides whether the floor holds: of any request in
  production or pilot, let \<open>c\<close> be a computer-use tool and \<open>b\<close> another tool of the same class, no
  other tool being of a higher one. With \<open>c\<close> after \<open>b\<close> the decision is the sandbox mode or
  stricter; with \<open>b\<close> after \<open>c\<close>, at the same effective risk class, it is the decision of a request
  with no computer-use tool at all, and in production at the enterprise tier at class D that is only
  to enforce.
\<close>

theorem later_tool_drops_floor:
  "dominantTool us = (if us = [] then None else Some (last (filter (\<lambda>d. list_all (\<lambda>t. tl_risk t \<le> tl_risk d) us) us))) \<and>
   ((gi_mode i = Production \<or> gi_mode i = Pilot) \<and> computer_use (Some (tl_class c)) \<and> \<not> computer_use (Some (tl_class b)) \<and>
    tl_risk b = tl_risk c \<and> list_all (\<lambda>t. tl_risk t \<le> tl_risk c) ts \<longrightarrow>
      (let floor' = resolveGovernance (i\<lparr> gi_tools := ts @ [b, c] \<rparr>); dropped = resolveGovernance (i\<lparr> gi_tools := ts @ [c, b] \<rparr>) in
        Sandbox_required \<le> rg_enforcement floor' \<and> rg_effective dropped = rg_effective floor' \<and>
        rg_enforcement dropped = er_mode (computeEnforcement \<lparr> ei_tier = gi_tier i, ei_risk = rg_effective floor',
          ei_mode = gi_mode i, ei_tool = None \<rparr>) \<and>
        (gi_mode i = Production \<and> gi_tier i = Enterprise \<and> rg_effective floor' = Risk_D \<longrightarrow> rg_enforcement dropped = Enforce)))"
proof (intro conjI impI)
  show "dominantTool us = (if us = [] then None else Some (last (filter (\<lambda>d. list_all (\<lambda>t. tl_risk t \<le> tl_risk d) us) us)))"
    by (simp add: dominantTool_last worst_of_def [abs_def])
  assume a: "(gi_mode i = Production \<or> gi_mode i = Pilot) \<and> computer_use (Some (tl_class c)) \<and> \<not> computer_use (Some (tl_class b)) \<and>
    tl_risk b = tl_risk c \<and> list_all (\<lambda>t. tl_risk t \<le> tl_risk c) ts"
  have d: "dominantTool (ts @ [b, c]) = Some c" "dominantTool (ts @ [c, b]) = Some b"
    using dominant_appended [of "ts @ [b]" c] dominant_appended [of "ts @ [c]" b] a by (simp_all add: worst_of_def)
  have eff: "rg_effective (resolveGovernance (i\<lparr> gi_tools := ts @ [c, b] \<rparr>)) = rg_effective (resolveGovernance (i\<lparr> gi_tools := ts @ [b, c] \<rparr>))"
    by (rule effective_cong) auto
  have "\<not> computer_use None" by (simp add: computer_use_def)
  then show "let floor' = resolveGovernance (i\<lparr> gi_tools := ts @ [b, c] \<rparr>); dropped = resolveGovernance (i\<lparr> gi_tools := ts @ [c, b] \<rparr>) in
        Sandbox_required \<le> rg_enforcement floor' \<and> rg_effective dropped = rg_effective floor' \<and>
        rg_enforcement dropped = er_mode (computeEnforcement \<lparr> ei_tier = gi_tier i, ei_risk = rg_effective floor',
          ei_mode = gi_mode i, ei_tool = None \<rparr>) \<and>
        (gi_mode i = Production \<and> gi_tier i = Enterprise \<and> rg_effective floor' = Risk_D \<longrightarrow> rg_enforcement dropped = Enforce)"
    unfolding Let_def using a
    by (auto simp: enforcement_unfold d eff er_mode_simps Let_def less_eq_enforcement_mode_def productionMode_def)
qed

theorem later_tool_drops_floor_witness:
  "Sandbox_required \<le> rg_enforcement (resolveGovernance (sample_input [sample_bash, sample_tool])) \<and>
   rg_enforcement (resolveGovernance (sample_input [sample_tool, sample_bash])) = Enforce"
proof -
  have s: "gi_mode (sample_input []) = Production" "gi_tier (sample_input []) = Enterprise" "computer_use (Some (tl_class sample_tool))"
    "\<not> computer_use (Some (tl_class sample_bash))" "tl_risk sample_bash = tl_risk sample_tool"
    "(sample_input [])\<lparr> gi_tools := us \<rparr> = sample_input us" for us
    by (simp_all add: sample_input_def sample_tool_def sample_bash_def computer_use_def)
  have eff: "rg_effective (resolveGovernance (sample_input [sample_bash, sample_tool])) = Risk_D" by code_simp
  have "(gi_mode (sample_input []) = Production \<or> gi_mode (sample_input []) = Pilot) \<and> computer_use (Some (tl_class sample_tool)) \<and>
    \<not> computer_use (Some (tl_class sample_bash)) \<and> tl_risk sample_bash = tl_risk sample_tool \<and> list_all (\<lambda>t. tl_risk t \<le> tl_risk sample_tool) []"
    using s by simp
  from mp [OF conjunct2 [OF later_tool_drops_floor [of "[]" "sample_input []" sample_tool sample_bash "[]"]] this] s(1,2) eff
  show ?thesis unfolding Let_def append_Nil s(6) by blast
qed

section \<open>Overrides only narrow\<close>

lemma resolveEffectiveLevel_le:
  "resolveEffectiveLevel b o' = Inr (l, st) \<Longrightarrow> l \<le> b"
  by (auto simp: resolveEffectiveLevel_def bindE_def floor_le_iff nat_le_iff le_floor_iff
      split: option.splits js_num.splits if_splits sum.splits)

lemma effectiveFacet_level: "effectiveFacet ov f = Inr e \<Longrightarrow> ef_level e \<le> fc_level f \<and> ef_facet e = f"
  by (auto simp: effectiveFacet_def bindE_def dest: resolveEffectiveLevel_le split: option.splits sum.splits)

lemma rollup_pick:
  "foldl (\<lambda>m ef. if STATUS_RANK m < STATUS_RANK (ef_status ef) then ef_status ef else m) a efs =
   pick_max STATUS_RANK a (map ef_status efs)"
  by (induction efs arbitrary: a) simp_all

lemma resolveCapability_InrE:
  assumes "resolveCapability i ov = Inr rc"
  obtains efs where "findCapability i = Some (rc_capability rc)" "rc_facets rc = efs"
    "map (effectiveFacet ov) (cap_facets (rc_capability rc)) = map Inr efs"
    "rc_status rc = pick_max STATUS_RANK (Governance.cap_status (rc_capability rc)) (map ef_status efs)"
  using assms by (auto simp: resolveCapability_def bindE_Inr_iff collectE_Inr_iff rollup_pick split: option.splits)

lemma overridden_facet:
  assumes "effectiveFacet ov f = Inr e" "o' \<in> set ov" "ov_facet o' = fc_id f" "filter (\<lambda>o'. ov_status o' = None) ov = []"
  shows "STATUS_RANK Experimental \<le> STATUS_RANK (ef_status e)"
proof -
  from assms(2,3) obtain p where p: "find (\<lambda>o'. ov_facet o' = fc_id f) ov = Some p"
    by (cases "find (\<lambda>o'. ov_facet o' = fc_id f) ov") (auto simp: find_None_iff)
  then have "p \<in> set ov" by (auto simp: find_Some_iff)
  with assms(4) obtain st where st: "ov_status p = Some st" by (auto simp: filter_empty_conv)
  from assms(1) have "ef_status e = override_to st"
    by (auto simp: effectiveFacet_def p st bindE_Inr_iff resolveEffectiveLevel_def)
  then show ?thesis by (cases st) simp_all
qed

lemma executable_iff:
  "assertCapabilityExecutable parse i st env = Inr () \<longleftrightarrow>
   st = Supported \<or> st = Planned \<and> (ce_node_env env = ''test'' \<or> ce_allow_planned env) \<and>
     isLoopbackUrl parse (case ce_base_url env of None \<Rightarrow> [] | Some u \<Rightarrow> u)"
  by (auto simp: assertCapabilityExecutable_def)

lemma executable_down:
  "assertCapabilityExecutable parse i st env = Inr () \<Longrightarrow> STATUS_RANK st' \<le> STATUS_RANK st \<Longrightarrow>
   assertCapabilityExecutable parse i st' env = Inr ()"
  by (cases st; cases st') (auto simp: executable_iff)

text \<open>
  C36. An organization's overrides only narrow a capability. Whatever they are, a capability that
  resolves has every facet at or below its baseline level, an effective status at least as
  restrictive as the registered one and as every effective facet, and is executable only where the
  registered capability is; outside a hermetic process it is executable exactly when it resolves to
  supported; and an override that sets a status on one of its facets makes it executable nowhere.
\<close>

theorem overrides_never_unlock:
  assumes "resolveCapability i ov = Inr rc"
  shows "findCapability i = Some (rc_capability rc) \<and>
     map ef_facet (rc_facets rc) = cap_facets (rc_capability rc) \<and>
     (\<forall>e \<in> set (rc_facets rc). ef_level e \<le> fc_level (ef_facet e) \<and> STATUS_RANK (ef_status e) \<le> STATUS_RANK (rc_status rc)) \<and>
     STATUS_RANK (Governance.cap_status (rc_capability rc)) \<le> STATUS_RANK (rc_status rc) \<and>
     (assertCapabilityExecutable parse i (rc_status rc) env = Inr () \<longrightarrow>
        assertCapabilityExecutable parse i (Governance.cap_status (rc_capability rc)) env = Inr ()) \<and>
     (ce_node_env env \<noteq> ''test'' \<and> \<not> ce_allow_planned env \<longrightarrow>
        (assertCapabilityExecutable parse i (rc_status rc) env = Inr () \<longleftrightarrow> rc_status rc = Supported)) \<and>
     (filter (\<lambda>o'. ov_status o' = None) ov = [] \<and> o' \<in> set ov \<and> ov_facet o' \<in> fc_id ` set (cap_facets (rc_capability rc)) \<longrightarrow>
        assertCapabilityExecutable parse i (rc_status rc) env \<noteq> Inr ())"
proof -
  from assms obtain efs where r: "findCapability i = Some (rc_capability rc)" "rc_facets rc = efs"
    "map (effectiveFacet ov) (cap_facets (rc_capability rc)) = map Inr efs"
    "rc_status rc = pick_max STATUS_RANK (Governance.cap_status (rc_capability rc)) (map ef_status efs)"
    by (rule resolveCapability_InrE)
  let ?fs = "cap_facets (rc_capability rc)"
  have len: "length ?fs = length efs" using r(3) by (metis length_map)
  have nth: "effectiveFacet ov (?fs ! k) = Inr (efs ! k)" if "k < length efs" for k
    using arg_cong [OF r(3), of "\<lambda>xs. xs ! k"] that len by simp
  have facets: "map ef_facet efs = ?fs"
    by (rule nth_equalityI) (use len nth effectiveFacet_level in auto)
  have lvl: "ef_level e \<le> fc_level (ef_facet e)" if "e \<in> set efs" for e
    using that nth effectiveFacet_level by (metis in_set_conv_nth)
  have up: "STATUS_RANK (ef_status e) \<le> STATUS_RANK (rc_status rc)" if "e \<in> set efs" for e
    unfolding r(4) by (rule pick_max_upper) (simp add: that)
  have base: "STATUS_RANK (Governance.cap_status (rc_capability rc)) \<le> STATUS_RANK (rc_status rc)"
    unfolding r(4) by (rule pick_max_ge)
  have off: "assertCapabilityExecutable parse i (rc_status rc) env \<noteq> Inr ()"
    if o: "filter (\<lambda>o'. ov_status o' = None) ov = []" "o' \<in> set ov" "ov_facet o' \<in> fc_id ` set ?fs"
  proof -
    from o(3) obtain k where k: "k < length efs" "ov_facet o' = fc_id (?fs ! k)"
      by (auto simp: len [symmetric] in_set_conv_nth)
    have "STATUS_RANK Experimental \<le> STATUS_RANK (rc_status rc)"
      using overridden_facet [OF nth [OF k(1)] o(2) k(2) o(1)] up [OF nth_mem [OF k(1)]] by (rule order.trans)
    then show ?thesis by (cases "rc_status rc") (auto simp: executable_iff)
  qed
  have gate: "assertCapabilityExecutable parse i (rc_status rc) env = Inr () \<longleftrightarrow> rc_status rc = Supported"
    if "ce_node_env env \<noteq> ''test'' \<and> \<not> ce_allow_planned env"
    using that by (auto simp: executable_iff)
  show ?thesis
  proof (intro conjI impI ballI)
    fix e assume "e \<in> set (rc_facets rc)"
    then show "ef_level e \<le> fc_level (ef_facet e)" "STATUS_RANK (ef_status e) \<le> STATUS_RANK (rc_status rc)"
      using lvl up r(2) by blast+
  qed (use r(1,2) facets base executable_down [OF _ base] gate off in blast)+
qed

definition sample_override :: override_row where
  "sample_override = \<lparr> ov_facet = ''final_hash'', ov_level = Some (Finite 1), ov_status = Some To_experimental \<rparr>"

definition prod_env :: cap_env where
  "prod_env = \<lparr> ce_node_env = ''production'', ce_allow_planned = False, ce_base_url = None \<rparr>"

theorem overrides_never_unlock_witness:
  "(case resolveCapability ''openai.responses.create'' [sample_override] of Inl _ \<Rightarrow> False
    | Inr rc \<Rightarrow> rc_status rc = Experimental \<and> map ef_level (rc_facets rc) = [2, 1] \<and>
        assertCapabilityExecutable (\<lambda>_. None) ''openai.responses.create'' (rc_status rc) prod_env \<noteq> Inr ())"
proof -
  have v: "(case resolveCapability ''openai.responses.create'' [sample_override] of Inl _ \<Rightarrow> False
    | Inr rc \<Rightarrow> rc_status rc = Experimental \<and> map ef_level (rc_facets rc) = [2, 1] \<and>
        fc_id ((cap_facets (rc_capability rc)) ! 1) = ''final_hash'' \<and> length (cap_facets (rc_capability rc)) = 2)"
    by code_simp
  then obtain rc where rc: "resolveCapability ''openai.responses.create'' [sample_override] = Inr rc"
    "rc_status rc = Experimental" "map ef_level (rc_facets rc) = [2, 1]"
    "fc_id ((cap_facets (rc_capability rc)) ! 1) = ''final_hash''" "length (cap_facets (rc_capability rc)) = 2"
    by (auto split: sum.splits)
  have "cap_facets (rc_capability rc) ! 1 \<in> set (cap_facets (rc_capability rc))" using rc(5) by (intro nth_mem) simp
  with rc(4) have "ov_facet sample_override \<in> fc_id ` set (cap_facets (rc_capability rc))"
    by (metis image_eqI sample_override_def override_row.select_convs(1))
  moreover have "filter (\<lambda>o'. ov_status o' = None) [sample_override] = []" "sample_override \<in> set [sample_override]"
    by (simp_all add: sample_override_def)
  ultimately have "assertCapabilityExecutable (\<lambda>_. None) ''openai.responses.create'' (rc_status rc) prod_env \<noteq> Inr ()"
    using overrides_never_unlock [OF rc(1), of "\<lambda>_. None" prod_env sample_override] by blast
  with rc show ?thesis by simp
qed

end
