(* ===== verification/Native_Policy.thy ===== *)
theory Native_Policy
  imports Governance "HOL-Library.AList"
begin

text \<open>
  The provider surfaces (\<open>packages/provider-anthropic\<close>, \<open>packages/provider-openai\<close>): the tool
  classifiers and their hooks, the beta-header handlers, the extraction of the text that is scanned,
  the outbound headers, and the decision of the three governed handlers up to the forward. A request
  body is the value \<open>JSON.parse\<close> gives, or none where it throws.
\<close>

section \<open>JavaScript values\<close>

datatype js_error = Type_error

text \<open>\<open>v[k]\<close> on an object; every other value read here has no such property.\<close>

fun jget :: "jsval \<Rightarrow> string \<Rightarrow> jsval" where
  "jget (JObj ps) k = (case map_of ps k of None \<Rightarrow> JUndef | Some v \<Rightarrow> v)"
| "jget _ k = JUndef"

text \<open>\<open>k in v\<close> throws where \<open>v\<close> is not an object.\<close>

fun has_prop :: "string \<Rightarrow> jsval \<Rightarrow> js_error + bool" where
  "has_prop k (JObj ps) = Inr (map_of ps k \<noteq> None)"
| "has_prop k (JArr vs) = Inr False"
| "has_prop k JFun = Inr False"
| "has_prop k _ = Inl Type_error"

fun is_object :: "jsval \<Rightarrow> bool" where
  "is_object (JObj ps) = True"
| "is_object (JArr vs) = True"
| "is_object _ = False"

fun is_array :: "jsval \<Rightarrow> bool" where
  "is_array (JArr vs) = True"
| "is_array _ = False"

fun elements :: "jsval \<Rightarrow> jsval list" where
  "elements (JArr vs) = vs"
| "elements _ = []"

fun str_value :: "jsval \<Rightarrow> string option" where
  "str_value (JStr s) = Some s"
| "str_value _ = None"

lemma size_jget: "size (jget v k) \<le> size v"
proof (cases v)
  case (JObj ps)
  show ?thesis
  proof (cases "map_of ps k")
    case (Some x)
    then have "size x < size (JObj ps)" by (intro size_obj_item) (rule map_of_SomeD)
    with JObj Some show ?thesis by simp
  qed (simp add: JObj)
qed simp_all

section \<open>Tool classification\<close>

datatype anthropic_class =
    A_client_defined | A_text_editor | A_bash | A_web_search | A_code_execution | A_computer_use | A_typed_unknown

fun anthropic_text :: "anthropic_class \<Rightarrow> string" where
  "anthropic_text A_client_defined = ''client_defined''"
| "anthropic_text A_text_editor = ''anthropic_defined_client_executed_text_editor''"
| "anthropic_text A_bash = ''anthropic_defined_client_executed_bash''"
| "anthropic_text A_web_search = ''anthropic_provider_hosted_web_search''"
| "anthropic_text A_code_execution = ''anthropic_provider_hosted_code_execution''"
| "anthropic_text A_computer_use = ''anthropic_provider_hosted_computer_use''"
| "anthropic_text A_typed_unknown = ''anthropic_typed_unknown''"

text \<open>The pattern \<open>^<prefix>\d{8}$\<close>.\<close>

definition dated :: "string \<Rightarrow> string \<Rightarrow> bool" where
  "dated pre s = (take (length pre) s = pre \<and> length (drop (length pre) s) = 8 \<and> list_all is_digit (drop (length pre) s))"

definition ANTHROPIC_KNOWN_TYPED_PATTERNS :: "(string \<times> anthropic_class) list" where
  "ANTHROPIC_KNOWN_TYPED_PATTERNS =
     [(''text_editor_'', A_text_editor), (''bash_'', A_bash), (''web_search_'', A_web_search),
      (''code_execution_'', A_code_execution), (''computer_'', A_computer_use)]"

definition classifyAnthropicTool :: "jsval \<Rightarrow> js_error + anthropic_class" where
  "classifyAnthropicTool tool =
     bindE (has_prop ''type'' tool) (\<lambda>present.
       if \<not> present then Inr A_client_defined
       else (case jget tool ''type'' of
           JUndef \<Rightarrow> Inr A_client_defined
         | JStr s \<Rightarrow>
             if trim s = [] then Inr A_typed_unknown
             else if s = ''custom'' then Inr A_client_defined
             else (case find (\<lambda>(p, c). dated p s) ANTHROPIC_KNOWN_TYPED_PATTERNS of
                 Some (p, c) \<Rightarrow> Inr c
               | None \<Rightarrow> Inr A_typed_unknown)
         | _ \<Rightarrow> Inr A_typed_unknown))"

text \<open>A decision: the class, the block reason where the tool is blocked, and the risk it contributes.\<close>

record 'c tool_decision =
  td_class :: 'c
  td_block :: "string option"
  td_risk :: risk_class

definition decideAnthropicTool :: "jsval \<Rightarrow> js_error + anthropic_class tool_decision" where
  "decideAnthropicTool tool =
     bindE (classifyAnthropicTool tool) (\<lambda>c. Inr (case c of
         A_client_defined \<Rightarrow> \<lparr> td_class = c, td_block = None, td_risk = Risk_B \<rparr>
       | A_text_editor \<Rightarrow> \<lparr> td_class = c, td_block = None, td_risk = Risk_C \<rparr>
       | A_bash \<Rightarrow> \<lparr> td_class = c, td_block = None, td_risk = Risk_D \<rparr>
       | A_web_search \<Rightarrow> \<lparr> td_class = c, td_block = None, td_risk = Risk_C \<rparr>
       | A_code_execution \<Rightarrow> \<lparr> td_class = c, td_block = None, td_risk = Risk_C \<rparr>
       | A_computer_use \<Rightarrow> \<lparr> td_class = c, td_block = Some ''capability_blocked_via_token'', td_risk = Risk_D \<rparr>
       | A_typed_unknown \<Rightarrow> \<lparr> td_class = c, td_block = None, td_risk = Risk_C \<rparr>))"

datatype openai_class =
    O_function_responses | O_function_chat_completions | O_web_search | O_file_search | O_tool_search
  | O_code_interpreter | O_computer_use | O_hosted_shell | O_apply_patch | O_mcp | O_typed_unknown

datatype surface = Responses | Chat_completions

fun openai_text :: "openai_class \<Rightarrow> string" where
  "openai_text O_function_responses = ''function_responses''"
| "openai_text O_function_chat_completions = ''function_chat_completions''"
| "openai_text O_web_search = ''openai_provider_hosted_web_search''"
| "openai_text O_file_search = ''openai_provider_hosted_file_search''"
| "openai_text O_tool_search = ''openai_provider_hosted_tool_search''"
| "openai_text O_code_interpreter = ''openai_provider_hosted_code_interpreter''"
| "openai_text O_computer_use = ''openai_provider_hosted_computer_use''"
| "openai_text O_hosted_shell = ''openai_provider_hosted_hosted_shell''"
| "openai_text O_apply_patch = ''openai_provider_hosted_apply_patch''"
| "openai_text O_mcp = ''openai_provider_hosted_mcp''"
| "openai_text O_typed_unknown = ''openai_typed_unknown''"

definition OPENAI_KNOWN_TYPED_PATTERNS :: "(string list \<times> openai_class) list" where
  "OPENAI_KNOWN_TYPED_PATTERNS =
     [([''web_search'', ''web_search_preview''], O_web_search), ([''file_search''], O_file_search),
      ([''tool_search''], O_tool_search), ([''code_interpreter''], O_code_interpreter),
      ([''computer_use_preview''], O_computer_use), ([''hosted_shell'', ''shell''], O_hosted_shell),
      ([''apply_patch''], O_apply_patch), ([''mcp''], O_mcp)]"

definition classifyOpenAITool :: "jsval \<Rightarrow> surface \<Rightarrow> js_error + openai_class" where
  "classifyOpenAITool tool sf =
     bindE (has_prop ''type'' tool) (\<lambda>present.
       if \<not> present then Inr O_typed_unknown
       else (case jget tool ''type'' of
           JStr s \<Rightarrow>
             if trim s = [] then Inr O_typed_unknown
             else if s = ''function'' then
               Inr (if sf = Responses then O_function_responses else O_function_chat_completions)
             else if sf = Chat_completions then Inr O_typed_unknown
             else (case find (\<lambda>(ps, c). s \<in> set ps) OPENAI_KNOWN_TYPED_PATTERNS of
                 Some (ps, c) \<Rightarrow> Inr c
               | None \<Rightarrow> Inr O_typed_unknown)
         | _ \<Rightarrow> Inr O_typed_unknown))"

definition decideOpenAITool :: "surface \<Rightarrow> jsval \<Rightarrow> js_error + openai_class tool_decision" where
  "decideOpenAITool sf tool =
     bindE (classifyOpenAITool tool sf) (\<lambda>c. Inr (case c of
         O_function_responses \<Rightarrow> \<lparr> td_class = c, td_block = None, td_risk = Risk_C \<rparr>
       | O_function_chat_completions \<Rightarrow> \<lparr> td_class = c, td_block = None, td_risk = Risk_C \<rparr>
       | O_web_search \<Rightarrow> \<lparr> td_class = c, td_block = None, td_risk = Risk_C \<rparr>
       | O_file_search \<Rightarrow> \<lparr> td_class = c, td_block = None, td_risk = Risk_B \<rparr>
       | O_tool_search \<Rightarrow> \<lparr> td_class = c, td_block = None, td_risk = Risk_B \<rparr>
       | O_code_interpreter \<Rightarrow> \<lparr> td_class = c, td_block = None, td_risk = Risk_C \<rparr>
       | O_computer_use \<Rightarrow> \<lparr> td_class = c, td_block = Some ''capability_blocked_via_token'', td_risk = Risk_D \<rparr>
       | O_hosted_shell \<Rightarrow> \<lparr> td_class = c, td_block = None, td_risk = Risk_D \<rparr>
       | O_apply_patch \<Rightarrow> \<lparr> td_class = c, td_block = None, td_risk = Risk_C \<rparr>
       | O_mcp \<Rightarrow> \<lparr> td_class = c, td_block = None, td_risk = Risk_D \<rparr>
       | O_typed_unknown \<Rightarrow> \<lparr> td_class = c, td_block = None, td_risk = Risk_C \<rparr>))"

section \<open>The hooks\<close>

record tool_entry =
  te_index :: nat
  te_type :: "string option"
  te_class :: string
  te_risk :: risk_class
  te_allowed :: bool

datatype observed_type = Missing | Null_type | Empty_string | Other_typed_unknown

record blocked_entry =
  bk_index :: nat
  bk_type :: "string option"
  bk_observed :: observed_type
  bk_class :: string
  bk_reason :: string

datatype hook_result = Hook_allow "tool_entry list" | Hook_block "blocked_entry list" "tool_entry list"

fun observeToolType :: "jsval \<Rightarrow> observed_type" where
  "observeToolType JUndef = Missing"
| "observeToolType JNull = Null_type"
| "observeToolType (JStr s) = (if s = [] then Empty_string else Other_typed_unknown)"
| "observeToolType _ = Other_typed_unknown"

text \<open>\<open>tools[i] ?? {}\<close>.\<close>

fun or_empty :: "jsval \<Rightarrow> jsval" where
  "or_empty JNull = JObj []"
| "or_empty JUndef = JObj []"
| "or_empty v = v"

text \<open>The loop of a hook; the two sources differ in the classifier alone.\<close>

fun hook_loop ::
  "(jsval \<Rightarrow> js_error + 'c tool_decision) \<Rightarrow> ('c \<Rightarrow> string) \<Rightarrow> nat \<Rightarrow> jsval list \<Rightarrow>
     js_error + tool_entry list \<times> blocked_entry list" where
  "hook_loop decide name_of i [] = Inr ([], [])"
| "hook_loop decide name_of i (v # vs) =
     (let tool = or_empty v; ty = jget tool ''type'' in
      bindE (decide tool) (\<lambda>d.
      bindE (hook_loop decide name_of (Suc i) vs) (\<lambda>(es, bs). Inr
        (\<lparr> te_index = i, te_type = str_value ty, te_class = name_of (td_class d), te_risk = td_risk d,
           te_allowed = (td_block d = None) \<rparr> # es,
         (case td_block d of None \<Rightarrow> bs
          | Some reason \<Rightarrow> \<lparr> bk_index = i, bk_type = str_value ty, bk_observed = observeToolType ty,
              bk_class = name_of (td_class d), bk_reason = reason \<rparr> # bs)))))"

definition hook_of :: "(jsval \<Rightarrow> js_error + 'c tool_decision) \<Rightarrow> ('c \<Rightarrow> string) \<Rightarrow> jsval list \<Rightarrow> js_error + hook_result" where
  "hook_of decide name_of tools =
     bindE (hook_loop decide name_of 0 tools) (\<lambda>(es, bs). Inr (if bs \<noteq> [] then Hook_block bs es else Hook_allow es))"

definition classifyTools :: "jsval list \<Rightarrow> js_error + hook_result" where
  "classifyTools tools = hook_of decideAnthropicTool anthropic_text tools"

definition classifyOpenAITools :: "surface \<Rightarrow> jsval list \<Rightarrow> js_error + hook_result" where
  "classifyOpenAITools sf tools = hook_of (decideOpenAITool sf) openai_text tools"

section \<open>What the hooks rely on\<close>

text \<open>A value with no properties of its own: \<open>in\<close> throws on it.\<close>

fun primitive :: "jsval \<Rightarrow> bool" where
  "primitive (JBool b) = True"
| "primitive (JNum n) = True"
| "primitive (JStr s) = True"
| "primitive (JBigInt i) = True"
| "primitive _ = False"

locale tool_classifier =
  fixes decide :: "jsval \<Rightarrow> js_error + 'c tool_decision" and name_of :: "'c \<Rightarrow> string"
  assumes decides: "\<not> primitive v \<Longrightarrow> \<exists>d. decide (or_empty v) = Inr d"
    and throws: "primitive v \<Longrightarrow> decide v = Inl Type_error"
    and blocks: "decide v = Inr d \<Longrightarrow> td_block d \<noteq> None \<longleftrightarrow> computer_use (Some (name_of (td_class d)))"
    and weighs: "decide v = Inr d \<Longrightarrow> Risk_B \<le> td_risk d \<and> td_risk d \<le> Risk_D \<and> (td_block d \<noteq> None \<longrightarrow> td_risk d = Risk_D)"
begin

definition decided :: "jsval \<Rightarrow> 'c tool_decision" where
  "decided v = (case decide (or_empty v) of Inr d \<Rightarrow> d | Inl e \<Rightarrow> undefined)"

lemma decided: "\<not> primitive v \<Longrightarrow> decide (or_empty v) = Inr (decided v)"
  using decides [of v] by (auto simp: decided_def)

lemma loop_throws: "v \<in> set vs \<Longrightarrow> primitive v \<Longrightarrow> hook_loop decide name_of i vs = Inl Type_error"
proof (induction vs arbitrary: i)
  case (Cons w ws)
  show ?case
  proof (cases "primitive w")
    case True
    then have "decide (or_empty w) = Inl Type_error" by (cases w) (auto intro: throws)
    then show ?thesis by (simp add: Let_def)
  next
    case False
    with Cons.prems have "v \<in> set ws" by auto
    with Cons.IH [OF this Cons.prems(2), of "Suc i"] decided [OF False] show ?thesis by (simp add: Let_def)
  qed
qed simp

lemma loop_returns:
  "filter primitive vs = [] \<Longrightarrow> \<exists>es bs. hook_loop decide name_of i vs = Inr (es, bs) \<and>
     map te_index es = [i..<i + length vs] \<and> map te_risk es = map (\<lambda>v. td_risk (decided v)) vs \<and>
     map te_class es = map (\<lambda>v. name_of (td_class (decided v))) vs \<and>
     map te_allowed es = map (\<lambda>v. td_block (decided v) = None) vs \<and>
     map bk_index bs = map te_index (filter (\<lambda>e. \<not> te_allowed e) es)"
proof (induction vs arbitrary: i)
  case (Cons v vs)
  then have p: "\<not> primitive v" "filter primitive vs = []" by (auto split: if_splits)
  from Cons.IH [OF p(2), of "Suc i"] obtain es bs where ih: "hook_loop decide name_of (Suc i) vs = Inr (es, bs)"
    "map te_index es = [Suc i..<Suc i + length vs]" "map te_risk es = map (\<lambda>v. td_risk (decided v)) vs"
    "map te_class es = map (\<lambda>v. name_of (td_class (decided v))) vs"
    "map te_allowed es = map (\<lambda>v. td_block (decided v) = None) vs"
    "map bk_index bs = map te_index (filter (\<lambda>e. \<not> te_allowed e) es)" by blast
  have upt_eq: "[i..<i + length (v # vs)] = i # [Suc i..<Suc i + length vs]" by (simp add: upt_rec)
  show ?case
    unfolding upt_eq using ih decided [OF p(1)] by (cases "td_block (decided v)") (simp_all add: Let_def)
qed simp

lemma allowed_iff: "\<not> primitive v \<Longrightarrow> td_block (decided v) = None \<longleftrightarrow> \<not> computer_use (Some (name_of (td_class (decided v))))"
  using blocks [OF decided] by blast

lemma hook_cases:
  "(if filter primitive tools \<noteq> [] then hook_of decide name_of tools = Inl Type_error
    else \<exists>es bs. hook_of decide name_of tools = Inr (if bs \<noteq> [] then Hook_block bs es else Hook_allow es) \<and>
      map te_index es = [0..<length tools] \<and>
      filter (\<lambda>e. te_allowed e = computer_use (Some (te_class e))) es = [] \<and>
      filter (\<lambda>e. te_risk e = Risk_A \<or> te_risk e = Risk_E \<or> computer_use (Some (te_class e)) \<and> te_risk e \<noteq> Risk_D) es = [] \<and>
      map bk_index bs = map te_index (filter (\<lambda>e. computer_use (Some (te_class e))) es))"
proof (cases "filter primitive tools = []")
  case False
  then obtain v where "v \<in> set tools" "primitive v" by (auto simp: filter_empty_conv)
  then have "hook_of decide name_of tools = Inl Type_error" by (simp add: hook_of_def loop_throws)
  with False show ?thesis by simp
next
  case True
  from loop_returns [OF this, of 0] obtain es bs where l: "hook_loop decide name_of 0 tools = Inr (es, bs)"
    "map te_index es = [0..<length tools]" "map te_risk es = map (\<lambda>v. td_risk (decided v)) tools"
    "map te_class es = map (\<lambda>v. name_of (td_class (decided v))) tools"
    "map te_allowed es = map (\<lambda>v. td_block (decided v) = None) tools"
    "map bk_index bs = map te_index (filter (\<lambda>e. \<not> te_allowed e) es)" by auto
  have len: "length es = length tools" using l(3) by (metis length_map)
  have each: "te_risk e = td_risk (decided v) \<and> te_class e = name_of (td_class (decided v)) \<and> te_allowed e = (td_block (decided v) = None)"
    if "k < length tools" "e = es ! k" "v = tools ! k" for k e v
    using that len arg_cong [OF l(3), of "\<lambda>xs. xs ! k"] arg_cong [OF l(4), of "\<lambda>xs. xs ! k"]
      arg_cong [OF l(5), of "\<lambda>xs. xs ! k"] by simp
  have al: "te_allowed e = (\<not> computer_use (Some (te_class e)))" "te_risk e \<noteq> Risk_A" "te_risk e \<noteq> Risk_E"
      "computer_use (Some (te_class e)) \<Longrightarrow> te_risk e = Risk_D" if e: "e \<in> set es" for e
  proof -
    from e obtain k where k: "k < length tools" "e = es ! k" using len by (metis in_set_conv_nth)
    have np: "\<not> primitive (tools ! k)" using True k(1) by (auto simp: filter_empty_conv)
    note x = each [OF k refl] and y = allowed_iff [OF np] and z = weighs [OF decided [OF np]]
    show "te_allowed e = (\<not> computer_use (Some (te_class e)))" using x y by simp
    show "te_risk e \<noteq> Risk_A" "te_risk e \<noteq> Risk_E" using x z by (auto simp: less_eq_risk_class_def)
    show "te_risk e = Risk_D" if "computer_use (Some (te_class e))" using x y z that by simp
  qed
  have f: "filter (\<lambda>e. \<not> te_allowed e) es = filter (\<lambda>e. computer_use (Some (te_class e))) es"
    by (rule filter_cong) (simp_all add: al(1))
  have "filter (\<lambda>e. te_allowed e = computer_use (Some (te_class e))) es = []" using al(1) by (auto simp: filter_empty_conv)
  moreover have "filter (\<lambda>e. te_risk e = Risk_A \<or> te_risk e = Risk_E \<or> computer_use (Some (te_class e)) \<and> te_risk e \<noteq> Risk_D) es = []"
    using al(2-4) by (auto simp: filter_empty_conv)
  ultimately show ?thesis using True l(1,2,6) f by (auto simp: hook_of_def)
qed

end

lemma anthropic_contract:
  "\<not> primitive v \<Longrightarrow> \<exists>c. classifyAnthropicTool (or_empty v) = Inr c"
  "primitive v \<Longrightarrow> classifyAnthropicTool v = Inl Type_error"
  by (cases v; force simp: classifyAnthropicTool_def bindE_def split: jsval.splits option.splits)
    (cases v; simp add: classifyAnthropicTool_def)

lemma openai_contract:
  "\<not> primitive v \<Longrightarrow> \<exists>c. classifyOpenAITool (or_empty v) sf = Inr c"
  "primitive v \<Longrightarrow> classifyOpenAITool v sf = Inl Type_error"
  by (cases v; force simp: classifyOpenAITool_def bindE_def split: jsval.splits option.splits)
    (cases v; simp add: classifyOpenAITool_def)

interpretation anthropic: tool_classifier decideAnthropicTool anthropic_text
proof unfold_locales
  show "\<exists>d. decideAnthropicTool (or_empty v) = Inr d" if "\<not> primitive v" for v
    using anthropic_contract(1) [OF that] by (auto simp: decideAnthropicTool_def)
  show "decideAnthropicTool v = Inl Type_error" if "primitive v" for v
    using anthropic_contract(2) [OF that] by (simp add: decideAnthropicTool_def)
  fix v d assume d: "decideAnthropicTool v = Inr d"
  then obtain c where c: "classifyAnthropicTool v = Inr c" by (auto simp: decideAnthropicTool_def bindE_Inr_iff)
  show "td_block d \<noteq> None \<longleftrightarrow> computer_use (Some (anthropic_text (td_class d)))"
    "Risk_B \<le> td_risk d \<and> td_risk d \<le> Risk_D \<and> (td_block d \<noteq> None \<longrightarrow> td_risk d = Risk_D)"
    using d by (cases c; auto simp: c decideAnthropicTool_def computer_use_def less_eq_risk_class_def)+
qed

interpretation openai: tool_classifier "decideOpenAITool sf" openai_text for sf
proof unfold_locales
  show "\<exists>d. decideOpenAITool sf (or_empty v) = Inr d" if "\<not> primitive v" for v
    using openai_contract(1) [OF that, of sf] by (auto simp: decideOpenAITool_def)
  show "decideOpenAITool sf v = Inl Type_error" if "primitive v" for v
    using openai_contract(2) [OF that, of sf] by (simp add: decideOpenAITool_def)
  fix v d assume d: "decideOpenAITool sf v = Inr d"
  then obtain c where c: "classifyOpenAITool v sf = Inr c" by (auto simp: decideOpenAITool_def bindE_Inr_iff)
  show "td_block d \<noteq> None \<longleftrightarrow> computer_use (Some (openai_text (td_class d)))"
    "Risk_B \<le> td_risk d \<and> td_risk d \<le> Risk_D \<and> (td_block d \<noteq> None \<longrightarrow> td_risk d = Risk_D)"
    using d by (cases c; auto simp: c decideOpenAITool_def computer_use_def less_eq_risk_class_def)+
qed

text \<open>The entries and the blocked tools of a hook's answer.\<close>

fun hook_entries :: "hook_result \<Rightarrow> tool_entry list" where
  "hook_entries (Hook_allow es) = es"
| "hook_entries (Hook_block bs es) = es"

fun hook_blocked :: "hook_result \<Rightarrow> blocked_entry list" where
  "hook_blocked (Hook_allow es) = []"
| "hook_blocked (Hook_block bs es) = bs"

definition hosted_computer :: "tool_entry \<Rightarrow> bool" where
  "hosted_computer e = computer_use (Some (te_class e))"

definition hook_sound :: "jsval list \<Rightarrow> hook_result \<Rightarrow> bool" where
  "hook_sound tools h \<longleftrightarrow>
     map te_index (hook_entries h) = [0..<length tools] \<and>
     filter (\<lambda>e. te_allowed e = hosted_computer e) (hook_entries h) = [] \<and>
     filter (\<lambda>e. te_risk e = Risk_A \<or> te_risk e = Risk_E \<or> hosted_computer e \<and> te_risk e \<noteq> Risk_D) (hook_entries h) = [] \<and>
     map bk_index (hook_blocked h) = map te_index (filter hosted_computer (hook_entries h)) \<and>
     (case h of Hook_allow es \<Rightarrow> True | Hook_block bs es \<Rightarrow> bs \<noteq> [])"

lemma hook_soundI:
  assumes "if filter primitive tools \<noteq> [] then r = Inl Type_error
    else \<exists>es bs. r = Inr (if bs \<noteq> [] then Hook_block bs es else Hook_allow es) \<and>
      map te_index es = [0..<length tools] \<and>
      filter (\<lambda>e. te_allowed e = computer_use (Some (te_class e))) es = [] \<and>
      filter (\<lambda>e. te_risk e = Risk_A \<or> te_risk e = Risk_E \<or> computer_use (Some (te_class e)) \<and> te_risk e \<noteq> Risk_D) es = [] \<and>
      map bk_index bs = map te_index (filter (\<lambda>e. computer_use (Some (te_class e))) es)"
  shows "if filter primitive tools \<noteq> [] then r = Inl Type_error else \<exists>h. r = Inr h \<and> hook_sound tools h"
proof (cases "filter primitive tools = []")
  case True
  with assms obtain es bs where r: "r = Inr (if bs \<noteq> [] then Hook_block bs es else Hook_allow es)"
    "map te_index es = [0..<length tools]" "filter (\<lambda>e. te_allowed e = computer_use (Some (te_class e))) es = []"
    "filter (\<lambda>e. te_risk e = Risk_A \<or> te_risk e = Risk_E \<or> computer_use (Some (te_class e)) \<and> te_risk e \<noteq> Risk_D) es = []"
    "map bk_index bs = map te_index (filter (\<lambda>e. computer_use (Some (te_class e))) es)" by auto
  have "hook_sound tools (if bs \<noteq> [] then Hook_block bs es else Hook_allow es)"
    using r(2-5) arg_cong [OF r(5), of length] by (auto simp: hook_sound_def hosted_computer_def [abs_def])
  with r(1) True show ?thesis by (auto simp del: if_split_asm)
qed (use assms in auto)

text \<open>
  Both providers' hooks block exactly the hosted computer-use tools. Where no entry of the
  request's tools is a primitive value, every tool gets one classification in order, with a class
  between B and D, and the blocked list holds exactly the tools classified as computer use, each of
  class D. An entry that is a boolean, a number or a string makes the hook throw: no classification
  and no audit event is produced for it.
\<close>

theorem tool_block_is_computer_use:
  "if filter primitive tools \<noteq> [] then
     classifyTools tools = Inl Type_error \<and> classifyOpenAITools sf tools = Inl Type_error
   else (\<exists>h. classifyTools tools = Inr h \<and> hook_sound tools h) \<and>
     (\<exists>h. classifyOpenAITools sf tools = Inr h \<and> hook_sound tools h)"
  using hook_soundI [OF anthropic.hook_cases [of tools]] hook_soundI [OF openai.hook_cases [of tools sf]]
  by (auto simp: classifyTools_def classifyOpenAITools_def)

section \<open>The text that is scanned\<close>

text \<open>A segment: its text and its path.\<close>

type_synonym segment = "string \<times> string"

definition item_path :: "string \<Rightarrow> nat \<Rightarrow> string \<Rightarrow> string" where
  "item_path pre i field = pre @ ''['' @ dec_of i @ '']'' @ field"

definition typed :: "jsval \<Rightarrow> string \<Rightarrow> bool" where
  "typed v ty \<longleftrightarrow> jget v ''type'' = JStr ty"

definition text_seg :: "jsval \<Rightarrow> string \<Rightarrow> string \<Rightarrow> segment list" where
  "text_seg v field path = (case str_value (jget v field) of Some s \<Rightarrow> [(s, path)] | None \<Rightarrow> [])"

function (sequential) pushBlocks :: "jsval \<Rightarrow> string \<Rightarrow> segment list"
  and pushBlock_items :: "nat \<Rightarrow> jsval list \<Rightarrow> string \<Rightarrow> segment list" where
  "pushBlocks (JStr s) p = [(s, p)]"
| "pushBlocks (JArr bs) p = pushBlock_items 0 bs p"
| "pushBlocks _ p = []"
| "pushBlock_items i [] p = []"
| "pushBlock_items i (b # bs) p =
     (if is_object b then
        (if typed b ''text'' then text_seg b ''text'' (item_path p i ''.text'') else []) @
        (if typed b ''tool_result'' then text_seg b ''content'' (item_path p i ''.content'') else []) @
        (if typed b ''tool_result'' \<and> is_array (jget b ''content'')
         then pushBlocks (jget b ''content'') (item_path p i ''.content'') else [])
      else []) @ pushBlock_items (Suc i) bs p"
  by pat_completeness auto

termination
  by (relation "measure (\<lambda>x. case x of Inl (v, p) \<Rightarrow> size v | Inr (i, bs, p) \<Rightarrow> size_list size bs)")
    (auto simp: less_Suc_eq_le intro: order.trans [OF size_jget])

definition extractAnthropicText :: "jsval \<Rightarrow> segment list" where
  "extractAnthropicText body =
     (if \<not> is_object body then []
      else (case jget body ''system'' of
              JStr s \<Rightarrow> [(s, ''system'')]
            | JArr bs \<Rightarrow> pushBlocks (JArr bs) ''system''
            | _ \<Rightarrow> []) @
           concat (map (\<lambda>(i, m). if is_object m then pushBlocks (jget m ''content'') (item_path ''messages'' i ''.content'') else [])
             (enumerate 0 (elements (jget body ''messages'')))))"

definition isMessageItem :: "jsval \<Rightarrow> bool" where
  "isMessageItem item \<longleftrightarrow> typed item ''message'' \<or> jget item ''type'' = JUndef \<and> str_value (jget item ''role'') \<noteq> None"

function (sequential) pushParts :: "jsval \<Rightarrow> string \<Rightarrow> segment list"
  and pushPart_items :: "nat \<Rightarrow> jsval list \<Rightarrow> string \<Rightarrow> segment list" where
  "pushParts (JStr s) p = [(s, p)]"
| "pushParts (JArr bs) p = pushPart_items 0 bs p"
| "pushParts _ p = []"
| "pushPart_items i [] p = []"
| "pushPart_items i (b # bs) p =
     (if is_object b then
        (if typed b ''text'' then text_seg b ''text'' (item_path p i ''.text'') else []) @
        (if typed b ''input_text'' then text_seg b ''text'' (item_path p i ''.text'') else []) @
        (if typed b ''output_text'' then text_seg b ''text'' (item_path p i ''.text'') else []) @
        (if isMessageItem b then pushParts (jget b ''content'') (item_path p i ''.content'') else [])
      else []) @ pushPart_items (Suc i) bs p"
  by pat_completeness auto

termination
  by (relation "measure (\<lambda>x. case x of Inl (v, p) \<Rightarrow> size v | Inr (i, bs, p) \<Rightarrow> size_list size bs)")
    (auto simp: less_Suc_eq_le intro: order.trans [OF size_jget])

definition extractOpenAIResponsesText :: "jsval \<Rightarrow> segment list" where
  "extractOpenAIResponsesText body =
     (if \<not> is_object body then []
      else text_seg body ''instructions'' ''instructions'' @
        (case jget body ''input'' of
           JStr s \<Rightarrow> [(s, ''input'')]
         | JArr ps \<Rightarrow> pushParts (JArr ps) ''input''
         | _ \<Rightarrow> []))"

definition extractOpenAIChatCompletionsText :: "jsval \<Rightarrow> segment list" where
  "extractOpenAIChatCompletionsText body =
     (if \<not> is_object body then []
      else concat (map (\<lambda>(i, m). if is_object m then
             (case jget m ''content'' of
                JStr s \<Rightarrow> [(s, item_path ''messages'' i ''.content'')]
              | JArr ps \<Rightarrow> pushParts (JArr ps) (item_path ''messages'' i ''.content'')
              | _ \<Rightarrow> [])
           else []) (enumerate 0 (elements (jget body ''messages'')))))"

lemma jget_is_object: "jget v k \<noteq> JUndef \<Longrightarrow> is_object v"
  by (cases v) auto

lemma elements_object: "m \<in> set (elements (jget v k)) \<Longrightarrow> is_object v"
  by (cases v) auto

lemma text_segI: "jget v field = JStr s \<Longrightarrow> (s, path) \<in> set (text_seg v field path)"
  by (simp add: text_seg_def)

lemma pushPart_items_append:
  "pushPart_items i (xs @ ys) p = pushPart_items i xs p @ pushPart_items (i + length xs) ys p"
  by (induction xs arbitrary: i) auto

lemma pushBlock_items_append:
  "pushBlock_items i (xs @ ys) p = pushBlock_items i xs p @ pushBlock_items (i + length xs) ys p"
  by (induction xs arbitrary: i) auto

lemma part_scanned:
  assumes "b \<in> set bs" "jget b ''text'' = JStr s" "jget b ''type'' \<in> JStr ` {''text'', ''input_text'', ''output_text''}"
  shows "s \<in> fst ` set (pushPart_items i bs p)"
proof -
  from assms(1) obtain xs ys where bs: "bs = xs @ b # ys" by (auto dest: split_list)
  have "is_object b" using assms(2) by (intro jget_is_object [of b "''text''"]) simp
  then have "(s, item_path p (i + length xs) ''.text'') \<in> set (pushPart_items i bs p)"
    using assms(2,3) by (auto simp: bs pushPart_items_append typed_def text_seg_def)
  then show ?thesis by force
qed

lemma message_scanned:
  assumes "b \<in> set bs" "isMessageItem b" "is_object b"
  shows "\<exists>q. set (pushParts (jget b ''content'') q) \<subseteq> set (pushPart_items i bs p)"
proof -
  from assms(1) obtain xs ys where bs: "bs = xs @ b # ys" by (auto dest: split_list)
  show ?thesis
    by (rule exI [of _ "item_path p (i + length xs) ''.content''"]) (auto simp: bs pushPart_items_append assms(2,3))
qed

lemma block_scanned:
  assumes "b \<in> set bs" "jget b ''text'' = JStr s" "typed b ''text''"
  shows "s \<in> fst ` set (pushBlock_items i bs p)"
proof -
  from assms(1) obtain xs ys where bs: "bs = xs @ b # ys" by (auto dest: split_list)
  have "is_object b" using assms(2) by (intro jget_is_object [of b "''text''"]) simp
  then have "(s, item_path p (i + length xs) ''.text'') \<in> set (pushBlock_items i bs p)"
    using assms(2,3) by (auto simp: bs pushBlock_items_append text_seg_def)
  then show ?thesis by force
qed

text \<open>The texts a message carries: its string content, or the text parts of its list content.\<close>

definition message_texts :: "string list \<Rightarrow> jsval \<Rightarrow> string list" where
  "message_texts types m =
     (case jget m ''content'' of
        JStr s \<Rightarrow> [s]
      | JArr ps \<Rightarrow> concat (map (\<lambda>b. case (jget b ''type'', jget b ''text'') of
            (JStr ty, JStr s) \<Rightarrow> if ty \<in> set types then [s] else [] | _ \<Rightarrow> []) ps)
      | _ \<Rightarrow> [])"

lemma message_texts_cases:
  assumes "s \<in> set (message_texts types m)"
  obtains "jget m ''content'' = JStr s"
    | ps b ty where "jget m ''content'' = JArr ps" "b \<in> set ps" "jget b ''type'' = JStr ty" "ty \<in> set types" "jget b ''text'' = JStr s"
proof (cases "jget m ''content''")
  case (JArr ps)
  with assms obtain b where b: "b \<in> set ps"
    "s \<in> set (case (jget b ''type'', jget b ''text'') of (JStr ty, JStr s) \<Rightarrow> if ty \<in> set types then [s] else [] | _ \<Rightarrow> [])"
    by (auto simp: message_texts_def)
  then obtain ty where "jget b ''type'' = JStr ty" "ty \<in> set types" "jget b ''text'' = JStr s"
    by (cases "jget b ''type''"; cases "jget b ''text''") (auto split: if_splits)
  with JArr b(1) that(2) show ?thesis by blast
qed (use assms that(1) in \<open>auto simp: message_texts_def\<close>)

lemma message_texts_object: "s \<in> set (message_texts types m) \<Longrightarrow> is_object m"
  by (rule jget_is_object [of m "''content''"]) (auto simp: message_texts_def)

lemma parts_texts: "set (message_texts [''text'', ''input_text'', ''output_text''] m) \<subseteq> fst ` set (pushParts (jget m ''content'') q)"
  by (auto elim!: message_texts_cases intro!: part_scanned)

lemma blocks_texts: "set (message_texts [''text''] m) \<subseteq> fst ` set (pushBlocks (jget m ''content'') q)"
  by (auto elim!: message_texts_cases intro!: block_scanned simp: typed_def)

lemma concat_enumerate:
  assumes "m \<in> set ms"
  shows "\<exists>i. set (f (i, m)) \<subseteq> set (concat (map f (enumerate 0 ms)))"
proof -
  from assms obtain i where "i < length ms" "ms ! i = m" by (auto simp: in_set_conv_nth)
  then have "(i, m) \<in> set (enumerate 0 ms)" by (auto simp: in_set_enumerate_eq)
  then have "set (f (i, m)) \<subseteq> set (concat (map f (enumerate 0 ms)))" by auto
  then show ?thesis ..
qed

lemma anthropic_message_pushed:
  assumes "m \<in> set (elements (jget body ''messages''))" "is_object m"
  shows "\<exists>q. set (pushBlocks (jget m ''content'') q) \<subseteq> set (extractAnthropicText body)"
  using concat_enumerate [OF assms(1), of "\<lambda>(i, m). if is_object m then pushBlocks (jget m ''content'') (item_path ''messages'' i ''.content'') else []"]
    elements_object [OF assms(1)] assms(2)
  by (auto simp: extractAnthropicText_def simp del: set_concat)

lemma chat_message_pushed:
  assumes "m \<in> set (elements (jget body ''messages''))" "is_object m"
  shows "\<exists>q. set (pushParts (jget m ''content'') q) \<subseteq> set (extractOpenAIChatCompletionsText body)"
proof -
  have eq: "(case jget m ''content'' of JStr s \<Rightarrow> [(s, q)] | JArr ps \<Rightarrow> pushParts (JArr ps) q | _ \<Rightarrow> []) =
      pushParts (jget m ''content'') q" for m q
    by (cases "jget m ''content''") auto
  show ?thesis
    using concat_enumerate [OF assms(1), of "\<lambda>(i, m). if is_object m then pushParts (jget m ''content'') (item_path ''messages'' i ''.content'') else []"]
      elements_object [OF assms(1)] assms(2)
    unfolding extractOpenAIChatCompletionsText_def eq by (auto simp del: set_concat)
qed

lemma responses_message_pushed:
  assumes "m \<in> set (filter isMessageItem (elements (jget body ''input'')))" "is_object m"
  shows "\<exists>q. set (pushParts (jget m ''content'') q) \<subseteq> set (extractOpenAIResponsesText body)"
proof -
  from assms(1) obtain ps where ps: "jget body ''input'' = JArr ps" "m \<in> set ps" "isMessageItem m"
    by (cases "jget body ''input''") auto
  from message_scanned [OF ps(2,3) assms(2), of 0 "''input''"] obtain q where
    "set (pushParts (jget m ''content'') q) \<subseteq> set (pushPart_items 0 ps ''input'')" by blast
  moreover have "is_object body" using ps(1) by (intro jget_is_object [of body "''input''"]) simp
  ultimately have "set (pushParts (jget m ''content'') q) \<subseteq> set (extractOpenAIResponsesText body)"
    by (auto simp: extractOpenAIResponsesText_def ps(1))
  then show ?thesis ..
qed

lemma texts_of_pushed:
  assumes "is_object m \<Longrightarrow> \<exists>q. set (f q) \<subseteq> X" "\<And>q. set (message_texts types m) \<subseteq> fst ` set (f q)"
  shows "set (message_texts types m) \<subseteq> fst ` X"
proof
  fix s assume s: "s \<in> set (message_texts types m)"
  then obtain q where q: "set (f q) \<subseteq> X" using assms(1) message_texts_object by blast
  show "s \<in> fst ` X" using subsetD [OF assms(2) [of q] s] image_mono [OF q, of fst] by (rule subsetD [rotated])
qed

text \<open>
  No accepted spelling of a message hides its text from the scan: the text of every message,
  as a string or as text parts, is among the extracted segments of the Messages, the Chat Completions
  and the Responses surface. On the last, an item is a message when it is typed as one or when it has
  a role and no type.
\<close>

theorem message_text_is_scanned:
  "list_all (\<lambda>m. set (message_texts [''text''] m) \<subseteq> fst ` set (extractAnthropicText body))
     (elements (jget body ''messages'')) \<and>
   list_all (\<lambda>m. set (message_texts [''text'', ''input_text'', ''output_text''] m) \<subseteq> fst ` set (extractOpenAIChatCompletionsText body))
     (elements (jget body ''messages'')) \<and>
   list_all (\<lambda>m. set (message_texts [''text'', ''input_text'', ''output_text''] m) \<subseteq> fst ` set (extractOpenAIResponsesText body))
     (filter isMessageItem (elements (jget body ''input'')))"
  unfolding list.pred_set
  by (intro conjI ballI texts_of_pushed [OF anthropic_message_pushed blocks_texts]
      texts_of_pushed [OF chat_message_pushed parts_texts] texts_of_pushed [OF responses_message_pushed parts_texts])

section \<open>Outbound headers\<close>

text \<open>
  An inbound header object is the list of its entries, names distinct. Assigning a string to
  \<open>out['__proto__']\<close> adds no entry.
\<close>

type_synonym headers = "(string \<times> string) list"

definition HOP_BY_HOP :: "string list" where
  "HOP_BY_HOP = [''host'', ''connection'', ''content-length'', ''keep-alive'', ''transfer-encoding'', ''upgrade'',
     ''proxy-authorization'', ''proxy-authenticate'', ''te'', ''trailer'']"

definition STRIP_INBOUND_AUTH :: "string list" where
  "STRIP_INBOUND_AUTH = [''authorization'', ''x-api-key'', ''x-govai-api-key'', ''x-govai-idempotency-key'']"

definition STRIP_INBOUND_BROWSER_HOP :: "string list" where
  "STRIP_INBOUND_BROWSER_HOP = [''origin'']"

definition stripped :: "string \<Rightarrow> bool" where
  "stripped k = (lower k \<in> set HOP_BY_HOP \<or> lower k \<in> set STRIP_INBOUND_AUTH \<or> lower k \<in> set STRIP_INBOUND_BROWSER_HOP)"

definition copy_headers :: "headers \<Rightarrow> headers" where
  "copy_headers inbound = filter (\<lambda>(k, v). \<not> stripped k \<and> k \<noteq> ''__proto__'') inbound"

definition buildAnthropicHeaders :: "headers \<Rightarrow> string \<Rightarrow> headers" where
  "buildAnthropicHeaders inbound key =
     (let out = AList.update ''x-api-key'' key (copy_headers inbound) in
      if map_of out ''anthropic-version'' = None then AList.update ''anthropic-version'' ''2023-06-01'' out else out)"

definition buildOpenAIHeaders :: "headers \<Rightarrow> string \<Rightarrow> string option \<Rightarrow> headers" where
  "buildOpenAIHeaders inbound key organization =
     (let out = AList.update ''authorization'' (''Bearer '' @ key) (copy_headers inbound) in
      case organization of None \<Rightarrow> out
      | Some org \<Rightarrow> if org = [] then out else AList.update ''openai-organization'' org out)"

lemma update_absent: "map_of al k = None \<Longrightarrow> AList.update k v al = al @ [(k, v)]"
  by (induction al) (auto split: if_splits)

lemma map_of_copy: "stripped k \<Longrightarrow> map_of (copy_headers h) k = None"
  by (auto simp: copy_headers_def map_of_eq_None_iff)

lemma filter_stripped_copy [simp]: "filter (\<lambda>(k, v). stripped k) (copy_headers h) = []"
  by (auto simp: copy_headers_def filter_empty_conv)

lemma filter_update_other: "P k = P' \<Longrightarrow> \<not> P k \<Longrightarrow> filter (\<lambda>(k, v). P k) (AList.update k v al) = filter (\<lambda>(k, v). P k) al"
  by (induction al) auto

lemma stripped_names [simp]:
  "stripped ''x-api-key''" "stripped ''authorization''" "\<not> stripped ''anthropic-version''" "\<not> stripped ''openai-organization''"
  by code_simp+

text \<open>
  The only hop or credential header of a governed request that leaves for the provider is the
  one the platform sets with the resolved key: no inbound credential, platform key, idempotency key,
  hop-by-hop or origin header survives in any spelling, and every other inbound header is forwarded
  unchanged and in order, except that a configured OpenAI organization replaces an inbound one.
\<close>

theorem outbound_headers_clean:
  "filter (\<lambda>(k, v). stripped k) (buildAnthropicHeaders inbound key) = [(''x-api-key'', key)] \<and>
   filter (\<lambda>(k, v). stripped k) (buildOpenAIHeaders inbound key organization) = [(''authorization'', ''Bearer '' @ key)] \<and>
   filter (\<lambda>(k, v). \<not> stripped k \<and> k \<noteq> ''anthropic-version'') (buildAnthropicHeaders inbound key) =
     filter (\<lambda>(k, v). \<not> stripped k \<and> k \<noteq> ''__proto__'' \<and> k \<noteq> ''anthropic-version'') inbound \<and>
   filter (\<lambda>(k, v). \<not> stripped k \<and> k \<noteq> ''openai-organization'') (buildOpenAIHeaders inbound key organization) =
     filter (\<lambda>(k, v). \<not> stripped k \<and> k \<noteq> ''__proto__'' \<and> k \<noteq> ''openai-organization'') inbound \<and>
   map_of (buildAnthropicHeaders inbound key) ''anthropic-version'' =
     (case map_of inbound ''anthropic-version'' of None \<Rightarrow> Some ''2023-06-01'' | Some v \<Rightarrow> Some v) \<and>
   map_of (buildOpenAIHeaders inbound key organization) ''openai-organization'' =
     (case organization of None \<Rightarrow> map_of inbound ''openai-organization''
      | Some org \<Rightarrow> if org = [] then map_of inbound ''openai-organization'' else Some org)"
proof -
  have keep: "map_of (copy_headers h) k = map_of h k" if "\<not> stripped k" "k \<noteq> ''__proto__''" for h k
    using that by (induction h) (auto simp: copy_headers_def)
  have a: "AList.update ''x-api-key'' key (copy_headers inbound) = copy_headers inbound @ [(''x-api-key'', key)]"
    and b: "AList.update ''authorization'' v (copy_headers inbound) = copy_headers inbound @ [(''authorization'', v)]" for v
    by (simp_all add: update_absent map_of_copy)
  have f: "filter (\<lambda>(k, v). \<not> stripped k \<and> k \<noteq> n) (copy_headers inbound) =
      filter (\<lambda>(k, v). \<not> stripped k \<and> k \<noteq> ''__proto__'' \<and> k \<noteq> n) inbound" for n
    by (auto simp: copy_headers_def intro!: filter_cong)
  have g: "map_of (copy_headers inbound @ [(''x-api-key'', key)]) ''anthropic-version'' = map_of inbound ''anthropic-version''"
    by (simp add: map_add_def keep split: option.split)
  have k: "map_of (copy_headers inbound) ''openai-organization'' = map_of inbound ''openai-organization''"
    "map_of (copy_headers inbound) ''anthropic-version'' = map_of inbound ''anthropic-version''"
    by (rule keep; simp)+
  have u: "filter (\<lambda>(k, v). stripped k) (AList.update n v al) = filter (\<lambda>(k, v). stripped k) al" if "\<not> stripped n" for n v al
    using that by (induction al) auto
  have w: "filter (\<lambda>(k, v). \<not> stripped k \<and> k \<noteq> n) (AList.update n v al) = filter (\<lambda>(k, v). \<not> stripped k \<and> k \<noteq> n) al" for n v al
    by (induction al) auto
  have m: "map_of (copy_headers inbound @ [(''authorization'', v)]) ''openai-organization'' = map_of inbound ''openai-organization''" for v
    by (simp add: map_add_def k split: option.split)
  show ?thesis
    unfolding buildAnthropicHeaders_def buildOpenAIHeaders_def Let_def a b g
    by (intro conjI) (simp_all add: u w f g m k update_conv' map_add_def split: option.split)
qed

section \<open>Beta headers\<close>

datatype beta_state = Unknown_token | Verification_open | Decision_open | Override_absent | Hard_denied_state

fun beta_state_text :: "beta_state \<Rightarrow> string" where
  "beta_state_text Unknown_token = ''unknown_token''"
| "beta_state_text Verification_open = ''verification_required''"
| "beta_state_text Decision_open = ''decision_pending''"
| "beta_state_text Override_absent = ''override_absent_native_forward''"
| "beta_state_text Hard_denied_state = ''hard_denied''"

definition betaObservationMarker :: "(bytes \<Rightarrow> bytes) \<Rightarrow> beta_state \<Rightarrow> string \<Rightarrow> string" where
  "betaObservationMarker sha256 st token = ''beta:'' @ beta_state_text st @ '':sha256:'' @ hex_of (sha256 (utf8 token))"

definition observationStateFor :: "beta_resolution \<Rightarrow> beta_state option" where
  "observationStateFor r =
     (if br_allow r then None
      else if br_source r = From_unknown then Some Unknown_token
      else if br_policy r = Some Hard_denied then Some Hard_denied_state
      else if br_policy r = Some Verification_required then Some Verification_open
      else if br_policy r = Some Denied_until_decision then Some Decision_open
      else Some Override_absent)"

record beta_origin =
  bo_token :: string
  bo_source :: beta_source
  bo_override :: "string option"
  bo_policy :: beta_policy

datatype beta_result =
    Beta_allow "beta_origin list" "string option" "string list"
  | Beta_deny "string list" "string list"

definition header_tokens :: "string \<Rightarrow> string list" where
  "header_tokens h = filter (\<lambda>t. t \<noteq> []) (map trim (split_on (CHR '','') h))"

text \<open>What the loop pushes for one token: an origin, a denied token with its marker, or an observation.\<close>

datatype beta_push = Push_source beta_origin | Push_denied string string | Push_observation string

definition push_token :: "(bytes \<Rightarrow> bytes) \<Rightarrow> string \<Rightarrow> beta_resolution \<Rightarrow> beta_push list" where
  "push_token sha256 token r =
     (if br_allow r then
        (case br_policy r of
           None \<Rightarrow> [Push_observation (betaObservationMarker sha256 Unknown_token token)]
         | Some p \<Rightarrow> [Push_source \<lparr> bo_token = token,
             bo_source = (if br_source r = From_allowlist then From_allowlist
               else if br_source r = From_legacy then From_legacy else From_override),
             bo_override = (case br_override r of Some i \<Rightarrow> if i = [] then None else Some i | None \<Rightarrow> None),
             bo_policy = p \<rparr>])
      else (case observationStateFor r of
         None \<Rightarrow> []
       | Some Hard_denied_state \<Rightarrow> [Push_denied token (betaObservationMarker sha256 Hard_denied_state token)]
       | Some st \<Rightarrow> [Push_observation (betaObservationMarker sha256 st token)]))"

definition handleBetaHeader ::
  "(bytes \<Rightarrow> bytes) \<Rightarrow> string \<Rightarrow> string \<Rightarrow> string option \<Rightarrow> beta_entry list \<Rightarrow> (string \<Rightarrow> string \<Rightarrow> (string \<times> string) list) \<Rightarrow> beta_result" where
  "handleBetaHeader sha256 provider org header table loader =
     (case header of None \<Rightarrow> Beta_allow [] None []
      | Some h \<Rightarrow>
         if trim h = [] then Beta_allow [] None []
         else
           let tokens = header_tokens h;
               pushed = concat (map (\<lambda>t. push_token sha256 t (resolveBeta provider org t table loader)) tokens);
               denied = [t. Push_denied t m \<leftarrow> pushed]
           in if denied \<noteq> [] then Beta_deny denied [m. Push_denied t m \<leftarrow> pushed]
              else Beta_allow [s. Push_source s \<leftarrow> pushed] (Some (join_with '', '' tokens)) [m. Push_observation m \<leftarrow> pushed])"

definition handleAnthropicBetaHeader ::
  "(bytes \<Rightarrow> bytes) \<Rightarrow> string \<Rightarrow> string option \<Rightarrow> beta_entry list \<Rightarrow> (string \<Rightarrow> string \<Rightarrow> (string \<times> string) list) \<Rightarrow> beta_result" where
  "handleAnthropicBetaHeader sha256 org header table loader = handleBetaHeader sha256 ''anthropic'' org header table loader"

definition handleOpenAIBetaHeader ::
  "(bytes \<Rightarrow> bytes) \<Rightarrow> string \<Rightarrow> string option \<Rightarrow> beta_entry list \<Rightarrow> (string \<Rightarrow> string \<Rightarrow> (string \<times> string) list) \<Rightarrow> beta_result" where
  "handleOpenAIBetaHeader sha256 org header table loader = handleBetaHeader sha256 ''openai'' org header table loader"

definition ANTHROPIC_BETA_POLICY :: "beta_entry list" where
  "ANTHROPIC_BETA_POLICY =
     [\<lparr> be_token = ''files-api-2025-04-14'', be_policy = Global_allowlist \<rparr>,
      \<lparr> be_token = ''prompt-caching-2024-07-31'', be_policy = Verification_required \<rparr>,
      \<lparr> be_token = ''message-batches-2024-09-24'', be_policy = Verification_required \<rparr>,
      \<lparr> be_token = ''output-300k-2026-03-24'', be_policy = Denied_until_decision \<rparr>,
      \<lparr> be_token = ''computer-use-2025-11-24'', be_policy = Hard_denied \<rparr>,
      \<lparr> be_token = ''computer-use-2025-01-24'', be_policy = Hard_denied \<rparr>,
      \<lparr> be_token = ''computer-use-2024-10-22'', be_policy = Hard_denied \<rparr>,
      \<lparr> be_token = ''managed-agents-2026-04-01'', be_policy = Denied_until_decision \<rparr>,
      \<lparr> be_token = ''skills-2025-10-02'', be_policy = Denied_until_decision \<rparr>]"

definition OPENAI_BETA_POLICY :: "beta_entry list" where
  "OPENAI_BETA_POLICY =
     [\<lparr> be_token = ''assistants=v2'', be_policy = Denied_until_decision \<rparr>,
      \<lparr> be_token = ''realtime=v1'', be_policy = Denied_until_decision \<rparr>]"

text \<open>The policy the first entry of a table gives a token.\<close>

definition policy_of :: "beta_entry list \<Rightarrow> string \<Rightarrow> beta_policy option" where
  "policy_of table t = map_option be_policy (find (\<lambda>e. be_token e = t) table)"

lemma resolve_denies: "observationStateFor (resolveBeta p org t table loader) = Some Hard_denied_state \<longleftrightarrow> policy_of table t = Some Hard_denied"
  by (auto simp: observationStateFor_def resolveBeta_def policy_of_def split: option.splits beta_policy.splits prod.splits)

lemma push_cases:
  "\<exists>x. push_token sha256 t (resolveBeta p org t table loader) = [x] \<and>
     (case x of Push_denied t' m \<Rightarrow> t' = t \<and> policy_of table t = Some Hard_denied
      | Push_source s \<Rightarrow> bo_token s = t \<and> policy_of table t = Some (bo_policy s) \<and> bo_policy s \<noteq> Hard_denied
      | Push_observation m \<Rightarrow> policy_of table t \<noteq> Some Hard_denied)"
proof (cases "find (\<lambda>e. be_token e = t) table")
  case (Some e)
  then show ?thesis
    by (cases "be_policy e"; cases "find (\<lambda>(t', i). t' = t) (loader org p)")
      (auto simp: push_token_def observationStateFor_def resolveBeta_def policy_of_def)
qed (auto simp: push_token_def observationStateFor_def resolveBeta_def policy_of_def)

lemma pushed_counts:
  "let pushed = concat (map (\<lambda>t. push_token sha256 t (resolveBeta p org t table loader)) tokens) in
     [t. Push_denied t m \<leftarrow> pushed] = filter (\<lambda>t. policy_of table t = Some Hard_denied) tokens \<and>
     length [s. Push_source s \<leftarrow> pushed] + length [m. Push_observation m \<leftarrow> pushed] + length [t. Push_denied t m \<leftarrow> pushed] = length tokens"
proof (induction tokens)
  case (Cons t ts)
  from push_cases [of sha256 t p org table loader] obtain x where
    x: "push_token sha256 t (resolveBeta p org t table loader) = [x]"
    "case x of Push_denied t' m \<Rightarrow> t' = t \<and> policy_of table t = Some Hard_denied
      | Push_source s \<Rightarrow> bo_token s = t \<and> policy_of table t = Some (bo_policy s) \<and> bo_policy s \<noteq> Hard_denied
      | Push_observation m \<Rightarrow> policy_of table t \<noteq> Some Hard_denied" by blast
  then show ?case using Cons.IH by (cases x) (auto simp: Let_def)
qed simp

lemma trim_idem: "trim (trim s) = trim s"
proof -
  define u where "u = dropWhile is_space s"
  define w where "w = rev (dropWhile is_space (rev u))"
  have "u = w @ rev (takeWhile is_space (rev u))"
    by (metis takeWhile_dropWhile_id rev_append rev_rev_ident w_def)
  moreover have "u \<noteq> [] \<Longrightarrow> \<not> is_space (hd u)" by (metis hd_dropWhile u_def)
  ultimately have "w \<noteq> [] \<Longrightarrow> \<not> is_space (hd w)" by (metis append_is_Nil_conv hd_append2)
  then have "dropWhile is_space w = w" by (cases w) auto
  moreover have "rev (dropWhile is_space (rev w)) = w" by (simp add: w_def)
  ultimately show ?thesis by (simp add: trim_def u_def [symmetric] w_def [symmetric])
qed

lemma trim_blank: "trim (CHR '' '' # s) = trim s"
  by (simp add: trim_def is_space_def)

lemma split_on_sep: "d \<notin> set a \<Longrightarrow> split_on d (a @ d # r) = a # split_on d r"
  by (induction a) auto

lemma split_on_none: "d \<notin> set a \<Longrightarrow> split_on d a = [a]"
  by (induction a) auto

lemma split_on_pieces: "w \<in> set (split_on d s) \<Longrightarrow> d \<notin> set w \<and> set w \<subseteq> set s"
  by (induction s arbitrary: w) (auto split: list.splits if_splits, blast)

lemma header_tokens_are: "t \<in> set (header_tokens h) \<Longrightarrow> t \<noteq> [] \<and> trim t = t \<and> CHR '','' \<notin> set t"
  using trim_set split_on_pieces by (auto simp: header_tokens_def trim_idem) blast

lemma header_tokens_blank: "header_tokens (CHR '' '' # r) = header_tokens r"
proof -
  obtain w ws where "split_on (CHR '','') r = w # ws" by (cases "split_on (CHR '','') r") auto
  then show ?thesis by (simp add: header_tokens_def trim_blank)
qed

lemma header_tokens_join:
  "(\<And>t. t \<in> set ts \<Longrightarrow> t \<noteq> [] \<and> trim t = t \<and> CHR '','' \<notin> set t) \<Longrightarrow> header_tokens (join_with '', '' ts) = ts"
proof (induction "'', ''" ts rule: join_with.induct)
  case 1
  then show ?case by (simp add: header_tokens_def trim_def)
next
  case (2 t)
  then show ?case by (simp add: header_tokens_def split_on_none)
next
  case (3 s t ts)
  from 3(2) have s: "s \<noteq> []" "trim s = s" "CHR '','' \<notin> set s" by simp_all
  have "header_tokens (s @ CHR '','' # CHR '' '' # r) = s # header_tokens r" for r
    using header_tokens_blank [of r] s by (simp add: header_tokens_def split_on_sep)
  with 3 show ?case by simp
qed

lemma header_tokens_blank_only: "trim h = [] \<Longrightarrow> header_tokens h = []"
proof -
  assume "trim h = []"
  then have "list_all is_space h"
    by (auto simp: trim_def list_all_iff dropWhile_eq_Nil_conv dest: set_dropWhileD)
      (metis dropWhile_eq_Nil_conv dropWhile_eq_self_iff hd_dropWhile hd_in_set)
  then have "list_all is_space w" if "w \<in> set (split_on (CHR '','') h)" for w
    using split_on_pieces [OF that] by (auto simp: list_all_iff)
  then show ?thesis by (auto simp: header_tokens_def filter_empty_conv trim_def list_all_iff dropWhile_eq_Nil_conv dest: set_dropWhileD)
qed

text \<open>
  A beta header is refused exactly when one of its tokens is hard-denied by the provider's table,
  whatever overrides the organization has; the refusal names exactly those tokens. Otherwise every
  token is forwarded, reading the forwarded header gives the same tokens again, and each token is
  accounted for once, as an origin or as an observation. The hard-denied tokens of the shipped tables
  are the three computer-use betas of Anthropic and none of OpenAI.
\<close>

theorem beta_denies_exactly_hard_denied:
  "(let tokens = (case header of None \<Rightarrow> [] | Some h \<Rightarrow> header_tokens h) in
    case handleBetaHeader sha256 provider org header table loader of
      Beta_deny denied marks \<Rightarrow> denied = filter (\<lambda>t. policy_of table t = Some Hard_denied) tokens \<and> denied \<noteq> []
    | Beta_allow sources forward obs \<Rightarrow>
        filter (\<lambda>t. policy_of table t = Some Hard_denied) tokens = [] \<and> length sources + length obs = length tokens \<and>
        (case forward of None \<Rightarrow> tokens = [] | Some f \<Rightarrow> header_tokens f = tokens)) \<and>
   filter (\<lambda>t. policy_of ANTHROPIC_BETA_POLICY t = Some Hard_denied) (map be_token ANTHROPIC_BETA_POLICY) =
     [''computer-use-2025-11-24'', ''computer-use-2025-01-24'', ''computer-use-2024-10-22''] \<and>
   filter (\<lambda>t. policy_of OPENAI_BETA_POLICY t = Some Hard_denied) (map be_token OPENAI_BETA_POLICY) = []"
proof (intro conjI)
  define tokens where that: "tokens = (case header of None \<Rightarrow> [] | Some h \<Rightarrow> header_tokens h)"
  have "case handleBetaHeader sha256 provider org header table loader of
      Beta_deny denied marks \<Rightarrow> denied = filter (\<lambda>t. policy_of table t = Some Hard_denied) tokens \<and> denied \<noteq> []
    | Beta_allow sources forward obs \<Rightarrow>
        filter (\<lambda>t. policy_of table t = Some Hard_denied) tokens = [] \<and> length sources + length obs = length tokens \<and>
        (case forward of None \<Rightarrow> tokens = [] | Some f \<Rightarrow> header_tokens f = tokens)"
  proof (cases header)
    case (Some h)
    show ?thesis
    proof (cases "trim h = []")
      case False
      have "header_tokens (join_with '', '' (header_tokens h)) = header_tokens h"
        by (rule header_tokens_join) (rule header_tokens_are)
      then show ?thesis
        using pushed_counts [of sha256 provider org table loader "header_tokens h"] Some False that
        by (auto simp: handleBetaHeader_def Let_def simp del: concat_eq_Nil_conv length_concat)
    qed (simp add: that Some handleBetaHeader_def header_tokens_blank_only)
  qed (simp add: that handleBetaHeader_def)
  then show "let tokens = (case header of None \<Rightarrow> [] | Some h \<Rightarrow> header_tokens h) in
    case handleBetaHeader sha256 provider org header table loader of
      Beta_deny denied marks \<Rightarrow> denied = filter (\<lambda>t. policy_of table t = Some Hard_denied) tokens \<and> denied \<noteq> []
    | Beta_allow sources forward obs \<Rightarrow>
        filter (\<lambda>t. policy_of table t = Some Hard_denied) tokens = [] \<and> length sources + length obs = length tokens \<and>
        (case forward of None \<Rightarrow> tokens = [] | Some f \<Rightarrow> header_tokens f = tokens)"
    by (simp only: Let_def that)
qed code_simp+

section \<open>The governed decision\<close>

record native_capability =
  nc_id :: string
  nc_level :: string
  nc_base :: risk_class

definition ANTHROPIC_MESSAGES_CREATE :: native_capability where
  "ANTHROPIC_MESSAGES_CREATE = \<lparr> nc_id = ''anthropic.messages.create'', nc_level = ''policy_governed'', nc_base = Risk_A \<rparr>"

definition ANTHROPIC_MESSAGES_STREAM :: native_capability where
  "ANTHROPIC_MESSAGES_STREAM = \<lparr> nc_id = ''anthropic.messages.stream'', nc_level = ''policy_governed'', nc_base = Risk_A \<rparr>"

definition OPENAI_RESPONSES_CREATE :: native_capability where
  "OPENAI_RESPONSES_CREATE = \<lparr> nc_id = ''openai.responses.create'', nc_level = ''policy_governed'', nc_base = Risk_A \<rparr>"

definition OPENAI_RESPONSES_STREAM :: native_capability where
  "OPENAI_RESPONSES_STREAM = \<lparr> nc_id = ''openai.responses.stream'', nc_level = ''policy_governed'', nc_base = Risk_A \<rparr>"

definition OPENAI_CHAT_COMPLETIONS_CREATE :: native_capability where
  "OPENAI_CHAT_COMPLETIONS_CREATE = \<lparr> nc_id = ''openai.chat.completions.create'', nc_level = ''policy_governed'', nc_base = Risk_A \<rparr>"

definition OPENAI_CHAT_COMPLETIONS_STREAM :: native_capability where
  "OPENAI_CHAT_COMPLETIONS_STREAM = \<lparr> nc_id = ''openai.chat.completions.stream'', nc_level = ''policy_governed'', nc_base = Risk_A \<rparr>"

record tenant =
  tn_tier :: tier
  tn_mode :: operational_mode

datatype block_trigger = Tool_validation | Governance_enforcement

record governed_decision =
  gd_capability :: native_capability
  gd_entries :: "tool_entry list"
  gd_dlp :: "(nat \<times> string list) option"
  gd_governance :: resolved_governance
  gd_blocked :: "(string \<times> block_trigger) option"

text \<open>\<open>Array.from(new Set(xs))\<close>: the first occurrences in order.\<close>

definition uniq :: "'a list \<Rightarrow> 'a list" where
  "uniq xs = rev (remdups (rev xs))"

fun risk_text :: "risk_class \<Rightarrow> string" where
  "risk_text Risk_A = ''A''"
| "risk_text Risk_B = ''B''"
| "risk_text Risk_C = ''C''"
| "risk_text Risk_D = ''D''"
| "risk_text Risk_E = ''E''"

definition lite :: "tool_entry \<Rightarrow> tool_lite" where
  "lite e = \<lparr> tl_index = te_index e, tl_class = te_class e, tl_risk = te_risk e \<rparr>"

definition governed_decision_of ::
  "(jsval list \<Rightarrow> js_error + hook_result) \<Rightarrow> (jsval \<Rightarrow> segment list) \<Rightarrow> native_capability \<Rightarrow> tenant \<Rightarrow> bool \<Rightarrow>
     (string \<Rightarrow> dlp_lite list) \<Rightarrow> jsval option \<Rightarrow> js_error + governed_decision" where
  "governed_decision_of hook extract capability tenant multipart dlpScan parsed =
     (let body = (case parsed of None \<Rightarrow> JNull | Some v \<Rightarrow> v);
          tools = elements (jget body ''tools'') in
      bindE (if tools \<noteq> [] then hook tools else Inr (Hook_allow [])) (\<lambda>h.
        let text = join_with [CHR 0x0A] (map fst (extract body));
            findings = (if text \<noteq> [] then
                map (\<lambda>f. f\<lparr> dl_signal := (case dl_signal f of Some s \<Rightarrow> if s = [] then None else Some s | None \<Rightarrow> None) \<rparr>) (dlpScan text)
              else []);
            governance = resolveGovernance \<lparr> gi_base = nc_base capability, gi_tier = tn_tier tenant, gi_mode = tn_mode tenant,
              gi_tools = map lite (hook_entries h), gi_dlp = findings, gi_multipart = multipart \<rparr>
        in Inr \<lparr> gd_capability = capability, gd_entries = hook_entries h,
             gd_dlp = (if findings \<noteq> [] then Some (length findings, uniq (map dl_detector findings)) else None),
             gd_governance = governance,
             gd_blocked = (case hook_blocked h of
                 b # bs \<Rightarrow> Some (''tool_blocked:'' @ bk_class b @ '':'' @ bk_reason b, Tool_validation)
               | [] \<Rightarrow> if rg_enforcement governance = Blocked_mode
                   then Some (''enforcement_blocked:'' @ risk_text (rg_effective governance), Governance_enforcement) else None) \<rparr>))"

definition handleAnthropicGovernedMessages ::
  "bool \<Rightarrow> tenant \<Rightarrow> bool \<Rightarrow> (string \<Rightarrow> dlp_lite list) \<Rightarrow> jsval option \<Rightarrow> js_error + governed_decision" where
  "handleAnthropicGovernedMessages stream tenant multipart dlpScan parsed =
     governed_decision_of classifyTools extractAnthropicText
       (if stream then ANTHROPIC_MESSAGES_STREAM else ANTHROPIC_MESSAGES_CREATE) tenant multipart dlpScan parsed"

definition handleOpenAIGovernedResponses ::
  "bool \<Rightarrow> tenant \<Rightarrow> bool \<Rightarrow> (string \<Rightarrow> dlp_lite list) \<Rightarrow> jsval option \<Rightarrow> js_error + governed_decision" where
  "handleOpenAIGovernedResponses stream tenant multipart dlpScan parsed =
     governed_decision_of (classifyOpenAITools Responses) extractOpenAIResponsesText
       (if stream then OPENAI_RESPONSES_STREAM else OPENAI_RESPONSES_CREATE) tenant multipart dlpScan parsed"

definition handleOpenAIGovernedChatCompletions ::
  "bool \<Rightarrow> tenant \<Rightarrow> bool \<Rightarrow> (string \<Rightarrow> dlp_lite list) \<Rightarrow> jsval option \<Rightarrow> js_error + governed_decision" where
  "handleOpenAIGovernedChatCompletions stream tenant multipart dlpScan parsed =
     governed_decision_of (classifyOpenAITools Chat_completions) extractOpenAIChatCompletionsText
       (if stream then OPENAI_CHAT_COMPLETIONS_STREAM else OPENAI_CHAT_COMPLETIONS_CREATE) tenant multipart dlpScan parsed"

lemma handler_base [simp]:
  "nc_base (if stream then ANTHROPIC_MESSAGES_STREAM else ANTHROPIC_MESSAGES_CREATE) = Risk_A"
  "nc_base (if stream then OPENAI_RESPONSES_STREAM else OPENAI_RESPONSES_CREATE) = Risk_A"
  "nc_base (if stream then OPENAI_CHAT_COMPLETIONS_STREAM else OPENAI_CHAT_COMPLETIONS_CREATE) = Risk_A"
  by (simp_all add: ANTHROPIC_MESSAGES_STREAM_def ANTHROPIC_MESSAGES_CREATE_def OPENAI_RESPONSES_STREAM_def
      OPENAI_RESPONSES_CREATE_def OPENAI_CHAT_COMPLETIONS_STREAM_def OPENAI_CHAT_COMPLETIONS_CREATE_def)

text \<open>What the matrix makes of a class A request whose tools contribute at most class D.\<close>

lemma matrix_blocks_iff:
  assumes "gi_base i = Risk_A" "\<And>t. t \<in> set (gi_tools i) \<Longrightarrow> tl_risk t \<noteq> Risk_E"
  shows "rg_enforcement (resolveGovernance i) = Blocked_mode \<longleftrightarrow>
    gi_tier i = Starter \<and> gi_mode i = Production \<and> (\<exists>t \<in> set (gi_tools i). tl_risk t = Risk_D)"
proof -
  let ?r = "rg_effective (resolveGovernance i)"
  have r: "?r = Max (lifts i)" by (rule effective_is_Max)
  have "?r \<in> lifts i" unfolding r by (rule Max_in) simp_all
  then have E: "?r \<noteq> Risk_E" and D: "?r = Risk_D \<Longrightarrow> \<exists>t \<in> set (gi_tools i). tl_risk t = Risk_D"
    using assms by (auto simp: lifts_def dlp_lift_def tool_lift_def multipart_lift_def max_def split: if_splits) metis+
  have D': "?r = Risk_D" if "t \<in> set (gi_tools i)" "tl_risk t = Risk_D" for t
  proof -
    have "tool_lift (gi_base i) t \<le> ?r" unfolding r by (rule Max_ge) (simp_all add: lifts_def that(1))
    then show ?thesis using E that(2) assms(1) by (cases ?r) (auto simp: tool_lift_def max_def less_eq_risk_class_def)
  qed
  have "rg_enforcement (resolveGovernance i) =
      er_mode (computeEnforcement \<lparr> ei_tier = gi_tier i, ei_risk = ?r, ei_mode = gi_mode i,
        ei_tool = map_option tl_class (dominantTool (gi_tools i)) \<rparr>)"
    by (simp add: resolveGovernance_def Let_def)
  also have "\<dots> = Blocked_mode \<longleftrightarrow> gi_tier i = Starter \<and> gi_mode i = Production \<and> ?r = Risk_D"
    using E by (cases "gi_mode i"; cases "gi_tier i"; cases ?r) (auto simp: er_mode_simps productionMode_def Let_def)
  finally show ?thesis using D D' by blast
qed

lemma governed_generic:
  assumes "\<And>ts. if filter primitive ts \<noteq> [] then hook ts = Inl Type_error else \<exists>h. hook ts = Inr h \<and> hook_sound ts h"
    and "nc_base capability = Risk_A"
  shows "if filter primitive (elements (jget (case parsed of None \<Rightarrow> JNull | Some v \<Rightarrow> v) ''tools'')) \<noteq> []
     then governed_decision_of hook extract capability tenant multipart dlpScan parsed = Inl Type_error
     else \<exists>d. governed_decision_of hook extract capability tenant multipart dlpScan parsed = Inr d \<and>
       (gd_blocked d \<noteq> None \<longleftrightarrow> list_ex hosted_computer (gd_entries d) \<or>
          tn_tier tenant = Starter \<and> tn_mode tenant = Production \<and> list_ex (\<lambda>e. te_risk e = Risk_D) (gd_entries d))"
proof -
  let ?ts = "elements (jget (case parsed of None \<Rightarrow> JNull | Some v \<Rightarrow> v) ''tools'')"
  show ?thesis
  proof (cases "filter primitive ?ts = []")
    case False
    then have "?ts \<noteq> []" by auto
    with False assms(1) [of ?ts] show ?thesis by (simp add: governed_decision_of_def Let_def)
  next
    case True
    obtain h where h: "(if ?ts \<noteq> [] then hook ?ts else Inr (Hook_allow [])) = Inr h" "hook_sound ?ts h"
      using assms(1) [of ?ts] True by (cases "?ts = []") (auto simp: hook_sound_def)
    then obtain d where d: "governed_decision_of hook extract capability tenant multipart dlpScan parsed = Inr d"
      by (simp add: governed_decision_of_def Let_def)
    then have gd: "gd_entries d = hook_entries h" "\<exists>f. gd_governance d = resolveGovernance \<lparr> gi_base = nc_base capability,
          gi_tier = tn_tier tenant, gi_mode = tn_mode tenant, gi_tools = map lite (hook_entries h), gi_dlp = f, gi_multipart = multipart \<rparr>"
      "gd_blocked d \<noteq> None \<longleftrightarrow> hook_blocked h \<noteq> [] \<or> rg_enforcement (gd_governance d) = Blocked_mode"
      by (auto simp: governed_decision_of_def Let_def h(1) split: list.splits if_splits)
    have E: "te_risk e \<noteq> Risk_E" if "e \<in> set (hook_entries h)" for e
      using h(2) that by (auto simp: hook_sound_def filter_empty_conv)
    from gd(2) obtain f where f: "gd_governance d = resolveGovernance \<lparr> gi_base = nc_base capability,
          gi_tier = tn_tier tenant, gi_mode = tn_mode tenant, gi_tools = map lite (hook_entries h), gi_dlp = f, gi_multipart = multipart \<rparr>" by blast
    have "rg_enforcement (gd_governance d) = Blocked_mode \<longleftrightarrow>
        tn_tier tenant = Starter \<and> tn_mode tenant = Production \<and> (\<exists>t \<in> set (map lite (hook_entries h)). tl_risk t = Risk_D)"
      unfolding f by (subst matrix_blocks_iff) (use E assms(2) in \<open>auto simp: lite_def\<close>)
    also have "(\<exists>t \<in> set (map lite (hook_entries h)). tl_risk t = Risk_D) \<longleftrightarrow> list_ex (\<lambda>e. te_risk e = Risk_D) (hook_entries h)"
      by (auto simp: lite_def list_ex_iff)
    finally have m: "rg_enforcement (gd_governance d) = Blocked_mode \<longleftrightarrow> tn_tier tenant = Starter \<and> tn_mode tenant = Production \<and>
        list_ex (\<lambda>e. te_risk e = Risk_D) (hook_entries h)" .
    have "map bk_index (hook_blocked h) = map te_index (filter hosted_computer (hook_entries h))"
      using h(2) by (simp add: hook_sound_def)
    then have "hook_blocked h \<noteq> [] \<longleftrightarrow> filter hosted_computer (hook_entries h) \<noteq> []" by (metis map_is_Nil_conv)
    then have "hook_blocked h \<noteq> [] \<longleftrightarrow> list_ex hosted_computer (hook_entries h)" by (simp add: filter_empty_conv list_ex_iff)
    with True d gd(1,3) m show ?thesis by auto
  qed
qed

lemma hooks_sound:
  "if filter primitive ts \<noteq> [] then classifyTools ts = Inl Type_error else \<exists>h. classifyTools ts = Inr h \<and> hook_sound ts h"
  "if filter primitive ts \<noteq> [] then classifyOpenAITools sf ts = Inl Type_error else \<exists>h. classifyOpenAITools sf ts = Inr h \<and> hook_sound ts h"
  using hook_soundI [OF anthropic.hook_cases [of ts]] hook_soundI [OF openai.hook_cases [of ts sf]]
  by (simp_all add: classifyTools_def classifyOpenAITools_def)

text \<open>
  What a governed request is blocked for, on all three governed surfaces: a hosted computer-use
  tool, or a tool of class D in production at the starter tier, and nothing else, whatever the text,
  the findings of the scan and the multipart flag are. Where the tools hold a primitive value the
  handler throws before the scan: the request is neither blocked, audited nor forwarded.
\<close>

theorem governed_block_iff:
  "if filter primitive (elements (jget (case parsed of None \<Rightarrow> JNull | Some v \<Rightarrow> v) ''tools'')) \<noteq> []
   then handleAnthropicGovernedMessages stream tenant multipart dlpScan parsed = Inl Type_error \<and>
     handleOpenAIGovernedResponses stream tenant multipart dlpScan parsed = Inl Type_error \<and>
     handleOpenAIGovernedChatCompletions stream tenant multipart dlpScan parsed = Inl Type_error
   else
     (\<exists>d. handleAnthropicGovernedMessages stream tenant multipart dlpScan parsed = Inr d \<and>
       (gd_blocked d \<noteq> None \<longleftrightarrow> list_ex hosted_computer (gd_entries d) \<or>
          tn_tier tenant = Starter \<and> tn_mode tenant = Production \<and> list_ex (\<lambda>e. te_risk e = Risk_D) (gd_entries d))) \<and>
     (\<exists>d. handleOpenAIGovernedResponses stream tenant multipart dlpScan parsed = Inr d \<and>
       (gd_blocked d \<noteq> None \<longleftrightarrow> list_ex hosted_computer (gd_entries d) \<or>
          tn_tier tenant = Starter \<and> tn_mode tenant = Production \<and> list_ex (\<lambda>e. te_risk e = Risk_D) (gd_entries d))) \<and>
     (\<exists>d. handleOpenAIGovernedChatCompletions stream tenant multipart dlpScan parsed = Inr d \<and>
       (gd_blocked d \<noteq> None \<longleftrightarrow> list_ex hosted_computer (gd_entries d) \<or>
          tn_tier tenant = Starter \<and> tn_mode tenant = Production \<and> list_ex (\<lambda>e. te_risk e = Risk_D) (gd_entries d)))"
proof -
  note * = governed_generic [where parsed = parsed and tenant = tenant and multipart = multipart and dlpScan = dlpScan]
  note a = * [OF hooks_sound(1) handler_base(1) [of stream], of extractAnthropicText]
  note r = * [OF hooks_sound(2) [of _ Responses] handler_base(2) [of stream], of extractOpenAIResponsesText]
  note c = * [OF hooks_sound(2) [of _ Chat_completions] handler_base(3) [of stream], of extractOpenAIChatCompletionsText]
  show ?thesis
    unfolding handleAnthropicGovernedMessages_def handleOpenAIGovernedResponses_def handleOpenAIGovernedChatCompletions_def
    using a r c by (simp only: if_bool_eq_conj) blast
qed

end
