(* ===== verification/Dlp.thy ===== *)
theory Dlp
  imports Governance "HOL-Library.AList"
begin

text \<open>
  The personal-data scan of a run: the baseline detectors and their span merge
  (\<open>packages/dlp-br/src/baseline-detectors.ts\<close>), the court-case checksum (\<open>court-detectors.ts\<close>), the
  configured action of a span and the redaction (\<open>apps/api/src/pipeline/dlp.ts\<close>), and the policy
  decision that follows (\<open>pipeline/policy.ts\<close>). A regular expression of the RE2 library is a parameter:
  \<open>exec text i\<close> is the index and the length of its first match at or after \<open>i\<close>.
\<close>

section \<open>Checksums\<close>

definition digits :: "string \<Rightarrow> string" where
  "digits s = filter is_digit s"

definition code :: "char \<Rightarrow> int" where
  "code c = of_char c - 48"

text \<open>The weighted sum \<open>\<Sum> ds[i] * w[i]\<close>.\<close>

fun weighted :: "int list \<Rightarrow> int list \<Rightarrow> int" where
  "weighted (d # ds) (w # ws) = d * w + weighted ds ws"
| "weighted _ _ = 0"

definition isValidCpf :: "string \<Rightarrow> bool" where
  "isValidCpf raw =
     (let d = digits raw; ds = map code d in
      if length d \<noteq> 11 then False
      else if list_all (\<lambda>c. c = hd d) d then False
      else
        let dv1 = weighted (take 9 ds) [10, 9, 8, 7, 6, 5, 4, 3, 2] * 10 mod 11;
            dv1' = (if dv1 = 10 then 0 else dv1)
        in if dv1' \<noteq> ds ! 9 then False
           else
             let dv2 = weighted (take 10 ds) [11, 10, 9, 8, 7, 6, 5, 4, 3, 2] * 10 mod 11;
                 dv2' = (if dv2 = 10 then 0 else dv2)
             in dv2' = ds ! 10)"

definition is_upper :: "char \<Rightarrow> bool" where
  "is_upper c = (let n = of_char c :: nat in 65 \<le> n \<and> n \<le> 90)"

definition upper_char :: "char \<Rightarrow> char" where
  "upper_char c = (let n = of_char c :: nat in if 97 \<le> n \<and> n \<le> 122 then char_of (n - 32) else c)"

definition alnum :: "char \<Rightarrow> bool" where
  "alnum c = (is_digit c \<or> is_upper c \<or> is_upper (upper_char c))"

definition isValidCnpj :: "string \<Rightarrow> bool" where
  "isValidCnpj raw =
     (let s = map upper_char (filter alnum raw); vals = map code s in
      if length s \<noteq> 14 then False
      else if \<not> (list_all (\<lambda>c. is_digit c \<or> is_upper c) (take 12 s) \<and> list_all is_digit (drop 12 s)) then False
      else if list_all (\<lambda>c. c = hd s) s then False
      else
        let m1 = weighted (take 12 vals) [5, 4, 3, 2, 9, 8, 7, 6, 5, 4, 3, 2] mod 11;
            dv1 = (if m1 < 2 then 0 else 11 - m1)
        in if dv1 \<noteq> vals ! 12 then False
           else
             let m2 = weighted (take 13 vals) [6, 5, 4, 3, 2, 9, 8, 7, 6, 5, 4, 3, 2] mod 11;
                 dv2 = (if m2 < 2 then 0 else 11 - m2)
             in dv2 = vals ! 13)"

lemma checksum_examples:
  "isValidCpf ''529.982.247-25''" "\<not> isValidCpf ''529.982.247-26''" "\<not> isValidCpf ''111.111.111-11''"
  "isValidCnpj ''11.222.333/0001-81''" "isValidCnpj ''12.ABC.345/01DE-35''" "\<not> isValidCnpj ''12.ABC.345/01DE-36''"
  by code_simp+

text \<open>The pattern \<open>CNJ_PARTS_RE\<close>: digits but for the five separators.\<close>

definition cnj_format :: "string \<Rightarrow> bool" where
  "cnj_format s = (length s = 25 \<and> s ! 7 = CHR ''-'' \<and> s ! 10 = CHR ''.'' \<and> s ! 15 = CHR ''.'' \<and> s ! 17 = CHR ''.'' \<and>
     s ! 20 = CHR ''.'' \<and> list_all is_digit (take 7 s) \<and> list_all is_digit (take 2 (drop 8 s)) \<and>
     list_all is_digit (take 4 (drop 11 s)) \<and> list_all is_digit (take 1 (drop 16 s)) \<and>
     list_all is_digit (take 2 (drop 18 s)) \<and> list_all is_digit (drop 21 s))"

text \<open>\<open>n + yyyy + j + tr + oooo\<close> and the verification digits.\<close>

definition cnj_sequence :: "string \<Rightarrow> string" where
  "cnj_sequence s = take 7 s @ take 4 (drop 11 s) @ take 1 (drop 16 s) @ take 2 (drop 18 s) @ drop 21 s"

definition cnj_dd :: "string \<Rightarrow> string" where
  "cnj_dd s = take 2 (drop 8 s)"

definition isValidCnjChecksum :: "string \<Rightarrow> bool" where
  "isValidCnjChecksum formatted =
     (cnj_format formatted \<and> (98 - (int (dec_val (cnj_sequence formatted)) * 100) mod 97 = int (dec_val (cnj_dd formatted))))"

section \<open>Scanning\<close>

type_synonym re2 = "string \<Rightarrow> nat \<Rightarrow> (nat \<times> nat) option"

definition slice :: "nat \<Rightarrow> nat \<Rightarrow> string \<Rightarrow> string" where
  "slice i j s = take (j - i) (drop i s)"

text \<open>\<open>findAll\<close> from a \<open>lastIndex\<close>: \<open>None\<close> is a loop that does not end.\<close>

partial_function (option) findAll_from :: "re2 \<Rightarrow> string \<Rightarrow> nat \<Rightarrow> (string \<times> nat) list option" where
  "findAll_from exec text lastIndex =
     (case exec text lastIndex of
        None \<Rightarrow> Some []
      | Some (i, l) \<Rightarrow>
          Option.bind (findAll_from exec text (if i + l = i then i + l + 1 else i + l))
            (\<lambda>out. Some ((slice i (i + l) text, i) # out)))"

definition findAll :: "re2 \<Rightarrow> string \<Rightarrow> (string \<times> nat) list option" where
  "findAll exec text = findAll_from exec text 0"

record finding =
  sp_detector :: string
  sp_index :: nat
  sp_length :: nat
  sp_detectors :: "string list option"

definition found :: "string \<Rightarrow> string \<times> nat \<Rightarrow> finding" where
  "found d m = \<lparr> sp_detector = d, sp_index = snd m, sp_length = length (fst m), sp_detectors = None \<rparr>"

record detectors =
  CPF_RE :: re2
  CNPJ_RE :: re2
  EMAIL_RE :: re2
  PHONE_BR_RE :: re2

definition detectCpf :: "detectors \<Rightarrow> string \<Rightarrow> finding list option" where
  "detectCpf re text = map_option (\<lambda>ms. map (found ''cpf'') (filter (\<lambda>m. isValidCpf (fst m)) ms)) (findAll (CPF_RE re) text)"

definition detectCnpj :: "detectors \<Rightarrow> string \<Rightarrow> finding list option" where
  "detectCnpj re text = map_option (\<lambda>ms. map (found ''cnpj'') (filter (\<lambda>m. isValidCnpj (fst m)) ms)) (findAll (CNPJ_RE re) text)"

definition detectEmail :: "detectors \<Rightarrow> string \<Rightarrow> finding list option" where
  "detectEmail re text = map_option (map (found ''email'')) (findAll (EMAIL_RE re) text)"

definition detectPhoneBr :: "detectors \<Rightarrow> string \<Rightarrow> finding list option" where
  "detectPhoneBr re text =
     map_option (\<lambda>ms. map (found ''phone_br'') (filter (\<lambda>m. length (digits (fst m)) \<in> {10, 11, 12, 13}) ms)) (findAll (PHONE_BR_RE re) text)"

definition detectAllBaseline :: "detectors \<Rightarrow> string \<Rightarrow> finding list option" where
  "detectAllBaseline re text =
     Option.bind (detectCpf re text) (\<lambda>a.
     Option.bind (detectCnpj re text) (\<lambda>b.
     Option.bind (detectEmail re text) (\<lambda>c.
     Option.bind (detectPhoneBr re text) (\<lambda>d. Some (a @ b @ c @ d)))))"

section \<open>Merging spans\<close>

definition BASELINE_STRONG_DETECTORS :: "string list" where
  "BASELINE_STRONG_DETECTORS = [''cpf'', ''cnpj'']"

record merged =
  mg_detector :: string
  mg_detectors :: "string list"
  mg_strong :: bool
  mg_index :: nat
  mg_length :: nat

definition members :: "finding \<Rightarrow> string list" where
  "members f = (case sp_detectors f of None \<Rightarrow> [sp_detector f] | Some ds \<Rightarrow> ds)"

text \<open>The comparator; \<open>cmp\<close> is \<open>localeCompare\<close>, which is not of this repository.\<close>

definition span_before :: "(string \<Rightarrow> string \<Rightarrow> int) \<Rightarrow> finding \<Rightarrow> finding \<Rightarrow> bool" where
  "span_before cmp a b =
     (if sp_index a \<noteq> sp_index b then sp_index a < sp_index b
      else if sp_length b \<noteq> sp_length a then sp_length b < sp_length a
      else cmp (sp_detector a) (sp_detector b) \<le> 0)"

fun insert_span :: "(finding \<Rightarrow> finding \<Rightarrow> bool) \<Rightarrow> finding \<Rightarrow> finding list \<Rightarrow> finding list" where
  "insert_span le x [] = [x]"
| "insert_span le x (y # ys) = (if le x y then x # y # ys else y # insert_span le x ys)"

definition sort_spans :: "(finding \<Rightarrow> finding \<Rightarrow> bool) \<Rightarrow> finding list \<Rightarrow> finding list" where
  "sort_spans le xs = foldr (insert_span le) xs []"

definition flush :: "nat \<Rightarrow> nat \<Rightarrow> string list \<Rightarrow> merged" where
  "flush start end' ms =
     (let ds = sort (remdups ms);
          strong = filter (\<lambda>d. d \<in> set BASELINE_STRONG_DETECTORS) ds;
          pool = (if strong \<noteq> [] then strong else ds)
      in \<lparr> mg_detector = (case pool of d # _ \<Rightarrow> d | [] \<Rightarrow> ''undefined''), mg_detectors = ds, mg_strong = (strong \<noteq> []),
           mg_index = start, mg_length = end' - start \<rparr>)"

fun merge_loop :: "nat \<Rightarrow> nat \<Rightarrow> string list \<Rightarrow> finding list \<Rightarrow> merged list" where
  "merge_loop start end' ms [] = [flush start end' ms]"
| "merge_loop start end' ms (f # fs) =
     (let f_end = sp_index f + sp_length f in
      if sp_index f \<le> end' then merge_loop start (if end' < f_end then f_end else end') (ms @ members f) fs
      else flush start end' ms # merge_loop (sp_index f) f_end (members f) fs)"

definition mergeFindingSpans :: "(string \<Rightarrow> string \<Rightarrow> int) \<Rightarrow> finding list \<Rightarrow> merged list" where
  "mergeFindingSpans cmp findings =
     (case sort_spans (span_before cmp) findings of
        [] \<Rightarrow> []
      | f # fs \<Rightarrow> merge_loop (sp_index f) (sp_index f + sp_length f) (members f) fs)"

section \<open>Actions, redaction and policy\<close>

datatype dlp_action = Detect | Redact | Deny

fun ACTION_RANK :: "dlp_action \<Rightarrow> nat" where
  "ACTION_RANK Detect = 0"
| "ACTION_RANK Redact = 1"
| "ACTION_RANK Deny = 2"

fun action_text :: "dlp_action \<Rightarrow> string" where
  "action_text Detect = ''detect''"
| "action_text Redact = ''redact''"
| "action_text Deny = ''deny''"

interpretation action: ranked ACTION_RANK
proof unfold_locales
  fix x y assume "ACTION_RANK x = ACTION_RANK y"
  then show "x = y" by (cases x; cases y) simp_all
qed

type_synonym dlp_config = "(string \<times> dlp_action) list"

definition configured :: "dlp_config \<Rightarrow> string \<Rightarrow> dlp_action" where
  "configured config d = (case map_of config d of None \<Rightarrow> Detect | Some a \<Rightarrow> a)"

definition mergeWithActions :: "(string \<Rightarrow> string \<Rightarrow> int) \<Rightarrow> finding list \<Rightarrow> dlp_config \<Rightarrow> (merged \<times> dlp_action) list" where
  "mergeWithActions cmp raw config =
     map (\<lambda>s. (s, foldl (\<lambda>act m. let a = configured config m in if ACTION_RANK act < ACTION_RANK a then a else act)
       Detect (mg_detectors s))) (mergeFindingSpans cmp raw)"

record dlp_scan =
  ds_findings :: "(merged \<times> dlp_action) list"
  ds_raw :: "finding list"
  ds_config :: dlp_config
  ds_highest :: dlp_action

text \<open>The rows of \<open>dlp_baseline_config\<close> are put into the map in order.\<close>

definition dlpPreScan :: "(string \<Rightarrow> string \<Rightarrow> int) \<Rightarrow> detectors \<Rightarrow> (string \<times> dlp_action) list \<Rightarrow> string \<Rightarrow> dlp_scan option" where
  "dlpPreScan cmp re rows text =
     map_option (\<lambda>raw.
       let config = foldl (\<lambda>m (d, a). AList.update d a m) [] rows;
           fs = mergeWithActions cmp raw config
       in \<lparr> ds_findings = fs, ds_raw = raw, ds_config = config,
            ds_highest = foldl (\<lambda>h (s, a). if ACTION_RANK h < ACTION_RANK a then a else h) Detect fs \<rparr>)
     (detectAllBaseline re text)"

fun redact_loop :: "string \<Rightarrow> nat \<Rightarrow> merged list \<Rightarrow> string" where
  "redact_loop text cursor [] = drop cursor text"
| "redact_loop text cursor (s # ss) =
     slice cursor (mg_index s) text @ ''[REDACTED:'' @ mg_detector s @ '']'' @ redact_loop text (mg_index s + mg_length s) ss"

definition redactFindings :: "(string \<Rightarrow> string \<Rightarrow> int) \<Rightarrow> string \<Rightarrow> finding list \<Rightarrow> string" where
  "redactFindings cmp text fs = redact_loop text 0 (mergeFindingSpans cmp fs)"

datatype policy_kind = Allow | Deny_request | Mutate | Ask_user

record policy_decision =
  pd_kind :: policy_kind
  pd_reasons :: "string list"
  pd_redaction :: bool
  pd_version :: bytes

definition policyVersionId :: "(bytes \<Rightarrow> bytes) \<Rightarrow> (rat \<Rightarrow> string) \<Rightarrow> jsval \<Rightarrow> jsval \<Rightarrow> jsval \<Rightarrow> jsval \<Rightarrow> canon_error + bytes" where
  "policyVersionId sha256 num commit manifest overrides registry =
     bindE (canonicalize num (JObj [(''policy_code_commit_sha'', commit), (''policy_manifest'', manifest),
       (''org_policy_overrides'', overrides), (''capability_registry_snapshot'', registry)]))
     (\<lambda>c. Inr (sha256 (utf8 c)))"

fun cap_status_text :: "cap_status \<Rightarrow> string" where
  "cap_status_text Supported = ''supported''"
| "cap_status_text Planned = ''planned''"
| "cap_status_text Experimental = ''experimental''"
| "cap_status_text Blocked_cap = ''blocked''"

definition finding_reason :: "merged \<times> dlp_action \<Rightarrow> string" where
  "finding_reason f = ''dlp.'' @ mg_detector (fst f) @ '': action='' @ action_text (snd f) @ '' match at index '' @ dec_of (mg_index (fst f))"

definition decidePolicy :: "(bytes \<Rightarrow> bytes) \<Rightarrow> (rat \<Rightarrow> string) \<Rightarrow> string \<Rightarrow> dlp_scan \<Rightarrow> canon_error + policy_decision" where
  "decidePolicy sha256 num commit dlp =
     (let n = length (ds_findings dlp);
          (kind, reasons, redaction) =
            (if ds_highest dlp = Deny \<and> 0 < n then (Deny_request, map finding_reason (ds_findings dlp), False)
             else if ds_highest dlp = Redact \<and> 0 < n then (Mutate, map finding_reason (ds_findings dlp), True)
             else if 0 < n then (Allow, [''dlp: '' @ dec_of n @ '' detection(s), no enforcement action''], False)
             else (Allow, [''no findings''], False))
      in bindE (policyVersionId sha256 num (JStr commit)
           (JObj [(''kind'', JStr ''baseline_dlp_v1''), (''deny_when'', JStr ''highest_action=deny'')])
           (JObj [(''config_by_detector'', JObj (map (\<lambda>(d, a). (d, JStr (action_text a))) (ds_config dlp)))])
           (JArr (map (\<lambda>c. JObj [(''id'', JStr (cap_id c)), (''status'', JStr (cap_status_text (Governance.cap_status c)))]) BASELINE_REGISTRY)))
         (\<lambda>v. Inr \<lparr> pd_kind = kind, pd_reasons = reasons, pd_redaction = redaction, pd_version = v \<rparr>))"

section \<open>The scan ends\<close>

text \<open>What RE2 documents of a search: a match lies at or after the start and inside the text.\<close>

definition re2_ok :: "re2 \<Rightarrow> bool" where
  "re2_ok exec \<longleftrightarrow> (\<forall>text i. case exec text i of None \<Rightarrow> True | Some (j, l) \<Rightarrow> i \<le> j \<and> j + l \<le> length text)"

lemma re2_okD: "re2_ok exec \<Longrightarrow> exec text i = Some (j, l) \<Longrightarrow> i \<le> j \<and> j + l \<le> length text"
  by (force simp: re2_ok_def split: option.splits)

definition match_ok :: "string \<Rightarrow> string \<times> nat \<Rightarrow> bool" where
  "match_ok text m \<longleftrightarrow> snd m + length (fst m) \<le> length text \<and> fst m = slice (snd m) (snd m + length (fst m)) text"

lemma findAll_from_ends:
  assumes "re2_ok exec"
  shows "\<exists>out. findAll_from exec text i = Some out \<and> list_all (match_ok text) out \<and> list_all (\<lambda>m. i \<le> snd m) out \<and>
    sorted_wrt (\<lambda>a b. snd a < snd b \<and> snd a + length (fst a) \<le> snd b) out"
proof (induction "Suc (length text) - i" arbitrary: i rule: less_induct)
  case less
  show ?case
  proof (cases "exec text i")
    case None
    then show ?thesis by (subst findAll_from.simps) simp
  next
    case (Some m)
    obtain j l where m: "m = (j, l)" by (cases m)
    with Some re2_okD [OF assms] have jl: "i \<le> j" "j + l \<le> length text" by auto
    let ?n = "if j + l = j then j + l + 1 else j + l"
    have "Suc (length text) - ?n < Suc (length text) - i" using jl by auto
    from less [OF this] obtain out where out: "findAll_from exec text ?n = Some out" "list_all (match_ok text) out"
      "list_all (\<lambda>m. ?n \<le> snd m) out" "sorted_wrt (\<lambda>a b. snd a < snd b \<and> snd a + length (fst a) \<le> snd b) out" by blast
    have len: "length (slice j (j + l) text) = l" using jl by (simp add: slice_def)
    have "findAll_from exec text i = Some ((slice j (j + l) text, j) # out)"
      by (subst findAll_from.simps) (simp only: Some m option.case prod.case out(1) bind.bind_lunit)
    moreover have "match_ok text (slice j (j + l) text, j)" using jl len by (simp add: match_ok_def)
    moreover have "list_all (\<lambda>m. i \<le> snd m) out" "list_all (\<lambda>b. j < snd b \<and> j + l \<le> snd b) out"
      using out(3) jl by (auto simp: list_all_iff split: if_splits)
    ultimately show ?thesis using out(2,4) jl(1) len by (auto simp: list_all_iff)
  qed
qed

definition finding_ok :: "string \<Rightarrow> finding \<Rightarrow> bool" where
  "finding_ok text f \<longleftrightarrow> sp_index f + sp_length f \<le> length text \<and> sp_detectors f = None \<and>
     (let m = slice (sp_index f) (sp_index f + sp_length f) text in
      sp_detector f = ''cpf'' \<and> isValidCpf m \<or> sp_detector f = ''cnpj'' \<and> isValidCnpj m \<or> sp_detector f = ''email'' \<or>
      sp_detector f = ''phone_br'' \<and> length (digits m) \<in> {10, 11, 12, 13})"

lemma findAll_ends: "re2_ok exec \<Longrightarrow> \<exists>out. findAll exec text = Some out \<and> (\<forall>m \<in> set out. match_ok text m)"
  using findAll_from_ends [of exec "text" 0] by (auto simp: findAll_def list_all_iff)

lemma found_ok:
  assumes "match_ok text m" "d = ''cpf'' \<and> isValidCpf (fst m) \<or> d = ''cnpj'' \<and> isValidCnpj (fst m) \<or> d = ''email'' \<or>
      d = ''phone_br'' \<and> length (digits (fst m)) \<in> {10, 11, 12, 13}"
  shows "finding_ok text (found d m)"
  using assms unfolding finding_ok_def match_ok_def found_def Let_def by (metis finding.select_convs)

lemma filtered_ok:
  assumes "\<forall>m \<in> set out. match_ok text m"
    and "\<And>m. P m \<Longrightarrow> d = ''cpf'' \<and> isValidCpf (fst m) \<or> d = ''cnpj'' \<and> isValidCnpj (fst m) \<or> d = ''email'' \<or>
      d = ''phone_br'' \<and> length (digits (fst m)) \<in> {10, 11, 12, 13}"
  shows "list_all (finding_ok text) (map (found d) (filter P out))"
  using assms found_ok by (auto simp: list_all_iff)

lemma detect_all_ends:
  assumes "re2_ok (CPF_RE re)" "re2_ok (CNPJ_RE re)" "re2_ok (EMAIL_RE re)" "re2_ok (PHONE_BR_RE re)"
  shows "\<exists>fs. detectAllBaseline re text = Some fs \<and> list_all (finding_ok text) fs"
proof -
  obtain a b c d where f: "findAll (CPF_RE re) text = Some a" "findAll (CNPJ_RE re) text = Some b"
    "findAll (EMAIL_RE re) text = Some c" "findAll (PHONE_BR_RE re) text = Some d"
    and m: "\<forall>m \<in> set a. match_ok text m" "\<forall>m \<in> set b. match_ok text m" "\<forall>m \<in> set c. match_ok text m" "\<forall>m \<in> set d. match_ok text m"
    using assms [THEN findAll_ends, of "text"] by auto
  have e: "map (found ''email'') c = map (found ''email'') (filter (\<lambda>m. True) c)" by simp
  show ?thesis
    unfolding detectAllBaseline_def detectCpf_def detectCnpj_def detectEmail_def detectPhoneBr_def f option.map e
    using filtered_ok [OF m(1), of "\<lambda>m. isValidCpf (fst m)" "''cpf''"] filtered_ok [OF m(2), of "\<lambda>m. isValidCnpj (fst m)" "''cnpj''"]
      filtered_ok [OF m(3), of "\<lambda>m. True" "''email''"] filtered_ok [OF m(4), of "\<lambda>m. length (digits (fst m)) \<in> {10, 11, 12, 13}" "''phone_br''"]
    by simp
qed

text \<open>
  C39. The baseline scan ends on every text: with searches that stay in the text and do not go back,
  no detector's loop runs forever, empty matches included, and the findings it returns lie inside
  the text, each with the checksum or the digit count its detector asks for.
\<close>

theorem detect_all_terminates:
  assumes "re2_ok (CPF_RE re)" "re2_ok (CNPJ_RE re)" "re2_ok (EMAIL_RE re)" "re2_ok (PHONE_BR_RE re)"
  shows "\<exists>fs. detectAllBaseline re text = Some fs \<and> list_all (finding_ok text) fs"
  by (rule detect_all_ends [OF assms])

definition sample_re :: detectors where
  "sample_re = \<lparr> CPF_RE = (\<lambda>t i. if i = 0 \<and> 14 \<le> length t then Some (0, 14) else None), CNPJ_RE = (\<lambda>t i. None),
     EMAIL_RE = (\<lambda>t i. if i \<le> length t then Some (i, 0) else None),
     PHONE_BR_RE = (\<lambda>t i. if i \<le> 2 \<and> 14 \<le> length t then Some (2, 12) else None) \<rparr>"

lemma sample_re_ok: "re2_ok (CPF_RE sample_re)" "re2_ok (CNPJ_RE sample_re)" "re2_ok (EMAIL_RE sample_re)" "re2_ok (PHONE_BR_RE sample_re)"
  by (simp_all add: re2_ok_def sample_re_def)

theorem detect_all_terminates_witness:
  "\<exists>fs. detectAllBaseline sample_re ''529.982.247-25'' = Some fs \<and> list_all (finding_ok ''529.982.247-25'') fs"
  by (rule detect_all_terminates [OF sample_re_ok])

section \<open>The merge\<close>

definition covers :: "merged \<Rightarrow> nat set" where
  "covers m = {mg_index m ..< mg_index m + mg_length m}"

definition span_positions :: "finding \<Rightarrow> nat set" where
  "span_positions f = {sp_index f ..< sp_index f + sp_length f}"

text \<open>Apart by at least one position, in order: disjoint, sorted and not touching.\<close>

definition apart :: "merged list \<Rightarrow> bool" where
  "apart ms = sorted_wrt (\<lambda>a b. mg_index a + mg_length a < mg_index b) ms"

definition holds :: "merged \<Rightarrow> nat \<Rightarrow> nat \<Rightarrow> string set \<Rightarrow> bool" where
  "holds m i j ds \<longleftrightarrow> mg_index m \<le> i \<and> j \<le> mg_index m + mg_length m \<and> ds \<subseteq> set (mg_detectors m)"

lemma flush_simps [simp]:
  "mg_index (flush a b ms) = a" "mg_length (flush a b ms) = b - a" "mg_detectors (flush a b ms) = sort (remdups ms)"
  by (simp_all add: flush_def Let_def)

lemma merge_loop_cases:
  "merge_loop start end' ms (f # fs) =
     (if sp_index f \<le> end' then merge_loop start (max end' (sp_index f + sp_length f)) (ms @ members f) fs
      else flush start end' ms # merge_loop (sp_index f) (sp_index f + sp_length f) (members f) fs)"
  by (auto simp: Let_def max_def intro: arg_cong [where f = "\<lambda>e. merge_loop start e (ms @ members f) fs"])

declare merge_loop.simps(2) [simp del]

lemma merge_loop_from:
  "sorted (map sp_index fs) \<Longrightarrow> \<forall>f \<in> set fs. start \<le> sp_index f \<Longrightarrow> \<forall>m \<in> set (merge_loop start end' ms fs). start \<le> mg_index m"
proof (induction fs arbitrary: start end' ms)
  case (Cons f fs)
  then have s: "sorted (map sp_index fs)" "\<forall>g \<in> set fs. sp_index f \<le> sp_index g" "\<forall>g \<in> set fs. start \<le> sp_index g" "start \<le> sp_index f"
    by auto
  show ?case
    using Cons.IH [OF s(1,3)] Cons.IH [OF s(1,2)] s(4) by (auto simp: merge_loop_cases intro: order.trans)
qed simp

lemma merge_loop_apart:
  "sorted (map sp_index fs) \<Longrightarrow> start \<le> end' \<Longrightarrow> \<forall>f \<in> set fs. start \<le> sp_index f \<Longrightarrow> apart (merge_loop start end' ms fs)"
proof (induction fs arbitrary: start end' ms)
  case (Cons f fs)
  then have s: "sorted (map sp_index fs)" "\<forall>g \<in> set fs. sp_index f \<le> sp_index g" "\<forall>g \<in> set fs. start \<le> sp_index g" "start \<le> sp_index f"
    by auto
  show ?case
  proof (cases "sp_index f \<le> end'")
    case True
    then show ?thesis using Cons.IH [OF s(1) _ s(3)] Cons.prems(2) by (simp add: merge_loop_cases le_max_iff_disj)
  next
    case False
    have "\<forall>m \<in> set (merge_loop (sp_index f) (sp_index f + sp_length f) (members f) fs). end' < mg_index m"
      using merge_loop_from [OF s(1,2), of "sp_index f + sp_length f" "members f"] False by auto
    moreover have "apart (merge_loop (sp_index f) (sp_index f + sp_length f) (members f) fs)"
      by (rule Cons.IH [OF s(1) le_add1 s(2)])
    ultimately show ?thesis using False Cons.prems(2) by (simp add: merge_loop_cases apart_def)
  qed
qed (simp add: apart_def)

lemma merge_loop_covers:
  "sorted (map sp_index fs) \<Longrightarrow> start \<le> end' \<Longrightarrow> \<forall>f \<in> set fs. start \<le> sp_index f \<Longrightarrow>
   (\<Union>m \<in> set (merge_loop start end' ms fs). covers m) = {start..<end'} \<union> (\<Union>f \<in> set fs. span_positions f)"
proof (induction fs arbitrary: start end' ms)
  case (Cons f fs)
  then have s: "sorted (map sp_index fs)" "\<forall>g \<in> set fs. sp_index f \<le> sp_index g" "\<forall>g \<in> set fs. start \<le> sp_index g" "start \<le> sp_index f"
    by auto
  show ?case
  proof (cases "sp_index f \<le> end'")
    case True
    have u: "{start..<max end' (sp_index f + sp_length f)} = {start..<end'} \<union> span_positions f"
      using True s(4) Cons.prems(2) by (auto simp: span_positions_def)
    have n: "start \<le> max end' (sp_index f + sp_length f)" using Cons.prems(2) by simp
    have "merge_loop start end' ms (f # fs) = merge_loop start (max end' (sp_index f + sp_length f)) (ms @ members f) fs"
      using True by (simp add: merge_loop_cases)
    then show ?thesis by (simp only: Cons.IH [OF s(1) n s(3)] u) (simp add: Un_assoc)
  next
    case False
    then have r: "merge_loop start end' ms (f # fs) =
        flush start end' ms # merge_loop (sp_index f) (sp_index f + sp_length f) (members f) fs"
      by (simp add: merge_loop_cases)
    have "covers (flush start end' ms) = {start..<end'}" using Cons.prems(2) by (auto simp: covers_def)
    then show ?thesis
      unfolding r list.set UN_insert Cons.IH [OF s(1) le_add1 s(2)] by (simp add: span_positions_def)
  qed
qed (simp add: covers_def)

lemma merge_loop_members:
  "(\<Union>m \<in> set (merge_loop start end' ms fs). set (mg_detectors m)) = set ms \<union> (\<Union>f \<in> set fs. set (members f))"
  by (induction fs arbitrary: start end' ms) (simp_all add: merge_loop_cases Un_assoc)

lemma merge_loop_form:
  "start \<le> end' \<Longrightarrow> m \<in> set (merge_loop start end' ms fs) \<Longrightarrow>
   mg_index m \<in> insert start (sp_index ` set fs) \<and> (\<exists>a b ds. a \<le> b \<and> m = flush a b ds)"
proof (induction fs arbitrary: start end' ms)
  case (Cons f fs)
  show ?case
  proof (cases "sp_index f \<le> end'")
    case True
    then show ?thesis
      using Cons.IH [of start "max end' (sp_index f + sp_length f)" "ms @ members f"] Cons.prems
      by (auto simp: merge_loop_cases le_max_iff_disj)
  next
    case False
    then show ?thesis
      using Cons.IH [of "sp_index f" "sp_index f + sp_length f" "members f"] Cons.prems
      by (auto simp: merge_loop_cases)
  qed
qed auto

lemma merge_loop_holds:
  "sorted (map sp_index fs) \<Longrightarrow> \<forall>f \<in> set fs. start \<le> sp_index f \<Longrightarrow>
   (\<exists>m \<in> set (merge_loop start end' ms fs). holds m start end' (set ms)) \<and>
   (\<forall>f \<in> set fs. \<exists>m \<in> set (merge_loop start end' ms fs). holds m (sp_index f) (sp_index f + sp_length f) (set (members f)))"
proof (induction fs arbitrary: start end' ms)
  case (Cons f fs)
  then have s: "sorted (map sp_index fs)" "\<forall>g \<in> set fs. sp_index f \<le> sp_index g" "\<forall>g \<in> set fs. start \<le> sp_index g" "start \<le> sp_index f"
    by auto
  show ?case
  proof (cases "sp_index f \<le> end'")
    case True
    let ?ms = "merge_loop start (max end' (sp_index f + sp_length f)) (ms @ members f) fs"
    have r: "merge_loop start end' ms (f # fs) = ?ms" using True by (simp add: merge_loop_cases)
    note ih = Cons.IH [OF s(1,3), of "max end' (sp_index f + sp_length f)" "ms @ members f"]
    then obtain m where m: "m \<in> set ?ms" "holds m start (max end' (sp_index f + sp_length f)) (set (ms @ members f))" by blast
    then have "holds m start end' (set ms)" "holds m (sp_index f) (sp_index f + sp_length f) (set (members f))"
      using s(4) by (auto simp: holds_def)
    with m(1) ih show ?thesis unfolding r by auto
  next
    case False
    then have r: "merge_loop start end' ms (f # fs) =
        flush start end' ms # merge_loop (sp_index f) (sp_index f + sp_length f) (members f) fs"
      by (simp add: merge_loop_cases)
    have "holds (flush start end' ms) start end' (set ms)" by (auto simp: holds_def)
    with Cons.IH [OF s(1,2), of "sp_index f + sp_length f" "members f"] show ?thesis unfolding r by auto
  qed
qed (auto simp: holds_def)

lemma insert_span_set: "set (insert_span le x ys) = insert x (set ys)"
  by (induction ys) auto

lemma sort_spans_set: "set (sort_spans le xs) = set xs"
  by (induction xs) (simp_all add: sort_spans_def insert_span_set)

lemma span_before_index: "span_before cmp a b \<Longrightarrow> sp_index a \<le> sp_index b" "\<not> span_before cmp a b \<Longrightarrow> sp_index b \<le> sp_index a"
  by (auto simp: span_before_def split: if_splits)

lemma insert_span_sorted:
  "sorted (map sp_index ys) \<Longrightarrow> sorted (map sp_index (insert_span (span_before cmp) x ys))"
proof (induction ys)
  case (Cons y ys)
  then show ?case
    using span_before_index [of cmp x y] by (auto simp: insert_span_set)
qed simp

lemma sort_spans_sorted: "sorted (map sp_index (sort_spans (span_before cmp) xs))"
  by (induction xs) (simp_all add: sort_spans_def insert_span_sorted)

lemma merge_as_loop:
  assumes "findings \<noteq> []"
  obtains f fs where "set findings = set (f # fs)" "sorted (map sp_index fs)" "\<forall>g \<in> set fs. sp_index f \<le> sp_index g"
    "mergeFindingSpans cmp findings = merge_loop (sp_index f) (sp_index f + sp_length f) (members f) fs"
proof (cases "sort_spans (span_before cmp) findings")
  case Nil
  then show ?thesis using sort_spans_set [of "span_before cmp" findings] assms by simp
next
  case (Cons f fs)
  show ?thesis
    by (rule that [of f fs])
      (use Cons sort_spans_set [of "span_before cmp" findings] sort_spans_sorted [of cmp findings]
        in \<open>auto simp: mergeFindingSpans_def\<close>)
qed

text \<open>A merged span read back as a finding, as \<open>mergeFindingSpans\<close> reads it.\<close>

definition as_finding :: "merged \<Rightarrow> finding" where
  "as_finding m = \<lparr> sp_detector = mg_detector m, sp_index = mg_index m, sp_length = mg_length m, sp_detectors = Some (mg_detectors m) \<rparr>"

lemma as_finding_simps [simp]:
  "sp_index (as_finding m) = mg_index m" "sp_length (as_finding m) = mg_length m" "members (as_finding m) = mg_detectors m"
  by (simp_all add: as_finding_def members_def)

lemma flush_again:
  assumes "a \<le> b"
  shows "flush a (a + mg_length (flush a b ds)) (mg_detectors (flush a b ds)) = flush a b ds"
proof -
  have "sort (remdups (sort (remdups ds))) = sort (remdups ds)"
    by (simp add: distinct_remdups_id sorted_sort_id)
  with assms show ?thesis by (simp add: flush_def Let_def)
qed

lemma sort_apart: "apart ms \<Longrightarrow> sort_spans (span_before cmp) (map as_finding ms) = map as_finding ms"
proof (induction ms)
  case (Cons m ms)
  then have "sort_spans (span_before cmp) (map as_finding ms) = map as_finding ms" "\<forall>n \<in> set ms. mg_index m < mg_index n"
    by (auto simp: apart_def)
  then have "sort_spans (span_before cmp) (map as_finding (m # ms)) = insert_span (span_before cmp) (as_finding m) (map as_finding ms)"
    and "\<forall>n \<in> set ms. span_before cmp (as_finding m) (as_finding n)"
    by (auto simp: sort_spans_def span_before_def)
  then show ?case by (cases ms) auto
qed (simp add: sort_spans_def)

lemma merge_loop_apart_id:
  "apart (m # ms) \<Longrightarrow> \<forall>n \<in> set (m # ms). \<exists>a b ds. a \<le> b \<and> n = flush a b ds \<Longrightarrow>
   merge_loop (mg_index m) (mg_index m + mg_length m) (mg_detectors m) (map as_finding ms) = m # ms"
proof (induction ms arbitrary: m)
  case Nil
  then show ?case using flush_again by fastforce
next
  case (Cons n ns)
  then have "mg_index m + mg_length m < mg_index n" "apart (n # ns)" by (auto simp: apart_def)
  moreover have "flush (mg_index m) (mg_index m + mg_length m) (mg_detectors m) = m"
    using Cons.prems(2) flush_again by fastforce
  ultimately show ?case using Cons.IH [of n] Cons.prems(2) by (simp add: merge_loop_cases)
qed

lemma merge_form: "m \<in> set (mergeFindingSpans cmp fs) \<Longrightarrow> mg_index m \<in> sp_index ` set fs \<and> (\<exists>a b ds. a \<le> b \<and> m = flush a b ds)"
proof (cases "fs = []")
  case False
  assume m: "m \<in> set (mergeFindingSpans cmp fs)"
  from False show ?thesis
    by (rule merge_as_loop [where cmp = cmp]) (use m merge_loop_form [OF le_add1] in auto)
qed (simp add: mergeFindingSpans_def sort_spans_def)

lemma merge_apart: "apart (mergeFindingSpans cmp fs)"
proof (cases "fs = []")
  case False
  then show ?thesis by (rule merge_as_loop [where cmp = cmp]) (use merge_loop_apart [OF _ le_add1] in auto)
qed (simp add: mergeFindingSpans_def sort_spans_def apart_def)

lemma merge_idem: "mergeFindingSpans cmp (map as_finding (mergeFindingSpans cmp' fs)) = mergeFindingSpans cmp' fs"
proof (cases "mergeFindingSpans cmp' fs")
  case (Cons m ms)
  have "apart (m # ms)" "\<forall>n \<in> set (m # ms). \<exists>a b ds. a \<le> b \<and> n = flush a b ds"
    unfolding Cons [symmetric] using merge_apart merge_form by auto
  then have "mergeFindingSpans cmp (map as_finding (m # ms)) = m # ms"
    using merge_loop_apart_id [of m ms] sort_apart [of "m # ms" cmp] by (simp add: mergeFindingSpans_def)
  then show ?thesis unfolding Cons .
qed (simp add: mergeFindingSpans_def sort_spans_def)

lemma merge_holds: "f \<in> set fs \<Longrightarrow> \<exists>m \<in> set (mergeFindingSpans cmp fs). holds m (sp_index f) (sp_index f + sp_length f) (set (members f))"
proof -
  assume f: "f \<in> set fs"
  then have "fs \<noteq> []" by auto
  then show ?thesis
  proof (rule merge_as_loop [where cmp = cmp])
    fix g gs assume g: "set fs = set (g # gs)" "sorted (map sp_index gs)" "\<forall>h \<in> set gs. sp_index g \<le> sp_index h"
      "mergeFindingSpans cmp fs = merge_loop (sp_index g) (sp_index g + sp_length g) (members g) gs"
    from f g(1) have "f = g \<or> f \<in> set gs" by auto
    then show ?thesis unfolding g(4) using merge_loop_holds [OF g(2,3)] by blast
  qed
qed

lemma merge_covers: "(\<Union>m \<in> set (mergeFindingSpans cmp fs). covers m) = (\<Union>f \<in> set fs. span_positions f)"
proof (cases "fs = []")
  case False
  then show ?thesis
  proof (rule merge_as_loop [where cmp = cmp])
    fix g gs assume g: "set fs = set (g # gs)" "sorted (map sp_index gs)" "\<forall>h \<in> set gs. sp_index g \<le> sp_index h"
      "mergeFindingSpans cmp fs = merge_loop (sp_index g) (sp_index g + sp_length g) (members g) gs"
    show ?thesis unfolding g(4) g(1) merge_loop_covers [OF g(2) le_add1 g(3)] by (simp add: span_positions_def)
  qed
qed (simp add: mergeFindingSpans_def sort_spans_def)

lemma merge_members: "(\<Union>m \<in> set (mergeFindingSpans cmp fs). set (mg_detectors m)) = (\<Union>f \<in> set fs. set (members f))"
proof (cases "fs = []")
  case False
  then show ?thesis
  proof (rule merge_as_loop [where cmp = cmp])
    fix g gs assume g: "set fs = set (g # gs)"
      "mergeFindingSpans cmp fs = merge_loop (sp_index g) (sp_index g + sp_length g) (members g) gs"
    show ?thesis unfolding g(2) g(1) merge_loop_members by simp
  qed
qed (simp add: mergeFindingSpans_def sort_spans_def)

text \<open>
  C37. The span merge: the spans are sorted, pairwise disjoint and not even touching; together they
  cover exactly the positions the findings cover; every finding lies inside one span that names all
  its detectors, no detector is invented or lost; and merging the result again, under any collation,
  gives the same spans, labels and members.
\<close>

theorem merge_spans_correct:
  "apart (mergeFindingSpans cmp fs) \<and>
   (\<Union>m \<in> set (mergeFindingSpans cmp fs). covers m) = (\<Union>f \<in> set fs. span_positions f) \<and>
   list_all (\<lambda>f. list_ex (\<lambda>m. holds m (sp_index f) (sp_index f + sp_length f) (set (members f))) (mergeFindingSpans cmp fs)) fs \<and>
   (\<Union>m \<in> set (mergeFindingSpans cmp fs). set (mg_detectors m)) = (\<Union>f \<in> set fs. set (members f)) \<and>
   mergeFindingSpans cmp' (map as_finding (mergeFindingSpans cmp fs)) = mergeFindingSpans cmp fs"
  using merge_holds [of _ fs cmp]
  by (simp add: merge_apart merge_covers merge_members merge_idem list_all_iff list_ex_iff)

section \<open>The redaction\<close>

definition marker :: "merged \<Rightarrow> string" where
  "marker s = ''[REDACTED:'' @ mg_detector s @ '']''"

text \<open>What one position of the text becomes: the marker of the span that starts there, nothing inside a span, itself outside.\<close>

definition redacted_at :: "string \<Rightarrow> merged list \<Rightarrow> nat \<Rightarrow> string" where
  "redacted_at t ss p =
     (case find (\<lambda>s. mg_index s = p) ss of
        Some s \<Rightarrow> marker s
      | None \<Rightarrow> if list_ex (\<lambda>s. mg_index s \<le> p \<and> p < mg_index s + mg_length s) ss then [] else [t ! p])"

lemma slice_upt: "j \<le> length t \<Longrightarrow> slice i j t = concat (map (\<lambda>p. [t ! p]) [i..<j])"
  by (rule nth_equalityI) (simp_all add: slice_def concat_map_singleton)

lemma apart_cases:
  "apart ms \<Longrightarrow> m \<in> set ms \<Longrightarrow> n \<in> set ms \<Longrightarrow>
   m = n \<or> mg_index m + mg_length m < mg_index n \<or> mg_index n + mg_length n < mg_index m"
  by (induction ms) (auto simp: apart_def)

lemma upt_split: "i \<le> j \<Longrightarrow> j \<le> k \<Longrightarrow> [i..<k] = [i..<j] @ [j..<k]"
  using upt_add_eq_append [of i j "k - j"] by simp

lemma find_SomeD: "find P xs = Some x \<Longrightarrow> x \<in> set xs \<and> P x"
  by (induction xs) (auto split: if_splits)

lemma redact_loop_positions:
  "apart ss \<Longrightarrow> \<forall>s \<in> set ss. c \<le> mg_index s \<and> 0 < mg_length s \<and> mg_index s + mg_length s \<le> length t \<Longrightarrow> c \<le> length t \<Longrightarrow>
   redact_loop t c ss = concat (map (redacted_at t ss) [c..<length t])"
proof (induction ss arbitrary: c)
  case Nil
  then have "drop c t = slice c (length t) t" by (simp add: slice_def)
  also have "\<dots> = concat (map (\<lambda>p. [t ! p]) [c..<length t])" by (rule slice_upt) simp
  finally show ?case by (simp add: redacted_at_def [abs_def])
next
  case (Cons s ss)
  let ?i = "mg_index s" and ?j = "mg_index s + mg_length s"
  have b: "c \<le> ?i" "?i < ?j" "?j \<le> length t" using Cons.prems by auto
  have after: "\<forall>n \<in> set ss. ?j < mg_index n" "apart ss" using Cons.prems(1) by (auto simp: apart_def)
  have ih: "redact_loop t ?j ss = concat (map (redacted_at t ss) [?j..<length t])"
    by (rule Cons.IH) (use after Cons.prems b in \<open>auto intro: less_imp_le\<close>)
  have pre: "redacted_at t (s # ss) p = [t ! p]" if "p < ?i" for p
    using that after by (auto simp: redacted_at_def list_ex_iff find_None_iff split: option.split dest!: find_SomeD)
  have at: "redacted_at t (s # ss) ?i = marker s" by (simp add: redacted_at_def)
  have inside: "redacted_at t (s # ss) p = []" if "?i < p" "p < ?j" for p
    using that after by (auto simp: redacted_at_def list_ex_iff split: option.split dest!: find_SomeD)
  have post: "redacted_at t (s # ss) p = redacted_at t ss p" if "?j \<le> p" for p
    using that b by (auto simp: redacted_at_def)
  have e1: "[c..<length t] = [c..<?i] @ ?i # [Suc ?i..<?j] @ [?j..<length t]"
    using upt_split [of c ?i "length t"] upt_split [of ?i ?j "length t"] upt_conv_Cons [of ?i ?j] b by simp
  have e2: "concat (map (redacted_at t (s # ss)) [c..<?i]) = slice c ?i t"
  proof -
    have "map (redacted_at t (s # ss)) [c..<?i] = map (\<lambda>p. [t ! p]) [c..<?i]" by (rule map_cong) (auto simp: pre)
    then show ?thesis using slice_upt [of ?i t c] b by (simp only:)
  qed
  have e3: "concat (map (redacted_at t (s # ss)) [Suc ?i..<?j]) = []" by (auto simp: inside)
  have e4: "map (redacted_at t (s # ss)) [?j..<length t] = map (redacted_at t ss) [?j..<length t]"
    by (auto simp: post)
  have "concat (map (redacted_at t (s # ss)) [c..<length t]) = slice c ?i t @ marker s @ concat (map (redacted_at t ss) [?j..<length t])"
    unfolding e1 map_append list.map concat_append concat.simps e2 e3 e4 at by simp
  then show ?case by (simp add: ih marker_def)
qed

subsection \<open>The redaction, from the findings alone\<close>

text \<open>
  What one position of the text must become, said of the findings without the merge: a position no
  finding covers is itself; the first of a run of covered positions is a marker, the others are
  dropped. The marker names the first of the run's detectors in string order, CPF and CNPJ first.
\<close>

definition covered :: "finding list \<Rightarrow> nat \<Rightarrow> bool" where
  "covered fs p = list_ex (\<lambda>f. sp_index f \<le> p \<and> p < sp_index f + sp_length f) fs"

definition in_run :: "finding list \<Rightarrow> nat \<Rightarrow> finding \<Rightarrow> bool" where
  "in_run fs p f = (p \<le> sp_index f \<and> list_all (covered fs) [p..<Suc (sp_index f)])"

definition run_label :: "finding list \<Rightarrow> nat \<Rightarrow> string" where
  "run_label fs p =
     (let ds = sort (remdups (concat (map members (filter (in_run fs p) fs))))
      in case filter (\<lambda>d. d = ''cpf'' \<or> d = ''cnpj'') ds @ ds of d # _ \<Rightarrow> d | [] \<Rightarrow> ''undefined'')"

definition redacted_position :: "string \<Rightarrow> finding list \<Rightarrow> nat \<Rightarrow> string" where
  "redacted_position t fs p =
     (if \<not> covered fs p then [t ! p]
      else if p = 0 \<or> \<not> covered fs (p - 1) then ''[REDACTED:'' @ run_label fs p @ '']'' else [])"

lemma merge_loop_own:
  "sorted (map sp_index fs) \<Longrightarrow> start \<le> end' \<Longrightarrow> \<forall>f \<in> set fs. start \<le> sp_index f \<Longrightarrow>
   m \<in> set (merge_loop start end' ms fs) \<Longrightarrow> d \<in> set (mg_detectors m) \<Longrightarrow>
   d \<in> set ms \<and> mg_index m = start \<and> end' \<le> mg_index m + mg_length m \<or>
   (\<exists>f \<in> set fs. d \<in> set (members f) \<and> mg_index m \<le> sp_index f \<and> sp_index f + sp_length f \<le> mg_index m + mg_length m)"
proof (induction fs arbitrary: start end' ms)
  case (Cons f fs)
  then have s: "sorted (map sp_index fs)" "\<forall>g \<in> set fs. sp_index f \<le> sp_index g" "\<forall>g \<in> set fs. start \<le> sp_index g" "start \<le> sp_index f"
    by auto
  show ?case
  proof (cases "sp_index f \<le> end'")
    case True
    then have "m \<in> set (merge_loop start (max end' (sp_index f + sp_length f)) (ms @ members f) fs)"
      using Cons.prems(4) by (simp add: merge_loop_cases)
    moreover have "start \<le> max end' (sp_index f + sp_length f)" using Cons.prems(2) by simp
    ultimately show ?thesis using Cons.IH [OF s(1) _ s(3) _ Cons.prems(5)] s(4) by fastforce
  next
    case False
    then consider "m = flush start end' ms" | "m \<in> set (merge_loop (sp_index f) (sp_index f + sp_length f) (members f) fs)"
      using Cons.prems(4) by (auto simp: merge_loop_cases)
    then show ?thesis
    proof cases
      case 1
      then show ?thesis using Cons.prems(2,5) by auto
    next
      case 2
      from Cons.IH [OF s(1) le_add1 s(2) this Cons.prems(5)] show ?thesis by auto
    qed
  qed
qed auto

lemma merge_own:
  assumes "m \<in> set (mergeFindingSpans cmp fs)" "d \<in> set (mg_detectors m)"
  shows "\<exists>f \<in> set fs. d \<in> set (members f) \<and> mg_index m \<le> sp_index f \<and> sp_index f + sp_length f \<le> mg_index m + mg_length m"
proof (cases "fs = []")
  case False
  then show ?thesis
  proof (rule merge_as_loop [where cmp = cmp])
    fix g gs assume g: "set fs = set (g # gs)" "sorted (map sp_index gs)" "\<forall>h \<in> set gs. sp_index g \<le> sp_index h"
      "mergeFindingSpans cmp fs = merge_loop (sp_index g) (sp_index g + sp_length g) (members g) gs"
    from merge_loop_own [OF g(2) le_add1 g(3) assms [unfolded g(4)]] show ?thesis unfolding g(1) by auto
  qed
qed (use assms in \<open>simp add: mergeFindingSpans_def sort_spans_def\<close>)

lemma flush_label:
  "mg_detector (flush a b ms) =
     (case filter (\<lambda>d. d = ''cpf'' \<or> d = ''cnpj'') (sort (remdups ms)) @ sort (remdups ms) of d # _ \<Rightarrow> d | [] \<Rightarrow> ''undefined'')"
proof -
  have "filter (\<lambda>d. d \<in> set BASELINE_STRONG_DETECTORS) ds = filter (\<lambda>d. d = ''cpf'' \<or> d = ''cnpj'') ds" for ds
    by (rule filter_cong) (auto simp: BASELINE_STRONG_DETECTORS_def)
  then show ?thesis by (simp add: flush_def Let_def split: list.split)
qed

lemma sort_remdups_cong: "set xs = set ys \<Longrightarrow> sort (remdups xs) = sort (remdups (ys :: string list))"
  by (intro sorted_distinct_set_unique) simp_all

text \<open>On findings of at least one character inside the text the spans are the runs of covered positions.\<close>

lemma merged_runs:
  assumes fs: "\<forall>f \<in> set fs. 0 < sp_length f \<and> sp_index f + sp_length f \<le> n"
  shows "covered fs p \<longleftrightarrow> (\<exists>m \<in> set (mergeFindingSpans cmp fs). mg_index m \<le> p \<and> p < mg_index m + mg_length m)"
    and "m \<in> set (mergeFindingSpans cmp fs) \<Longrightarrow> 0 < mg_length m \<and> mg_index m + mg_length m \<le> n"
proof -
  show cov: "covered fs p \<longleftrightarrow> (\<exists>m \<in> set (mergeFindingSpans cmp fs). mg_index m \<le> p \<and> p < mg_index m + mg_length m)" for p
  proof -
    have "covered fs p \<longleftrightarrow> p \<in> (\<Union>f \<in> set fs. span_positions f)" by (auto simp: covered_def list_ex_iff span_positions_def)
    also have "\<dots> \<longleftrightarrow> p \<in> (\<Union>m \<in> set (mergeFindingSpans cmp fs). covers m)" by (simp only: merge_covers)
    finally show ?thesis by (auto simp: covers_def)
  qed
  let ?ss = "mergeFindingSpans cmp fs"
  assume s: "m \<in> set ?ss"
  from merge_form [OF s] obtain f where f: "f \<in> set fs" "mg_index m = sp_index f" by auto
  from merge_holds [OF f(1), of cmp] obtain k where k: "k \<in> set ?ss" "holds k (sp_index f) (sp_index f + sp_length f) (set (members f))" by blast
  have len: "0 < sp_length f" using f(1) fs by auto
  have "k = m" using apart_cases [OF merge_apart k(1) s] k(2) len f(2) by (auto simp: holds_def)
  with k(2) len f(2) have pos: "0 < mg_length m" by (auto simp: holds_def)
  then have "covered fs (mg_index m + mg_length m - 1)" using s by (subst cov) (intro bexI [of _ m], auto)
  with fs pos show "0 < mg_length m \<and> mg_index m + mg_length m \<le> n" by (fastforce simp: covered_def list_ex_iff)
qed

lemma run_of_span:
  assumes fs: "\<forall>f \<in> set fs. 0 < sp_length f \<and> sp_index f + sp_length f \<le> n"
    and m: "m \<in> set (mergeFindingSpans cmp fs)" and f: "f \<in> set fs"
  shows "in_run fs (mg_index m) f \<longleftrightarrow> mg_index m \<le> sp_index f \<and> sp_index f + sp_length f \<le> mg_index m + mg_length m"
proof
  note cov = merged_runs(1) [OF fs, of _ cmp] and len = bspec [OF fs f]
  assume r: "in_run fs (mg_index m) f"
  then have le: "mg_index m \<le> sp_index f" by (simp add: in_run_def)
  from merge_holds [OF f, of cmp] obtain k where k: "k \<in> set (mergeFindingSpans cmp fs)"
    "holds k (sp_index f) (sp_index f + sp_length f) (set (members f))" by blast
  have "\<not> mg_index m + mg_length m < mg_index k"
  proof
    assume gap: "mg_index m + mg_length m < mg_index k"
    with k(2) r have "covered fs (mg_index m + mg_length m)" by (auto simp: holds_def in_run_def list_all_iff)
    then obtain q where q: "q \<in> set (mergeFindingSpans cmp fs)" "mg_index q \<le> mg_index m + mg_length m"
      "mg_index m + mg_length m < mg_index q + mg_length q" unfolding cov by blast
    with apart_cases [OF merge_apart q(1) m] show False by auto
  qed
  with apart_cases [OF merge_apart k(1) m] k(2) le len have "k = m" by (auto simp: holds_def)
  with k(2) le show "mg_index m \<le> sp_index f \<and> sp_index f + sp_length f \<le> mg_index m + mg_length m" by (simp add: holds_def)
next
  assume "mg_index m \<le> sp_index f \<and> sp_index f + sp_length f \<le> mg_index m + mg_length m"
  with bspec [OF fs f] m show "in_run fs (mg_index m) f"
    unfolding in_run_def list_all_iff merged_runs(1) [OF fs, of _ cmp] by (auto intro!: bexI [of _ m])
qed

lemma span_label:
  assumes fs: "\<forall>f \<in> set fs. 0 < sp_length f \<and> sp_index f + sp_length f \<le> n" and m: "m \<in> set (mergeFindingSpans cmp fs)"
  shows "mg_detector m = run_label fs (mg_index m)"
proof -
  from merge_form [OF m] obtain a b ms where fl: "m = flush a b ms" by blast
  have "set (mg_detectors m) = set (concat (map members (filter (in_run fs (mg_index m)) fs)))"
  proof
    show "set (mg_detectors m) \<subseteq> set (concat (map members (filter (in_run fs (mg_index m)) fs)))"
      using merge_own [OF m] run_of_span [OF fs m] by fastforce
    show "set (concat (map members (filter (in_run fs (mg_index m)) fs))) \<subseteq> set (mg_detectors m)"
    proof
      fix d assume "d \<in> set (concat (map members (filter (in_run fs (mg_index m)) fs)))"
      then obtain f where f: "f \<in> set fs" "d \<in> set (members f)" "in_run fs (mg_index m) f" by auto
      from merge_holds [OF f(1), of cmp] obtain k where k: "k \<in> set (mergeFindingSpans cmp fs)"
        "holds k (sp_index f) (sp_index f + sp_length f) (set (members f))" by blast
      have "k = m" using apart_cases [OF merge_apart k(1) m] k(2) bspec [OF fs f(1)] f(3) run_of_span [OF fs m f(1)]
        by (auto simp: holds_def)
      with k(2) f(2) show "d \<in> set (mg_detectors m)" by (auto simp: holds_def)
    qed
  qed
  then have "sort (remdups ms) = sort (remdups (concat (map members (filter (in_run fs (mg_index m)) fs))))"
    by (intro sort_remdups_cong) (simp add: fl)
  then show ?thesis by (simp add: run_label_def Let_def flush_label fl)
qed

lemma redacted_at_position:
  assumes fs: "\<forall>f \<in> set fs. 0 < sp_length f \<and> sp_index f + sp_length f \<le> n"
  shows "redacted_at t (mergeFindingSpans cmp fs) p = redacted_position t fs p"
proof -
  let ?ss = "mergeFindingSpans cmp fs"
  note cov = merged_runs(1) [OF fs, of _ cmp] and len = merged_runs(2) [OF fs]
  show ?thesis
  proof (cases "find (\<lambda>s. mg_index s = p) ?ss")
    case (Some s)
    then have s: "s \<in> set ?ss" "mg_index s = p" by (auto dest: find_SomeD)
    have "covered fs p" unfolding cov using s len [OF s(1)] by (intro bexI [of _ s]) auto
    moreover have "\<not> covered fs (p - 1)" if "p \<noteq> 0"
    proof
      assume "covered fs (p - 1)"
      then obtain q where q: "q \<in> set ?ss" "mg_index q \<le> p - 1" "p - 1 < mg_index q + mg_length q" unfolding cov by blast
      with apart_cases [OF merge_apart q(1) s(1)] s(2) that show False by auto
    qed
    ultimately show ?thesis
      using Some span_label [OF fs s(1)] s(2) by (auto simp: redacted_at_def redacted_position_def marker_def)
  next
    case None
    then have none: "mg_index s \<noteq> p" if "s \<in> set ?ss" for s using that by (auto simp: find_None_iff)
    have before: "p \<noteq> 0 \<and> covered fs (p - 1)" if c: "covered fs p"
    proof -
      from c obtain q where q: "q \<in> set ?ss" "mg_index q \<le> p" "p < mg_index q + mg_length q" unfolding cov by blast
      with none [OF q(1)] have "mg_index q \<le> p - 1 \<and> p - 1 < mg_index q + mg_length q" "p \<noteq> 0" by auto
      then show ?thesis unfolding cov using q(1) by blast
    qed
    have "list_ex (\<lambda>s. mg_index s \<le> p \<and> p < mg_index s + mg_length s) ?ss \<longleftrightarrow> covered fs p" by (simp add: cov list_ex_iff)
    with None before show ?thesis by (auto simp: redacted_at_def redacted_position_def)
  qed
qed

text \<open>
  C38. The redaction, position by position, said of the findings alone: on findings of at least one
  character inside the text, the output is the text in which every position no finding covers is
  kept, in order, the first position of every run of covered positions is replaced by a marker
  naming the run's first detector (CPF and CNPJ first), and every other covered position is dropped.
  So no character of a finding is in the output and none outside is lost.
\<close>

theorem redaction_by_position:
  assumes "list_all (\<lambda>f. 0 < sp_length f \<and> sp_index f + sp_length f \<le> length t) fs"
  shows "redactFindings cmp t fs = concat (map (redacted_position t fs) [0..<length t])"
proof -
  have fs: "\<forall>f \<in> set fs. 0 < sp_length f \<and> sp_index f + sp_length f \<le> length t" using assms by (simp add: list_all_iff)
  have "redact_loop t 0 (mergeFindingSpans cmp fs) = concat (map (redacted_at t (mergeFindingSpans cmp fs)) [0..<length t])"
    by (rule redact_loop_positions [OF merge_apart]) (use merged_runs(2) [OF fs] in auto)
  then show ?thesis by (simp add: redactFindings_def redacted_at_position [OF fs] cong: map_cong)
qed

definition two_findings :: "finding list" where
  "two_findings = [\<lparr> sp_detector = ''phone_br'', sp_index = 3, sp_length = 4, sp_detectors = None \<rparr>,
     \<lparr> sp_detector = ''cpf'', sp_index = 2, sp_length = 3, sp_detectors = None \<rparr>]"

theorem redaction_by_position_witness:
  "redactFindings (\<lambda>a b. 0) ''ab12345cd'' two_findings = ''ab[REDACTED:cpf]cd''"
proof -
  have "list_all (\<lambda>f. 0 < sp_length f \<and> sp_index f + sp_length f \<le> length ''ab12345cd'') two_findings" by code_simp
  note r = redaction_by_position [OF this, of "\<lambda>a b. 0"]
  have "concat (map (redacted_position ''ab12345cd'' two_findings) [0..<length ''ab12345cd'']) = ''ab[REDACTED:cpf]cd''" by code_simp
  with r show ?thesis by metis
qed

section \<open>The policy decision\<close>

lemma highest_pick:
  "foldl (\<lambda>h (s, a). if ACTION_RANK h < ACTION_RANK a then a else h) x fs = pick_max ACTION_RANK x (map snd fs)"
  by (induction fs arbitrary: x) auto

lemma span_action_pick:
  "foldl (\<lambda>act m. let a = configured config m in if ACTION_RANK act < ACTION_RANK a then a else act) x ds =
   pick_max ACTION_RANK x (map (configured config) ds)"
  by (induction ds arbitrary: x) (auto simp: Let_def)

lemma pick_max_eq_iff:
  "pick_max ACTION_RANK Detect xs = Deny \<longleftrightarrow> Deny \<in> set xs"
  "pick_max ACTION_RANK Detect xs = Redact \<longleftrightarrow> Redact \<in> set xs \<and> Deny \<notin> set xs"
proof -
  let ?m = "pick_max ACTION_RANK Detect xs"
  have top: "x \<in> set xs \<Longrightarrow> ACTION_RANK x \<le> ACTION_RANK ?m" for x by (rule pick_max_upper)
  have in': "?m = Detect \<or> ?m \<in> set xs" using pick_max_in [of ACTION_RANK Detect xs] by simp
  show "?m = Deny \<longleftrightarrow> Deny \<in> set xs" using top [of Deny] in' by (cases ?m) auto
  show "?m = Redact \<longleftrightarrow> Redact \<in> set xs \<and> Deny \<notin> set xs"
    using top [of Deny] top [of Redact] in' by (cases ?m) auto
qed

text \<open>The strictest action over the spans is the strictest over the raw findings' own detectors.\<close>

lemma highest_over_raw:
  assumes "\<forall>f \<in> set raw. sp_detectors f = None"
  shows "pick_max ACTION_RANK Detect (map snd (mergeWithActions cmp raw config)) =
    pick_max ACTION_RANK Detect (map (configured config \<circ> sp_detector) raw)"
proof -
  let ?ss = "mergeFindingSpans cmp raw"
  have sp: "map snd (mergeWithActions cmp raw config) = map (\<lambda>s. pick_max ACTION_RANK Detect (map (configured config) (mg_detectors s))) ?ss"
    by (simp add: mergeWithActions_def span_action_pick)
  have mem: "(\<Union>m \<in> set ?ss. set (mg_detectors m)) = sp_detector ` set raw"
    using merge_members [of cmp raw] assms by (auto simp: members_def)
  let ?m = "pick_max ACTION_RANK Detect (map (configured config \<circ> sp_detector) raw)"
  show "pick_max ACTION_RANK Detect (map snd (mergeWithActions cmp raw config)) = ?m"
  proof (rule action.pick_max_unique)
    show "ACTION_RANK x \<le> ACTION_RANK ?m" if "x \<in> insert Detect (set (map snd (mergeWithActions cmp raw config)))" for x
    proof (cases "x = Detect")
      case False
      with that obtain s where s: "s \<in> set ?ss" "x = pick_max ACTION_RANK Detect (map (configured config) (mg_detectors s))"
        by (auto simp: sp)
      with False pick_max_in [of ACTION_RANK Detect "map (configured config) (mg_detectors s)"]
      obtain d where d: "d \<in> set (mg_detectors s)" "x = configured config d" by auto
      with s(1) mem obtain f where "f \<in> set raw" "d = sp_detector f" by blast
      with d(2) show ?thesis by (intro pick_max_upper) auto
    qed simp
    show "?m \<in> insert Detect (set (map snd (mergeWithActions cmp raw config)))"
    proof (cases "?m = Detect")
      case False
      with pick_max_in [of ACTION_RANK Detect "map (configured config \<circ> sp_detector) raw"]
      obtain f where f: "f \<in> set raw" "?m = configured config (sp_detector f)" by auto
      with mem obtain s where s: "s \<in> set ?ss" "sp_detector f \<in> set (mg_detectors s)" by blast
      let ?a = "pick_max ACTION_RANK Detect (map (configured config) (mg_detectors s))"
      have "ACTION_RANK ?m \<le> ACTION_RANK ?a" unfolding f(2) by (rule pick_max_upper) (use s(2) in auto)
      moreover have "ACTION_RANK ?a \<le> ACTION_RANK ?m"
      proof (cases "?a = Detect")
        case False
        with pick_max_in [of ACTION_RANK Detect "map (configured config) (mg_detectors s)"]
        obtain d where d: "d \<in> set (mg_detectors s)" "?a = configured config d" by auto
        with s(1) mem obtain g where "g \<in> set raw" "d = sp_detector g" by blast
        then have "configured config d \<in> set (map (configured config \<circ> sp_detector) raw)" by auto
        then show ?thesis unfolding d(2) by (rule pick_max_upper)
      qed simp
      ultimately have "?m = ?a" using action.rank_eqD by simp
      with s(1) show ?thesis by (auto simp: sp)
    qed simp
  qed
qed

lemma detect_all_raw: "detectAllBaseline re t = Some raw \<Longrightarrow> \<forall>f \<in> set raw. sp_detectors f = None"
  by (auto simp: detectAllBaseline_def detectCpf_def detectCnpj_def detectEmail_def detectPhoneBr_def found_def
      split: Option.bind_splits)

lemma collectE_ok: "\<forall>x \<in> set xs. \<exists>y. f x = Inr y \<Longrightarrow> \<exists>ys. collectE (map f xs) = Inr ys"
proof (induction xs)
  case (Cons x xs)
  then obtain y ys where "f x = Inr y" "collectE (map f xs) = Inr ys" by auto
  then show ?case by simp
qed simp

lemma stringify_arr_ok: "\<forall>v \<in> set vs. \<exists>t. stringify num v = Inr t \<Longrightarrow> \<exists>t. stringify num (JArr vs) = Inr t"
  using collectE_ok [of vs "stringify num"] by auto

lemma stringify_obj_ok:
  assumes "\<forall>p \<in> set ps. \<exists>t. stringify num (snd p) = Inr t"
  shows "\<exists>t. stringify num (JObj ps) = Inr t"
proof -
  let ?f = "\<lambda>(k, v). bindE (stringify num v) (\<lambda>t. Inr (quote_str k @ CHR '':'' # t))"
  let ?ps = "filter (\<lambda>(k, v). v \<noteq> JUndef) (sort_key fst ps)"
  have "\<forall>p \<in> set ?ps. \<exists>t. ?f p = Inr t"
  proof
    fix p assume "p \<in> set ?ps"
    then have "p \<in> set ps" by auto
    with assms obtain t where "stringify num (snd p) = Inr t" by blast
    then show "\<exists>t. ?f p = Inr t" by (cases p) simp
  qed
  from collectE_ok [OF this] obtain ys where "collectE (map ?f ?ps) = Inr ys" ..
  then show ?thesis by simp
qed

lemma policy_version_ok: "\<exists>v. policyVersionId sha256 num (JStr c) (JObj [(''kind'', JStr a), (''deny_when'', JStr b)])
    (JObj [(''config_by_detector'', JObj (map (\<lambda>(d, a). (d, JStr (action_text a))) config))])
    (JArr (map (\<lambda>c. JObj [(''id'', JStr (cap_id c)), (''status'', JStr (cap_status_text (Governance.cap_status c)))]) (caps :: capability list))) = Inr v"
proof -
  have str: "\<exists>t. stringify num (JStr s) = Inr t" for s by simp
  have conf: "\<exists>t. stringify num (JObj (map (\<lambda>(d, a). (d, JStr (action_text a))) config)) = Inr t"
    by (rule stringify_obj_ok) auto
  have reg: "\<exists>t. stringify num (JArr (map (\<lambda>c. JObj [(''id'', JStr (cap_id c)), (''status'', JStr (cap_status_text (Governance.cap_status c)))]) caps)) = Inr t"
  proof (rule stringify_arr_ok, rule ballI)
    fix v assume "v \<in> set (map (\<lambda>c. JObj [(''id'', JStr (cap_id c)), (''status'', JStr (cap_status_text (Governance.cap_status c)))]) caps)"
    then obtain c :: capability where v: "v = JObj [(''id'', JStr (cap_id c)), (''status'', JStr (cap_status_text (Governance.cap_status c)))]" unfolding set_map by (rule imageE)
    show "\<exists>t. stringify num v = Inr t" unfolding v by (rule stringify_obj_ok) (simp add: str)
  qed
  have "\<exists>t. stringify num (JObj [(''policy_code_commit_sha'', JStr c), (''policy_manifest'', JObj [(''kind'', JStr a), (''deny_when'', JStr b)]),
       (''org_policy_overrides'', JObj [(''config_by_detector'', JObj (map (\<lambda>(d, a). (d, JStr (action_text a))) config))]),
       (''capability_registry_snapshot'', JArr (map (\<lambda>c. JObj [(''id'', JStr (cap_id c)), (''status'', JStr (cap_status_text (Governance.cap_status c)))]) caps))]) = Inr t"
  proof (rule stringify_obj_ok, simp only: list.set ball_simps snd_conv simp_thms str reg, intro conjI)
    show "\<exists>t. stringify num (JObj [(''kind'', JStr a), (''deny_when'', JStr b)]) = Inr t"
      by (rule stringify_obj_ok) (simp add: str)
    show "\<exists>t. stringify num (JObj [(''config_by_detector'', JObj (map (\<lambda>(d, a). (d, JStr (action_text a))) config))]) = Inr t"
      by (rule stringify_obj_ok) (use conf in \<open>simp del: stringify.simps\<close>)
  qed
  then obtain t where t: "stringify num (JObj [(''policy_code_commit_sha'', JStr c), (''policy_manifest'', JObj [(''kind'', JStr a), (''deny_when'', JStr b)]),
       (''org_policy_overrides'', JObj [(''config_by_detector'', JObj (map (\<lambda>(d, a). (d, JStr (action_text a))) config))]),
       (''capability_registry_snapshot'', JArr (map (\<lambda>c. JObj [(''id'', JStr (cap_id c)), (''status'', JStr (cap_status_text (Governance.cap_status c)))]) caps))]) = Inr t" ..
  show ?thesis unfolding policyVersionId_def canonicalize_def t by simp
qed

text \<open>
  The decision on a scanned text: it always returns; it denies exactly when some finding of the
  scan, before the merge, comes from a detector configured to deny, asks for redaction exactly when
  none is and some comes from a detector configured to redact, and allows otherwise. A deny is never
  lost to the label of the span it is merged into.
\<close>

theorem policy_follows_config:
  assumes "dlpPreScan cmp re rows t = Some scan"
  shows "\<exists>d. decidePolicy sha256 num commit scan = Inr d \<and>
    pd_kind d = (if list_ex (\<lambda>f. configured (ds_config scan) (sp_detector f) = Deny) (ds_raw scan) then Deny_request
      else if list_ex (\<lambda>f. configured (ds_config scan) (sp_detector f) = Redact) (ds_raw scan) then Mutate else Allow) \<and>
    pd_redaction d = (pd_kind d = Mutate) \<and> length (pd_reasons d) = (if pd_kind d = Allow then 1 else length (ds_findings scan))"
proof -
  let ?c = "configured (ds_config scan) \<circ> sp_detector"
  from assms have raw: "\<forall>f \<in> set (ds_raw scan). sp_detectors f = None"
    and fs: "ds_findings scan = mergeWithActions cmp (ds_raw scan) (ds_config scan)"
    and high: "ds_highest scan = pick_max ACTION_RANK Detect (map snd (ds_findings scan))"
    by (auto simp: dlpPreScan_def Let_def highest_pick dest: detect_all_raw)
  have h: "ds_highest scan = pick_max ACTION_RANK Detect (map ?c (ds_raw scan))"
    unfolding high fs by (rule highest_over_raw [OF raw])
  have deny: "ds_highest scan = Deny \<longleftrightarrow> list_ex (\<lambda>f. ?c f = Deny) (ds_raw scan)"
    and redact: "ds_highest scan = Redact \<longleftrightarrow> list_ex (\<lambda>f. ?c f = Redact) (ds_raw scan) \<and> \<not> list_ex (\<lambda>f. ?c f = Deny) (ds_raw scan)"
    unfolding h pick_max_eq_iff by (auto simp: list_ex_iff image_iff) metis+
  have some: "0 < length (ds_findings scan)" if "ds_highest scan \<noteq> Detect"
    using that unfolding high by (cases "ds_findings scan") auto
  obtain v where v: "policyVersionId sha256 num (JStr commit)
      (JObj [(''kind'', JStr ''baseline_dlp_v1''), (''deny_when'', JStr ''highest_action=deny'')])
      (JObj [(''config_by_detector'', JObj (map (\<lambda>(d, a). (d, JStr (action_text a))) (ds_config scan)))])
      (JArr (map (\<lambda>c. JObj [(''id'', JStr (cap_id c)), (''status'', JStr (cap_status_text (Governance.cap_status c)))]) BASELINE_REGISTRY)) = Inr v"
    using policy_version_ok by blast
  show ?thesis
  proof (cases "ds_highest scan")
    case Detect
    then show ?thesis using deny redact by (auto simp: decidePolicy_def v Let_def)
  next
    case Redact
    with some have "0 < length (ds_findings scan)" by simp
    with Redact deny redact show ?thesis by (auto simp: decidePolicy_def v Let_def)
  next
    case Deny
    with some have "0 < length (ds_findings scan)" by simp
    with Deny deny redact show ?thesis by (auto simp: decidePolicy_def v Let_def)
  qed
qed

definition sample_scan :: "dlp_scan option" where
  "sample_scan = dlpPreScan (\<lambda>a b. 0) sample_re [(''phone_br'', Deny), (''cpf'', Redact)] ''529.982.247-25''"

lemma sample_scan_some: "\<exists>scan. sample_scan = Some scan"
  using detect_all_ends [OF sample_re_ok] by (auto simp: sample_scan_def dlpPreScan_def)

theorem policy_follows_config_witness:
  "\<exists>scan d. sample_scan = Some scan \<and> decidePolicy (\<lambda>b. b) sample_num ''sha'' scan = Inr d \<and> pd_redaction d = (pd_kind d = Mutate)"
proof -
  obtain scan where scan: "sample_scan = Some scan" using sample_scan_some by blast
  from policy_follows_config [OF this [unfolded sample_scan_def], of "\<lambda>b. b" sample_num "''sha''"] scan
  show ?thesis by blast
qed

section \<open>The court-case checksum\<close>

definition digit_value :: "char \<Rightarrow> int" where
  "digit_value c = int (dec_val_char c)"

lemma foldl_decimal:
  "int (foldl (\<lambda>a c. 10 * a + dec_val_char c) n s) = int n * 10 ^ length s + int (dec_val s)"
proof (induction s arbitrary: n)
  case (Cons d s)
  have "int (dec_val (d # s)) = int (dec_val_char d) * 10 ^ length s + int (dec_val s)"
    using Cons.IH [of "dec_val_char d"] by (simp add: dec_val_def)
  moreover have "int (foldl (\<lambda>a c. 10 * a + dec_val_char c) n (d # s)) = (10 * int n + int (dec_val_char d)) * 10 ^ length s + int (dec_val s)"
    using Cons.IH [of "10 * n + dec_val_char d"] by simp
  ultimately show ?case by (simp add: algebra_simps)
qed (simp add: dec_val_def)

lemma dec_val_Cons: "int (dec_val (c # s)) = digit_value c * 10 ^ length s + int (dec_val s)"
  using foldl_decimal [of "dec_val_char c" s] by (simp add: dec_val_def digit_value_def)

lemma dec_val_append: "int (dec_val (s @ t)) = int (dec_val s) * 10 ^ length t + int (dec_val t)"
  by (induction s) (simp_all add: dec_val_Cons dec_val_def [of "[]"] algebra_simps power_add)

lemma digit_value_range: "is_digit c \<Longrightarrow> 0 \<le> digit_value c \<and> digit_value c \<le> 9"
  by (auto simp: is_digit_def digit_value_def dec_val_char_def Let_def)

lemma digit_value_inj: "is_digit c \<Longrightarrow> is_digit d \<Longrightarrow> digit_value c = digit_value d \<Longrightarrow> c = d"
  by (auto simp: is_digit_def digit_value_def dec_val_char_def Let_def)

lemma prime_97: "coprime (97 :: int) (10 ^ k)"
proof -
  have "coprime (97 :: int) 10" by (simp add: coprime_iff_gcd_eq_1 gcd_non_0_int)
  then show ?thesis by simp
qed

text \<open>Two texts that differ in one digit, or in the order of two neighbours, have different remainders.\<close>

lemma one_digit_mod:
  assumes "is_digit c" "is_digit d" "int (dec_val (s @ c # t)) * 100 mod 97 = int (dec_val (s @ d # t)) * 100 mod 97"
  shows "c = d"
proof -
  have "97 dvd int (dec_val (s @ c # t)) * 100 - int (dec_val (s @ d # t)) * 100"
    using assms(3) by (simp add: mod_eq_dvd_iff)
  also have "int (dec_val (s @ c # t)) * 100 - int (dec_val (s @ d # t)) * 100 = (digit_value c - digit_value d) * 10 ^ (length t + 2)"
    by (simp add: dec_val_append dec_val_Cons algebra_simps power_add)
  finally have "97 dvd digit_value c - digit_value d"
    using prime_97 by (metis coprime_dvd_mult_left_iff)
  moreover have "\<bar>digit_value c - digit_value d\<bar> < 97"
    using digit_value_range [OF assms(1)] digit_value_range [OF assms(2)] by linarith
  ultimately have "digit_value c = digit_value d" using dvd_imp_le_int [of "digit_value c - digit_value d" 97] by fastforce
  with assms(1,2) show ?thesis by (rule digit_value_inj)
qed

lemma swap_mod:
  assumes "is_digit c" "is_digit d" "int (dec_val (s @ c # d # t)) * 100 mod 97 = int (dec_val (s @ d # c # t)) * 100 mod 97"
  shows "c = d"
proof -
  have "97 dvd int (dec_val (s @ c # d # t)) * 100 - int (dec_val (s @ d # c # t)) * 100"
    using assms(3) by (simp add: mod_eq_dvd_iff)
  also have "int (dec_val (s @ c # d # t)) * 100 - int (dec_val (s @ d # c # t)) * 100 =
      ((digit_value c - digit_value d) * 9) * 10 ^ (length t + 2)"
    by (simp add: dec_val_append dec_val_Cons algebra_simps power_add)
  finally have "97 dvd (digit_value c - digit_value d) * 9"
    using prime_97 by (metis coprime_dvd_mult_left_iff)
  moreover have "\<bar>digit_value c - digit_value d\<bar> \<le> 9"
    using digit_value_range [OF assms(1)] digit_value_range [OF assms(2)] by linarith
  then have "\<bar>(digit_value c - digit_value d) * 9\<bar> < 97" by (simp add: abs_mult)
  ultimately have "digit_value c = digit_value d"
    using dvd_imp_le_int [of "(digit_value c - digit_value d) * 9" 97] by fastforce
  with assms(1,2) show ?thesis by (rule digit_value_inj)
qed

text \<open>The digit position of the sequence that a position of the formatted text holds.\<close>

definition seq_pos :: "nat \<Rightarrow> nat option" where
  "seq_pos k = (if k < 7 then Some k else if 11 \<le> k \<and> k < 15 then Some (k - 4) else if k = 16 then Some 11
     else if k = 18 \<or> k = 19 then Some (k - 6) else if 21 \<le> k \<and> k < 25 then Some (k - 7) else None)"

lemma seq_nth:
  assumes "length s = 25" "j < 18"
  shows "cnj_sequence s ! j = s ! (if j < 7 then j else if j < 11 then j + 4 else if j = 11 then 16 else if j < 14 then j + 6 else j + 7)"
  using assms by (auto simp: cnj_sequence_def nth_append not_less) (simp_all add: add.commute)

lemma seq_length: "length s = 25 \<Longrightarrow> length (cnj_sequence s) = 18" "length s = 25 \<Longrightarrow> length (cnj_dd s) = 2"
  by (simp_all add: cnj_sequence_def cnj_dd_def)

lemma seq_update:
  assumes "length s = 25" "seq_pos k = Some j"
  shows "cnj_sequence (s[k := c]) = (cnj_sequence s)[j := c]" "cnj_dd (s[k := c]) = cnj_dd s" "j < 18" "cnj_sequence s ! j = s ! k" "k < 25"
proof -
  show j: "j < 18" "k < 25" using assms(2) by (auto simp: seq_pos_def split: if_splits)
  show "cnj_sequence s ! j = s ! k" using assms(2) by (subst seq_nth [OF assms(1) j(1)]) (auto simp: seq_pos_def split: if_splits)
  show "cnj_dd (s[k := c]) = cnj_dd s" using assms(2)
    by (intro nth_equalityI) (auto simp: cnj_dd_def seq_pos_def nth_list_update assms(1) less_Suc_eq numeral_2_eq_2 split: if_splits)
  show "cnj_sequence (s[k := c]) = (cnj_sequence s)[j := c]"
  proof (rule nth_equalityI)
    fix i assume "i < length (cnj_sequence (s[k := c]))"
    then have i: "i < 18" by (simp add: seq_length assms(1))
    have "cnj_sequence (s[k := c]) ! i = s[k := c] ! (if i < 7 then i else if i < 11 then i + 4 else if i = 11 then 16 else if i < 14 then i + 6 else i + 7)"
      by (rule seq_nth) (simp_all add: assms(1) i)
    also have "\<dots> = (cnj_sequence s)[j := c] ! i"
    proof (cases "i = j")
      case True
      then have "(if i < 7 then i else if i < 11 then i + 4 else if i = 11 then 16 else if i < 14 then i + 6 else i + 7) = k"
        using assms(2) by (auto simp: seq_pos_def split: if_splits)
      then show ?thesis using True i j by (simp only: nth_list_update_eq assms(1) seq_length)
    next
      case False
      then have "(if i < 7 then i else if i < 11 then i + 4 else if i = 11 then 16 else if i < 14 then i + 6 else i + 7) \<noteq> k"
        using assms(2) i by (auto simp: seq_pos_def split: if_splits)
      then show ?thesis using False seq_nth [OF assms(1) i] by (simp only: nth_list_update_neq not_sym)
    qed
    finally show "cnj_sequence (s[k := c]) ! i = (cnj_sequence s)[j := c] ! i" .
  qed (simp add: seq_length assms(1))
qed

lemma all_digits:
  assumes "cnj_format s"
  shows "length s = 25" "list_all is_digit (cnj_sequence s)" "list_all is_digit (cnj_dd s)"
  using assms by (simp_all add: cnj_format_def cnj_sequence_def cnj_dd_def)

text \<open>Equal remainders give equal verification digits, so a change inside the sequence shows.\<close>

lemma valid_mod:
  assumes "isValidCnjChecksum s" "isValidCnjChecksum s'" "cnj_dd s' = cnj_dd s"
  shows "int (dec_val (cnj_sequence s')) * 100 mod 97 = int (dec_val (cnj_sequence s)) * 100 mod 97"
  using assms by (simp add: isValidCnjChecksum_def)

lemma sequence_error_detected:
  assumes "isValidCnjChecksum s" "isValidCnjChecksum (s[k := c])" "seq_pos k = Some j"
  shows "c = s ! k"
proof -
  have s: "cnj_format s" "cnj_format (s[k := c])" using assms(1,2) by (simp_all add: isValidCnjChecksum_def)
  note u = seq_update [OF all_digits(1) [OF s(1)] assms(3)]
  let ?v = "cnj_sequence s"
  have j: "j < length ?v" using u(3) seq_length(1) [OF all_digits(1) [OF s(1)]] by simp
  have d: "is_digit (?v ! j)" using all_digits(2) [OF s(1)] j by (simp add: list_all_length)
  have "is_digit ((?v[j := c]) ! j)" using all_digits(2) [OF s(2)] j unfolding u(1) list_all_length length_list_update by blast
  then have c: "is_digit c" using j by (simp only: nth_list_update_eq)
  have "int (dec_val (take j ?v @ c # drop (Suc j) ?v)) * 100 mod 97 = int (dec_val (take j ?v @ ?v ! j # drop (Suc j) ?v)) * 100 mod 97"
    using valid_mod [OF assms(1,2) u(2)] j unfolding u(1) by (simp add: upd_conv_take_nth_drop id_take_nth_drop [symmetric])
  from one_digit_mod [OF c d this] show ?thesis by (simp add: u(4))
qed

lemma dd_error_detected:
  assumes "isValidCnjChecksum s" "isValidCnjChecksum (s[k := c])" "k = 8 \<or> k = 9"
  shows "c = s ! k"
proof -
  have s: "cnj_format s" "cnj_format (s[k := c])" using assms(1,2) by (simp_all add: isValidCnjChecksum_def)
  note len = all_digits(1) [OF s(1)]
  have seq: "cnj_sequence (s[k := c]) = cnj_sequence s"
  proof (rule nth_equalityI)
    fix i assume "i < length (cnj_sequence (s[k := c]))"
    then have i: "i < 18" by (simp add: seq_length len)
    have "(if i < 7 then i else if i < 11 then i + 4 else if i = 11 then 16 else if i < 14 then i + 6 else i + 7) \<noteq> k"
      using assms(3) by auto
    then show "cnj_sequence (s[k := c]) ! i = cnj_sequence s ! i"
      using seq_nth [of "s[k := c]" i] seq_nth [OF len i] i len by (simp only: length_list_update nth_list_update_neq not_sym)
  qed (simp add: seq_length len)
  let ?d = "k - 8"
  have dd: "cnj_dd (s[k := c]) = (cnj_dd s)[?d := c]" "?d < 2" "cnj_dd s ! ?d = s ! k"
    using assms(3) len by (auto simp: cnj_dd_def drop_update_swap take_update_swap)
  have l: "length (cnj_dd s) = 2" by (rule seq_length(2) [OF len])
  then obtain a b where ab: "cnj_dd s = [a, b]" by (auto simp: length_Suc_conv numeral_2_eq_2)
  have "int (dec_val (cnj_dd (s[k := c]))) = int (dec_val (cnj_dd s))"
    using assms(1,2) seq by (simp add: isValidCnjChecksum_def)
  moreover have "is_digit a" "is_digit b" "list_all is_digit ([a, b][?d := c])"
    using all_digits(3) [OF s(1)] all_digits(3) [OF s(2)] unfolding dd(1) ab by simp_all
  ultimately have "c = [a, b] ! ?d"
    using assms(3) unfolding dd(1) ab
    by (auto simp: dec_val_Cons dec_val_def [of "[]"] intro: digit_value_inj)
  then show ?thesis using dd(3) by (simp add: ab)
qed

text \<open>
  The court-case checksum catches every single error: of two accepted numbers that differ in at
  most one character, at any of the 25 positions, separators and verification digits included, the
  two are the same.
\<close>

theorem cnj_detects_single_errors:
  assumes "isValidCnjChecksum s" "isValidCnjChecksum (s[k := c])" "k < 25"
  shows "c = s ! k"
proof -
  have s: "cnj_format s" "cnj_format (s[k := c])" using assms(1,2) by (simp_all add: isValidCnjChecksum_def)
  have len: "length s = 25" by (rule all_digits(1) [OF s(1)])
  have "seq_pos k = None \<Longrightarrow> k = 8 \<or> k = 9 \<or> k = 7 \<or> k = 10 \<or> k = 15 \<or> k = 17 \<or> k = 20"
    using assms(3) by (simp add: seq_pos_def split: if_splits) arith
  then consider "k = 8 \<or> k = 9" | j where "seq_pos k = Some j" | "k \<in> {7, 10, 15, 17, 20}"
    by (cases "seq_pos k") auto
  then show ?thesis
  proof cases
    case 3
    then show ?thesis using s len by (auto simp: cnj_format_def)
  qed (use dd_error_detected [OF assms(1,2)] sequence_error_detected [OF assms(1,2)] in blast)+
qed

theorem cnj_detects_single_errors_witness:
  "isValidCnjChecksum ''0001234-56.2023.8.26.0100'' = False \<and>
   (\<exists>s. isValidCnjChecksum s \<and> s = ''0000001-30.2010.8.26.0100'' \<and> isValidCnjChecksum (s[3 := CHR ''0'']) \<and> CHR ''0'' = s ! 3)"
proof -
  have v: "isValidCnjChecksum ''0000001-30.2010.8.26.0100''" "\<not> isValidCnjChecksum ''0001234-56.2023.8.26.0100''" by code_simp+
  show ?thesis
  proof (intro conjI exI)
    let ?s = "''0000001-30.2010.8.26.0100''"
    show "isValidCnjChecksum ?s" by (rule v)
    show u: "isValidCnjChecksum (?s[3 := CHR ''0''])" by code_simp
    from cnj_detects_single_errors [OF v(1) u] show "CHR ''0'' = ?s ! 3" by simp
  qed (use v in simp_all)
qed

end
