(* ===== verification/Turn_Store.thy ===== *)
theory Turn_Store
  imports Governance
begin

text \<open>
  The durable state of a conversation turn and the fenced operations on it: the tables, checks
  and triggers of migrations 0031 and 0035 and every function of
  \<open>apps/api/src/ai-conversations/execution/execution-store.ts\<close>. A function is one statement of a
  transaction that runs in the owner's context; \<open>Inl\<close> is an exception of the database, after
  which the caller's transaction rolls back. Tables with a uuid key are maps, times are
  microseconds of the database clock.
\<close>

section \<open>Tables\<close>

datatype attempt_state =
  Accepted | Dispatching | Streaming | Completed_attempt | Stopped | Failed_attempt | Rejected | Unknown

datatype attempt_error =
    Blocked_class | Auth_rejected | Request_too_large | Rate_limited | Credential_unavailable
  | Provider_error | Local_error_class | Persistence_error

record owner =
  ow_org :: string
  ow_user :: string

record envelope =
  en_ciphertext :: bytes
  en_dek :: "bytes option"
  en_key_id :: string
  en_key_version :: int

record attempt =
  at_id :: string
  at_org :: string
  at_owner :: string
  at_conv :: string
  at_branch :: string
  at_turn :: string
  at_seq :: nat
  at_state :: attempt_state
  at_token :: "string option"
  at_claimant :: "string option"
  at_deadline :: "int option"
  at_heartbeat :: "int option"
  at_stop :: bool
  at_causal :: "int option"
  at_request :: "string option"
  at_capture :: "string option"
  at_credential :: "string option"
  at_boundary :: "int option"
  at_parent :: "envelope option"
  at_excluded :: bool
  at_error :: "attempt_error option"
  at_terminal :: "int option"
  at_created :: int
  at_updated :: int

record turn =
  ct_id :: string
  ct_org :: string
  ct_owner :: string
  ct_conv :: string
  ct_branch :: string
  ct_client :: string
  ct_seq :: nat
  ct_current :: "string option"
  ct_config :: string
  ct_created :: int

record branch =
  br_id :: string
  br_org :: string
  br_owner :: string
  br_conv :: string
  br_provider :: string
  br_surface :: string
  br_model :: string
  br_causal :: int
  br_parent :: "string option"
  br_fork_turn :: "string option"
  br_fork_attempt :: "string option"
  br_mode :: "string option"
  br_updated :: int

record conversation =
  cv_id :: string
  cv_org :: string
  cv_owner :: string
  cv_mode :: string
  cv_status :: string

record content =
  cn_org :: string
  cn_owner :: string
  cn_conv :: string
  cn_envelope :: envelope
  cn_hmac :: bytes
  cn_status :: string

record item =
  it_org :: string
  it_owner :: string
  it_conv :: string
  it_branch :: string
  it_turn :: string
  it_attempt :: "string option"
  it_seq :: nat
  it_type :: string
  it_content :: string

record credential =
  cr_id :: string
  cr_org :: string
  cr_provider :: string
  cr_envelope :: envelope
  cr_status :: string

record turn_db =
  tb_orgs :: "string \<Rightarrow> (tier \<times> operational_mode) option"
  tb_convs :: "string \<Rightarrow> conversation option"
  tb_branches :: "string \<Rightarrow> branch option"
  tb_turns :: "turn list"
  tb_attempts :: "string \<Rightarrow> attempt option"
  tb_items :: "item list"
  tb_contents :: "string \<Rightarrow> content option"
  tb_creds :: "credential list"

section \<open>The checks and triggers of the attempts table\<close>

definition non_terminal :: "attempt_state \<Rightarrow> bool" where
  "non_terminal s \<longleftrightarrow> s = Accepted \<or> s = Dispatching \<or> s = Streaming"

definition attempt_checks :: "attempt \<Rightarrow> bool" where
  "attempt_checks a \<longleftrightarrow>
     1 \<le> at_seq a \<and>
     ((at_token a = None) = (at_claimant a = None)) \<and> ((at_token a = None) = (at_deadline a = None)) \<and>
     (if at_state a = Dispatching \<or> at_state a = Streaming then at_token a \<noteq> None \<and> at_boundary a \<noteq> None else True) \<and>
     (if at_state a = Completed_attempt then at_boundary a \<noteq> None else True) \<and>
     (if at_state a = Streaming \<or> at_state a = Completed_attempt then at_credential a \<noteq> None else True) \<and>
     (if at_state a = Unknown then at_credential a \<noteq> None \<and> at_boundary a \<noteq> None else True) \<and>
     (if at_state a = Accepted then at_credential a = None else True) \<and>
     (at_capture a = None \<or> \<not> at_request a = None) \<and>
     (at_request a = None \<or> \<not> at_boundary a = None) \<and>
     (non_terminal (at_state a) \<or> \<not> at_terminal a = None) \<and>
     ((at_state a = Failed_attempt) = (\<not> at_error a = None)) \<and>
     (at_credential a = None \<or> \<not> at_boundary a = None) \<and>
     (case at_parent a of None \<Rightarrow> True | Some e \<Rightarrow> en_dek e \<noteq> None)"

definition birth_guard :: "attempt \<Rightarrow> bool" where
  "birth_guard a \<longleftrightarrow> at_state a = Accepted \<and> at_token a = None \<and> at_claimant a = None \<and>
     at_deadline a = None \<and> at_heartbeat a = None \<and> at_causal a = None \<and> at_request a = None \<and>
     at_capture a = None \<and> at_credential a = None \<and> at_boundary a = None \<and> at_parent a = None \<and>
     \<not> at_excluded a \<and> \<not> at_stop a \<and> at_error a = None \<and> at_terminal a = None"

datatype guard_error =
    Identity_immutable | Terminal_frozen attempt_state | Unknown_frozen | Unknown_resolution
  | Credential_write_once | Request_write_once | Capture_write_once | Boundary_write_once
  | Causal_frozen | Excluded_permanent | Stop_never_clears | Terminal_stamp
  | Restore_with_provenance | Illegal_transition attempt_state attempt_state

definition same_identity :: "attempt \<Rightarrow> attempt \<Rightarrow> bool" where
  "same_identity a b \<longleftrightarrow> at_id a = at_id b \<and> at_org a = at_org b \<and> at_owner a = at_owner b \<and>
     at_conv a = at_conv b \<and> at_branch a = at_branch b \<and> at_turn a = at_turn b \<and>
     at_seq a = at_seq b \<and> at_created a = at_created b"

text \<open>The execution columns an \<open>outcome_unknown\<close> row keeps through its resolution.\<close>

definition same_execution :: "attempt \<Rightarrow> attempt \<Rightarrow> bool" where
  "same_execution a b \<longleftrightarrow> at_token a = at_token b \<and> at_claimant a = at_claimant b \<and>
     at_deadline a = at_deadline b \<and> at_heartbeat a = at_heartbeat b \<and> at_stop a = at_stop b \<and>
     at_causal a = at_causal b \<and> at_request a = at_request b \<and> at_capture a = at_capture b \<and>
     at_credential a = at_credential b \<and> at_boundary a = at_boundary b \<and> at_parent a = at_parent b"

definition rewritten :: "'a option \<Rightarrow> 'a option \<Rightarrow> bool" where
  "rewritten old new \<longleftrightarrow> old \<noteq> None \<and> new \<noteq> old"

text \<open>The forward transition graph.\<close>

definition transition_error :: "attempt \<Rightarrow> attempt_state \<Rightarrow> guard_error option" where
  "transition_error old new =
     (if at_state old = Accepted \<and> new \<in> {Dispatching, Stopped, Failed_attempt, Rejected} then None
      else if at_state old = Dispatching \<and> new \<in> {Streaming, Stopped, Failed_attempt, Rejected, Unknown} then None
      else if at_state old = Dispatching \<and> new = Accepted then
        (if at_credential old \<noteq> None then Some Restore_with_provenance else None)
      else if at_state old = Streaming \<and> new \<in> {Completed_attempt, Stopped, Failed_attempt, Unknown} then None
      else Some (Illegal_transition (at_state old) new))"

definition outcome_unknown_update :: "attempt \<Rightarrow> attempt \<Rightarrow> guard_error option" where
  "outcome_unknown_update old new =
     (if \<not> same_execution old new then Some Unknown_frozen
      else if at_state new \<noteq> Unknown \<and> at_state new \<noteq> Completed_attempt \<and> at_state new \<noteq> Failed_attempt
        then Some Unknown_resolution
      else if at_state new = Unknown \<and> (at_terminal new \<noteq> at_terminal old \<or> at_error new \<noteq> at_error old)
        then Some Unknown_resolution
      else if at_excluded old \<and> \<not> at_excluded new then Some Excluded_permanent
      else None)"

definition guarded_update :: "attempt \<Rightarrow> attempt \<Rightarrow> guard_error option" where
  "guarded_update old new =
     (if \<not> same_identity old new then Some Identity_immutable
      else if at_state old \<in> {Completed_attempt, Stopped, Failed_attempt, Rejected} then
        (if new = old then None else Some (Terminal_frozen (at_state old)))
      else if at_state old = Unknown then outcome_unknown_update old new
      else if rewritten (at_credential old) (at_credential new) then Some Credential_write_once
      else if rewritten (at_request old) (at_request new) then Some Request_write_once
      else if rewritten (at_capture old) (at_capture new) then Some Capture_write_once
      else if rewritten (at_boundary old) (at_boundary new) then Some Boundary_write_once
      else if at_state old \<noteq> Accepted \<and> (at_causal new \<noteq> at_causal old \<or> at_parent new \<noteq> at_parent old)
        then Some Causal_frozen
      else if at_excluded old \<and> \<not> at_excluded new then Some Excluded_permanent
      else if at_stop old \<and> \<not> at_stop new then Some Stop_never_clears
      else if at_terminal new \<noteq> at_terminal old \<and> non_terminal (at_state new) then Some Terminal_stamp
      else if at_state new \<noteq> at_state old then transition_error old (at_state new)
      else None)"

definition cred_fk :: "credential list \<Rightarrow> attempt \<Rightarrow> bool" where
  "cred_fk cs a = (case at_credential a of None \<Rightarrow> True
     | Some c \<Rightarrow> list_ex (\<lambda>r. cr_id r = c \<and> cr_org r = at_org a) cs)"

text \<open>The composite keys the lineage foreign keys of the tables refer to.\<close>

definition conv_key :: "turn_db \<Rightarrow> string \<Rightarrow> string \<Rightarrow> string \<Rightarrow> bool" where
  "conv_key db org own cid = (case tb_convs db cid of None \<Rightarrow> False | Some c \<Rightarrow> cv_org c = org \<and> cv_owner c = own)"

definition branch_key :: "turn_db \<Rightarrow> string \<Rightarrow> string \<Rightarrow> string \<Rightarrow> string \<Rightarrow> bool" where
  "branch_key db org own cid bid = (case tb_branches db bid of None \<Rightarrow> False
     | Some b \<Rightarrow> br_org b = org \<and> br_owner b = own \<and> br_conv b = cid)"

definition content_key :: "turn_db \<Rightarrow> string \<Rightarrow> string \<Rightarrow> string \<Rightarrow> string \<Rightarrow> bool" where
  "content_key db org own cid nid = (case tb_contents db nid of None \<Rightarrow> False
     | Some c \<Rightarrow> cn_org c = org \<and> cn_owner c = own \<and> cn_conv c = cid)"

definition turn_key :: "turn_db \<Rightarrow> string \<Rightarrow> string \<Rightarrow> string \<Rightarrow> string \<Rightarrow> string \<Rightarrow> bool" where
  "turn_key db org own cid bid tid = list_ex (\<lambda>t. ct_org t = org \<and> ct_owner t = own \<and> ct_conv t = cid \<and>
     ct_branch t = bid \<and> ct_id t = tid) (tb_turns db)"

definition attempt_key :: "turn_db \<Rightarrow> string \<Rightarrow> string \<Rightarrow> string \<Rightarrow> string \<Rightarrow> string \<Rightarrow> string \<Rightarrow> bool" where
  "attempt_key db org own cid bid tid aid = (case tb_attempts db aid of None \<Rightarrow> False
     | Some a \<Rightarrow> at_org a = org \<and> at_owner a = own \<and> at_conv a = cid \<and> at_branch a = bid \<and> at_turn a = tid)"

definition item_fks :: "turn_db \<Rightarrow> item \<Rightarrow> bool" where
  "item_fks db i \<longleftrightarrow> turn_key db (it_org i) (it_owner i) (it_conv i) (it_branch i) (it_turn i) \<and>
     (case it_attempt i of None \<Rightarrow> True
      | Some x \<Rightarrow> attempt_key db (it_org i) (it_owner i) (it_conv i) (it_branch i) (it_turn i) x) \<and>
     content_key db (it_org i) (it_owner i) (it_conv i) (it_content i)"

lemmas fk_defs = conv_key_def branch_key_def content_key_def turn_key_def attempt_key_def item_fks_def

datatype store_error = Guard guard_error | Check_violation | Foreign_key | Unique_violation | Birth_guard

section \<open>Visibility and the branch order\<close>

definition owns :: "owner \<Rightarrow> attempt \<Rightarrow> bool" where
  "owns ow a \<longleftrightarrow> at_org a = ow_org ow \<and> at_owner a = ow_user ow"

definition select_attempt :: "owner \<Rightarrow> string \<Rightarrow> turn_db \<Rightarrow> attempt option" where
  "select_attempt ow aid db = (case tb_attempts db aid of None \<Rightarrow> None
     | Some a \<Rightarrow> if owns ow a then Some a else None)"

definition on_branch :: "attempt \<Rightarrow> turn \<Rightarrow> bool" where
  "on_branch a t \<longleftrightarrow> ct_org t = at_org a \<and> ct_owner t = at_owner a \<and> ct_conv t = at_conv a \<and> ct_branch t = at_branch a"

definition turn_of :: "turn_db \<Rightarrow> attempt \<Rightarrow> turn option" where
  "turn_of db a = find (\<lambda>t. on_branch a t \<and> ct_id t = at_turn a) (tb_turns db)"

definition blocks :: "turn_db \<Rightarrow> turn \<Rightarrow> bool" where
  "blocks db t = (case ct_current t of None \<Rightarrow> True
     | Some c \<Rightarrow> (case tb_attempts db c of None \<Rightarrow> False
         | Some a \<Rightarrow> on_branch a t \<and> at_turn a = ct_id t \<and> non_terminal (at_state a)))"

definition branch_head :: "turn_db \<Rightarrow> attempt \<Rightarrow> bool" where
  "branch_head db a = (case turn_of db a of None \<Rightarrow> True
     | Some t \<Rightarrow> \<not> list_ex (\<lambda>t2. on_branch a t2 \<and> ct_seq t2 < ct_seq t \<and> blocks db t2) (tb_turns db))"

section \<open>Updates of an attempt\<close>

definition put_attempt :: "attempt \<Rightarrow> turn_db \<Rightarrow> turn_db" where
  "put_attempt a db = db\<lparr> tb_attempts := (tb_attempts db)(at_id a \<mapsto> a) \<rparr>"

text \<open>\<open>UPDATE govai.ai_conversation_attempts SET .. WHERE id = .. AND cond RETURNING ..\<close>.\<close>

definition update_attempt ::
  "owner \<Rightarrow> string \<Rightarrow> (attempt \<Rightarrow> bool) \<Rightarrow> (attempt \<Rightarrow> attempt) \<Rightarrow> turn_db
   \<Rightarrow> store_error + attempt option \<times> turn_db" where
  "update_attempt ow aid cond f db = (case select_attempt ow aid db of None \<Rightarrow> Inr (None, db)
     | Some a \<Rightarrow>
         if \<not> cond a then Inr (None, db)
         else (case guarded_update a (f a) of Some e \<Rightarrow> Inl (Guard e)
           | None \<Rightarrow>
               if \<not> attempt_checks (f a) then Inl Check_violation
               else if \<not> cred_fk (tb_creds db) (f a) then Inl Foreign_key
               else Inr (Some (f a), put_attempt (f a) db)))"

definition us :: "int \<Rightarrow> int" where
  "us ms = 1000 * ms"

record claim =
  cg_token :: string
  cg_claimant :: string
  cg_deadline :: int

definition grant :: "string \<Rightarrow> string \<Rightarrow> int \<Rightarrow> attempt option \<Rightarrow> claim option" where
  "grant tok cl dl r = (case r of None \<Rightarrow> None | Some a \<Rightarrow> Some \<lparr> cg_token = tok, cg_claimant = cl, cg_deadline = dl \<rparr>)"

definition lease :: "string \<Rightarrow> string \<Rightarrow> int \<Rightarrow> int \<Rightarrow> attempt \<Rightarrow> attempt" where
  "lease tok cl now lease_ms a = a\<lparr> at_token := Some tok, at_claimant := Some cl,
     at_deadline := Some (now + us lease_ms), at_heartbeat := Some now, at_updated := now \<rparr>"

definition expired :: "int \<Rightarrow> int \<Rightarrow> attempt \<Rightarrow> bool" where
  "expired now grace_ms a = (case at_deadline a of None \<Rightarrow> False | Some d \<Rightarrow> d + us grace_ms < now)"

definition live :: "int \<Rightarrow> attempt \<Rightarrow> bool" where
  "live now a = (case at_deadline a of None \<Rightarrow> False | Some d \<Rightarrow> now < d)"

definition claimQueuedHead ::
  "owner \<Rightarrow> int \<Rightarrow> string \<Rightarrow> string \<Rightarrow> string \<Rightarrow> int \<Rightarrow> turn_db \<Rightarrow> store_error + claim option \<times> turn_db" where
  "claimQueuedHead ow now tok aid cl lease_ms db =
     bindE (update_attempt ow aid
        (\<lambda>a. at_state a = Accepted \<and> at_token a = None \<and> \<not> at_stop a \<and> branch_head db a)
        (lease tok cl now lease_ms) db)
       (\<lambda>(r, db'). Inr (grant tok cl (now + us lease_ms) r, db'))"

definition rotateExpiredAcceptedClaim ::
  "owner \<Rightarrow> int \<Rightarrow> string \<Rightarrow> string \<Rightarrow> string \<Rightarrow> string \<Rightarrow> int \<Rightarrow> turn_db \<Rightarrow> store_error + claim option \<times> turn_db" where
  "rotateExpiredAcceptedClaim ow now tok aid expected cl lease_ms db =
     bindE (update_attempt ow aid
        (\<lambda>a. at_state a = Accepted \<and> at_token a = Some expected \<and> expired now 0 a \<and> \<not> at_stop a \<and> branch_head db a)
        (lease tok cl now lease_ms) db)
       (\<lambda>(r, db'). Inr (grant tok cl (now + us lease_ms) r, db'))"

definition restoreProvenanceAbsentDispatching ::
  "owner \<Rightarrow> int \<Rightarrow> string \<Rightarrow> string \<Rightarrow> string \<Rightarrow> string \<Rightarrow> int \<Rightarrow> int \<Rightarrow> turn_db
   \<Rightarrow> store_error + claim option \<times> turn_db" where
  "restoreProvenanceAbsentDispatching ow now tok aid expected cl lease_ms grace_ms db =
     bindE (update_attempt ow aid
        (\<lambda>a. at_state a = Dispatching \<and> at_token a = Some expected \<and> at_credential a = None \<and> expired now grace_ms a)
        (\<lambda>a. (lease tok cl now lease_ms a)\<lparr> at_state := Accepted \<rparr>) db)
       (\<lambda>(r, db'). Inr (grant tok cl (now + us lease_ms) r, db'))"

definition ratchetStrandedToOutcomeUnknown ::
  "owner \<Rightarrow> int \<Rightarrow> string \<Rightarrow> string \<Rightarrow> int \<Rightarrow> turn_db \<Rightarrow> store_error + bool \<times> turn_db" where
  "ratchetStrandedToOutcomeUnknown ow now aid expected grace_ms db =
     bindE (update_attempt ow aid
        (\<lambda>a. (at_state a = Dispatching \<or> at_state a = Streaming) \<and> at_token a = Some expected \<and>
             at_credential a \<noteq> None \<and> expired now grace_ms a)
        (\<lambda>a. a\<lparr> at_state := Unknown, at_terminal := Some now, at_updated := now \<rparr>) db)
       (\<lambda>(r, db'). Inr (r \<noteq> None, db'))"

definition lockRootForDispatch :: "owner \<Rightarrow> string \<Rightarrow> turn_db \<Rightarrow> string option" where
  "lockRootForDispatch ow cid db = (case tb_convs db cid of None \<Rightarrow> None
     | Some c \<Rightarrow> if cv_org c = ow_org ow \<and> cv_owner c = ow_user ow then Some (cv_status c) else None)"

definition isRootExecutionEligible :: "string \<Rightarrow> bool" where
  "isRootExecutionEligible status \<longleftrightarrow> status = ''active'' \<or> status = ''archived''"

definition branch_at_version :: "turn_db \<Rightarrow> int \<Rightarrow> attempt \<Rightarrow> bool" where
  "branch_at_version db v a = (case tb_branches db (at_branch a) of None \<Rightarrow> False
     | Some b \<Rightarrow> br_org b = at_org a \<and> br_owner b = at_owner a \<and> br_conv b = at_conv a \<and> br_causal b = v)"

definition first_of :: "'a option \<Rightarrow> 'a \<Rightarrow> 'a option" where
  "first_of old new = (case old of None \<Rightarrow> Some new | Some x \<Rightarrow> Some x)"

definition commitDispatchBoundary_turn ::
  "owner \<Rightarrow> int \<Rightarrow> string \<Rightarrow> string \<Rightarrow> int \<Rightarrow> int \<Rightarrow> string \<Rightarrow> envelope option \<Rightarrow> turn_db
   \<Rightarrow> store_error + string option \<times> turn_db" where
  "commitDispatchBoundary_turn ow now aid tok lease_ms version req parent db =
     bindE (update_attempt ow aid
        (\<lambda>a. at_state a = Accepted \<and> at_token a = Some tok \<and> live now a \<and> \<not> at_stop a \<and>
             branch_at_version db version a \<and> branch_head db a)
        (\<lambda>a. a\<lparr> at_state := Dispatching, at_boundary := first_of (at_boundary a) now,
               at_request := first_of (at_request a) req, at_causal := Some version, at_parent := parent,
               at_deadline := Some (now + us lease_ms), at_heartbeat := Some now, at_updated := now \<rparr>) db)
       (\<lambda>(r, db'). Inr (case r of None \<Rightarrow> None | Some a \<Rightarrow> at_request a, db'))"

definition commitCredentialProvenance ::
  "owner \<Rightarrow> int \<Rightarrow> string \<Rightarrow> string \<Rightarrow> string \<Rightarrow> string \<Rightarrow> turn_db \<Rightarrow> store_error + bool \<times> turn_db" where
  "commitCredentialProvenance ow now aid tok cred provider db =
     bindE (update_attempt ow aid
        (\<lambda>a. at_state a = Dispatching \<and> at_token a = Some tok \<and> live now a \<and> at_credential a = None \<and>
             list_ex (\<lambda>r. cr_id r = cred \<and> cr_org r = at_org a \<and> cr_provider r = provider \<and> cr_status r = ''active'')
               (tb_creds db))
        (\<lambda>a. a\<lparr> at_credential := Some cred, at_updated := now \<rparr>) db)
       (\<lambda>(r, db'). Inr (r \<noteq> None, db'))"

definition restoreDispatchingToAccepted ::
  "owner \<Rightarrow> int \<Rightarrow> string \<Rightarrow> string \<Rightarrow> int \<Rightarrow> turn_db \<Rightarrow> store_error + bool \<times> turn_db" where
  "restoreDispatchingToAccepted ow now aid tok lease_ms db =
     bindE (update_attempt ow aid
        (\<lambda>a. at_state a = Dispatching \<and> at_token a = Some tok \<and> live now a \<and> at_credential a = None)
        (\<lambda>a. a\<lparr> at_state := Accepted, at_deadline := Some (now + us lease_ms), at_heartbeat := Some now,
               at_updated := now \<rparr>) db)
       (\<lambda>(r, db'). Inr (r \<noteq> None, db'))"

record authority =
  au_state :: attempt_state
  au_lease_valid :: bool
  au_stop :: bool

definition readPrePostAuthority :: "owner \<Rightarrow> int \<Rightarrow> string \<Rightarrow> string \<Rightarrow> turn_db \<Rightarrow> authority option" where
  "readPrePostAuthority ow now aid tok db = (case select_attempt ow aid db of None \<Rightarrow> None
     | Some a \<Rightarrow> if at_token a = Some tok
         then Some \<lparr> au_state = at_state a, au_lease_valid = live now a, au_stop = at_stop a \<rparr> else None)"

record heartbeat =
  hb_extended :: bool
  hb_stop :: bool
  hb_state :: "attempt_state option"

definition heartbeatClaim ::
  "owner \<Rightarrow> int \<Rightarrow> string \<Rightarrow> string \<Rightarrow> int \<Rightarrow> turn_db \<Rightarrow> store_error + heartbeat \<times> turn_db" where
  "heartbeatClaim ow now aid tok lease_ms db =
     bindE (update_attempt ow aid
        (\<lambda>a. at_token a = Some tok \<and> live now a \<and> non_terminal (at_state a))
        (\<lambda>a. a\<lparr> at_deadline := Some (now + us lease_ms), at_heartbeat := Some now, at_updated := now \<rparr>) db)
       (\<lambda>(r, db'). Inr (case r of None \<Rightarrow> \<lparr> hb_extended = False, hb_stop = False, hb_state = None \<rparr>
          | Some a \<Rightarrow> \<lparr> hb_extended = True, hb_stop = at_stop a, hb_state = Some (at_state a) \<rparr>, db'))"

definition markStreaming :: "owner \<Rightarrow> int \<Rightarrow> string \<Rightarrow> string \<Rightarrow> turn_db \<Rightarrow> store_error + bool \<times> turn_db" where
  "markStreaming ow now aid tok db =
     bindE (update_attempt ow aid
        (\<lambda>a. at_state a = Dispatching \<and> at_token a = Some tok)
        (\<lambda>a. a\<lparr> at_state := Streaming, at_updated := now \<rparr>) db)
       (\<lambda>(r, db'). Inr (r \<noteq> None, db'))"

definition finalizeAttempt ::
  "owner \<Rightarrow> int \<Rightarrow> string \<Rightarrow> string \<Rightarrow> attempt_state \<Rightarrow> attempt_error option \<Rightarrow> turn_db
   \<Rightarrow> store_error + bool \<times> turn_db" where
  "finalizeAttempt ow now aid tok st ec db =
     bindE (update_attempt ow aid
        (\<lambda>a. at_token a = Some tok \<and> non_terminal (at_state a))
        (\<lambda>a. a\<lparr> at_state := st, at_error := ec, at_terminal := Some now, at_updated := now \<rparr>) db)
       (\<lambda>(r, db'). Inr (r \<noteq> None, db'))"

section \<open>Output items, the causal version and the reads of the executor\<close>

definition same_item_key :: "item \<Rightarrow> item \<Rightarrow> bool" where
  "same_item_key i j \<longleftrightarrow> it_org i = it_org j \<and> it_owner i = it_owner j \<and> it_conv i = it_conv j \<and>
     it_branch i = it_branch j \<and> it_turn i = it_turn j \<and> it_attempt i = it_attempt j \<and> it_seq i = it_seq j"

definition appendFencedOutputItem ::
  "owner \<Rightarrow> string \<Rightarrow> string \<Rightarrow> nat \<Rightarrow> string \<Rightarrow> string \<Rightarrow> turn_db \<Rightarrow> store_error + bool \<times> turn_db" where
  "appendFencedOutputItem ow aid tok seq ty cid db =
     (case select_attempt ow aid db of None \<Rightarrow> Inr (False, db)
      | Some a \<Rightarrow>
          if \<not> (at_token a = Some tok \<and> (at_state a = Dispatching \<or> at_state a = Streaming)) then Inr (False, db)
          else let i = \<lparr> it_org = at_org a, it_owner = at_owner a, it_conv = at_conv a, it_branch = at_branch a,
                         it_turn = at_turn a, it_attempt = Some aid, it_seq = seq, it_type = ty, it_content = cid \<rparr>
               in if seq < 1 then Inl Check_violation
                  else if list_ex (same_item_key i) (tb_items db) then Inl Unique_violation
                  else if \<not> item_fks db i then Inl Foreign_key
                  else Inr (True, db\<lparr> tb_items := tb_items db @ [i] \<rparr>))"

definition nextAttemptItemSeq :: "owner \<Rightarrow> string \<Rightarrow> turn_db \<Rightarrow> nat" where
  "nextAttemptItemSeq ow aid db =
     Suc (foldr max (map it_seq (filter (\<lambda>i. it_attempt i = Some aid \<and> it_org i = ow_org ow \<and> it_owner i = ow_user ow)
       (tb_items db))) 0)"

text \<open>The branch trigger admits any value that does not decrease.\<close>

definition bumpBranchCausalVersion :: "owner \<Rightarrow> int \<Rightarrow> string \<Rightarrow> string \<Rightarrow> turn_db \<Rightarrow> turn_db" where
  "bumpBranchCausalVersion ow now cid bid db = (case tb_branches db bid of None \<Rightarrow> db
     | Some b \<Rightarrow> if br_conv b = cid \<and> br_org b = ow_org ow \<and> br_owner b = ow_user ow
         then db\<lparr> tb_branches := (tb_branches db)(bid \<mapsto> b\<lparr> br_causal := br_causal b + 1, br_updated := now \<rparr>) \<rparr>
         else db)"

record exec_context =
  ec_conv :: string
  ec_branch :: string
  ec_turn :: string
  ec_turn_seq :: nat
  ec_mode :: string
  ec_provider :: string
  ec_surface :: string
  ec_model :: string
  ec_causal :: int
  ec_status :: string
  ec_config :: string

definition readExecutionContext :: "owner \<Rightarrow> string \<Rightarrow> turn_db \<Rightarrow> exec_context option" where
  "readExecutionContext ow aid db = (case select_attempt ow aid db of None \<Rightarrow> None
     | Some a \<Rightarrow> (case (turn_of db a, tb_branches db (at_branch a), tb_convs db (at_conv a)) of
         (Some t, Some b, Some c) \<Rightarrow>
           if br_org b = at_org a \<and> br_owner b = at_owner a \<and> br_conv b = at_conv a \<and>
              cv_org c = at_org a \<and> cv_owner c = at_owner a
           then Some \<lparr> ec_conv = at_conv a, ec_branch = at_branch a, ec_turn = at_turn a, ec_turn_seq = ct_seq t,
                       ec_mode = cv_mode c, ec_provider = br_provider b, ec_surface = br_surface b,
                       ec_model = br_model b, ec_causal = br_causal b, ec_status = cv_status c,
                       ec_config = ct_config t \<rparr>
           else None
       | _ \<Rightarrow> None))"

definition readActiveProviderCredential :: "owner \<Rightarrow> string \<Rightarrow> turn_db \<Rightarrow> credential option" where
  "readActiveProviderCredential ow provider db =
     find (\<lambda>r. cr_org r = ow_org ow \<and> cr_provider r = provider \<and> cr_status r = ''active'') (tb_creds db)"

definition readNativeRequestConfig :: "owner \<Rightarrow> string \<Rightarrow> turn_db \<Rightarrow> content option" where
  "readNativeRequestConfig ow cid db = (case tb_contents db cid of None \<Rightarrow> None
     | Some c \<Rightarrow> if cn_org c = ow_org ow \<and> cn_owner c = ow_user ow then Some c else None)"

end
