(* ===== verification/Turn_Reservation.thy ===== *)
theory Turn_Reservation
  imports Turn_Store Run_Dispatch
begin

text \<open>
  The durable send (\<open>ai-conversations/turn-service.ts\<close>, \<open>turn-store.ts\<close>, \<open>send-intent.ts\<close>,
  \<open>dispatch-registry.ts\<close>): a turn, its immutable request and its first attempt are reserved in
  one transaction, and a repeated send is answered from the committed turn. The KMS and
  \<open>JSON.parse\<close> are parameters; uuids of the database are lower case.
\<close>

section \<open>Which conversations can be dispatched\<close>

datatype unsupported = Requires_continuation | Surface_not_supported

record dispatch_plan =
  pl_provider :: string
  pl_surface :: string
  pl_mode :: string
  pl_path :: string
  pl_create :: string
  pl_stream :: string
  pl_level :: string

definition resolveDispatchPlan :: "string \<Rightarrow> string \<Rightarrow> string \<Rightarrow> unsupported + dispatch_plan" where
  "resolveDispatchPlan provider surface mode =
     (if provider \<noteq> ''anthropic'' \<and> provider \<noteq> ''openai'' then Inl Requires_continuation
      else if provider = ''anthropic'' \<and> surface = ''anthropic_messages'' then
        Inr \<lparr> pl_provider = ''anthropic'', pl_surface = ''anthropic_messages'', pl_mode = mode,
              pl_path = ''/v1/messages'', pl_create = ''anthropic.messages.create'',
              pl_stream = ''anthropic.messages.stream'', pl_level = ''policy_governed'' \<rparr>
      else if provider = ''openai'' \<and> surface = ''openai_responses'' then
        Inr \<lparr> pl_provider = ''openai'', pl_surface = ''openai_responses'', pl_mode = mode,
              pl_path = ''/v1/responses'', pl_create = ''openai.responses.create'',
              pl_stream = ''openai.responses.stream'', pl_level = ''policy_governed'' \<rparr>
      else Inl Surface_not_supported)"

definition isStreamingNativeRequest :: "jsval \<Rightarrow> bool" where
  "isStreamingNativeRequest v = (case v of JObj ps \<Rightarrow> obj_get v ''stream'' = Some (JBool True) | _ \<Rightarrow> False)"

section \<open>The intent of a send\<close>

text \<open>
  \<open>stableCanonicalJson\<close>; a native request comes from \<open>JSON.parse\<close>, so it holds no function and
  no bigint, on which the code would throw or print \<open>undefined\<close>.
\<close>

function stableCanonicalJson :: "(rat \<Rightarrow> string) \<Rightarrow> jsval \<Rightarrow> string" where
  "stableCanonicalJson num JUndef = ''null''"
| "stableCanonicalJson num JNull = ''null''"
| "stableCanonicalJson num (JBool b) = (if b then ''true'' else ''false'')"
| "stableCanonicalJson num (JNum n) = (case n of NonFinite \<Rightarrow> ''null'' | Finite q \<Rightarrow> num q)"
| "stableCanonicalJson num (JStr s) = quote_str s"
| "stableCanonicalJson num (JArr vs) = CHR ''['' # join_comma (map (stableCanonicalJson num) vs) @ '']''"
| "stableCanonicalJson num (JObj ps) = CHR ''{'' #
     join_comma (map (\<lambda>(k, v). quote_str k @ CHR '':'' # stableCanonicalJson num v) (sort_key fst ps)) @ ''}''"
| "stableCanonicalJson num JFun = ''undefined''"
| "stableCanonicalJson num (JBigInt i) = []"
  by pat_completeness auto
termination
  by (relation "measure (\<lambda>(num, v). size v)")
     (auto simp del: jsval.size intro: size_arr_item size_obj_item)

definition buildSendIntent :: "string \<Rightarrow> string \<Rightarrow> jsval \<Rightarrow> jsval" where
  "buildSendIntent cid bid req = JObj
     [(''contract'', JStr ''govai.ai_conversation_send_intent.v1''),
      (''conversation_id'', JStr (lower cid)), (''branch_id'', JStr (lower bid)), (''native_request'', req)]"

definition sendIntentHash :: "crypto \<Rightarrow> jsval \<Rightarrow> bytes" where
  "sendIntentHash cr v = sha cr (utf8 (stableCanonicalJson (num_text cr) v))"

definition nativeRequestBytes :: "crypto \<Rightarrow> jsval \<Rightarrow> bytes" where
  "nativeRequestBytes cr v = utf8 (json_text (num_text cr) v)"

section \<open>The reservation\<close>

text \<open>
  The KMS as the conversation plane uses it: encryption may fail and is randomized, decryption
  fails on what it cannot open.
\<close>

record conv_kms =
  ck_encrypt :: "string \<Rightarrow> nat \<Rightarrow> bytes \<Rightarrow> (envelope \<times> bytes) option"
  ck_decrypt :: "string \<Rightarrow> envelope \<Rightarrow> bytes option"
  ck_parse :: "bytes \<Rightarrow> jsval option"

datatype send_error =
    Conversation_not_found | Branch_not_found | Surface_unsupported string string unsupported
  | Send_too_large | Kms_failed | Idempotency_conflict | Loser_signal | Send_store store_error

record send_input =
  si_branch :: string
  si_client :: string
  si_request :: jsval

text \<open>The values a reservation draws: three uuids and the clock.\<close>

record send_env =
  se_turn :: string
  se_attempt :: string
  se_content :: string
  se_now :: int

definition NATIVE_REQUEST_MAX_BYTES :: nat where
  "NATIVE_REQUEST_MAX_BYTES = 524288"

definition isAddressable :: "string \<Rightarrow> bool" where
  "isAddressable status \<longleftrightarrow> status = ''active'' \<or> status = ''archived''"

definition isExecutionEligible :: "string \<Rightarrow> bool" where
  "isExecutionEligible status \<longleftrightarrow> status \<noteq> ''deleted_pending'' \<and> status \<noteq> ''deleted''"

definition prepareSend :: "crypto \<Rightarrow> conv_kms \<Rightarrow> owner \<Rightarrow> nat \<Rightarrow> jsval \<Rightarrow> send_error + envelope \<times> bytes" where
  "prepareSend cr k ow nonce req =
     (let b = nativeRequestBytes cr req in
      if NATIVE_REQUEST_MAX_BYTES < length b then Inl Send_too_large
      else case ck_encrypt k (ow_org ow) nonce b of None \<Rightarrow> Inl Kms_failed | Some e \<Rightarrow> Inr e)"

definition find_conv :: "owner \<Rightarrow> string \<Rightarrow> turn_db \<Rightarrow> conversation option" where
  "find_conv ow cid db = (case tb_convs db cid of None \<Rightarrow> None
     | Some c \<Rightarrow> if cv_org c = ow_org ow \<and> cv_owner c = ow_user ow then Some c else None)"

definition getBranchInConversation :: "owner \<Rightarrow> string \<Rightarrow> string \<Rightarrow> turn_db \<Rightarrow> branch option" where
  "getBranchInConversation ow cid bid db = (case tb_branches db bid of None \<Rightarrow> None
     | Some b \<Rightarrow> if br_conv b = cid \<and> br_org b = ow_org ow \<and> br_owner b = ow_user ow then Some b else None)"

definition own_turn :: "owner \<Rightarrow> string \<Rightarrow> turn \<Rightarrow> bool" where
  "own_turn ow cid t \<longleftrightarrow> ct_org t = ow_org ow \<and> ct_owner t = ow_user ow \<and> ct_conv t = cid"

definition nextTurnSeq :: "owner \<Rightarrow> string \<Rightarrow> string \<Rightarrow> turn_db \<Rightarrow> nat" where
  "nextTurnSeq ow cid bid db =
     Suc (foldr max (map ct_seq (filter (\<lambda>t. own_turn ow cid t \<and> ct_branch t = bid) (tb_turns db))) 0)"

definition insertContent ::
  "owner \<Rightarrow> string \<Rightarrow> string \<Rightarrow> envelope \<times> bytes \<Rightarrow> turn_db \<Rightarrow> store_error + turn_db" where
  "insertContent ow cid nid e db =
     (if en_dek (fst e) = None \<or> length (snd e) \<noteq> 32 then Inl Check_violation
      else if tb_contents db nid \<noteq> None then Inl Unique_violation
      else if \<not> conv_key db (ow_org ow) (ow_user ow) cid then Inl Foreign_key
      else Inr (db\<lparr> tb_contents := (tb_contents db)(nid \<mapsto>
        \<lparr> cn_org = ow_org ow, cn_owner = ow_user ow, cn_conv = cid, cn_envelope = fst e, cn_hmac = snd e,
          cn_status = ''active'' \<rparr>) \<rparr>))"

text \<open>The birth of an attempt: the columns the reservation does not name take their defaults.\<close>

definition born :: "owner \<Rightarrow> string \<Rightarrow> string \<Rightarrow> string \<Rightarrow> string \<Rightarrow> int \<Rightarrow> attempt" where
  "born ow cid bid tid aid now =
     \<lparr> at_id = aid, at_org = ow_org ow, at_owner = ow_user ow, at_conv = cid, at_branch = bid, at_turn = tid,
       at_seq = 1, at_state = Accepted, at_token = None, at_claimant = None, at_deadline = None,
       at_heartbeat = None, at_stop = False, at_causal = None, at_request = None, at_capture = None,
       at_credential = None, at_boundary = None, at_parent = None, at_excluded = False, at_error = None,
       at_terminal = None, at_created = now, at_updated = now \<rparr>"

definition insert_attempt :: "attempt \<Rightarrow> turn_db \<Rightarrow> store_error + turn_db" where
  "insert_attempt a db =
     (if \<not> birth_guard a then Inl Birth_guard
      else if \<not> attempt_checks a then Inl Check_violation
      else if tb_attempts db (at_id a) \<noteq> None then Inl Unique_violation
      else if \<not> turn_key db (at_org a) (at_owner a) (at_conv a) (at_branch a) (at_turn a) then Inl Foreign_key
      else Inr (put_attempt a db))"

definition insertReservedTurnWithInitialAttempt ::
  "owner \<Rightarrow> send_env \<Rightarrow> string \<Rightarrow> string \<Rightarrow> string \<Rightarrow> nat \<Rightarrow> string \<Rightarrow> turn_db
   \<Rightarrow> store_error + (string \<times> string) option \<times> turn_db" where
  "insertReservedTurnWithInitialAttempt ow env cid bid client seq config db =
     (let t = \<lparr> ct_id = se_turn env, ct_org = ow_org ow, ct_owner = ow_user ow, ct_conv = cid, ct_branch = bid,
                ct_client = client, ct_seq = seq, ct_current = Some (se_attempt env), ct_config = config,
                ct_created = se_now env \<rparr> in
      if seq < 1 then Inl Check_violation
      else if list_ex (\<lambda>q. ct_org q = ow_org ow \<and> ct_conv q = cid \<and> ct_client q = client) (tb_turns db)
        then Inr (None, db)
      else if list_ex (\<lambda>q. ct_id q = ct_id t) (tb_turns db) then Inl Unique_violation
      else if list_ex (\<lambda>q. own_turn ow cid q \<and> ct_branch q = bid \<and> ct_seq q = seq) (tb_turns db)
        then Inl Unique_violation
      else if \<not> branch_key db (ow_org ow) (ow_user ow) cid bid \<or> \<not> content_key db (ow_org ow) (ow_user ow) cid config
        then Inl Foreign_key
      else bindE (insert_attempt (born ow cid bid (ct_id t) (se_attempt env) (se_now env))
                    (db\<lparr> tb_turns := tb_turns db @ [t] \<rparr>))
             (\<lambda>db'. Inr (Some (ct_id t, se_attempt env), db')))"

definition insertTurnOwnedItem ::
  "owner \<Rightarrow> string \<Rightarrow> string \<Rightarrow> string \<Rightarrow> nat \<Rightarrow> string \<Rightarrow> string \<Rightarrow> turn_db \<Rightarrow> store_error + turn_db" where
  "insertTurnOwnedItem ow cid bid tid seq ty content db =
     (let i = \<lparr> it_org = ow_org ow, it_owner = ow_user ow, it_conv = cid, it_branch = bid, it_turn = tid,
                it_attempt = None, it_seq = seq, it_type = ty, it_content = content \<rparr> in
      if seq < 1 then Inl Check_violation
      else if list_ex (same_item_key i) (tb_items db) then Inl Unique_violation
      else if \<not> item_fks db i then Inl Foreign_key
      else Inr (db\<lparr> tb_items := tb_items db @ [i] \<rparr>))"

definition liftS :: "store_error + 'a \<Rightarrow> send_error + 'a" where
  "liftS m = (case m of Inl e \<Rightarrow> Inl (Send_store e) | Inr x \<Rightarrow> Inr x)"

text \<open>The reservation transaction of \<open>sendTurn\<close>.\<close>

definition reserveTurn ::
  "owner \<Rightarrow> send_env \<Rightarrow> string \<Rightarrow> send_input \<Rightarrow> envelope \<times> bytes \<Rightarrow> turn_db \<Rightarrow> send_error + string \<times> turn_db" where
  "reserveTurn ow env cid inp config db =
     (case find_conv ow cid db of None \<Rightarrow> Inl Conversation_not_found
      | Some c \<Rightarrow>
          if \<not> isAddressable (cv_status c) \<or> \<not> isExecutionEligible (cv_status c) then Inl Conversation_not_found
          else case getBranchInConversation ow cid (lower (si_branch inp)) db of None \<Rightarrow> Inl Branch_not_found
            | Some b \<Rightarrow>
              (case resolveDispatchPlan (br_provider b) (br_surface b) (cv_mode c) of
                 Inl why \<Rightarrow> Inl (Surface_unsupported (br_provider b) (br_surface b) why)
               | Inr plan \<Rightarrow>
                   bindE (liftS (insertContent ow cid (se_content env) config db)) (\<lambda>db1.
                   bindE (liftS (insertReservedTurnWithInitialAttempt ow env cid (br_id b) (lower (si_client inp))
                            (nextTurnSeq ow cid (br_id b) db) (se_content env) db1)) (\<lambda>(minted, db2).
                   case minted of None \<Rightarrow> Inl Loser_signal
                   | Some (tid, aid) \<Rightarrow>
                       bindE (liftS (insertTurnOwnedItem ow cid (br_id b) tid 1 ''native_request'' (se_content env) db2))
                         (\<lambda>db3. Inr (tid, db3))))))"

definition findTurnByClientTurnId :: "owner \<Rightarrow> string \<Rightarrow> string \<Rightarrow> turn_db \<Rightarrow> turn option" where
  "findTurnByClientTurnId ow cid client db = find (\<lambda>t. own_turn ow cid t \<and> ct_client t = client) (tb_turns db)"

definition getContentById :: "owner \<Rightarrow> string \<Rightarrow> string \<Rightarrow> turn_db \<Rightarrow> content option" where
  "getContentById ow cid nid db = (case tb_contents db nid of None \<Rightarrow> None
     | Some c \<Rightarrow> if cn_org c = ow_org ow \<and> cn_owner c = ow_user ow \<and> cn_conv c = cid then Some c else None)"

definition decryptConversationContent :: "conv_kms \<Rightarrow> owner \<Rightarrow> content \<Rightarrow> bytes option" where
  "decryptConversationContent k ow c =
     (if en_dek (cn_envelope c) = None then None
      else ck_decrypt k (ow_org ow) (cn_envelope c))"

definition resolveCommittedSend ::
  "crypto \<Rightarrow> conv_kms \<Rightarrow> owner \<Rightarrow> string \<Rightarrow> send_input \<Rightarrow> turn_db \<Rightarrow> send_error + string" where
  "resolveCommittedSend cr k ow cid inp db =
     (case findTurnByClientTurnId ow cid (lower (si_client inp)) db of None \<Rightarrow> Inl Loser_signal
      | Some t \<Rightarrow> (case getContentById ow cid (ct_config t) db of None \<Rightarrow> Inl Idempotency_conflict
        | Some c \<Rightarrow> (case Option.bind (decryptConversationContent k ow c) (ck_parse k) of None \<Rightarrow> Inl Idempotency_conflict
          | Some committed \<Rightarrow>
              if sendIntentHash cr (buildSendIntent cid (ct_branch t) committed)
                 \<noteq> sendIntentHash cr (buildSendIntent cid (si_branch inp) (si_request inp))
              then Inl Idempotency_conflict else Inr (ct_id t))))"

text \<open>
  \<open>sendTurn\<close>: the turn it answers with and whether that is a replay. Between the lost
  reservation and the read of the committed turn other sessions may commit; \<open>later\<close> is what they
  leave.
\<close>

definition sendTurn ::
  "crypto \<Rightarrow> conv_kms \<Rightarrow> nat \<Rightarrow> owner \<Rightarrow> send_env \<Rightarrow> string \<Rightarrow> send_input \<Rightarrow> turn_db \<Rightarrow> (turn_db \<Rightarrow> turn_db)
   \<Rightarrow> (send_error + string \<times> bool) \<times> turn_db" where
  "sendTurn cr k nonce ow env cid inp db later =
     (case prepareSend cr k ow nonce (si_request inp) of Inl e \<Rightarrow> (Inl e, db)
      | Inr config \<Rightarrow>
          (case reserveTurn ow env (lower cid) inp config db of
             Inr (tid, db') \<Rightarrow> (Inr (tid, False), db')
           | Inl Loser_signal \<Rightarrow>
               (case resolveCommittedSend cr k ow (lower cid) inp (later db) of
                  Inl e \<Rightarrow> (Inl e, later db) | Inr tid \<Rightarrow> (Inr (tid, True), later db))
           | Inl e \<Rightarrow> (Inl e, db)))"
section \<open>The intent hash\<close>

text \<open>What \<open>JSON.parse\<close> returns: no \<open>undefined\<close>, no function, no bigint, finite numbers.\<close>

function is_json :: "jsval \<Rightarrow> bool" where
  "is_json (JArr vs) = list_all is_json vs"
| "is_json (JObj ps) = list_all (\<lambda>(k, v). is_json v) ps"
| "is_json (JNum n) = (case n of Finite q \<Rightarrow> True | NonFinite \<Rightarrow> False)"
| "is_json JUndef = False"
| "is_json JNull = True"
| "is_json (JBool b) = True"
| "is_json (JStr s) = True"
| "is_json (JBigInt i) = False"
| "is_json JFun = False"
  by pat_completeness auto
termination
  by (relation "measure size") (auto simp del: jsval.size intro: size_arr_item size_obj_item)

lemma collectE_map_Inr: "(\<And>x. x \<in> set xs \<Longrightarrow> f x = Inr (g x)) \<Longrightarrow> collectE (map f xs) = Inr (map g xs)"
  by (simp add: collectE_Inr_iff)

text \<open>On JSON values the send-intent text is the canonical text of the audit package.\<close>

lemma stable_is_canonical: "is_json v \<Longrightarrow> stringify num v = Inr (stableCanonicalJson num v)"
proof (induction v rule: measure_induct_rule [where f = size])
  case (less v)
  show ?case
  proof (cases v)
    case (JArr vs)
    have "collectE (map (stringify num) vs) = Inr (map (stableCanonicalJson num) vs)"
      using less JArr size_arr_item by (intro collectE_map_Inr) (auto simp: list_all_iff)
    then show ?thesis by (simp add: JArr)
  next
    case (JObj ps)
    have sub: "is_json x \<and> size x < size v" if "(k, x) \<in> set ps" for k x
      using less.prems that JObj size_obj_item [OF that] by (auto simp: list_all_iff)
    then have live: "live_props ps = sort_key fst ps"
      unfolding live_props_def by (intro filter_True) (auto dest: sub)
    have "collectE (map (prop_text num) (sort_key fst ps))
        = Inr (map (\<lambda>(k, v). quote_str k @ CHR '':'' # stableCanonicalJson num v) (sort_key fst ps))"
      using less.IH sub by (intro collectE_map_Inr) (auto simp: prop_text_def)
    then show ?thesis by (simp only: JObj stringify_obj live stableCanonicalJson.simps) simp
  qed (use less.prems in \<open>auto split: js_num.splits\<close>)
qed

lemma stable_determines:
  assumes "num_text_ok num" "is_json v" "is_json w" "stableCanonicalJson num v = stableCanonicalJson num w"
  shows "jnorm v = jnorm w"
  using stringify_uniq [OF assms(1), of v _ w _ "[]" "[]"] assms(2-4) by (simp add: stable_is_canonical)

lemma stable_jnorm:
  assumes "is_json v" "is_json w" "jnorm v = jnorm w"
  shows "stableCanonicalJson num v = stableCanonicalJson num w"
  using assms by (metis Inr_inject stable_is_canonical stringify_jnorm)

lemma jnorm_intent:
  assumes "req \<noteq> JUndef"
  shows "jnorm (buildSendIntent cid bid req) = JObj
     [(''branch_id'', JStr (lower bid)), (''contract'', JStr ''govai.ai_conversation_send_intent.v1''),
      (''conversation_id'', JStr (lower cid)), (''native_request'', jnorm req)]"
  using assms by (simp add: buildSendIntent_def)

lemma intent_hash_eq:
  assumes inj: "inj (sha cr)" and num: "num_text_ok (num_text cr)" and js: "is_json r" "is_json q"
  shows "sendIntentHash cr (buildSendIntent c b r) = sendIntentHash cr (buildSendIntent c b' q)
    \<longleftrightarrow> lower b = lower b' \<and> jnorm r = jnorm q"
proof -
  have "is_json (buildSendIntent c b r)" "is_json (buildSendIntent c b' q)"
    using js by (simp_all add: buildSendIntent_def)
  moreover have "r \<noteq> JUndef" "q \<noteq> JUndef" using js by auto
  ultimately have same: "stableCanonicalJson (num_text cr) (buildSendIntent c b r)
      = stableCanonicalJson (num_text cr) (buildSendIntent c b' q)
      \<longleftrightarrow> jnorm (buildSendIntent c b r) = jnorm (buildSendIntent c b' q)"
    using stable_determines [OF num, of "buildSendIntent c b r" "buildSendIntent c b' q"]
      stable_jnorm [of "buildSendIntent c b r" "buildSendIntent c b' q" "num_text cr"] by blast
  have "sha cr (utf8 s) = sha cr (utf8 t) \<longleftrightarrow> s = t" for s t
    using inj utf8_inj by (metis injD)
  then show ?thesis
    by (simp add: sendIntentHash_def same jnorm_intent [OF \<open>r \<noteq> JUndef\<close>] jnorm_intent [OF \<open>q \<noteq> JUndef\<close>])
qed

section \<open>What a reservation writes\<close>

lemma liftS_simps [simp]:
  "liftS (Inl e) = Inl (Send_store e)" "liftS (Inr x) = Inr x" "liftS m = Inr x \<longleftrightarrow> m = Inr x"
  "liftS m = Inl Loser_signal \<longleftrightarrow> False"
  by (auto simp: liftS_def split: sum.splits)

lemma born_simps [simp]:
  "birth_guard (born ow cid bid tid aid now)" "attempt_checks (born ow cid bid tid aid now)"
  "at_id (born ow cid bid tid aid now) = aid" "at_org (born ow cid bid tid aid now) = ow_org ow"
  "at_owner (born ow cid bid tid aid now) = ow_user ow" "at_conv (born ow cid bid tid aid now) = cid"
  "at_branch (born ow cid bid tid aid now) = bid" "at_turn (born ow cid bid tid aid now) = tid"
  by (simp_all add: born_def birth_guard_def attempt_checks_def non_terminal_def)

definition new_turn :: "owner \<Rightarrow> send_env \<Rightarrow> string \<Rightarrow> string \<Rightarrow> string \<Rightarrow> nat \<Rightarrow> turn" where
  "new_turn ow env cid bid client seq =
     \<lparr> ct_id = se_turn env, ct_org = ow_org ow, ct_owner = ow_user ow, ct_conv = cid, ct_branch = bid,
       ct_client = client, ct_seq = seq, ct_current = Some (se_attempt env), ct_config = se_content env,
       ct_created = se_now env \<rparr>"

definition client_taken :: "owner \<Rightarrow> string \<Rightarrow> string \<Rightarrow> turn_db \<Rightarrow> bool" where
  "client_taken ow cid client db =
     list_ex (\<lambda>q. ct_org q = ow_org ow \<and> ct_conv q = cid \<and> ct_client q = client) (tb_turns db)"

definition input_item :: "owner \<Rightarrow> send_env \<Rightarrow> string \<Rightarrow> string \<Rightarrow> item" where
  "input_item ow env cid bid =
     \<lparr> it_org = ow_org ow, it_owner = ow_user ow, it_conv = cid, it_branch = bid, it_turn = se_turn env,
       it_attempt = None, it_seq = 1, it_type = ''native_request'', it_content = se_content env \<rparr>"

definition config_row :: "owner \<Rightarrow> string \<Rightarrow> envelope \<times> bytes \<Rightarrow> content" where
  "config_row ow cid e = \<lparr> cn_org = ow_org ow, cn_owner = ow_user ow, cn_conv = cid, cn_envelope = fst e,
     cn_hmac = snd e, cn_status = ''active'' \<rparr>"

definition reserved_db :: "owner \<Rightarrow> send_env \<Rightarrow> string \<Rightarrow> string \<Rightarrow> string \<Rightarrow> envelope \<times> bytes \<Rightarrow> turn_db \<Rightarrow> turn_db" where
  "reserved_db ow env cid bid client e db = db\<lparr>
     tb_turns := tb_turns db @ [new_turn ow env cid bid client (nextTurnSeq ow cid bid db)],
     tb_attempts := (tb_attempts db)(se_attempt env \<mapsto> born ow cid bid (se_turn env) (se_attempt env) (se_now env)),
     tb_items := tb_items db @ [input_item ow env cid bid],
     tb_contents := (tb_contents db)(se_content env \<mapsto> config_row ow cid e) \<rparr>"

lemma reserveTurn_InrD:
  assumes "reserveTurn ow env cid inp config db = Inr (tid, db')"
  obtains b c where
    "getBranchInConversation ow cid (lower (si_branch inp)) db = Some b"
    "find_conv ow cid db = Some c" "isExecutionEligible (cv_status c)"
    "tid = se_turn env" "tb_contents db (se_content env) = None" "tb_attempts db (se_attempt env) = None"
    "\<not> client_taken ow cid (lower (si_client inp)) db"
    "\<not> list_ex (\<lambda>q. ct_id q = se_turn env) (tb_turns db)"
    "db' = reserved_db ow env cid (br_id b) (lower (si_client inp)) config db"
proof -
  from assms obtain c b where c: "find_conv ow cid db = Some c" "isExecutionEligible (cv_status c)"
    and b: "getBranchInConversation ow cid (lower (si_branch inp)) db = Some b"
    by (auto simp: reserveTurn_def split: option.splits if_splits)
  from assms c b have "tid = se_turn env \<and> tb_contents db (se_content env) = None \<and>
      tb_attempts db (se_attempt env) = None \<and> \<not> client_taken ow cid (lower (si_client inp)) db \<and>
      \<not> list_ex (\<lambda>q. ct_id q = se_turn env) (tb_turns db) \<and>
      db' = reserved_db ow env cid (br_id b) (lower (si_client inp)) config db"
    by (auto simp: reserveTurn_def bindE_Inr_iff insertContent_def insertReservedTurnWithInitialAttempt_def
          insert_attempt_def insertTurnOwnedItem_def Let_def put_attempt_def new_turn_def client_taken_def
          input_item_def config_row_def reserved_db_def split: option.splits if_splits sum.splits)
  with c b that show thesis by blast
qed

lemma find_append: "find P (xs @ ys) = (case find P xs of None \<Rightarrow> find P ys | Some x \<Rightarrow> Some x)"
  by (induction xs) auto

lemma find_client_fresh:
  assumes "\<not> client_taken ow cid cl db" "own_turn ow cid t" "ct_client t = cl"
  shows "find (\<lambda>t. own_turn ow cid t \<and> ct_client t = cl) (tb_turns db @ [t]) = Some t"
proof -
  have "find (\<lambda>t. own_turn ow cid t \<and> ct_client t = cl) (tb_turns db) = None"
    using assms(1) by (auto simp: find_None_iff client_taken_def own_turn_def list_ex_iff)
  then show ?thesis using assms(2,3) by (auto simp: find_append)
qed

section \<open>A duplicate send is a read\<close>

text \<open>What the code relies on of the KMS: what was encrypted decrypts to the same bytes.\<close>

definition kms_ok :: "conv_kms \<Rightarrow> bool" where
  "kms_ok k \<longleftrightarrow> (\<forall>org n b e. ck_encrypt k org n b = Some e \<longrightarrow>
     en_dek (fst e) \<noteq> None \<and> length (snd e) = 32 \<and> ck_decrypt k org (fst e) = Some b)"

lemma kms_okD:
  assumes "kms_ok k" "ck_encrypt k org n b = Some e"
  shows "en_dek (fst e) \<noteq> None" "ck_decrypt k org (fst e) = Some b"
  using assms unfolding kms_ok_def by blast+

text \<open>The committed turns and contents a later state still holds.\<close>

definition keeps :: "turn_db \<Rightarrow> turn_db \<Rightarrow> bool" where
  "keeps db db2 \<longleftrightarrow> (\<exists>ts. tb_turns db2 = tb_turns db @ ts) \<and>
     (\<forall>n c. tb_contents db n = Some c \<longrightarrow> tb_contents db2 n = Some c)"

lemma keeps_refl [simp]: "keeps db db" and keeps_trans: "keeps a b \<Longrightarrow> keeps b c \<Longrightarrow> keeps a c"
  by (auto simp: keeps_def)

lemma own_new_turn [simp]:
  "own_turn ow cid (new_turn ow env cid bid cl seq)" "ct_client (new_turn ow env cid bid cl seq) = cl"
  "ct_config (new_turn ow env cid bid cl seq) = se_content env" "ct_branch (new_turn ow env cid bid cl seq) = bid"
  "ct_id (new_turn ow env cid bid cl seq) = se_turn env"
  "ct_org (new_turn ow env cid bid cl seq) = ow_org ow" "ct_conv (new_turn ow env cid bid cl seq) = cid"
  by (simp_all add: new_turn_def own_turn_def)

lemma sendTurn_created:
  assumes "sendTurn cr k n ow env cid inp db later = (Inr (tid, False), db')"
  obtains e where "prepareSend cr k ow n (si_request inp) = Inr e" "reserveTurn ow env (lower cid) inp e db = Inr (tid, db')"
  using assms by (auto simp: sendTurn_def split: sum.splits send_error.splits if_splits)

text \<open>
  What a send must bring to reach the idempotency check: the conversation and the branch are there
  and open, the pair of provider and surface is one that can be dispatched, the request fits and is
  encrypted, and the drawn content id is new.
\<close>

definition reserve_open :: "owner \<Rightarrow> send_env \<Rightarrow> string \<Rightarrow> send_input \<Rightarrow> turn_db \<Rightarrow> bool" where
  "reserve_open ow env cid inp db \<longleftrightarrow> tb_contents db (se_content env) = None \<and>
     (case tb_convs db cid of None \<Rightarrow> False
      | Some c \<Rightarrow> cv_org c = ow_org ow \<and> cv_owner c = ow_user ow \<and> cv_status c \<in> {''active'', ''archived''}) \<and>
     (case tb_branches db (lower (si_branch inp)) of None \<Rightarrow> False
      | Some b \<Rightarrow> br_org b = ow_org ow \<and> br_owner b = ow_user ow \<and> br_conv b = cid \<and>
          (br_provider b, br_surface b) \<in> {(''anthropic'', ''anthropic_messages''), (''openai'', ''openai_responses'')})"

definition send_admitted ::
  "crypto \<Rightarrow> conv_kms \<Rightarrow> nat \<Rightarrow> owner \<Rightarrow> send_env \<Rightarrow> string \<Rightarrow> send_input \<Rightarrow> turn_db \<Rightarrow> bool" where
  "send_admitted cr k n ow env cid inp db \<longleftrightarrow>
     length (nativeRequestBytes cr (si_request inp)) \<le> 524288 \<and>
     ck_encrypt k (ow_org ow) n (nativeRequestBytes cr (si_request inp)) \<noteq> None \<and>
     reserve_open ow env (lower cid) inp db"

definition other_error :: "send_error + 'a \<Rightarrow> bool" where
  "other_error m = (case m of Inl e \<Rightarrow> e \<noteq> Idempotency_conflict \<and> e \<noteq> Loser_signal | Inr x \<Rightarrow> False)"

lemma reserve_loses:
  assumes taken: "client_taken ow cid (lower (si_client inp)) db" and open_: "reserve_open ow env cid inp db"
    and sealed: "en_dek (fst e) \<noteq> None" "length (snd e) = 32"
  shows "reserveTurn ow env cid inp e db = Inl Loser_signal"
proof -
  obtain c where c: "tb_convs db cid = Some c" "cv_org c = ow_org ow" "cv_owner c = ow_user ow"
    "cv_status c = ''active'' \<or> cv_status c = ''archived''"
    using open_ by (auto simp: reserve_open_def split: option.splits)
  obtain b where b: "tb_branches db (lower (si_branch inp)) = Some b" "br_org b = ow_org ow" "br_owner b = ow_user ow"
    "br_conv b = cid" "\<exists>plan. resolveDispatchPlan (br_provider b) (br_surface b) (cv_mode c) = Inr plan"
    using open_ by (auto simp: reserve_open_def resolveDispatchPlan_def split: option.splits)
  then obtain plan where plan: "resolveDispatchPlan (br_provider b) (br_surface b) (cv_mode c) = Inr plan" by blast
  have ins: "insertContent ow cid (se_content env) e db = Inr (db\<lparr> tb_contents := (tb_contents db)(se_content env \<mapsto> config_row ow cid e) \<rparr>)"
    using open_ sealed c by (simp add: insertContent_def reserve_open_def conv_key_def config_row_def)
  have "insertReservedTurnWithInitialAttempt ow env cid (br_id b) (lower (si_client inp)) (nextTurnSeq ow cid (br_id b) db)
      (se_content env) (db\<lparr> tb_contents := m \<rparr>) = Inr (None, db\<lparr> tb_contents := m \<rparr>)" for m
    using taken by (simp add: insertReservedTurnWithInitialAttempt_def client_taken_def nextTurnSeq_def)
  with c b plan ins show ?thesis
    by (auto simp: reserveTurn_def find_conv_def getBranchInConversation_def isAddressable_def isExecutionEligible_def bindE_def)
qed

lemma reserve_shut:
  assumes taken: "client_taken ow cid (lower (si_client inp)) db" and shut: "\<not> reserve_open ow env cid inp db"
  shows "other_error (reserveTurn ow env cid inp e db)"
proof -
  have plan: "\<exists>w. resolveDispatchPlan p q m = Inl w"
    if "(p, q) \<notin> {(''anthropic'', ''anthropic_messages''), (''openai'', ''openai_responses'')}" for p q m
    using that by (auto simp: resolveDispatchPlan_def)
  consider "find_conv ow cid db = None" | c where "find_conv ow cid db = Some c" "\<not> isAddressable (cv_status c)"
    | c where "find_conv ow cid db = Some c" "getBranchInConversation ow cid (lower (si_branch inp)) db = None"
    | c b w where "find_conv ow cid db = Some c" "getBranchInConversation ow cid (lower (si_branch inp)) db = Some b"
        "resolveDispatchPlan (br_provider b) (br_surface b) (cv_mode c) = Inl w"
    | "tb_contents db (se_content env) \<noteq> None"
    using shut plan
    by (force simp: reserve_open_def find_conv_def isAddressable_def getBranchInConversation_def split: option.splits if_splits)
  then show ?thesis
  proof cases
    case 5
    then have "\<exists>x. insertContent ow cid (se_content env) e db = Inl x" by (auto simp: insertContent_def)
    then show ?thesis by (auto simp: other_error_def reserveTurn_def bindE_def split: option.split sum.split)
  qed (auto simp: other_error_def reserveTurn_def)
qed

lemma resolve_committed:
  assumes find: "findTurnByClientTurnId ow cid (lower (si_client inp2)) db = Some t"
    and content: "getContentById ow cid (ct_config t) db = Some c"
    and dec: "Option.bind (decryptConversationContent k ow c) (ck_parse k) = Some req"
    and inj: "inj (sha cr)" "num_text_ok (num_text cr)" "is_json req" "is_json (si_request inp2)"
  shows "resolveCommittedSend cr k ow cid inp2 db =
    (if lower (ct_branch t) = lower (si_branch inp2) \<and> jnorm req = jnorm (si_request inp2)
     then Inr (ct_id t) else Inl Idempotency_conflict)"
  using assms intent_hash_eq [OF inj(1,2) inj(3,4), of cid "ct_branch t" "si_branch inp2"]
  by (simp add: resolveCommittedSend_def)


section \<open>A sample conversation\<close>

definition demo_owner :: owner where
  "demo_owner = \<lparr> ow_org = ''o'', ow_user = ''u'' \<rparr>"

definition demo_key :: "bytes \<Rightarrow> envelope" where
  "demo_key b = \<lparr> en_ciphertext = b, en_dek = Some [], en_key_id = ''k'', en_key_version = 1 \<rparr>"

definition demo_request :: jsval where
  "demo_request = JObj [(''b'', JNull), (''a'', JBool True)]"

definition demo_crypto :: crypto where
  "demo_crypto = \<lparr> sha = (\<lambda>b. b), kms = (\<lambda>_ _ _ b. Some b), num_text = sample_num \<rparr>"

definition demo_kms :: conv_kms where
  "demo_kms = \<lparr> ck_encrypt = (\<lambda>_ _ b. Some (demo_key b, replicate 32 0)),
     ck_decrypt = (\<lambda>_ e. Some (en_ciphertext e)),
     ck_parse = (\<lambda>b. if b = nativeRequestBytes demo_crypto demo_request then Some demo_request else None) \<rparr>"

definition demo_branch :: branch where
  "demo_branch = \<lparr> br_id = ''b'', br_org = ''o'', br_owner = ''u'', br_conv = ''c'', br_provider = ''anthropic'',
     br_surface = ''anthropic_messages'', br_model = ''m'', br_causal = 0, br_parent = None, br_fork_turn = None,
     br_fork_attempt = None, br_mode = None, br_updated = 0 \<rparr>"

definition conv_db :: turn_db where
  "conv_db = \<lparr> tb_orgs = [''o'' \<mapsto> (Starter, Production)],
     tb_convs = [''c'' \<mapsto> \<lparr> cv_id = ''c'', cv_org = ''o'', cv_owner = ''u'', cv_mode = ''governed'', cv_status = ''active'' \<rparr>],
     tb_branches = [''b'' \<mapsto> demo_branch], tb_turns = [], tb_attempts = Map.empty, tb_items = [],
     tb_contents = Map.empty,
     tb_creds = [\<lparr> cr_id = ''p'', cr_org = ''o'', cr_provider = ''anthropic'', cr_envelope = demo_key [],
                   cr_status = ''active'' \<rparr>] \<rparr>"

definition demo_send :: send_input where
  "demo_send = \<lparr> si_branch = ''b'', si_client = ''x'', si_request = demo_request \<rparr>"

definition demo_send_env :: "string \<Rightarrow> send_env" where
  "demo_send_env n = \<lparr> se_turn = CHR ''t'' # n, se_attempt = CHR ''a'' # n, se_content = CHR ''n'' # n, se_now = 0 \<rparr>"

lemma demo_kms_ok: "kms_ok demo_kms"
  by (auto simp: kms_ok_def demo_kms_def demo_key_def)

lemma demo_prepare: "prepareSend demo_crypto demo_kms demo_owner 0 demo_request =
    Inr (demo_key (nativeRequestBytes demo_crypto demo_request), replicate 32 0)"
proof -
  have "length (nativeRequestBytes demo_crypto demo_request) < 100" by code_simp
  then show ?thesis by (simp add: prepareSend_def Let_def NATIVE_REQUEST_MAX_BYTES_def demo_kms_def)
qed

lemma demo_reserve:
  "reserveTurn demo_owner (demo_send_env ''1'') ''c'' demo_send (demo_key (nativeRequestBytes demo_crypto demo_request), replicate 32 0) conv_db
     = Inr (''t1'', reserved_db demo_owner (demo_send_env ''1'') ''c'' ''b'' ''x''
         (demo_key (nativeRequestBytes demo_crypto demo_request), replicate 32 0) conv_db)"
  by (simp add: reserveTurn_def conv_db_def find_conv_def getBranchInConversation_def demo_owner_def demo_send_def
      isAddressable_def isExecutionEligible_def resolveDispatchPlan_def demo_branch_def insertContent_def demo_key_def
      insertReservedTurnWithInitialAttempt_def Let_def insert_attempt_def insertTurnOwnedItem_def demo_send_env_def
      reserved_db_def put_attempt_def new_turn_def input_item_def config_row_def lower_def lower_char_def fk_defs
      nextTurnSeq_def)



end
