(* ===== verification/Turn_Executor.thy ===== *)
theory Turn_Executor
  imports Turn_Reservation
begin

text \<open>
  The durable execution kernel (\<open>ai-conversations/execution/execute-turn.ts\<close>): one candidate is
  claimed, loaded, built, carried over the dispatch boundary, bound to a credential, sent to the
  provider, recorded and finalized. Each function below is one transaction of the code or the
  code between two of them; a worker is the phase it has reached. What lies outside the model is
  an input of a phase: whether a transaction fails (before or after its commit), the assembled
  request, the decision of the governed handler, and what the provider does.
\<close>

section \<open>Configuration, candidates and outcomes\<close>

record deps =
  dp_claimant :: string
  dp_lease :: int
  dp_grace :: int
  dp_flush :: nat

datatype reason = Queued_head | Accepted_expired | Dispatching_expired | Streaming_expired | Other_reason

record turn_candidate =
  cd_owner :: owner
  cd_conv :: string
  cd_attempt :: string
  cd_reason :: reason
  cd_token :: "string option"

datatype outcome =
    O_claim_lost | O_surface_unsupported | O_credential_unavailable | O_config_unreadable
  | O_context_unbuildable | O_continuation_conflict | O_boundary_lost | O_provenance_lost_restored
  | O_stopped_before_dispatch | O_completed | O_failed | O_rejected | O_outcome_unknown
  | O_local_error | O_persistence_error | O_finalize_fenced_out | O_ratcheted_outcome_unknown
  | O_no_action | O_error

text \<open>
  A transaction may fail: rolled back, or committed with the acknowledgement lost. Either way the
  caller sees an exception.
\<close>

datatype fault = Tx_ok | Tx_rolled_back | Tx_lost

definition run_tx :: "fault \<Rightarrow> store_error + 'r \<times> turn_db \<Rightarrow> turn_db \<Rightarrow> 'r option \<times> turn_db" where
  "run_tx fl m db = (case m of Inl e \<Rightarrow> (None, db)
     | Inr (r, db') \<Rightarrow> (case fl of Tx_ok \<Rightarrow> (Some r, db') | Tx_rolled_back \<Rightarrow> (None, db) | Tx_lost \<Rightarrow> (None, db')))"

section \<open>Arm selection\<close>

datatype armed = Arm_none | Arm_drive "claim option" | Arm_ambiguous bool

definition ratchetAndWake :: "owner \<Rightarrow> int \<Rightarrow> string \<Rightarrow> string \<Rightarrow> int \<Rightarrow> turn_db \<Rightarrow> store_error + bool \<times> turn_db" where
  "ratchetAndWake ow now aid expected grace db =
     bindE (ratchetStrandedToOutcomeUnknown ow now aid expected grace db) (\<lambda>(ratcheted, db').
       Inr (ratcheted, if \<not> ratcheted then db' else
         (case readExecutionContext ow aid db' of None \<Rightarrow> db'
          | Some c \<Rightarrow> bumpBranchCausalVersion ow now (ec_conv c) (ec_branch c) db')))"

definition arm :: "deps \<Rightarrow> int \<Rightarrow> string \<Rightarrow> turn_candidate \<Rightarrow> turn_db \<Rightarrow> store_error + armed \<times> turn_db" where
  "arm dp now tok c db =
     (let ow = cd_owner c; aid = cd_attempt c;
          drive = (\<lambda>m. bindE m (\<lambda>(g, db'). Inr (Arm_drive g, db')));
          ambiguous = (\<lambda>expected db. bindE (ratchetAndWake ow now aid expected (dp_grace dp) db)
                         (\<lambda>(b, db'). Inr (Arm_ambiguous b, db'))) in
      case cd_reason c of
        Queued_head \<Rightarrow> drive (claimQueuedHead ow now tok aid (dp_claimant dp) (dp_lease dp) db)
      | Accepted_expired \<Rightarrow> (case cd_token c of None \<Rightarrow> Inr (Arm_none, db)
          | Some e \<Rightarrow> drive (rotateExpiredAcceptedClaim ow now tok aid e (dp_claimant dp) (dp_lease dp) db))
      | Dispatching_expired \<Rightarrow> (case cd_token c of None \<Rightarrow> Inr (Arm_none, db)
          | Some e \<Rightarrow>
              bindE (restoreProvenanceAbsentDispatching ow now tok aid e (dp_claimant dp) (dp_lease dp) (dp_grace dp) db)
                (\<lambda>(g, db'). case g of Some cl \<Rightarrow> Inr (Arm_drive (Some cl), db') | None \<Rightarrow> ambiguous e db'))
      | Streaming_expired \<Rightarrow> (case cd_token c of None \<Rightarrow> Inr (Arm_none, db) | Some e \<Rightarrow> ambiguous e db)
      | Other_reason \<Rightarrow> Inr (Arm_none, db))"

section \<open>Phases of a worker\<close>

record job =
  jb_owner :: owner
  jb_attempt :: string
  jb_token :: string

record dispatch = job +
  ds_context :: exec_context
  ds_plan :: dispatch_plan
  ds_stream :: bool
  ds_body :: bytes
  ds_credential :: string
  ds_request :: string

datatype failure = Persist_failed | Other_failure

datatype answer = Whole int bytes | Opened int

datatype after_flush = Go_on | After_eof | After_death

datatype ending = Fenced | Finished | Broken failure

datatype phase =
    Ready
  | At_load job
  | At_build job exec_context dispatch_plan string
  | At_boundary job exec_context dispatch_plan string bool bytes "envelope option"
  | At_gate dispatch
  | At_forward dispatch
  | At_response dispatch
  | At_mark dispatch answer
  | At_persist dispatch int bytes
  | At_drain dispatch int bytes
  | At_flush dispatch int bytes after_flush
  | At_evidence dispatch int ending
  | At_restore dispatch
  | At_finalize job exec_context attempt_state "attempt_error option" outcome "(dispatch \<times> bool \<times> failure) option"
  | Ended outcome

text \<open>\<open>processCandidate\<close>: the arm transaction and what follows it.\<close>

definition processCandidate :: "deps \<Rightarrow> int \<Rightarrow> string \<Rightarrow> turn_candidate \<Rightarrow> fault \<Rightarrow> turn_db \<Rightarrow> phase \<times> turn_db" where
  "processCandidate dp now tok c fl db =
     (case run_tx fl (arm dp now tok c db) db of
        (None, db') \<Rightarrow> (Ended O_error, db')
      | (Some Arm_none, db') \<Rightarrow> (Ended O_no_action, db')
      | (Some (Arm_ambiguous b), db') \<Rightarrow> (Ended (if b then O_ratcheted_outcome_unknown else O_no_action), db')
      | (Some (Arm_drive None), db') \<Rightarrow> (Ended O_claim_lost, db')
      | (Some (Arm_drive (Some g)), db') \<Rightarrow>
          (At_load \<lparr> jb_owner = cd_owner c, jb_attempt = cd_attempt c, jb_token = cg_token g \<rparr>, db'))"

section \<open>Load, build, boundary\<close>

text \<open>
  The load transaction with the classification before the boundary. The durable context plan is
  an input: loaded, or refused as unbuildable.
\<close>

definition refuse :: "job \<Rightarrow> exec_context \<Rightarrow> outcome \<Rightarrow> phase" where
  "refuse j c out = At_finalize j c Rejected None out None"

definition no_credential :: "job \<Rightarrow> exec_context \<Rightarrow> phase" where
  "no_credential j c = At_finalize j c Failed_attempt (Some Credential_unavailable) O_credential_unavailable None"

definition loadClaimed :: "job \<Rightarrow> bool \<Rightarrow> turn_db \<Rightarrow> phase" where
  "loadClaimed j context_ok db =
     (case readExecutionContext (jb_owner j) (jb_attempt j) db of None \<Rightarrow> Ended O_no_action
      | Some c \<Rightarrow> (case tb_orgs db (ow_org (jb_owner j)) of None \<Rightarrow> Ended O_no_action
        | Some tenant \<Rightarrow> (case resolveDispatchPlan (ec_provider c) (ec_surface c) (ec_mode c) of
            Inl why \<Rightarrow> refuse j c O_surface_unsupported
          | Inr plan \<Rightarrow> (case readNativeRequestConfig (jb_owner j) (ec_config c) db of
              None \<Rightarrow> refuse j c O_config_unreadable
            | Some cfg \<Rightarrow>
                if cn_status cfg \<noteq> ''active'' \<or> en_dek (cn_envelope cfg) = None then refuse j c O_config_unreadable
                else (case readActiveProviderCredential (jb_owner j) (pl_provider plan) db of
                    None \<Rightarrow> no_credential j c
                  | Some cred \<Rightarrow>
                      if \<not> context_ok then refuse j c O_context_unbuildable
                      else At_build j c plan (cr_id cred))))))"

text \<open>
  Decryption of the request and of the key, the assembly of the context and the adapter: pure
  code over the KMS, an input here.
\<close>

datatype build =
    Config_unreadable | Key_unreadable | Context_unbuildable | Continuation_conflict | Build_throws
  | Built bool bytes "envelope option"

definition buildClaimed :: "job \<Rightarrow> exec_context \<Rightarrow> dispatch_plan \<Rightarrow> string \<Rightarrow> build \<Rightarrow> phase" where
  "buildClaimed j c plan cred b = (case b of
       Config_unreadable \<Rightarrow> refuse j c O_config_unreadable
     | Key_unreadable \<Rightarrow> no_credential j c
     | Context_unbuildable \<Rightarrow> refuse j c O_context_unbuildable
     | Continuation_conflict \<Rightarrow> refuse j c O_continuation_conflict
     | Build_throws \<Rightarrow> Ended O_error
     | Built stream body parent \<Rightarrow> At_boundary j c plan cred stream body parent)"

definition boundaryTx ::
  "deps \<Rightarrow> int \<Rightarrow> string \<Rightarrow> job \<Rightarrow> exec_context \<Rightarrow> envelope option \<Rightarrow> turn_db \<Rightarrow> store_error + string option \<times> turn_db" where
  "boundaryTx dp now req j c parent db =
     (case lockRootForDispatch (jb_owner j) (ec_conv c) db of None \<Rightarrow> Inr (None, db)
      | Some status \<Rightarrow>
          if \<not> isRootExecutionEligible status then Inr (None, db)
          else commitDispatchBoundary_turn (jb_owner j) now (jb_attempt j) (jb_token j) (dp_lease dp) (ec_causal c) req parent db)"

definition boundaryClaimed ::
  "deps \<Rightarrow> int \<Rightarrow> string \<Rightarrow> job \<Rightarrow> exec_context \<Rightarrow> dispatch_plan \<Rightarrow> string \<Rightarrow> bool \<Rightarrow> bytes \<Rightarrow> envelope option \<Rightarrow> fault
   \<Rightarrow> turn_db \<Rightarrow> phase \<times> turn_db" where
  "boundaryClaimed dp now req j c plan cred stream body parent fl db =
     (case run_tx fl (boundaryTx dp now req j c parent db) db of
        (None, db') \<Rightarrow> (Ended O_error, db')
      | (Some None, db') \<Rightarrow> (Ended O_boundary_lost, db')
      | (Some (Some r), db') \<Rightarrow>
          (At_gate (job.extend j (dispatch.fields c plan stream body cred r)), db'))"

definition job_of_dispatch :: "dispatch \<Rightarrow> job" where
  "job_of_dispatch d = \<lparr> jb_owner = jb_owner d, jb_attempt = jb_attempt d, jb_token = jb_token d \<rparr>"

section \<open>The gate, the provider call and its classification\<close>

text \<open>The \<open>catch\<close> of \<open>dispatchAndFinalize\<close>.\<close>

definition caught :: "dispatch \<Rightarrow> bool \<Rightarrow> bool \<Rightarrow> failure \<Rightarrow> phase" where
  "caught d rejected started e =
     (let fin = (\<lambda>st ec out. At_finalize (job_of_dispatch d) (ds_context d) st ec out None) in
      if rejected then At_restore d
      else if \<not> started then fin Failed_attempt (Some Local_error_class) O_local_error
      else if e = Persist_failed then fin Failed_attempt (Some Persistence_error) O_persistence_error
      else fin Unknown None O_outcome_unknown)"

text \<open>\<open>beforeDispatch\<close>: the authority is read again and the credential is bound, in one transaction.\<close>

definition gateTx :: "int \<Rightarrow> dispatch \<Rightarrow> turn_db \<Rightarrow> store_error + bool \<times> turn_db" where
  "gateTx now d db =
     (case readPrePostAuthority (jb_owner d) now (jb_attempt d) (jb_token d) db of None \<Rightarrow> Inr (False, db)
      | Some au \<Rightarrow>
          if au_state au \<noteq> Dispatching \<or> \<not> au_lease_valid au \<or> au_stop au then Inr (False, db)
          else commitCredentialProvenance (jb_owner d) now (jb_attempt d) (jb_token d) (ds_credential d)
                 (pl_provider (ds_plan d)) db)"

definition beforeDispatch :: "int \<Rightarrow> dispatch \<Rightarrow> fault \<Rightarrow> turn_db \<Rightarrow> phase \<times> turn_db" where
  "beforeDispatch now d fl db =
     (case run_tx fl (gateTx now d db) db of
        (None, db') \<Rightarrow> (caught d False False Other_failure, db')
      | (Some b, db') \<Rightarrow> (if b then At_forward d else caught d True False Other_failure, db'))"

text \<open>The governed handler may refuse before the gate; its refusal is recorded first.\<close>

definition refused :: "dispatch \<Rightarrow> bool \<Rightarrow> phase" where
  "refused d recorded =
     (if recorded then At_finalize (job_of_dispatch d) (ds_context d) Rejected None O_rejected (Some (d, False, Other_failure))
      else caught d False False Other_failure)"

definition classifyStatus :: "int \<Rightarrow> attempt_state \<times> attempt_error option \<times> outcome" where
  "classifyStatus status =
     (if 200 \<le> status \<and> status < 300 then (Completed_attempt, None, O_completed)
      else if status = 401 \<or> status = 403 then (Failed_attempt, Some Auth_rejected, O_failed)
      else if status = 413 then (Failed_attempt, Some Request_too_large, O_failed)
      else if status = 429 then (Failed_attempt, Some Rate_limited, O_failed)
      else (Failed_attempt, Some Provider_error, O_failed))"

definition finalizeKnownResult :: "dispatch \<Rightarrow> int \<Rightarrow> phase" where
  "finalizeKnownResult d status = (case classifyStatus status of (st, ec, out) \<Rightarrow>
     At_finalize (job_of_dispatch d) (ds_context d) st ec out (Some (d, True, Persist_failed)))"

section \<open>Recording the answer\<close>

definition recordResult :: "int \<Rightarrow> dispatch \<Rightarrow> answer \<Rightarrow> fault \<Rightarrow> turn_db \<Rightarrow> phase \<times> turn_db" where
  "recordResult now d ans fl db =
     (case run_tx fl (markStreaming (jb_owner d) now (jb_attempt d) (jb_token d) db) db of
        (None, db') \<Rightarrow> (caught d False True Persist_failed, db')
      | (Some False, db') \<Rightarrow> (Ended O_finalize_fenced_out, db')
      | (Some True, db') \<Rightarrow> (case ans of Whole status body \<Rightarrow> At_persist d status body
          | Opened status \<Rightarrow> At_drain d status [], db'))"

text \<open>\<open>persistOutputItem\<close>: the content and the item in one transaction, undone when the fence is lost.\<close>

definition persistTx ::
  "dispatch \<Rightarrow> string \<Rightarrow> string \<Rightarrow> envelope \<times> bytes \<Rightarrow> turn_db \<Rightarrow> store_error + bool \<times> turn_db" where
  "persistTx d ty cid e db =
     (let seq = nextAttemptItemSeq (jb_owner d) (jb_attempt d) db in
      bindE (insertContent (jb_owner d) (ec_conv (ds_context d)) cid e db) (\<lambda>db1.
      bindE (appendFencedOutputItem (jb_owner d) (jb_attempt d) (jb_token d) seq ty cid db1) (\<lambda>(ok, db2).
      Inr (if ok then (True, db2) else (False, db)))))"

definition persistOutputItem ::
  "conv_kms \<Rightarrow> dispatch \<Rightarrow> string \<Rightarrow> bytes \<Rightarrow> nat \<Rightarrow> string \<Rightarrow> fault \<Rightarrow> turn_db \<Rightarrow> bool option \<times> turn_db" where
  "persistOutputItem k d ty bs nonce cid fl db =
     (case ck_encrypt k (ow_org (jb_owner d)) nonce bs of None \<Rightarrow> (None, db)
      | Some e \<Rightarrow> run_tx fl (persistTx d ty cid e db) db)"

definition recordBody ::
  "conv_kms \<Rightarrow> dispatch \<Rightarrow> int \<Rightarrow> bytes \<Rightarrow> nat \<Rightarrow> string \<Rightarrow> fault \<Rightarrow> turn_db \<Rightarrow> phase \<times> turn_db" where
  "recordBody k d status body nonce cid fl db =
     (case persistOutputItem k d ''native_response'' body nonce cid fl db of
        (None, db') \<Rightarrow> (caught d False True Persist_failed, db')
      | (Some False, db') \<Rightarrow> (Ended O_finalize_fenced_out, db')
      | (Some True, db') \<Rightarrow> (finalizeKnownResult d status, db'))"

text \<open>
  \<open>recordStream\<close>. A chunk is buffered and the buffer flushed at the threshold; at the end of the
  stream, and when it breaks, what is buffered is flushed once more. A failure of a flush while
  draining ends the drain; after the stream has broken it is ignored.
\<close>

definition drainChunk :: "deps \<Rightarrow> dispatch \<Rightarrow> int \<Rightarrow> bytes \<Rightarrow> bytes \<Rightarrow> phase" where
  "drainChunk dp d status buf chunk = (let buf' = buf @ chunk in
     if dp_flush dp \<le> length buf' \<and> buf' \<noteq> [] then At_flush d status buf' Go_on else At_drain d status buf')"

definition drainEnd :: "dispatch \<Rightarrow> int \<Rightarrow> bytes \<Rightarrow> phase" where
  "drainEnd d status buf = (if buf = [] then At_evidence d status Finished else At_flush d status buf After_eof)"

definition drainBreak :: "dispatch \<Rightarrow> int \<Rightarrow> bytes \<Rightarrow> phase" where
  "drainBreak d status buf =
     (if buf = [] then At_evidence d status (Broken Other_failure) else At_flush d status buf After_death)"

definition flushed :: "dispatch \<Rightarrow> int \<Rightarrow> after_flush \<Rightarrow> bool option \<Rightarrow> phase" where
  "flushed d status k r = (case k of
       Go_on \<Rightarrow> (case r of None \<Rightarrow> At_evidence d status (Broken Persist_failed)
         | Some ok \<Rightarrow> if ok then At_drain d status [] else At_evidence d status Fenced)
     | After_eof \<Rightarrow> (case r of None \<Rightarrow> At_evidence d status (Broken Persist_failed)
         | Some ok \<Rightarrow> At_evidence d status (if ok then Finished else Fenced))
     | After_death \<Rightarrow> At_evidence d status (Broken Other_failure))"

definition flushStream ::
  "conv_kms \<Rightarrow> dispatch \<Rightarrow> int \<Rightarrow> bytes \<Rightarrow> after_flush \<Rightarrow> nat \<Rightarrow> string \<Rightarrow> fault \<Rightarrow> turn_db \<Rightarrow> phase \<times> turn_db" where
  "flushStream k d status buf after nonce cid fl db =
     (case persistOutputItem k d ''native_stream_chunk'' buf nonce cid fl db of
        (r, db') \<Rightarrow> (flushed d status after r, db'))"

definition streamEvidence :: "dispatch \<Rightarrow> int \<Rightarrow> ending \<Rightarrow> bool \<Rightarrow> phase" where
  "streamEvidence d status e recorded = (case e of
       Broken err \<Rightarrow> caught d False True err
     | Fenced \<Rightarrow> if recorded then Ended O_finalize_fenced_out else caught d False True Persist_failed
     | Finished \<Rightarrow> if recorded then finalizeKnownResult d status else caught d False True Persist_failed)"

section \<open>Restore and finalize\<close>

definition restoreGate :: "deps \<Rightarrow> int \<Rightarrow> dispatch \<Rightarrow> fault \<Rightarrow> turn_db \<Rightarrow> phase \<times> turn_db" where
  "restoreGate dp now d fl db =
     (case run_tx fl (restoreDispatchingToAccepted (jb_owner d) now (jb_attempt d) (jb_token d) (dp_lease dp) db) db of
        (None, db') \<Rightarrow> (Ended O_error, db')
      | (Some b, db') \<Rightarrow> (Ended (if b then O_provenance_lost_restored else O_stopped_before_dispatch), db'))"

definition finalizeTx ::
  "int \<Rightarrow> job \<Rightarrow> exec_context \<Rightarrow> attempt_state \<Rightarrow> attempt_error option \<Rightarrow> turn_db \<Rightarrow> store_error + bool \<times> turn_db" where
  "finalizeTx now j c st ec db =
     bindE (finalizeAttempt (jb_owner j) now (jb_attempt j) (jb_token j) st ec db) (\<lambda>(ok, db').
       Inr (ok, if ok then bumpBranchCausalVersion (jb_owner j) now (ec_conv c) (ec_branch c) db' else db'))"

definition finalizeAndWake ::
  "int \<Rightarrow> job \<Rightarrow> exec_context \<Rightarrow> attempt_state \<Rightarrow> attempt_error option \<Rightarrow> outcome \<Rightarrow> (dispatch \<times> bool \<times> failure) option
   \<Rightarrow> fault \<Rightarrow> turn_db \<Rightarrow> phase \<times> turn_db" where
  "finalizeAndWake now j c st ec out handler fl db =
     (case run_tx fl (finalizeTx now j c st ec db) db of
        (None, db') \<Rightarrow> (case handler of None \<Rightarrow> Ended O_error | Some (d, started, e) \<Rightarrow> caught d False started e, db')
      | (Some ok, db') \<Rightarrow> (Ended (if ok then out else O_finalize_fenced_out), db'))"
section \<open>The step relation\<close>

text \<open>
  What a step of a worker does besides its transaction: it may draw a claim token, send the
  request to the provider, or receive bytes of the answer.
\<close>

datatype turn_effect = Silent | Drew string | Post string string bytes | Received string bytes

text \<open>One step of a worker, with the inputs of its phase left open.\<close>

inductive advance :: "conv_kms \<Rightarrow> deps \<Rightarrow> int \<Rightarrow> phase \<Rightarrow> turn_db \<Rightarrow> turn_effect \<Rightarrow> phase \<Rightarrow> turn_db \<Rightarrow> bool"
  for k dp now where
  take_up: "processCandidate dp now tok c fl db = (p, db') \<Longrightarrow> advance k dp now Ready db (Drew tok) p db'"
| load: "advance k dp now (At_load j) db Silent (loadClaimed j context_ok db) db"
| load_fails: "advance k dp now (At_load j) db Silent (Ended O_error) db"
| build: "advance k dp now (At_build j c plan cred) db Silent (buildClaimed j c plan cred b) db"
| boundary: "boundaryClaimed dp now req j c plan cred stream body parent fl db = (p, db') \<Longrightarrow>
     advance k dp now (At_boundary j c plan cred stream body parent) db Silent p db'"
| govern_refuses: "advance k dp now (At_gate d) db Silent (refused d recorded) db"
| fails_before_gate: "advance k dp now (At_gate d) db Silent (caught d False False Other_failure) db"
| gate: "beforeDispatch now d fl db = (p, db') \<Longrightarrow> advance k dp now (At_gate d) db Silent p db'"
| aborts_after_gate: "advance k dp now (At_forward d) db Silent (caught d False False Other_failure) db"
| forward: "advance k dp now (At_forward d) db (Post (jb_attempt d) (ds_credential d) (ds_body d)) (At_response d) db"
| no_response: "advance k dp now (At_response d) db Silent (caught d False True Other_failure) db"
| responds: "advance k dp now (At_response d) db (Received (jb_attempt d) body)
     (if recorded then At_mark d (Whole status body) else caught d False True Persist_failed) db"
| opens: "advance k dp now (At_response d) db Silent (At_mark d (Opened status)) db"
| mark: "recordResult now d ans fl db = (p, db') \<Longrightarrow> advance k dp now (At_mark d ans) db Silent p db'"
| persist: "recordBody k d status body nonce cid fl db = (p, db') \<Longrightarrow>
     advance k dp now (At_persist d status body) db Silent p db'"
| chunk: "advance k dp now (At_drain d status buf) db (Received (jb_attempt d) ch) (drainChunk dp d status buf ch) db"
| eof: "advance k dp now (At_drain d status buf) db Silent (drainEnd d status buf) db"
| dies: "advance k dp now (At_drain d status buf) db Silent (drainBreak d status buf) db"
| flush: "flushStream k d status buf after nonce cid fl db = (p, db') \<Longrightarrow>
     advance k dp now (At_flush d status buf after) db Silent p db'"
| evidence: "advance k dp now (At_evidence d status e) db Silent (streamEvidence d status e recorded) db"
| restore: "restoreGate dp now d fl db = (p, db') \<Longrightarrow> advance k dp now (At_restore d) db Silent p db'"
| finalize: "finalizeAndWake now j c st ec out handler fl db = (p, db') \<Longrightarrow>
     advance k dp now (At_finalize j c st ec out handler) db Silent p db'"
| next_candidate: "advance k dp now (Ended out) db Silent Ready db"

text \<open>
  The whole system: the tables, the clock, the workers, the claim tokens drawn so far, the
  requests sent and the bytes received per attempt.
\<close>

record world =
  w_db :: turn_db
  w_now :: int
  w_workers :: "nat \<Rightarrow> phase"
  w_tokens :: "string list"
  w_calls :: "(string \<times> string \<times> bytes) list"
  w_wire :: "string \<Rightarrow> bytes"

definition fresh_effect :: "turn_effect \<Rightarrow> world \<Rightarrow> bool" where
  "fresh_effect e w = (case e of Drew tok \<Rightarrow> tok \<notin> set (w_tokens w) | _ \<Rightarrow> True)"

definition effected :: "turn_effect \<Rightarrow> world \<Rightarrow> world" where
  "effected e w = (case e of
       Silent \<Rightarrow> w
     | Drew tok \<Rightarrow> w\<lparr> w_tokens := tok # w_tokens w \<rparr>
     | Post a c b \<Rightarrow> w\<lparr> w_calls := w_calls w @ [(a, c, b)] \<rparr>
     | Received a b \<Rightarrow> w\<lparr> w_wire := (w_wire w)(a := w_wire w a @ b) \<rparr>)"

text \<open>A stop is a flag somebody sets on a row that is still running.\<close>

definition requestStop :: "owner \<Rightarrow> string \<Rightarrow> turn_db \<Rightarrow> store_error + attempt option \<times> turn_db" where
  "requestStop ow aid db = update_attempt ow aid (\<lambda>a. non_terminal (at_state a)) (\<lambda>a. a\<lparr> at_stop := True \<rparr>) db"

text \<open>The provider credentials may be replaced; a row is never deleted while attempts point to it.\<close>

definition creds_kept :: "credential list \<Rightarrow> credential list \<Rightarrow> bool" where
  "creds_kept old new = list_all (\<lambda>r. list_ex (\<lambda>s. cr_id s = cr_id r \<and> cr_org s = cr_org r) new) old"

inductive turn_step :: "conv_kms \<Rightarrow> deps \<Rightarrow> world \<Rightarrow> world \<Rightarrow> bool" for k dp where
  worker: "advance k dp (w_now w) (w_workers w i) (w_db w) e p db' \<Longrightarrow> fresh_effect e w \<Longrightarrow>
     turn_step k dp w (effected e (w\<lparr> w_db := db', w_workers := (w_workers w)(i := p) \<rparr>))"
| beat: "heartbeatClaim ow (w_now w) aid tok (dp_lease dp) (w_db w) = Inr (h, db') \<Longrightarrow>
     turn_step k dp w (w\<lparr> w_db := db' \<rparr>)"
| reserve: "reserveTurn ow env cid inp config (w_db w) = Inr (tid, db') \<Longrightarrow> turn_step k dp w (w\<lparr> w_db := db' \<rparr>)"
| stop: "requestStop ow aid (w_db w) = Inr (r, db') \<Longrightarrow> turn_step k dp w (w\<lparr> w_db := db' \<rparr>)"
| rotate_credentials: "creds_kept (tb_creds (w_db w)) cs \<Longrightarrow>
     turn_step k dp w (w\<lparr> w_db := (w_db w)\<lparr> tb_creds := cs \<rparr> \<rparr>)"
| set_status: "tb_convs (w_db w) cid = Some c \<Longrightarrow>
     turn_step k dp w (w\<lparr> w_db := (w_db w)\<lparr> tb_convs := (tb_convs (w_db w))(cid \<mapsto> c\<lparr> cv_status := st \<rparr>) \<rparr> \<rparr>)"
| tick: "w_now w \<le> t \<Longrightarrow> turn_step k dp w (w\<lparr> w_now := t \<rparr>)"

text \<open>
  The start: conversations, branches and credentials exist, no turn has been sent and no worker
  runs.
\<close>

definition initial :: "world \<Rightarrow> bool" where
  "initial w \<longleftrightarrow> tb_turns (w_db w) = [] \<and> tb_attempts (w_db w) = Map.empty \<and> tb_items (w_db w) = [] \<and>
     w_workers w = (\<lambda>_. Ready) \<and> w_tokens w = [] \<and> w_calls w = [] \<and> w_wire w = (\<lambda>_. []) \<and>
     (\<forall>i b. tb_branches (w_db w) i = Some b \<longrightarrow> br_id b = i \<and>
        (\<exists>c. tb_convs (w_db w) (br_conv b) = Some c \<and> cv_org c = br_org b \<and> cv_owner c = br_owner b))"

inductive_cases advance_ReadyE: "advance k dp now Ready db e p db'"


end
