(* ===== verification/Turn_Safety.thy ===== *)
theory Turn_Safety
  imports Turn_Executor
begin

text \<open>
  What the protocol of the execution kernel guarantees, for any number of workers whose
  transactions interleave, fail and stall in any way: how a row of the attempts table can move,
  what each phase of a worker knows of its row while its token is still current, and from these
  the claims: no store operation is ever refused by the schema, a request is sent at most once per
  attempt, the turns of a branch are executed one after the other on a fresh context, and what
  is recorded is what the provider sent.
\<close>

named_theorems phase_defs \<open>the code of a phase, for case analysis\<close>

section \<open>Moves of a row\<close>

text \<open>
  How one operation changes one row. The first argument is the token of the acting worker, if
  the operation is fenced on one.
\<close>

inductive row_move :: "string list \<Rightarrow> turn_db \<Rightarrow> string option \<Rightarrow> attempt \<Rightarrow> attempt \<Rightarrow> bool" for used db where
  claims: "at_state a = Accepted \<Longrightarrow> branch_head db a \<Longrightarrow> \<not> at_stop a \<Longrightarrow> tok \<notin> set used \<Longrightarrow>
     row_move used db None a (lease tok cl now l a)"
| reclaims: "at_state a = Dispatching \<Longrightarrow> at_credential a = None \<Longrightarrow> tok \<notin> set used \<Longrightarrow>
     row_move used db None a ((lease tok cl now l a)\<lparr> at_state := Accepted \<rparr>)"
| ratchets: "at_state a = Dispatching \<or> at_state a = Streaming \<Longrightarrow> at_credential a \<noteq> None \<Longrightarrow>
     row_move used db None a (a\<lparr> at_state := Unknown, at_terminal := Some now, at_updated := now \<rparr>)"
| crosses: "at_state a = Accepted \<Longrightarrow> at_token a = Some tok \<Longrightarrow> live now a \<Longrightarrow> \<not> at_stop a \<Longrightarrow>
     branch_at_version db v a \<Longrightarrow> branch_head db a \<Longrightarrow>
     row_move used db (Some tok) a (a\<lparr> at_state := Dispatching, at_boundary := first_of (at_boundary a) now,
               at_request := first_of (at_request a) req, at_causal := Some v, at_parent := parent,
               at_deadline := Some d, at_heartbeat := Some now, at_updated := now \<rparr>)"
| binds: "at_state a = Dispatching \<Longrightarrow> at_token a = Some tok \<Longrightarrow> live now a \<Longrightarrow> at_credential a = None \<Longrightarrow>
     row_move used db (Some tok) a (a\<lparr> at_credential := Some c, at_updated := now \<rparr>)"
| restores: "at_state a = Dispatching \<Longrightarrow> at_token a = Some tok \<Longrightarrow> at_credential a = None \<Longrightarrow>
     row_move used db (Some tok) a (a\<lparr> at_state := Accepted, at_deadline := Some d, at_heartbeat := Some now,
       at_updated := now \<rparr>)"
| beats: "at_token a = Some tok \<Longrightarrow> non_terminal (at_state a) \<Longrightarrow>
     row_move used db None a (a\<lparr> at_deadline := Some d, at_heartbeat := Some now, at_updated := now \<rparr>)"
| streams: "at_state a = Dispatching \<Longrightarrow> at_token a = Some tok \<Longrightarrow>
     row_move used db (Some tok) a (a\<lparr> at_state := Streaming, at_updated := now \<rparr>)"
| finishes: "at_token a = Some tok \<Longrightarrow> non_terminal (at_state a) \<Longrightarrow>
     row_move used db (Some tok) a (a\<lparr> at_state := st, at_error := ec, at_terminal := Some now, at_updated := now \<rparr>)"
| stops: "non_terminal (at_state a) \<Longrightarrow> row_move used db None a (a\<lparr> at_stop := True \<rparr>)"

text \<open>One row moved, and the schema accepted it.\<close>

definition moved :: "string list \<Rightarrow> string option \<Rightarrow> turn_db \<Rightarrow> turn_db \<Rightarrow> bool" where
  "moved used actor db db' \<longleftrightarrow>
     (\<exists>x a a'. tb_attempts db x = Some a \<and> row_move used db actor a a' \<and> guarded_update a a' = None \<and>
        attempt_checks a' \<and> cred_fk (tb_creds db) a' \<and> tb_attempts db' = (tb_attempts db)(at_id a' \<mapsto> a'))"

text \<open>The effect of a transaction on the attempts, whoever runs it.\<close>

definition rows_step :: "string list \<Rightarrow> string option \<Rightarrow> turn_db \<Rightarrow> turn_db \<Rightarrow> bool" where
  "rows_step used actor db db' \<longleftrightarrow> tb_attempts db' = tb_attempts db \<or> moved used actor db db'"

lemma select_attempt_SomeD: "select_attempt ow aid db = Some a \<Longrightarrow> tb_attempts db aid = Some a \<and> owns ow a"
  by (auto simp: select_attempt_def split: option.splits if_splits)

lemma update_attempt_InrE:
  assumes "update_attempt ow aid cond f db = Inr (r, db')"
  obtains "r = None" "db' = db" "\<And>a. select_attempt ow aid db = Some a \<Longrightarrow> \<not> cond a"
  | a where "select_attempt ow aid db = Some a" "cond a" "r = Some (f a)" "db' = put_attempt (f a) db"
      "guarded_update a (f a) = None" "attempt_checks (f a)" "cred_fk (tb_creds db) (f a)"
  using assms by (auto simp: update_attempt_def split: option.splits if_splits)

lemma update_moved:
  assumes upd: "update_attempt ow aid cond f db = Inr (r, db')"
    and mv: "\<And>a. cond a \<Longrightarrow> row_move used db actor a (f a)"
  shows "rows_step used actor db db' \<and> tb_turns db' = tb_turns db \<and> tb_branches db' = tb_branches db \<and>
    tb_convs db' = tb_convs db \<and> tb_items db' = tb_items db \<and> tb_contents db' = tb_contents db \<and>
    tb_creds db' = tb_creds db \<and> tb_orgs db' = tb_orgs db"
  using upd
proof (cases rule: update_attempt_InrE)
  case (2 a)
  then have "tb_attempts db aid = Some a" by (auto dest: select_attempt_SomeD)
  with 2 mv [OF 2(2)] show ?thesis
    unfolding rows_step_def moved_def put_attempt_def by (simp, blast)
qed (simp add: rows_step_def)

lemmas store_ops =
  claimQueuedHead_def rotateExpiredAcceptedClaim_def restoreProvenanceAbsentDispatching_def
  ratchetStrandedToOutcomeUnknown_def commitDispatchBoundary_turn_def commitCredentialProvenance_def
  restoreDispatchingToAccepted_def markStreaming_def heartbeatClaim_def finalizeAttempt_def requestStop_def
section \<open>What the guard keeps\<close>

lemma guard_identity: "guarded_update a a' = None \<Longrightarrow> same_identity a a'"
  by (auto simp: guarded_update_def split: if_splits)

lemma guard_lineage:
  assumes "guarded_update a a' = None"
  shows "at_id a' = at_id a" "at_turn a' = at_turn a" "at_branch a' = at_branch a" "at_conv a' = at_conv a"
    "at_org a' = at_org a" "at_owner a' = at_owner a" "on_branch a' t = on_branch a t" "owns ow a' = owns ow a"
    "at_seq a' = at_seq a"
  using guard_identity [OF assms] by (auto simp: same_identity_def on_branch_def owns_def)

lemma guard_credential: "guarded_update a a' = None \<Longrightarrow> at_credential a = Some c \<Longrightarrow> at_credential a' = Some c"
  by (cases "at_state a") (auto simp: guarded_update_def outcome_unknown_update_def same_execution_def rewritten_def split: if_splits)

lemma guard_boundary: "guarded_update a a' = None \<Longrightarrow> at_boundary a = Some b \<Longrightarrow> at_boundary a' = Some b"
  by (cases "at_state a") (auto simp: guarded_update_def outcome_unknown_update_def same_execution_def rewritten_def split: if_splits)

lemma guard_terminal: "guarded_update a a' = None \<Longrightarrow> \<not> non_terminal (at_state a) \<Longrightarrow> \<not> non_terminal (at_state a')"
  by (cases "at_state a") (auto simp: guarded_update_def outcome_unknown_update_def non_terminal_def split: if_splits)

lemma guard_frozen: "guarded_update a a' = None \<Longrightarrow> \<not> non_terminal (at_state a) \<Longrightarrow> at_state a \<noteq> Unknown \<Longrightarrow> a' = a"
  by (cases "at_state a") (auto simp: guarded_update_def non_terminal_def split: if_splits)

text \<open>A move by somebody else tells a worker nothing new about a row it still holds.\<close>

lemma move_by_other:
  assumes "row_move used db actor a a'" "tok \<in> set used" "actor \<noteq> Some tok"
    and "at_token a' = Some tok" "non_terminal (at_state a')"
  shows "at_token a = Some tok \<and> at_state a' = at_state a \<and> at_credential a' = at_credential a"
  using assms by (cases rule: row_move.cases) (auto simp: lease_def non_terminal_def)

section \<open>The tables\<close>

text \<open>The foreign keys, unique keys and checks the operations rely on.\<close>

definition home :: "turn_db \<Rightarrow> string \<Rightarrow> string \<Rightarrow> string \<Rightarrow> string \<Rightarrow> bool" where
  "home db org own cid bid \<longleftrightarrow> (\<exists>b c. tb_branches db bid = Some b \<and> br_org b = org \<and> br_owner b = own \<and>
     br_conv b = cid \<and> tb_convs db cid = Some c \<and> cv_org c = org \<and> cv_owner c = own)"

definition attempt_row_ok :: "turn_db \<Rightarrow> string \<Rightarrow> attempt \<Rightarrow> bool" where
  "attempt_row_ok db x a \<longleftrightarrow> at_id a = x \<and> attempt_checks a \<and> cred_fk (tb_creds db) a \<and>
     home db (at_org a) (at_owner a) (at_conv a) (at_branch a) \<and>
     (\<exists>t \<in> set (tb_turns db). on_branch a t \<and> ct_id t = at_turn a \<and> ct_current t = Some x)"

definition turn_ok :: "turn_db \<Rightarrow> turn \<Rightarrow> bool" where
  "turn_ok db t \<longleftrightarrow> (\<exists>x a. ct_current t = Some x \<and> tb_attempts db x = Some a \<and> on_branch a t \<and> at_turn a = ct_id t)"

definition same_branch :: "turn \<Rightarrow> turn \<Rightarrow> bool" where
  "same_branch t u \<longleftrightarrow> ct_org t = ct_org u \<and> ct_owner t = ct_owner u \<and> ct_conv t = ct_conv u \<and> ct_branch t = ct_branch u"

definition tables_ok :: "turn_db \<Rightarrow> bool" where
  "tables_ok db \<longleftrightarrow>
     (\<forall>x a. tb_attempts db x = Some a \<longrightarrow> attempt_row_ok db x a) \<and>
     (\<forall>t \<in> set (tb_turns db). turn_ok db t) \<and>
     distinct (map ct_id (tb_turns db)) \<and>
     (\<forall>t \<in> set (tb_turns db). \<forall>u \<in> set (tb_turns db). same_branch t u \<and> ct_seq t = ct_seq u \<longrightarrow> t = u) \<and>
     (\<forall>i b. tb_branches db i = Some b \<longrightarrow> br_id b = i \<and>
        (\<exists>c. tb_convs db (br_conv b) = Some c \<and> cv_org c = br_org b \<and> cv_owner c = br_owner b))"

lemma tables_okD:
  assumes "tables_ok db"
  shows "tb_attempts db x = Some a \<Longrightarrow> attempt_row_ok db x a"
    and "t \<in> set (tb_turns db) \<Longrightarrow> turn_ok db t"
    and "distinct (map ct_id (tb_turns db))"
    and "t \<in> set (tb_turns db) \<Longrightarrow> u \<in> set (tb_turns db) \<Longrightarrow> same_branch t u \<Longrightarrow> ct_seq t = ct_seq u \<Longrightarrow> t = u"
  using assms by (auto simp: tables_ok_def)

text \<open>
  What a transaction of the execution plane leaves alone: it rewrites at most one row of the
  attempts, may raise causal versions, and only adds items and contents.
\<close>

definition branch_le :: "branch \<Rightarrow> branch \<Rightarrow> bool" where
  "branch_le b b' \<longleftrightarrow> br_id b' = br_id b \<and> br_org b' = br_org b \<and> br_owner b' = br_owner b \<and> br_conv b' = br_conv b \<and>
     br_provider b' = br_provider b \<and> br_surface b' = br_surface b \<and> br_model b' = br_model b \<and>
     br_causal b \<le> br_causal b'"

definition branches_grow :: "turn_db \<Rightarrow> turn_db \<Rightarrow> bool" where
  "branches_grow db db' \<longleftrightarrow> (\<forall>i. case tb_branches db i of None \<Rightarrow> tb_branches db' i = None
     | Some b \<Rightarrow> (\<exists>b'. tb_branches db' i = Some b' \<and> branch_le b b'))"

definition plane_step :: "string list \<Rightarrow> string option \<Rightarrow> turn_db \<Rightarrow> turn_db \<Rightarrow> bool" where
  "plane_step used actor db db' \<longleftrightarrow> rows_step used actor db db' \<and> branches_grow db db' \<and>
     tb_turns db' = tb_turns db \<and> tb_convs db' = tb_convs db \<and> tb_creds db' = tb_creds db \<and> tb_orgs db' = tb_orgs db"

lemma branch_le_refl [simp]: "branch_le b b" and branch_le_trans: "branch_le a b \<Longrightarrow> branch_le b c \<Longrightarrow> branch_le a c"
  by (auto simp: branch_le_def)

lemma branches_grow_refl [simp]: "tb_branches db' = tb_branches db \<Longrightarrow> branches_grow db db'"
  by (auto simp: branches_grow_def split: option.splits)

lemma branches_growD: "branches_grow db db' \<Longrightarrow> tb_branches db i = Some b \<Longrightarrow> \<exists>b'. tb_branches db' i = Some b' \<and> branch_le b b'"
  unfolding branches_grow_def by (drule spec [of _ i]) simp

lemma plane_refl [simp]: "plane_step used actor db db"
  by (simp add: plane_step_def rows_step_def)

lemma bump_grows: "branches_grow db (bumpBranchCausalVersion ow now cid bid db)"
  by (auto simp: branches_grow_def bumpBranchCausalVersion_def branch_le_def split: option.splits)

lemma bump_other [simp]:
  "tb_attempts (bumpBranchCausalVersion ow now cid bid db) = tb_attempts db"
  "tb_turns (bumpBranchCausalVersion ow now cid bid db) = tb_turns db"
  "tb_convs (bumpBranchCausalVersion ow now cid bid db) = tb_convs db"
  "tb_items (bumpBranchCausalVersion ow now cid bid db) = tb_items db"
  "tb_contents (bumpBranchCausalVersion ow now cid bid db) = tb_contents db"
  "tb_creds (bumpBranchCausalVersion ow now cid bid db) = tb_creds db"
  "tb_orgs (bumpBranchCausalVersion ow now cid bid db) = tb_orgs db"
  by (auto simp: bumpBranchCausalVersion_def split: option.splits)

lemma rows_step_cong:
  "tb_attempts db'' = tb_attempts db' \<Longrightarrow> rows_step used actor db db'' = rows_step used actor db db'"
  by (simp add: rows_step_def moved_def)

lemma plane_update:
  assumes "update_attempt ow aid cond f db = Inr (r, db')" "\<And>a. cond a \<Longrightarrow> row_move used db actor a (f a)"
  shows "plane_step used actor db db'" "tb_items db' = tb_items db" "tb_contents db' = tb_contents db"
    "tb_branches db' = tb_branches db"
  using update_moved [OF assms] by (auto simp: plane_step_def)

lemma plane_bump:
  assumes "plane_step used actor db db1" "tb_branches db1 = tb_branches db"
  shows "plane_step used actor db (bumpBranchCausalVersion ow now c i db1)"
proof -
  have "branches_grow db (bumpBranchCausalVersion ow now c i db1)"
    using bump_grows [of db1 ow now c i] assms(2) by (simp add: branches_grow_def)
  with assms(1) show ?thesis
    by (simp add: plane_step_def rows_step_cong [of "bumpBranchCausalVersion ow now c i db1" db1])
qed

text \<open>A step of the plane keeps the tables in order.\<close>

lemma rows_step_row:
  assumes "tables_ok db" "rows_step used actor db db'" "tb_attempts db x = Some a"
  obtains a' where "tb_attempts db' x = Some a'"
    "a' = a \<or> row_move used db actor a a' \<and> guarded_update a a' = None \<and> attempt_checks a' \<and> cred_fk (tb_creds db) a'"
proof (cases "tb_attempts db' = tb_attempts db")
  case True
  with assms(3) that show thesis by auto
next
  case False
  with assms(2) obtain y b b' where m: "tb_attempts db y = Some b" "row_move used db actor b b'"
    "guarded_update b b' = None" "attempt_checks b'" "cred_fk (tb_creds db) b'"
    "tb_attempts db' = (tb_attempts db)(at_id b' \<mapsto> b')" by (auto simp: rows_step_def moved_def)
  have "at_id b' = y" using tables_okD(1) [OF assms(1) m(1)] guard_lineage(1) [OF m(3)] by (simp add: attempt_row_ok_def)
  with m assms(3) that show thesis by (cases "x = y") auto
qed

lemma rows_step_new:
  assumes "tables_ok db" "rows_step used actor db db'" "tb_attempts db' x = Some a'"
  obtains a where "tb_attempts db x = Some a"
    "a' = a \<or> row_move used db actor a a' \<and> guarded_update a a' = None \<and> attempt_checks a' \<and> cred_fk (tb_creds db) a'"
proof (cases "tb_attempts db x")
  case None
  with assms have "tb_attempts db' \<noteq> tb_attempts db" by auto
  with assms(2) obtain y b b' where m: "tb_attempts db y = Some b" "guarded_update b b' = None"
    "tb_attempts db' = (tb_attempts db)(at_id b' \<mapsto> b')" by (auto simp: rows_step_def moved_def)
  have "at_id b' = y" using tables_okD(1) [OF assms(1) m(1)] guard_lineage(1) [OF m(2)] by (simp add: attempt_row_ok_def)
  with m None assms(3) show thesis by (auto split: if_splits)
next
  case (Some a)
  with rows_step_row [OF assms(1,2) Some] assms(3) that show thesis by auto
qed

lemma home_mono: "branches_grow db db' \<Longrightarrow> tb_convs db' = tb_convs db \<Longrightarrow> home db o' w c b \<Longrightarrow> home db' o' w c b"
  by (auto simp: home_def branch_le_def dest!: branches_growD)

lemma plane_tables:
  assumes ok: "tables_ok db" and st: "plane_step used actor db db'"
  shows "tables_ok db'"
proof -
  from st have rs: "rows_step used actor db db'" and br: "branches_grow db db'"
    and eq: "tb_turns db' = tb_turns db" "tb_convs db' = tb_convs db" "tb_creds db' = tb_creds db"
    by (simp_all add: plane_step_def)
  have "attempt_row_ok db' x a'" if a': "tb_attempts db' x = Some a'" for x a'
    using rows_step_new [OF ok rs a']
  proof cases
    case (1 a)
    then have "attempt_row_ok db x a" using ok by (auto dest: tables_okD)
    then show ?thesis using 1(2) home_mono [OF br eq(2)]
      by (auto simp: attempt_row_ok_def eq guard_lineage)
  qed
  moreover have "turn_ok db' t" if t: "t \<in> set (tb_turns db)" for t
  proof -
    obtain x a where x: "ct_current t = Some x" "tb_attempts db x = Some a" "on_branch a t" "at_turn a = ct_id t"
      using tables_okD(2) [OF ok t] by (auto simp: turn_ok_def)
    from rows_step_row [OF ok rs x(2)] obtain a' where "tb_attempts db' x = Some a'"
      "a' = a \<or> guarded_update a a' = None" by blast
    with x show ?thesis by (auto simp: turn_ok_def guard_lineage)
  qed
  moreover have "br_id b' = i \<and> (\<exists>c. tb_convs db (br_conv b') = Some c \<and> cv_org c = br_org b' \<and> cv_owner c = br_owner b')"
    if b': "tb_branches db' i = Some b'" for i b'
  proof -
    obtain b where b: "tb_branches db i = Some b"
      using b' spec [OF br [unfolded branches_grow_def], of i] by (cases "tb_branches db i") auto
    with branches_growD [OF br b] b' have "branch_le b b'" by auto
    with b ok show ?thesis by (auto simp: tables_ok_def branch_le_def)
  qed
  ultimately show ?thesis using ok by (auto simp: tables_ok_def eq)
qed

section \<open>The transactions\<close>

text \<open>A tenth of the work: each store operation is one move.\<close>

lemma lease_sel [simp]:
  "at_token (lease tok cl now l a) = Some tok" "at_state (lease tok cl now l a) = at_state a"
  "at_id (lease tok cl now l a) = at_id a" "at_credential (lease tok cl now l a) = at_credential a"
  "at_boundary (lease tok cl now l a) = at_boundary a" "owns ow (lease tok cl now l a) = owns ow a"
  by (simp_all add: lease_def owns_def)

text \<open>A granted claim leaves its token on the row.\<close>

definition holds_claim :: "owner \<Rightarrow> string \<Rightarrow> string \<Rightarrow> turn_db \<Rightarrow> bool" where
  "holds_claim ow aid tok db \<longleftrightarrow> (\<exists>a. tb_attempts db aid = Some a \<and> owns ow a \<and> at_token a = Some tok \<and> at_state a = Accepted)"

lemma claim_op:
  assumes op: "bindE (update_attempt ow aid cond f db) (\<lambda>(r, db'). Inr (grant tok cl d r, db')) = Inr (g, db')"
    and mv: "\<And>a. cond a \<Longrightarrow> row_move used db None a (f a)"
    and f: "\<And>a. cond a \<Longrightarrow> at_token (f a) = Some tok \<and> at_state (f a) = Accepted"
    and ok: "tables_ok db"
  shows "plane_step used None db db'" and "g = Some c \<Longrightarrow> cg_token c = tok \<and> holds_claim ow aid tok db'"
    and "g = None \<Longrightarrow> db' = db"
proof -
  from op obtain r where u: "update_attempt ow aid cond f db = Inr (r, db')" and g: "g = grant tok cl d r"
    by (auto simp: bindE_Inr_iff)
  from u mv show "plane_step used None db db'" by (rule plane_update)
  from u show "g = None \<Longrightarrow> db' = db" by (cases rule: update_attempt_InrE) (auto simp: g grant_def)
  from u show "g = Some c \<Longrightarrow> cg_token c = tok \<and> holds_claim ow aid tok db'"
  proof (cases rule: update_attempt_InrE)
    case (2 a)
    then have a: "tb_attempts db aid = Some a" "owns ow a" by (auto dest: select_attempt_SomeD)
    then have "at_id (f a) = aid" using tables_okD(1) [OF ok] 2(5) by (auto simp: attempt_row_ok_def guard_lineage)
    with a 2 f [OF 2(2)] show "g = Some c \<Longrightarrow> cg_token c = tok \<and> holds_claim ow aid tok db'"
      by (auto simp: g grant_def holds_claim_def put_attempt_def guard_lineage)
  qed (simp add: g grant_def)
qed

lemma reclaimed: "at_state a = Dispatching \<Longrightarrow> at_credential a = None \<Longrightarrow> tok \<notin> set used \<Longrightarrow>
    row_move used db None a (lease tok cl now l a\<lparr> at_state := Accepted \<rparr>)"
  by (rule row_move.reclaims)

lemma claim_queued:
  assumes "claimQueuedHead ow now tok aid cl l db = Inr (g, db')" "tok \<notin> set used" "tables_ok db"
  shows "plane_step used None db db'" "g = Some c \<Longrightarrow> cg_token c = tok \<and> holds_claim ow aid tok db'"
  using claim_op [OF assms(1) [unfolded claimQueuedHead_def] _ _ assms(3), of used] assms(2)
  by (auto intro: row_move.claims)

lemma claim_rotated:
  assumes "rotateExpiredAcceptedClaim ow now tok aid e cl l db = Inr (g, db')" "tok \<notin> set used" "tables_ok db"
  shows "plane_step used None db db'" "g = Some c \<Longrightarrow> cg_token c = tok \<and> holds_claim ow aid tok db'"
  using claim_op [OF assms(1) [unfolded rotateExpiredAcceptedClaim_def] _ _ assms(3), of used] assms(2)
  by (auto intro: row_move.claims)

lemma claim_restored:
  assumes "restoreProvenanceAbsentDispatching ow now tok aid e cl l gr db = Inr (g, db')" "tok \<notin> set used" "tables_ok db"
  shows "plane_step used None db db'" "g = Some c \<Longrightarrow> cg_token c = tok \<and> holds_claim ow aid tok db'"
    "g = None \<Longrightarrow> db' = db"
  using claim_op [OF assms(1) [unfolded restoreProvenanceAbsentDispatching_def] _ _ assms(3), of used] assms(2)
  by (auto intro: reclaimed)

lemma ratchet_op:
  assumes "ratchetAndWake ow now aid e gr db = Inr (b, db')"
  shows "plane_step used None db db'"
proof -
  from assms obtain db1 where r: "ratchetStrandedToOutcomeUnknown ow now aid e gr db = Inr (b, db1)"
    and eq: "db' = (if \<not> b then db1 else case readExecutionContext ow aid db1 of None \<Rightarrow> db1
          | Some c \<Rightarrow> bumpBranchCausalVersion ow now (ec_conv c) (ec_branch c) db1)"
    unfolding ratchetAndWake_def bindE_Inr_iff by auto
  have db': "db' = db1 \<or> (\<exists>c i. db' = bumpBranchCausalVersion ow now c i db1)"
    unfolding eq by (auto split: option.splits)
  from r obtain r' where "update_attempt ow aid
        (\<lambda>a. (at_state a = Dispatching \<or> at_state a = Streaming) \<and> at_token a = Some e \<and>
             at_credential a \<noteq> None \<and> expired now gr a)
        (\<lambda>a. a\<lparr> at_state := Unknown, at_terminal := Some now, at_updated := now \<rparr>) db = Inr (r', db1)"
    by (auto simp: ratchetStrandedToOutcomeUnknown_def bindE_Inr_iff)
  then have "plane_step used None db db1" "tb_branches db1 = tb_branches db"
    by (rule plane_update; auto intro: row_move.ratchets)+
  with db' show ?thesis by (auto intro: plane_bump)
qed

lemma arm_op:
  assumes a: "arm dp now tok c db = Inr (r, db')" and "tok \<notin> set used" "tables_ok db"
  shows "plane_step used None db db'"
    and "r = Arm_drive (Some g) \<Longrightarrow> cg_token g = tok \<and> holds_claim (cd_owner c) (cd_attempt c) tok db'"
proof -
  have "plane_step used None db db' \<and>
    (\<forall>g. r = Arm_drive (Some g) \<longrightarrow> cg_token g = tok \<and> holds_claim (cd_owner c) (cd_attempt c) tok db')"
  proof (cases "cd_reason c")
    case Queued_head
    with a obtain g where "claimQueuedHead (cd_owner c) now tok (cd_attempt c) (dp_claimant dp) (dp_lease dp) db = Inr (g, db')"
      "r = Arm_drive g" by (auto simp: arm_def Let_def bindE_Inr_iff)
    with claim_queued [OF this(1) assms(2,3)] show ?thesis by auto
  next
    case Accepted_expired
    show ?thesis
    proof (cases "cd_token c")
      case (Some e)
      with a Accepted_expired obtain g where "rotateExpiredAcceptedClaim (cd_owner c) now tok (cd_attempt c) e
          (dp_claimant dp) (dp_lease dp) db = Inr (g, db')" "r = Arm_drive g" by (auto simp: arm_def Let_def bindE_Inr_iff)
      with claim_rotated [OF this(1) assms(2,3)] show ?thesis by auto
    qed (use a Accepted_expired in \<open>auto simp: arm_def Let_def\<close>)
  next
    case Dispatching_expired
    show ?thesis
    proof (cases "cd_token c")
      case (Some e)
      with a Dispatching_expired obtain g db1 where res: "restoreProvenanceAbsentDispatching (cd_owner c) now tok (cd_attempt c) e
          (dp_claimant dp) (dp_lease dp) (dp_grace dp) db = Inr (g, db1)"
        and rest: "case g of Some cl \<Rightarrow> r = Arm_drive (Some cl) \<and> db' = db1
          | None \<Rightarrow> (\<exists>b. ratchetAndWake (cd_owner c) now (cd_attempt c) e (dp_grace dp) db1 = Inr (b, db') \<and> r = Arm_ambiguous b)"
        by (auto simp: arm_def Let_def bindE_Inr_iff split: option.splits)
      note cl = claim_restored [OF res assms(2,3)]
      show ?thesis
      proof (cases g)
        case None
        with cl(3) have "db1 = db" by simp
        with rest None show ?thesis by (auto intro: ratchet_op)
      next
        case (Some x)
        with cl(1,2) rest show ?thesis by auto
      qed
    qed (use a Dispatching_expired in \<open>auto simp: arm_def Let_def\<close>)
  next
    case Streaming_expired
    show ?thesis
    proof (cases "cd_token c")
      case (Some e)
      with a Streaming_expired obtain b where "ratchetAndWake (cd_owner c) now (cd_attempt c) e (dp_grace dp) db = Inr (b, db')"
        "r = Arm_ambiguous b" by (auto simp: arm_def Let_def bindE_Inr_iff)
      then show ?thesis by (auto intro: ratchet_op)
    qed (use a Streaming_expired in \<open>auto simp: arm_def Let_def\<close>)
  qed (use a in \<open>auto simp: arm_def Let_def\<close>)
  then show "plane_step used None db db'"
    and "r = Arm_drive (Some g) \<Longrightarrow> cg_token g = tok \<and> holds_claim (cd_owner c) (cd_attempt c) tok db'" by auto
qed

lemma run_tx_cases:
  assumes "run_tx fl m db = (r, db')"
  obtains "r = None" "db' = db" | x where "m = Inr (x, db')" "r = None \<or> r = Some x"
  using assms by (auto simp: run_tx_def split: sum.splits prod.splits fault.splits)

section \<open>What a phase knows\<close>

fun job_of :: "phase \<Rightarrow> job option" where
  "job_of (At_load j) = Some j"
| "job_of (At_build j c pl cr) = Some j"
| "job_of (At_boundary j c pl cr st bd pa) = Some j"
| "job_of (At_gate d) = Some (job_of_dispatch d)"
| "job_of (At_forward d) = Some (job_of_dispatch d)"
| "job_of (At_response d) = Some (job_of_dispatch d)"
| "job_of (At_mark d a) = Some (job_of_dispatch d)"
| "job_of (At_persist d st b) = Some (job_of_dispatch d)"
| "job_of (At_drain d st b) = Some (job_of_dispatch d)"
| "job_of (At_flush d st b k) = Some (job_of_dispatch d)"
| "job_of (At_evidence d st e) = Some (job_of_dispatch d)"
| "job_of (At_restore d) = Some (job_of_dispatch d)"
| "job_of (At_finalize j c st ec out h) = Some j"
| "job_of Ready = None"
| "job_of (Ended out) = None"

fun ctx_of :: "phase \<Rightarrow> exec_context option" where
  "ctx_of (At_build j c pl cr) = Some c"
| "ctx_of (At_boundary j c pl cr st bd pa) = Some c"
| "ctx_of (At_gate d) = Some (ds_context d)"
| "ctx_of (At_forward d) = Some (ds_context d)"
| "ctx_of (At_response d) = Some (ds_context d)"
| "ctx_of (At_mark d a) = Some (ds_context d)"
| "ctx_of (At_persist d st b) = Some (ds_context d)"
| "ctx_of (At_drain d st b) = Some (ds_context d)"
| "ctx_of (At_flush d st b k) = Some (ds_context d)"
| "ctx_of (At_evidence d st e) = Some (ds_context d)"
| "ctx_of (At_restore d) = Some (ds_context d)"
| "ctx_of (At_finalize j c st ec out h) = Some c"
| "ctx_of _ = None"

text \<open>The dispatch of a phase that has passed the gate.\<close>

fun past_gate :: "phase \<Rightarrow> dispatch option" where
  "past_gate (At_forward d) = Some d"
| "past_gate (At_response d) = Some d"
| "past_gate (At_mark d a) = Some d"
| "past_gate (At_persist d st b) = Some d"
| "past_gate (At_drain d st b) = Some d"
| "past_gate (At_flush d st b k) = Some d"
| "past_gate (At_evidence d st e) = Some d"
| "past_gate _ = None"

text \<open>
  What a worker may assume of its row as long as the row carries its token and is not terminal.
  A finalizing worker knows that its verdict is a legal move of the row.
\<close>

definition verdict_ok :: "attempt_state \<Rightarrow> attempt_error option \<Rightarrow> attempt \<Rightarrow> bool" where
  "verdict_ok st ec a \<longleftrightarrow>
     (st = Rejected \<and> ec = None \<and> at_state a \<noteq> Streaming) \<or> (st = Failed_attempt \<and> ec \<noteq> None) \<or>
     (st = Unknown \<and> ec = None \<and> at_credential a \<noteq> None \<and> at_state a \<noteq> Accepted) \<or>
     (st = Completed_attempt \<and> ec = None \<and> at_state a = Streaming)"

fun knows :: "phase \<Rightarrow> attempt \<Rightarrow> bool" where
  "knows (At_gate d) a = (at_state a = Dispatching \<and> at_credential a = None)"
| "knows (At_restore d) a = (at_state a = Dispatching \<and> at_credential a = None)"
| "knows (At_forward d) a = (at_state a = Dispatching)"
| "knows (At_response d) a = (at_state a = Dispatching)"
| "knows (At_mark d ans) a = (at_state a = Dispatching)"
| "knows (At_persist d st b) a = (at_state a = Streaming)"
| "knows (At_drain d st b) a = (at_state a = Streaming)"
| "knows (At_flush d st b k) a = (at_state a = Streaming)"
| "knows (At_evidence d st e) a = (at_state a = Streaming)"
| "knows (At_finalize j c st ec out h) a = verdict_ok st ec a"
| "knows p a = (at_state a = Accepted)"

fun handler_ok :: "phase \<Rightarrow> bool" where
  "handler_ok (At_finalize j c st ec out (Some (d, started, e))) =
     (job_of_dispatch d = j \<and> ds_context d = c \<and> (started \<longrightarrow> e = Persist_failed))"
| "handler_ok p = True"

definition row_known :: "string list \<Rightarrow> turn_db \<Rightarrow> phase \<Rightarrow> bool" where
  "row_known used db p \<longleftrightarrow> handler_ok p \<and> (case job_of p of None \<Rightarrow> True | Some j \<Rightarrow>
     jb_token j \<in> set used \<and>
     (\<exists>a. tb_attempts db (jb_attempt j) = Some a \<and> owns (jb_owner j) a \<and>
        (case ctx_of p of None \<Rightarrow> True | Some c \<Rightarrow> ec_conv c = at_conv a \<and> ec_branch c = at_branch a) \<and>
        (case past_gate p of None \<Rightarrow> True | Some d \<Rightarrow> at_credential a = Some (ds_credential d)) \<and>
        (at_token a = Some (jb_token j) \<and> non_terminal (at_state a) \<longrightarrow> knows p a)))"

lemma knows_cong: "at_state a' = at_state a \<Longrightarrow> at_credential a' = at_credential a \<Longrightarrow> knows p a' = knows p a"
  by (cases p) (auto simp: verdict_ok_def)

lemma holds_Ended [simp]: "row_known used db (Ended out)" "row_known used db Ready"
  by (simp_all add: row_known_def)

text \<open>The steps of the others leave what a worker knows intact.\<close>

lemma holds_stable:
  assumes h: "row_known used db p" and ok: "tables_ok db" and st: "plane_step used actor db db'"
    and other: "\<And>j. job_of p = Some j \<Longrightarrow> actor \<noteq> Some (jb_token j)"
  shows "row_known used db' p"
proof (cases "job_of p")
  case (Some j)
  with h obtain a where a: "tb_attempts db (jb_attempt j) = Some a" "owns (jb_owner j) a" "jb_token j \<in> set used"
    "case ctx_of p of None \<Rightarrow> True | Some c \<Rightarrow> ec_conv c = at_conv a \<and> ec_branch c = at_branch a"
    "case past_gate p of None \<Rightarrow> True | Some d \<Rightarrow> at_credential a = Some (ds_credential d)"
    "at_token a = Some (jb_token j) \<and> non_terminal (at_state a) \<longrightarrow> knows p a" "handler_ok p"
    by (auto simp: row_known_def)
  from st have rs: "rows_step used actor db db'" by (simp add: plane_step_def)
  from rows_step_row [OF ok rs a(1)] obtain a' where a': "tb_attempts db' (jb_attempt j) = Some a'"
    and mv: "a' = a \<or> row_move used db actor a a' \<and> guarded_update a a' = None" by blast
  have lin: "at_conv a' = at_conv a" "at_branch a' = at_branch a" "owns (jb_owner j) a' = owns (jb_owner j) a"
    using mv guard_lineage by auto
  have cred: "at_credential a = Some c \<Longrightarrow> at_credential a' = Some c" for c
    using mv guard_credential by auto
  have kn: "knows p a'" if "at_token a' = Some (jb_token j)" "non_terminal (at_state a')"
  proof -
    have "at_token a = Some (jb_token j) \<and> at_state a' = at_state a \<and> at_credential a' = at_credential a"
      using mv that move_by_other [OF _ a(3) other [OF Some] that] by auto
    with a(6) that knows_cong [of a' a p] show ?thesis by simp
  qed
  show ?thesis
    using a a' lin cred kn Some by (auto simp: row_known_def split: option.splits)
qed (use h in \<open>simp add: row_known_def\<close>)

lemma holds_used: "row_known used db p \<Longrightarrow> set used \<subseteq> set used' \<Longrightarrow> row_known used' db p"
  by (auto simp: row_known_def split: option.splits)

section \<open>The steps of a worker\<close>

definition same_job :: "phase \<Rightarrow> phase \<Rightarrow> bool" where
  "same_job p p' \<longleftrightarrow> job_of p' = None \<or> job_of p' = job_of p"

definition own_step :: "string list \<Rightarrow> turn_db \<Rightarrow> phase \<Rightarrow> turn_db \<Rightarrow> phase \<Rightarrow> bool" where
  "own_step used db p db' p' \<longleftrightarrow>
     plane_step used (map_option jb_token (job_of p)) db db' \<and> row_known used db' p' \<and> same_job p p'"

lemma own_EndedI: "plane_step used (map_option jb_token (job_of p)) db db' \<Longrightarrow> own_step used db p db' (Ended out)"
  by (simp add: own_step_def same_job_def)

lemma holdsE:
  assumes "row_known used db p" "job_of p = Some j"
  obtains a where "tb_attempts db (jb_attempt j) = Some a" "owns (jb_owner j) a" "jb_token j \<in> set used"
    "case ctx_of p of None \<Rightarrow> True | Some c \<Rightarrow> ec_conv c = at_conv a \<and> ec_branch c = at_branch a"
    "case past_gate p of None \<Rightarrow> True | Some d \<Rightarrow> at_credential a = Some (ds_credential d)"
    "at_token a = Some (jb_token j) \<and> non_terminal (at_state a) \<longrightarrow> knows p a" "handler_ok p"
  using assms by (auto simp: row_known_def)

text \<open>A phase that changes nothing in the tables.\<close>

lemma quiet_step:
  assumes h: "row_known used db p" and j: "job_of p = Some j" "job_of p' = Some j"
    and ctx: "\<And>a c. tb_attempts db (jb_attempt j) = Some a \<Longrightarrow> owns (jb_owner j) a \<Longrightarrow> ctx_of p' = Some c \<Longrightarrow>
       (ctx_of p = Some c \<longrightarrow> ec_conv c = at_conv a \<and> ec_branch c = at_branch a) \<Longrightarrow>
       ec_conv c = at_conv a \<and> ec_branch c = at_branch a"
    and gate: "past_gate p' = None \<or> past_gate p' = past_gate p"
    and kn: "\<And>a. knows p a \<Longrightarrow> case past_gate p of None \<Rightarrow> True | Some d \<Rightarrow> at_credential a \<noteq> None \<Longrightarrow> knows p' a"
    and "handler_ok p'"
  shows "own_step used db p db p'"
proof -
  from h j(1) obtain a where a: "tb_attempts db (jb_attempt j) = Some a" "owns (jb_owner j) a" "jb_token j \<in> set used"
    "case ctx_of p of None \<Rightarrow> True | Some c \<Rightarrow> ec_conv c = at_conv a \<and> ec_branch c = at_branch a"
    "case past_gate p of None \<Rightarrow> True | Some d \<Rightarrow> at_credential a = Some (ds_credential d)"
    "at_token a = Some (jb_token j) \<and> non_terminal (at_state a) \<longrightarrow> knows p a" by (rule holdsE)
  have "case ctx_of p' of None \<Rightarrow> True | Some c \<Rightarrow> ec_conv c = at_conv a \<and> ec_branch c = at_branch a"
  proof (cases "ctx_of p'")
    case (Some c)
    have "ctx_of p = Some c \<longrightarrow> ec_conv c = at_conv a \<and> ec_branch c = at_branch a" using a(4) by auto
    from ctx [OF a(1,2) Some this] Some show ?thesis by simp
  qed simp
  moreover have "case past_gate p' of None \<Rightarrow> True | Some d \<Rightarrow> at_credential a = Some (ds_credential d)"
    using gate a(5) by auto
  moreover have "knows p' a" if "at_token a = Some (jb_token j)" "non_terminal (at_state a)"
    using a(6) that by (intro kn) (use a(5) in \<open>auto split: option.splits\<close>)
  ultimately show ?thesis
    using a j \<open>handler_ok p'\<close> by (auto simp: own_step_def row_known_def same_job_def)
qed

lemma readExecutionContext_SomeD:
  assumes "readExecutionContext ow aid db = Some c" "tb_attempts db aid = Some a"
  shows "ec_conv c = at_conv a" "ec_branch c = at_branch a"
  using assms by (auto simp: readExecutionContext_def select_attempt_def split: option.splits if_splits)

lemma load_step:
  assumes h: "row_known used db (At_load j)"
  shows "own_step used db (At_load j) db (loadClaimed j context_ok db)"
proof -
  have fin: "own_step used db (At_load j) db p'"
    if c: "readExecutionContext (jb_owner j) (jb_attempt j) db = Some c" and p': "ctx_of p' = Some c" "job_of p' = Some j"
      "past_gate p' = None" "handler_ok p'" "\<And>a. at_state a = Accepted \<Longrightarrow> knows p' a" for p' c
    using h _ p'(2)
  proof (rule quiet_step)
    fix a c' assume a: "tb_attempts db (jb_attempt j) = Some a" and "ctx_of p' = Some c'"
    with p'(1) readExecutionContext_SomeD [OF c a] show "ec_conv c' = at_conv a \<and> ec_branch c' = at_branch a" by simp
  next
    fix a assume "knows (At_load j) a"
    then show "knows p' a" using p'(5) by simp
  qed (simp_all add: p'(3,4))
  show ?thesis
  proof (cases "readExecutionContext (jb_owner j) (jb_attempt j) db")
    case (Some c)
    have r: "own_step used db (At_load j) db (refuse j c out)" for out
      by (rule fin [OF Some]) (simp_all add: refuse_def verdict_ok_def)
    have n: "own_step used db (At_load j) db (no_credential j c)"
      by (rule fin [OF Some]) (simp_all add: no_credential_def verdict_ok_def)
    have b: "own_step used db (At_load j) db (At_build j c plan cr)" for plan cr
      by (rule fin [OF Some]) simp_all
    show ?thesis
      by (simp add: loadClaimed_def Some own_EndedI r n b split: option.split sum.split)
  qed (simp add: loadClaimed_def own_EndedI)
qed

lemma quiet_same:
  assumes "row_known used db p" "job_of p = Some j" "job_of p' = Some j" "ctx_of p' = ctx_of p"
    "past_gate p' = None \<or> past_gate p' = past_gate p" "handler_ok p'"
    "\<And>a. knows p a \<Longrightarrow> case past_gate p of None \<Rightarrow> True | Some d \<Rightarrow> at_credential a \<noteq> None \<Longrightarrow> knows p' a"
  shows "own_step used db p db p'"
  using assms(1,2,3) by (rule quiet_step) (use assms in auto)

lemma build_step:
  assumes h: "row_known used db (At_build j c pl cr)"
  shows "own_step used db (At_build j c pl cr) db (buildClaimed j c pl cr b)"
proof (cases b)
  case Build_throws
  then show ?thesis by (simp add: buildClaimed_def own_EndedI)
qed (simp_all add: buildClaimed_def refuse_def no_credential_def, (rule quiet_same [OF h], simp_all add: verdict_ok_def)+)

lemma caught_props [simp]:
  "job_of (caught d r st e) = Some (job_of_dispatch d)" "ctx_of (caught d r st e) = Some (ds_context d)"
  "past_gate (caught d r st e) = None" "handler_ok (caught d r st e)"
  by (simp_all add: caught_def Let_def)

lemma caught_knows:
  assumes "r \<longrightarrow> at_state a = Dispatching \<and> at_credential a = None"
    and "\<not> r \<and> st \<and> e = Other_failure \<longrightarrow> at_credential a \<noteq> None \<and> at_state a \<noteq> Accepted"
  shows "knows (caught d r st e) a"
  using assms by (cases e) (auto simp: caught_def Let_def verdict_ok_def)

lemma caught_step:
  assumes "row_known used db p" "job_of p = Some (job_of_dispatch d)" "ctx_of p = Some (ds_context d)"
    and "\<And>a. knows p a \<Longrightarrow> case past_gate p of None \<Rightarrow> True | Some d \<Rightarrow> at_credential a \<noteq> None \<Longrightarrow>
       knows (caught d r st e) a"
  shows "own_step used db p db (caught d r st e)"
  using assms(1,2) by (rule quiet_same) (use assms in auto)

lemma refused_step:
  assumes h: "row_known used db (At_gate d)" shows "own_step used db (At_gate d) db (refused d recorded)"
proof (cases recorded)
  case True
  show ?thesis
    unfolding refused_def using True by simp (rule quiet_same [OF h], simp_all add: verdict_ok_def)
next
  case False
  show ?thesis
    unfolding refused_def using False by simp (rule caught_step [OF h], simp_all add: caught_knows)
qed

subsection \<open>Steps that run a transaction\<close>

lemma own_tx:
  assumes h: "row_known used db p" and ok: "tables_ok db" and j: "job_of p = Some j" "job_of p' = Some j"
    and u: "update_attempt (jb_owner j) (jb_attempt j) cond f db = Inr (Some a', db')"
    and mv: "\<And>a. cond a \<Longrightarrow> row_move used db (Some (jb_token j)) a (f a)"
    and same: "ctx_of p' = ctx_of p" "handler_ok p'"
    and gate: "\<And>a d. cond a \<Longrightarrow> past_gate p' = Some d \<Longrightarrow> past_gate p = Some d \<or> at_credential (f a) = Some (ds_credential d)"
    and kn: "\<And>a. cond a \<Longrightarrow> attempt_checks a \<Longrightarrow> knows p' (f a)"
  shows "own_step used db p db' p'"
proof -
  from h j(1) obtain a where a: "tb_attempts db (jb_attempt j) = Some a" "owns (jb_owner j) a" "jb_token j \<in> set used"
    "case ctx_of p of None \<Rightarrow> True | Some c \<Rightarrow> ec_conv c = at_conv a \<and> ec_branch c = at_branch a"
    "case past_gate p of None \<Rightarrow> True | Some d \<Rightarrow> at_credential a = Some (ds_credential d)"
    "at_token a = Some (jb_token j) \<and> non_terminal (at_state a) \<longrightarrow> knows p a" by (rule holdsE)
  from u have row: "cond a \<and> db' = put_attempt (f a) db \<and> guarded_update a (f a) = None"
    using a(1) by (cases rule: update_attempt_InrE) (auto dest: select_attempt_SomeD)
  have chk: "attempt_checks a" "at_id a = jb_attempt j" using tables_okD(1) [OF ok a(1)] by (simp_all add: attempt_row_ok_def)
  have new: "tb_attempts db' (jb_attempt j) = Some (f a)"
    using row chk(2) guard_lineage(1) [of a "f a"] by (simp add: put_attempt_def)
  have lin: "at_conv (f a) = at_conv a" "at_branch (f a) = at_branch a" "owns (jb_owner j) (f a)"
    using row a(2) guard_lineage [of a "f a"] by simp_all
  have g: "case past_gate p' of None \<Rightarrow> True | Some d \<Rightarrow> at_credential (f a) = Some (ds_credential d)"
  proof (cases "past_gate p'")
    case (Some d)
    with gate [of a d] row have "past_gate p = Some d \<or> at_credential (f a) = Some (ds_credential d)" by simp
    with a(5) row guard_credential [of a "f a"] Some show ?thesis by auto
  qed simp
  have "plane_step used (Some (jb_token j)) db db'" using u mv by (rule plane_update)
  moreover have "case ctx_of p' of None \<Rightarrow> True | Some c \<Rightarrow> ec_conv c = at_conv (f a) \<and> ec_branch c = at_branch (f a)"
    using a(4) lin same(1) by (cases "ctx_of p") simp_all
  then have "row_known used db' p'"
    using new lin a(3) g kn row chk(1) same j by (simp add: row_known_def)
  ultimately show ?thesis using j by (simp add: own_step_def same_job_def)
qed

lemma own_run:
  assumes run: "run_tx fl (bindE (update_attempt ow aid cond f db) (\<lambda>(r, db'). Inr (g r, db'))) db = (res, db')"
    and new: "\<And>a'. update_attempt ow aid cond f db = Inr (Some a', db') \<Longrightarrow> res = None \<or> res = Some (g (Some a')) \<Longrightarrow>
       own_step used db p db' p'"
    and quiet: "db' = db \<Longrightarrow> res = None \<or> res = Some (g None) \<Longrightarrow> own_step used db p db p'"
  shows "own_step used db p db' p'"
  using run
proof (cases rule: run_tx_cases)
  case 1
  with quiet show ?thesis by auto
next
  case (2 x)
  then obtain r where u: "update_attempt ow aid cond f db = Inr (r, db')" and x: "x = g r"
    by (auto simp: bindE_Inr_iff)
  show ?thesis
  proof (cases r)
    case None
    then have "db' = db" using u by (auto simp: update_attempt_def split: option.splits if_splits)
    with quiet 2(2) x None show ?thesis by auto
  next
    case (Some a')
    with new u x 2(2) show ?thesis by auto
  qed
qed

lemma own_lost:
  assumes "update_attempt ow aid cond f db = Inr (r, db')" "job_of p = Some j"
    and "\<And>a. cond a \<Longrightarrow> row_move used db (Some (jb_token j)) a (f a)"
  shows "own_step used db p db' (Ended out)"
  using plane_update(1) [OF assms(1,3)] assms(2) by (intro own_EndedI) simp

lemma cross_move:
  "at_state a = Accepted \<and> at_token a = Some tok \<and> live now a \<and> \<not> at_stop a \<and> branch_at_version db v a \<and> branch_head db a
   \<Longrightarrow> row_move used db (Some tok) a (a\<lparr> at_state := Dispatching, at_boundary := first_of (at_boundary a) now,
               at_request := first_of (at_request a) req, at_causal := Some v, at_parent := parent,
               at_deadline := Some d, at_heartbeat := Some now, at_updated := now \<rparr>)"
  by (auto intro: row_move.crosses)

lemma job_of_dispatch_extend [simp]: "job_of_dispatch (job.extend j (dispatch.fields c pl st b cr r)) = j"
  by (simp add: job_of_dispatch_def job.defs dispatch.defs)

lemma ds_extend [simp]: "ds_context (job.extend j (dispatch.fields c pl st b cr r)) = c"
  by (simp add: job.defs dispatch.defs)

lemma boundary_step:
  assumes h: "row_known used db (At_boundary j c pl cr st b pa)" and ok: "tables_ok db"
    and step: "boundaryClaimed dp now req j c pl cr st b pa fl db = (p', db')"
  shows "own_step used db (At_boundary j c pl cr st b pa) db' p'"
proof -
  obtain r where run: "run_tx fl (boundaryTx dp now req j c pa db) db = (r, db')"
    and p': "p' = (case r of None \<Rightarrow> Ended O_error | Some None \<Rightarrow> Ended O_boundary_lost
      | Some (Some x) \<Rightarrow> At_gate (job.extend j (dispatch.fields c pl st b cr x)))"
    using step by (auto simp: boundaryClaimed_def split: option.splits prod.splits)
  show ?thesis
  proof (cases "case lockRootForDispatch (jb_owner j) (ec_conv c) db of None \<Rightarrow> False | Some s \<Rightarrow> isRootExecutionEligible s")
    case False
    then have "boundaryTx dp now req j c pa db = Inr (None, db)" by (auto simp: boundaryTx_def split: option.splits)
    with run have "db' = db" "r = None \<or> r = Some None" by (auto simp: run_tx_def split: fault.splits)
    then show ?thesis by (auto simp: p' own_EndedI)
  next
    case True
    then have tx: "boundaryTx dp now req j c pa db =
        commitDispatchBoundary_turn (jb_owner j) now (jb_attempt j) (jb_token j) (dp_lease dp) (ec_causal c) req pa db"
      by (auto simp: boundaryTx_def split: option.splits)
    show ?thesis
    proof (rule own_run [OF run [unfolded tx commitDispatchBoundary_turn_def]])
      assume "r = None \<or> r = Some (case None of None \<Rightarrow> None | Some a \<Rightarrow> at_request a)"
      then show "own_step used db (At_boundary j c pl cr st b pa) db p'" by (auto simp: p' own_EndedI)
    next
      fix a'
      assume u: "update_attempt (jb_owner j) (jb_attempt j)
        (\<lambda>a. at_state a = Accepted \<and> at_token a = Some (jb_token j) \<and> live now a \<and> \<not> at_stop a \<and>
             branch_at_version db (ec_causal c) a \<and> branch_head db a)
        (\<lambda>a. a\<lparr> at_state := Dispatching, at_boundary := first_of (at_boundary a) now,
               at_request := first_of (at_request a) req, at_causal := Some (ec_causal c), at_parent := pa,
               at_deadline := Some (now + us (dp_lease dp)), at_heartbeat := Some now, at_updated := now \<rparr>) db = Inr (Some a', db')"
        and res: "r = None \<or> r = Some (case Some a' of None \<Rightarrow> None | Some a \<Rightarrow> at_request a)"
      have ends: "own_step used db (At_boundary j c pl cr st b pa) db' (Ended out)" for out
        by (rule own_lost [OF u]) (auto intro: cross_move)
      have goes: "own_step used db (At_boundary j c pl cr st b pa) db' (At_gate (job.extend j (dispatch.fields c pl st b cr y)))" for y
        by (rule own_tx [OF h ok _ _ u]) (auto intro: cross_move simp: attempt_checks_def)
      show "own_step used db (At_boundary j c pl cr st b pa) db' p'"
        unfolding p' by (cases r; cases "the r") (simp_all add: ends goes)
    qed
  qed
qed

lemma jb_job_of_dispatch [simp]:
  "jb_owner (job_of_dispatch d) = jb_owner d" "jb_attempt (job_of_dispatch d) = jb_attempt d"
  "jb_token (job_of_dispatch d) = jb_token d"
  by (simp_all add: job_of_dispatch_def)

lemmas own_tx_dispatch = own_tx [where j = "job_of_dispatch d" for d, simplified jb_job_of_dispatch]

lemma gate_step:
  assumes h: "row_known used db (At_gate d)" and ok: "tables_ok db"
    and step: "beforeDispatch now d fl db = (p', db')"
  shows "own_step used db (At_gate d) db' p'"
proof -
  obtain r where run: "run_tx fl (gateTx now d db) db = (r, db')"
    and p': "p' = (case r of None \<Rightarrow> caught d False False Other_failure
      | Some b \<Rightarrow> if b then At_forward d else caught d True False Other_failure)"
    using step by (auto simp: beforeDispatch_def split: option.splits prod.splits)
  have quiet: "own_step used db (At_gate d) db (caught d rej False Other_failure)" for rej
    by (rule caught_step [OF h]) (simp_all add: caught_knows)
  show ?thesis
  proof (cases "gateTx now d db = Inr (False, db)")
    case True
    with run have "db' = db" "r = None \<or> r = Some False" by (auto simp: run_tx_def split: fault.splits)
    with quiet show ?thesis by (auto simp: p')
  next
    case False
    then have tx: "gateTx now d db = commitCredentialProvenance (jb_owner d) now (jb_attempt d) (jb_token d)
        (ds_credential d) (pl_provider (ds_plan d)) db"
      by (auto simp: gateTx_def split: option.splits)
    show ?thesis
    proof (rule own_run [OF run [unfolded tx commitCredentialProvenance_def]])
      assume "r = None \<or> r = Some (None \<noteq> None)"
      with quiet show "own_step used db (At_gate d) db p'" by (auto simp: p')
    next
      fix a'
      assume u: "update_attempt (jb_owner d) (jb_attempt d)
        (\<lambda>a. at_state a = Dispatching \<and> at_token a = Some (jb_token d) \<and> live now a \<and> at_credential a = None \<and>
             list_ex (\<lambda>r. cr_id r = ds_credential d \<and> cr_org r = at_org a \<and> cr_provider r = pl_provider (ds_plan d) \<and>
               cr_status r = ''active'') (tb_creds db))
        (\<lambda>a. a\<lparr> at_credential := Some (ds_credential d), at_updated := now \<rparr>) db = Inr (Some a', db')"
        and res: "r = None \<or> r = Some (Some a' \<noteq> None)"
      have lost: "own_step used db (At_gate d) db' (caught d False False Other_failure)"
        by (rule own_tx_dispatch [OF h ok _ _ u]) (auto intro: row_move.binds simp: caught_knows)
      have goes: "own_step used db (At_gate d) db' (At_forward d)"
        by (rule own_tx_dispatch [OF h ok _ _ u]) (auto intro: row_move.binds)
      show "own_step used db (At_gate d) db' p'" using res lost goes by (auto simp: p')
    qed
  qed
qed

lemma mark_step:
  assumes h: "row_known used db (At_mark d ans)" and ok: "tables_ok db"
    and step: "recordResult now d ans fl db = (p', db')"
  shows "own_step used db (At_mark d ans) db' p'"
proof -
  obtain r where run: "run_tx fl (markStreaming (jb_owner d) now (jb_attempt d) (jb_token d) db) db = (r, db')"
    and p': "p' = (case r of None \<Rightarrow> caught d False True Persist_failed
      | Some b \<Rightarrow> if \<not> b then Ended O_finalize_fenced_out
          else (case ans of Whole st b \<Rightarrow> At_persist d st b | Opened st \<Rightarrow> At_drain d st []))"
    using step by (auto simp: recordResult_def split: option.splits prod.splits bool.splits)
  have quiet: "own_step used db (At_mark d ans) db (caught d False True Persist_failed)"
    by (rule caught_step [OF h]) (simp_all add: caught_knows)
  show ?thesis
  proof (rule own_run [OF run [unfolded markStreaming_def]])
    assume "r = None \<or> r = Some (None \<noteq> None)"
    with quiet show "own_step used db (At_mark d ans) db p'" by (auto simp: p' own_EndedI)
  next
    fix a'
    assume u: "update_attempt (jb_owner d) (jb_attempt d) (\<lambda>a. at_state a = Dispatching \<and> at_token a = Some (jb_token d))
        (\<lambda>a. a\<lparr> at_state := Streaming, at_updated := now \<rparr>) db = Inr (Some a', db')"
      and res: "r = None \<or> r = Some (Some a' \<noteq> None)"
    have to: "own_step used db (At_mark d ans) db' q"
      if "job_of q = Some (job_of_dispatch d)" "ctx_of q = Some (ds_context d)" "handler_ok q"
        "past_gate q = None \<or> past_gate q = Some d" "\<And>a. at_state a = Streaming \<Longrightarrow> knows q a" for q
      by (rule own_tx_dispatch [OF h ok _ _ u]) (use that in \<open>auto intro: row_move.streams\<close>)
    have "own_step used db (At_mark d ans) db' (caught d False True Persist_failed)"
      by (rule to) (simp_all add: caught_knows)
    moreover have "own_step used db (At_mark d ans) db' (At_persist d st b)" for st b by (rule to) simp_all
    moreover have "own_step used db (At_mark d ans) db' (At_drain d st b)" for st b by (rule to) simp_all
    ultimately show "own_step used db (At_mark d ans) db' p'" using res by (cases ans) (auto simp: p')
  qed
qed

text \<open>A transaction that only adds contents and items.\<close>

definition adds_content :: "turn_db \<Rightarrow> turn_db \<Rightarrow> bool" where
  "adds_content db db' \<longleftrightarrow> db' = db\<lparr> tb_items := tb_items db', tb_contents := tb_contents db' \<rparr>"

lemma adds_content_eq:
  assumes "adds_content db db'"
  shows "tb_attempts db' = tb_attempts db" "tb_turns db' = tb_turns db" "tb_branches db' = tb_branches db"
    "tb_convs db' = tb_convs db" "tb_creds db' = tb_creds db" "tb_orgs db' = tb_orgs db"
  using assms by (cases db, cases db', simp add: adds_content_def)+

lemma adds_content_refl [simp]: "adds_content db db"
  by (simp add: adds_content_def)

lemma holds_cong: "tb_attempts db' = tb_attempts db \<Longrightarrow> row_known used db' p = row_known used db p"
  by (cases "job_of p") (simp_all add: row_known_def)

lemma own_content: "own_step used db p db p' \<Longrightarrow> adds_content db db' \<Longrightarrow> own_step used db p db' p'"
  by (simp add: own_step_def plane_step_def rows_step_def adds_content_eq holds_cong [of db' db])

lemma adds_content_trans: "adds_content a b \<Longrightarrow> adds_content b c \<Longrightarrow> adds_content a c"
  by (cases a, cases b, cases c) (simp add: adds_content_def)

lemma insertContent_adds: "insertContent ow cv cid e db = Inr db' \<Longrightarrow> adds_content db db'"
  by (cases "tb_contents db cid") (auto simp: insertContent_def adds_content_def split: option.splits if_splits)

lemma append_adds: "appendFencedOutputItem ow aid tok seq ty cid db = Inr (ok, db') \<Longrightarrow> adds_content db db'"
  by (auto simp: appendFencedOutputItem_def adds_content_def Let_def split: option.splits if_splits)

lemma persistTx_adds:
  assumes "persistTx d ty cid e db = Inr (b, db')" shows "adds_content db db'"
proof -
  from assms obtain db1 ok db2 where "insertContent (jb_owner d) (ec_conv (ds_context d)) cid e db = Inr db1"
    "appendFencedOutputItem (jb_owner d) (jb_attempt d) (jb_token d) (nextAttemptItemSeq (jb_owner d) (jb_attempt d) db) ty cid db1
       = Inr (ok, db2)" "db' = db2 \<or> db' = db"
    by (auto simp: persistTx_def Let_def bindE_Inr_iff split: if_splits)
  then show ?thesis by (auto dest: insertContent_adds append_adds intro: adds_content_trans)
qed

lemma persist_adds: "persistOutputItem k d ty bs n cid fl db = (r, db') \<Longrightarrow> adds_content db db'"
  by (auto simp: persistOutputItem_def elim!: run_tx_cases dest: persistTx_adds split: option.splits)

lemma known_step:
  assumes h: "row_known used db p" and p: "job_of p = Some (job_of_dispatch d)" "ctx_of p = Some (ds_context d)"
    "\<And>a. knows p a = (at_state a = Streaming)"
  shows "own_step used db p db (finalizeKnownResult d status)"
  using h p(1) unfolding finalizeKnownResult_def
  by (rule quiet_same) (use p in \<open>auto simp: classifyStatus_def verdict_ok_def\<close>)

lemma persist_step:
  assumes h: "row_known used db (At_persist d st b)" and step: "recordBody k d st b n cid fl db = (p', db')"
  shows "own_step used db (At_persist d st b) db' p'"
proof -
  obtain r where r: "persistOutputItem k d ''native_response'' b n cid fl db = (r, db')"
    and p': "p' = (case r of None \<Rightarrow> caught d False True Persist_failed
      | Some ok \<Rightarrow> if ok then finalizeKnownResult d st else Ended O_finalize_fenced_out)"
    using step by (auto simp: recordBody_def split: option.splits prod.splits bool.splits)
  have "own_step used db (At_persist d st b) db (caught d False True Persist_failed)"
    by (rule caught_step [OF h]) (simp_all add: caught_knows)
  moreover have "own_step used db (At_persist d st b) db (finalizeKnownResult d st)"
    by (rule known_step [OF h]) simp_all
  ultimately have "own_step used db (At_persist d st b) db p'" by (auto simp: p' own_EndedI split: option.split)
  with persist_adds [OF r] show ?thesis by (rule own_content [rotated])
qed

lemma stream_step:
  assumes h: "row_known used db p" and p: "job_of p = Some (job_of_dispatch d)" "ctx_of p = Some (ds_context d)"
    "\<And>a. knows p a = (at_state a = Streaming)" "past_gate p = Some d"
    and q: "job_of q = Some (job_of_dispatch d)" "ctx_of q = Some (ds_context d)" "past_gate q = Some d"
    "handler_ok q" "\<And>a. knows q a = (at_state a = Streaming)"
  shows "own_step used db p db q"
  using h p(1) q(1) by (rule quiet_same) (use p q in auto)

lemma flush_step:
  assumes h: "row_known used db (At_flush d st buf k)" and step: "flushStream km d st buf k n cid fl db = (p', db')"
  shows "own_step used db (At_flush d st buf k) db' p'"
proof -
  obtain r where r: "persistOutputItem km d ''native_stream_chunk'' buf n cid fl db = (r, db')" and p': "p' = flushed d st k r"
    using step by (auto simp: flushStream_def split: prod.splits)
  have "own_step used db (At_flush d st buf k) db (flushed d st k r)"
    by (rule stream_step [OF h]) (auto simp: flushed_def split: after_flush.splits option.splits)
  with persist_adds [OF r] p' show ?thesis by (auto intro: own_content)
qed

lemma drain_step:
  assumes h: "row_known used db (At_drain d st buf)"
  shows "own_step used db (At_drain d st buf) db (drainChunk dp d st buf ch)"
    and "own_step used db (At_drain d st buf) db (drainEnd d st buf)"
    and "own_step used db (At_drain d st buf) db (drainBreak d st buf)"
  by (rule stream_step [OF h, of d]; simp add: drainChunk_def drainEnd_def drainBreak_def Let_def)+

lemma evidence_step:
  assumes h: "row_known used db (At_evidence d st e)"
  shows "own_step used db (At_evidence d st e) db (streamEvidence d st e recorded)"
proof -
  have "own_step used db (At_evidence d st e) db (caught d False True f)" for f
    by (rule caught_step [OF h]) (auto simp: caught_knows)
  moreover have "own_step used db (At_evidence d st e) db (finalizeKnownResult d st)"
    by (rule known_step [OF h]) simp_all
  ultimately show ?thesis by (auto simp: streamEvidence_def own_EndedI split: ending.split)
qed

lemma ends_run:
  assumes run: "run_tx fl (bindE (update_attempt ow aid cond f db) (\<lambda>(r, db'). Inr (g r, db'))) db = (r, db')"
    and "job_of p = Some j" "\<And>a. cond a \<Longrightarrow> row_move used db (Some (jb_token j)) a (f a)"
  shows "own_step used db p db' (Ended out)"
  using run by (rule own_run) (auto intro: own_lost assms own_EndedI)

lemma restore_step:
  assumes step: "restoreGate dp now d fl db = (p', db')"
  shows "own_step used db (At_restore d) db' p'"
proof -
  obtain r where run: "run_tx fl (restoreDispatchingToAccepted (jb_owner d) now (jb_attempt d) (jb_token d) (dp_lease dp) db) db = (r, db')"
    and p': "\<exists>out. p' = Ended out"
    using step by (auto simp: restoreGate_def split: option.splits prod.splits)
  have "own_step used db (At_restore d) db' (Ended out)" for out
    by (rule ends_run [OF run [unfolded restoreDispatchingToAccepted_def]]) (auto intro: row_move.restores)
  with p' show ?thesis by auto
qed

lemma finalizeTx_cases:
  assumes "finalizeTx now j c st ec db = Inr (ok, db')"
  obtains r db1 where "update_attempt (jb_owner j) (jb_attempt j) (\<lambda>a. at_token a = Some (jb_token j) \<and> non_terminal (at_state a))
        (\<lambda>a. a\<lparr> at_state := st, at_error := ec, at_terminal := Some now, at_updated := now \<rparr>) db = Inr (r, db1)"
    "ok = (r \<noteq> None)"
    "db' = (if ok then bumpBranchCausalVersion (jb_owner j) now (ec_conv c) (ec_branch c) db1 else db1)"
  using assms by (auto simp: finalizeTx_def finalizeAttempt_def bindE_Inr_iff)

lemma own_bump:
  assumes "own_step used db p db1 p'" "tb_branches db1 = tb_branches db"
  shows "own_step used db p (bumpBranchCausalVersion ow now cv bv db1) p'"
  using assms plane_bump [of used _ db db1] holds_cong [of "bumpBranchCausalVersion ow now cv bv db1" db1]
  by (simp add: own_step_def)

lemma finalize_step:
  assumes h: "row_known used db (At_finalize j c st ec out hnd)" and ok: "tables_ok db"
    and step: "finalizeAndWake now j c st ec out hnd fl db = (p', db')"
  shows "own_step used db (At_finalize j c st ec out hnd) db' p'"
proof -
  let ?p = "At_finalize j c st ec out hnd"
  obtain r where run: "run_tx fl (finalizeTx now j c st ec db) db = (r, db')"
    and p': "p' = (case r of None \<Rightarrow> (case hnd of None \<Rightarrow> Ended O_error | Some (d, started, e) \<Rightarrow> caught d False started e)
      | Some b \<Rightarrow> Ended (if b then out else O_finalize_fenced_out))"
    using step by (auto simp: finalizeAndWake_def split: option.splits prod.splits)
  have hk: "handler_ok ?p" using h by (simp add: row_known_def)
  have cg: "own_step used db ?p db (caught d False started e)" if "hnd = Some (d, started, e)" for d started e
    by (rule caught_step [OF h]) (use hk that in \<open>auto simp: caught_knows\<close>)
  show ?thesis
    using run
  proof (cases rule: run_tx_cases)
    case 1
    then show ?thesis using cg by (cases hnd) (auto simp: p' own_EndedI)
  next
    case (2 b)
    from 2(1) obtain q db1 where u: "update_attempt (jb_owner j) (jb_attempt j)
          (\<lambda>a. at_token a = Some (jb_token j) \<and> non_terminal (at_state a))
          (\<lambda>a. a\<lparr> at_state := st, at_error := ec, at_terminal := Some now, at_updated := now \<rparr>) db = Inr (q, db1)"
      and b: "b = (q \<noteq> None)"
      and db': "db' = (if b then bumpBranchCausalVersion (jb_owner j) now (ec_conv c) (ec_branch c) db1 else db1)"
      by (rule finalizeTx_cases)
    have mv: "row_move used db (Some (jb_token j)) a (a\<lparr> at_state := st, at_error := ec, at_terminal := Some now, at_updated := now \<rparr>)"
      if "at_token a = Some (jb_token j) \<and> non_terminal (at_state a)" for a
      using that by (auto intro: row_move.finishes)
    note pl = plane_update [OF u mv]
    have ended: "own_step used db ?p db' (Ended x)" for x
      using own_bump [OF own_lost [OF u _ mv]] own_lost [OF u _ mv] pl(4) by (auto simp: db')
    have "own_step used db ?p db' (caught d False started e)" if hnd: "hnd = Some (d, started, e)" for d started e
    proof (cases q)
      case None
      with u have "db1 = db" by (cases rule: update_attempt_InrE) auto
      with None b cg [OF hnd] show ?thesis by (simp add: db')
    next
      case (Some a')
      have "own_step used db ?p db1 (caught d False started e)"
        by (rule own_tx [OF h ok _ _ u [unfolded Some] mv]) (use hk hnd in \<open>auto simp: caught_knows\<close>)
      from own_bump [OF this pl(4)] this show ?thesis by (simp add: db')
    qed
    with ended show ?thesis by (cases hnd; cases r) (auto simp: p')
  qed
qed

lemma holds_claim_load:
  "holds_claim ow aid tok db \<Longrightarrow> tok \<in> set used \<Longrightarrow> row_known used db (At_load \<lparr> jb_owner = ow, jb_attempt = aid, jb_token = tok \<rparr>)"
  by (auto simp: holds_claim_def row_known_def)

text \<open>Taking a candidate up: the drawn token becomes used.\<close>

lemma take_up_step:
  assumes step: "processCandidate dp now tok c fl db = (p', db')" and fresh: "tok \<notin> set used" and ok: "tables_ok db"
  shows "plane_step used None db db' \<and> row_known (tok # used) db' p' \<and> (case job_of p' of None \<Rightarrow> True | Some j \<Rightarrow> jb_token j = tok)"
proof -
  obtain r where run: "run_tx fl (arm dp now tok c db) db = (r, db')"
    and p': "p' = (case r of Some (Arm_drive (Some g)) \<Rightarrow>
        At_load \<lparr> jb_owner = cd_owner c, jb_attempt = cd_attempt c, jb_token = cg_token g \<rparr> | _ \<Rightarrow> p')"
    and e: "(\<exists>g. r = Some (Arm_drive (Some g))) \<or> (\<exists>out. p' = Ended out)"
    using step by (auto simp: processCandidate_def split: option.splits prod.splits armed.splits)
  show ?thesis
    using run
  proof (cases rule: run_tx_cases)
    case 1
    with e show ?thesis by auto
  next
    case (2 x)
    note a = arm_op [OF 2(1) fresh ok]
    from e show ?thesis
    proof
      assume "\<exists>g. r = Some (Arm_drive (Some g))"
      then obtain g where g: "r = Some (Arm_drive (Some g))" by blast
      with 2(2) a(2) [of g] have "cg_token g = tok" "holds_claim (cd_owner c) (cd_attempt c) tok db'" by auto
      with p' g a(1) show ?thesis by (auto intro: holds_claim_load)
    next
      assume "\<exists>out. p' = Ended out"
      with a(1) show ?thesis by auto
    qed
  qed
qed

end
