(* ===== verification/Turn_World.thy ===== *)
theory Turn_World
  imports Turn_Safety
begin

text \<open>
  The execution kernel as a system: any number of workers, reservations, stop requests, credential
  rotations and clock ticks interleave. The invariant of the system, and the claims that rest on
  it.
\<close>

section \<open>A step of one worker\<close>

definition drawn :: "turn_effect \<Rightarrow> string list \<Rightarrow> string list" where
  "drawn e used = (case e of Drew tok \<Rightarrow> tok # used | _ \<Rightarrow> used)"

definition takes_up :: "turn_effect \<Rightarrow> phase \<Rightarrow> bool" where
  "takes_up e p = (case e of Drew tok \<Rightarrow> (case job_of p of None \<Rightarrow> True | Some j \<Rightarrow> jb_token j = tok) | _ \<Rightarrow> False)"

definition phase_step :: "string list \<Rightarrow> turn_db \<Rightarrow> phase \<Rightarrow> turn_effect \<Rightarrow> turn_db \<Rightarrow> phase \<Rightarrow> bool" where
  "phase_step used db p e db' p' \<longleftrightarrow>
     plane_step used (map_option jb_token (job_of p)) db db' \<and> row_known (drawn e used) db' p' \<and>
     (takes_up e p' \<or> drawn e used = used \<and> same_job p p')"

lemma drawn_simps [simp]:
  "drawn Silent used = used" "drawn (Drew t) used = t # used" "drawn (Post a c b) used = used" "drawn (Received a b) used = used"
  by (simp_all add: drawn_def)

lemma own_worker: "own_step used db p db' p' \<Longrightarrow> drawn e used = used \<Longrightarrow> phase_step used db p e db' p'"
  by (simp add: own_step_def phase_step_def)

lemma forward_step:
  assumes h: "row_known used db (At_forward d)"
  shows "own_step used db (At_forward d) db (At_response d)"
  by (rule quiet_same [OF h, of "job_of_dispatch d"]) simp_all

lemma response_step:
  assumes h: "row_known used db (At_response d)"
  shows "own_step used db (At_response d) db (At_mark d ans)"
    and "f = Persist_failed \<or> f = Other_failure \<Longrightarrow> own_step used db (At_response d) db (caught d False True f)"
    and "own_step used db (At_response d) db (caught d False True f)"
  by (rule quiet_same [OF h, of "job_of_dispatch d"]; simp) (auto intro!: caught_step [OF h] caught_knows)

lemma advance_worker:
  assumes "advance k dp now p db e p' db'" "row_known used db p" "tables_ok db" "fresh_effect e w" "w_tokens w = used"
  shows "phase_step used db p e db' p'"
  using assms
proof (cases rule: advance.cases)
  case (take_up tok c fl)
  with assms take_up_step [of dp now tok c fl db p' db' used] show ?thesis
    by (auto simp: phase_step_def takes_up_def fresh_effect_def split: option.splits)
next
  case (load j context_ok)
  with assms load_step show ?thesis by (auto intro: own_worker)
next
  case (build j c plan cred b)
  with assms build_step show ?thesis by (auto intro: own_worker)
next
  case (boundary req j c plan cred stream body parent fl)
  with assms boundary_step show ?thesis by (auto intro: own_worker)
next
  case (govern_refuses d recorded)
  with assms refused_step show ?thesis by (auto intro: own_worker)
next
  case (fails_before_gate d)
  have "own_step used db (At_gate d) db (caught d False False Other_failure)"
    by (rule caught_step) (use assms fails_before_gate in \<open>auto simp: caught_knows\<close>)
  with fails_before_gate show ?thesis by (auto intro: own_worker)
next
  case (gate d fl)
  with assms gate_step show ?thesis by (auto intro: own_worker)
next
  case (aborts_after_gate d)
  have "own_step used db (At_forward d) db (caught d False False Other_failure)"
    by (rule caught_step) (use assms aborts_after_gate in \<open>auto simp: caught_knows\<close>)
  with aborts_after_gate show ?thesis by (auto intro: own_worker)
next
  case (forward d)
  with assms forward_step show ?thesis by (auto intro: own_worker)
next
  case (no_response d)
  with assms response_step show ?thesis by (auto intro: own_worker)
next
  case (responds d body recorded status)
  with assms response_step show ?thesis by (auto intro: own_worker)
next
  case (opens d status)
  with assms response_step show ?thesis by (auto intro: own_worker)
next
  case (mark d ans fl)
  with assms mark_step show ?thesis by (auto intro: own_worker)
next
  case (persist d status body nonce cid fl)
  with assms persist_step show ?thesis by (auto intro: own_worker)
next
  case (chunk d status buf ch)
  with assms drain_step show ?thesis by (auto intro: own_worker)
next
  case (eof d status buf)
  with assms drain_step show ?thesis by (auto intro: own_worker)
next
  case (dies d status buf)
  with assms drain_step show ?thesis by (auto intro: own_worker)
next
  case (flush d status buf after nonce cid fl)
  with assms flush_step show ?thesis by (auto intro: own_worker)
next
  case (evidence d status x recorded)
  with assms evidence_step show ?thesis by (auto intro: own_worker)
next
  case (restore d fl)
  with assms restore_step show ?thesis by (auto intro: own_worker)
next
  case (finalize j c st ec out handler fl)
  with assms finalize_step show ?thesis by (auto intro: own_worker)
qed (auto intro: own_worker own_EndedI simp: phase_step_def same_job_def)

section \<open>The other steps\<close>

lemma seq_below_next:
  assumes "t \<in> set (tb_turns db)" "own_turn ow cid t" "ct_branch t = bid"
  shows "ct_seq t < nextTurnSeq ow cid bid db"
proof -
  have m: "x \<le> foldr max xs (0::nat)" if "x \<in> set xs" for x xs
    using that by (induction xs) auto
  have "ct_seq t \<in> set (map ct_seq (filter (\<lambda>t. own_turn ow cid t \<and> ct_branch t = bid) (tb_turns db)))"
    using assms by auto
  from m [OF this] show ?thesis by (simp add: nextTurnSeq_def)
qed

text \<open>A reservation adds a turn at the end of its branch and a fresh attempt.\<close>

definition reserved_step :: "turn_db \<Rightarrow> turn_db \<Rightarrow> bool" where
  "reserved_step db db' \<longleftrightarrow> (\<exists>x a t. tb_attempts db x = None \<and> birth_guard a \<and> attempt_checks a \<and> at_id a = x \<and>
     tb_attempts db' = (tb_attempts db)(x \<mapsto> a) \<and> tb_turns db' = tb_turns db @ [t] \<and> on_branch a t \<and>
     ct_id t = at_turn a \<and> ct_current t = Some x \<and>
     (\<forall>u \<in> set (tb_turns db). ct_id u \<noteq> ct_id t \<and> (same_branch u t \<longrightarrow> ct_seq u < ct_seq t)) \<and>
     home db (at_org a) (at_owner a) (at_conv a) (at_branch a)) \<and>
     tb_branches db' = tb_branches db \<and> tb_convs db' = tb_convs db \<and> tb_creds db' = tb_creds db"

lemma reserve_reserved:
  assumes r: "reserveTurn ow env cid inp config db = Inr (tid, db')" and ok: "tables_ok db"
  shows "reserved_step db db'"
proof -
  from r obtain b c where b: "getBranchInConversation ow cid (lower (si_branch inp)) db = Some b"
    and c: "find_conv ow cid db = Some c" and fresh: "tb_attempts db (se_attempt env) = None"
      "\<not> list_ex (\<lambda>q. ct_id q = se_turn env) (tb_turns db)"
    and db': "db' = reserved_db ow env cid (br_id b) (lower (si_client inp)) config db"
    by (rule reserveTurn_InrD) blast
  let ?a = "born ow cid (br_id b) (se_turn env) (se_attempt env) (se_now env)"
  let ?t = "new_turn ow env cid (br_id b) (lower (si_client inp)) (nextTurnSeq ow cid (br_id b) db)"
  have br: "tb_branches db (br_id b) = Some b" "br_conv b = cid" "br_org b = ow_org ow" "br_owner b = ow_user ow"
    using b ok by (auto simp: getBranchInConversation_def tables_ok_def split: option.splits if_splits)
  have cv: "\<exists>c. tb_convs db cid = Some c \<and> cv_org c = ow_org ow \<and> cv_owner c = ow_user ow"
    using c by (auto simp: find_conv_def split: option.splits if_splits)
  have "ct_id u \<noteq> ct_id ?t \<and> (same_branch u ?t \<longrightarrow> ct_seq u < ct_seq ?t)" if u: "u \<in> set (tb_turns db)" for u
    using u fresh(2) seq_below_next [OF u]
    by (auto simp: list_ex_iff new_turn_def same_branch_def own_turn_def)
  moreover have "home db (at_org ?a) (at_owner ?a) (at_conv ?a) (at_branch ?a)"
    using br cv by (auto simp: home_def born_def)
  moreover have "on_branch ?a ?t" "ct_id ?t = at_turn ?a" "ct_current ?t = Some (se_attempt env)"
    by (simp_all add: on_branch_def born_def new_turn_def)
  ultimately show ?thesis
    unfolding reserved_step_def
    by (intro conjI exI [of _ "se_attempt env"] exI [of _ ?a] exI [of _ ?t])
       (use fresh(1) in \<open>simp_all add: db' reserved_db_def\<close>)
qed

lemma reserved_tables:
  assumes st: "reserved_step db db'" and ok: "tables_ok db"
  shows "tables_ok db'"
proof -
  from st obtain x a t where n: "tb_attempts db x = None" "birth_guard a" "attempt_checks a" "at_id a = x"
      "tb_attempts db' = (tb_attempts db)(x \<mapsto> a)" and t: "tb_turns db' = tb_turns db @ [t]" "on_branch a t"
      "ct_id t = at_turn a" "ct_current t = Some x"
    and fresh: "\<And>u. u \<in> set (tb_turns db) \<Longrightarrow> ct_id u \<noteq> ct_id t \<and> (same_branch u t \<longrightarrow> ct_seq u < ct_seq t)"
    and hm: "home db (at_org a) (at_owner a) (at_conv a) (at_branch a)"
    and eq: "tb_branches db' = tb_branches db" "tb_convs db' = tb_convs db" "tb_creds db' = tb_creds db"
    unfolding reserved_step_def by (elim conjE exE) (rule that; blast)
  have home: "home db' = home db" by (simp add: home_def eq fun_eq_iff)
  have "attempt_row_ok db' y b" if "tb_attempts db' y = Some b" for y b
  proof (cases "y = x")
    case True
    with that n t hm show ?thesis by (auto simp: attempt_row_ok_def home cred_fk_def birth_guard_def)
  next
    case False
    with that n(5) have "attempt_row_ok db y b" using tables_okD(1) [OF ok] by simp
    then show ?thesis by (auto simp: attempt_row_ok_def home eq t)
  qed
  moreover have "turn_ok db' u" if "u \<in> set (tb_turns db')" for u
  proof (cases "u = t")
    case True
    with n t show ?thesis by (auto simp: turn_ok_def)
  next
    case False
    with that t have "turn_ok db u" using tables_okD(2) [OF ok] by simp
    then obtain y b where y: "ct_current u = Some y" "tb_attempts db y = Some b" "on_branch b u" "at_turn b = ct_id u"
      by (auto simp: turn_ok_def)
    with n(1,5) have "tb_attempts db' y = Some b" by (cases "y = x") simp_all
    with y show ?thesis by (simp add: turn_ok_def)
  qed
  moreover have "distinct (map ct_id (tb_turns db'))"
  proof -
    have "ct_id t \<notin> ct_id ` set (tb_turns db)" using fresh by force
    with tables_okD(3) [OF ok] show ?thesis by (simp add: t(1))
  qed
  moreover have "u = v" if "u \<in> set (tb_turns db')" "v \<in> set (tb_turns db')" "same_branch u v" "ct_seq u = ct_seq v" for u v
  proof (rule ccontr)
    assume ne: "u \<noteq> v"
    have sym: "same_branch v u" using that(3) by (simp add: same_branch_def)
    have uv: "u = t \<or> u \<in> set (tb_turns db)" "v = t \<or> v \<in> set (tb_turns db)" using that(1,2) by (auto simp: t(1))
    consider "u = t" "v \<in> set (tb_turns db)" | "v = t" "u \<in> set (tb_turns db)"
      | "u \<in> set (tb_turns db)" "v \<in> set (tb_turns db)"
      using uv ne by blast
    then show False
    proof cases
      case 1
      with fresh [of v] sym that(4) show ?thesis by simp
    next
      case 2
      with fresh [of u] that(3,4) show ?thesis by simp
    next
      case 3
      with tables_okD(4) [OF ok 3 that(3,4)] ne show ?thesis by simp
    qed
  qed
  ultimately show ?thesis using ok by (auto simp: tables_ok_def eq)
qed

lemma reserved_row: "reserved_step db db' \<Longrightarrow> tb_attempts db y = Some b \<Longrightarrow> tb_attempts db' y = Some b"
  by (auto simp: reserved_step_def)

lemma holds_mono:
  assumes "row_known used db p" "\<And>y b. tb_attempts db y = Some b \<Longrightarrow> tb_attempts db' y = Some b"
  shows "row_known used db' p"
  using assms by (cases "job_of p") (auto simp: row_known_def)

lemma home_status: "home (db\<lparr> tb_convs := (tb_convs db)(cid \<mapsto> c\<lparr> cv_status := st \<rparr>) \<rparr>) = home db" if "tb_convs db cid = Some c"
  using that by (auto simp: home_def fun_eq_iff)

lemma status_tables:
  assumes ok: "tables_ok db" and c: "tb_convs db cid = Some c"
  shows "tables_ok (db\<lparr> tb_convs := (tb_convs db)(cid \<mapsto> c\<lparr> cv_status := st \<rparr>) \<rparr>)"
proof -
  let ?db = "db\<lparr> tb_convs := (tb_convs db)(cid \<mapsto> c\<lparr> cv_status := st \<rparr>) \<rparr>"
  have "attempt_row_ok ?db x a = attempt_row_ok db x a" for x a by (simp add: attempt_row_ok_def home_status [OF c])
  moreover have "turn_ok ?db t = turn_ok db t" for t by (simp add: turn_ok_def)
  moreover have "\<exists>d. tb_convs ?db (br_conv b) = Some d \<and> cv_org d = br_org b \<and> cv_owner d = br_owner b"
    if b: "tb_branches db i = Some b" for i b
  proof -
    from ok b obtain d where "tb_convs db (br_conv b) = Some d" "cv_org d = br_org b" "cv_owner d = br_owner b"
      unfolding tables_ok_def by blast
    with c show ?thesis by (cases "br_conv b = cid") auto
  qed
  ultimately show ?thesis using ok by (auto simp: tables_ok_def)
qed

lemma creds_tables:
  assumes ok: "tables_ok db" and kept: "creds_kept (tb_creds db) cs"
  shows "tables_ok (db\<lparr> tb_creds := cs \<rparr>)"
proof -
  have fk: "cred_fk cs a" if "cred_fk (tb_creds db) a" for a
  proof (cases "at_credential a")
    case (Some x)
    with that obtain r where r: "r \<in> set (tb_creds db)" "cr_id r = x" "cr_org r = at_org a"
      by (auto simp: cred_fk_def list_ex_iff)
    with kept obtain s where "s \<in> set cs" "cr_id s = cr_id r" "cr_org s = cr_org r"
      by (auto simp: creds_kept_def list_ex_iff list_all_iff)
    with r Some show ?thesis by (auto simp: cred_fk_def list_ex_iff)
  qed (simp add: cred_fk_def)
  have "attempt_row_ok (db\<lparr> tb_creds := cs \<rparr>) x a" if "attempt_row_ok db x a" for x a
    using that fk by (auto simp: attempt_row_ok_def home_def)
  moreover have "turn_ok (db\<lparr> tb_creds := cs \<rparr>) t = turn_ok db t" for t by (simp add: turn_ok_def)
  ultimately show ?thesis using ok by (auto simp: tables_ok_def)
qed

lemma beat_plane:
  assumes "heartbeatClaim ow now aid tok l db = Inr (h, db')" shows "plane_step used None db db'"
proof -
  from assms obtain r where "update_attempt ow aid (\<lambda>a. at_token a = Some tok \<and> live now a \<and> non_terminal (at_state a))
        (\<lambda>a. a\<lparr> at_deadline := Some (now + us l), at_heartbeat := Some now, at_updated := now \<rparr>) db = Inr (r, db')"
    by (auto simp: heartbeatClaim_def bindE_Inr_iff)
  then show ?thesis by (rule plane_update) (auto intro: row_move.beats)
qed

lemma stop_plane: "requestStop ow aid db = Inr (r, db') \<Longrightarrow> plane_step used None db db'"
  unfolding requestStop_def by (erule plane_update) (auto intro: row_move.stops)

section \<open>What a worker does to its row\<close>

fun row_effect :: "phase \<Rightarrow> attempt \<Rightarrow> attempt \<Rightarrow> bool" where
  "row_effect (At_boundary j c pl cr st b pa) a a' = (at_state a = Accepted \<and> at_state a' = Dispatching \<and>
     at_error a' = at_error a \<and> at_credential a' = at_credential a)"
| "row_effect (At_gate d) a a' = (at_state a = Dispatching \<and> at_state a' = Dispatching \<and> at_error a' = at_error a \<and>
     at_credential a = None \<and> at_credential a' = Some (ds_credential d))"
| "row_effect (At_mark d ans) a a' = (at_state a = Dispatching \<and> at_state a' = Streaming \<and> at_error a' = at_error a \<and>
     at_credential a' = at_credential a)"
| "row_effect (At_restore d) a a' = (at_state a = Dispatching \<and> at_state a' = Accepted \<and> at_error a' = at_error a \<and>
     at_credential a = None \<and> at_credential a' = None)"
| "row_effect (At_finalize j c st ec out h) a a' = (non_terminal (at_state a) \<and> at_state a' = st \<and> at_error a' = ec \<and>
     at_credential a' = at_credential a)"
| "row_effect p a a' = False"

definition row_changed :: "turn_db \<Rightarrow> phase \<Rightarrow> turn_db \<Rightarrow> bool" where
  "row_changed db p db' \<longleftrightarrow> (\<exists>j a a'. job_of p = Some j \<and> tb_attempts db (jb_attempt j) = Some a \<and>
     at_token a = Some (jb_token j) \<and> at_token a' = Some (jb_token j) \<and> row_effect p a a' \<and>
     guarded_update a a' = None \<and> attempt_checks a' \<and> tb_attempts db' = (tb_attempts db)(jb_attempt j \<mapsto> a'))"

lemma changed_update:
  assumes u: "update_attempt (jb_owner j) (jb_attempt j) cond f db = Inr (r, db')" and ok: "tables_ok db" and j: "job_of p = Some j"
    and cond: "\<And>a. cond a \<Longrightarrow> at_token a = Some (jb_token j) \<and> at_token (f a) = Some (jb_token j) \<and> row_effect p a (f a)"
  shows "db' = db \<or> row_changed db p db'"
  using u
proof (cases rule: update_attempt_InrE)
  case (2 a)
  then have a: "tb_attempts db (jb_attempt j) = Some a" by (auto dest: select_attempt_SomeD)
  have "at_id (f a) = jb_attempt j"
    using tables_okD(1) [OF ok a] guard_lineage(1) [OF 2(5)] by (simp add: attempt_row_ok_def)
  then have "tb_attempts db' = (tb_attempts db)(jb_attempt j \<mapsto> f a)" by (simp add: 2(4) put_attempt_def)
  with a j cond [OF 2(2)] 2(5,6) show ?thesis unfolding row_changed_def by blast
qed simp

lemma changed_run:
  assumes run: "run_tx fl (bindE (update_attempt (jb_owner j) (jb_attempt j) cond f db) (\<lambda>(r, db'). Inr (g r, db'))) db = (res, db')"
    and ok: "tables_ok db" and j: "job_of p = Some j"
    and cond: "\<And>a. cond a \<Longrightarrow> at_token a = Some (jb_token j) \<and> at_token (f a) = Some (jb_token j) \<and> row_effect p a (f a)"
  shows "db' = db \<or> row_changed db p db'"
  using run
proof (cases rule: run_tx_cases)
  case (2 x)
  then obtain r where "update_attempt (jb_owner j) (jb_attempt j) cond f db = Inr (r, db')" by (auto simp: bindE_Inr_iff)
  from changed_update [OF this ok j cond] show ?thesis .
qed simp

lemmas changed_run_dispatch = changed_run [where j = "job_of_dispatch d" for d, simplified jb_job_of_dispatch]

lemma boundary_tx_cases:
  "boundaryTx dp now req j c pa db = Inr (None, db) \<or>
   (\<exists>s. lockRootForDispatch (jb_owner j) (ec_conv c) db = Some s \<and> isRootExecutionEligible s) \<and>
   boundaryTx dp now req j c pa db =
     commitDispatchBoundary_turn (jb_owner j) now (jb_attempt j) (jb_token j) (dp_lease dp) (ec_causal c) req pa db"
  by (auto simp: boundaryTx_def split: option.splits)

lemma gate_tx_cases:
  "gateTx now d db = Inr (False, db) \<or>
   gateTx now d db = commitCredentialProvenance (jb_owner d) now (jb_attempt d) (jb_token d) (ds_credential d) (pl_provider (ds_plan d)) db"
  by (auto simp: gateTx_def split: option.splits)

lemma run_tx_none: "run_tx fl (Inr (x, db)) db = (r, db') \<Longrightarrow> db' = db"
  by (auto simp: run_tx_def split: fault.splits)

definition same_rows :: "turn_db \<Rightarrow> turn_db \<Rightarrow> bool" where
  "same_rows db db' \<longleftrightarrow> tb_attempts db' = tb_attempts db"

lemma advance_effect:
  assumes "advance k dp now p db e p' db'" "tables_ok db" "p \<noteq> Ready"
  shows "same_rows db db' \<or> row_changed db p db'"
  using assms
proof (cases rule: advance.cases)
  case (boundary req j c plan cred stream body parent fl)
  then obtain r where run: "run_tx fl (boundaryTx dp now req j c parent db) db = (r, db')"
    by (cases "run_tx fl (boundaryTx dp now req j c parent db) db") (auto simp: boundaryClaimed_def split: option.splits)
  from boundary_tx_cases [of dp now req j c parent db] have "db' = db \<or> row_changed db p db'"
  proof
    assume "boundaryTx dp now req j c parent db = Inr (None, db)"
    with run show ?thesis by (simp add: run_tx_none)
  next
    assume "(\<exists>s. lockRootForDispatch (jb_owner j) (ec_conv c) db = Some s \<and> isRootExecutionEligible s) \<and> boundaryTx dp now req j c parent db =
     commitDispatchBoundary_turn (jb_owner j) now (jb_attempt j) (jb_token j) (dp_lease dp) (ec_causal c) req parent db"
    with run have "run_tx fl (commitDispatchBoundary_turn (jb_owner j) now (jb_attempt j) (jb_token j) (dp_lease dp) (ec_causal c) req parent db) db = (r, db')"
      by simp
    from changed_run [OF this [unfolded commitDispatchBoundary_turn_def] assms(2)] show ?thesis using boundary by auto
  qed
  then show ?thesis by (auto simp: same_rows_def)
next
  case (gate d fl)
  then obtain r where run: "run_tx fl (gateTx now d db) db = (r, db')"
    by (cases "run_tx fl (gateTx now d db) db") (auto simp: beforeDispatch_def split: option.splits)
  from gate_tx_cases [of now d db] have "db' = db \<or> row_changed db p db'"
  proof
    assume "gateTx now d db = Inr (False, db)"
    with run show ?thesis by (simp add: run_tx_none)
  next
    assume "gateTx now d db = commitCredentialProvenance (jb_owner d) now (jb_attempt d) (jb_token d) (ds_credential d) (pl_provider (ds_plan d)) db"
    with run have "run_tx fl (commitCredentialProvenance (jb_owner d) now (jb_attempt d) (jb_token d) (ds_credential d) (pl_provider (ds_plan d)) db) db = (r, db')"
      by simp
    from changed_run_dispatch [OF this [unfolded commitCredentialProvenance_def] assms(2)] show ?thesis using gate by auto
  qed
  then show ?thesis by (auto simp: same_rows_def)
next
  case (mark d ans fl)
  then obtain r where run: "run_tx fl (markStreaming (jb_owner d) now (jb_attempt d) (jb_token d) db) db = (r, db')"
    by (cases "run_tx fl (markStreaming (jb_owner d) now (jb_attempt d) (jb_token d) db) db") (auto simp: recordResult_def split: option.splits bool.splits)
  from changed_run_dispatch [OF run [unfolded markStreaming_def] assms(2), of p] mark show ?thesis by (auto simp: same_rows_def)
next
  case (restore d fl)
  then obtain r where run: "run_tx fl (restoreDispatchingToAccepted (jb_owner d) now (jb_attempt d) (jb_token d) (dp_lease dp) db) db = (r, db')"
    by (cases "run_tx fl (restoreDispatchingToAccepted (jb_owner d) now (jb_attempt d) (jb_token d) (dp_lease dp) db) db") (auto simp: restoreGate_def split: option.splits)
  from changed_run_dispatch [OF run [unfolded restoreDispatchingToAccepted_def] assms(2), of p] restore show ?thesis by (auto simp: same_rows_def)
next
  case (finalize j c st ec out handler fl)
  then obtain r where "run_tx fl (finalizeTx now j c st ec db) db = (r, db')"
    by (cases "run_tx fl (finalizeTx now j c st ec db) db") (auto simp: finalizeAndWake_def split: option.splits)
  then show ?thesis
  proof (cases rule: run_tx_cases)
    case (2 x)
    from 2(1) show ?thesis
    proof (cases rule: finalizeTx_cases)
      case (1 q db1)
      have "tb_attempts db' = tb_attempts db1" using 1(3) by (simp split: if_splits)
      moreover have "db1 = db \<or> row_changed db p db1"
        by (rule changed_update [OF 1(1) assms(2)]) (simp_all add: finalize)
      ultimately show ?thesis by (auto simp: same_rows_def row_changed_def)
    qed
  qed (simp add: same_rows_def)
next
  case (persist d status body nonce cid fl)
  then have "adds_content db db'"
    by (auto simp: recordBody_def dest: persist_adds split: option.splits prod.splits bool.splits)
  then show ?thesis by (simp add: same_rows_def adds_content_eq)
next
  case (flush d status buf after nonce cid fl)
  then have "adds_content db db'" by (auto simp: flushStream_def dest: persist_adds split: prod.splits)
  then show ?thesis by (simp add: same_rows_def adds_content_eq)
qed (simp_all add: same_rows_def)

section \<open>What has been sent\<close>

text \<open>
  Which verdicts agree with the request having been sent, and what a phase implies about it.
\<close>

definition sent_verdict :: "bool \<Rightarrow> attempt_state \<Rightarrow> attempt_error option \<Rightarrow> bool" where
  "sent_verdict sent st ec \<longleftrightarrow>
     (if sent then st \<noteq> Rejected \<and> ec \<noteq> Some Local_error_class \<and> ec \<noteq> Some Credential_unavailable
      else st = Rejected \<and> ec = None \<or> st = Failed_attempt \<and> (ec = Some Local_error_class \<or> ec = Some Credential_unavailable))"

fun sent_ok :: "bool \<Rightarrow> phase \<Rightarrow> bool" where
  "sent_ok s (At_response d) = s"
| "sent_ok s (At_mark d ans) = s"
| "sent_ok s (At_persist d st b) = s"
| "sent_ok s (At_drain d st b) = s"
| "sent_ok s (At_flush d st b k) = s"
| "sent_ok s (At_evidence d st e) = s"
| "sent_ok s (At_finalize j c st ec out h) = (sent_verdict s st ec \<and>
     (case h of None \<Rightarrow> True | Some (d, started, e) \<Rightarrow> s = started))"
| "sent_ok s Ready = True"
| "sent_ok s (Ended out) = True"
| "sent_ok s p = (\<not> s)"

definition posts :: "turn_effect \<Rightarrow> bool" where
  "posts e = (case e of Post a c b \<Rightarrow> True | _ \<Rightarrow> False)"

lemma posts_simps [simp]: "\<not> posts Silent" "\<not> posts (Drew t)" "posts (Post a c b)" "\<not> posts (Received a b)"
  by (simp_all add: posts_def)

lemma sent_caught: "sent_ok s (caught d rej started e)" if "s = started" "rej \<longrightarrow> \<not> started"
  using that by (cases e) (auto simp: caught_def Let_def sent_verdict_def)

lemma sent_refuse: "\<not> s \<Longrightarrow> sent_ok s (refuse j c out)" "\<not> s \<Longrightarrow> sent_ok s (no_credential j c)"
  by (simp_all add: refuse_def no_credential_def sent_verdict_def)

lemma sent_known: "s \<Longrightarrow> sent_ok s (finalizeKnownResult d status)"
  by (simp add: finalizeKnownResult_def classifyStatus_def sent_verdict_def)

lemma advance_sent:
  assumes "advance k dp now p db e p' db'" "p \<noteq> Ready" "sent_ok s p"
  shows "sent_ok (s \<or> posts e) p'"
  using assms
proof (cases rule: advance.cases)
  case (load j context_ok)
  with assms show ?thesis by (auto simp: loadClaimed_def sent_refuse split: option.split sum.split)
next
  case (build j c plan cred b)
  with assms show ?thesis by (auto simp: buildClaimed_def sent_refuse split: build.split)
next
  case (boundary req j c plan cred stream body parent fl)
  with assms show ?thesis by (auto simp: boundaryClaimed_def split: option.splits prod.splits)
next
  case (govern_refuses d recorded)
  with assms show ?thesis by (auto simp: refused_def sent_verdict_def sent_caught)
next
  case (gate d fl)
  with assms show ?thesis by (auto simp: beforeDispatch_def sent_caught split: option.splits prod.splits if_splits)
next
  case (mark d ans fl)
  with assms show ?thesis by (auto simp: recordResult_def sent_caught split: option.splits prod.splits bool.splits answer.splits)
next
  case (persist d status body nonce cid fl)
  with assms show ?thesis by (auto simp: recordBody_def sent_caught sent_known split: option.splits prod.splits bool.splits)
next
  case (chunk d status buf ch)
  with assms show ?thesis by (auto simp: drainChunk_def Let_def)
next
  case (eof d status buf)
  with assms show ?thesis by (auto simp: drainEnd_def)
next
  case (dies d status buf)
  with assms show ?thesis by (auto simp: drainBreak_def)
next
  case (flush d status buf after nonce cid fl)
  with assms show ?thesis by (auto simp: flushStream_def flushed_def split: prod.splits after_flush.splits option.splits)
next
  case (evidence d status x recorded)
  with assms show ?thesis by (auto simp: streamEvidence_def sent_caught sent_known split: ending.splits)
next
  case (restore d fl)
  with assms show ?thesis by (auto simp: restoreGate_def split: option.splits prod.splits)
next
  case (finalize j c st ec out handler fl)
  with assms show ?thesis by (auto simp: finalizeAndWake_def sent_caught split: option.splits prod.splits)
qed (auto simp: sent_caught)

text \<open>What the row of an attempt tells about its request.\<close>

definition row_sent :: "bool \<Rightarrow> attempt \<Rightarrow> bool" where
  "row_sent s a \<longleftrightarrow>
     (if s then at_credential a \<noteq> None \<and> at_state a \<noteq> Rejected \<and> at_error a \<noteq> Some Local_error_class \<and>
         at_error a \<noteq> Some Credential_unavailable
      else at_state a \<noteq> Streaming \<and> at_state a \<noteq> Completed_attempt \<and>
         (at_error a = None \<or> at_error a = Some Local_error_class \<or> at_error a = Some Credential_unavailable))"

lemma birth_sent: "birth_guard a \<Longrightarrow> row_sent False a"
  by (simp add: birth_guard_def row_sent_def)

lemma attempt_checks_accepted: "attempt_checks a \<Longrightarrow> at_state a = Accepted \<Longrightarrow> at_credential a = None"
  by (auto simp: attempt_checks_def split: if_splits)

lemma attempt_checks_error: "attempt_checks a \<Longrightarrow> at_state a \<noteq> Failed_attempt \<Longrightarrow> at_error a = None"
  by (simp add: attempt_checks_def)

text \<open>A move without a token, and a move of a row that is bound to a credential.\<close>

lemma sent_move_None:
  assumes "row_move used db None a a'" "row_sent s a"
  shows "row_sent s a'"
  using assms by (cases rule: row_move.cases) (auto simp: row_sent_def lease_def split: if_splits)

lemma move_of_bound:
  assumes "row_move used db actor a a'" "attempt_checks a" "at_credential a \<noteq> None" "at_token a = Some tok" "actor \<noteq> Some tok"
  shows "at_token a' = Some tok \<and> (at_state a' = at_state a \<or> at_state a' = Unknown)"
  using assms attempt_checks_accepted [of a] by (cases rule: row_move.cases) (auto simp: lease_def)

lemma sent_effect:
  assumes "row_effect p a a'" "row_sent s a" "attempt_checks a" "non_terminal (at_state a) \<Longrightarrow> sent_ok s p"
  shows "row_sent s a'"
  using assms attempt_checks_accepted [of a]
  by (cases p) (auto simp: row_sent_def sent_verdict_def non_terminal_def split: if_splits)

section \<open>The invariant of the system\<close>

definition sent_to :: "(string \<times> string \<times> bytes) list \<Rightarrow> string \<Rightarrow> bool" where
  "sent_to calls x \<longleftrightarrow> x \<in> fst ` set calls"

text \<open>What a worker that may still act on its row implies about its request.\<close>

definition watched :: "(string \<times> string \<times> bytes) list \<Rightarrow> turn_db \<Rightarrow> phase \<Rightarrow> bool" where
  "watched calls db p \<longleftrightarrow> (\<forall>j a. job_of p = Some j \<and> tb_attempts db (jb_attempt j) = Some a \<longrightarrow>
     (at_token a = Some (jb_token j) \<and> (non_terminal (at_state a) \<or> past_gate p \<noteq> None) \<longrightarrow>
        sent_ok (sent_to calls (jb_attempt j)) p) \<and>
     (past_gate p \<noteq> None \<longrightarrow> at_token a = Some (jb_token j)) \<and>
     (past_gate p \<noteq> None \<and> \<not> sent_ok True p \<longrightarrow> at_state a = Dispatching \<or> at_state a = Unknown))"

definition rows_sent :: "(string \<times> string \<times> bytes) list \<Rightarrow> turn_db \<Rightarrow> bool" where
  "rows_sent calls db \<longleftrightarrow> (\<forall>x a. tb_attempts db x = Some a \<longrightarrow> row_sent (sent_to calls x) a)"

definition calls_bound :: "(string \<times> string \<times> bytes) list \<Rightarrow> turn_db \<Rightarrow> bool" where
  "calls_bound calls db \<longleftrightarrow> distinct (map fst calls) \<and>
     (\<forall>x c b. (x, c, b) \<in> set calls \<longrightarrow> (\<exists>a. tb_attempts db x = Some a \<and> at_credential a = Some c))"

definition jobs_apart :: "(nat \<Rightarrow> phase) \<Rightarrow> bool" where
  "jobs_apart ws \<longleftrightarrow> (\<forall>i k j j'. job_of (ws i) = Some j \<and> job_of (ws k) = Some j' \<and> jb_token j = jb_token j' \<longrightarrow> i = k)"

definition world_ok :: "world \<Rightarrow> bool" where
  "world_ok w \<longleftrightarrow> tables_ok (w_db w) \<and> (\<forall>i. row_known (w_tokens w) (w_db w) (w_workers w i)) \<and> jobs_apart (w_workers w) \<and>
     (\<forall>i. watched (w_calls w) (w_db w) (w_workers w i)) \<and> rows_sent (w_calls w) (w_db w) \<and> calls_bound (w_calls w) (w_db w)"

lemma watchedD:
  assumes "watched calls db p" "job_of p = Some j" "tb_attempts db (jb_attempt j) = Some a"
  shows "at_token a = Some (jb_token j) \<Longrightarrow> non_terminal (at_state a) \<Longrightarrow> sent_ok (sent_to calls (jb_attempt j)) p"
    and "past_gate p = Some d \<Longrightarrow> sent_ok (sent_to calls (jb_attempt j)) p \<and> at_token a = Some (jb_token j)"
    and "past_gate p = Some d \<Longrightarrow> \<not> sent_ok True p \<Longrightarrow> at_state a = Dispatching \<or> at_state a = Unknown"
  using assms unfolding watched_def by blast+

lemma watched_Ended [simp]: "watched calls db (Ended out)" "watched calls db Ready"
  by (simp_all add: watched_def)

lemma tables_checks: "tables_ok db \<Longrightarrow> tb_attempts db x = Some a \<Longrightarrow> attempt_checks a"
  by (auto dest: tables_okD(1) simp: attempt_row_ok_def)

lemma plane_rows: "plane_step used actor db db' \<Longrightarrow> rows_step used actor db db'"
  by (simp add: plane_step_def)

lemma sent_ok_iff: "past_gate p = Some d \<Longrightarrow> sent_ok s p = (s = sent_ok True p)"
  by (cases p) auto

lemma watched_other:
  assumes w: "watched calls db p" and h: "row_known used db p" and ok: "tables_ok db" and st: "plane_step used actor db db'"
    and other: "\<And>j. job_of p = Some j \<Longrightarrow> actor \<noteq> Some (jb_token j)"
  shows "watched calls db' p"
proof (cases "job_of p")
  case (Some j)
  from h Some obtain a where a: "tb_attempts db (jb_attempt j) = Some a" "jb_token j \<in> set used"
    and pg: "case past_gate p of None \<Rightarrow> True | Some d \<Rightarrow> at_credential a = Some (ds_credential d)"
    by (rule holdsE)
  from rows_step_row [OF ok plane_rows [OF st] a(1)] obtain a' where a': "tb_attempts db' (jb_attempt j) = Some a'"
    and mv: "a' = a \<or> row_move used db actor a a'" by blast
  note wd = watchedD [OF w Some a(1)]
  have tok: "at_token a' = Some (jb_token j)" and state: "at_state a' = at_state a \<or> at_state a' = Unknown"
    if "past_gate p = Some d" for d
    using mv move_of_bound [OF _ tables_checks [OF ok a(1)], of used db actor a' "jb_token j"] other [OF Some] wd(2) [OF that] pg that
    by auto
  have nt: "at_token a = Some (jb_token j) \<and> non_terminal (at_state a)"
    if "at_token a' = Some (jb_token j)" "non_terminal (at_state a')"
    using mv move_by_other [OF _ a(2) other [OF Some] that] that by auto
  show ?thesis
  proof (cases "past_gate p")
    case None
    then show ?thesis using Some a' wd(1) nt by (auto simp: watched_def)
  next
    case (Some d)
    then show ?thesis using \<open>job_of p = Some j\<close> a' wd(2,3) tok state by (auto simp: watched_def)
  qed
qed (simp add: watched_def)

lemma rows_sent_plane:
  assumes r: "rows_sent calls db" and ok: "tables_ok db" and st: "plane_step used None db db'"
  shows "rows_sent calls db'"
  unfolding rows_sent_def
proof (intro allI impI)
  fix x a' assume a': "tb_attempts db' x = Some a'"
  from rows_step_new [OF ok plane_rows [OF st] a'] obtain a where "tb_attempts db x = Some a"
    "a' = a \<or> row_move used db None a a'" by blast
  with r sent_move_None [of used db a a'] show "row_sent (sent_to calls x) a'" by (auto simp: rows_sent_def)
qed

lemma calls_ok_plane:
  assumes c: "calls_bound calls db" and ok: "tables_ok db" and st: "plane_step used actor db db'"
  shows "calls_bound calls db'"
  unfolding calls_bound_def
proof (intro conjI allI impI)
  show "distinct (map fst calls)" using c by (simp add: calls_bound_def)
  fix x cr b assume "(x, cr, b) \<in> set calls"
  with c obtain a where a: "tb_attempts db x = Some a" "at_credential a = Some cr" unfolding calls_bound_def by blast
  from rows_step_row [OF ok plane_rows [OF st] a(1)] obtain a' where "tb_attempts db' x = Some a'"
    "a' = a \<or> guarded_update a a' = None" by blast
  with a guard_credential [of a a'] show "\<exists>a. tb_attempts db' x = Some a \<and> at_credential a = Some cr" by auto
qed

lemma world_okD:
  assumes "world_ok w"
  shows "tables_ok (w_db w)" "row_known (w_tokens w) (w_db w) (w_workers w i)" "jobs_apart (w_workers w)"
    "watched (w_calls w) (w_db w) (w_workers w i)" "rows_sent (w_calls w) (w_db w)" "calls_bound (w_calls w) (w_db w)"
  using assms by (simp_all add: world_ok_def)

lemma world_plane:
  assumes w: "world_ok w" and st: "plane_step (w_tokens w) None (w_db w) db'"
  shows "world_ok (w\<lparr> w_db := db' \<rparr>)"
proof -
  note ok = world_okD(1) [OF w]
  have "row_known (w_tokens w) db' (w_workers w i)" for i
    using world_okD(2) [OF w] ok st by (rule holds_stable) simp
  moreover have "watched (w_calls w) db' (w_workers w i)" for i
    using world_okD(4) [OF w] world_okD(2) [OF w] ok st by (rule watched_other) simp
  ultimately show ?thesis
    using world_okD [OF w] plane_tables [OF ok st] rows_sent_plane [OF world_okD(5) [OF w] ok st]
      calls_ok_plane [OF world_okD(6) [OF w] ok st]
    by (simp add: world_ok_def)
qed

lemma world_grown:
  assumes w: "world_ok w" and ok: "tables_ok db'" and grow: "\<And>x a. tb_attempts (w_db w) x = Some a \<Longrightarrow> tb_attempts db' x = Some a"
    and new: "\<And>x a. tb_attempts (w_db w) x = None \<Longrightarrow> tb_attempts db' x = Some a \<Longrightarrow> birth_guard a"
  shows "world_ok (w\<lparr> w_db := db' \<rparr>)"
proof -
  have h: "row_known (w_tokens w) db' (w_workers w i)" for i
    using world_okD(2) [OF w] grow by (rule holds_mono)
  have wd: "watched (w_calls w) db' (w_workers w i)" for i
  proof (cases "job_of (w_workers w i)")
    case (Some j)
    with world_okD(2) [OF w, of i] obtain a where "tb_attempts (w_db w) (jb_attempt j) = Some a" by (rule holdsE)
    with world_okD(4) [OF w, of i] Some grow [of "jb_attempt j" a] show ?thesis by (simp add: watched_def)
  qed (simp add: watched_def)
  have calls: "calls_bound (w_calls w) db'"
    using world_okD(6) [OF w] grow unfolding calls_bound_def by blast
  have "row_sent (sent_to (w_calls w) x) a" if a: "tb_attempts db' x = Some a" for x a
  proof (cases "tb_attempts (w_db w) x")
    case None
    have "\<not> sent_to (w_calls w) x"
    proof
      assume "sent_to (w_calls w) x"
      then obtain c b where "(x, c, b) \<in> set (w_calls w)" by (force simp: sent_to_def)
      with world_okD(6) [OF w] None show False unfolding calls_bound_def by fastforce
    qed
    with birth_sent [OF new [OF None a]] show ?thesis by simp
  next
    case (Some b)
    with grow [OF Some] a world_okD(5) [OF w] show ?thesis by (simp add: rows_sent_def)
  qed
  with h wd calls ok world_okD(3) [OF w] show ?thesis by (simp add: world_ok_def rows_sent_def)
qed

subsection \<open>A step of a worker keeps the invariant\<close>

lemma worker_rows:
  assumes adv: "advance k dp now p db e p' db'" and ok: "tables_ok db" and st: "plane_step used (map_option jb_token (job_of p)) db db'"
    and r: "rows_sent calls db" and wd: "watched calls db p"
  shows "rows_sent calls db'"
proof (cases "p = Ready")
  case True
  with r ok st show ?thesis by (auto intro: rows_sent_plane)
next
  case False
  from advance_effect [OF adv ok False] show ?thesis
  proof
    assume "row_changed db p db'"
    then obtain j a a' where m: "job_of p = Some j" "tb_attempts db (jb_attempt j) = Some a" "at_token a = Some (jb_token j)"
      "row_effect p a a'" "tb_attempts db' = (tb_attempts db)(jb_attempt j \<mapsto> a')" unfolding row_changed_def by blast
    have "row_sent (sent_to calls (jb_attempt j)) a'"
      using m(4) _ tables_checks [OF ok m(2)] watchedD(1) [OF wd m(1,2,3)]
      by (rule sent_effect) (use r m(2) in \<open>simp add: rows_sent_def\<close>)
    with r m(5) show ?thesis by (simp add: rows_sent_def)
  qed (use r in \<open>simp add: same_rows_def rows_sent_def\<close>)
qed

lemma gate_forward_phase:
  "beforeDispatch now d fl db = (p', db') \<Longrightarrow> past_gate p' = Some d' \<Longrightarrow> p' = At_forward d \<and> d' = d"
  by (auto simp: beforeDispatch_def split: option.splits prod.splits if_splits)

lemma gate_forward:
  assumes step: "beforeDispatch now d fl db = (p', db')" and pg: "past_gate p' = Some d'" and ok: "tables_ok db"
  shows "\<exists>b a. tb_attempts db (jb_attempt d) = Some b \<and> at_token b = Some (jb_token d) \<and> at_state b = Dispatching \<and>
    at_credential b = None \<and> tb_attempts db' (jb_attempt d) = Some a \<and> at_token a = Some (jb_token d) \<and> at_state a = Dispatching"
proof -
  have run: "run_tx fl (gateTx now d db) db = (Some True, db')"
    using step pg by (auto simp: beforeDispatch_def split: option.splits prod.splits if_splits)
  have "gateTx now d db = Inr (True, db')"
    using run by (rule run_tx_cases) auto
  with gate_tx_cases [of now d db]
  have "commitCredentialProvenance (jb_owner d) now (jb_attempt d) (jb_token d) (ds_credential d) (pl_provider (ds_plan d)) db = Inr (True, db')"
    by auto
  then obtain r where u: "update_attempt (jb_owner d) (jb_attempt d)
        (\<lambda>a. at_state a = Dispatching \<and> at_token a = Some (jb_token d) \<and> live now a \<and> at_credential a = None \<and>
             list_ex (\<lambda>r. cr_id r = ds_credential d \<and> cr_org r = at_org a \<and> cr_provider r = pl_provider (ds_plan d) \<and>
               cr_status r = ''active'') (tb_creds db))
        (\<lambda>a. a\<lparr> at_credential := Some (ds_credential d), at_updated := now \<rparr>) db = Inr (r, db')" and r: "r \<noteq> None"
    by (auto simp: commitCredentialProvenance_def bindE_Inr_iff)
  from u show ?thesis
  proof (cases rule: update_attempt_InrE)
    case (2 a)
    then have a: "tb_attempts db (jb_attempt d) = Some a" by (auto dest: select_attempt_SomeD)
    then have "at_id a = jb_attempt d" using tables_okD(1) [OF ok] by (simp add: attempt_row_ok_def)
    with 2 a show ?thesis
      by (intro exI [of _ a] exI [of _ "a\<lparr> at_credential := Some (ds_credential d), at_updated := now \<rparr>"])
         (simp add: put_attempt_def)
  qed (use r in simp)
qed

text \<open>Which phases are past the gate after a step.\<close>

lemma past_gate_step:
  assumes "advance k dp now p db e p' db'" "past_gate p' = Some d"
  shows "past_gate p = Some d \<and> (sent_ok True p \<longrightarrow> sent_ok True p') \<and> db' = db \<or> past_gate p = Some d \<and> sent_ok True p \<and> sent_ok True p' \<or>
    p = At_gate d \<and> p' = At_forward d \<and> (\<exists>fl. beforeDispatch now d fl db = (p', db'))"
  using assms
proof (cases rule: advance.cases)
  case (take_up tok c fl)
  with assms(2) show ?thesis by (auto simp: processCandidate_def split: option.splits prod.splits armed.splits)
next
  case (load j context_ok)
  with assms(2) show ?thesis
    by (auto simp: loadClaimed_def refuse_def no_credential_def split: option.splits sum.splits if_splits)
next
  case (build j c plan cred b)
  with assms(2) show ?thesis by (auto simp: buildClaimed_def refuse_def no_credential_def split: build.splits)
next
  case (boundary req j c plan cred stream body parent fl)
  with assms(2) show ?thesis by (auto simp: boundaryClaimed_def split: option.splits prod.splits)
next
  case (gate d' fl)
  with gate_forward_phase [of now d' fl db p' db' d] assms(2) show ?thesis by auto
qed (use assms(2) in \<open>auto simp: refused_def recordResult_def recordBody_def finalizeKnownResult_def drainChunk_def drainEnd_def
   drainBreak_def Let_def flushStream_def flushed_def streamEvidence_def restoreGate_def finalizeAndWake_def classifyStatus_def
   split: option.splits prod.splits bool.splits if_splits answer.splits after_flush.splits ending.splits\<close>)

definition called :: "turn_effect \<Rightarrow> (string \<times> string \<times> bytes) list \<Rightarrow> (string \<times> string \<times> bytes) list" where
  "called e calls = (case e of Post a c b \<Rightarrow> calls @ [(a, c, b)] | _ \<Rightarrow> calls)"

lemma called_simps [simp]:
  "called Silent calls = calls" "called (Drew t) calls = calls" "called (Received a b) calls = calls"
  "called (Post a c b) calls = calls @ [(a, c, b)]"
  by (simp_all add: called_def)

lemma effected_sel [simp]:
  "w_db (effected e w) = w_db w" "w_workers (effected e w) = w_workers w" "w_now (effected e w) = w_now w"
  "w_tokens (effected e w) = drawn e (w_tokens w)" "w_calls (effected e w) = called e (w_calls w)"
  by (simp_all add: effected_def drawn_def called_def split: turn_effect.split)

lemma sent_to_snoc [simp]: "sent_to (calls @ [(x, c, b)]) y = (sent_to calls y \<or> y = x)"
  by (auto simp: sent_to_def)

lemma posts_forward: "advance k dp now p db (Post x c b) p' db' \<Longrightarrow>
    \<exists>d. p = At_forward d \<and> p' = At_response d \<and> db' = db \<and> x = jb_attempt d \<and> c = ds_credential d \<and> b = ds_body d"
  by (cases rule: advance.cases) auto

lemma take_up_phase: "processCandidate dp now tok c fl db = (p, db') \<Longrightarrow> (\<exists>j. p = At_load j) \<or> (\<exists>out. p = Ended out)"
  by (auto simp: processCandidate_def split: option.splits prod.splits armed.splits)

lemma draws_ready: "advance k dp now p db (Drew tok) p' db' \<Longrightarrow> p = Ready \<and> ((\<exists>j. p' = At_load j) \<or> (\<exists>out. p' = Ended out))"
  by (cases rule: advance.cases) (auto dest: take_up_phase)

lemma watched_load:
  assumes h: "row_known used db (At_load j)" and r: "rows_sent calls db" and ok: "tables_ok db"
  shows "watched calls db (At_load j)"
proof -
  have "\<not> sent_to calls (jb_attempt j)"
    if "tb_attempts db (jb_attempt j) = Some a" "at_token a = Some (jb_token j)" "non_terminal (at_state a)" for a
  proof -
    have "at_state a = Accepted" using h that by (simp add: row_known_def)
    with tables_checks [OF ok that(1)] have "at_credential a = None" by (simp add: attempt_checks_accepted)
    moreover have "row_sent (sent_to calls (jb_attempt j)) a" using r that(1) by (simp add: rows_sent_def)
    ultimately show ?thesis by (auto simp: row_sent_def split: if_splits)
  qed
  then show ?thesis by (auto simp: watched_def)
qed

lemma watched_own:
  assumes adv: "advance k dp now p db e p' db'" and ok: "tables_ok db" and wd: "watched calls db p" and h: "row_known used db p"
    and job: "job_of p = Some j" "job_of p' = Some j"
  shows "watched (called e calls) db' p'"
proof -
  from h job(1) obtain a where a: "tb_attempts db (jb_attempt j) = Some a" by (rule holdsE)
  have ne: "p \<noteq> Ready" using job(1) by auto
  have row: "\<exists>a'. tb_attempts db' (jb_attempt j) = Some a' \<and> (a' = a \<or> guarded_update a a' = None \<and>
      at_token a = Some (jb_token j) \<and> at_token a' = Some (jb_token j))"
    using advance_effect [OF adv ok ne]
  proof
    assume "row_changed db p db'"
    then show ?thesis unfolding row_changed_def using job(1) a by auto
  qed (use a in \<open>simp add: same_rows_def\<close>)
  then obtain a' where a': "tb_attempts db' (jb_attempt j) = Some a'"
    and mv: "a' = a \<or> guarded_update a a' = None \<and> at_token a = Some (jb_token j) \<and> at_token a' = Some (jb_token j)" by blast
  have sent: "sent_to (called e calls) (jb_attempt j) = (sent_to calls (jb_attempt j) \<or> posts e)"
    using posts_forward job(1) adv by (cases e) (auto dest!: posts_forward)
  have gated: "past_gate p = Some d \<and> (\<not> sent_ok True p' \<longrightarrow> \<not> sent_ok True p \<and> db' = db) \<or>
      at_token a = Some (jb_token j) \<and> at_state a = Dispatching \<and> at_token a' = Some (jb_token j) \<and> at_state a' = Dispatching"
    if "past_gate p' = Some d" for d
    using past_gate_step [OF adv that]
  proof (elim disjE conjE exE)
    fix fl assume g: "p = At_gate d" "beforeDispatch now d fl db = (p', db')"
    with gate_forward [OF g(2) that ok] a a' job(1) show ?thesis by auto
  qed auto
  note wd' = watchedD [OF wd job(1) a]
  have tok: "at_token a' = Some (jb_token j)" if "past_gate p' = Some d" for d
    using gated [OF that] wd'(2) [of d] mv by auto
  have sok: "sent_ok (sent_to calls (jb_attempt j) \<or> posts e) p'"
    if cur: "at_token a' = Some (jb_token j)" "non_terminal (at_state a') \<or> past_gate p' \<noteq> None"
  proof -
    have ca: "at_token a = Some (jb_token j)" using mv cur(1) by auto
    have "non_terminal (at_state a) \<or> past_gate p \<noteq> None"
    proof (cases "past_gate p'")
      case None
      with cur(2) mv guard_terminal [of a a'] show ?thesis by auto
    next
      case (Some d)
      with gated [OF Some] show ?thesis by (auto simp: non_terminal_def)
    qed
    with wd'(1,2) ca have "sent_ok (sent_to calls (jb_attempt j)) p" by (cases "past_gate p") auto
    with adv ne show ?thesis by (rule advance_sent)
  qed
  have st: "at_state a' = Dispatching \<or> at_state a' = Unknown" if "past_gate p' = Some d" "\<not> sent_ok True p'" for d
    using gated [OF that(1)] that wd'(3) [of d] a a' by auto
  show ?thesis
    using job(2) a' tok sok st sent by (cases "past_gate p'") (simp_all add: watched_def)
qed

lemma watched_called:
  assumes "watched calls db q" and "\<And>j a x c b. job_of q = Some j \<Longrightarrow> tb_attempts db (jb_attempt j) = Some a \<Longrightarrow>
      at_token a = Some (jb_token j) \<Longrightarrow> e = Post x c b \<Longrightarrow> jb_attempt j \<noteq> x"
  shows "watched (called e calls) db q"
proof (cases e)
  case (Post x c b)
  have "sent_to (called e calls) (jb_attempt j) = sent_to calls (jb_attempt j)"
    if "job_of q = Some j" "tb_attempts db (jb_attempt j) = Some a" "at_token a = Some (jb_token j)" for j a
    using assms(2) [OF that Post] Post by simp
  note same = this
  show ?thesis
    unfolding watched_def
  proof (intro allI impI)
    fix j a assume ja: "job_of q = Some j \<and> tb_attempts db (jb_attempt j) = Some a"
    note w = assms(1) [unfolded watched_def, THEN spec, THEN spec, THEN mp, OF ja]
    show "(at_token a = Some (jb_token j) \<and> (non_terminal (at_state a) \<or> past_gate q \<noteq> None) \<longrightarrow>
        sent_ok (sent_to (called e calls) (jb_attempt j)) q) \<and>
      (past_gate q \<noteq> None \<longrightarrow> at_token a = Some (jb_token j)) \<and>
      (past_gate q \<noteq> None \<and> \<not> sent_ok True q \<longrightarrow> at_state a = Dispatching \<or> at_state a = Unknown)"
      using w same [of j a] ja by (cases "at_token a = Some (jb_token j)") simp_all
  qed
qed (use assms(1) in simp_all)

lemma world_worker:
  assumes w: "world_ok w" and adv: "advance k dp (w_now w) (w_workers w i) (w_db w) e p' db'" and fr: "fresh_effect e w"
  shows "world_ok (effected e (w\<lparr> w_db := db', w_workers := (w_workers w)(i := p') \<rparr>))"
proof -
  let ?p = "w_workers w i" and ?used = "w_tokens w" and ?db = "w_db w"
  note ok = world_okD(1) [OF w] and h = world_okD(2) [OF w] and wd = world_okD(4) [OF w]
  have "phase_step ?used ?db ?p e db' p'" using adv h ok fr refl by (rule advance_worker)
  then have pl: "plane_step ?used (map_option jb_token (job_of ?p)) ?db db'" and h': "row_known (drawn e ?used) db' p'"
    and job: "takes_up e p' \<or> drawn e ?used = ?used \<and> same_job ?p p'" by (auto simp: phase_step_def)
  have token_used: "jb_token j \<in> set ?used" if "job_of (w_workers w k) = Some j" for k j
    using h [of k] that by (rule holdsE)
  have jobs_apart: "k = l" if "job_of (w_workers w k) = Some j" "job_of (w_workers w l) = Some j'" "jb_token j = jb_token j'" for k l j j'
    using world_okD(3) [OF w] that unfolding jobs_apart_def by blast
  have other: "map_option jb_token (job_of ?p) \<noteq> Some (jb_token j)" if "k \<noteq> i" "job_of (w_workers w k) = Some j" for k j
    using jobs_apart [OF that(2), of i] that(1) by auto
  have used: "set ?used \<subseteq> set (drawn e ?used)" by (cases e) auto
  have drawn: "jb_token j' \<notin> set ?used" if "takes_up e p'" "job_of p' = Some j'" for j'
    using that fr by (cases e) (auto simp: takes_up_def fresh_effect_def)
  have jobs: "job_of p' = None \<or> (\<exists>j. job_of p' = Some j \<and> jb_token j \<notin> set ?used) \<or> job_of p' = job_of ?p"
    using job drawn by (cases "job_of p'") (auto simp: same_job_def)
  have cross: False if "l \<noteq> i" "job_of p' = Some j" "job_of (w_workers w l) = Some j'" "jb_token j = jb_token j'" for l j j'
  proof -
    from jobs that(2) consider "jb_token j \<notin> set ?used" | "job_of ?p = Some j" by auto
    then show False
    proof cases
      case 1
      with token_used [OF that(3)] that(4) show False by simp
    next
      case 2
      from jobs_apart [OF 2 that(3,4)] that(1) show False by simp
    qed
  qed
  have ap: "jobs_apart ((w_workers w)(i := p'))"
    unfolding jobs_apart_def
  proof (intro allI impI)
    fix k l j j' assume a: "job_of (((w_workers w)(i := p')) k) = Some j \<and> job_of (((w_workers w)(i := p')) l) = Some j' \<and> jb_token j = jb_token j'"
    show "k = l"
    proof (cases "k = i")
      case True
      with a cross [of l j j'] show ?thesis by (cases "l = i") auto
    next
      case False
      with a cross [of k j' j] jobs_apart [of k j l j'] show ?thesis by (cases "l = i") auto
    qed
  qed
  have hold: "row_known (drawn e ?used) db' (((w_workers w)(i := p')) k)" for k
  proof (cases "k = i")
    case False
    have "row_known ?used db' (w_workers w k)" using h ok pl other [OF False] by (rule holds_stable)
    with used False show ?thesis by (auto intro: holds_used)
  qed (use h' in simp)
  have rows: "rows_sent (w_calls w) db'"
    using adv ok pl world_okD(5) [OF w] wd by (rule worker_rows)
  have calls: "calls_bound (w_calls w) db'" using world_okD(6) [OF w] ok pl by (rule calls_ok_plane)
  have posted: "\<exists>d a. ?p = At_forward d \<and> p' = At_response d \<and> db' = ?db \<and> x = jb_attempt d \<and> c = ds_credential d \<and>
      tb_attempts ?db x = Some a \<and> at_token a = Some (jb_token d) \<and> at_credential a = Some c \<and> \<not> sent_to (w_calls w) x \<and>
      (at_state a = Dispatching \<or> at_state a = Unknown)" if e: "e = Post x c b" for x c b
  proof -
    from posts_forward [OF adv [unfolded e]] obtain d where d: "?p = At_forward d" "p' = At_response d" "db' = ?db" "x = jb_attempt d" "c = ds_credential d" by blast
    with h [of i] obtain a where a: "tb_attempts ?db x = Some a" "at_credential a = Some c" by (auto simp: row_known_def)
    from watchedD(2,3) [OF wd [of i], of "job_of_dispatch d" a d] d a show ?thesis by auto
  qed
  have watch: "watched (called e (w_calls w)) db' (((w_workers w)(i := p')) q)" for q
  proof (cases "q = i")
    case True
    show ?thesis
    proof (cases "job_of p'")
      case None
      then show ?thesis using True by (simp add: watched_def)
    next
      case (Some j)
      show ?thesis
      proof (cases "takes_up e p'")
        case True
        then obtain tok where e: "e = Drew tok" by (cases e) (auto simp: takes_up_def)
        with draws_ready adv Some have "\<exists>j. p' = At_load j" by force
        with watched_load [of _ db' _ "w_calls w"] h' rows plane_tables [OF ok pl] \<open>q = i\<close> e show ?thesis by auto
      next
        case False
        with job Some have "job_of ?p = Some j" by (simp add: same_job_def)
        from watched_own [OF adv ok wd h this Some] True show ?thesis by simp
      qed
    qed
  next
    case False
    have "watched (w_calls w) db' (w_workers w q)" using wd h ok pl other [OF False] by (rule watched_other)
    moreover have "jb_attempt j \<noteq> x"
      if "job_of (w_workers w q) = Some j" "tb_attempts db' (jb_attempt j) = Some a" "at_token a = Some (jb_token j)" "e = Post x c b" for j a x c b
      using posted [OF that(4)] that(1,2,3) jobs_apart [of q j i] False by auto
    ultimately have "watched (called e (w_calls w)) db' (w_workers w q)" by (rule watched_called)
    with False show ?thesis by simp
  qed
  have rows': "rows_sent (called e (w_calls w)) db'"
  proof (cases e)
    case (Post x c b)
    from posted [OF Post] obtain a where a: "tb_attempts db' x = Some a" "at_credential a = Some c" "at_state a = Dispatching \<or> at_state a = Unknown"
      by auto
    have "at_error a = None" using attempt_checks_error [OF tables_checks [OF plane_tables [OF ok pl] a(1)]] a(3) by auto
    with a have new: "row_sent True a" by (auto simp: row_sent_def)
    have "row_sent (sent_to (called e (w_calls w)) y) b" if "tb_attempts db' y = Some b" for y b
      using that rows a(1) new by (cases "y = x") (simp_all add: Post rows_sent_def)
    then show ?thesis by (simp add: rows_sent_def)
  qed (use rows in simp_all)
  have calls': "calls_bound (called e (w_calls w)) db'"
  proof (cases e)
    case (Post x c b)
    from posted [OF this] calls show ?thesis by (auto simp: Post calls_bound_def sent_to_def)
  qed (use calls in simp_all)
  show ?thesis
    using plane_tables [OF ok pl] hold ap watch rows' calls' by (simp add: world_ok_def)
qed

section \<open>Every reachable state is in order\<close>

lemma world_reserve:
  assumes w: "world_ok w" and r: "reserved_step (w_db w) db'"
  shows "world_ok (w\<lparr> w_db := db' \<rparr>)"
  using w
proof (rule world_grown)
  show "tables_ok db'" using r world_okD(1) [OF w] by (rule reserved_tables)
next
  fix x a assume "tb_attempts (w_db w) x = Some a"
  with r show "tb_attempts db' x = Some a" by (rule reserved_row)
next
  fix x a assume "tb_attempts (w_db w) x = None" "tb_attempts db' x = Some a"
  with r show "birth_guard a" by (auto simp: reserved_step_def split: if_splits)
qed

lemma world_step:
  assumes w: "world_ok w" and st: "turn_step k dp w w'"
  shows "world_ok w'"
  using st
proof (cases rule: turn_step.cases)
  case (worker i e p db')
  with w show ?thesis by (auto intro: world_worker)
next
  case (beat ow aid tok h db')
  then show ?thesis by (auto intro: world_plane [OF w] beat_plane)
next
  case (reserve ow env cid inp config tid db')
  from world_reserve [OF w reserve_reserved [OF reserve(2) world_okD(1) [OF w]]] reserve(1) show ?thesis by simp
next
  case (stop ow aid r db')
  then show ?thesis by (auto intro: world_plane [OF w] stop_plane)
next
  case (rotate_credentials cs)
  then show ?thesis
    by (auto intro!: world_grown [OF w] creds_tables [OF world_okD(1) [OF w]])
next
  case (set_status cid c st)
  then show ?thesis
    by (auto intro!: world_grown [OF w] status_tables [OF world_okD(1) [OF w]])
next
  case (tick t)
  with w show ?thesis by (simp add: world_ok_def)
qed

lemma world_initial: "initial w \<Longrightarrow> world_ok w"
  by (auto simp: initial_def world_ok_def tables_ok_def jobs_apart_def rows_sent_def calls_bound_def)

interpretation turns: kept_invariant initial "turn_step k dp" world_ok for k dp
  by unfold_locales (auto intro: world_initial world_step)

end
