(* ===== verification/Turn_Run.thy ===== *)
theory Turn_Run
  imports Turn_World
begin

text \<open>
  A sample run of the execution kernel: one reservation, one worker, a whole answer. It shows that
  the claims of the next theories apply to a run that sends a request and completes.
\<close>

definition demo_deps :: deps where
  "demo_deps = \<lparr> dp_claimant = ''w'', dp_lease = 60000, dp_grace = 5000, dp_flush = 2 \<rparr>"

definition demo_candidate :: turn_candidate where
  "demo_candidate = \<lparr> cd_owner = demo_owner, cd_conv = ''c'', cd_attempt = ''a1'', cd_reason = Queued_head, cd_token = None \<rparr>"

definition demo_config :: "envelope \<times> bytes" where
  "demo_config = (demo_key [3], replicate 32 0)"

text \<open>The next step of worker 0 when nothing fails.\<close>

definition smooth :: "world \<Rightarrow> turn_effect \<times> phase \<times> turn_db" where
  "smooth w = (let db = w_db w; now = w_now w in case w_workers w 0 of
     Ready \<Rightarrow> (Drew ''k'', processCandidate demo_deps now ''k'' demo_candidate Tx_ok db)
   | At_load j \<Rightarrow> (Silent, loadClaimed j True db, db)
   | At_build j c pl cr \<Rightarrow> (Silent, buildClaimed j c pl cr (Built False [5] None), db)
   | At_boundary j c pl cr st b pa \<Rightarrow> (Silent, boundaryClaimed demo_deps now ''q'' j c pl cr st b pa Tx_ok db)
   | At_gate d \<Rightarrow> (Silent, beforeDispatch now d Tx_ok db)
   | At_forward d \<Rightarrow> (Post (jb_attempt d) (ds_credential d) (ds_body d), At_response d, db)
   | At_response d \<Rightarrow> (Received (jb_attempt d) [7, 8], At_mark d (Whole 200 [7, 8]), db)
   | At_mark d ans \<Rightarrow> (Silent, recordResult now d ans Tx_ok db)
   | At_persist d st b \<Rightarrow> (Silent, recordBody demo_kms d st b 1 ''n2'' Tx_ok db)
   | At_drain d st buf \<Rightarrow> (Silent, drainEnd d st buf, db)
   | At_flush d st buf k \<Rightarrow> (Silent, flushStream demo_kms d st buf k 1 ''n2'' Tx_ok db)
   | At_evidence d st e \<Rightarrow> (Silent, streamEvidence d st e True, db)
   | At_restore d \<Rightarrow> (Silent, restoreGate demo_deps now d Tx_ok db)
   | At_finalize j c st ec out h \<Rightarrow> (Silent, finalizeAndWake now j c st ec out h Tx_ok db)
   | Ended out \<Rightarrow> (Silent, Ready, db))"

definition worked :: "world \<Rightarrow> world" where
  "worked w = (case smooth w of (e, p, db) \<Rightarrow> effected e (w\<lparr> w_db := db, w_workers := (w_workers w)(0 := p) \<rparr>))"

lemma smooth_advance:
  "advance demo_kms demo_deps (w_now w) (w_workers w 0) (w_db w) (fst (smooth w)) (fst (snd (smooth w))) (snd (snd (smooth w)))"
proof (cases "w_workers w 0")
  case (At_response d)
  then show ?thesis
    using advance.responds [of demo_kms demo_deps "w_now w" d "w_db w" "[7, 8]" True 200] by (simp add: smooth_def Let_def)
qed (auto simp: smooth_def Let_def intro!: advance.intros)

lemma worked_step: "fresh_effect (fst (smooth w)) w \<Longrightarrow> turn_step demo_kms demo_deps w (worked w)"
proof -
  assume f: "fresh_effect (fst (smooth w)) w"
  obtain e p db where s: "smooth w = (e, p, db)" by (cases "smooth w") auto
  then have "advance demo_kms demo_deps (w_now w) (w_workers w 0) (w_db w) e p db" using smooth_advance [of w] by simp
  with f s show ?thesis by (auto simp: worked_def intro: turn_step.worker)
qed

text \<open>The row, the tables and the world at the stages of the run.\<close>

definition demo_attempt :: attempt where
  "demo_attempt = born demo_owner ''c'' ''b'' ''t1'' ''a1'' 0"

definition demo_claimed_row :: attempt where
  "demo_claimed_row = lease ''k'' ''w'' 0 60000 demo_attempt"

definition demo_crossed_row :: attempt where
  "demo_crossed_row = demo_claimed_row\<lparr> at_state := Dispatching, at_boundary := Some 0, at_request := Some ''q'',
     at_causal := Some 0 \<rparr>"

definition demo_bound_row :: attempt where
  "demo_bound_row = demo_crossed_row\<lparr> at_credential := Some ''p'' \<rparr>"

definition demo_streaming_row :: attempt where
  "demo_streaming_row = demo_bound_row\<lparr> at_state := Streaming \<rparr>"

definition demo_completed_row :: attempt where
  "demo_completed_row = demo_streaming_row\<lparr> at_state := Completed_attempt, at_terminal := Some 0 \<rparr>"

lemmas demo_rows = demo_attempt_def demo_claimed_row_def demo_crossed_row_def demo_bound_row_def demo_streaming_row_def
  demo_completed_row_def lease_def born_def demo_owner_def us_def

definition demo_turn :: turn where
  "demo_turn = new_turn demo_owner (demo_send_env ''1'') ''c'' ''b'' ''x'' 1"

definition demo_tables :: "attempt \<Rightarrow> turn_db" where
  "demo_tables a = conv_db\<lparr> tb_turns := [demo_turn], tb_attempts := [''a1'' \<mapsto> a],
     tb_items := [input_item demo_owner (demo_send_env ''1'') ''c'' ''b''],
     tb_contents := [''n1'' \<mapsto> config_row demo_owner ''c'' demo_config] \<rparr>"

definition demo_answer :: "turn_db \<Rightarrow> turn_db" where
  "demo_answer db = db\<lparr>
     tb_items := tb_items db @ [\<lparr> it_org = ''o'', it_owner = ''u'', it_conv = ''c'', it_branch = ''b'', it_turn = ''t1'',
       it_attempt = Some ''a1'', it_seq = 1, it_type = ''native_response'', it_content = ''n2'' \<rparr>],
     tb_contents := (tb_contents db)(''n2'' \<mapsto> config_row demo_owner ''c'' (demo_key [7, 8], replicate 32 0)) \<rparr>"

definition demo_final :: turn_db where
  "demo_final = (demo_answer (demo_tables demo_completed_row))\<lparr> tb_branches := [''b'' \<mapsto> demo_branch\<lparr> br_causal := 1 \<rparr>] \<rparr>"

definition demo_job :: job where
  "demo_job = \<lparr> jb_owner = demo_owner, jb_attempt = ''a1'', jb_token = ''k'' \<rparr>"

definition demo_context :: exec_context where
  "demo_context = \<lparr> ec_conv = ''c'', ec_branch = ''b'', ec_turn = ''t1'', ec_turn_seq = 1, ec_mode = ''governed'',
     ec_provider = ''anthropic'', ec_surface = ''anthropic_messages'', ec_model = ''m'', ec_causal = 0,
     ec_status = ''active'', ec_config = ''n1'' \<rparr>"

definition demo_plan :: dispatch_plan where
  "demo_plan = \<lparr> pl_provider = ''anthropic'', pl_surface = ''anthropic_messages'', pl_mode = ''governed'',
     pl_path = ''/v1/messages'', pl_create = ''anthropic.messages.create'', pl_stream = ''anthropic.messages.stream'',
     pl_level = ''policy_governed'' \<rparr>"

definition demo_dispatch :: dispatch where
  "demo_dispatch = \<lparr> jb_owner = demo_owner, jb_attempt = ''a1'', jb_token = ''k'', ds_context = demo_context,
     ds_plan = demo_plan, ds_stream = False, ds_body = [5], ds_credential = ''p'', ds_request = ''q'' \<rparr>"

lemmas demo_defs = demo_tables_def demo_answer_def demo_final_def demo_job_def demo_context_def demo_plan_def demo_dispatch_def
  demo_turn_def conv_db_def demo_branch_def new_turn_def demo_send_env_def config_row_def input_item_def demo_config_def demo_key_def

definition stage :: "phase \<Rightarrow> turn_db \<Rightarrow> bool \<Rightarrow> bytes \<Rightarrow> world" where
  "stage p db sent wire = \<lparr> w_db = db, w_now = 0, w_workers = (\<lambda>_. Ready)(0 := p), w_tokens = [''k''],
     w_calls = (if sent then [(''a1'', ''p'', [5])] else []), w_wire = (\<lambda>_. [])(''a1'' := wire) \<rparr>"

definition demo_world :: "turn_db \<Rightarrow> world" where
  "demo_world db = \<lparr> w_db = db, w_now = 0, w_workers = (\<lambda>_. Ready), w_tokens = [], w_calls = [], w_wire = (\<lambda>_. []) \<rparr>"

lemma demo_reserved: "reserved_db demo_owner (demo_send_env ''1'') ''c'' ''b'' ''x'' demo_config conv_db = demo_tables demo_attempt"
  by (simp add: reserved_db_def demo_defs demo_rows nextTurnSeq_def)

lemma demo_head: "branch_head (demo_tables a) a" if "at_id a = ''a1''"
  by (simp add: branch_head_def turn_of_def demo_tables_def demo_turn_def new_turn_def on_branch_def)

lemma demo_row_sel [simp]:
  "tb_attempts (demo_tables a) = [''a1'' \<mapsto> a]" "tb_creds (demo_tables a) = tb_creds conv_db" "tb_turns (demo_tables a) = [demo_turn]"
  "tb_branches (demo_tables a) = [''b'' \<mapsto> demo_branch]" "tb_orgs (demo_tables a) = tb_orgs conv_db"
  "tb_convs (demo_tables a) = tb_convs conv_db" "at_id b = ''a1'' \<Longrightarrow> put_attempt b (demo_tables a) = demo_tables b"
  by (simp_all add: demo_tables_def put_attempt_def conv_db_def)

lemma demo_select: "owns demo_owner a \<Longrightarrow> select_attempt demo_owner ''a1'' (demo_tables a) = Some a"
  by (simp add: select_attempt_def)

lemma update_demo:
  assumes "owns demo_owner a" "cond a" "f a = b" "guarded_update a b = None" "attempt_checks b" "cred_fk (tb_creds conv_db) b" "at_id b = ''a1''"
  shows "update_attempt demo_owner ''a1'' cond f (demo_tables a) = Inr (Some b, demo_tables b)"
  using assms by (simp add: update_attempt_def demo_select)

lemmas row_eval = demo_rows owns_def guarded_update_def same_identity_def rewritten_def attempt_checks_def non_terminal_def
  cred_fk_def conv_db_def transition_error_def live_def

lemma demo_claim: "claimQueuedHead demo_owner 0 ''k'' ''a1'' ''w'' 60000 (demo_tables demo_attempt) =
    Inr (Some \<lparr> cg_token = ''k'', cg_claimant = ''w'', cg_deadline = us 60000 \<rparr>, demo_tables demo_claimed_row)"
  unfolding claimQueuedHead_def
  by (subst update_demo [where b = demo_claimed_row]) (simp_all add: demo_head grant_def row_eval)

lemma demo_load: "loadClaimed demo_job True (demo_tables demo_claimed_row) = At_build demo_job demo_context demo_plan ''p''"
  by (simp add: loadClaimed_def readExecutionContext_def select_attempt_def turn_of_def on_branch_def demo_defs demo_rows owns_def
      resolveDispatchPlan_def readNativeRequestConfig_def readActiveProviderCredential_def)

lemma demo_cross: "commitDispatchBoundary_turn demo_owner 0 ''a1'' ''k'' 60000 0 ''q'' None (demo_tables demo_claimed_row) =
    Inr (Some ''q'', demo_tables demo_crossed_row)"
  unfolding commitDispatchBoundary_turn_def
  by (subst update_demo [where b = demo_crossed_row])
     (simp_all add: demo_head branch_at_version_def first_of_def demo_branch_def row_eval)

lemma demo_bind: "commitCredentialProvenance demo_owner 0 ''a1'' ''k'' ''p'' ''anthropic'' (demo_tables demo_crossed_row) =
    Inr (True, demo_tables demo_bound_row)"
  unfolding commitCredentialProvenance_def
  by (subst update_demo [where b = demo_bound_row]) (simp_all add: row_eval)

lemma demo_stream: "markStreaming demo_owner 0 ''a1'' ''k'' (demo_tables demo_bound_row) = Inr (True, demo_tables demo_streaming_row)"
  unfolding markStreaming_def
  by (subst update_demo [where b = demo_streaming_row]) (simp_all add: row_eval)

lemma demo_persist: "persistTx demo_dispatch ''native_response'' ''n2'' (demo_key [7, 8], replicate 32 0) (demo_tables demo_streaming_row) =
    Inr (True, demo_answer (demo_tables demo_streaming_row))"
  by (simp add: persistTx_def Let_def insertContent_def appendFencedOutputItem_def select_attempt_def nextAttemptItemSeq_def
      demo_defs row_eval same_item_key_def fk_defs)

lemma demo_finish: "finalizeTx 0 demo_job demo_context Completed_attempt None (demo_answer (demo_tables demo_streaming_row)) =
    Inr (True, demo_final)"
  by (simp add: finalizeTx_def finalizeAttempt_def update_attempt_def select_attempt_def put_attempt_def bumpBranchCausalVersion_def
      demo_defs row_eval)

lemmas stage_eval = worked_def smooth_def stage_def effected_def Let_def run_tx_def demo_deps_def

lemma demo_jobs [simp]:
  "jb_owner demo_job = demo_owner" "jb_attempt demo_job = ''a1''" "jb_token demo_job = ''k''"
  "jb_owner demo_dispatch = demo_owner" "jb_attempt demo_dispatch = ''a1''" "jb_token demo_dispatch = ''k''"
  "ds_credential demo_dispatch = ''p''" "ds_body demo_dispatch = [5]" "pl_provider (ds_plan demo_dispatch) = ''anthropic''"
  "ds_context demo_dispatch = demo_context" "job_of_dispatch demo_dispatch = demo_job" "ec_causal demo_context = 0" "ec_conv demo_context = ''c''"
  by (simp_all add: demo_job_def demo_dispatch_def demo_plan_def demo_context_def job_of_dispatch_def)

lemma step1: "worked (demo_world (demo_tables demo_attempt)) = stage (At_load demo_job) (demo_tables demo_claimed_row) False []"
proof -
  have "(\<lambda>_. [])(''a1'' := []) = (\<lambda>_. ([] :: bytes))" by auto
  then show ?thesis
    by (simp add: stage_eval demo_world_def processCandidate_def arm_def demo_candidate_def demo_claim demo_job_def)
qed

lemma step2: "worked (stage (At_load demo_job) (demo_tables demo_claimed_row) False []) =
    stage (At_build demo_job demo_context demo_plan ''p'') (demo_tables demo_claimed_row) False []"
  by (simp add: stage_eval demo_load)

lemma step3: "worked (stage (At_build demo_job demo_context demo_plan ''p'') (demo_tables demo_claimed_row) False []) =
    stage (At_boundary demo_job demo_context demo_plan ''p'' False [5] None) (demo_tables demo_claimed_row) False []"
  by (simp add: stage_eval buildClaimed_def)

lemma step4: "worked (stage (At_boundary demo_job demo_context demo_plan ''p'' False [5] None) (demo_tables demo_claimed_row) False []) =
    stage (At_gate demo_dispatch) (demo_tables demo_crossed_row) False []"
proof -
  have root: "lockRootForDispatch demo_owner ''c'' (demo_tables demo_claimed_row) = Some ''active''"
    by (simp add: lockRootForDispatch_def conv_db_def demo_owner_def)
  have "job.extend demo_job (dispatch.fields demo_context demo_plan False [5] ''p'' ''q'') = demo_dispatch"
    by (simp add: demo_job_def demo_dispatch_def job.defs dispatch.defs)
  then show ?thesis
    by (simp add: stage_eval boundaryClaimed_def boundaryTx_def root isRootExecutionEligible_def demo_cross)
qed

lemma step5: "worked (stage (At_gate demo_dispatch) (demo_tables demo_crossed_row) False []) =
    stage (At_forward demo_dispatch) (demo_tables demo_bound_row) False []"
proof -
  have "readPrePostAuthority demo_owner 0 ''a1'' ''k'' (demo_tables demo_crossed_row) =
      Some \<lparr> au_state = Dispatching, au_lease_valid = True, au_stop = False \<rparr>"
    by (simp add: readPrePostAuthority_def select_attempt_def row_eval)
  then show ?thesis by (simp add: stage_eval beforeDispatch_def gateTx_def demo_bind)
qed

lemma step6: "worked (stage (At_forward demo_dispatch) (demo_tables demo_bound_row) False []) =
    stage (At_response demo_dispatch) (demo_tables demo_bound_row) True []"
  by (simp add: stage_eval)

lemma step7: "worked (stage (At_response demo_dispatch) (demo_tables demo_bound_row) True []) =
    stage (At_mark demo_dispatch (Whole 200 [7, 8])) (demo_tables demo_bound_row) True [7, 8]"
  by (simp add: stage_eval)

lemma step8: "worked (stage (At_mark demo_dispatch (Whole 200 [7, 8])) (demo_tables demo_bound_row) True [7, 8]) =
    stage (At_persist demo_dispatch 200 [7, 8]) (demo_tables demo_streaming_row) True [7, 8]"
  by (simp add: stage_eval recordResult_def demo_stream)

lemma step9: "worked (stage (At_persist demo_dispatch 200 [7, 8]) (demo_tables demo_streaming_row) True [7, 8]) =
    stage (finalizeKnownResult demo_dispatch 200) (demo_answer (demo_tables demo_streaming_row)) True [7, 8]"
  by (simp add: stage_eval recordBody_def persistOutputItem_def demo_kms_def demo_persist)

lemma step10: "worked (stage (finalizeKnownResult demo_dispatch 200) (demo_answer (demo_tables demo_streaming_row)) True [7, 8]) =
    stage (Ended O_completed) demo_final True [7, 8]"
  by (simp add: stage_eval finalizeKnownResult_def classifyStatus_def finalizeAndWake_def demo_finish)

text \<open>The reachable states of the run.\<close>

abbreviation demo_reaches :: "world \<Rightarrow> bool" where
  "demo_reaches \<equiv> reach initial (turn_step demo_kms demo_deps)"

lemma worked_stage: "demo_reaches (stage p db sent wire) \<Longrightarrow> p \<noteq> Ready \<Longrightarrow> demo_reaches (worked (stage p db sent wire))"
  by (erule reach_step, rule worked_step) (cases p; simp add: smooth_def stage_def fresh_effect_def Let_def)

lemma demo_initial: "demo_reaches (demo_world conv_db)"
  by (rule reach_init) (auto simp: initial_def demo_world_def conv_db_def demo_branch_def split: if_splits)

lemma demo_sent: "demo_reaches (demo_world (demo_tables demo_attempt))"
proof -
  have "reserveTurn demo_owner (demo_send_env ''1'') ''c'' demo_send demo_config conv_db = Inr (''t1'', demo_tables demo_attempt)"
    unfolding demo_reserved [symmetric]
    by (simp add: reserveTurn_def conv_db_def find_conv_def getBranchInConversation_def demo_owner_def demo_send_def demo_config_def
        isAddressable_def isExecutionEligible_def resolveDispatchPlan_def demo_branch_def insertContent_def demo_key_def
        insertReservedTurnWithInitialAttempt_def Let_def insert_attempt_def insertTurnOwnedItem_def demo_send_env_def
        reserved_db_def put_attempt_def new_turn_def input_item_def config_row_def lower_def lower_char_def fk_defs
        nextTurnSeq_def)
  then have "turn_step demo_kms demo_deps (demo_world conv_db) ((demo_world conv_db)\<lparr> w_db := demo_tables demo_attempt \<rparr>)"
    by (intro turn_step.reserve) (simp add: demo_world_def)
  with demo_initial show ?thesis by (auto intro: reach_step simp: demo_world_def)
qed

lemma demo_reach_claimed: "demo_reaches (stage (At_load demo_job) (demo_tables demo_claimed_row) False [])"
proof -
  have "turn_step demo_kms demo_deps (demo_world (demo_tables demo_attempt)) (worked (demo_world (demo_tables demo_attempt)))"
    by (rule worked_step) (simp add: smooth_def demo_world_def fresh_effect_def)
  with demo_sent show ?thesis by (auto intro: reach_step simp: step1)
qed

lemma demo_reach_gate: "demo_reaches (stage (At_gate demo_dispatch) (demo_tables demo_crossed_row) False [])"
  using demo_reach_claimed by (auto dest!: worked_stage simp: step2 step3 step4)

lemma demo_reach_response: "demo_reaches (stage (At_response demo_dispatch) (demo_tables demo_bound_row) True [])"
  using demo_reach_gate by (auto dest!: worked_stage simp: step5 step6)

lemma demo_reach_mark: "demo_reaches (stage (At_mark demo_dispatch (Whole 200 [7, 8])) (demo_tables demo_bound_row) True [7, 8])"
  using demo_reach_response by (auto dest!: worked_stage simp: step7)

lemma demo_reach_final: "demo_reaches (stage (Ended O_completed) demo_final True [7, 8])"
proof -
  have "demo_reaches (stage (finalizeKnownResult demo_dispatch 200) (demo_answer (demo_tables demo_streaming_row)) True [7, 8])"
    using demo_reach_mark by (auto dest!: worked_stage simp: step8 step9)
  from worked_stage [OF this] show ?thesis by (simp add: step10) (simp add: finalizeKnownResult_def classifyStatus_def)
qed

end
