(* ===== verification/Turn_Claims.thy ===== *)
theory Turn_Claims
  imports Turn_Run
begin

text \<open>
  The claims about the execution kernel: what holds in every reachable state of the system of
  theory \<open>Turn_World\<close>.
\<close>

section \<open>No statement of the executor is refused by the schema\<close>

definition tx_refused :: "store_error + 'a \<Rightarrow> bool" where
  "tx_refused m = (case m of Inl e \<Rightarrow> True | Inr r \<Rightarrow> False)"

lemma tx_refused_simps [simp]:
  "tx_refused (Inl e)" "\<not> tx_refused (Inr r)"
  "tx_refused (bindE m (\<lambda>(r, db). Inr (g r db))) = tx_refused m"
  "tx_refused (bindE m (\<lambda>(r, db). Inr (g1 r, g2 r db))) = tx_refused m"
  by (auto simp: tx_refused_def bindE_def split: sum.split)

text \<open>The guard, the checks and the foreign key let a new version of a row pass.\<close>

definition schema_accepts :: "credential list \<Rightarrow> attempt \<Rightarrow> attempt \<Rightarrow> bool" where
  "schema_accepts cs a b \<longleftrightarrow> guarded_update a b = None \<and> attempt_checks b \<and> cred_fk cs b"

lemma update_accepted:
  assumes "\<And>a. tb_attempts db aid = Some a \<Longrightarrow> owns ow a \<Longrightarrow> cond a \<Longrightarrow> schema_accepts (tb_creds db) a (f a)"
  shows "\<not> tx_refused (update_attempt ow aid cond f db)"
proof (cases "select_attempt ow aid db")
  case (Some a)
  with assms [of a] show ?thesis
    by (cases "cond a") (auto simp: update_attempt_def schema_accepts_def dest: select_attempt_SomeD)
qed (simp add: update_attempt_def)

lemma row_fk: "tables_ok db \<Longrightarrow> tb_attempts db x = Some a \<Longrightarrow> cred_fk (tb_creds db) a"
  by (auto dest: tables_okD(1) simp: attempt_row_ok_def)

lemma fk_frame [simp]:
  "cred_fk cs (a\<lparr> at_state := st \<rparr>) = cred_fk cs a" "cred_fk cs (a\<lparr> at_terminal := tm \<rparr>) = cred_fk cs a"
  "cred_fk cs (a\<lparr> at_updated := now \<rparr>) = cred_fk cs a" "cred_fk cs (a\<lparr> at_error := ec \<rparr>) = cred_fk cs a"
  "cred_fk cs (a\<lparr> at_deadline := dl \<rparr>) = cred_fk cs a" "cred_fk cs (a\<lparr> at_heartbeat := hb \<rparr>) = cred_fk cs a"
  "cred_fk cs (a\<lparr> at_token := tk \<rparr>) = cred_fk cs a" "cred_fk cs (a\<lparr> at_claimant := cl \<rparr>) = cred_fk cs a"
  by (cases "at_credential a"; simp add: cred_fk_def)+

lemmas guard_defs = schema_accepts_def guarded_update_def same_identity_def rewritten_def transition_error_def non_terminal_def

lemma checks_leased:
  assumes "attempt_checks a" "at_state a = Dispatching \<or> at_state a = Streaming"
  obtains t c d b where "at_token a = Some t" "at_claimant a = Some c" "at_deadline a = Some d" "at_boundary a = Some b"
  using assms by (cases "at_token a"; cases "at_claimant a"; cases "at_deadline a"; cases "at_boundary a")
    (simp_all add: attempt_checks_def split: if_splits)

lemma checks_token:
  assumes "attempt_checks a" "at_token a = Some t"
  obtains c d where "at_claimant a = Some c" "at_deadline a = Some d"
  using assms by (cases "at_claimant a"; cases "at_deadline a") (simp_all add: attempt_checks_def)

text \<open>Each update of the store on a row that passes its checks.\<close>

lemma lease_accepted:
  assumes "attempt_checks a" "cred_fk cs a" "at_state a = Accepted"
  shows "schema_accepts cs a (lease tok cl now l a)"
  using assms by (simp add: guard_defs lease_def attempt_checks_def)

lemma reclaim_accepted:
  assumes "attempt_checks a" "at_state a = Dispatching" "at_credential a = None"
  shows "schema_accepts cs a ((lease tok cl now l a)\<lparr> at_state := Accepted \<rparr>)"
  using assms by (simp add: guard_defs lease_def attempt_checks_def cred_fk_def)

lemma ratchet_accepted:
  assumes "attempt_checks a" "cred_fk cs a" "at_state a = Dispatching \<or> at_state a = Streaming" "at_credential a \<noteq> None"
  shows "schema_accepts cs a (a\<lparr> at_state := Unknown, at_terminal := Some now, at_updated := now \<rparr>)"
proof -
  from assms(1,3) obtain t c d b where "at_token a = Some t" "at_claimant a = Some c" "at_deadline a = Some d"
    "at_boundary a = Some b" by (rule checks_leased)
  with assms show ?thesis by (elim disjE) (simp_all add: guard_defs attempt_checks_def)
qed

text \<open>The anchor a build hands to the boundary is sealed, as the encryption returns it.\<close>

definition parent_fits :: "envelope option \<Rightarrow> bool" where
  "parent_fits parent = (case parent of None \<Rightarrow> True | Some e \<Rightarrow> en_dek e \<noteq> None)"

lemma cross_accepted:
  assumes "attempt_checks a" "at_state a = Accepted" "at_token a = Some tok" "parent_fits parent"
  shows "schema_accepts cs a (a\<lparr> at_state := Dispatching, at_boundary := first_of (at_boundary a) now,
               at_request := first_of (at_request a) req, at_causal := Some v, at_parent := parent,
               at_deadline := Some d, at_heartbeat := Some now, at_updated := now \<rparr>)"
proof -
  from assms(1,3) obtain c d' where "at_claimant a = Some c" "at_deadline a = Some d'" by (rule checks_token)
  with assms show ?thesis
    by (cases "at_boundary a"; cases "at_request a") (simp_all add: guard_defs attempt_checks_def parent_fits_def first_of_def cred_fk_def)
qed

lemma bind_accepted:
  assumes "attempt_checks a" "at_state a = Dispatching" "at_credential a = None"
    "list_ex (\<lambda>r. cr_id r = c \<and> cr_org r = at_org a \<and> cr_provider r = pv \<and> cr_status r = ''active'') cs"
  shows "schema_accepts cs a (a\<lparr> at_credential := Some c, at_updated := now \<rparr>)"
proof -
  from assms(1) disjI1 [OF assms(2)] obtain t c' d' b where "at_token a = Some t" "at_claimant a = Some c'" "at_deadline a = Some d'"
    "at_boundary a = Some b" by (rule checks_leased)
  with assms show ?thesis by (simp add: guard_defs attempt_checks_def cred_fk_def list_ex_iff) blast
qed

lemma restore_accepted:
  assumes "attempt_checks a" "at_state a = Dispatching" "at_credential a = None"
  shows "schema_accepts cs a (a\<lparr> at_state := Accepted, at_deadline := Some d, at_heartbeat := Some now, at_updated := now \<rparr>)"
proof -
  from assms(1) disjI1 [OF assms(2)] obtain t c' d' b where "at_token a = Some t" "at_claimant a = Some c'" "at_deadline a = Some d'"
    "at_boundary a = Some b" by (rule checks_leased)
  with assms show ?thesis by (simp add: guard_defs attempt_checks_def cred_fk_def)
qed

lemma stream_accepted:
  assumes "attempt_checks a" "cred_fk cs a" "at_state a = Dispatching" "at_credential a \<noteq> None"
  shows "schema_accepts cs a (a\<lparr> at_state := Streaming, at_updated := now \<rparr>)"
proof -
  from assms(1) disjI1 [OF assms(3)] obtain t c d b where "at_token a = Some t" "at_claimant a = Some c" "at_deadline a = Some d"
    "at_boundary a = Some b" by (rule checks_leased)
  with assms show ?thesis by (simp add: guard_defs attempt_checks_def)
qed

lemma verdict_cases:
  assumes "verdict_ok st ec a"
  obtains "st = Rejected" "ec = None" "at_state a \<noteq> Streaming" | e where "st = Failed_attempt" "ec = Some e"
    | c where "st = Unknown" "ec = None" "at_credential a = Some c" "at_state a \<noteq> Accepted"
    | "st = Completed_attempt" "ec = None" "at_state a = Streaming"
  using assms by (auto simp: verdict_ok_def)

lemma finish_guard:
  assumes "non_terminal (at_state a)" "verdict_ok st ec a"
  shows "guarded_update a (a\<lparr> at_state := st, at_error := ec, at_terminal := Some now, at_updated := now \<rparr>) = None"
proof -
  consider "at_state a = Accepted" | "at_state a = Dispatching" | "at_state a = Streaming"
    using assms(1) by (auto simp: non_terminal_def)
  then show ?thesis
    by cases (rule verdict_cases [OF assms(2)]; simp add: guard_defs)+
qed

lemma finish_checks:
  assumes "attempt_checks a" "non_terminal (at_state a)" "verdict_ok st ec a"
  shows "attempt_checks (a\<lparr> at_state := st, at_error := ec, at_terminal := Some now, at_updated := now \<rparr>)"
  using assms(3)
proof (cases rule: verdict_cases)
  case (3 c)
  then have "at_boundary a \<noteq> None" using assms(1) by (simp add: attempt_checks_def)
  with 3 assms(1) show ?thesis unfolding attempt_checks_def by (elim conjE) (simp add: non_terminal_def)
next
  case 4
  from assms(1) disjI2 [OF 4(3)] obtain t c d b where "at_token a = Some t" "at_claimant a = Some c" "at_deadline a = Some d"
    "at_boundary a = Some b" by (rule checks_leased)
  with 4 assms(1) show ?thesis by (simp add: attempt_checks_def)
next
  case 1
  with assms(1) show ?thesis unfolding attempt_checks_def by (elim conjE) (simp add: non_terminal_def)
next
  case (2 e)
  with assms(1) show ?thesis unfolding attempt_checks_def by (elim conjE) (simp add: non_terminal_def)
qed

lemma finish_accepted:
  assumes "attempt_checks a" "cred_fk cs a" "non_terminal (at_state a)" "verdict_ok st ec a"
  shows "schema_accepts cs a (a\<lparr> at_state := st, at_error := ec, at_terminal := Some now, at_updated := now \<rparr>)"
  using finish_guard [OF assms(3,4)] finish_checks [OF assms(1,3,4)] assms(2) by (simp add: schema_accepts_def)

lemma beat_accepted:
  assumes "attempt_checks a" "cred_fk cs a" "at_token a = Some tok" "non_terminal (at_state a)"
  shows "schema_accepts cs a (a\<lparr> at_deadline := Some d, at_heartbeat := Some now, at_updated := now \<rparr>)"
  using assms by (cases "at_state a") (auto simp: guard_defs attempt_checks_def)

subsection \<open>The transactions\<close>

lemma tx_refused_bind: "\<not> tx_refused m \<Longrightarrow> (\<And>r db. m = Inr (r, db) \<Longrightarrow> \<not> tx_refused (g r db)) \<Longrightarrow>
    \<not> tx_refused (bindE m (\<lambda>(r, db). g r db))"
  by (auto simp: tx_refused_def bindE_def split: sum.splits prod.splits)

lemma claims_run:
  assumes ok: "tables_ok db"
  shows "\<not> tx_refused (claimQueuedHead ow now tok aid cl l db)"
    and "\<not> tx_refused (rotateExpiredAcceptedClaim ow now tok aid e cl l db)"
    and "\<not> tx_refused (restoreProvenanceAbsentDispatching ow now tok aid e cl l gr db)"
    and "\<not> tx_refused (ratchetStrandedToOutcomeUnknown ow now aid e gr db)"
    and "\<not> tx_refused (heartbeatClaim ow now aid tok l db)"
  unfolding claimQueuedHead_def rotateExpiredAcceptedClaim_def restoreProvenanceAbsentDispatching_def
    ratchetStrandedToOutcomeUnknown_def heartbeatClaim_def
  using tables_checks [OF ok] row_fk [OF ok]
  by (auto intro!: update_accepted tx_refused_bind lease_accepted reclaim_accepted ratchet_accepted beat_accepted)

lemma arm_runs:
  assumes ok: "tables_ok db"
  shows "\<not> tx_refused (arm dp now tok c db)"
proof -
  have ratchet: "\<not> tx_refused (ratchetAndWake ow now aid e gr db')" if "tables_ok db'" for ow aid e gr db'
    unfolding ratchetAndWake_def using claims_run(4) [OF that] by (auto intro!: tx_refused_bind split: if_splits)
  have restored: "tables_ok db'"
    if "restoreProvenanceAbsentDispatching ow now tok aid e cl l gr db = Inr (g, db')" "g = None" for ow aid e cl l gr g db'
  proof -
    from that obtain r where "update_attempt ow aid (\<lambda>a. at_state a = Dispatching \<and> at_token a = Some e \<and> at_credential a = None \<and> expired now gr a)
        (\<lambda>a. (lease tok cl now l a)\<lparr> at_state := Accepted \<rparr>) db = Inr (r, db')" "r = None"
      by (auto simp: restoreProvenanceAbsentDispatching_def bindE_Inr_iff grant_def split: option.splits)
    then show ?thesis using ok by (auto elim!: update_attempt_InrE)
  qed
  show ?thesis
  proof (cases "cd_reason c")
    case Queued_head
    then show ?thesis using claims_run(1) [OF ok] by (simp add: arm_def Let_def)
  next
    case Accepted_expired
    then show ?thesis using claims_run(2) [OF ok] by (simp add: arm_def Let_def split: option.split)
  next
    case Streaming_expired
    then show ?thesis using ratchet [OF ok] by (simp add: arm_def Let_def split: option.split)
  next
    case Dispatching_expired
    show ?thesis
    proof (cases "cd_token c")
      case (Some e)
      have "\<not> tx_refused (case g of Some cl \<Rightarrow> Inr (Arm_drive (Some cl), db')
          | None \<Rightarrow> bindE (ratchetAndWake (cd_owner c) now (cd_attempt c) e (dp_grace dp) db') (\<lambda>(b, db'). Inr (Arm_ambiguous b, db')))"
        if "restoreProvenanceAbsentDispatching (cd_owner c) now tok (cd_attempt c) e (dp_claimant dp) (dp_lease dp) (dp_grace dp) db = Inr (g, db')" for g db'
        using ratchet [OF restored [OF that]] by (cases g) simp_all
      with claims_run(3) [OF ok]
      have "\<not> tx_refused (bindE (restoreProvenanceAbsentDispatching (cd_owner c) now tok (cd_attempt c) e (dp_claimant dp) (dp_lease dp) (dp_grace dp) db)
          (\<lambda>(g, db'). case g of Some cl \<Rightarrow> Inr (Arm_drive (Some cl), db')
            | None \<Rightarrow> bindE (ratchetAndWake (cd_owner c) now (cd_attempt c) e (dp_grace dp) db') (\<lambda>(b, db'). Inr (Arm_ambiguous b, db'))))"
        by (rule tx_refused_bind)
      then show ?thesis by (simp add: arm_def Let_def Dispatching_expired Some)
    qed (simp add: arm_def Let_def Dispatching_expired)
  qed (simp add: arm_def Let_def)
qed

text \<open>A worker's updates of its own row, given what its phase knows.\<close>

lemma own_row:
  assumes "row_known used db p" "job_of p = Some j" "tb_attempts db (jb_attempt j) = Some a"
    "at_token a = Some (jb_token j)" "non_terminal (at_state a)"
  shows "knows p a" "past_gate p = Some d \<Longrightarrow> at_credential a = Some (ds_credential d)"
  using assms by (auto simp: row_known_def)

lemma boundary_runs:
  assumes ok: "tables_ok db" and fits: "parent_fits parent"
  shows "\<not> tx_refused (boundaryTx dp now req j c parent db)"
  using boundary_tx_cases [of dp now req j c parent db]
proof (elim disjE conjE)
  assume b: "boundaryTx dp now req j c parent db =
     commitDispatchBoundary_turn (jb_owner j) now (jb_attempt j) (jb_token j) (dp_lease dp) (ec_causal c) req parent db"
  show ?thesis
    unfolding b commitDispatchBoundary_turn_def tx_refused_simps
    by (rule update_accepted) (auto intro: cross_accepted tables_checks [OF ok] fits)
qed simp

lemma gate_runs:
  assumes ok: "tables_ok db"
  shows "\<not> tx_refused (gateTx now d db)"
  using gate_tx_cases [of now d db]
proof
  assume g: "gateTx now d db =
     commitCredentialProvenance (jb_owner d) now (jb_attempt d) (jb_token d) (ds_credential d) (pl_provider (ds_plan d)) db"
  show ?thesis
    unfolding g commitCredentialProvenance_def tx_refused_simps
    by (rule update_accepted) (auto intro: bind_accepted tables_checks [OF ok])
qed simp

lemma mark_runs:
  assumes ok: "tables_ok db" and h: "row_known used db (At_mark d ans)"
  shows "\<not> tx_refused (markStreaming (jb_owner d) now (jb_attempt d) (jb_token d) db)"
  unfolding markStreaming_def tx_refused_simps
proof (rule update_accepted)
  fix a assume a: "tb_attempts db (jb_attempt d) = Some a" "at_state a = Dispatching \<and> at_token a = Some (jb_token d)"
  with own_row(2) [OF h, of "job_of_dispatch d" a d] have "at_credential a \<noteq> None" by (simp add: non_terminal_def)
  with a show "schema_accepts (tb_creds db) a (a\<lparr> at_state := Streaming, at_updated := now \<rparr>)"
    by (auto intro: stream_accepted tables_checks [OF ok] row_fk [OF ok])
qed

lemma restore_runs:
  assumes ok: "tables_ok db"
  shows "\<not> tx_refused (restoreDispatchingToAccepted ow now aid tok l db)"
  unfolding restoreDispatchingToAccepted_def tx_refused_simps
  by (rule update_accepted) (auto intro: restore_accepted tables_checks [OF ok])

lemma finalize_runs:
  assumes ok: "tables_ok db" and h: "row_known used db (At_finalize j c st ec out hnd)"
  shows "\<not> tx_refused (finalizeTx now j c st ec db)"
proof -
  have "\<not> tx_refused (finalizeAttempt (jb_owner j) now (jb_attempt j) (jb_token j) st ec db)"
    unfolding finalizeAttempt_def tx_refused_simps
  proof (rule update_accepted)
    fix a assume a: "tb_attempts db (jb_attempt j) = Some a" "at_token a = Some (jb_token j) \<and> non_terminal (at_state a)"
    with own_row(1) [OF h, of j a] have "verdict_ok st ec a" by simp
    with a show "schema_accepts (tb_creds db) a (a\<lparr> at_state := st, at_error := ec, at_terminal := Some now, at_updated := now \<rparr>)"
      by (auto intro: finish_accepted tables_checks [OF ok] row_fk [OF ok])
  qed
  then show ?thesis unfolding finalizeTx_def by simp
qed

text \<open>An output item never collides with one that is there.\<close>

lemma next_item_seq_fresh:
  assumes "i \<in> set (tb_items db)" "it_attempt i = Some aid" "it_org i = ow_org ow" "it_owner i = ow_user ow"
  shows "it_seq i < nextAttemptItemSeq ow aid db"
proof -
  have m: "x \<le> foldr max xs (0::nat)" if "x \<in> set xs" for x xs
    using that by (induction xs) auto
  have "it_seq i \<in> set (map it_seq (filter (\<lambda>i. it_attempt i = Some aid \<and> it_org i = ow_org ow \<and> it_owner i = ow_user ow) (tb_items db)))"
    using assms by auto
  from m [OF this] show ?thesis by (simp add: nextAttemptItemSeq_def)
qed

definition content_fits :: "turn_db \<Rightarrow> string \<Rightarrow> envelope \<times> bytes \<Rightarrow> bool" where
  "content_fits db cid e \<longleftrightarrow> tb_contents db cid = None \<and> en_dek (fst e) \<noteq> None \<and> length (snd e) = 32"

lemma persist_runs:
  assumes ok: "tables_ok db" and h: "row_known used db p" and p: "job_of p = Some (job_of_dispatch d)" "ctx_of p = Some (ds_context d)"
    and fits: "content_fits db cid e"
  shows "\<not> tx_refused (persistTx d ty cid e db)"
proof -
  obtain a where a: "tb_attempts db (jb_attempt d) = Some a" "owns (jb_owner d) a" "ec_conv (ds_context d) = at_conv a"
    using h p by (auto elim!: holdsE)
  have row: "attempt_row_ok db (jb_attempt d) a" using ok a(1) by (rule tables_okD)
  then have key: "at_id a = jb_attempt d" "conv_key db (ow_org (jb_owner d)) (ow_user (jb_owner d)) (at_conv a)"
    "turn_key db (at_org a) (at_owner a) (at_conv a) (at_branch a) (at_turn a)"
    using a(2) by (auto simp: attempt_row_ok_def home_def owns_def fk_defs on_branch_def list_ex_iff)
  let ?seq = "nextAttemptItemSeq (jb_owner d) (jb_attempt d) db"
  obtain db1 where ins: "insertContent (jb_owner d) (ec_conv (ds_context d)) cid e db = Inr db1"
    and db1: "tb_attempts db1 = tb_attempts db" "tb_items db1 = tb_items db" "tb_turns db1 = tb_turns db"
      "content_key db1 (at_org a) (at_owner a) (at_conv a) cid"
    using fits a key(2) by (auto simp: insertContent_def content_fits_def content_key_def owns_def)
  have sel: "select_attempt (jb_owner d) (jb_attempt d) db1 = Some a" using a db1 by (simp add: select_attempt_def)
  have unique: "\<not> list_ex (same_item_key i) (tb_items db)"
    if "it_org i = at_org a" "it_owner i = at_owner a" "it_attempt i = Some (jb_attempt d)" "it_seq i = ?seq" for i
    using that a(2) next_item_seq_fresh [of _ db "jb_attempt d" "jb_owner d"]
    by (fastforce simp: list_ex_iff same_item_key_def owns_def)
  have fks: "item_fks db1 \<lparr> it_org = at_org a, it_owner = at_owner a, it_conv = at_conv a, it_branch = at_branch a,
      it_turn = at_turn a, it_attempt = Some (jb_attempt d), it_seq = ?seq, it_type = ty, it_content = cid \<rparr>"
    using db1 key(3) a(1) by (simp add: item_fks_def turn_key_def attempt_key_def)
  have "\<not> tx_refused (appendFencedOutputItem (jb_owner d) (jb_attempt d) (jb_token d) ?seq ty cid db1)"
    using fks unique db1(2) by (simp add: appendFencedOutputItem_def sel Let_def nextAttemptItemSeq_def)
  then show ?thesis
    unfolding persistTx_def Let_def ins by (auto intro: tx_refused_bind)
qed

text \<open>What the executor asks of the database in a phase, with its inputs.\<close>

definition phase_refused ::
  "deps \<Rightarrow> int \<Rightarrow> turn_candidate \<Rightarrow> string \<Rightarrow> string \<Rightarrow> envelope \<times> bytes \<Rightarrow> phase \<Rightarrow> turn_db \<Rightarrow> bool" where
  "phase_refused dp now c tok nid e p db = (case p of
       Ready \<Rightarrow> tx_refused (arm dp now tok c db)
     | At_boundary j cx pl cr st b pa \<Rightarrow> parent_fits pa \<and> tx_refused (boundaryTx dp now nid j cx pa db)
     | At_gate d \<Rightarrow> tx_refused (gateTx now d db)
     | At_mark d ans \<Rightarrow> tx_refused (markStreaming (jb_owner d) now (jb_attempt d) (jb_token d) db)
     | At_persist d st b \<Rightarrow> content_fits db nid e \<and> tx_refused (persistTx d ''native_response'' nid e db)
     | At_flush d st b k \<Rightarrow> content_fits db nid e \<and> tx_refused (persistTx d ''native_stream_chunk'' nid e db)
     | At_restore d \<Rightarrow> tx_refused (restoreDispatchingToAccepted (jb_owner d) now (jb_attempt d) (jb_token d) (dp_lease dp) db)
     | At_finalize j cx st ec out h \<Rightarrow> tx_refused (finalizeTx now j cx st ec db)
     | _ \<Rightarrow> False)"

lemma phase_runs:
  assumes ok: "tables_ok db" and h: "row_known used db p"
  shows "\<not> phase_refused dp now c tok nid e p db"
  using arm_runs [OF ok] boundary_runs [OF ok] gate_runs [OF ok] restore_runs [OF ok]
proof (cases p)
  case (At_mark d ans)
  then show ?thesis using mark_runs [OF ok, of used d ans] h by (simp add: phase_refused_def)
next
  case (At_persist d st b)
  then show ?thesis using persist_runs [OF ok h, of d] by (auto simp: phase_refused_def)
next
  case (At_flush d st b k)
  then show ?thesis using persist_runs [OF ok h, of d] by (auto simp: phase_refused_def)
next
  case (At_finalize j cx st ec out hnd)
  then show ?thesis using finalize_runs [OF ok, of used j cx st ec out hnd] h by (simp add: phase_refused_def)
qed (simp_all add: phase_refused_def)

text \<open>C14. The executor respects the schema: whatever the workers, the reservations, the stop
requests and the failing transactions did before, no statement a worker issues in the phase it
has reached violates a check, a trigger guard, a foreign key or a unique key of the execution
tables; neither does the renewal of a lease. So the only way such a transaction fails is a lost
connection. Two things are asked of the inputs of a phase: where an output is stored, the content
id is new and the encryption returned a wrapped key and 32 bytes of HMAC (\<open>content_fits\<close>); where a
build hands over a continuation anchor, its envelope has a wrapped key (\<open>parent_fits\<close>), as the
encryption of the anchor returns it.\<close>

theorem schema_never_refuses_the_executor:
  assumes "reach initial (turn_step k dp) w"
  shows "\<not> phase_refused dp now c tok nid e (w_workers w i) (w_db w) \<and>
    \<not> tx_refused (heartbeatClaim ow now aid tk l (w_db w))"
proof -
  have w: "world_ok w" using assms by (rule turns.inv_reach)
  show ?thesis using phase_runs [OF world_okD(1,2) [OF w]] claims_run(5) [OF world_okD(1) [OF w]] by blast
qed

theorem schema_never_refuses_the_executor_witness:
  "\<not> tx_refused (markStreaming demo_owner 0 ''a1'' ''k'' (demo_tables demo_bound_row))"
  using schema_never_refuses_the_executor [OF demo_reach_mark, of 0 demo_candidate "''z''" "''z''" demo_config 0]
  by (simp add: phase_refused_def stage_def)

section \<open>What has been sent\<close>

text \<open>C9. At most one request per attempt: however the workers interleave, stall, lose leases,
crash between any two transactions and take each other's work over, the provider is called at
most once for an attempt, and the attempt's row names the credential that call was made with.\<close>

theorem request_sent_at_most_once:
  assumes "reach initial (turn_step k dp) w"
  shows "distinct (map fst (w_calls w)) \<and>
    list_all (\<lambda>(x, c, b). case tb_attempts (w_db w) x of None \<Rightarrow> False | Some a \<Rightarrow> at_credential a = Some c) (w_calls w)"
proof -
  have w: "world_ok w" using assms by (rule turns.inv_reach)
  show ?thesis using world_okD(6) [OF w] by (auto simp: calls_bound_def list_all_iff) fastforce
qed

theorem request_sent_at_most_once_witness:
  "let w = stage (Ended O_completed) demo_final True [7, 8]
   in w_calls w = [(''a1'', ''p'', [5])] \<and> distinct (map fst (w_calls w))"
  using request_sent_at_most_once [OF demo_reach_final] by (simp add: stage_def)

text \<open>The verdict a row carries, and whether the request was sent.\<close>

definition verdict_true :: "bool \<Rightarrow> attempt \<Rightarrow> bool" where
  "verdict_true sent a = (case at_state a of
       Accepted \<Rightarrow> \<not> sent
     | Rejected \<Rightarrow> \<not> sent
     | Streaming \<Rightarrow> sent
     | Completed_attempt \<Rightarrow> sent
     | Failed_attempt \<Rightarrow> sent = (at_error a \<noteq> Some Local_error_class \<and> at_error a \<noteq> Some Credential_unavailable)
     | Unknown \<Rightarrow> at_credential a \<noteq> None
     | _ \<Rightarrow> True)"

text \<open>C13. Verdicts tell the truth about the call. An attempt that is queued or rejected was never
sent to the provider; one that is streaming or completed was; one that failed was sent exactly
when its error is not a local error or a missing credential, so retrying after those two never
repeats work at the provider. An unknown outcome is given only to an attempt that is bound to a
credential.\<close>

theorem verdicts_agree_with_the_call:
  assumes "reach initial (turn_step k dp) w" and a: "tb_attempts (w_db w) x = Some a"
  shows "verdict_true (x \<in> fst ` set (w_calls w)) a"
proof -
  have w: "world_ok w" using assms(1) by (rule turns.inv_reach)
  have r: "row_sent (sent_to (w_calls w) x) a" using world_okD(5) [OF w] a by (simp add: rows_sent_def)
  have c: "attempt_checks a" using world_okD(1) [OF w] a by (rule tables_checks)
  then have "at_error a \<noteq> None" if "at_state a = Failed_attempt" using that by (simp add: attempt_checks_def)
  moreover have "at_credential a \<noteq> None" if "at_state a = Unknown" using that c by (simp add: attempt_checks_def)
  moreover have "at_credential a = None" if "at_state a = Accepted" using that c by (simp add: attempt_checks_accepted)
  ultimately show ?thesis
    using r by (cases "at_state a") (auto simp: verdict_true_def row_sent_def sent_to_def split: if_splits)
qed

theorem verdicts_agree_with_the_call_witness:
  "at_state demo_completed_row = Completed_attempt \<and>
   ''a1'' \<in> fst ` set (w_calls (stage (Ended O_completed) demo_final True [7, 8]))"
proof -
  have "tb_attempts (w_db (stage (Ended O_completed) demo_final True [7, 8])) ''a1'' = Some demo_completed_row"
    by (simp add: stage_def demo_final_def demo_answer_def)
  from verdicts_agree_with_the_call [OF demo_reach_final this] show ?thesis
    by (simp add: verdict_true_def demo_completed_row_def)
qed

end
