(* ===== verification/Turn_Branch.thy ===== *)
theory Turn_Branch
  imports Turn_Run
begin

text \<open>
  The branch as a queue: its turns are executed one after the other, each on a context that no
  later result has made stale, and a worker that lost its claim cannot touch it.
\<close>

section \<open>What a step does to the tables\<close>

lemma turn_step_db:
  assumes w: "world_ok w" and st: "turn_step k dp w w'"
  obtains actor where "plane_step (w_tokens w) actor (w_db w) (w_db w')" | "reserved_step (w_db w) (w_db w')"
    | "tb_attempts (w_db w') = tb_attempts (w_db w)" "tb_turns (w_db w') = tb_turns (w_db w)" "tb_branches (w_db w') = tb_branches (w_db w)"
  using st
proof (cases rule: turn_step.cases)
  case (worker i e p db')
  from advance_worker [OF worker(2) world_okD(2) [OF w] world_okD(1) [OF w] worker(3) refl]
  have "plane_step (w_tokens w) (map_option jb_token (job_of (w_workers w i))) (w_db w) (w_db w')"
    by (simp add: phase_step_def worker(1))
  then show thesis by (rule that(1))
next
  case (beat ow aid tok h db')
  from beat_plane [OF beat(2), of "w_tokens w"] have "plane_step (w_tokens w) None (w_db w) (w_db w')" by (simp add: beat(1))
  then show thesis by (rule that(1))
next
  case (reserve ow env cid inp config tid db')
  from reserve_reserved [OF reserve(2) world_okD(1) [OF w]] have "reserved_step (w_db w) (w_db w')" by (simp add: reserve(1))
  then show thesis by (rule that(2))
next
  case (stop ow aid r db')
  from stop_plane [OF stop(2), of "w_tokens w"] have "plane_step (w_tokens w) None (w_db w) (w_db w')" by (simp add: stop(1))
  then show thesis by (rule that(1))
qed (use that(3) in simp_all)

lemma tokens_grow: "turn_step k dp w w' \<Longrightarrow> set (w_tokens w) \<subseteq> set (w_tokens w')"
  by (cases rule: turn_step.cases) (auto simp: drawn_def split: turn_effect.split)

section \<open>One turn after the other\<close>

definition turn_ended :: "turn_db \<Rightarrow> turn \<Rightarrow> bool" where
  "turn_ended db u = (case ct_current u of None \<Rightarrow> False
     | Some y \<Rightarrow> (case tb_attempts db y of None \<Rightarrow> False | Some b \<Rightarrow> \<not> non_terminal (at_state b)))"

definition order_ok :: "turn_db \<Rightarrow> bool" where
  "order_ok db \<longleftrightarrow> (\<forall>x a t u. tb_attempts db x = Some a \<and> at_boundary a \<noteq> None \<and> t \<in> set (tb_turns db) \<and> on_branch a t \<and>
     ct_id t = at_turn a \<and> u \<in> set (tb_turns db) \<and> on_branch a u \<and> ct_seq u < ct_seq t \<longrightarrow> turn_ended db u)"

lemma order_okD:
  assumes "order_ok db" "tb_attempts db x = Some a" "at_boundary a \<noteq> None" "t \<in> set (tb_turns db)" "on_branch a t" "ct_id t = at_turn a"
    "u \<in> set (tb_turns db)" "on_branch a u" "ct_seq u < ct_seq t"
  shows "turn_ended db u"
  using assms unfolding order_ok_def by blast

lemma ended_iff_not_blocks:
  assumes "tables_ok db" "u \<in> set (tb_turns db)"
  shows "turn_ended db u = (\<not> blocks db u)"
  using tables_okD(2) [OF assms] by (auto simp: turn_ok_def turn_ended_def blocks_def)

lemma ended_rows:
  assumes ok: "tables_ok db" and st: "rows_step used actor db db'" and e: "turn_ended db u"
  shows "turn_ended db' u"
proof -
  from e obtain y b where y: "ct_current u = Some y" "tb_attempts db y = Some b" "\<not> non_terminal (at_state b)"
    by (auto simp: turn_ended_def split: option.splits)
  from rows_step_row [OF ok st y(2)] obtain b' where "tb_attempts db' y = Some b'" "b' = b \<or> guarded_update b b' = None" by blast
  with y guard_terminal [of b b'] show ?thesis by (auto simp: turn_ended_def)
qed

lemma boundary_move: "row_move used db actor a a' \<Longrightarrow> at_boundary a' = at_boundary a \<or> branch_head db a"
  by (cases rule: row_move.cases) (auto simp: lease_def)

lemma turn_of_unique:
  assumes "tables_ok db" "t \<in> set (tb_turns db)" "on_branch a t" "ct_id t = at_turn a"
  shows "turn_of db a = Some t"
proof -
  obtain t' where t': "turn_of db a = Some t'"
    using assms(2-4) by (cases "turn_of db a") (auto simp: turn_of_def find_None_iff)
  then have "t' \<in> set (tb_turns db)" "ct_id t' = at_turn a"
    by (auto simp: turn_of_def find_Some_iff)
  with assms tables_okD(3) [OF assms(1)] inj_onD [of ct_id "set (tb_turns db)" t' t] have "t' = t" by (auto simp: distinct_map)
  with t' show ?thesis by simp
qed

lemma order_plane:
  assumes o: "order_ok db" and ok: "tables_ok db" and st: "plane_step used actor db db'"
  shows "order_ok db'"
  unfolding order_ok_def
proof (intro allI impI, elim conjE)
  fix x a' t u
  assume a': "tb_attempts db' x = Some a'" "at_boundary a' \<noteq> None" and t: "t \<in> set (tb_turns db')" "on_branch a' t" "ct_id t = at_turn a'"
    and u: "u \<in> set (tb_turns db')" "on_branch a' u" "ct_seq u < ct_seq t"
  have turns: "tb_turns db' = tb_turns db" and rs: "rows_step used actor db db'" using st by (simp_all add: plane_step_def)
  from rows_step_new [OF ok rs a'(1)] obtain a where a: "tb_attempts db x = Some a"
    and mv: "a' = a \<or> row_move used db actor a a' \<and> guarded_update a a' = None" by blast
  have lin: "on_branch a t" "ct_id t = at_turn a" "on_branch a u"
    using t u mv guard_lineage [of a a'] by auto
  have "turn_ended db u"
  proof (cases "at_boundary a")
    case None
    with a'(2) mv boundary_move [of used db actor a a'] have "branch_head db a" by auto
    with turn_of_unique [OF ok _ lin(1,2)] t(1) turns u lin have "\<not> blocks db u"
      by (auto simp: branch_head_def list_ex_iff)
    with ended_iff_not_blocks [OF ok] u(1) turns show ?thesis by simp
  next
    case (Some v)
    with order_okD [OF o a _ _ lin(1,2) _ lin(3)] t u turns show ?thesis by simp
  qed
  with ended_rows [OF ok rs] show "turn_ended db' u" by blast
qed

lemma order_reserved:
  assumes o: "order_ok db" and ok: "tables_ok db" and st: "reserved_step db db'"
  shows "order_ok db'"
proof -
  from st obtain x0 a0 t0 where n: "tb_attempts db x0 = None" "birth_guard a0" "tb_attempts db' = (tb_attempts db)(x0 \<mapsto> a0)"
    and t0: "tb_turns db' = tb_turns db @ [t0]" "ct_current t0 = Some x0"
    and fresh: "\<And>u. u \<in> set (tb_turns db) \<Longrightarrow> ct_id u \<noteq> ct_id t0 \<and> (same_branch u t0 \<longrightarrow> ct_seq u < ct_seq t0)"
    unfolding reserved_step_def by (elim conjE exE) (rule that; blast)
  show ?thesis
    unfolding order_ok_def
  proof (intro allI impI, elim conjE)
    fix x a t u
    assume a: "tb_attempts db' x = Some a" "at_boundary a \<noteq> None" and t: "t \<in> set (tb_turns db')" "on_branch a t" "ct_id t = at_turn a"
      and u: "u \<in> set (tb_turns db')" "on_branch a u" "ct_seq u < ct_seq t"
    have "x \<noteq> x0" using a n(2,3) by (auto simp: birth_guard_def)
    then have old: "tb_attempts db x = Some a" using a(1) n(3) by simp
    then obtain s where s: "s \<in> set (tb_turns db)" "on_branch a s" "ct_id s = at_turn a"
      using tables_okD(1) [OF ok old] by (auto simp: attempt_row_ok_def)
    have told: "t \<in> set (tb_turns db)" using t s fresh [OF s(1)] t0(1) by auto
    have "same_branch t t0" if "u = t0" using that t(2) u(2) by (simp add: same_branch_def on_branch_def)
    with fresh [OF told] u(3) have "u \<noteq> t0" by auto
    then have uold: "u \<in> set (tb_turns db)" using u(1) t0(1) by auto
    from order_okD [OF o old a(2) told t(2,3) uold u(2,3)] have "turn_ended db u" .
    then obtain y b where "ct_current u = Some y" "tb_attempts db y = Some b" "\<not> non_terminal (at_state b)"
      by (auto simp: turn_ended_def split: option.splits)
    with reserved_row [OF st] show "turn_ended db' u" by (simp add: turn_ended_def)
  qed
qed

lemma ended_cong: "tb_attempts db' = tb_attempts db \<Longrightarrow> turn_ended db' = turn_ended db"
  by (rule ext) (simp add: turn_ended_def split: option.split)

lemma order_same:
  "tb_attempts db' = tb_attempts db \<Longrightarrow> tb_turns db' = tb_turns db \<Longrightarrow> order_ok db' = order_ok db"
  by (simp add: order_ok_def ended_cong [of db' db])

definition queue_ok :: "world \<Rightarrow> bool" where
  "queue_ok w \<longleftrightarrow> world_ok w \<and> order_ok (w_db w)"

interpretation queue: kept_invariant initial "turn_step k dp" queue_ok for k dp
proof unfold_locales
  fix w assume i: "initial w"
  then have "tb_attempts (w_db w) = Map.empty" by (simp add: initial_def)
  then have "order_ok (w_db w)" by (simp add: order_ok_def)
  with world_initial [OF i] show "queue_ok w" by (simp add: queue_ok_def)
next
  fix w w' assume q: "queue_ok w" and st: "turn_step k dp w w'"
  then have w: "world_ok w" "order_ok (w_db w)" by (simp_all add: queue_ok_def)
  have "order_ok (w_db w')"
    using w(1) st
  proof (cases rule: turn_step_db)
    case (1 actor)
    from order_plane [OF w(2) world_okD(1) [OF w(1)] 1] show ?thesis .
  next
    case 2
    from order_reserved [OF w(2) world_okD(1) [OF w(1)] 2] show ?thesis .
  next
    case 3
    from w(2) show ?thesis by (simp add: order_same [OF 3(1,2)])
  qed
  with world_step [OF w(1) st] show "queue_ok w'" by (simp add: queue_ok_def)
qed

definition in_flight :: "attempt \<Rightarrow> bool" where
  "in_flight a \<longleftrightarrow> at_state a = Dispatching \<or> at_state a = Streaming"

definition beside :: "attempt \<Rightarrow> attempt \<Rightarrow> bool" where
  "beside a b \<longleftrightarrow> at_org a = at_org b \<and> at_owner a = at_owner b \<and> at_conv a = at_conv b \<and> at_branch a = at_branch b"

lemma flight_alone:
  assumes ok: "tables_ok db" and o: "order_ok db" and a: "tb_attempts db x = Some a" "in_flight a"
    and b: "tb_attempts db y = Some b" "in_flight b" and ab: "beside a b"
  shows "x = y"
proof -
  obtain s where s: "s \<in> set (tb_turns db)" "on_branch a s" "ct_id s = at_turn a" "ct_current s = Some x"
    using tables_okD(1) [OF ok a(1)] by (auto simp: attempt_row_ok_def)
  obtain t where t: "t \<in> set (tb_turns db)" "on_branch b t" "ct_id t = at_turn b" "ct_current t = Some y"
    using tables_okD(1) [OF ok b(1)] by (auto simp: attempt_row_ok_def)
  have bd: "at_boundary a \<noteq> None" "at_boundary b \<noteq> None"
    using tables_checks [OF ok a(1)] tables_checks [OF ok b(1)] a(2) b(2) by (auto simp: in_flight_def attempt_checks_def)
  have cross: "on_branch a t" "on_branch b s" "same_branch s t"
    using ab s(2) t(2) by (auto simp: beside_def on_branch_def same_branch_def)
  have "\<not> turn_ended db s" "\<not> turn_ended db t"
    using a b s(4) t(4) by (auto simp: turn_ended_def in_flight_def non_terminal_def)
  then have "\<not> ct_seq s < ct_seq t" "\<not> ct_seq t < ct_seq s"
    using order_okD [OF o b(1) bd(2) t(1,2,3) s(1) cross(2)] order_okD [OF o a(1) bd(1) s(1,2,3) t(1) cross(1)] by auto
  then have "s = t" using tables_okD(4) [OF ok s(1) t(1) cross(3)] by simp
  with s(4) t(4) show ?thesis by simp
qed

text \<open>C10. The turns of a branch run one after the other: when an attempt has crossed its dispatch
boundary, and so before its request is sent, every earlier turn of its branch has ended; and two
attempts of one branch are never dispatching or streaming at the same time.\<close>

theorem branch_runs_in_turn:
  assumes "reach initial (turn_step k dp) w" and a: "tb_attempts (w_db w) x = Some a" "at_boundary a \<noteq> None"
    and t: "turn_of (w_db w) a = Some t"
  shows "list_all (turn_ended (w_db w)) (filter (\<lambda>u. on_branch a u \<and> ct_seq u < ct_seq t) (tb_turns (w_db w))) \<and>
    (\<forall>y b. tb_attempts (w_db w) y = Some b \<and> in_flight a \<and> in_flight b \<and> beside a b \<longrightarrow> x = y)"
proof -
  have "queue_ok w" using assms(1) by (rule queue.inv_reach)
  then have w: "tables_ok (w_db w)" "order_ok (w_db w)" by (simp_all add: queue_ok_def world_ok_def)
  have "t \<in> set (tb_turns (w_db w))" "on_branch a t" "ct_id t = at_turn a"
    using t by (auto simp: turn_of_def find_Some_iff)
  with order_okD [OF w(2) a] flight_alone [OF w a(1)] show ?thesis by (auto simp: list_all_iff)
qed

theorem branch_runs_in_turn_witness:
  "let w = stage (At_response demo_dispatch) (demo_tables demo_bound_row) True []
   in in_flight demo_bound_row \<and> list_all (turn_ended (w_db w)) (filter (\<lambda>u. on_branch demo_bound_row u \<and> ct_seq u < 1) (tb_turns (w_db w)))"
proof -
  have "tb_attempts (w_db (stage (At_response demo_dispatch) (demo_tables demo_bound_row) True [])) ''a1'' = Some demo_bound_row"
    "at_boundary demo_bound_row \<noteq> None" "in_flight demo_bound_row"
    "turn_of (w_db (stage (At_response demo_dispatch) (demo_tables demo_bound_row) True [])) demo_bound_row = Some demo_turn"
    by (simp_all add: stage_def demo_rows in_flight_def turn_of_def on_branch_def demo_turn_def new_turn_def demo_send_env_def)
  from branch_runs_in_turn [OF demo_reach_response this(1,2,4)] this(3) show ?thesis
    by (simp add: stage_def demo_turn_def new_turn_def)
qed

section \<open>Every result raises the causal version\<close>

definition branch_bumped :: "turn_db \<Rightarrow> turn_db \<Rightarrow> string \<Rightarrow> bool" where
  "branch_bumped db db' i \<longleftrightarrow> (\<exists>b b'. tb_branches db i = Some b \<and> tb_branches db' i = Some b' \<and> br_causal b < br_causal b')"

text \<open>Whatever has ended after a step had ended before it, as the same row, or its branch was bumped.\<close>

definition results_bump :: "turn_db \<Rightarrow> turn_db \<Rightarrow> bool" where
  "results_bump db db' \<longleftrightarrow> branches_grow db db' \<and>
     (\<forall>x a. tb_attempts db' x = Some a \<and> \<not> non_terminal (at_state a) \<longrightarrow>
        tb_attempts db x = Some a \<or> branch_bumped db db' (at_branch a))"

lemma results_same_rows: "branches_grow db db' \<Longrightarrow> tb_attempts db' = tb_attempts db \<Longrightarrow> results_bump db db'"
  by (simp add: results_bump_def)

lemma results_alive:
  assumes "branches_grow db db'" "tb_attempts db' = (tb_attempts db)(x \<mapsto> a)" "non_terminal (at_state a)"
  shows "results_bump db db'"
  using assms by (auto simp: results_bump_def split: if_splits)

lemma results_update:
  assumes u: "update_attempt ow aid cond f db = Inr (r, db')" and f: "\<And>a. cond a \<Longrightarrow> non_terminal (at_state (f a))"
  shows "results_bump db db'"
  using u
proof (cases rule: update_attempt_InrE)
  case (2 a)
  then show ?thesis by (intro results_alive [of db db' "at_id (f a)" "f a"] f) (simp_all add: put_attempt_def)
qed (simp add: results_same_rows)

lemma bump_hits:
  assumes "tb_branches db i = Some b" "br_conv b = cid" "br_org b = ow_org ow" "br_owner b = ow_user ow"
  shows "tb_branches (bumpBranchCausalVersion ow now cid i db) i = Some (b\<lparr> br_causal := br_causal b + 1, br_updated := now \<rparr>)"
  using assms by (simp add: bumpBranchCausalVersion_def)

lemma results_bumped:
  assumes ok: "tables_ok db" and a: "tb_attempts db x = Some a" "owns ow a" and db1: "tb_attempts db1 = (tb_attempts db)(x \<mapsto> a1)"
    "tb_branches db1 = tb_branches db" and lin: "at_branch a1 = at_branch a"
  shows "results_bump db (bumpBranchCausalVersion ow now (at_conv a) (at_branch a) db1)"
proof -
  obtain b where b: "tb_branches db (at_branch a) = Some b" "br_conv b = at_conv a" "br_org b = ow_org ow" "br_owner b = ow_user ow"
    using tables_okD(1) [OF ok a(1)] a(2) by (auto simp: attempt_row_ok_def home_def owns_def)
  have "branch_bumped db (bumpBranchCausalVersion ow now (at_conv a) (at_branch a) db1) (at_branch a)"
    using b bump_hits [of db1 "at_branch a" b "at_conv a" ow now] by (simp add: branch_bumped_def db1(2))
  moreover have "branches_grow db (bumpBranchCausalVersion ow now (at_conv a) (at_branch a) db1)"
    using bump_grows [of db1 ow now "at_conv a" "at_branch a"] by (simp add: branches_grow_def db1(2))
  ultimately show ?thesis using lin by (auto simp: results_bump_def db1(1) split: if_splits)
qed

lemma results_finalize:
  assumes tx: "finalizeTx now j c st ec db = Inr (ok', db')" and ok: "tables_ok db" and h: "row_known used db (At_finalize j c st ec out hnd)"
  shows "results_bump db db'"
  using tx
proof (cases rule: finalizeTx_cases)
  case (1 r db1)
  from 1(1) show ?thesis
  proof (cases rule: update_attempt_InrE)
    case (2 a)
    then have a: "tb_attempts db (jb_attempt j) = Some a" "owns (jb_owner j) a" by (auto dest: select_attempt_SomeD)
    from h obtain a2 where "tb_attempts db (jb_attempt j) = Some a2" "ec_conv c = at_conv a2" "ec_branch c = at_branch a2"
      by (auto elim!: holdsE)
    with a have c: "ec_conv c = at_conv a" "ec_branch c = at_branch a" by auto
    have "tb_attempts db1 = (tb_attempts db)(jb_attempt j \<mapsto> a\<lparr> at_state := st, at_error := ec, at_terminal := Some now, at_updated := now \<rparr>)"
      "tb_branches db1 = tb_branches db"
      using 2(4) tables_okD(1) [OF ok a(1)] by (simp_all add: put_attempt_def attempt_row_ok_def)
    from results_bumped [OF ok a this, of now] 1(2,3) 2(3) c show ?thesis by simp
  qed (use 1 in \<open>simp add: results_same_rows\<close>)
qed

lemma results_ratchet:
  assumes rt: "ratchetAndWake ow now aid e gr db = Inr (b, db')" and ok: "tables_ok db"
  shows "results_bump db db'"
proof -
  from rt obtain db1 where r: "ratchetStrandedToOutcomeUnknown ow now aid e gr db = Inr (b, db1)"
    and eq: "db' = (if \<not> b then db1 else case readExecutionContext ow aid db1 of None \<Rightarrow> db1
          | Some c \<Rightarrow> bumpBranchCausalVersion ow now (ec_conv c) (ec_branch c) db1)"
    unfolding ratchetAndWake_def bindE_Inr_iff by auto
  from r obtain r' where u: "update_attempt ow aid
        (\<lambda>a. (at_state a = Dispatching \<or> at_state a = Streaming) \<and> at_token a = Some e \<and> at_credential a \<noteq> None \<and> expired now gr a)
        (\<lambda>a. a\<lparr> at_state := Unknown, at_terminal := Some now, at_updated := now \<rparr>) db = Inr (r', db1)" and b: "b = (r' \<noteq> None)"
    by (auto simp: ratchetStrandedToOutcomeUnknown_def bindE_Inr_iff)
  have ok1: "tables_ok db1" using ok plane_update(1) [OF u] by (rule plane_tables) (auto intro: row_move.ratchets)
  from u show ?thesis
  proof (cases rule: update_attempt_InrE)
    case (2 a)
    let ?a = "a\<lparr> at_state := Unknown, at_terminal := Some now, at_updated := now \<rparr>"
    from 2 have a: "tb_attempts db aid = Some a" "owns ow a" by (auto dest: select_attempt_SomeD)
    have db1: "tb_attempts db1 = (tb_attempts db)(aid \<mapsto> ?a)" "tb_branches db1 = tb_branches db"
      using 2(4) tables_okD(1) [OF ok a(1)] by (simp_all add: put_attempt_def attempt_row_ok_def)
    have row: "tb_attempts db1 aid = Some ?a" "owns ow ?a" using db1 a(2) by (simp_all add: owns_def)
    obtain t where "t \<in> set (tb_turns db1)" "on_branch ?a t" "ct_id t = at_turn ?a"
      using tables_okD(1) [OF ok1 row(1)] unfolding attempt_row_ok_def by blast
    with turn_of_unique [OF ok1] have t: "turn_of db1 ?a = Some t" by blast
    have "readExecutionContext ow aid db1 \<noteq> None"
      using tables_okD(1) [OF ok1 row(1)] t row(2)
      by (auto simp: readExecutionContext_def select_attempt_def row(1) attempt_row_ok_def home_def)
    then obtain c where c: "readExecutionContext ow aid db1 = Some c" by blast
    from readExecutionContext_SomeD [OF c row(1)] have "ec_conv c = at_conv a" "ec_branch c = at_branch a" by simp_all
    with eq c b 2(3) results_bumped [OF ok a db1, of now] show ?thesis by simp
  qed (use eq b in \<open>simp add: results_same_rows\<close>)
qed

lemma results_arm:
  assumes a: "arm dp now tok c db = Inr (r, db')" and ok: "tables_ok db"
  shows "results_bump db db'"
proof -
  have queued: "results_bump db d" if "claimQueuedHead ow now tok aid cl l db = Inr (g, d)" for ow aid cl l g d
    using that unfolding claimQueuedHead_def bindE_Inr_iff
    by (auto dest!: results_update simp: non_terminal_def)
  have rotated: "results_bump db d" if "rotateExpiredAcceptedClaim ow now tok aid e cl l db = Inr (g, d)" for ow aid e cl l g d
    using that unfolding rotateExpiredAcceptedClaim_def bindE_Inr_iff
    by (auto dest!: results_update simp: non_terminal_def)
  have reclaimed: "results_bump db d \<and> (g = None \<longrightarrow> d = db)"
    if "restoreProvenanceAbsentDispatching ow now tok aid e cl l gr db = Inr (g, d)" for ow aid e cl l gr g d
  proof -
    from that obtain r where u: "update_attempt ow aid (\<lambda>a. at_state a = Dispatching \<and> at_token a = Some e \<and> at_credential a = None \<and> expired now gr a)
        (\<lambda>a. (lease tok cl now l a)\<lparr> at_state := Accepted \<rparr>) db = Inr (r, d)" and g: "g = grant tok cl (now + us l) r"
      by (auto simp: restoreProvenanceAbsentDispatching_def bindE_Inr_iff)
    from u have "r = None \<longrightarrow> d = db" by (cases rule: update_attempt_InrE) simp_all
    moreover have "results_bump db d" using u by (rule results_update) (simp add: non_terminal_def)
    ultimately show ?thesis using g by (cases r) (simp_all add: grant_def)
  qed
  show ?thesis
  proof (cases "cd_reason c")
    case Queued_head
    with a queued show ?thesis by (auto simp: arm_def Let_def bindE_Inr_iff)
  next
    case Accepted_expired
    with a rotated show ?thesis by (auto simp: arm_def Let_def bindE_Inr_iff results_same_rows split: option.splits)
  next
    case Streaming_expired
    with a ok show ?thesis
      by (auto simp: arm_def Let_def bindE_Inr_iff results_same_rows intro: results_ratchet split: option.splits)
  next
    case Dispatching_expired
    show ?thesis
    proof (cases "cd_token c")
      case (Some e)
      with a Dispatching_expired obtain g db1 where res: "restoreProvenanceAbsentDispatching (cd_owner c) now tok (cd_attempt c) e
          (dp_claimant dp) (dp_lease dp) (dp_grace dp) db = Inr (g, db1)"
        and rest: "case g of Some cl \<Rightarrow> db' = db1
          | None \<Rightarrow> (\<exists>b. ratchetAndWake (cd_owner c) now (cd_attempt c) e (dp_grace dp) db1 = Inr (b, db'))"
        by (auto simp: arm_def Let_def bindE_Inr_iff split: option.splits)
      show ?thesis
      proof (cases g)
        case None
        with reclaimed [OF res] rest ok show ?thesis by (auto intro: results_ratchet)
      next
        case (Some cl)
        with reclaimed [OF res] rest show ?thesis by simp
      qed
    qed (use a Dispatching_expired in \<open>simp add: arm_def Let_def results_same_rows\<close>)
  qed (use a in \<open>simp add: arm_def Let_def results_same_rows\<close>)
qed

text \<open>Every step of the system.\<close>

inductive_cases advance_FinalizeE: "advance k dp now (At_finalize j c st ec out hnd) db e p db'"

lemma results_worker:
  assumes adv: "advance k dp now p db e p' db'" and ok: "tables_ok db" and h: "row_known used db p" and g: "branches_grow db db'"
  shows "results_bump db db'"
proof -
  consider "p = Ready" | j c st ec out hd where "p = At_finalize j c st ec out hd"
    | "p \<noteq> Ready" "\<And>a a'. row_effect p a a' \<Longrightarrow> non_terminal (at_state a')"
    by (cases p) (auto simp: non_terminal_def)
  then show ?thesis
  proof cases
    case 1
    with adv obtain tok c fl where "processCandidate dp now tok c fl db = (p', db')" by (auto elim: advance_ReadyE)
    then obtain r where "run_tx fl (arm dp now tok c db) db = (r, db')"
      by (cases "run_tx fl (arm dp now tok c db) db") (auto simp: processCandidate_def split: option.splits armed.splits)
    then show ?thesis by (cases rule: run_tx_cases) (auto intro: results_arm ok simp: results_same_rows)
  next
    case 2
    with adv obtain fl where "finalizeAndWake now j c st ec out hd fl db = (p', db')" by (auto elim: advance_FinalizeE)
    then obtain r where "run_tx fl (finalizeTx now j c st ec db) db = (r, db')"
      by (cases "run_tx fl (finalizeTx now j c st ec db) db") (auto simp: finalizeAndWake_def split: option.splits)
    then show ?thesis using h 2 by (cases rule: run_tx_cases) (auto intro: results_finalize ok simp: results_same_rows)
  next
    case 3
    from advance_effect [OF adv ok 3(1)] show ?thesis
      using results_same_rows [OF g] results_alive [OF g] 3(2) unfolding same_rows_def row_changed_def by blast
  qed
qed

lemma results_step:
  assumes w: "world_ok w" and st: "turn_step k dp w w'"
  shows "results_bump (w_db w) (w_db w')"
  using st
proof (cases rule: turn_step.cases)
  case (worker i e p db')
  from advance_worker [OF worker(2) world_okD(2) [OF w] world_okD(1) [OF w] worker(3) refl]
  have "branches_grow (w_db w) db'" by (simp add: phase_step_def plane_step_def)
  with results_worker [OF worker(2) world_okD(1) [OF w] world_okD(2) [OF w]] show ?thesis by (simp add: worker(1))
next
  case (beat ow aid tok h db')
  then obtain r where "update_attempt ow aid (\<lambda>a. at_token a = Some tok \<and> live (w_now w) a \<and> non_terminal (at_state a))
      (\<lambda>a. a\<lparr> at_deadline := Some (w_now w + us (dp_lease dp)), at_heartbeat := Some (w_now w), at_updated := w_now w \<rparr>) (w_db w) = Inr (r, db')"
    by (auto simp: heartbeatClaim_def bindE_Inr_iff)
  then show ?thesis using beat(1) by (auto dest: results_update)
next
  case (reserve ow env cid inp config tid db')
  from reserve_reserved [OF reserve(2) world_okD(1) [OF w]] obtain x a where
    "tb_attempts db' = (tb_attempts (w_db w))(x \<mapsto> a)" "birth_guard a" "tb_branches db' = tb_branches (w_db w)"
    unfolding reserved_step_def by blast
  then show ?thesis using reserve(1) by (auto intro: results_alive simp: birth_guard_def non_terminal_def)
next
  case (stop ow aid r db')
  then show ?thesis unfolding requestStop_def by (auto dest: results_update)
qed (simp_all add: results_same_rows)

lemma row_move_alive: "row_move used db actor a a' \<Longrightarrow> non_terminal (at_state a)"
  by (cases rule: row_move.cases) (auto simp: non_terminal_def)

lemma ended_stays:
  assumes w: "world_ok w" and st: "turn_step k dp w w'" and a: "tb_attempts (w_db w) x = Some a"
  obtains a' where "tb_attempts (w_db w') x = Some a'" "at_branch a' = at_branch a" "\<not> non_terminal (at_state a) \<longrightarrow> a' = a"
  using w st
proof (cases rule: turn_step_db)
  case (1 actor)
  from rows_step_row [OF world_okD(1) [OF w] plane_rows [OF 1] a] obtain a' where "tb_attempts (w_db w') x = Some a'"
    "a' = a \<or> row_move (w_tokens w) (w_db w) actor a a' \<and> guarded_update a a' = None" by blast
  with row_move_alive [of "w_tokens w" "w_db w" actor a a'] guard_lineage(3) [of a a'] show thesis by (intro that [of a']) auto
next
  case 2
  from reserved_row [OF 2 a] that show thesis by simp
next
  case 3
  with a that show thesis by simp
qed

section \<open>The context is fresh at the boundary\<close>

text \<open>The results of a branch: its attempts that have ended, as their rows stand.\<close>

definition results_of :: "turn_db \<Rightarrow> string \<Rightarrow> string \<Rightarrow> attempt option" where
  "results_of db i x = (case tb_attempts db x of None \<Rightarrow> None
     | Some a \<Rightarrow> if at_branch a = i \<and> \<not> non_terminal (at_state a) then Some a else None)"

definition results_since :: "turn_db \<Rightarrow> turn_db \<Rightarrow> bool" where
  "results_since db db' \<longleftrightarrow> branches_grow db db' \<and> (\<forall>i. results_of db' i = results_of db i \<or> branch_bumped db db' i) \<and>
     (\<forall>x a. tb_attempts db x = Some a \<longrightarrow> (\<exists>a'. tb_attempts db' x = Some a' \<and> at_branch a' = at_branch a))"

lemma since_step:
  assumes w: "world_ok w" and st: "turn_step k dp w w'"
  shows "results_since (w_db w) (w_db w')"
  unfolding results_since_def
proof (intro conjI allI impI)
  note b = results_step [OF w st]
  show "branches_grow (w_db w) (w_db w')" using b by (simp add: results_bump_def)
  show "\<exists>a'. tb_attempts (w_db w') x = Some a' \<and> at_branch a' = at_branch a" if row: "tb_attempts (w_db w) x = Some a" for x a
  proof -
    obtain a' where "tb_attempts (w_db w') x = Some a'" "at_branch a' = at_branch a" "\<not> non_terminal (at_state a) \<longrightarrow> a' = a" by (rule ended_stays [OF w st row])
    then show ?thesis by blast
  qed
  fix i
  have "results_of (w_db w') i x = results_of (w_db w) i x" if n: "\<not> branch_bumped (w_db w) (w_db w') i" for x
  proof (cases "results_of (w_db w') i x")
    case (Some a)
    then have a: "tb_attempts (w_db w') x = Some a" "at_branch a = i" "\<not> non_terminal (at_state a)"
      by (auto simp: results_of_def split: option.splits if_splits)
    from b a(1,3) have "tb_attempts (w_db w) x = Some a \<or> branch_bumped (w_db w) (w_db w') (at_branch a)" by (simp add: results_bump_def)
    with n a(2) have "tb_attempts (w_db w) x = Some a" by simp
    with a Some show ?thesis by (simp add: results_of_def)
  next
    case None
    have "results_of (w_db w) i x \<noteq> Some a" for a
    proof
      assume "results_of (w_db w) i x = Some a"
      then have a: "tb_attempts (w_db w) x = Some a" "at_branch a = i" "\<not> non_terminal (at_state a)"
        by (auto simp: results_of_def split: option.splits if_splits)
      obtain a' where "tb_attempts (w_db w') x = Some a'" "at_branch a' = at_branch a" "\<not> non_terminal (at_state a) \<longrightarrow> a' = a" by (rule ended_stays [OF w st a(1)])
      with a None show False by (simp add: results_of_def)
    qed
    then have "results_of (w_db w) i x = None" by (metis not_None_eq)
    with None show ?thesis by simp
  qed
  then show "results_of (w_db w') i = results_of (w_db w) i \<or> branch_bumped (w_db w) (w_db w') i" by blast
qed

lemma grows_back: "branches_grow db d \<Longrightarrow> tb_branches d i = Some b' \<Longrightarrow> \<exists>b. tb_branches db i = Some b \<and> branch_le b b'"
  unfolding branches_grow_def by (drule spec [of _ i]) (auto split: option.splits)

lemma bumped_before: "branches_grow db d \<Longrightarrow> branch_bumped d db' i \<Longrightarrow> branch_bumped db db' i"
  unfolding branch_bumped_def by (auto simp: branch_le_def dest!: grows_back)

lemma bumped_after: "branch_bumped db d i \<Longrightarrow> branches_grow d db' \<Longrightarrow> branch_bumped db db' i"
  unfolding branch_bumped_def by (auto simp: branch_le_def dest!: branches_growD)

lemma grow_trans:
  assumes "branches_grow db d" "branches_grow d db'"
  shows "branches_grow db db'"
  unfolding branches_grow_def
proof
  fix i
  show "case tb_branches db i of None \<Rightarrow> tb_branches db' i = None | Some b \<Rightarrow> (\<exists>b'. tb_branches db' i = Some b' \<and> branch_le b b')"
  proof (cases "tb_branches db i")
    case None
    with assms(1) have "tb_branches d i = None" unfolding branches_grow_def by (drule_tac x = i in spec) simp
    with assms(2) have "tb_branches db' i = None" unfolding branches_grow_def by (drule_tac x = i in spec) simp
    with None show ?thesis by simp
  next
    case (Some b)
    with branches_growD [OF assms(1)] obtain b1 where "tb_branches d i = Some b1" "branch_le b b1" by blast
    moreover from branches_growD [OF assms(2) this(1)] obtain b2 where "tb_branches db' i = Some b2" "branch_le b1 b2" by blast
    ultimately show ?thesis using Some branch_le_trans [of b b1 b2] by simp
  qed
qed

lemma since_trans:
  assumes "results_since db d" "results_since d db'"
  shows "results_since db db'"
proof -
  have g: "branches_grow db d" "branches_grow d db'" using assms by (simp_all add: results_since_def)
  have "results_of db' i = results_of db i \<or> branch_bumped db db' i" for i
  proof (cases "branch_bumped db d i \<or> branch_bumped d db' i")
    case True
    with bumped_before [OF g(1)] bumped_after [OF _ g(2)] show ?thesis by blast
  next
    case False
    with assms show ?thesis unfolding results_since_def by metis
  qed
  moreover have "\<exists>a'. tb_attempts db' x = Some a' \<and> at_branch a' = at_branch a" if "tb_attempts db x = Some a" for x a
  proof -
    from assms(1) that obtain a1 where "tb_attempts d x = Some a1" "at_branch a1 = at_branch a" unfolding results_since_def by blast
    with assms(2) show ?thesis unfolding results_since_def by fastforce
  qed
  ultimately show ?thesis using grow_trans [OF g] by (simp add: results_since_def)
qed

lemma since_steps:
  assumes "(turn_step k dp)\<^sup>*\<^sup>* w w'" and r: "reach initial (turn_step k dp) w"
  shows "reach initial (turn_step k dp) w' \<and> results_since (w_db w) (w_db w')"
  using assms(1)
proof (induction rule: rtranclp_induct)
  case base
  then show ?case using r by (simp add: results_since_def)
next
  case (step u v)
  then have "reach initial (turn_step k dp) u" by simp
  then have "world_ok u" by (rule turns.inv_reach)
  from since_step [OF this step(2)] step show ?case by (auto intro: reach_step since_trans)
qed

text \<open>C12. A worker sends only what it built from the present state of the branch: if the boundary
transaction admits a context read earlier, then between the read and the transaction, whatever
the other workers, owners and the clock did, no attempt of the branch ended and none that had
ended changed.\<close>

theorem context_is_fresh_at_boundary:
  assumes "reach initial (turn_step k dp) w" and c: "readExecutionContext ow aid (w_db w) = Some c"
    and later: "(turn_step k dp)\<^sup>*\<^sup>* w w'"
    and cross: "boundaryTx dp now req \<lparr> jb_owner = ow, jb_attempt = aid, jb_token = tok \<rparr> c parent (w_db w') = Inr (Some r, db')"
  shows "results_of (w_db w') (ec_branch c) = results_of (w_db w) (ec_branch c)"
proof -
  from since_steps [OF later assms(1)] have s: "results_since (w_db w) (w_db w')" and w': "world_ok w'"
    by (auto intro: turns.inv_reach)
  from c obtain a where a: "tb_attempts (w_db w) aid = Some a"
    by (auto simp: readExecutionContext_def select_attempt_def split: option.splits if_splits)
  obtain b where b: "tb_branches (w_db w) (ec_branch c) = Some b" "ec_causal c = br_causal b" and br: "ec_branch c = at_branch a"
    using c a by (auto simp: readExecutionContext_def select_attempt_def split: option.splits if_splits)
  from s a obtain a' where a': "tb_attempts (w_db w') aid = Some a'" "at_branch a' = at_branch a" unfolding results_since_def by blast
  from cross have "commitDispatchBoundary_turn ow now aid tok (dp_lease dp) (ec_causal c) req parent (w_db w') = Inr (Some r, db')"
    using boundary_tx_cases [of dp now req "\<lparr> jb_owner = ow, jb_attempt = aid, jb_token = tok \<rparr>" c parent "w_db w'"] by auto
  then have "branch_at_version (w_db w') (ec_causal c) a'"
    unfolding commitDispatchBoundary_turn_def bindE_Inr_iff
    using a' by (auto elim!: update_attempt_InrE dest!: select_attempt_SomeD)
  with a'(2) br b have "\<not> branch_bumped (w_db w) (w_db w') (ec_branch c)"
    by (auto simp: branch_at_version_def branch_bumped_def split: option.splits)
  with s show ?thesis unfolding results_since_def by blast
qed

theorem context_is_fresh_at_boundary_witness:
  "let w = stage (At_load demo_job) (demo_tables demo_claimed_row) False [];
       w' = stage (At_boundary demo_job demo_context demo_plan ''p'' False [5] None) (demo_tables demo_claimed_row) False []
   in (turn_step demo_kms demo_deps)\<^sup>*\<^sup>* w w' \<and> results_of (w_db w') ''b'' = results_of (w_db w) ''b''"
proof -
  let ?w = "stage (At_load demo_job) (demo_tables demo_claimed_row) False []"
  let ?v = "stage (At_build demo_job demo_context demo_plan ''p'') (demo_tables demo_claimed_row) False []"
  let ?u = "stage (At_boundary demo_job demo_context demo_plan ''p'' False [5] None) (demo_tables demo_claimed_row) False []"
  have "turn_step demo_kms demo_deps ?w (worked ?w)" "turn_step demo_kms demo_deps ?v (worked ?v)"
    by (rule worked_step; simp add: smooth_def stage_def fresh_effect_def Let_def)+
  then have steps: "(turn_step demo_kms demo_deps)\<^sup>*\<^sup>* ?w ?u" by (simp add: step2 step3)
  have c: "readExecutionContext demo_owner ''a1'' (w_db ?w) = Some demo_context"
    by (simp add: stage_def readExecutionContext_def select_attempt_def turn_of_def on_branch_def demo_defs demo_rows owns_def)
  have "boundaryTx demo_deps 0 ''q'' \<lparr> jb_owner = demo_owner, jb_attempt = ''a1'', jb_token = ''k'' \<rparr> demo_context None (w_db ?u) =
      Inr (Some ''q'', demo_tables demo_crossed_row)"
    using demo_cross
    by (simp add: stage_def boundaryTx_def lockRootForDispatch_def conv_db_def demo_owner_def isRootExecutionEligible_def demo_deps_def)
  from context_is_fresh_at_boundary [OF demo_reach_claimed c steps this] steps show ?thesis
    by (simp add: demo_context_def)
qed

section \<open>A lost claim is lost for good\<close>

text \<open>Somebody else's token is on the row, and the old one has been drawn: it cannot come back.\<close>

definition superseded :: "string \<Rightarrow> string \<Rightarrow> world \<Rightarrow> bool" where
  "superseded tok x w \<longleftrightarrow> tok \<in> set (w_tokens w) \<and>
     (case tb_attempts (w_db w) x of None \<Rightarrow> False | Some a \<Rightarrow> at_token a \<noteq> Some tok)"

lemma row_move_token: "row_move used db actor a a' \<Longrightarrow> at_token a' = at_token a \<or> (\<exists>t. at_token a' = Some t \<and> t \<notin> set used)"
  by (cases rule: row_move.cases) (auto simp: lease_def)

lemma superseded_step:
  assumes w: "world_ok w" and st: "turn_step k dp w w'" and s: "superseded tok x w"
  shows "superseded tok x w'"
proof -
  from s obtain a where a: "tb_attempts (w_db w) x = Some a" "at_token a \<noteq> Some tok" "tok \<in> set (w_tokens w)"
    by (auto simp: superseded_def split: option.splits)
  have "\<exists>a'. tb_attempts (w_db w') x = Some a' \<and> at_token a' \<noteq> Some tok"
    using w st
  proof (cases rule: turn_step_db)
    case (1 actor)
    from rows_step_row [OF world_okD(1) [OF w] plane_rows [OF 1] a(1)] obtain a' where "tb_attempts (w_db w') x = Some a'"
      "a' = a \<or> row_move (w_tokens w) (w_db w) actor a a'" by blast
    with row_move_token [of "w_tokens w" "w_db w" actor a a'] a(2,3) show ?thesis by auto
  next
    case 2
    from reserved_row [OF 2 a(1)] a(2) show ?thesis by simp
  next
    case 3
    with a show ?thesis by simp
  qed
  with a(3) tokens_grow [OF st] show ?thesis by (auto simp: superseded_def)
qed

lemma superseded_steps:
  assumes "(turn_step k dp)\<^sup>*\<^sup>* w w'" and r: "reach initial (turn_step k dp) w" and s: "superseded tok x w"
  shows "reach initial (turn_step k dp) w' \<and> superseded tok x w'"
  using assms(1)
proof (induction rule: rtranclp_induct)
  case base
  then show ?case using r s by simp
next
  case (step u v)
  then have "reach initial (turn_step k dp) u" by simp
  then have "world_ok u" by (rule turns.inv_reach)
  from superseded_step [OF this step(2)] step show ?case by (auto intro: reach_step)
qed

lemma fenced_update: "tb_attempts db x = Some a \<Longrightarrow> \<not> cond a \<Longrightarrow> update_attempt ow x cond f db = Inr (None, db)"
  by (simp add: update_attempt_def select_attempt_def)

lemma fenced_tx:
  assumes "tb_attempts db (jb_attempt j) = Some a" "at_token a \<noteq> Some (jb_token j)"
  shows "boundaryTx dp now req j c pa db = Inr (None, db)"
    and "restoreDispatchingToAccepted ow now (jb_attempt j) (jb_token j) l db = Inr (False, db)"
    and "finalizeTx now j c st ec db = Inr (False, db)"
  using assms
  by (auto simp: boundaryTx_def commitDispatchBoundary_turn_def restoreDispatchingToAccepted_def finalizeTx_def finalizeAttempt_def
      fenced_update split: option.split)

lemma fenced_gate:
  assumes "tb_attempts db (jb_attempt d) = Some a" "at_token a \<noteq> Some (jb_token d)"
  shows "gateTx now d db = Inr (False, db)"
  using assms by (simp add: gateTx_def readPrePostAuthority_def select_attempt_def)

lemma fenced_advance:
  assumes adv: "advance k dp now p db e p' db'" and j: "job_of p = Some j" "past_gate p = None"
    and a: "tb_attempts db (jb_attempt j) = Some a" "at_token a \<noteq> Some (jb_token j)"
  shows "db' = db \<and> \<not> posts e"
  using adv
proof (cases rule: advance.cases)
  case (boundary req j' c plan cred stream body parent fl)
  then show ?thesis using j a fenced_tx(1) [of db j' a dp now req c parent]
    by (cases fl) (auto simp: boundaryClaimed_def run_tx_def)
next
  case (gate d fl)
  then show ?thesis using j a fenced_gate [of db d a now]
    by (cases fl) (auto simp: beforeDispatch_def run_tx_def)
next
  case (restore d fl)
  then show ?thesis using j a fenced_tx(2) [of db "job_of_dispatch d" a "jb_owner d" now "dp_lease dp"]
    by (cases fl) (auto simp: restoreGate_def run_tx_def)
next
  case (finalize j' c st ec out handler fl)
  then show ?thesis using j a fenced_tx(3) [of db j' a now c st ec]
    by (cases fl) (auto simp: finalizeAndWake_def run_tx_def)
qed (use j in auto)

text \<open>C11. A lost claim is lost for good: once another token stands on the row, a worker that still
carries the old one changes nothing in the database and sends nothing, in whatever phase it wakes
up and however much later.\<close>

theorem lost_claim_is_powerless:
  assumes "reach initial (turn_step k dp) w" "superseded tok x w" "(turn_step k dp)\<^sup>*\<^sup>* w w'"
    and j: "job_of (w_workers w' i) = Some \<lparr> jb_owner = ow, jb_attempt = x, jb_token = tok \<rparr>"
    and adv: "advance k dp (w_now w') (w_workers w' i) (w_db w') e p db'"
  shows "db' = w_db w' \<and> \<not> posts e"
proof -
  from superseded_steps [OF assms(3,1,2)] have w': "world_ok w'" and s: "superseded tok x w'"
    by (auto intro: turns.inv_reach)
  from s obtain a where a: "tb_attempts (w_db w') x = Some a" "at_token a \<noteq> Some tok"
    by (auto simp: superseded_def split: option.splits)
  from watchedD(2) [OF world_okD(4) [OF w'] j] a have "past_gate (w_workers w' i) = None"
    by (cases "past_gate (w_workers w' i)") auto
  from fenced_advance [OF adv j this] a show ?thesis by simp
qed

text \<open>Worker 0 of the sample run stalls before the boundary; worker 1 takes the expired claim over.\<close>

definition demo_rotated_row :: attempt where
  "demo_rotated_row = lease ''m'' ''w'' 60000001 60000 demo_attempt"

definition demo_overtaken :: world where
  "demo_overtaken = (stage (At_boundary demo_job demo_context demo_plan ''p'' False [5] None) (demo_tables demo_rotated_row) False [])
     \<lparr> w_now := 60000001, w_tokens := [''m'', ''k''],
       w_workers := (\<lambda>_. Ready)(0 := At_boundary demo_job demo_context demo_plan ''p'' False [5] None,
         1 := At_load \<lparr> jb_owner = demo_owner, jb_attempt = ''a1'', jb_token = ''m'' \<rparr>) \<rparr>"

lemma demo_rotate: "rotateExpiredAcceptedClaim demo_owner 60000001 ''m'' ''a1'' ''k'' ''w'' 60000 (demo_tables demo_claimed_row) =
    Inr (Some \<lparr> cg_token = ''m'', cg_claimant = ''w'', cg_deadline = 60000001 + us 60000 \<rparr>, demo_tables demo_rotated_row)"
  unfolding rotateExpiredAcceptedClaim_def
  by (subst update_demo [where b = demo_rotated_row]) (simp_all add: demo_head grant_def expired_def demo_rotated_row_def row_eval)

lemma demo_reach_overtaken: "demo_reaches demo_overtaken"
proof -
  let ?b = "stage (At_boundary demo_job demo_context demo_plan ''p'' False [5] None) (demo_tables demo_claimed_row) False []"
  let ?c = "\<lparr> cd_owner = demo_owner, cd_conv = ''c'', cd_attempt = ''a1'', cd_reason = Accepted_expired, cd_token = Some ''k'' \<rparr>"
  let ?j = "\<lparr> jb_owner = demo_owner, jb_attempt = ''a1'', jb_token = ''m'' \<rparr>"
  have b: "demo_reaches ?b" using demo_reach_claimed by (auto dest!: worked_stage simp: step2 step3)
  have late: "demo_reaches (?b\<lparr> w_now := 60000001 \<rparr>)" by (rule reach_step [OF b turn_step.tick]) (simp add: stage_def)
  have "processCandidate demo_deps 60000001 ''m'' ?c Tx_ok (demo_tables demo_claimed_row) = (At_load ?j, demo_tables demo_rotated_row)"
    using demo_rotate by (simp add: processCandidate_def arm_def Let_def run_tx_def demo_deps_def)
  then have "advance demo_kms demo_deps (w_now (?b\<lparr> w_now := 60000001 \<rparr>)) (w_workers (?b\<lparr> w_now := 60000001 \<rparr>) 1)
      (w_db (?b\<lparr> w_now := 60000001 \<rparr>)) (Drew ''m'') (At_load ?j) (demo_tables demo_rotated_row)"
    by (simp add: stage_def advance.take_up)
  from turn_step.worker [OF this] have "turn_step demo_kms demo_deps (?b\<lparr> w_now := 60000001 \<rparr>) demo_overtaken"
    by (simp add: fresh_effect_def stage_def effected_def demo_overtaken_def)
  from reach_step [OF late this] show ?thesis .
qed

theorem lost_claim_is_powerless_witness:
  "\<exists>p db'. advance demo_kms demo_deps (w_now demo_overtaken) (w_workers demo_overtaken 0) (w_db demo_overtaken) Silent p db' \<and>
     p = Ended O_boundary_lost \<and> db' = w_db demo_overtaken"
proof -
  have lost: "boundaryTx demo_deps 60000001 ''q'' demo_job demo_context None (demo_tables demo_rotated_row) =
      Inr (None, demo_tables demo_rotated_row)"
    by (rule fenced_tx(1) [of _ _ demo_rotated_row]) (simp_all add: demo_rotated_row_def demo_job_def)
  have adv: "advance demo_kms demo_deps (w_now demo_overtaken) (w_workers demo_overtaken 0) (w_db demo_overtaken) Silent
      (Ended O_boundary_lost) (demo_tables demo_rotated_row)"
    using lost by (auto simp: demo_overtaken_def stage_def boundaryClaimed_def run_tx_def intro!: advance.boundary [where req = "''q''" and fl = Tx_ok])
  have s: "superseded ''k'' ''a1'' demo_overtaken"
    by (simp add: superseded_def demo_overtaken_def stage_def demo_rotated_row_def)
  have j: "job_of (w_workers demo_overtaken 0) = Some \<lparr> jb_owner = demo_owner, jb_attempt = ''a1'', jb_token = ''k'' \<rparr>"
    by (simp add: demo_overtaken_def demo_job_def)
  from lost_claim_is_powerless [OF demo_reach_overtaken s rtranclp.rtrancl_refl j adv] adv show ?thesis by blast
qed

end
