(* ===== verification/Turn_Items.thy ===== *)
theory Turn_Items
  imports Turn_Branch
begin

text \<open>
  The items of the conversation tables: every item belongs to a turn or an attempt and has its
  content, every turn has exactly one input item, and the output of an attempt is numbered from
  one without gaps.
\<close>

section \<open>Items and their owners\<close>

definition outputs :: "turn_db \<Rightarrow> string \<Rightarrow> item list" where
  "outputs db x = filter (\<lambda>i. it_attempt i = Some x) (tb_items db)"

definition inputs :: "turn_db \<Rightarrow> string \<Rightarrow> item list" where
  "inputs db tid = filter (\<lambda>i. it_attempt i = None \<and> it_turn i = tid) (tb_items db)"

definition joins :: "turn_db \<Rightarrow> item \<Rightarrow> bool" where
  "joins db i = (case tb_contents db (it_content i) of None \<Rightarrow> False
     | Some c \<Rightarrow> cn_org c = it_org i \<and> cn_owner c = it_owner i \<and> cn_conv c = it_conv i)"

definition item_of_attempt :: "item \<Rightarrow> attempt \<Rightarrow> bool" where
  "item_of_attempt i a \<longleftrightarrow> it_org i = at_org a \<and> it_owner i = at_owner a \<and> it_conv i = at_conv a \<and>
     it_branch i = at_branch a \<and> it_turn i = at_turn a"

definition item_of_turn :: "item \<Rightarrow> turn \<Rightarrow> bool" where
  "item_of_turn i t \<longleftrightarrow> it_org i = ct_org t \<and> it_owner i = ct_owner t \<and> it_conv i = ct_conv t \<and>
     it_branch i = ct_branch t \<and> it_turn i = ct_id t"

definition item_home :: "turn_db \<Rightarrow> item \<Rightarrow> bool" where
  "item_home db i \<longleftrightarrow> joins db i \<and> (case it_attempt i of
       None \<Rightarrow> (\<exists>t \<in> set (tb_turns db). item_of_turn i t)
     | Some x \<Rightarrow> (\<exists>a. tb_attempts db x = Some a \<and> item_of_attempt i a))"

definition items_ok :: "turn_db \<Rightarrow> bool" where
  "items_ok db \<longleftrightarrow> (\<forall>i \<in> set (tb_items db). item_home db i) \<and>
     (\<forall>t \<in> set (tb_turns db). length (inputs db (ct_id t)) = 1) \<and>
     (\<forall>x. map it_seq (outputs db x) = [1..<Suc (length (outputs db x))])"

text \<open>What no step of the system takes away.\<close>

definition lineage_kept :: "turn_db \<Rightarrow> turn_db \<Rightarrow> bool" where
  "lineage_kept db db' \<longleftrightarrow> (\<forall>x a. tb_attempts db x = Some a \<longrightarrow> (\<exists>a'. tb_attempts db' x = Some a' \<and> same_identity a a')) \<and>
     set (tb_turns db) \<subseteq> set (tb_turns db') \<and> (\<forall>n c. tb_contents db n = Some c \<longrightarrow> tb_contents db' n = Some c)"

lemma home_kept:
  assumes "lineage_kept db db'" "item_home db i"
  shows "item_home db' i"
proof -
  from assms have "joins db' i" by (auto simp: item_home_def joins_def lineage_kept_def split: option.splits)
  moreover have "\<exists>a'. tb_attempts db' x = Some a' \<and> item_of_attempt i a'"
    if "it_attempt i = Some x" for x
  proof -
    from assms(2) that obtain a where "tb_attempts db x = Some a" "item_of_attempt i a" by (auto simp: item_home_def)
    with assms(1) show ?thesis unfolding lineage_kept_def by (fastforce simp: item_of_attempt_def same_identity_def)
  qed
  ultimately show ?thesis using assms by (auto simp: item_home_def lineage_kept_def split: option.splits)
qed

section \<open>What a step does to the items\<close>

lemma persist_appends:
  assumes "persistTx d ty cid e db = Inr (True, db')"
  obtains a where "select_attempt (jb_owner d) (jb_attempt d) db = Some a" "at_token a = Some (jb_token d)"
    "at_state a = Dispatching \<or> at_state a = Streaming" "tb_contents db cid = None" "ec_conv (ds_context d) = at_conv a"
    "db' = db\<lparr> tb_items := tb_items db @ [\<lparr> it_org = at_org a, it_owner = at_owner a, it_conv = at_conv a, it_branch = at_branch a,
        it_turn = at_turn a, it_attempt = Some (jb_attempt d), it_seq = nextAttemptItemSeq (jb_owner d) (jb_attempt d) db,
        it_type = ty, it_content = cid \<rparr>],
      tb_contents := (tb_contents db)(cid \<mapsto> \<lparr> cn_org = at_org a, cn_owner = at_owner a, cn_conv = at_conv a,
        cn_envelope = fst e, cn_hmac = snd e, cn_status = ''active'' \<rparr>) \<rparr>"
proof -
  from assms obtain db1 where db1: "insertContent (jb_owner d) (ec_conv (ds_context d)) cid e db = Inr db1"
    "appendFencedOutputItem (jb_owner d) (jb_attempt d) (jb_token d) (nextAttemptItemSeq (jb_owner d) (jb_attempt d) db) ty cid db1 = Inr (True, db')"
    by (auto simp: persistTx_def Let_def bindE_Inr_iff split: if_splits)
  from db1(1) have c: "tb_contents db cid = None" "db1 = db\<lparr> tb_contents := (tb_contents db)(cid \<mapsto>
        \<lparr> cn_org = ow_org (jb_owner d), cn_owner = ow_user (jb_owner d), cn_conv = ec_conv (ds_context d),
          cn_envelope = fst e, cn_hmac = snd e, cn_status = ''active'' \<rparr>) \<rparr>"
    by (auto simp: insertContent_def split: if_splits)
  from db1(2) obtain a where a: "select_attempt (jb_owner d) (jb_attempt d) db1 = Some a" "at_token a = Some (jb_token d)"
      "at_state a = Dispatching \<or> at_state a = Streaming" "ec_conv (ds_context d) = at_conv a"
    and db': "db' = db1\<lparr> tb_items := tb_items db1 @ [\<lparr> it_org = at_org a, it_owner = at_owner a, it_conv = at_conv a, it_branch = at_branch a,
        it_turn = at_turn a, it_attempt = Some (jb_attempt d), it_seq = nextAttemptItemSeq (jb_owner d) (jb_attempt d) db,
        it_type = ty, it_content = cid \<rparr>] \<rparr>"
    by (cases "select_attempt (jb_owner d) (jb_attempt d) db1")
      (auto simp: appendFencedOutputItem_def Let_def item_fks_def content_key_def c(2) split: if_splits)
  from a(1) have sel: "select_attempt (jb_owner d) (jb_attempt d) db = Some a" by (simp add: c(2) select_attempt_def)
  then have "at_org a = ow_org (jb_owner d)" "at_owner a = ow_user (jb_owner d)"
    by (auto dest!: select_attempt_SomeD simp: owns_def)
  with that [OF sel a(2,3) c(1) a(4)] db' c(2) a(4) show thesis by simp
qed

lemma persist_false: "persistTx d ty cid e db = Inr (False, db') \<Longrightarrow> db' = db"
  by (auto simp: persistTx_def Let_def bindE_Inr_iff split: if_splits)

definition same_items :: "turn_db \<Rightarrow> turn_db \<Rightarrow> bool" where
  "same_items db db' \<longleftrightarrow> tb_items db' = tb_items db \<and> tb_contents db' = tb_contents db"

lemma persist_run:
  assumes "persistOutputItem k d ty bs n cid fl db = (r, db')"
  obtains "db' = db" "r \<noteq> Some True"
    | e where "ck_encrypt k (ow_org (jb_owner d)) n bs = Some e" "persistTx d ty cid e db = Inr (True, db')" "r \<noteq> Some False"
proof (cases "ck_encrypt k (ow_org (jb_owner d)) n bs")
  case None
  with assms that(1) show thesis by (auto simp: persistOutputItem_def)
next
  case (Some e)
  with assms have "run_tx fl (persistTx d ty cid e db) db = (r, db')" by (simp add: persistOutputItem_def)
  then show thesis
  proof (cases rule: run_tx_cases)
    case (2 b)
    then show thesis using that(1) that(2) [OF Some] persist_false [of d ty cid e db db'] by (cases b) auto
  qed (use that(1) in auto)
qed

text \<open>A transaction on attempts and branches leaves items and contents alone.\<close>

lemma update_same_items: "update_attempt ow aid cond f db = Inr (r, db') \<Longrightarrow> same_items db db'"
  by (elim update_attempt_InrE) (simp_all add: same_items_def put_attempt_def)

lemma same_items_trans: "same_items a b \<Longrightarrow> same_items b c \<Longrightarrow> same_items a c"
  by (simp add: same_items_def)

lemma same_items_refl [simp]: "same_items db db"
  by (simp add: same_items_def)

lemma bind_same_items:
  "bindE (update_attempt ow aid cond f db) (\<lambda>(r, db'). Inr (g r, db')) = Inr (x, db') \<Longrightarrow> same_items db db'"
  by (auto simp: bindE_Inr_iff dest: update_same_items)

lemma store_same_items:
  "claimQueuedHead ow now tok aid cl l db = Inr (g, db') \<Longrightarrow> same_items db db'"
  "rotateExpiredAcceptedClaim ow now tok aid ex cl l db = Inr (g, db') \<Longrightarrow> same_items db db'"
  "restoreProvenanceAbsentDispatching ow now tok aid ex cl l gr db = Inr (g, db') \<Longrightarrow> same_items db db'"
  "ratchetStrandedToOutcomeUnknown ow now aid ex gr db = Inr (b, db') \<Longrightarrow> same_items db db'"
  "commitDispatchBoundary_turn ow now aid tok l v req pa db = Inr (rq, db') \<Longrightarrow> same_items db db'"
  "commitCredentialProvenance ow now aid tok cr pr db = Inr (b, db') \<Longrightarrow> same_items db db'"
  "restoreDispatchingToAccepted ow now aid tok l db = Inr (b, db') \<Longrightarrow> same_items db db'"
  "heartbeatClaim ow now aid tok l db = Inr (h, db') \<Longrightarrow> same_items db db'"
  "markStreaming ow now aid tok db = Inr (b, db') \<Longrightarrow> same_items db db'"
  "finalizeAttempt ow now aid tok st ec db = Inr (b, db') \<Longrightarrow> same_items db db'"
  unfolding claimQueuedHead_def rotateExpiredAcceptedClaim_def restoreProvenanceAbsentDispatching_def
    ratchetStrandedToOutcomeUnknown_def commitDispatchBoundary_turn_def commitCredentialProvenance_def
    restoreDispatchingToAccepted_def heartbeatClaim_def markStreaming_def finalizeAttempt_def
  by (erule bind_same_items)+

lemma bump_same_items [simp]: "same_items db (bumpBranchCausalVersion ow now c i db') = same_items db db'"
  by (simp add: same_items_def)

lemma ratchet_same_items: "ratchetAndWake ow now aid e gr db = Inr (b, db') \<Longrightarrow> same_items db db'"
  by (auto simp: ratchetAndWake_def bindE_Inr_iff dest!: store_same_items split: option.splits if_splits)

lemma arm_same_items:
  assumes "arm dp now tok c db = Inr (r, db')"
  shows "same_items db db'"
proof (cases "cd_reason c")
  case Dispatching_expired
  show ?thesis
  proof (cases "cd_token c")
    case (Some e)
    with assms Dispatching_expired obtain g db1 where res: "restoreProvenanceAbsentDispatching (cd_owner c) now tok (cd_attempt c) e
        (dp_claimant dp) (dp_lease dp) (dp_grace dp) db = Inr (g, db1)"
      and rest: "case g of Some cl \<Rightarrow> db' = db1
        | None \<Rightarrow> (\<exists>b. ratchetAndWake (cd_owner c) now (cd_attempt c) e (dp_grace dp) db1 = Inr (b, db'))"
      by (auto simp: arm_def Let_def bindE_Inr_iff split: option.splits)
    from store_same_items(3) [OF res] rest show ?thesis
      by (cases g) (auto dest: ratchet_same_items intro: same_items_trans)
  qed (use assms Dispatching_expired in \<open>simp add: arm_def Let_def\<close>)
qed (use assms in \<open>auto simp: arm_def Let_def bindE_Inr_iff dest: store_same_items ratchet_same_items split: option.splits\<close>)

lemma run_same_items: "run_tx fl m db = (r, db') \<Longrightarrow> (\<And>x. m = Inr (x, db') \<Longrightarrow> same_items db db') \<Longrightarrow> same_items db db'"
  by (erule run_tx_cases) auto

definition persisted :: "conv_kms \<Rightarrow> phase \<Rightarrow> turn_db \<Rightarrow> turn_db \<Rightarrow> bool" where
  "persisted k p db db' \<longleftrightarrow> (\<exists>d ty bs n cid sealed. past_gate p = Some d \<and>
     ck_encrypt k (ow_org (jb_owner d)) n bs = Some sealed \<and> persistTx d ty cid sealed db = Inr (True, db'))"

lemma persist_effect:
  assumes "persistOutputItem k d ty bs n cid fl db = (r, db')" "past_gate p = Some d"
  shows "same_items db db' \<or> persisted k p db db'"
  using assms(1)
proof (cases rule: persist_run)
  case (2 e)
  with assms(2) show ?thesis unfolding persisted_def by blast
qed simp

lemma advance_items:
  assumes "advance k dp now p db e p' db'"
  shows "same_items db db' \<or> persisted k p db db'"
  using assms
proof (cases rule: advance.cases)
  case (take_up tok c fl)
  then obtain r where "run_tx fl (arm dp now tok c db) db = (r, db')"
    by (cases "run_tx fl (arm dp now tok c db) db") (auto simp: processCandidate_def split: option.splits armed.splits)
  then have "same_items db db'" by (rule run_same_items) (rule arm_same_items)
  then show ?thesis ..
next
  case (boundary req j c plan cred stream body parent fl)
  then obtain r where run: "run_tx fl (boundaryTx dp now req j c parent db) db = (r, db')"
    by (cases "run_tx fl (boundaryTx dp now req j c parent db) db") (auto simp: boundaryClaimed_def split: option.splits)
  have "same_items db db'" if "boundaryTx dp now req j c parent db = Inr (x, db')" for x
    using boundary_tx_cases [of dp now req j c parent db] that by (auto dest: sym [THEN store_same_items(5)])
  with run have "same_items db db'" by (rule run_same_items)
  then show ?thesis ..
next
  case (gate d fl)
  then obtain r where run: "run_tx fl (gateTx now d db) db = (r, db')"
    by (cases "run_tx fl (gateTx now d db) db") (auto simp: beforeDispatch_def split: option.splits)
  have "same_items db db'" if "gateTx now d db = Inr (x, db')" for x
    using gate_tx_cases [of now d db] that by (auto dest: sym [THEN store_same_items(6)])
  with run have "same_items db db'" by (rule run_same_items)
  then show ?thesis ..
next
  case (mark d ans fl)
  then obtain r where "run_tx fl (markStreaming (jb_owner d) now (jb_attempt d) (jb_token d) db) db = (r, db')"
    by (cases "run_tx fl (markStreaming (jb_owner d) now (jb_attempt d) (jb_token d) db) db") (auto simp: recordResult_def split: option.splits bool.splits)
  then have "same_items db db'" by (rule run_same_items) (rule store_same_items)
  then show ?thesis ..
next
  case (restore d fl)
  then obtain r where "run_tx fl (restoreDispatchingToAccepted (jb_owner d) now (jb_attempt d) (jb_token d) (dp_lease dp) db) db = (r, db')"
    by (cases "run_tx fl (restoreDispatchingToAccepted (jb_owner d) now (jb_attempt d) (jb_token d) (dp_lease dp) db) db")
       (auto simp: restoreGate_def split: option.splits)
  then have "same_items db db'" by (rule run_same_items) (rule store_same_items)
  then show ?thesis ..
next
  case (finalize j c st ec out handler fl)
  then obtain r where run: "run_tx fl (finalizeTx now j c st ec db) db = (r, db')"
    by (cases "run_tx fl (finalizeTx now j c st ec db) db") (auto simp: finalizeAndWake_def split: option.splits)
  have "same_items db db'" if "finalizeTx now j c st ec db = Inr (x, db')" for x
    using that by (auto simp: finalizeTx_def bindE_Inr_iff dest!: store_same_items split: if_splits)
  with run have "same_items db db'" by (rule run_same_items)
  then show ?thesis ..
next
  case (persist d status body nonce cid fl)
  then obtain r where "persistOutputItem k d ''native_response'' body nonce cid fl db = (r, db')"
    by (cases "persistOutputItem k d ''native_response'' body nonce cid fl db") (auto simp: recordBody_def split: option.splits bool.splits)
  then show ?thesis by (rule persist_effect) (simp add: persist)
next
  case (flush d status buf after nonce cid fl)
  then obtain r where "persistOutputItem k d ''native_stream_chunk'' buf nonce cid fl db = (r, db')"
    by (auto simp: flushStream_def split: prod.splits)
  then show ?thesis by (rule persist_effect) (simp add: flush)
qed simp_all

lemma turn_step_items:
  assumes w: "world_ok w" and st: "turn_step k dp w w'"
  obtains "same_items (w_db w) (w_db w')" "tb_turns (w_db w') = tb_turns (w_db w)"
    | i where "persisted k (w_workers w i) (w_db w) (w_db w')"
    | ow env cid inp config tid where "reserveTurn ow env cid inp config (w_db w) = Inr (tid, w_db w')"
  using st
proof (cases rule: turn_step.cases)
  case (worker i e p db')
  from advance_worker [OF worker(2) world_okD(2) [OF w] world_okD(1) [OF w] worker(3) refl]
  have "tb_turns db' = tb_turns (w_db w)" by (simp add: phase_step_def plane_step_def)
  with advance_items [OF worker(2)] show thesis using that(1) that(2) [of i] by (auto simp: worker(1))
next
  case (beat ow aid tok h db')
  from store_same_items(8) [OF beat(2)] beat_plane [OF beat(2), of "[]"] show thesis
    by (intro that(1)) (simp_all add: beat(1) plane_step_def)
next
  case (reserve ow env cid inp config tid db')
  from reserve(2) show thesis by (intro that(3) [of ow env cid inp config tid]) (simp add: reserve(1))
next
  case (stop ow aid r db')
  from stop(2) have "same_items (w_db w) db'" by (auto simp: requestStop_def dest: update_same_items)
  with stop_plane [OF stop(2), of "[]"] show thesis by (intro that(1)) (simp_all add: stop(1) plane_step_def)
qed (rule that(1); simp add: same_items_def)+

lemma guard_identity': "a' = a \<or> guarded_update a a' = None \<Longrightarrow> same_identity a a'"
  by (auto dest: guard_identity simp: same_identity_def)

lemma lineage_step:
  assumes w: "world_ok w" and st: "turn_step k dp w w'"
  shows "lineage_kept (w_db w) (w_db w')"
proof -
  have rows: "\<exists>a'. tb_attempts (w_db w') x = Some a' \<and> same_identity a a'" if a: "tb_attempts (w_db w) x = Some a" for x a
    using w st
  proof (cases rule: turn_step_db)
    case (1 actor)
    from rows_step_row [OF world_okD(1) [OF w] plane_rows [OF 1] a] obtain a' where "tb_attempts (w_db w') x = Some a'"
      "a' = a \<or> guarded_update a a' = None" by blast
    with guard_identity' show ?thesis by blast
  next
    case 2
    from reserved_row [OF 2 a] show ?thesis by (auto simp: same_identity_def)
  next
    case 3
    with a show ?thesis by (auto simp: same_identity_def)
  qed
  have turns: "set (tb_turns (w_db w)) \<subseteq> set (tb_turns (w_db w'))"
    using w st by (cases rule: turn_step_db) (auto simp: plane_step_def reserved_step_def)
  have contents: "tb_contents (w_db w') n = Some c" if c: "tb_contents (w_db w) n = Some c" for n c
    using w st
  proof (cases rule: turn_step_items)
    case 1
    with c show ?thesis by (simp add: same_items_def)
  next
    case (2 i)
    then obtain d ty cid sealed where "persistTx d ty cid sealed (w_db w) = Inr (True, w_db w')" unfolding persisted_def by blast
    then show ?thesis by (rule persist_appends) (use c in auto)
  next
    case (3 ow env cid inp config tid)
    then show ?thesis by (rule reserveTurn_InrD) (use c in \<open>auto simp: reserved_db_def\<close>)
  qed
  from rows turns contents show ?thesis by (simp add: lineage_kept_def)
qed

section \<open>Every item in its place\<close>

lemma max_upto: "foldr max [1..<Suc n] 0 = n"
proof -
  have "foldr max [1..<Suc n] b = max n b" for b
    by (induction n arbitrary: b) auto
  then show ?thesis by simp
qed

lemma next_seq:
  assumes ok: "items_ok db" and a: "tb_attempts db x = Some a" "owns ow a"
  shows "nextAttemptItemSeq ow x db = Suc (length (outputs db x))"
proof -
  have "filter (\<lambda>i. it_attempt i = Some x \<and> it_org i = ow_org ow \<and> it_owner i = ow_user ow) (tb_items db) = outputs db x"
    unfolding outputs_def
  proof (rule filter_cong [OF refl])
    fix i assume "i \<in> set (tb_items db)"
    with ok have "item_home db i" by (simp add: items_ok_def)
    then show "(it_attempt i = Some x \<and> it_org i = ow_org ow \<and> it_owner i = ow_user ow) = (it_attempt i = Some x)"
      using a by (auto simp: item_home_def item_of_attempt_def owns_def)
  qed
  then show ?thesis using ok max_upto by (simp add: nextAttemptItemSeq_def items_ok_def)
qed

lemma items_same:
  assumes ok: "items_ok db" and same: "same_items db db'" and lin: "lineage_kept db db'"
    and t: "tb_turns db' = tb_turns db"
  shows "items_ok db'"
  using ok same home_kept [OF lin] unfolding items_ok_def by (simp add: same_items_def outputs_def inputs_def t)

lemma items_persist:
  assumes ok: "items_ok db" and p: "persistTx d ty cid sealed db = Inr (True, db')" and lin: "lineage_kept db db'"
  shows "items_ok db'"
  using p
proof (rule persist_appends)
  fix a
  assume a: "select_attempt (jb_owner d) (jb_attempt d) db = Some a"
    and db': "db' = db\<lparr> tb_items := tb_items db @ [\<lparr> it_org = at_org a, it_owner = at_owner a, it_conv = at_conv a, it_branch = at_branch a,
        it_turn = at_turn a, it_attempt = Some (jb_attempt d), it_seq = nextAttemptItemSeq (jb_owner d) (jb_attempt d) db,
        it_type = ty, it_content = cid \<rparr>],
      tb_contents := (tb_contents db)(cid \<mapsto> \<lparr> cn_org = at_org a, cn_owner = at_owner a, cn_conv = at_conv a,
        cn_envelope = fst sealed, cn_hmac = snd sealed, cn_status = ''active'' \<rparr>) \<rparr>"
  let ?i = "\<lparr> it_org = at_org a, it_owner = at_owner a, it_conv = at_conv a, it_branch = at_branch a,
        it_turn = at_turn a, it_attempt = Some (jb_attempt d), it_seq = nextAttemptItemSeq (jb_owner d) (jb_attempt d) db,
        it_type = ty, it_content = cid \<rparr>"
  from a have row: "tb_attempts db (jb_attempt d) = Some a" "owns (jb_owner d) a" by (auto dest: select_attempt_SomeD)
  have items: "tb_items db' = tb_items db @ [?i]" and rest: "tb_turns db' = tb_turns db" "tb_attempts db' = tb_attempts db"
    by (simp_all add: db')
  have "item_home db' ?i" using row(1) by (simp add: db' item_home_def joins_def item_of_attempt_def)
  moreover have "map it_seq (outputs db' x) = [1..<Suc (length (outputs db' x))]" for x
    using ok next_seq [OF ok row] by (cases "x = jb_attempt d") (simp_all add: items_ok_def outputs_def items)
  moreover have "inputs db' tid = inputs db tid" for tid by (simp add: inputs_def items)
  ultimately show "items_ok db'" using ok home_kept [OF lin] unfolding items_ok_def by (auto simp: items rest)
qed

lemma items_reserve:
  assumes ok: "items_ok db" and r: "reserveTurn ow env cid inp config db = Inr (tid, db')" and lin: "lineage_kept db db'"
  shows "items_ok db'"
  using r
proof (rule reserveTurn_InrD)
  fix b
  assume new: "\<not> list_ex (\<lambda>q. ct_id q = se_turn env) (tb_turns db)"
    and db': "db' = reserved_db ow env cid (br_id b) (lower (si_client inp)) config db"
  let ?i = "input_item ow env cid (br_id b)"
  let ?t = "new_turn ow env cid (br_id b) (lower (si_client inp)) (nextTurnSeq ow cid (br_id b) db)"
  have items: "tb_items db' = tb_items db @ [?i]" and turns: "tb_turns db' = tb_turns db @ [?t]"
    by (simp_all add: db' reserved_db_def)
  have "item_home db' ?i"
    by (simp add: item_home_def joins_def db' reserved_db_def input_item_def config_row_def item_of_turn_def new_turn_def)
  moreover have "outputs db' x = outputs db x" for x by (simp add: outputs_def items input_item_def)
  moreover have none: "inputs db (se_turn env) = []"
  proof -
    have "\<not> (it_attempt i = None \<and> it_turn i = se_turn env)" if i: "i \<in> set (tb_items db)" for i
    proof
      assume o: "it_attempt i = None \<and> it_turn i = se_turn env"
      from ok i have "item_home db i" by (simp add: items_ok_def)
      with o new show False by (auto simp: item_home_def item_of_turn_def list_ex_iff)
    qed
    then show ?thesis unfolding inputs_def by (intro filter_False) blast
  qed
  moreover have "length (inputs db' (ct_id t)) = 1" if t: "t \<in> set (tb_turns db')" for t
  proof (cases "t = ?t")
    case True
    have "inputs db' (se_turn env) = inputs db (se_turn env) @ [?i]" by (simp add: inputs_def items input_item_def)
    with none True show ?thesis by (simp add: new_turn_def)
  next
    case False
    with t have told: "t \<in> set (tb_turns db)" by (simp add: turns)
    with new have "ct_id t \<noteq> se_turn env" by (auto simp: list_ex_iff)
    then have "inputs db' (ct_id t) = inputs db (ct_id t)" by (simp add: inputs_def items input_item_def)
    with told ok show ?thesis by (simp add: items_ok_def)
  qed
  ultimately show "items_ok db'" using ok home_kept [OF lin] unfolding items_ok_def by (auto simp: items)
qed

lemma items_step:
  assumes ok: "items_ok (w_db w)" and w: "world_ok w" and st: "turn_step k dp w w'"
  shows "items_ok (w_db w')"
  using w st
proof (cases rule: turn_step_items)
  case 1
  with items_same [OF ok _ lineage_step [OF w st]] show ?thesis by simp
next
  case (2 i)
  then obtain d ty cid sealed where "persistTx d ty cid sealed (w_db w) = Inr (True, w_db w')" unfolding persisted_def by blast
  from items_persist [OF ok this lineage_step [OF w st]] show ?thesis .
next
  case (3 ow env cid inp config tid)
  from items_reserve [OF ok 3 lineage_step [OF w st]] show ?thesis .
qed

end
