(* ===== verification/Turn_Output.thy ===== *)
theory Turn_Output
  imports Turn_Items
begin

text \<open>
  The recorded output of a completed attempt is what the provider sent: the contents of its items,
  decrypted and joined in order, are the bytes received, byte for byte.
\<close>

section \<open>What is stored\<close>

definition sealed_as :: "conv_kms \<Rightarrow> turn_db \<Rightarrow> item \<Rightarrow> bytes \<Rightarrow> bool" where
  "sealed_as k db i bs \<longleftrightarrow> (\<exists>c n. tb_contents db (it_content i) = Some c \<and> cn_status c = ''active'' \<and>
     ck_encrypt k (it_org i) n bs = Some (cn_envelope c, cn_hmac c))"

definition stored :: "conv_kms \<Rightarrow> turn_db \<Rightarrow> string \<Rightarrow> bytes \<Rightarrow> bool" where
  "stored k db x bs \<longleftrightarrow> (\<exists>parts. list_all2 (sealed_as k db) (outputs db x) parts \<and> concat parts = bs)"

definition chunked :: "turn_db \<Rightarrow> string \<Rightarrow> bool" where
  "chunked db x \<longleftrightarrow> list_all (\<lambda>i. it_type i = ''native_stream_chunk'') (outputs db x)"

definition well_shaped :: "turn_db \<Rightarrow> string \<Rightarrow> bool" where
  "well_shaped db x \<longleftrightarrow> chunked db x \<or> (\<exists>i. outputs db x = [i] \<and> it_type i = ''native_response'')"

text \<open>What the phase of a worker says about what it has received and stored.\<close>

fun phase_out :: "conv_kms \<Rightarrow> turn_db \<Rightarrow> (string \<Rightarrow> bytes) \<Rightarrow> phase \<Rightarrow> bool" where
  "phase_out k db wire (At_forward d) = (outputs db (jb_attempt d) = [] \<and> wire (jb_attempt d) = [])"
| "phase_out k db wire (At_response d) = (outputs db (jb_attempt d) = [] \<and> wire (jb_attempt d) = [])"
| "phase_out k db wire (At_mark d a) = (outputs db (jb_attempt d) = [] \<and>
     wire (jb_attempt d) = (case a of Whole st body \<Rightarrow> body | Opened st \<Rightarrow> []))"
| "phase_out k db wire (At_persist d st body) = (outputs db (jb_attempt d) = [] \<and> wire (jb_attempt d) = body)"
| "phase_out k db wire (At_drain d st buf) = (chunked db (jb_attempt d) \<and>
     (\<exists>bs. stored k db (jb_attempt d) bs \<and> wire (jb_attempt d) = bs @ buf))"
| "phase_out k db wire (At_flush d st buf f) = (chunked db (jb_attempt d) \<and>
     (\<exists>bs. stored k db (jb_attempt d) bs \<and> wire (jb_attempt d) = bs @ buf))"
| "phase_out k db wire (At_evidence d st e) =
     (e = Finished \<longrightarrow> chunked db (jb_attempt d) \<and> stored k db (jb_attempt d) (wire (jb_attempt d)))"
| "phase_out k db wire (At_finalize j c st ec out h) =
     (st = Completed_attempt \<longrightarrow> well_shaped db (jb_attempt j) \<and> stored k db (jb_attempt j) (wire (jb_attempt j)))"
| "phase_out k db wire p = True"

text \<open>The workers the facts are about: past the gate, or about to complete.\<close>

fun recording :: "phase \<Rightarrow> job option" where
  "recording (At_finalize j c st ec out h) = (if st = Completed_attempt then Some j else None)"
| "recording p = map_option job_of_dispatch (past_gate p)"

lemma recording_job: "recording p = Some j \<Longrightarrow> job_of p = Some j"
  by (cases p) (auto split: if_splits)

lemma recording_gate: "past_gate p = Some d \<Longrightarrow> recording p = Some (job_of_dispatch d)"
  by (cases p) auto

definition recorder :: "turn_db \<Rightarrow> job \<Rightarrow> bool" where
  "recorder db j \<longleftrightarrow> (\<exists>a. tb_attempts db (jb_attempt j) = Some a \<and> at_token a = Some (jb_token j) \<and>
     at_credential a \<noteq> None \<and> at_state a \<noteq> Completed_attempt)"

definition unbound :: "turn_db \<Rightarrow> string \<Rightarrow> bool" where
  "unbound db x = (case tb_attempts db x of None \<Rightarrow> True | Some a \<Rightarrow> at_credential a = None)"

definition output_ok :: "conv_kms \<Rightarrow> world \<Rightarrow> bool" where
  "output_ok k w \<longleftrightarrow> world_ok w \<and> items_ok (w_db w) \<and>
     (\<forall>x. unbound (w_db w) x \<longrightarrow> outputs (w_db w) x = [] \<and> w_wire w x = []) \<and>
     (\<forall>i. phase_out k (w_db w) (w_wire w) (w_workers w i)) \<and>
     (\<forall>i j. recording (w_workers w i) = Some j \<longrightarrow> recorder (w_db w) j) \<and>
     (\<forall>x a. tb_attempts (w_db w) x = Some a \<and> at_state a = Completed_attempt \<longrightarrow>
        well_shaped (w_db w) x \<and> stored k (w_db w) x (w_wire w x))"

lemma output_okD:
  assumes "output_ok k w"
  shows "world_ok w" "items_ok (w_db w)" "unbound (w_db w) x \<Longrightarrow> outputs (w_db w) x = [] \<and> w_wire w x = []"
    "phase_out k (w_db w) (w_wire w) (w_workers w i)" "recording (w_workers w i) = Some j \<Longrightarrow> recorder (w_db w) j"
    "tb_attempts (w_db w) x = Some a \<Longrightarrow> at_state a = Completed_attempt \<Longrightarrow> well_shaped (w_db w) x \<and> stored k (w_db w) x (w_wire w x)"
  using assms unfolding output_ok_def by blast+

section \<open>What the steps of the others leave\<close>

definition out_kept :: "turn_db \<Rightarrow> turn_db \<Rightarrow> string \<Rightarrow> bool" where
  "out_kept db db' x \<longleftrightarrow> outputs db' x = outputs db x \<and> (\<forall>n c. tb_contents db n = Some c \<longrightarrow> tb_contents db' n = Some c)"

lemma sealed_kept: "(\<And>n c. tb_contents db n = Some c \<Longrightarrow> tb_contents db' n = Some c) \<Longrightarrow> sealed_as k db i bs \<Longrightarrow> sealed_as k db' i bs"
  unfolding sealed_as_def by blast

lemma stored_kept:
  assumes "out_kept db db' x" "stored k db x bs"
  shows "stored k db' x bs"
proof -
  from assms obtain parts where p: "list_all2 (sealed_as k db) (outputs db x) parts" "concat parts = bs"
    and kept: "outputs db' x = outputs db x" "\<And>n c. tb_contents db n = Some c \<Longrightarrow> tb_contents db' n = Some c"
    by (auto simp: stored_def out_kept_def)
  from p(1) have "list_all2 (sealed_as k db') (outputs db x) parts"
    by (rule list_all2_mono) (rule sealed_kept [OF kept(2)])
  with p(2) kept(1) show ?thesis by (auto simp: stored_def)
qed

lemma shape_kept: "out_kept db db' x \<Longrightarrow> chunked db' x = chunked db x" "out_kept db db' x \<Longrightarrow> well_shaped db' x = well_shaped db x"
  by (simp_all add: out_kept_def chunked_def well_shaped_def)

lemma out_kept_same: "same_items db db' \<Longrightarrow> out_kept db db' x"
  by (simp add: same_items_def out_kept_def outputs_def)

lemma phase_out_kept:
  assumes "phase_out k db wire p" "\<And>j. recording p = Some j \<Longrightarrow> out_kept db db' (jb_attempt j) \<and> wire' (jb_attempt j) = wire (jb_attempt j)"
  shows "phase_out k db' wire' p"
  using assms(1)
proof (cases p)
  case (At_mark d a)
  with assms show ?thesis by (simp add: out_kept_def)
next
  case (At_drain d st buf)
  with assms stored_kept [of db db' "jb_attempt d" k] shape_kept [of db db' "jb_attempt d"] show ?thesis by auto
next
  case (At_flush d st buf f)
  with assms stored_kept [of db db' "jb_attempt d" k] shape_kept [of db db' "jb_attempt d"] show ?thesis by auto
next
  case (At_evidence d st e)
  with assms stored_kept [of db db' "jb_attempt d" k] shape_kept [of db db' "jb_attempt d"] show ?thesis by auto
next
  case (At_finalize j c st ec out h)
  with assms stored_kept [of db db' "jb_attempt j" k] shape_kept [of db db' "jb_attempt j"] show ?thesis by auto
qed (use assms in \<open>simp_all add: out_kept_def\<close>)

lemma move_completed:
  assumes "row_move used db actor a a'" "at_state a' = Completed_attempt" "at_token a = Some tok" "actor \<noteq> Some tok"
  shows "False"
  using assms by (cases rule: row_move.cases) (auto simp: lease_def non_terminal_def)

lemma recorder_other:
  assumes r: "recorder db j" and ok: "tables_ok db" and st: "plane_step used actor db db'" and other: "actor \<noteq> Some (jb_token j)"
  shows "recorder db' j"
proof -
  from r obtain a where a: "tb_attempts db (jb_attempt j) = Some a" "at_token a = Some (jb_token j)" "at_credential a \<noteq> None"
    "at_state a \<noteq> Completed_attempt" by (auto simp: recorder_def)
  from rows_step_row [OF ok plane_rows [OF st] a(1)] obtain a' where a': "tb_attempts db' (jb_attempt j) = Some a'"
    and mv: "a' = a \<or> row_move used db actor a a' \<and> guarded_update a a' = None" by blast
  have "at_token a' = Some (jb_token j) \<and> at_credential a' \<noteq> None \<and> at_state a' \<noteq> Completed_attempt"
    using mv
  proof
    assume m: "row_move used db actor a a' \<and> guarded_update a a' = None"
    with move_of_bound [OF _ tables_checks [OF ok a(1)] a(3,2) other] guard_credential [of a a'] a(3)
      move_completed [OF _ _ a(2) other] show ?thesis by blast
  qed (use a in simp)
  with a' show ?thesis by (simp add: recorder_def)
qed

lemma unbound_back: "lineage_kept db db' \<Longrightarrow> (\<And>a a'. tb_attempts db x = Some a \<Longrightarrow> tb_attempts db' x = Some a' \<Longrightarrow>
    at_credential a \<noteq> None \<Longrightarrow> at_credential a' \<noteq> None) \<Longrightarrow> unbound db' x \<Longrightarrow> unbound db x"
  unfolding lineage_kept_def unbound_def by (cases "tb_attempts db x") fastforce+

lemma unbound_plane:
  assumes ok: "tables_ok db" and st: "plane_step used actor db db'" and u: "unbound db' x"
  shows "unbound db x"
proof (cases "tb_attempts db x")
  case (Some a)
  from rows_step_row [OF ok plane_rows [OF st] Some] obtain a' where "tb_attempts db' x = Some a'"
    "a' = a \<or> guarded_update a a' = None" by blast
  with u Some guard_credential [of a a'] show ?thesis by (cases "at_credential a") (auto simp: unbound_def)
qed (simp add: unbound_def)

text \<open>Steps without a worker: beats, stops, reservations, rotations, the clock.\<close>

lemma completed_plane:
  assumes ok: "tables_ok db" and st: "plane_step used None db db'" and a': "tb_attempts db' x = Some a'" "at_state a' = Completed_attempt"
  shows "\<exists>a. tb_attempts db x = Some a \<and> at_state a = Completed_attempt"
proof -
  from rows_step_new [OF ok plane_rows [OF st] a'(1)] obtain a where "tb_attempts db x = Some a"
    and mv: "a' = a \<or> row_move used db None a a'" by blast
  moreover have "at_state a = Completed_attempt" if "row_move used db None a a'"
    using that a'(2) by (cases rule: row_move.cases) (auto simp: lease_def non_terminal_def)
  ultimately show ?thesis using a'(2) by auto
qed

lemma output_quiet:
  assumes o: "output_ok k w" and w': "world_ok w'" "items_ok (w_db w')" and ws: "w_workers w' = w_workers w" "w_wire w' = w_wire w"
    and kept: "\<And>x. out_kept (w_db w) (w_db w') x"
    and rec: "\<And>j. recorder (w_db w) j \<Longrightarrow> recorder (w_db w') j"
    and unb: "\<And>x. unbound (w_db w') x \<Longrightarrow> unbound (w_db w) x"
    and fin: "\<And>x a'. tb_attempts (w_db w') x = Some a' \<Longrightarrow> at_state a' = Completed_attempt \<Longrightarrow>
      \<exists>a. tb_attempts (w_db w) x = Some a \<and> at_state a = Completed_attempt"
  shows "output_ok k w'"
  unfolding output_ok_def
proof (intro conjI allI impI)
  show "outputs (w_db w') x = []" "w_wire w' x = []" if "unbound (w_db w') x" for x
    using output_okD(3) [OF o unb [OF that]] kept [of x] ws by (simp_all add: out_kept_def)
  show "phase_out k (w_db w') (w_wire w') (w_workers w' i)" for i
    unfolding ws using output_okD(4) [OF o] by (rule phase_out_kept) (simp add: kept)
  show "recorder (w_db w') j" if "recording (w_workers w' i) = Some j" for i j
    using output_okD(5) [OF o] that rec by (simp add: ws)
  fix x a assume "tb_attempts (w_db w') x = Some a \<and> at_state a = Completed_attempt"
  with fin obtain a0 where "tb_attempts (w_db w) x = Some a0" "at_state a0 = Completed_attempt" by blast
  from output_okD(6) [OF o this] shape_kept [OF kept] stored_kept [OF kept]
  show "well_shaped (w_db w') x" "stored k (w_db w') x (w_wire w' x)" by (simp_all add: ws)
qed (use w' in simp_all)

lemma output_plane:
  assumes o: "output_ok k w" and w': "world_ok w'" "items_ok (w_db w')" and ws: "w_workers w' = w_workers w" "w_wire w' = w_wire w"
    and st: "plane_step (w_tokens w) None (w_db w) (w_db w')" and same: "same_items (w_db w) (w_db w')"
  shows "output_ok k w'"
proof -
  note ok = world_okD(1) [OF output_okD(1) [OF o]]
  show ?thesis
    using o w' ws
  proof (rule output_quiet)
    show "out_kept (w_db w) (w_db w') x" for x using same by (rule out_kept_same)
    show "recorder (w_db w') j" if "recorder (w_db w) j" for j using that ok st by (rule recorder_other) simp
    show "unbound (w_db w) x" if "unbound (w_db w') x" for x using ok st that by (rule unbound_plane)
    show "\<exists>a. tb_attempts (w_db w) x = Some a \<and> at_state a = Completed_attempt"
      if "tb_attempts (w_db w') x = Some a'" "at_state a' = Completed_attempt" for x a'
      using ok st that by (rule completed_plane)
  qed
qed

lemma output_grown:
  assumes o: "output_ok k w" and w': "world_ok w'" "items_ok (w_db w')" and ws: "w_workers w' = w_workers w" "w_wire w' = w_wire w"
    and rows: "\<And>x a. tb_attempts (w_db w) x = Some a \<Longrightarrow> tb_attempts (w_db w') x = Some a"
    and new: "\<And>x a. tb_attempts (w_db w) x = None \<Longrightarrow> tb_attempts (w_db w') x = Some a \<Longrightarrow> birth_guard a"
    and kept: "\<And>x. out_kept (w_db w) (w_db w') x"
  shows "output_ok k w'"
  using o w' ws kept
proof (rule output_quiet)
  show "recorder (w_db w') j" if "recorder (w_db w) j" for j using that rows by (auto simp: recorder_def)
  show "unbound (w_db w) x" if "unbound (w_db w') x" for x
    using that rows [of x] by (cases "tb_attempts (w_db w) x") (simp_all add: unbound_def)
  show "\<exists>a. tb_attempts (w_db w) x = Some a \<and> at_state a = Completed_attempt"
    if "tb_attempts (w_db w') x = Some a'" "at_state a' = Completed_attempt" for x a'
    using that rows [of x] new [of x a'] by (cases "tb_attempts (w_db w) x") (auto simp: birth_guard_def)
qed

section \<open>The step of a worker\<close>

definition wired :: "turn_effect \<Rightarrow> (string \<Rightarrow> bytes) \<Rightarrow> string \<Rightarrow> bytes" where
  "wired e wire = (case e of Received a b \<Rightarrow> wire(a := wire a @ b) | _ \<Rightarrow> wire)"

lemma wired_simps [simp]:
  "wired Silent wire = wire" "wired (Drew t) wire = wire" "wired (Post a c b) wire = wire"
  "wired (Received a b) wire = wire(a := wire a @ b)"
  by (simp_all add: wired_def)

lemma effected_wire [simp]: "w_wire (effected e w) = wired e (w_wire w)"
  by (simp add: effected_def wired_def split: turn_effect.split)

lemma persist_stored:
  assumes p: "persistTx d ty cid sealed db = Inr (True, db')"
  shows "ck_encrypt k (ow_org (jb_owner d)) n bs = Some sealed \<Longrightarrow> stored k db (jb_attempt d) bs0 \<Longrightarrow> stored k db' (jb_attempt d) (bs0 @ bs)"
    and "\<exists>i. outputs db' (jb_attempt d) = outputs db (jb_attempt d) @ [i] \<and> it_type i = ty"
    and "x \<noteq> jb_attempt d \<Longrightarrow> out_kept db db' x"
proof -
  from p obtain a where a: "select_attempt (jb_owner d) (jb_attempt d) db = Some a" and fresh: "tb_contents db cid = None"
    and db': "db' = db\<lparr> tb_items := tb_items db @ [\<lparr> it_org = at_org a, it_owner = at_owner a, it_conv = at_conv a, it_branch = at_branch a,
        it_turn = at_turn a, it_attempt = Some (jb_attempt d), it_seq = nextAttemptItemSeq (jb_owner d) (jb_attempt d) db,
        it_type = ty, it_content = cid \<rparr>],
      tb_contents := (tb_contents db)(cid \<mapsto> \<lparr> cn_org = at_org a, cn_owner = at_owner a, cn_conv = at_conv a,
        cn_envelope = fst sealed, cn_hmac = snd sealed, cn_status = ''active'' \<rparr>) \<rparr>"
    by (rule persist_appends)
  let ?i = "\<lparr> it_org = at_org a, it_owner = at_owner a, it_conv = at_conv a, it_branch = at_branch a,
        it_turn = at_turn a, it_attempt = Some (jb_attempt d), it_seq = nextAttemptItemSeq (jb_owner d) (jb_attempt d) db,
        it_type = ty, it_content = cid \<rparr>"
  have out: "outputs db' (jb_attempt d) = outputs db (jb_attempt d) @ [?i]" by (simp add: outputs_def db')
  then show "\<exists>i. outputs db' (jb_attempt d) = outputs db (jb_attempt d) @ [i] \<and> it_type i = ty" by simp
  have keep: "tb_contents db n = Some c \<Longrightarrow> tb_contents db' n = Some c" for n c using fresh by (auto simp: db')
  show "x \<noteq> jb_attempt d \<Longrightarrow> out_kept db db' x" using keep by (simp add: out_kept_def outputs_def db')
  assume enc: "ck_encrypt k (ow_org (jb_owner d)) n bs = Some sealed" and st: "stored k db (jb_attempt d) bs0"
  from st obtain parts where parts: "list_all2 (sealed_as k db) (outputs db (jb_attempt d)) parts" "concat parts = bs0"
    by (auto simp: stored_def)
  from parts(1) have "list_all2 (sealed_as k db') (outputs db (jb_attempt d)) parts"
    by (rule list_all2_mono) (rule sealed_kept [OF keep])
  moreover have "at_org a = ow_org (jb_owner d)" using a by (auto dest!: select_attempt_SomeD simp: owns_def)
  with enc have "sealed_as k db' ?i bs" by (auto simp: sealed_as_def db')
  ultimately have "list_all2 (sealed_as k db') (outputs db' (jb_attempt d)) (parts @ [bs])"
    by (simp add: out list_all2_appendI)
  then show "stored k db' (jb_attempt d) (bs0 @ bs)" unfolding stored_def by (intro exI conjI) (auto simp: parts(2))
qed

lemma phase_out_quiet [simp]:
  "phase_out k db wire (caught d r st e)" "phase_out k db wire (refuse j c out)" "phase_out k db wire (no_credential j c)"
  "recording (caught d r st e) = None" "recording (refuse j c out) = None" "recording (no_credential j c) = None"
  by (simp_all add: caught_def Let_def refuse_def no_credential_def)

lemma known_out:
  "well_shaped db (jb_attempt d) \<Longrightarrow> stored k db (jb_attempt d) (wire (jb_attempt d)) \<Longrightarrow> phase_out k db wire (finalizeKnownResult d status)"
  by (simp add: finalizeKnownResult_def classifyStatus_def)

lemma stored_empty: "outputs db x = [] \<Longrightarrow> stored k db x []"
  by (simp add: stored_def)

lemma persist_out:
  assumes "persistOutputItem k d ty bs n cid fl db = (Some True, db')" "stored k db (jb_attempt d) bs0"
  shows "stored k db' (jb_attempt d) (bs0 @ bs)"
    "\<exists>i. outputs db' (jb_attempt d) = outputs db (jb_attempt d) @ [i] \<and> it_type i = ty"
proof -
  from assms(1) obtain e where e: "ck_encrypt k (ow_org (jb_owner d)) n bs = Some e" "persistTx d ty cid e db = Inr (True, db')"
    by (rule persist_run) auto
  from persist_stored(1) [OF e(2) e(1) assms(2)] show "stored k db' (jb_attempt d) (bs0 @ bs)" .
  from persist_stored(2) [OF e(2)] show "\<exists>i. outputs db' (jb_attempt d) = outputs db (jb_attempt d) @ [i] \<and> it_type i = ty" .
qed

lemma phase_out_own:
  assumes adv: "advance k dp now p db e p' db'" and out: "phase_out k db wire p" and ok: "tables_ok db"
    and unb: "\<And>x. unbound db x \<Longrightarrow> outputs db x = [] \<and> wire x = []"
  shows "phase_out k db' (wired e wire) p'"
  using adv
proof (cases rule: advance.cases)
  case (take_up tok c fl)
  then show ?thesis by (auto dest: take_up_phase)
next
  case (load j context_ok)
  then show ?thesis by (simp add: loadClaimed_def split: option.split sum.split)
next
  case (build j c plan cred b)
  then show ?thesis by (simp add: buildClaimed_def split: build.split)
next
  case (boundary req j c plan cred stream body parent fl)
  then show ?thesis by (auto simp: boundaryClaimed_def split: option.splits prod.splits)
next
  case (govern_refuses d recorded)
  then show ?thesis by (simp add: refused_def)
next
  case (gate d fl)
  show ?thesis
  proof (cases "past_gate p'")
    case (Some d')
    with gate_forward_phase [OF gate(3) Some] have p': "p' = At_forward d" by simp
    from gate_forward [OF gate(3) Some ok] obtain b where "tb_attempts db (jb_attempt d) = Some b" "at_credential b = None" by blast
    then have "outputs db (jb_attempt d) = [] \<and> wire (jb_attempt d) = []" by (intro unb) (simp add: unbound_def)
    moreover from advance_items [OF adv] have "same_items db db'" by (auto simp: gate(1) persisted_def)
    ultimately show ?thesis using gate by (simp add: p' outputs_def same_items_def)
  next
    case None
    with gate(3) show ?thesis by (auto simp: gate(2) beforeDispatch_def split: option.splits prod.splits)
  qed
next
  case (responds d body recorded status)
  with out show ?thesis by simp
next
  case (mark d ans fl)
  obtain r where run: "run_tx fl (markStreaming (jb_owner d) now (jb_attempt d) (jb_token d) db) db = (r, db')"
    and p': "p' = (case r of None \<Rightarrow> caught d False True Persist_failed
      | Some b \<Rightarrow> if \<not> b then Ended O_finalize_fenced_out
          else (case ans of Whole st b \<Rightarrow> At_persist d st b | Opened st \<Rightarrow> At_drain d st []))"
    using mark(3) by (auto simp: recordResult_def split: option.splits prod.splits bool.splits)
  from run have "same_items db db'" by (rule run_same_items) (rule store_same_items)
  then have "outputs db' (jb_attempt d) = outputs db (jb_attempt d)" by (simp add: outputs_def same_items_def)
  with mark(1,2) out show ?thesis by (simp add: p' chunked_def stored_empty split: option.split answer.split)
next
  case (persist d status body nonce cid fl)
  obtain r where r: "persistOutputItem k d ''native_response'' body nonce cid fl db = (r, db')"
    and p': "p' = (case r of None \<Rightarrow> caught d False True Persist_failed | Some ok \<Rightarrow> if ok then finalizeKnownResult d status else Ended O_finalize_fenced_out)"
    using persist(3) by (auto simp: recordBody_def split: option.splits prod.splits bool.splits)
  have o: "outputs db (jb_attempt d) = []" "wire (jb_attempt d) = body" using out persist by simp_all
  show ?thesis
  proof (cases "r = Some True")
    case True
    from persist_out [OF r [unfolded True] stored_empty [OF o(1)]] show ?thesis
      using o persist(2) by (auto simp: p' True well_shaped_def intro!: known_out)
  qed (auto simp: p' split: option.split)
next
  case (chunk d status buf ch)
  with out show ?thesis by (auto simp: drainChunk_def Let_def)
next
  case (eof d status buf)
  with out show ?thesis by (auto simp: drainEnd_def)
next
  case (dies d status buf)
  with out show ?thesis by (auto simp: drainBreak_def)
next
  case (flush d status buf after nonce cid fl)
  obtain r where r: "persistOutputItem k d ''native_stream_chunk'' buf nonce cid fl db = (r, db')" and p': "p' = flushed d status after r"
    using flush(3) by (auto simp: flushStream_def split: prod.splits)
  from out flush obtain bs where o: "chunked db (jb_attempt d)" "stored k db (jb_attempt d) bs" "wire (jb_attempt d) = bs @ buf" by auto
  show ?thesis
  proof (cases "r = Some True")
    case True
    from persist_out [OF r [unfolded True] o(2)] o(1) have "chunked db' (jb_attempt d)" "stored k db' (jb_attempt d) (bs @ buf)"
      by (auto simp: chunked_def)
    with o(3) flush(2) show ?thesis by (auto simp: p' True flushed_def split: after_flush.split)
  next
    case False
    then show ?thesis by (cases r; cases after) (auto simp: p' flushed_def)
  qed
next
  case (evidence d status x recorded)
  with out show ?thesis by (auto simp: streamEvidence_def well_shaped_def split: ending.split intro!: known_out)
next
  case (restore d fl)
  then show ?thesis by (auto simp: restoreGate_def split: option.splits prod.splits)
next
  case (finalize j c st ec o' handler fl)
  then show ?thesis by (auto simp: finalizeAndWake_def split: option.splits prod.splits)
qed (use out in simp_all)

text \<open>A worker that is recording after a step was recording before it, or has just passed the gate.\<close>

lemma recording_step:
  assumes adv: "advance k dp now p db e p' db'" and r: "recording p' = Some j"
  shows "(recording p = Some j \<and> past_gate p \<noteq> None) \<or>
    (\<exists>d. p = At_gate d \<and> p' = At_forward d \<and> j = job_of_dispatch d \<and> (\<exists>fl. beforeDispatch now d fl db = (p', db')))"
proof (cases "past_gate p'")
  case (Some d)
  with r have "j = job_of_dispatch d" by (simp add: recording_gate)
  with past_gate_step [OF adv Some] show ?thesis by (auto simp: recording_gate)
next
  case None
  with r obtain c ec o' h where p': "p' = At_finalize j c Completed_attempt ec o' h" by (cases p') (auto split: if_splits)
  have known: "finalizeKnownResult d status = p' \<Longrightarrow> j = job_of_dispatch d" for d status
    by (auto simp: finalizeKnownResult_def p' split: prod.splits)
  from adv show ?thesis
  proof (cases rule: advance.cases)
    case (persist d status body nonce cid fl)
    then have "finalizeKnownResult d status = p' \<or> p' = caught d False True Persist_failed"
      by (auto simp: recordBody_def p' split: option.splits prod.splits bool.splits)
    with known [of d status] persist r show ?thesis by auto
  next
    case (evidence d status x recorded)
    then have "finalizeKnownResult d status = p' \<or> (\<exists>f. p' = caught d False True f)"
      by (auto simp: streamEvidence_def p' split: ending.splits if_splits)
    with known [of d status] evidence r show ?thesis by auto
  qed (use r p' in \<open>auto simp: buildClaimed_def loadClaimed_def refused_def drainChunk_def drainEnd_def drainBreak_def Let_def
      processCandidate_def boundaryClaimed_def beforeDispatch_def recordResult_def flushStream_def flushed_def restoreGate_def
      finalizeAndWake_def refuse_def no_credential_def caught_def
      split: option.splits prod.splits if_splits sum.splits build.splits after_flush.splits answer.splits armed.splits bool.splits\<close>)
qed

lemma recorder_own:
  assumes adv: "advance k dp now p db e p' db'" and r: "recording p' = Some j" and ok: "tables_ok db"
    and rec: "\<And>i. recording p = Some i \<Longrightarrow> recorder db i" and h: "row_known used db' p'"
  shows "recorder db' j"
  using recording_step [OF adv r]
proof
  assume a: "recording p = Some j \<and> past_gate p \<noteq> None"
  then obtain d where d: "past_gate p = Some d" "recording p = Some j" by auto
  from rec [OF d(2)] obtain b where b: "tb_attempts db (jb_attempt j) = Some b" "at_token b = Some (jb_token j)"
    "at_credential b \<noteq> None" "at_state b \<noteq> Completed_attempt" by (auto simp: recorder_def)
  from d(1) have "p \<noteq> Ready" by auto
  from advance_effect [OF adv ok this] show ?thesis
  proof
    assume "row_changed db p db'"
    with recording_job [OF d(2)] b(1) obtain b' where "row_effect p b b'" "guarded_update b b' = None"
      "at_token b' = Some (jb_token j)" "tb_attempts db' (jb_attempt j) = Some b'" unfolding row_changed_def by auto
    with b d(1) guard_credential [of b b'] show ?thesis by (cases p) (auto simp: recorder_def)
  qed (use b in \<open>simp add: same_rows_def recorder_def\<close>)
next
  assume "\<exists>d. p = At_gate d \<and> p' = At_forward d \<and> j = job_of_dispatch d \<and> (\<exists>fl. beforeDispatch now d fl db = (p', db'))"
  then obtain d fl where d: "p' = At_forward d" "j = job_of_dispatch d" "beforeDispatch now d fl db = (p', db')" by blast
  from gate_forward [OF d(3) _ ok, of d] d(1) obtain a where "tb_attempts db' (jb_attempt d) = Some a"
    "at_token a = Some (jb_token d)" "at_state a = Dispatching" by auto
  with h d show ?thesis by (auto simp: recorder_def row_known_def)
qed

lemma wired_other:
  assumes "advance k dp now p db e p' db'" "\<And>d. past_gate p = Some d \<Longrightarrow> x \<noteq> jb_attempt d"
  shows "wired e wire x = wire x"
  using assms by (cases rule: advance.cases) auto

lemma out_kept_worker:
  assumes adv: "advance k dp now p db e p' db'" and other: "\<And>d. past_gate p = Some d \<Longrightarrow> x \<noteq> jb_attempt d"
  shows "out_kept db db' x"
  using advance_items [OF adv]
proof
  assume "persisted k p db db'"
  then obtain d ty cid sealed where "past_gate p = Some d" "persistTx d ty cid sealed db = Inr (True, db')"
    unfolding persisted_def by blast
  with persist_stored(3) [OF this(2) other] show ?thesis by simp
qed (rule out_kept_same)

lemma output_worker:
  assumes o: "output_ok k w" and adv: "advance k dp (w_now w) (w_workers w i) (w_db w) e p' db'" and fr: "fresh_effect e w"
    and w': "world_ok (effected e (w\<lparr> w_db := db', w_workers := (w_workers w)(i := p') \<rparr>))" (is "world_ok ?w'")
    and items: "items_ok db'"
  shows "output_ok k ?w'"
proof -
  let ?p = "w_workers w i" and ?db = "w_db w"
  note w = output_okD(1) [OF o]
  note ok = world_okD(1) [OF w] and h = world_okD(2) [OF w]
  have step: "phase_step (w_tokens w) ?db ?p e db' p'" using adv h ok fr refl by (rule advance_worker)
  then have pl: "plane_step (w_tokens w) (map_option jb_token (job_of ?p)) ?db db'" by (simp add: phase_step_def)
  have gate: "recorder ?db (job_of_dispatch d)" if "past_gate ?p = Some d" for d
    using output_okD(5) [OF o recording_gate [OF that]] .
  have token: "map_option jb_token (job_of ?p) \<noteq> Some (jb_token j)" if "q \<noteq> i" "recording (w_workers w q) = Some j" for q j
    using world_okD(3) [OF w] recording_job [OF that(2)] that(1) unfolding jobs_apart_def by (cases "job_of ?p") auto
  have away: "jb_attempt j \<noteq> jb_attempt d" if "q \<noteq> i" "recording (w_workers w q) = Some j" "past_gate ?p = Some d" for q j d
  proof
    assume "jb_attempt j = jb_attempt d"
    with gate [OF that(3)] output_okD(5) [OF o that(2)] have "jb_token j = jb_token d" by (auto simp: recorder_def)
    with token [OF that(1,2)] recording_job [OF recording_gate [OF that(3)]] show False by simp
  qed
  have frame: "out_kept ?db db' x \<and> wired e (w_wire w) x = w_wire w x" if "\<And>d. past_gate ?p = Some d \<Longrightarrow> x \<noteq> jb_attempt d" for x
    using out_kept_worker [OF adv that] wired_other [OF adv that] by blast
  have unb: "outputs db' x = [] \<and> wired e (w_wire w) x = []" if "unbound db' x" for x
  proof -
    have u: "unbound ?db x" using ok pl that by (rule unbound_plane)
    have "x \<noteq> jb_attempt d" if "past_gate ?p = Some d" for d
      using gate [OF that] u by (auto simp: recorder_def unbound_def)
    from frame [OF this] output_okD(3) [OF o u] show ?thesis by (simp add: out_kept_def)
  qed
  have phases: "phase_out k db' (wired e (w_wire w)) (((w_workers w)(i := p')) q)" for q
  proof (cases "q = i")
    case True
    have "phase_out k db' (wired e (w_wire w)) p'"
      using adv output_okD(4) [OF o] ok output_okD(3) [OF o] by (rule phase_out_own)
    with True show ?thesis by simp
  next
    case False
    have "phase_out k db' (wired e (w_wire w)) (w_workers w q)"
      using output_okD(4) [OF o] by (rule phase_out_kept) (rule frame, rule away [OF False])
    with False show ?thesis by simp
  qed
  have recs: "recorder db' j" if "recording (((w_workers w)(i := p')) q) = Some j" for q j
  proof (cases "q = i")
    case True
    with that have r: "recording p' = Some j" by simp
    from step have known: "row_known (drawn e (w_tokens w)) db' p'" by (simp add: phase_step_def)
    show ?thesis using adv r ok output_okD(5) [OF o] known by (rule recorder_own)
  next
    case False
    with that have r: "recording (w_workers w q) = Some j" by simp
    from recorder_other [OF output_okD(5) [OF o r] ok pl token [OF False r]] show ?thesis .
  qed
  have fin: "well_shaped db' x \<and> stored k db' x (wired e (w_wire w) x)"
    if a': "tb_attempts db' x = Some a'" "at_state a' = Completed_attempt" for x a'
  proof (cases "\<exists>a. tb_attempts ?db x = Some a \<and> at_state a = Completed_attempt")
    case True
    then obtain a where a: "tb_attempts ?db x = Some a" "at_state a = Completed_attempt" by blast
    have "x \<noteq> jb_attempt d" if "past_gate ?p = Some d" for d
      using gate [OF that] a by (auto simp: recorder_def)
    from frame [OF this] output_okD(6) [OF o a] shape_kept stored_kept show ?thesis by auto
  next
    case False
    have "?p \<noteq> Ready"
    proof
      assume "?p = Ready"
      with pl completed_plane [OF ok, of "w_tokens w" db' x a'] a' False show False by simp
    qed
    from advance_effect [OF adv ok this] have "row_changed ?db ?p db'"
      using a' False by (auto simp: same_rows_def)
    then obtain j a b where j: "job_of ?p = Some j" "tb_attempts ?db (jb_attempt j) = Some a" "row_effect ?p a b"
      "tb_attempts db' = (tb_attempts ?db)(jb_attempt j \<mapsto> b)" unfolding row_changed_def by blast
    with a' False have x: "x = jb_attempt j" "at_state b = Completed_attempt" by (auto split: if_splits)
    with j obtain c ec o' hd where p: "?p = At_finalize j c Completed_attempt ec o' hd" by (cases ?p) auto
    from frame [of x] output_okD(4) [OF o, of i] shape_kept [of ?db db' x] stored_kept [of ?db db' x k] show ?thesis
      by (simp add: p x)
  qed
  from w' items unb phases recs fin show ?thesis by (simp add: output_ok_def)
qed

section \<open>Every reachable state\<close>

lemma output_step:
  assumes o: "output_ok k w" and st: "turn_step k dp w w'"
  shows "output_ok k w'"
proof -
  note w = output_okD(1) [OF o]
  note w' = world_step [OF w st] and items = items_step [OF output_okD(2) [OF o] w st]
  show ?thesis
    using st
  proof (cases rule: turn_step.cases)
    case (worker i e p db')
    from output_worker [OF o worker(2,3)] w' items worker(1) show ?thesis by simp
  next
    case (beat ow aid tok h db')
    from output_plane [OF o w' items] beat_plane [OF beat(2)] store_same_items(8) [OF beat(2)] show ?thesis by (simp add: beat(1))
  next
    case (stop ow aid r db')
    from stop(2) have "same_items (w_db w) db'" by (auto simp: requestStop_def dest: update_same_items)
    with output_plane [OF o w' items] stop_plane [OF stop(2)] show ?thesis by (simp add: stop(1))
  next
    case (reserve ow env cid inp config tid db')
    from reserve_reserved [OF reserve(2) world_okD(1) [OF w]] have r: "reserved_step (w_db w) db'" .
    have "out_kept (w_db w) db' x" for x
      using reserve(2) by (rule reserveTurn_InrD) (auto simp: out_kept_def outputs_def reserved_db_def input_item_def)
    moreover have "birth_guard a" if "tb_attempts (w_db w) x = None" "tb_attempts db' x = Some a" for x a
      using r that by (auto simp: reserved_step_def split: if_splits)
    ultimately show ?thesis using output_grown [OF o w' items] reserved_row [OF r] by (simp add: reserve(1))
  next
    case (rotate_credentials cs)
    with output_grown [OF o w' items] show ?thesis by (simp add: out_kept_def outputs_def)
  next
    case (set_status cid c st)
    with output_grown [OF o w' items] show ?thesis by (simp add: out_kept_def outputs_def)
  next
    case (tick t)
    with output_grown [OF o w' items] show ?thesis by (simp add: out_kept_def outputs_def)
  qed
qed

lemma output_initial: "initial w \<Longrightarrow> output_ok k w"
  using world_initial [of w]
  by (auto simp: output_ok_def initial_def items_ok_def outputs_def)

interpretation recorded: kept_invariant initial "turn_step k dp" "output_ok k" for k dp
  by unfold_locales (auto intro: output_initial output_step)

text \<open>A completed attempt is final: its row, its output and what it received never change again.\<close>

definition answer_kept :: "string \<Rightarrow> world \<Rightarrow> world \<Rightarrow> bool" where
  "answer_kept x w w' \<longleftrightarrow> tb_attempts (w_db w') x = tb_attempts (w_db w) x \<and> out_kept (w_db w) (w_db w') x \<and> w_wire w' x = w_wire w x"

lemma completed_step:
  assumes o: "output_ok k w" and st: "turn_step k dp w w'" and a: "tb_attempts (w_db w) x = Some a" "at_state a = Completed_attempt"
  shows "answer_kept x w w'"
proof -
  note w = output_okD(1) [OF o]
  have "\<not> non_terminal (at_state a)" using a(2) by (simp add: non_terminal_def)
  then have row: "tb_attempts (w_db w') x = Some a" using ended_stays [OF w st a(1)] by metis
  have "out_kept (w_db w) (w_db w') x \<and> w_wire w' x = w_wire w x"
    using st
  proof (cases rule: turn_step.cases)
    case (worker i e p db')
    have "x \<noteq> jb_attempt d" if "past_gate (w_workers w i) = Some d" for d
      using output_okD(5) [OF o recording_gate [OF that]] a by (auto simp: recorder_def)
    with out_kept_worker [OF worker(2)] wired_other [OF worker(2)] show ?thesis by (simp add: worker(1))
  next
    case (beat ow aid tok h db')
    with store_same_items(8) [OF beat(2)] show ?thesis by (simp add: out_kept_same)
  next
    case (reserve ow env cid inp config tid db')
    have "out_kept (w_db w) db' x"
      using reserve(2) by (rule reserveTurn_InrD) (auto simp: out_kept_def outputs_def reserved_db_def input_item_def)
    then show ?thesis by (simp add: reserve(1))
  next
    case (stop ow aid r db')
    then have "same_items (w_db w) db'" by (auto simp: requestStop_def dest: update_same_items)
    then show ?thesis by (simp add: stop(1) out_kept_same)
  qed (simp_all add: out_kept_def outputs_def)
  with row a(1) show ?thesis by (simp add: answer_kept_def)
qed

lemma completed_steps:
  assumes "(turn_step k dp)\<^sup>*\<^sup>* w w'" and r: "reach initial (turn_step k dp) w"
    and a: "tb_attempts (w_db w) x = Some a" "at_state a = Completed_attempt"
  shows "reach initial (turn_step k dp) w' \<and> answer_kept x w w'"
  using assms(1)
proof (induction rule: rtranclp_induct)
  case base
  then show ?case using r by (simp add: answer_kept_def out_kept_def)
next
  case (step u v)
  then have "reach initial (turn_step k dp) u" and k: "answer_kept x w u" by simp_all
  then have "output_ok k u" by (intro recorded.inv_reach)
  from completed_step [OF this step(2), of x a] k a have "answer_kept x u v" by (simp add: answer_kept_def)
  with k step(2,3) show ?case by (auto intro: reach_step simp: answer_kept_def out_kept_def)
qed

text \<open>The bytes of an item as a reader of the tables gets them.\<close>

definition plaintext :: "conv_kms \<Rightarrow> turn_db \<Rightarrow> item \<Rightarrow> bytes option" where
  "plaintext k db i = (case tb_contents db (it_content i) of None \<Rightarrow> None
     | Some c \<Rightarrow> if cn_status c \<noteq> ''active'' then None
         else decryptConversationContent k \<lparr> ow_org = it_org i, ow_user = it_owner i \<rparr> c)"

lemma sealed_plaintext:
  assumes "kms_ok k" "sealed_as k db i bs"
  shows "plaintext k db i = Some bs"
proof -
  from assms(2) obtain c n where c: "tb_contents db (it_content i) = Some c" "cn_status c = ''active''"
    "ck_encrypt k (it_org i) n bs = Some (cn_envelope c, cn_hmac c)" unfolding sealed_as_def by blast
  from kms_okD [OF assms(1) c(3)] c show ?thesis by (simp add: plaintext_def decryptConversationContent_def)
qed

lemma stored_plaintext:
  assumes "kms_ok k"
  shows "list_all2 (sealed_as k db) its parts \<Longrightarrow> map (plaintext k db) its = map Some parts"
  by (induction its parts rule: list_all2_induct) (simp_all add: sealed_plaintext [OF assms])

lemma outputs_sorted: "items_ok db \<Longrightarrow> sort_key it_seq (outputs db x) = outputs db x"
proof -
  assume "items_ok db"
  then have "map it_seq (outputs db x) = [1..<Suc (length (outputs db x))]" by (simp add: items_ok_def)
  then have "sorted (map it_seq (outputs db x))" by (simp only: sorted_upt)
  then show ?thesis by (rule sort_key_id_if_sorted)
qed

text \<open>C15. What is recorded is what was sent: when an attempt is completed, the contents of its
output items, decrypted and joined in the order of their sequence numbers, are exactly the bytes
the provider's answer brought in, streamed or whole, whatever the flush threshold cut and
whatever failed on other attempts; the numbers run from one without gaps. The KMS is taken to decrypt
what it encrypted.\<close>

theorem completed_output_is_the_answer:
  assumes "kms_ok k" "reach initial (turn_step k dp) w"
    and a: "tb_attempts (w_db w) x = Some a" "at_state a = Completed_attempt"
  shows "map it_seq (outputs (w_db w) x) = [1..<Suc (length (outputs (w_db w) x))] \<and>
    (\<exists>parts. map (plaintext k (w_db w)) (sort_key it_seq (outputs (w_db w) x)) = map Some parts \<and> concat parts = w_wire w x)"
proof -
  have o: "output_ok k w" using assms(2) by (rule recorded.inv_reach)
  from output_okD(6) [OF o a] obtain parts where "list_all2 (sealed_as k (w_db w)) (outputs (w_db w) x) parts" "concat parts = w_wire w x"
    by (auto simp: stored_def)
  with stored_plaintext [OF assms(1)] outputs_sorted [OF output_okD(2) [OF o]] output_okD(2) [OF o] show ?thesis
    by (auto simp: items_ok_def)
qed

theorem completed_output_is_the_answer_witness:
  "let w = stage (Ended O_completed) demo_final True [7, 8] in
   \<exists>parts. map (plaintext demo_kms (w_db w)) (sort_key it_seq (outputs (w_db w) ''a1'')) = map Some parts \<and> concat parts = [7, 8]"
proof -
  have "tb_attempts (w_db (stage (Ended O_completed) demo_final True [7, 8])) ''a1'' = Some demo_completed_row"
    "at_state demo_completed_row = Completed_attempt"
    by (simp_all add: stage_def demo_final_def demo_answer_def demo_completed_row_def)
  from completed_output_is_the_answer [OF demo_kms_ok demo_reach_final this] show ?thesis
    by (simp add: stage_def Let_def)
qed

end
