(* ===== verification/Text_Decode.thy ===== *)
theory Text_Decode
  imports Prelude
begin

text \<open>
  Decoding stored bytes as text: the fatal UTF-8 decoder of the platform
  (\<open>new TextDecoder('utf-8', { fatal: true })\<close>), on code points. It refuses what is not UTF-8 and,
  because \<open>ignoreBOM\<close> is left at its default, drops a leading byte order mark.
\<close>

section \<open>Code points\<close>

definition continuation :: "nat \<Rightarrow> bool" where
  "continuation b \<longleftrightarrow> 128 \<le> b \<and> b \<le> 191"

fun decode_points :: "nat list \<Rightarrow> nat list option" where
  "decode_points [] = Some []"
| "decode_points (b # bs) =
     (if b < 128 then map_option ((#) b) (decode_points bs)
      else if 194 \<le> b \<and> b \<le> 223 then (case bs of
          c # r \<Rightarrow> if continuation c then map_option ((#) ((b - 192) * 64 + (c - 128))) (decode_points r) else None
        | _ \<Rightarrow> None)
      else if 224 \<le> b \<and> b \<le> 239 then (case bs of
          c # d # r \<Rightarrow>
            if (if b = 224 then 160 else 128) \<le> c \<and> c \<le> (if b = 237 then 159 else 191) \<and> continuation d
            then map_option ((#) ((b - 224) * 4096 + (c - 128) * 64 + (d - 128))) (decode_points r) else None
        | _ \<Rightarrow> None)
      else if 240 \<le> b \<and> b \<le> 244 then (case bs of
          c # d # e # r \<Rightarrow>
            if (if b = 240 then 144 else 128) \<le> c \<and> c \<le> (if b = 244 then 143 else 191) \<and> continuation d \<and> continuation e
            then map_option ((#) ((b - 240) * 262144 + (c - 128) * 4096 + (d - 128) * 64 + (e - 128))) (decode_points r)
            else None
        | _ \<Rightarrow> None)
      else None)"

definition encode_point :: "nat \<Rightarrow> nat list" where
  "encode_point n =
     (if n < 128 then [n]
      else if n < 2048 then [192 + n div 64, 128 + n mod 64]
      else if n < 65536 then [224 + n div 4096, 128 + n div 64 mod 64, 128 + n mod 64]
      else [240 + n div 262144, 128 + n div 4096 mod 64, 128 + n div 64 mod 64, 128 + n mod 64])"

definition byte_order_mark :: bytes where
  "byte_order_mark = [239, 187, 191]"

definition text_decode :: "bytes \<Rightarrow> nat list option" where
  "text_decode bs = decode_points (map unat (if take 3 bs = byte_order_mark then drop 3 bs else bs))"

definition text_encode :: "nat list \<Rightarrow> bytes" where
  "text_encode cs = map of_nat (concat (map encode_point cs))"

section \<open>Decoding loses nothing but the mark\<close>

lemma shifted: "\<exists>y < 64. c = 128 + y" if "128 \<le> c" "c \<le> 191" for c :: nat
  using that by (intro exI [of _ "c - 128"]) auto

lemma base_digits:
  fixes x y z u :: nat
  assumes "z < 64"
  shows "(x * 64 + z) div 64 = x" "(x * 64 + z) mod 64 = z"
  using assms by auto

lemma encode_two:
  assumes "194 \<le> b" "b \<le> 223" "continuation c"
  shows "encode_point ((b - 192) * 64 + (c - 128)) = [b, c]"
proof -
  obtain y where y: "y < 64" "c = 128 + y" using assms(3) shifted [of c] by (auto simp: continuation_def)
  obtain x where x: "b = 192 + x" "2 \<le> x" "x \<le> 31" using assms by (intro that [of "b - 192"]) auto
  have "128 \<le> x * 64 + y" "x * 64 + y < 2048" using x y by auto
  with base_digits [OF y(1), of x] x y show ?thesis by (simp add: encode_point_def)
qed

lemma encode_three:
  assumes "224 \<le> b" "b \<le> 239" "(if b = 224 then 160 else 128) \<le> c" "c \<le> 191" "continuation d"
  shows "encode_point ((b - 224) * 4096 + (c - 128) * 64 + (d - 128)) = [b, c, d]"
proof -
  have "128 \<le> c" using assms(3) by (auto split: if_splits)
  then obtain y where y: "y < 64" "c = 128 + y" using assms(4) shifted [of c] by auto
  obtain z where z: "z < 64" "d = 128 + z" using assms(5) shifted [of d] by (auto simp: continuation_def)
  obtain x where x: "b = 224 + x" "x \<le> 15" using assms by (intro that [of "b - 224"]) auto
  have low: "x = 0 \<Longrightarrow> 32 \<le> y" using assms(3) x y by auto
  let ?n = "(x * 64 + y) * 64 + z"
  have eq: "(b - 224) * 4096 + (c - 128) * 64 + (d - 128) = ?n" using x y z by simp
  have "2048 \<le> ?n" using low by (cases x) auto
  moreover have "?n < 65536" using x y z by auto
  moreover have "?n div 64 = x * 64 + y" "?n mod 64 = z" by (rule base_digits [OF z(1)])+
  moreover have "?n div 4096 = x"
  proof -
    have "?n div 4096 = ?n div 64 div 64" by (simp add: div_mult2_eq [symmetric])
    then show ?thesis using \<open>?n div 64 = x * 64 + y\<close> base_digits [OF y(1)] by simp
  qed
  moreover have "(x * 64 + y) mod 64 = y" using base_digits [OF y(1)] by simp
  ultimately show ?thesis using x y z unfolding eq by (simp only: encode_point_def) simp
qed

lemma encode_four:
  assumes "240 \<le> b" "b \<le> 244" "(if b = 240 then 144 else 128) \<le> c" "c \<le> 191" "continuation d" "continuation e"
  shows "encode_point ((b - 240) * 262144 + (c - 128) * 4096 + (d - 128) * 64 + (e - 128)) = [b, c, d, e]"
proof -
  have "128 \<le> c" using assms(3) by (auto split: if_splits)
  then obtain y where y: "y < 64" "c = 128 + y" using assms(4) shifted [of c] by auto
  obtain z where z: "z < 64" "d = 128 + z" using assms(5) shifted [of d] by (auto simp: continuation_def)
  obtain u where u: "u < 64" "e = 128 + u" using assms(6) shifted [of e] by (auto simp: continuation_def)
  obtain x where x: "b = 240 + x" using assms by (intro that [of "b - 240"]) auto
  have low: "x = 0 \<Longrightarrow> 16 \<le> y" using assms(3) x y by auto
  let ?n = "((x * 64 + y) * 64 + z) * 64 + u"
  have eq: "(b - 240) * 262144 + (c - 128) * 4096 + (d - 128) * 64 + (e - 128) = ?n" using x y z u by simp
  have big: "65536 \<le> ?n" using low by (cases x) auto
  have d1: "?n div 64 = (x * 64 + y) * 64 + z" "?n mod 64 = u" by (rule base_digits [OF u(1)])+
  have d2: "?n div 4096 = x * 64 + y"
  proof -
    have "?n div 4096 = ?n div 64 div 64" by (simp add: div_mult2_eq [symmetric])
    then show ?thesis using d1(1) base_digits [OF z(1)] by simp
  qed
  have d3: "?n div 262144 = x"
  proof -
    have "?n div 262144 = ?n div 4096 div 64" by (simp add: div_mult2_eq [symmetric])
    then show ?thesis using d2 base_digits [OF y(1)] by simp
  qed
  have m: "((x * 64 + y) * 64 + z) mod 64 = z" "(x * 64 + y) mod 64 = y" by (rule base_digits(2) [OF z(1)], rule base_digits(2) [OF y(1)])
  from big have "\<not> ?n < 128" "\<not> ?n < 2048" "\<not> ?n < 65536" by auto
  with d1 d2 d3 m x y z u show ?thesis unfolding eq by (simp add: encode_point_def)
qed

lemma decode_encode: "decode_points bs = Some cs \<Longrightarrow> concat (map encode_point cs) = bs"
proof (induction bs arbitrary: cs rule: decode_points.induct)
  case (2 b bs)
  consider "b < 128" | "194 \<le> b" "b \<le> 223" | "224 \<le> b" "b \<le> 239" | "240 \<le> b" "b \<le> 244"
    using 2(5) by (auto split: if_splits)
  then show ?case
  proof cases
    case 1
    with 2 show ?thesis by (auto simp: encode_point_def)
  next
    case b: 2
    with 2(5) obtain c r ds where r: "bs = c # r" "continuation c" "decode_points r = Some ds" "cs = ((b - 192) * 64 + (c - 128)) # ds"
      by (auto split: list.splits if_splits)
    with 2(2) b encode_two [OF b r(2)] show ?thesis by auto
  next
    case b: 3
    with 2(5) obtain c d r ds where r: "bs = c # d # r" "(if b = 224 then 160 else 128) \<le> c" "c \<le> (if b = 237 then 159 else 191)" "continuation d"
      "decode_points r = Some ds" "cs = ((b - 224) * 4096 + (c - 128) * 64 + (d - 128)) # ds"
      by (auto split: list.splits if_splits)
    have "c \<le> 191" using r(3) by (auto split: if_splits)
    from 2(3) b r encode_three [OF b r(2) this r(4)] show ?thesis by auto
  next
    case b: 4
    with 2(5) obtain c d e r ds where r: "bs = c # d # e # r" "(if b = 240 then 144 else 128) \<le> c" "c \<le> (if b = 244 then 143 else 191)"
      "continuation d" "continuation e" "decode_points r = Some ds"
      "cs = ((b - 240) * 262144 + (c - 128) * 4096 + (d - 128) * 64 + (e - 128)) # ds"
      by (auto split: list.splits if_splits)
    have "c \<le> 191" using r(3) by (auto split: if_splits)
    from 2(4) b r encode_four [OF b r(2) this r(4,5)] show ?thesis by auto
  qed
qed simp

lemma text_decode_bytes:
  assumes "text_decode bs = Some cs"
  shows "bs = (if take 3 bs = byte_order_mark then byte_order_mark @ text_encode cs else text_encode cs)"
proof -
  let ?r = "if take 3 bs = byte_order_mark then drop 3 bs else bs"
  from assms have "concat (map encode_point cs) = map unat ?r" unfolding text_decode_def by (rule decode_encode)
  then have "text_encode cs = ?r" by (simp add: text_encode_def comp_def)
  then show ?thesis using append_take_drop_id [of 3 bs] by (cases "take 3 bs = byte_order_mark") simp_all
qed

lemma text_decode_mark: "take 3 bs \<noteq> byte_order_mark \<Longrightarrow> text_decode (byte_order_mark @ bs) = text_decode bs"
  by (simp add: text_decode_def byte_order_mark_def)

end
