(* ===== verification/Turn_Reads.thy ===== *)
theory Turn_Reads
  imports Turn_Output Text_Decode "HOL-Library.Option_ord" "HOL-Library.Product_Lexorder"
begin

text \<open>
  Reading a conversation back (\<open>getTurn\<close> and the projections of
  \<open>ai-conversations/turn-service.ts\<close>, the queries of \<open>turn-store.ts\<close>): items joined to their
  contents, decrypted and shown as JSON, as text or as bytes. The base64 text of a projection is
  represented by the bytes it encodes; the rows of the attempts query are an argument, as are
  \<open>JSON.parse\<close> and the KMS.
\<close>

section \<open>The queries\<close>

record item_row =
  ir_turn :: string
  ir_attempt :: "string option"
  ir_seq :: nat
  ir_type :: string
  ir_envelope :: envelope
  ir_status :: string

definition join_content :: "turn_db \<Rightarrow> item \<Rightarrow> item_row option" where
  "join_content db i = (case tb_contents db (it_content i) of None \<Rightarrow> None
     | Some c \<Rightarrow>
         if cn_org c = it_org i \<and> cn_owner c = it_owner i \<and> cn_conv c = it_conv i
         then Some \<lparr> ir_turn = it_turn i, ir_attempt = it_attempt i, ir_seq = it_seq i, ir_type = it_type i,
                     ir_envelope = cn_envelope c, ir_status = cn_status c \<rparr>
         else None)"

definition item_order :: "item_row \<Rightarrow> string \<times> string option \<times> nat" where
  "item_order r = (ir_turn r, ir_attempt r, ir_seq r)"

definition listItemsForTurns :: "owner \<Rightarrow> string \<Rightarrow> string list \<Rightarrow> turn_db \<Rightarrow> item_row list" where
  "listItemsForTurns ow cid tids db = sort_key item_order (List.map_filter
     (\<lambda>i. if it_org i = ow_org ow \<and> it_owner i = ow_user ow \<and> it_conv i = cid \<and> it_turn i \<in> set tids
          then join_content db i else None) (tb_items db))"

definition getTurnById :: "owner \<Rightarrow> string \<Rightarrow> string \<Rightarrow> turn_db \<Rightarrow> turn option" where
  "getTurnById ow cid tid db = find (\<lambda>t. own_turn ow cid t \<and> ct_id t = tid) (tb_turns db)"

section \<open>The projections\<close>

record item_view =
  iv_seq :: nat
  iv_type :: string
  iv_native :: jsval
  iv_text :: "nat list option"
  iv_base64 :: "bytes option"
  iv_unreadable :: bool

record attempt_view =
  av_id :: string
  av_seq :: nat
  av_state :: attempt_state
  av_current :: bool
  av_error :: "attempt_error option"
  av_excluded :: bool
  av_request :: "string option"
  av_created :: int
  av_terminal :: "int option"
  av_outputs :: "item_view list"

record turn_view =
  tv_id :: string
  tv_branch :: string
  tv_client :: string
  tv_seq :: nat
  tv_created :: int
  tv_current :: "string option"
  tv_inputs :: "item_view list"
  tv_attempts :: "attempt_view list"

text \<open>\<open>None\<close> is the exception of an unreadable content. \<open>JSON.parse\<close> works on the decoded text.\<close>

definition projectItem :: "conv_kms \<Rightarrow> (nat list \<Rightarrow> jsval option) \<Rightarrow> owner \<Rightarrow> item_row \<Rightarrow> item_view option" where
  "projectItem k parse ow r =
     (let base = \<lparr> iv_seq = ir_seq r, iv_type = ir_type r, iv_native = JNull, iv_text = None, iv_base64 = None,
                   iv_unreadable = False \<rparr> in
      if ir_status r \<noteq> ''active'' \<or> en_dek (ir_envelope r) = None then Some (base\<lparr> iv_unreadable := True \<rparr>)
      else (case ck_decrypt k (ow_org ow) (ir_envelope r) of None \<Rightarrow> None
        | Some bs \<Rightarrow> (case text_decode bs of None \<Rightarrow> Some (base\<lparr> iv_base64 := Some bs \<rparr>)
          | Some text \<Rightarrow>
              if ir_type r = ''native_stream_chunk'' then Some (base\<lparr> iv_text := Some text \<rparr>)
              else (case parse text of Some v \<Rightarrow> Some (base\<lparr> iv_native := v \<rparr>)
                | None \<Rightarrow> Some (base\<lparr> iv_text := Some text \<rparr>)))))"

record turn_bundle =
  bd_turns :: "turn list"
  bd_attempts :: "attempt list"
  bd_items :: "item_row list"

definition readTurnBundle :: "owner \<Rightarrow> string \<Rightarrow> turn list \<Rightarrow> attempt list \<Rightarrow> turn_db \<Rightarrow> turn_bundle" where
  "readTurnBundle ow cid ts attempts db =
     (if ts = [] then \<lparr> bd_turns = [], bd_attempts = [], bd_items = [] \<rparr>
      else \<lparr> bd_turns = ts, bd_attempts = attempts, bd_items = listItemsForTurns ow cid (map ct_id ts) db \<rparr>)"

text \<open>\<open>mapWithConcurrency\<close> keeps the order and fails as soon as one projection fails.\<close>

definition views_of :: "(item_row \<times> item_view) list \<Rightarrow> string \<Rightarrow> string option \<Rightarrow> item_view list" where
  "views_of items tid aid = map snd (filter (\<lambda>(r, v). ir_turn r = tid \<and> ir_attempt r = aid) items)"

definition attempt_projection :: "turn \<Rightarrow> (item_row \<times> item_view) list \<Rightarrow> attempt \<Rightarrow> attempt_view" where
  "attempt_projection t items a =
     \<lparr> av_id = at_id a, av_seq = at_seq a, av_state = at_state a, av_current = (ct_current t = Some (at_id a)),
       av_error = at_error a, av_excluded = at_excluded a, av_request = at_request a, av_created = at_created a,
       av_terminal = at_terminal a, av_outputs = views_of items (ct_id t) (Some (at_id a)) \<rparr>"

definition projectTurnBundle ::
  "conv_kms \<Rightarrow> (nat list \<Rightarrow> jsval option) \<Rightarrow> owner \<Rightarrow> turn_bundle \<Rightarrow> turn_view list option" where
  "projectTurnBundle k parse ow b =
     map_option (\<lambda>views. let items = zip (bd_items b) views in
       map (\<lambda>t. \<lparr> tv_id = ct_id t, tv_branch = ct_branch t, tv_client = ct_client t, tv_seq = ct_seq t,
                  tv_created = ct_created t, tv_current = ct_current t,
                  tv_inputs = views_of items (ct_id t) None,
                  tv_attempts = map (attempt_projection t items) (filter (\<lambda>a. at_turn a = ct_id t) (bd_attempts b)) \<rparr>)
         (bd_turns b))
       (those (map (projectItem k parse ow) (bd_items b)))"

datatype read_error = Conversation_missing | Turn_missing | Content_unreadable

text \<open>
  \<open>getTurn\<close>. Its statements may see different states of the tables: \<open>db1\<close> the conversation and
  the turn, \<open>attempts\<close> the rows the attempts query returned, \<open>db2\<close> the items.
\<close>

definition getTurn ::
  "conv_kms \<Rightarrow> (nat list \<Rightarrow> jsval option) \<Rightarrow> owner \<Rightarrow> string \<Rightarrow> string \<Rightarrow> turn_db \<Rightarrow> attempt list \<Rightarrow> turn_db
   \<Rightarrow> read_error + turn_view" where
  "getTurn k parse ow cid tid db1 attempts db2 =
     (case find_conv ow cid db1 of None \<Rightarrow> Inl Conversation_missing
      | Some c \<Rightarrow> (case getTurnById ow cid tid db1 of None \<Rightarrow> Inl Turn_missing
        | Some t \<Rightarrow> (case projectTurnBundle k parse ow (readTurnBundle ow cid [t] attempts db2) of
            Some (v # vs) \<Rightarrow> Inr v | _ \<Rightarrow> Inl Content_unreadable)))"

section \<open>The rows of an attempt\<close>

definition row_of :: "turn_db \<Rightarrow> item \<Rightarrow> item_row" where
  "row_of db i = (case join_content db i of Some r \<Rightarrow> r
     | None \<Rightarrow> \<lparr> ir_turn = it_turn i, ir_attempt = it_attempt i, ir_seq = it_seq i, ir_type = it_type i,
         ir_envelope = \<lparr> en_ciphertext = [], en_dek = None, en_key_id = [], en_key_version = 0 \<rparr>, ir_status = [] \<rparr>)"

lemma join_row: "joins db i \<Longrightarrow> join_content db i = Some (row_of db i)"
  by (auto simp: joins_def join_content_def row_of_def split: option.splits)

lemma row_of_sel [simp]: "ir_turn (row_of db i) = it_turn i" "ir_attempt (row_of db i) = it_attempt i"
  "ir_seq (row_of db i) = it_seq i" "ir_type (row_of db i) = it_type i"
  by (simp_all add: row_of_def join_content_def split: option.split)

lemma filter_map_filter:
  "filter P (List.map_filter f xs) = List.map_filter (\<lambda>x. case f x of None \<Rightarrow> None | Some y \<Rightarrow> if P y then Some y else None) xs"
  by (induction xs) (auto simp: map_filter_simps split: option.split)

lemma map_filter_rows:
  assumes "\<And>i. i \<in> set xs \<Longrightarrow> f i = (if P i then Some (g i) else None)"
  shows "List.map_filter f xs = map g (filter P xs)"
  using assms by (induction xs) (auto simp: map_filter_simps)

lemma rows_of_attempt:
  assumes ok: "items_ok db" and a: "tb_attempts db x = Some a"
    and Q: "\<And>i. it_attempt i = Some x \<Longrightarrow> item_of_attempt i a \<Longrightarrow> Q i"
  shows "filter (\<lambda>r. ir_turn r = at_turn a \<and> ir_attempt r = Some x)
      (sort_key item_order (List.map_filter (\<lambda>i. if Q i then join_content db i else None) (tb_items db))) = map (row_of db) (outputs db x)"
proof -
  let ?f = "\<lambda>i. if Q i then join_content db i else None"
  let ?P = "\<lambda>r. ir_turn r = at_turn a \<and> ir_attempt r = Some x"
  have "(case ?f i of None \<Rightarrow> None | Some y \<Rightarrow> if ?P y then Some y else None) = (if it_attempt i = Some x then Some (row_of db i) else None)"
    if i: "i \<in> set (tb_items db)" for i
  proof -
    from ok i have h: "item_home db i" by (simp add: items_ok_def)
    then have j: "join_content db i = Some (row_of db i)" by (intro join_row) (simp add: item_home_def)
    show ?thesis
    proof (cases "it_attempt i = Some x")
      case True
      with h a have "item_of_attempt i a" by (auto simp: item_home_def)
      with True Q j show ?thesis by (simp add: item_of_attempt_def)
    qed (use j in simp)
  qed
  then have "List.map_filter (\<lambda>i. case ?f i of None \<Rightarrow> None | Some y \<Rightarrow> if ?P y then Some y else None) (tb_items db) =
      map (row_of db) (outputs db x)"
    unfolding outputs_def by (rule map_filter_rows)
  moreover have "sort_key item_order (map (row_of db) (outputs db x)) = map (row_of db) (outputs db x)"
  proof (rule sort_key_id_if_sorted)
    have "map it_seq (outputs db x) = [1..<Suc (length (outputs db x))]" using ok by (simp add: items_ok_def)
    then have "sorted (map it_seq (outputs db x))" by (simp only: sorted_upt)
    then have "sorted (map (\<lambda>i. (at_turn a, Some x, it_seq i)) (outputs db x))" by (simp add: sorted_map)
    moreover have "item_order (row_of db i) = (at_turn a, Some x, it_seq i)" if "i \<in> set (outputs db x)" for i
    proof -
      from that ok have "item_home db i" "it_attempt i = Some x" by (auto simp: outputs_def items_ok_def)
      with a show ?thesis by (auto simp: item_order_def item_home_def item_of_attempt_def)
    qed
    ultimately show "sorted (map item_order (map (row_of db) (outputs db x)))"
      by (simp add: comp_def cong: map_cong)
  qed
  ultimately show ?thesis by (simp add: filter_sort filter_map_filter)
qed

lemma attempt_items:
  assumes ok: "items_ok db" and a: "tb_attempts db x = Some a" "owns ow a" "at_conv a = cid" "at_turn a \<in> set tids"
  shows "filter (\<lambda>r. ir_turn r = at_turn a \<and> ir_attempt r = Some x) (listItemsForTurns ow cid tids db) = map (row_of db) (outputs db x)"
  unfolding listItemsForTurns_def using ok a(1) by (rule rows_of_attempt) (use a in \<open>simp add: item_of_attempt_def owns_def\<close>)

lemma rows_of_turn:
  assumes ok: "items_ok db" and t: "t \<in> set (tb_turns db)" "distinct (map ct_id (tb_turns db))"
    and Q: "\<And>i. it_attempt i = None \<Longrightarrow> item_of_turn i t \<Longrightarrow> Q i"
  shows "length (filter (\<lambda>r. ir_turn r = ct_id t \<and> ir_attempt r = None)
      (sort_key item_order (List.map_filter (\<lambda>i. if Q i then join_content db i else None) (tb_items db)))) = 1"
proof -
  let ?f = "\<lambda>i. if Q i then join_content db i else None"
  let ?P = "\<lambda>r. ir_turn r = ct_id t \<and> ir_attempt r = None"
  have "(case ?f i of None \<Rightarrow> None | Some y \<Rightarrow> if ?P y then Some y else None) =
      (if it_attempt i = None \<and> it_turn i = ct_id t then Some (row_of db i) else None)"
    if i: "i \<in> set (tb_items db)" for i
  proof -
    from ok i have h: "item_home db i" by (simp add: items_ok_def)
    then have j: "join_content db i = Some (row_of db i)" by (intro join_row) (simp add: item_home_def)
    show ?thesis
    proof (cases "it_attempt i = None \<and> it_turn i = ct_id t")
      case True
      with h obtain u where u: "u \<in> set (tb_turns db)" "item_of_turn i u" by (auto simp: item_home_def)
      with True have "ct_id u = ct_id t" by (simp add: item_of_turn_def)
      with t u(1) have "u = t" by (auto simp: distinct_map dest: inj_onD)
      with True u Q j show ?thesis by simp
    qed (use j in auto)
  qed
  then have "List.map_filter (\<lambda>i. case ?f i of None \<Rightarrow> None | Some y \<Rightarrow> if ?P y then Some y else None) (tb_items db) =
      map (row_of db) (inputs db (ct_id t))"
    unfolding inputs_def by (rule map_filter_rows)
  moreover have "length (inputs db (ct_id t)) = 1" using ok t(1) by (simp add: items_ok_def)
  ultimately show ?thesis by (simp add: filter_sort filter_map_filter)
qed

section \<open>What a reader sees of a completed answer\<close>

text \<open>A view shows a piece of bytes: as JSON, as text, or as the bytes themselves.\<close>

definition shows_bytes :: "(nat list \<Rightarrow> jsval option) \<Rightarrow> item_view \<Rightarrow> bytes \<Rightarrow> bool" where
  "shows_bytes parse v bs \<longleftrightarrow> \<not> iv_unreadable v \<and> (case text_decode bs of
       None \<Rightarrow> iv_base64 v = Some bs \<and> iv_text v = None
     | Some text \<Rightarrow> iv_base64 v = None \<and>
         (if iv_type v = ''native_stream_chunk'' \<or> parse text = None then iv_text v = Some text
          else iv_text v = None \<and> parse text = Some (iv_native v)))"

lemma project_shows:
  assumes "kms_ok k" "sealed_as k db i bs" "joins db i" "it_org i = ow_org ow"
  shows "\<exists>v. projectItem k parse ow (row_of db i) = Some v \<and> shows_bytes parse v bs"
proof -
  from assms(2) obtain c n where c: "tb_contents db (it_content i) = Some c" "cn_status c = ''active''"
    "ck_encrypt k (it_org i) n bs = Some (cn_envelope c, cn_hmac c)" unfolding sealed_as_def by blast
  have "row_of db i = \<lparr> ir_turn = it_turn i, ir_attempt = it_attempt i, ir_seq = it_seq i, ir_type = it_type i,
      ir_envelope = cn_envelope c, ir_status = cn_status c \<rparr>"
    using assms(3) c(1) by (simp add: row_of_def join_content_def joins_def)
  with kms_okD [OF assms(1) c(3)] c assms(4) show ?thesis
    by (auto simp: projectItem_def shows_bytes_def Let_def split: option.split)
qed

lemma those_zip: "those (map f xs) = Some vs \<Longrightarrow> zip xs vs = map (\<lambda>x. (x, the (f x))) xs"
  by (induction xs arbitrary: vs) (auto split: option.splits)

lemma views_of_rows:
  assumes "those (map f rows) = Some vs"
  shows "views_of (zip rows vs) tid aid = map (the \<circ> f) (filter (\<lambda>r. ir_turn r = tid \<and> ir_attempt r = aid) rows)"
  by (simp add: views_of_def those_zip [OF assms] filter_map comp_def)

text \<open>C23. Whoever reads a turn back and is shown a completed attempt is shown the provider's answer,
in full and in order: its output views are, piece by piece, the bytes the provider sent, even
though the attempts and the items are read by different statements and any number of steps of the
system may lie between them and before. Each piece is shown as the bytes if it is not UTF-8, as
text if it is a stream chunk or no JSON, and as the parsed value otherwise. The KMS is taken to
decrypt what it encrypted.\<close>

theorem completed_attempt_reads_back:
  assumes kms: "kms_ok k" and reach: "reach initial (turn_step k dp) w"
    and later: "(turn_step k dp)\<^sup>*\<^sup>* w w'"
    and rows: "list_all (\<lambda>a. tb_attempts (w_db w) (at_id a) = Some a \<and> owns ow a \<and> at_conv a = cid) attempts"
    and get: "getTurn k parse ow cid tid db1 attempts (w_db w') = Inr v"
    and av: "av \<in> set (tv_attempts v)" "av_state av = Completed_attempt"
  shows "\<exists>parts. list_all2 (shows_bytes parse) (av_outputs av) parts \<and> concat parts = w_wire w' (av_id av)"
proof -
  let ?rows = "listItemsForTurns ow cid [tid] (w_db w')"
  from get obtain t where t: "getTurnById ow cid tid db1 = Some t" by (auto simp: getTurn_def split: option.splits)
  then have tid: "ct_id t = tid" by (auto simp: getTurnById_def find_Some_iff)
  from get t tid obtain vs where vs: "those (map (projectItem k parse ow) ?rows) = Some vs"
    and v: "tv_attempts v = map (attempt_projection t (zip ?rows vs)) (filter (\<lambda>a. at_turn a = ct_id t) attempts)"
    by (auto simp: getTurn_def projectTurnBundle_def readTurnBundle_def Let_def split: option.splits)
  from av(1) obtain a where a: "a \<in> set attempts" "at_turn a = tid" "av = attempt_projection t (zip ?rows vs) a"
    unfolding v tid by auto
  from rows a(1) have row: "tb_attempts (w_db w) (at_id a) = Some a" "owns ow a" "at_conv a = cid" by (auto simp: list_all_iff)
  from a(3) av(2) have fin: "at_state a = Completed_attempt" and id: "av_id av = at_id a" by (simp_all add: attempt_projection_def)
  from completed_steps [OF later reach row(1) fin] have w': "output_ok k w'"
    and row': "tb_attempts (w_db w') (at_id a) = Some a"
    using row(1) by (auto intro: recorded.inv_reach simp: answer_kept_def)
  note items = output_okD(2) [OF w']
  from output_okD(6) [OF w' row' fin] obtain parts
    where parts: "list_all2 (sealed_as k (w_db w')) (outputs (w_db w') (at_id a)) parts" "concat parts = w_wire w' (at_id a)"
    by (auto simp: stored_def)
  have out: "av_outputs av = map (the \<circ> projectItem k parse ow) (map (row_of (w_db w')) (outputs (w_db w') (at_id a)))"
    using attempt_items [OF items row' row(2,3), of "[tid]"] a(2)
    by (simp add: a(3) attempt_projection_def views_of_rows [OF vs] tid)
  have "shows_bytes parse (the (projectItem k parse ow (row_of (w_db w') i))) bs"
    if i: "i \<in> set (outputs (w_db w') (at_id a))" "sealed_as k (w_db w') i bs" for i bs
  proof -
    from i(1) items have h: "item_home (w_db w') i" "it_attempt i = Some (at_id a)" by (auto simp: items_ok_def outputs_def)
    then have "joins (w_db w') i" "it_org i = ow_org ow"
      using row' row(2) by (auto simp: item_home_def item_of_attempt_def owns_def)
    from project_shows [OF kms i(2) this, of parse] show ?thesis by auto
  qed
  with parts(1) have "list_all2 (shows_bytes parse) (av_outputs av) parts"
    unfolding out by (auto simp: list_all2_conv_all_nth comp_def)
  with parts(2) show ?thesis unfolding id by blast
qed

theorem completed_attempt_reads_back_witness:
  "let w = stage (Ended O_completed) demo_final True [7, 8] in
   \<exists>v av. getTurn demo_kms (\<lambda>_. None) demo_owner ''c'' ''t1'' (w_db w) [demo_completed_row] (w_db w) = Inr v \<and>
     tv_attempts v = [av] \<and> (\<exists>parts. list_all2 (shows_bytes (\<lambda>_. None)) (av_outputs av) parts \<and> concat parts = [7, 8])"
proof -
  let ?w = "stage (Ended O_completed) demo_final True [7, 8]"
  have "listItemsForTurns demo_owner ''c'' [''t1''] demo_final =
      sort_key item_order [\<lparr> ir_turn = ''t1'', ir_attempt = None, ir_seq = 1, ir_type = ''native_request'', ir_envelope = demo_key [3], ir_status = ''active'' \<rparr>,
       \<lparr> ir_turn = ''t1'', ir_attempt = Some ''a1'', ir_seq = 1, ir_type = ''native_response'', ir_envelope = demo_key [7, 8], ir_status = ''active'' \<rparr>]"
    by (simp add: listItemsForTurns_def map_filter_simps join_content_def demo_defs demo_owner_def)
  also have "\<dots> = [\<lparr> ir_turn = ''t1'', ir_attempt = None, ir_seq = 1, ir_type = ''native_request'', ir_envelope = demo_key [3], ir_status = ''active'' \<rparr>,
       \<lparr> ir_turn = ''t1'', ir_attempt = Some ''a1'', ir_seq = 1, ir_type = ''native_response'', ir_envelope = demo_key [7, 8], ir_status = ''active'' \<rparr>]"
    by (rule sort_key_id_if_sorted) (simp add: item_order_def)
  finally have items: "listItemsForTurns demo_owner ''c'' [''t1''] (w_db ?w) = \<dots>" by (simp add: stage_def)
  have dec: "text_decode [3] = Some [3]" "text_decode [7, 8] = Some [7, 8]"
    by (simp_all add: text_decode_def byte_order_mark_def)
  have at: "at_id demo_completed_row = ''a1''" "at_state demo_completed_row = Completed_attempt" "at_conv demo_completed_row = ''c''"
    "at_turn demo_completed_row = ''t1''" "owns demo_owner demo_completed_row"
    "tb_attempts (w_db ?w) ''a1'' = Some demo_completed_row"
    by (simp_all add: demo_rows owns_def stage_def demo_final_def demo_answer_def)
  have turn: "getTurnById demo_owner ''c'' ''t1'' (w_db ?w) = Some demo_turn" "find_conv demo_owner ''c'' (w_db ?w) \<noteq> None"
    by (simp_all add: stage_def demo_defs getTurnById_def own_turn_def demo_owner_def find_conv_def)
  have id: "ct_id demo_turn = ''t1''" by (simp add: demo_turn_def new_turn_def demo_send_env_def)
  obtain v av where v: "getTurn demo_kms (\<lambda>_. None) demo_owner ''c'' ''t1'' (w_db ?w) [demo_completed_row] (w_db ?w) = Inr v"
    "tv_attempts v = [av]" "av_id av = ''a1''" "av_state av = Completed_attempt"
    using turn id at items dec
    by (auto simp: getTurn_def projectTurnBundle_def readTurnBundle_def Let_def projectItem_def demo_key_def demo_kms_def
        attempt_projection_def views_of_def split: option.splits)
  have "list_all (\<lambda>a. tb_attempts (w_db ?w) (at_id a) = Some a \<and> owns demo_owner a \<and> at_conv a = ''c'') [demo_completed_row]"
    using at by simp
  from completed_attempt_reads_back [OF demo_kms_ok demo_reach_final rtranclp.rtrancl_refl this v(1), of av] v show ?thesis
    by (auto simp: stage_def Let_def)
qed

section \<open>A byte order mark is lost\<close>

text \<open>C26. Two stream chunks that differ only in a leading byte order mark read back as the same
view, so what comes back is not always the bytes that were stored: the decoder drops the mark, and
a chunk may start with one wherever the flush threshold cut the stream.\<close>

theorem leading_mark_is_lost:
  assumes kms: "ck_decrypt k (ow_org ow) (ir_envelope r) = Some bs" "ck_decrypt k (ow_org ow) sealed = Some (byte_order_mark @ bs)"
    and row: "ir_type r = ''native_stream_chunk''" "ir_status r = ''active''" "en_dek (ir_envelope r) \<noteq> None" "en_dek sealed \<noteq> None"
    and utf8: "text_decode bs \<noteq> None" "take 3 bs \<noteq> byte_order_mark"
  shows "\<exists>v cs. projectItem k parse ow r = Some v \<and> projectItem k parse ow (r\<lparr> ir_envelope := sealed \<rparr>) = Some v \<and>
    iv_text v = Some cs \<and> text_encode cs = bs"
proof -
  from utf8(1) obtain cs where cs: "text_decode bs = Some cs" by blast
  have "text_decode (byte_order_mark @ bs) = Some cs" using cs text_decode_mark [OF utf8(2)] by simp
  moreover have "text_encode cs = bs" using text_decode_bytes [OF cs] utf8(2) by simp
  ultimately show ?thesis using kms row cs by (simp add: projectItem_def Let_def)
qed

theorem leading_mark_is_lost_witness:
  "let r = \<lparr> ir_turn = ''t'', ir_attempt = Some ''a'', ir_seq = 2, ir_type = ''native_stream_chunk'', ir_envelope = demo_key [65],
             ir_status = ''active'' \<rparr> in
   \<exists>v cs. projectItem demo_kms (\<lambda>_. None) demo_owner (r\<lparr> ir_envelope := demo_key [239, 187, 191, 65] \<rparr>) = Some v \<and>
     iv_text v = Some cs \<and> text_encode cs = [65]"
proof -
  let ?r = "\<lparr> ir_turn = ''t'', ir_attempt = Some ''a'', ir_seq = 2, ir_type = ''native_stream_chunk'', ir_envelope = demo_key [65],
             ir_status = ''active'' \<rparr>"
  have "ck_decrypt demo_kms (ow_org demo_owner) (ir_envelope ?r) = Some [65]"
    "ck_decrypt demo_kms (ow_org demo_owner) (demo_key [239, 187, 191, 65]) = Some (byte_order_mark @ [65])"
    "ir_type ?r = ''native_stream_chunk''" "ir_status ?r = ''active''" "en_dek (ir_envelope ?r) \<noteq> None"
    "en_dek (demo_key [239, 187, 191, 65]) \<noteq> None" "text_decode [65] \<noteq> None" "take 3 [65] \<noteq> byte_order_mark"
    by (simp_all add: demo_kms_def demo_key_def byte_order_mark_def text_decode_def)
  from leading_mark_is_lost [OF this, of "\<lambda>_. None"] show ?thesis by (auto simp: Let_def)
qed

end
