(* ===== verification/Turn_Context.thy ===== *)
theory Turn_Context
  imports Turn_Reads
begin

text \<open>
  The durable context of a turn (\<open>ai-conversations/execution/durable-context.ts\<close>): the walk up the
  fork ancestry, the turns it selects, the outputs that are eligible, the budget, and the decrypted
  entries an adapter receives. \<open>JSON.parse\<close> and the KMS are arguments.
\<close>

section \<open>The walk up the ancestry\<close>

datatype unbuildable =
    Branch_unreadable | Fork_shape_invalid | Fork_source_unreadable | Branch_depth_exceeded | Context_budget_exceeded
  | Turn_without_current_attempt | Selected_attempt_unreadable | Turn_input_shape_unsupported | Completed_output_missing
  | Completed_terminal_stamp_missing | Output_item_shape_unsupported | Context_content_unreadable | Context_input_not_utf8
  | Context_input_not_json | Context_output_not_utf8 | Context_output_not_json

record context_budget =
  cb_turns :: nat
  cb_items :: nat
  cb_bytes :: nat

definition DEFAULT_CONTEXT_BUDGET :: context_budget where
  "DEFAULT_CONTEXT_BUDGET = \<lparr> cb_turns = 512, cb_items = 4096, cb_bytes = 32 * 1024 * 1024 \<rparr>"

definition MAX_BRANCH_DEPTH :: nat where
  "MAX_BRANCH_DEPTH = 64"

definition readBranch :: "owner \<Rightarrow> string \<Rightarrow> string \<Rightarrow> turn_db \<Rightarrow> branch option" where
  "readBranch ow cid bid db = (case tb_branches db bid of None \<Rightarrow> None
     | Some b \<Rightarrow> if br_org b = ow_org ow \<and> br_owner b = ow_user ow \<and> br_conv b = cid then Some b else None)"

definition branch_turns :: "owner \<Rightarrow> string \<Rightarrow> string \<Rightarrow> nat \<Rightarrow> turn_db \<Rightarrow> turn list" where
  "branch_turns ow cid bid before db =
     sort_key ct_seq (filter (\<lambda>t. own_turn ow cid t \<and> ct_branch t = bid \<and> ct_seq t < before) (tb_turns db))"

definition readTurnsBefore :: "owner \<Rightarrow> string \<Rightarrow> string \<Rightarrow> nat \<Rightarrow> nat \<Rightarrow> turn_db \<Rightarrow> turn list" where
  "readTurnsBefore ow cid bid before limit db = take limit (branch_turns ow cid bid before db)"

definition readTurnById :: "owner \<Rightarrow> string \<Rightarrow> string \<Rightarrow> string \<Rightarrow> turn_db \<Rightarrow> turn option" where
  "readTurnById ow cid bid tid db = find (\<lambda>t. own_turn ow cid t \<and> ct_branch t = bid \<and> ct_id t = tid) (tb_turns db)"

record walk_frame =
  wf_branch :: branch
  wf_before :: nat
  wf_pin :: "(turn \<times> string) option"

definition fork_pin :: "branch \<Rightarrow> turn \<Rightarrow> string \<Rightarrow> (turn \<times> string) option" where
  "fork_pin b t fa = (if br_mode b = Some ''after_attempt'' then Some (t, fa) else None)"

text \<open>The loop over the ancestry; its bound is the number of frames left.\<close>

fun walkAncestry ::
  "owner \<Rightarrow> string \<Rightarrow> turn_db \<Rightarrow> nat \<Rightarrow> branch \<Rightarrow> nat \<Rightarrow> (turn \<times> string) option \<Rightarrow> unbuildable + walk_frame list" where
  "walkAncestry ow cid db 0 b before pin = Inl Branch_depth_exceeded"
| "walkAncestry ow cid db (Suc n) b before pin =
     (case br_parent b of
        None \<Rightarrow> Inr [\<lparr> wf_branch = b, wf_before = before, wf_pin = pin \<rparr>]
      | Some p \<Rightarrow> (case (br_fork_turn b, br_fork_attempt b) of
            (Some ft, Some fa) \<Rightarrow> (case readBranch ow cid p db of
                None \<Rightarrow> Inl Branch_unreadable
              | Some pb \<Rightarrow> (case readTurnById ow cid (br_id pb) ft db of
                    None \<Rightarrow> Inl Fork_source_unreadable
                  | Some t \<Rightarrow> bindE (walkAncestry ow cid db n pb (ct_seq t) (fork_pin b t fa))
                      (\<lambda>fs. Inr (\<lparr> wf_branch = b, wf_before = before, wf_pin = pin \<rparr> # fs))))
          | _ \<Rightarrow> Inl Fork_shape_invalid))"

section \<open>The selected turns\<close>

record selected =
  sl_turn :: turn
  sl_branch :: string
  sl_provider :: string
  sl_model :: string
  sl_attempt :: "string option"
  sl_exempt :: bool

definition select_turn :: "branch \<Rightarrow> turn \<Rightarrow> selected" where
  "select_turn b t = \<lparr> sl_turn = t, sl_branch = br_id b, sl_provider = br_provider b, sl_model = br_model b,
     sl_attempt = ct_current t, sl_exempt = False \<rparr>"

definition select_pin :: "branch \<Rightarrow> (turn \<times> string) option \<Rightarrow> selected list" where
  "select_pin b pin = (case pin of None \<Rightarrow> []
     | Some (t, fa) \<Rightarrow> [\<lparr> sl_turn = t, sl_branch = br_id b, sl_provider = br_provider b, sl_model = br_model b,
         sl_attempt = Some fa, sl_exempt = True \<rparr>])"

fun emitFrames ::
  "owner \<Rightarrow> string \<Rightarrow> turn_db \<Rightarrow> nat \<Rightarrow> selected list \<Rightarrow> walk_frame list \<Rightarrow> unbuildable + selected list" where
  "emitFrames ow cid db maxTurns sel [] = Inr sel"
| "emitFrames ow cid db maxTurns sel (f # fs) =
     (let turns = readTurnsBefore ow cid (br_id (wf_branch f)) (wf_before f) (maxTurns + 1 - length sel) db;
          sel' = sel @ map (select_turn (wf_branch f)) turns @ select_pin (wf_branch f) (wf_pin f) in
      if maxTurns < length sel + length turns then Inl Context_budget_exceeded
      else if maxTurns < length sel' then Inl Context_budget_exceeded
      else emitFrames ow cid db maxTurns sel' fs)"

section \<open>Eligibility and the plan\<close>

definition readAttemptsByIds :: "owner \<Rightarrow> string \<Rightarrow> string list \<Rightarrow> turn_db \<Rightarrow> string \<Rightarrow> attempt option" where
  "readAttemptsByIds ow cid ids db x =
     (if x \<notin> set ids then None else case tb_attempts db x of None \<Rightarrow> None
      | Some a \<Rightarrow> if owns ow a \<and> at_conv a = cid then Some a else None)"

text \<open>The eligible attempt ids, the eligible attempts by id, and the attempt of each turn.\<close>

fun resolveEligible ::
  "(string \<Rightarrow> attempt option) \<Rightarrow> selected list \<Rightarrow> string list \<times> (string \<Rightarrow> attempt option) \<times> (string \<Rightarrow> attempt option)
   \<Rightarrow> unbuildable + string list \<times> (string \<Rightarrow> attempt option) \<times> (string \<Rightarrow> attempt option)" where
  "resolveEligible att [] acc = Inr acc"
| "resolveEligible att (s # ss) (ids, eligible, byTurn) =
     (case sl_attempt s of None \<Rightarrow> Inl Turn_without_current_attempt
      | Some x \<Rightarrow> (case att x of None \<Rightarrow> Inl Selected_attempt_unreadable
          | Some a \<Rightarrow>
              if at_turn a \<noteq> ct_id (sl_turn s) then Inl Selected_attempt_unreadable
              else let byTurn' = byTurn(ct_id (sl_turn s) \<mapsto> a);
                       excluded = (if sl_exempt s then False else at_excluded a) in
                if at_state a = Completed_attempt \<and> \<not> excluded
                then resolveEligible att ss (ids @ [x], eligible(x \<mapsto> a), byTurn')
                else resolveEligible att ss (ids, eligible, byTurn')))"

definition readItemsWithContent :: "owner \<Rightarrow> string \<Rightarrow> (string \<times> string) list \<Rightarrow> string list \<Rightarrow> turn_db \<Rightarrow> item_row list" where
  "readItemsWithContent ow cid branchTurns ids db = sort_key item_order (List.map_filter
     (\<lambda>i. if it_org i = ow_org ow \<and> it_owner i = ow_user ow \<and> it_conv i = cid \<and> (it_branch i, it_turn i) \<in> set branchTurns \<and>
             (case it_attempt i of None \<Rightarrow> True | Some x \<Rightarrow> x \<in> set ids)
          then join_content db i else None) (tb_items db))"

definition readContextAggregate :: "owner \<Rightarrow> string \<Rightarrow> (string \<times> string) list \<Rightarrow> string list \<Rightarrow> turn_db \<Rightarrow> nat \<times> nat" where
  "readContextAggregate ow cid branchTurns ids db =
     (let rows = List.map_filter
        (\<lambda>i. if it_org i = ow_org ow \<and> it_owner i = ow_user ow \<and> it_conv i = cid \<and> (it_branch i, it_turn i) \<in> set branchTurns \<and>
                (case it_attempt i of None \<Rightarrow> True | Some x \<Rightarrow> x \<in> set ids)
             then join_content db i else None) (tb_items db)
      in (length rows, sum_list (map (\<lambda>r. length (en_ciphertext (ir_envelope r))) rows)))"

record content_ref =
  rf_envelope :: envelope
  rf_status :: string

definition toRef :: "item_row \<Rightarrow> content_ref" where
  "toRef r = \<lparr> rf_envelope = ir_envelope r, rf_status = ir_status r \<rparr>"

datatype output_kind = Response_output | Stream_output

record plan_output =
  po_attempt :: string
  po_credential :: "string option"
  po_completed :: int
  po_kind :: output_kind
  po_contents :: "content_ref list"

record plan_entry =
  pe_turn :: string
  pe_provider :: string
  pe_model :: string
  pe_failed :: bool
  pe_user :: content_ref
  pe_output :: "plan_output option"

definition plan_output_of :: "item_row list \<Rightarrow> selected \<Rightarrow> attempt \<Rightarrow> unbuildable + plan_output" where
  "plan_output_of items s a =
     (let out = filter (\<lambda>r. ir_turn r = ct_id (sl_turn s) \<and> ir_attempt r = Some (at_id a)) items;
          base = (\<lambda>ms kind refs. \<lparr> po_attempt = at_id a, po_credential = at_credential a, po_completed = ms, po_kind = kind,
                    po_contents = refs \<rparr>) in
      if out = [] then Inl Completed_output_missing
      else case at_terminal a of None \<Rightarrow> Inl Completed_terminal_stamp_missing
        | Some stamp \<Rightarrow>
            if list_all (\<lambda>r. ir_type r = ''native_response'') out \<and> length out = 1
              then Inr (base (stamp div 1000) Response_output [toRef (hd out)])
            else if list_all (\<lambda>r. ir_type r = ''native_stream_chunk'') out
              then Inr (base (stamp div 1000) Stream_output (map toRef out))
            else Inl Output_item_shape_unsupported)"

definition provider_failed :: "attempt option \<Rightarrow> bool" where
  "provider_failed r = (case r of None \<Rightarrow> False
     | Some a \<Rightarrow> at_state a = Failed_attempt \<and> at_error a \<noteq> None \<and> at_error a \<noteq> Some Local_error_class \<and>
         at_error a \<noteq> Some Credential_unavailable)"

definition plan_entry_of ::
  "item_row list \<Rightarrow> (string \<Rightarrow> attempt option) \<Rightarrow> (string \<Rightarrow> attempt option) \<Rightarrow> selected \<Rightarrow> unbuildable + plan_entry" where
  "plan_entry_of items eligible byTurn s =
     (let owned = filter (\<lambda>r. ir_turn r = ct_id (sl_turn s) \<and> ir_attempt r = None) items;
          entry = (\<lambda>out. \<lparr> pe_turn = ct_id (sl_turn s), pe_provider = sl_provider s, pe_model = sl_model s,
                     pe_failed = provider_failed (byTurn (ct_id (sl_turn s))), pe_user = toRef (hd owned), pe_output = out \<rparr>) in
      if length owned \<noteq> 1 then Inl Turn_input_shape_unsupported
      else case Option.bind (sl_attempt s) eligible of None \<Rightarrow> Inr (entry None)
        | Some a \<Rightarrow> bindE (plan_output_of items s a) (\<lambda>out. Inr (entry (Some out))))"

definition selectContext :: "owner \<Rightarrow> string \<Rightarrow> string \<Rightarrow> nat \<Rightarrow> context_budget \<Rightarrow> turn_db \<Rightarrow> unbuildable + selected list" where
  "selectContext ow cid bid seq budget db =
     (case readBranch ow cid bid db of None \<Rightarrow> Inl Branch_unreadable
      | Some b \<Rightarrow> bindE (walkAncestry ow cid db MAX_BRANCH_DEPTH b seq None) (\<lambda>frames.
          emitFrames ow cid db (cb_turns budget) [] (rev frames)))"

definition loadDurableContextPlan ::
  "owner \<Rightarrow> string \<Rightarrow> string \<Rightarrow> nat \<Rightarrow> context_budget \<Rightarrow> turn_db \<Rightarrow> unbuildable + plan_entry list" where
  "loadDurableContextPlan ow cid bid seq budget db =
     bindE (selectContext ow cid bid seq budget db) (\<lambda>sel.
       if sel = [] then Inr []
       else let att = readAttemptsByIds ow cid (List.map_filter sl_attempt sel) db;
                pairs = map (\<lambda>s. (sl_branch s, ct_id (sl_turn s))) sel in
         bindE (resolveEligible att sel ([], Map.empty, Map.empty)) (\<lambda>(ids, eligible, byTurn).
           case readContextAggregate ow cid pairs ids db of (items, bytes) \<Rightarrow>
             if cb_items budget < items \<or> cb_bytes budget < bytes then Inl Context_budget_exceeded
             else collectE (map (plan_entry_of (readItemsWithContent ow cid pairs ids db) eligible byTurn) sel)))"

section \<open>Decryption and parsing\<close>

datatype native_output = Body jsval | Sse_text "nat list"

record assembled_entry =
  as_turn :: string
  as_provider :: string
  as_model :: string
  as_failed :: bool
  as_user :: jsval
  as_assistant :: "(plan_output \<times> native_output) option"

definition decryptRef :: "conv_kms \<Rightarrow> string \<Rightarrow> content_ref \<Rightarrow> unbuildable + bytes" where
  "decryptRef k org r =
     (if rf_status r \<noteq> ''active'' \<or> en_dek (rf_envelope r) = None then Inl Context_content_unreadable
      else case ck_decrypt k org (rf_envelope r) of None \<Rightarrow> Inl Context_content_unreadable | Some bs \<Rightarrow> Inr bs)"

definition decodeUtf8Strict :: "bytes \<Rightarrow> unbuildable \<Rightarrow> unbuildable + nat list" where
  "decodeUtf8Strict bs reason = (case text_decode bs of None \<Rightarrow> Inl reason | Some t \<Rightarrow> Inr t)"

definition parseJson :: "(nat list \<Rightarrow> jsval option) \<Rightarrow> nat list \<Rightarrow> unbuildable \<Rightarrow> unbuildable + jsval" where
  "parseJson parse t reason = (case parse t of None \<Rightarrow> Inl reason | Some v \<Rightarrow> Inr v)"

definition assemble_output ::
  "(nat list \<Rightarrow> jsval option) \<Rightarrow> plan_output option \<Rightarrow> bytes list \<Rightarrow> unbuildable + (plan_output \<times> native_output) option" where
  "assemble_output parse out parts = (case out of None \<Rightarrow> Inr None
     | Some o' \<Rightarrow> (case po_kind o' of
         Response_output \<Rightarrow> bindE (decodeUtf8Strict (hd parts) Context_output_not_utf8) (\<lambda>t.
           bindE (parseJson parse t Context_output_not_json) (\<lambda>v. Inr (Some (o', Body v))))
       | Stream_output \<Rightarrow> bindE (decodeUtf8Strict (concat parts) Context_output_not_utf8) (\<lambda>t. Inr (Some (o', Sse_text t)))))"

definition entry_outputs :: "plan_entry \<Rightarrow> content_ref list" where
  "entry_outputs e = (case pe_output e of None \<Rightarrow> [] | Some o' \<Rightarrow> po_contents o')"

text \<open>All contents are decrypted, in any order, before anything is parsed.\<close>

definition assembleDurableContext ::
  "conv_kms \<Rightarrow> (nat list \<Rightarrow> jsval option) \<Rightarrow> string \<Rightarrow> plan_entry list \<Rightarrow> unbuildable + assembled_entry list" where
  "assembleDurableContext k parse org plan =
     bindE (collectE (map (\<lambda>e. bindE (decryptRef k org (pe_user e)) (\<lambda>u.
              bindE (collectE (map (decryptRef k org) (entry_outputs e))) (\<lambda>parts. Inr (e, u, parts)))) plan)) (\<lambda>opened.
     collectE (map (\<lambda>(e, u, parts).
       bindE (decodeUtf8Strict u Context_input_not_utf8) (\<lambda>t.
       bindE (parseJson parse t Context_input_not_json) (\<lambda>v.
       bindE (assemble_output parse (pe_output e) parts) (\<lambda>out.
         Inr \<lparr> as_turn = pe_turn e, as_provider = pe_provider e, as_model = pe_model e, as_failed = pe_failed e, as_user = v,
               as_assistant = out \<rparr>)))) opened))"

section \<open>The whole history, or nothing\<close>

text \<open>
  The reference: the history of a branch up to a turn is the history of its parent up to the fork,
  the pinned answer of the fork if it keeps one, and all its own turns before.
\<close>

definition branch_part :: "owner \<Rightarrow> string \<Rightarrow> turn_db \<Rightarrow> branch \<Rightarrow> nat \<Rightarrow> (turn \<times> string) option \<Rightarrow> selected list" where
  "branch_part ow cid db b n pin = map (select_turn b) (branch_turns ow cid (br_id b) n db) @ select_pin b pin"

inductive history :: "owner \<Rightarrow> string \<Rightarrow> turn_db \<Rightarrow> branch \<Rightarrow> nat \<Rightarrow> (turn \<times> string) option \<Rightarrow> selected list \<Rightarrow> bool"
  for ow cid db where
  root: "br_parent b = None \<Longrightarrow> history ow cid db b n pin (branch_part ow cid db b n pin)"
| fork: "br_parent b = Some p \<Longrightarrow> br_fork_turn b = Some ft \<Longrightarrow> br_fork_attempt b = Some fa \<Longrightarrow> readBranch ow cid p db = Some pb \<Longrightarrow>
     readTurnById ow cid (br_id pb) ft db = Some t \<Longrightarrow> history ow cid db pb (ct_seq t) (fork_pin b t fa) hs \<Longrightarrow>
     history ow cid db b n pin (hs @ branch_part ow cid db b n pin)"

inductive_cases history_rootE: "history ow cid db b n pin hs"

lemma take_budget:
  assumes "length sel \<le> m" "\<not> m < length sel + length (take (m + 1 - length sel) xs)"
  shows "take (m + 1 - length sel) xs = xs"
proof (rule take_all)
  show "length xs \<le> m + 1 - length sel" using assms by (cases "length xs \<le> m + 1 - length sel") auto
qed

lemma emit_all:
  "emitFrames ow cid db m sel fs = Inr sel' \<Longrightarrow> length sel \<le> m \<Longrightarrow>
   sel' = sel @ concat (map (\<lambda>f. branch_part ow cid db (wf_branch f) (wf_before f) (wf_pin f)) fs) \<and> length sel' \<le> m"
proof (induction ow cid db m sel fs rule: emitFrames.induct)
  case (2 ow cid db m sel f fs)
  let ?all = "branch_turns ow cid (br_id (wf_branch f)) (wf_before f) db"
  let ?turns = "take (m + 1 - length sel) ?all"
  from 2(2) have ok: "\<not> m < length sel + length ?turns" by (auto simp: Let_def readTurnsBefore_def split: if_splits)
  have whole: "?turns = ?all" by (rule take_budget [OF 2(3) ok])
  from 2(1) [OF refl refl] 2(2,3) ok show ?case
    by (auto simp: Let_def readTurnsBefore_def branch_part_def whole split: if_splits)
qed simp

lemma walk_history:
  "walkAncestry ow cid db n b before pin = Inr fs \<Longrightarrow>
   history ow cid db b before pin (concat (map (\<lambda>f. branch_part ow cid db (wf_branch f) (wf_before f) (wf_pin f)) (rev fs)))"
proof (induction n arbitrary: b before pin fs)
  case (Suc n)
  show ?case
  proof (cases "br_parent b")
    case None
    with Suc.prems show ?thesis by (auto intro: history.root)
  next
    case (Some p)
    with Suc.prems obtain ft fa pb t gs where f: "br_fork_turn b = Some ft" "br_fork_attempt b = Some fa" "readBranch ow cid p db = Some pb"
      "readTurnById ow cid (br_id pb) ft db = Some t" "walkAncestry ow cid db n pb (ct_seq t) (fork_pin b t fa) = Inr gs"
      "fs = \<lparr> wf_branch = b, wf_before = before, wf_pin = pin \<rparr> # gs"
      by (auto simp: bindE_Inr_iff split: option.splits)
    from history.fork [OF Some f(1-4) Suc.IH [OF f(5)], of before pin] f(6) show ?thesis by simp
  qed
qed simp

lemma select_history:
  assumes "selectContext ow cid bid seq budget db = Inr sel"
  obtains b where "readBranch ow cid bid db = Some b" "history ow cid db b seq None sel" "length sel \<le> cb_turns budget"
proof -
  from assms obtain b fs where b: "readBranch ow cid bid db = Some b" "walkAncestry ow cid db MAX_BRANCH_DEPTH b seq None = Inr fs"
    "emitFrames ow cid db (cb_turns budget) [] (rev fs) = Inr sel"
    by (auto simp: selectContext_def bindE_Inr_iff split: option.splits)
  have "sel = concat (map (\<lambda>f. branch_part ow cid db (wf_branch f) (wf_before f) (wf_pin f)) (rev fs)) \<and> length sel \<le> cb_turns budget"
  proof -
    have "length ([] :: selected list) \<le> cb_turns budget" by simp
    from emit_all [OF b(3) this] show ?thesis unfolding append_Nil .
  qed
  with that [OF b(1)] walk_history [OF b(2)] show thesis by metis
qed

definition eligible_in :: "selected list \<Rightarrow> string \<Rightarrow> attempt \<Rightarrow> bool" where
  "eligible_in sel x a \<longleftrightarrow> at_state a = Completed_attempt \<and> list_ex (\<lambda>s. sl_attempt s = Some x \<and> (sl_exempt s \<or> \<not> at_excluded a)) sel"

lemma eligible_Cons: "eligible_in (s # ss) x a =
    (eligible_in ss x a \<or> at_state a = Completed_attempt \<and> sl_attempt s = Some x \<and> (sl_exempt s \<or> \<not> at_excluded a))"
  by (auto simp: eligible_in_def)

lemma resolve_eligible:
  "resolveEligible att sel (ids, el, bt) = Inr (ids', el', bt') \<Longrightarrow>
   (\<forall>s \<in> set sel. \<exists>x a. sl_attempt s = Some x \<and> att x = Some a \<and> at_turn a = ct_id (sl_turn s)) \<and>
   (\<forall>x. el' x = (case att x of None \<Rightarrow> el x | Some a \<Rightarrow> if eligible_in sel x a then Some a else el x)) \<and>
   (\<forall>x. x \<in> set ids' \<longleftrightarrow> x \<in> set ids \<or> (\<exists>a. att x = Some a \<and> eligible_in sel x a))"
proof (induction sel arbitrary: ids el bt)
  case Nil
  then show ?case by (auto simp: eligible_in_def split: option.split)
next
  case (Cons s ss)
  from Cons.prems obtain x a where x: "sl_attempt s = Some x" "att x = Some a" "at_turn a = ct_id (sl_turn s)"
    by (auto split: option.splits if_splits)
  show ?case
  proof (cases "at_state a = Completed_attempt \<and> \<not> (if sl_exempt s then False else at_excluded a)")
    case True
    with Cons.prems x have r: "resolveEligible att ss (ids @ [x], el(x \<mapsto> a), bt(ct_id (sl_turn s) \<mapsto> a)) = Inr (ids', el', bt')"
      by (simp add: Let_def)
    have e: "eligible_in (s # ss) y b = (eligible_in ss y b \<or> y = x)" if "att y = Some b" for y b
      using True x that by (auto simp: eligible_Cons split: if_splits)
    from Cons.IH [OF r] x e show ?thesis by (auto split: option.splits)
  next
    case False
    with Cons.prems x have r: "resolveEligible att ss (ids, el, bt(ct_id (sl_turn s) \<mapsto> a)) = Inr (ids', el', bt')"
      by (simp add: Let_def)
    have e: "eligible_in (s # ss) y b = eligible_in ss y b" if "att y = Some b" for y b
      using False x that by (auto simp: eligible_Cons split: if_splits)
    from Cons.IH [OF r] x e show ?thesis by (auto split: option.splits)
  qed
qed

text \<open>What the plan says of one selected turn.\<close>

definition entry_for :: "owner \<Rightarrow> string \<Rightarrow> turn_db \<Rightarrow> selected list \<Rightarrow> selected \<Rightarrow> plan_entry \<Rightarrow> bool" where
  "entry_for ow cid db hs s e \<longleftrightarrow> pe_turn e = ct_id (sl_turn s) \<and> pe_provider e = sl_provider s \<and> pe_model e = sl_model s \<and>
     (case sl_attempt s of None \<Rightarrow> False | Some x \<Rightarrow> (case tb_attempts db x of None \<Rightarrow> False
        | Some a \<Rightarrow> owns ow a \<and> at_conv a = cid \<and> at_turn a = pe_turn e \<and>
            (case pe_output e of None \<Rightarrow> \<not> eligible_in hs x a
             | Some out \<Rightarrow> eligible_in hs x a \<and> po_attempt out = at_id a \<and> po_contents out \<noteq> [])))"

lemma load_cases:
  assumes "loadDurableContextPlan ow cid bid seq budget db = Inr entries"
  obtains "selectContext ow cid bid seq budget db = Inr []" "entries = []"
  | sel ids eligible byTurn where "selectContext ow cid bid seq budget db = Inr sel" "sel \<noteq> []"
      "resolveEligible (readAttemptsByIds ow cid (List.map_filter sl_attempt sel) db) sel ([], Map.empty, Map.empty) = Inr (ids, eligible, byTurn)"
      "map (plan_entry_of (readItemsWithContent ow cid (map (\<lambda>s. (sl_branch s, ct_id (sl_turn s))) sel) ids db) eligible byTurn) sel = map Inr entries"
proof -
  from assms obtain sel where sel: "selectContext ow cid bid seq budget db = Inr sel" by (auto simp: loadDurableContextPlan_def bindE_Inr_iff)
  show thesis
  proof (cases "sel = []")
    case True
    with assms sel that(1) show thesis by (simp add: loadDurableContextPlan_def)
  next
    case False
    let ?pairs = "map (\<lambda>s. (sl_branch s, ct_id (sl_turn s))) sel"
    from assms sel False obtain ids eligible byTurn where
      r: "resolveEligible (readAttemptsByIds ow cid (List.map_filter sl_attempt sel) db) sel ([], Map.empty, Map.empty) = Inr (ids, eligible, byTurn)"
      and m: "(case readContextAggregate ow cid ?pairs ids db of (items, bytes) \<Rightarrow>
          if cb_items budget < items \<or> cb_bytes budget < bytes then Inl Context_budget_exceeded
          else collectE (map (plan_entry_of (readItemsWithContent ow cid ?pairs ids db) eligible byTurn) sel)) = Inr entries"
      by (auto simp: loadDurableContextPlan_def bindE_Inr_iff Let_def)
    from m have "map (plan_entry_of (readItemsWithContent ow cid ?pairs ids db) eligible byTurn) sel = map Inr entries"
      by (cases "readContextAggregate ow cid ?pairs ids db") (auto simp: collectE_Inr_iff split: if_splits)
    from that(2) [OF sel False r this] show thesis .
  qed
qed

lemma plan_entry_output:
  assumes "plan_entry_of items eligible byTurn s = Inr e"
  shows "pe_turn e = ct_id (sl_turn s) \<and> pe_provider e = sl_provider s \<and> pe_model e = sl_model s \<and>
    (case Option.bind (sl_attempt s) eligible of None \<Rightarrow> pe_output e = None
     | Some a \<Rightarrow> (\<exists>out. pe_output e = Some out \<and> po_attempt out = at_id a \<and>
         po_contents out = map toRef (filter (\<lambda>r. ir_turn r = ct_id (sl_turn s) \<and> ir_attempt r = Some (at_id a)) items) \<and> po_contents out \<noteq> []))"
proof (cases "Option.bind (sl_attempt s) eligible")
  case None
  with assms show ?thesis by (auto simp: plan_entry_of_def Let_def split: if_splits)
next
  case (Some a)
  with assms obtain out where out: "plan_output_of items s a = Inr out" and e: "pe_output e = Some out" "pe_turn e = ct_id (sl_turn s)"
    "pe_provider e = sl_provider s" "pe_model e = sl_model s"
    by (auto simp: plan_entry_of_def Let_def bindE_Inr_iff split: if_splits)
  let ?rows = "filter (\<lambda>r. ir_turn r = ct_id (sl_turn s) \<and> ir_attempt r = Some (at_id a)) items"
  from out have "?rows \<noteq> []" "po_attempt out = at_id a" "po_contents out = map toRef ?rows \<or> (length ?rows = 1 \<and> po_contents out = [toRef (hd ?rows)])"
    by (auto simp: plan_output_of_def Let_def split: if_splits option.splits)
  then have "po_contents out = map toRef ?rows" by (cases ?rows) auto
  with \<open>?rows \<noteq> []\<close> \<open>po_attempt out = at_id a\<close> e Some show ?thesis by simp
qed

lemma loaded_entries:
  assumes "loadDurableContextPlan ow cid bid seq budget db = Inr entries"
  obtains sel where "selectContext ow cid bid seq budget db = Inr sel" "list_all2 (entry_for ow cid db sel) sel entries"
  using assms
proof (cases rule: load_cases)
  case 1
  with that show ?thesis by simp
next
  case (2 sel ids eligible byTurn)
  let ?att = "readAttemptsByIds ow cid (List.map_filter sl_attempt sel) db"
  let ?items = "readItemsWithContent ow cid (map (\<lambda>s. (sl_branch s, ct_id (sl_turn s))) sel) ids db"
  from resolve_eligible [OF 2(3)] have sel: "\<And>s. s \<in> set sel \<Longrightarrow> \<exists>x a. sl_attempt s = Some x \<and> ?att x = Some a \<and> at_turn a = ct_id (sl_turn s)"
    and el: "\<And>x. eligible x = (case ?att x of None \<Rightarrow> None | Some a \<Rightarrow> if eligible_in sel x a then Some a else None)"
    by auto
  have "entry_for ow cid db sel s e" if s: "s \<in> set sel" and e: "plan_entry_of ?items eligible byTurn s = Inr e" for s e
  proof -
    from sel [OF s] obtain x a where x: "sl_attempt s = Some x" "?att x = Some a" "at_turn a = ct_id (sl_turn s)" by blast
    then have a: "tb_attempts db x = Some a" "owns ow a" "at_conv a = cid"
      by (auto simp: readAttemptsByIds_def split: if_splits option.splits)
    from plan_entry_output [OF e] x el [of x] a show ?thesis
      by (cases "eligible_in sel x a") (auto simp: entry_for_def)
  qed
  with 2(4) have "list_all2 (entry_for ow cid db sel) sel entries"
    by (auto simp: list_all2_conv_all_nth list_eq_iff_nth_eq)
  with 2(1) that show ?thesis by blast
qed

text \<open>C17. The context of a turn is its whole history or nothing: when a plan is made, it has exactly
one entry for each turn of the history of the branch, in order: for every ancestor all turns before
the fork, then the pinned turn where the fork keeps an answer, then all earlier turns of the branch
itself, however many branches deep; nothing is dropped to fit a budget. A turn contributes an
output exactly if its selected attempt is completed and, unless the fork pins it, not excluded,
and then the output is not empty.\<close>

theorem context_is_the_whole_history:
  assumes "loadDurableContextPlan ow cid bid seq budget db = Inr entries"
  shows "\<exists>b hs. readBranch ow cid bid db = Some b \<and> history ow cid db b seq None hs \<and> length hs \<le> cb_turns budget \<and>
    list_all2 (entry_for ow cid db hs) hs entries"
  using loaded_entries [OF assms] by (metis select_history)

definition demo_fork :: turn_db where
  "demo_fork = demo_final\<lparr> tb_branches := [''b'' \<mapsto> demo_branch, ''f'' \<mapsto> demo_branch\<lparr> br_id := ''f'', br_parent := Some ''b'',
     br_fork_turn := Some ''t1'', br_fork_attempt := Some ''a1'', br_mode := Some ''after_attempt'' \<rparr>] \<rparr>"

definition demo_entry :: plan_entry where
  "demo_entry = \<lparr> pe_turn = ''t1'', pe_provider = ''anthropic'', pe_model = ''m'', pe_failed = False,
     pe_user = \<lparr> rf_envelope = demo_key [3], rf_status = ''active'' \<rparr>,
     pe_output = Some \<lparr> po_attempt = ''a1'', po_credential = Some ''p'', po_completed = 0, po_kind = Response_output,
       po_contents = [\<lparr> rf_envelope = demo_key [7, 8], rf_status = ''active'' \<rparr>] \<rparr> \<rparr>"

lemma demo_fork_plan: "loadDurableContextPlan demo_owner ''c'' ''f'' 1 DEFAULT_CONTEXT_BUDGET demo_fork = Inr [demo_entry]"
  by code_simp

theorem context_is_the_whole_history_witness:
  "\<exists>b hs. readBranch demo_owner ''c'' ''f'' demo_fork = Some b \<and> history demo_owner ''c'' demo_fork b 1 None hs \<and> length hs = 1 \<and>
     list_all2 (entry_for demo_owner ''c'' demo_fork hs) hs [demo_entry] \<and> pe_output demo_entry \<noteq> None"
proof -
  from context_is_the_whole_history [OF demo_fork_plan] obtain b hs where "readBranch demo_owner ''c'' ''f'' demo_fork = Some b"
    "history demo_owner ''c'' demo_fork b 1 None hs" "list_all2 (entry_for demo_owner ''c'' demo_fork hs) hs [demo_entry]" by blast
  moreover from this(3) have "length hs = 1" by (auto dest: list_all2_lengthD)
  ultimately show ?thesis by (auto simp: demo_entry_def)
qed

end
