(* ===== verification/Turn_History.thy ===== *)
theory Turn_History
  imports Turn_Context
begin

text \<open>
  The execution plane and the context loader together: what \<open>loadDurableContextPlan\<close> answers on the
  tables the executor can produce. On a branch that was not forked only two errors are possible,
  and one of them is a state the executor itself brings about.
\<close>

section \<open>The selection on a branch without a parent\<close>

lemma root_history: "history ow cid db b n pin hs \<Longrightarrow> br_parent b = None \<Longrightarrow> hs = branch_part ow cid db b n pin"
  by (erule history_rootE) auto

lemma emit_error: "emitFrames ow cid db m sel fs = Inl e \<Longrightarrow> e = Context_budget_exceeded"
  by (induction ow cid db m sel fs rule: emitFrames.induct) (auto simp: Let_def split: if_splits)

lemma walk_root: "br_parent b = None \<Longrightarrow>
    walkAncestry ow cid db MAX_BRANCH_DEPTH b n pin = Inr [\<lparr> wf_branch = b, wf_before = n, wf_pin = pin \<rparr>]"
proof -
  assume b: "br_parent b = None"
  have "walkAncestry ow cid db (Suc 63) b n pin = Inr [\<lparr> wf_branch = b, wf_before = n, wf_pin = pin \<rparr>]"
    by (simp only: walkAncestry.simps b option.case)
  then show ?thesis by (simp add: MAX_BRANCH_DEPTH_def)
qed

lemma select_root:
  assumes "readBranch ow cid bid db = Some b" "br_parent b = None"
  shows "selectContext ow cid bid seq budget db = Inl Context_budget_exceeded \<or>
    selectContext ow cid bid seq budget db = Inr (branch_part ow cid db b seq None)"
proof (cases "selectContext ow cid bid seq budget db")
  case (Inl e)
  with assms walk_root [OF assms(2)] have "e = Context_budget_exceeded" by (auto simp: selectContext_def simp del: emitFrames.simps dest: emit_error)
  with Inl show ?thesis by simp
next
  case (Inr sel)
  then obtain b' where "readBranch ow cid bid db = Some b'" "history ow cid db b' seq None sel" by (rule select_history)
  with assms Inr show ?thesis by (auto dest: root_history)
qed

lemma resolve_succeeds:
  "(\<And>s. s \<in> set sel \<Longrightarrow> \<exists>x a. sl_attempt s = Some x \<and> att x = Some a \<and> at_turn a = ct_id (sl_turn s)) \<Longrightarrow>
   \<exists>ids el bt. resolveEligible att sel acc = Inr (ids, el, bt)"
proof (induction sel arbitrary: acc)
  case Nil
  then show ?case by (cases acc) simp
next
  case (Cons s ss)
  from Cons.prems [of s] obtain x a where x: "sl_attempt s = Some x" "att x = Some a" "at_turn a = ct_id (sl_turn s)" by auto
  obtain ids el bt where acc: "acc = (ids, el, bt)" by (cases acc) auto
  have "\<exists>ids el bt. resolveEligible att ss acc' = Inr (ids, el, bt)" for acc'
    using Cons.prems by (intro Cons.IH) simp
  with x show ?case by (simp add: acc Let_def)
qed

lemma collectE_error: "collectE xs = Inl e \<Longrightarrow> Inl e \<in> set xs"
  by (induction xs rule: collectE.induct) (auto simp: bindE_def split: sum.splits)

text \<open>A turn that is selected on such a branch, with the attempt that carries its answer.\<close>

definition answered :: "owner \<Rightarrow> string \<Rightarrow> turn_db \<Rightarrow> branch \<Rightarrow> selected \<Rightarrow> string \<Rightarrow> attempt \<Rightarrow> bool" where
  "answered ow cid db b s x a \<longleftrightarrow> sl_turn s \<in> set (tb_turns db) \<and> own_turn ow cid (sl_turn s) \<and> ct_branch (sl_turn s) = br_id b \<and>
     sl_branch s = br_id b \<and> \<not> sl_exempt s \<and> sl_attempt s = Some x \<and> tb_attempts db x = Some a \<and> owns ow a \<and> at_conv a = cid \<and>
     at_branch a = br_id b \<and> at_turn a = ct_id (sl_turn s) \<and> at_id a = x"

lemma root_answered:
  assumes ok: "tables_ok db" and s: "s \<in> set (branch_part ow cid db b seq None)"
  shows "\<exists>x a. answered ow cid db b s x a"
proof -
  from s obtain t where t: "s = select_turn b t" "t \<in> set (tb_turns db)" "own_turn ow cid t" "ct_branch t = br_id b"
    by (auto simp: branch_part_def select_pin_def branch_turns_def)
  from tables_okD(2) [OF ok t(2)] obtain x a where x: "ct_current t = Some x" "tb_attempts db x = Some a" "on_branch a t" "at_turn a = ct_id t"
    by (auto simp: turn_ok_def)
  from tables_okD(1) [OF ok x(2)] have "at_id a = x" by (simp add: attempt_row_ok_def)
  with t x have "answered ow cid db b s x a" by (simp add: answered_def select_turn_def own_turn_def on_branch_def owns_def)
  then show ?thesis by blast
qed

section \<open>What the plan makes of a turn\<close>

definition entry_fate :: "turn_db \<Rightarrow> string \<Rightarrow> attempt \<Rightarrow> unbuildable + plan_entry \<Rightarrow> bool" where
  "entry_fate db x a r \<longleftrightarrow>
     (if at_state a = Completed_attempt \<and> \<not> at_excluded a
      then if outputs db x = [] then r = Inl Completed_output_missing
        else \<exists>e out. r = Inr e \<and> pe_output e = Some out \<and> po_attempt out = x \<and> po_contents out = map (toRef \<circ> row_of db) (outputs db x)
      else \<exists>e. r = Inr e \<and> pe_output e = None)"

lemma plan_output_shape:
  assumes rows: "filter (\<lambda>r. ir_turn r = ct_id (sl_turn s) \<and> ir_attempt r = Some (at_id a)) items = map (row_of db) its"
    and its: "its \<noteq> []" "list_all (\<lambda>i. it_type i = ''native_stream_chunk'') its \<or> (\<exists>i. its = [i] \<and> it_type i = ''native_response'')"
    and stamp: "at_terminal a = Some stamp"
  shows "\<exists>out. plan_output_of items s a = Inr out \<and> po_attempt out = at_id a \<and> po_contents out = map (toRef \<circ> row_of db) its"
proof -
  from its(1) obtain i js where i: "its = i # js" by (cases its) auto
  from its(2) show ?thesis
    by (auto simp: plan_output_of_def rows Let_def stamp i list.pred_map comp_def)
qed

lemma plan_fate:
  assumes w: "output_ok k w" and db: "db = w_db w" and s: "s \<in> set sel" "answered ow cid db b s x a"
    and pairs: "pairs = map (\<lambda>s. (sl_branch s, ct_id (sl_turn s))) sel"
    and el: "eligible x = (if at_state a = Completed_attempt \<and> \<not> at_excluded a then Some a else None)"
    and ids: "at_state a = Completed_attempt \<and> \<not> at_excluded a \<Longrightarrow> x \<in> set ids"
  shows "entry_fate db x a (plan_entry_of (readItemsWithContent ow cid pairs ids db) eligible byTurn s)"
proof -
  let ?items = "readItemsWithContent ow cid pairs ids db"
  note ok = output_okD(2) [OF w, folded db] and tok = world_okD(1) [OF output_okD(1) [OF w], folded db]
  from s pairs have p: "(br_id b, ct_id (sl_turn s)) \<in> set pairs" by (force simp: answered_def)
  have "length (filter (\<lambda>r. ir_turn r = ct_id (sl_turn s) \<and> ir_attempt r = None) ?items) = 1"
    unfolding readItemsWithContent_def using ok
  proof (rule rows_of_turn)
    show "sl_turn s \<in> set (tb_turns db)" using s(2) by (simp add: answered_def)
    show "distinct (map ct_id (tb_turns db))" using tok by (rule tables_okD(3))
  qed (use s(2) p in \<open>auto simp: answered_def item_of_turn_def own_turn_def\<close>)
  then have one: "\<not> length (filter (\<lambda>r. ir_turn r = ct_id (sl_turn s) \<and> ir_attempt r = None) ?items) \<noteq> 1" by simp
  show ?thesis
  proof (cases "at_state a = Completed_attempt \<and> \<not> at_excluded a")
    case False
    with el s(2) one show ?thesis by (auto simp: entry_fate_def plan_entry_of_def Let_def answered_def)
  next
    case True
    have "filter (\<lambda>r. ir_turn r = at_turn a \<and> ir_attempt r = Some x) ?items = map (row_of db) (outputs db x)"
      unfolding readItemsWithContent_def using ok
      by (rule rows_of_attempt) (use s(2) p ids [OF True] in \<open>auto simp: answered_def item_of_attempt_def owns_def\<close>)
    then have rows: "filter (\<lambda>r. ir_turn r = ct_id (sl_turn s) \<and> ir_attempt r = Some (at_id a)) ?items = map (row_of db) (outputs db x)"
      using s(2) by (simp add: answered_def)
    from tables_checks [OF tok, of x a] s(2) True obtain stamp where stamp: "at_terminal a = Some stamp"
      by (auto simp: answered_def attempt_checks_def non_terminal_def)
    from output_okD(6) [OF w, of x a] s(2) True db have shape: "well_shaped db x" by (simp add: answered_def)
    show ?thesis
    proof (cases "outputs db x = []")
      case True': True
      with rows have "plan_output_of ?items s a = Inl Completed_output_missing" by (simp add: plan_output_of_def Let_def)
      with True True' el s(2) one show ?thesis by (simp add: entry_fate_def plan_entry_of_def Let_def answered_def)
    next
      case False
      have "\<exists>out. plan_output_of ?items s a = Inr out \<and> po_attempt out = x \<and> po_contents out = map (toRef \<circ> row_of db) (outputs db x)"
        using plan_output_shape [OF rows False _ stamp] shape s(2) by (auto simp: well_shaped_def chunked_def answered_def)
      with True False el s(2) one show ?thesis by (auto simp: entry_fate_def plan_entry_of_def Let_def answered_def)
    qed
  qed
qed

lemma root_load:
  assumes w: "output_ok k w" and b: "readBranch ow cid bid (w_db w) = Some b" "br_parent b = None"
  shows "loadDurableContextPlan ow cid bid seq budget (w_db w) = Inl Context_budget_exceeded \<or>
    (\<exists>f. loadDurableContextPlan ow cid bid seq budget (w_db w) = collectE (map f (branch_part ow cid (w_db w) b seq None)) \<and>
      (\<forall>s \<in> set (branch_part ow cid (w_db w) b seq None). \<exists>x a. answered ow cid (w_db w) b s x a \<and> entry_fate (w_db w) x a (f s)))"
proof -
  let ?db = "w_db w"
  let ?sel = "branch_part ow cid ?db b seq None"
  note tok = world_okD(1) [OF output_okD(1) [OF w]]
  show ?thesis
    using select_root [OF b, of seq budget]
  proof
    assume "selectContext ow cid bid seq budget ?db = Inl Context_budget_exceeded"
    then show ?thesis by (simp add: loadDurableContextPlan_def)
  next
    assume sel: "selectContext ow cid bid seq budget ?db = Inr ?sel"
    let ?att = "readAttemptsByIds ow cid (List.map_filter sl_attempt ?sel) ?db"
    let ?pairs = "map (\<lambda>s. (sl_branch s, ct_id (sl_turn s))) ?sel"
    have att: "?att x = Some a" if "s \<in> set ?sel" "answered ow cid ?db b s x a" for s x a
      using that by (auto simp: readAttemptsByIds_def answered_def List.map_filter_def image_iff)
    have "\<exists>x a. sl_attempt s = Some x \<and> ?att x = Some a \<and> at_turn a = ct_id (sl_turn s)" if "s \<in> set ?sel" for s
      using root_answered [OF tok that] att [OF that] by (auto simp: answered_def)
    then obtain ids el bt where r: "resolveEligible ?att ?sel ([], Map.empty, Map.empty) = Inr (ids, el, bt)"
      using resolve_succeeds [of ?sel ?att "([], Map.empty, Map.empty)"] by blast
    from resolve_eligible [OF r] have el: "el x = (case ?att x of None \<Rightarrow> None | Some a \<Rightarrow> if eligible_in ?sel x a then Some a else None)"
      and ids: "?att x = Some a \<Longrightarrow> eligible_in ?sel x a \<Longrightarrow> x \<in> set ids" for x a by auto
    let ?f = "plan_entry_of (readItemsWithContent ow cid ?pairs ids ?db) el bt"
    have fate: "\<exists>x a. answered ow cid ?db b s x a \<and> entry_fate ?db x a (?f s)" if s: "s \<in> set ?sel" for s
    proof -
      from root_answered [OF tok s] obtain x a where x: "answered ow cid ?db b s x a" by blast
      have no: "\<not> sl_exempt s'" if "s' \<in> set ?sel" for s' using root_answered [OF tok that] by (auto simp: answered_def)
      have e: "eligible_in ?sel x a = (at_state a = Completed_attempt \<and> \<not> at_excluded a)"
        using s x no by (auto simp: eligible_in_def list_ex_iff answered_def)
      have "entry_fate ?db x a (?f s)"
        using w refl s x refl by (rule plan_fate) (use el [of x] ids [of x a] att [OF s x] e in \<open>simp_all\<close>)
      with x show ?thesis by blast
    qed
    obtain n m where agg: "readContextAggregate ow cid ?pairs ids ?db = (n, m)" by (cases "readContextAggregate ow cid ?pairs ids ?db")
    have "loadDurableContextPlan ow cid bid seq budget ?db = Inl Context_budget_exceeded \<or>
        loadDurableContextPlan ow cid bid seq budget ?db = collectE (map ?f ?sel)"
      by (cases "?sel = []") (simp_all add: loadDurableContextPlan_def sel r agg Let_def)
    with fate show ?thesis by blast
  qed
qed
section \<open>Loading never meets a surprise\<close>

lemma ref_opens:
  assumes "kms_ok k" "sealed_as k db i bs" "joins db i" "it_org i = org"
  shows "decryptRef k org (toRef (row_of db i)) = Inr bs"
proof -
  from assms(2) obtain c n where c: "tb_contents db (it_content i) = Some c" "cn_status c = ''active''"
    "ck_encrypt k (it_org i) n bs = Some (cn_envelope c, cn_hmac c)" unfolding sealed_as_def by blast
  with assms(3) have "ir_envelope (row_of db i) = cn_envelope c" "ir_status (row_of db i) = cn_status c"
    by (simp_all add: row_of_def join_content_def joins_def)
  with kms_okD [OF assms(1) c(3)] c assms(4) show ?thesis by (simp add: decryptRef_def toRef_def)
qed

lemma refs_open:
  assumes "kms_ok k"
  shows "list_all2 (sealed_as k db) its parts \<Longrightarrow> (\<And>i. i \<in> set its \<Longrightarrow> joins db i \<and> it_org i = org) \<Longrightarrow>
    map (decryptRef k org) (map (toRef \<circ> row_of db) its) = map Inr parts"
  by (induction its parts rule: list_all2_induct) (simp_all add: ref_opens [OF assms])

definition output_opens :: "conv_kms \<Rightarrow> string \<Rightarrow> world \<Rightarrow> plan_entry \<Rightarrow> bool" where
  "output_opens k org w e \<longleftrightarrow> (case pe_output e of None \<Rightarrow> True
     | Some out \<Rightarrow> (\<exists>parts. map (decryptRef k org) (po_contents out) = map Inr parts \<and> concat parts = w_wire w (po_attempt out)))"

definition silent_answer :: "world \<Rightarrow> string \<Rightarrow> bool" where
  "silent_answer w bid \<longleftrightarrow> (\<exists>x a. tb_attempts (w_db w) x = Some a \<and> at_branch a = bid \<and> at_state a = Completed_attempt \<and>
     outputs (w_db w) x = [] \<and> w_wire w x = [])"

lemma fate_opens:
  assumes k: "kms_ok k" and w: "output_ok k w" and x: "answered ow cid (w_db w) b s x a" and f: "entry_fate (w_db w) x a (Inr e)"
  shows "output_opens k (ow_org ow) w e"
proof (cases "at_state a = Completed_attempt \<and> \<not> at_excluded a")
  case False
  with f show ?thesis by (auto simp: entry_fate_def output_opens_def)
next
  case True
  let ?db = "w_db w"
  from f True obtain out where out: "pe_output e = Some out" "po_attempt out = x" "po_contents out = map (toRef \<circ> row_of ?db) (outputs ?db x)"
    by (auto simp: entry_fate_def split: if_splits)
  from output_okD(6) [OF w, of x a] x True obtain parts where p: "list_all2 (sealed_as k ?db) (outputs ?db x) parts" "concat parts = w_wire w x"
    by (auto simp: answered_def stored_def)
  have "joins ?db i \<and> it_org i = ow_org ow" if "i \<in> set (outputs ?db x)" for i
  proof -
    from that output_okD(2) [OF w] have "item_home ?db i" "it_attempt i = Some x" by (auto simp: outputs_def items_ok_def)
    with x show ?thesis by (auto simp: item_home_def answered_def item_of_attempt_def owns_def)
  qed
  from refs_open [OF k p(1) this] p(2) out show ?thesis by (auto simp: output_opens_def)
qed

lemma fate_missing:
  assumes w: "output_ok k w" and x: "answered ow cid (w_db w) b s x a" and f: "entry_fate (w_db w) x a (Inl e)"
  shows "e = Completed_output_missing \<and> silent_answer w (br_id b)"
proof -
  from f have e: "at_state a = Completed_attempt" "outputs (w_db w) x = []" "e = Completed_output_missing"
    by (auto simp: entry_fate_def split: if_splits)
  from output_okD(6) [OF w, of x a] x e have "w_wire w x = []" by (auto simp: answered_def stored_def)
  with x e show ?thesis by (auto simp: silent_answer_def answered_def)
qed

lemma loaded_opens:
  assumes k: "kms_ok k" and w: "output_ok k w" and b: "readBranch ow cid bid (w_db w) = Some b" "br_parent b = None"
    and l: "loadDurableContextPlan ow cid bid seq budget (w_db w) = Inr entries"
  shows "list_all (output_opens k (ow_org ow) w) entries"
proof -
  from root_load [OF w b, of seq budget] l obtain f where
    f: "loadDurableContextPlan ow cid bid seq budget (w_db w) = collectE (map f (branch_part ow cid (w_db w) b seq None))"
      "\<forall>s \<in> set (branch_part ow cid (w_db w) b seq None). \<exists>x a. answered ow cid (w_db w) b s x a \<and> entry_fate (w_db w) x a (f s)"
    by auto
  from l f(1) have "collectE (map f (branch_part ow cid (w_db w) b seq None)) = Inr entries" by simp
  then have m: "map f (branch_part ow cid (w_db w) b seq None) = map Inr entries" by (simp only: collectE_Inr_iff)
  have "output_opens k (ow_org ow) w e" if "e \<in> set entries" for e
  proof -
    from that have "Inr e \<in> set (map f (branch_part ow cid (w_db w) b seq None))" by (simp add: m)
    then obtain s where "s \<in> set (branch_part ow cid (w_db w) b seq None)" "f s = Inr e" by auto
    with f(2) fate_opens [OF k w] show ?thesis by metis
  qed
  then show ?thesis by (simp add: list_all_iff)
qed

text \<open>C22. On every reachable state of the execution plane, the context of a branch that was not
forked loads: every output of the plan decrypts to exactly the bytes its attempt received from the
provider, and the only errors are the budget and an answer that is completed with nothing
received. All the other reasons to refuse a context, a turn without an attempt, an unreadable
attempt, an input or output of a wrong shape, a missing stamp, cannot occur.\<close>

theorem context_loads:
  assumes k: "kms_ok k" and r: "reach initial (turn_step k dp) w"
    and b: "readBranch ow cid bid (w_db w) = Some b" "br_parent b = None"
  shows "case loadDurableContextPlan ow cid bid seq budget (w_db w) of
      Inr entries \<Rightarrow> list_all (output_opens k (ow_org ow) w) entries
    | Inl e \<Rightarrow> e = Context_budget_exceeded \<or> e = Completed_output_missing \<and> silent_answer w bid"
proof -
  have w: "output_ok k w" using r by (rule recorded.inv_reach)
  have id: "br_id b = bid"
    using world_okD(1) [OF output_okD(1) [OF w]] b(1) by (auto simp: tables_ok_def readBranch_def split: option.splits if_splits)
  from root_load [OF w b, of seq budget] show ?thesis
  proof (elim disjE exE conjE)
    fix f assume l: "loadDurableContextPlan ow cid bid seq budget (w_db w) = collectE (map f (branch_part ow cid (w_db w) b seq None))"
      and f: "\<forall>s \<in> set (branch_part ow cid (w_db w) b seq None). \<exists>x a. answered ow cid (w_db w) b s x a \<and> entry_fate (w_db w) x a (f s)"
    show ?thesis
    proof (cases "loadDurableContextPlan ow cid bid seq budget (w_db w)")
      case (Inl e)
      then obtain s where "s \<in> set (branch_part ow cid (w_db w) b seq None)" "f s = Inl e" using l by (auto dest!: collectE_error)
      with f fate_missing [OF w] Inl id show ?thesis by fastforce
    next
      case (Inr entries)
      with loaded_opens [OF k w b] show ?thesis by simp
    qed
  qed simp
qed

lemma demo_final_plan: "loadDurableContextPlan demo_owner ''c'' ''b'' 2 DEFAULT_CONTEXT_BUDGET demo_final = Inr [demo_entry]"
  by code_simp

lemma stage_sel [simp]: "w_db (stage p db sent wire) = db" "w_wire (stage p db sent wire) = (\<lambda>_. [])(''a1'' := wire)"
  by (simp_all add: stage_def)

theorem context_loads_witness:
  "loadDurableContextPlan demo_owner ''c'' ''b'' 2 DEFAULT_CONTEXT_BUDGET demo_final = Inr [demo_entry] \<and>
   (\<exists>out parts. pe_output demo_entry = Some out \<and> map (decryptRef demo_kms ''o'') (po_contents out) = map Inr parts \<and> concat parts = [7, 8])"
proof -
  let ?w = "stage (Ended O_completed) demo_final True [7, 8]"
  let ?b = "demo_branch\<lparr> br_causal := 1 \<rparr>"
  have b: "readBranch demo_owner ''c'' ''b'' (w_db ?w) = Some ?b" "br_parent ?b = None"
    by (simp_all add: readBranch_def demo_final_def demo_branch_def demo_owner_def)
  from context_loads [OF demo_kms_ok demo_reach_final b, of 2 DEFAULT_CONTEXT_BUDGET]
  have "output_opens demo_kms (ow_org demo_owner) ?w demo_entry" by (simp add: demo_final_plan)
  moreover have "ow_org demo_owner = ''o''" by (simp add: demo_owner_def)
  ultimately show ?thesis using demo_final_plan by (simp add: output_opens_def demo_entry_def)
qed

section \<open>The outputs of a plan, on any branch\<close>

text \<open>A selected turn is a turn of the branch it is selected from.\<close>

definition selected_home :: "owner \<Rightarrow> string \<Rightarrow> turn_db \<Rightarrow> selected \<Rightarrow> bool" where
  "selected_home ow cid db s \<longleftrightarrow> sl_turn s \<in> set (tb_turns db) \<and> own_turn ow cid (sl_turn s) \<and> ct_branch (sl_turn s) = sl_branch s"

lemma history_home:
  assumes "history ow cid db b n pin hs"
    and "\<And>t fa. pin = Some (t, fa) \<Longrightarrow> t \<in> set (tb_turns db) \<and> own_turn ow cid t \<and> ct_branch t = br_id b"
  shows "\<forall>s \<in> set hs. selected_home ow cid db s"
  using assms
proof (induction rule: history.induct)
  case (root b n pin)
  then show ?case
    by (auto simp: branch_part_def branch_turns_def select_turn_def select_pin_def selected_home_def split: option.splits)
next
  case (fork b p ft fa pb t hs n pin)
  have "\<forall>s \<in> set hs. selected_home ow cid db s"
  proof (rule fork.IH)
    fix u fa' assume "fork_pin b t fa = Some (u, fa')"
    then have "u = t" by (simp add: fork_pin_def split: if_splits)
    with fork.hyps(5) show "u \<in> set (tb_turns db) \<and> own_turn ow cid u \<and> ct_branch u = br_id pb"
      by (auto simp: readTurnById_def find_Some_iff)
  qed
  with fork.prems show ?case
    by (auto simp: branch_part_def branch_turns_def select_turn_def select_pin_def selected_home_def split: option.splits)
qed

lemma history_det: "history ow cid db b n pin hs \<Longrightarrow> history ow cid db b n pin hs' \<Longrightarrow> hs' = hs"
proof (induction arbitrary: hs' rule: history.induct)
  case (root b n pin)
  from root.prems root.hyps show ?case by (auto elim: history_rootE)
next
  case (fork b p ft fa pb t hs n pin)
  from fork.prems obtain ks where "history ow cid db pb (ct_seq t) (fork_pin b t fa) ks" "hs' = ks @ branch_part ow cid db b n pin"
    using fork.hyps by (auto elim: history_rootE)
  with fork.IH [of ks] show ?case by simp
qed

lemma context_part:
  assumes "loadDurableContextPlan ow cid bid seq budget db = Inr entries" "readBranch ow cid bid db = Some b" "history ow cid db b seq None hs"
  shows "list_all2 (entry_for ow cid db hs) hs entries"
proof -
  from assms(1) obtain sel where sel: "selectContext ow cid bid seq budget db = Inr sel" "list_all2 (entry_for ow cid db sel) sel entries"
    by (rule loaded_entries)
  from sel(1) obtain b' where "readBranch ow cid bid db = Some b'" "history ow cid db b' seq None sel" by (rule select_history)
  with assms(2,3) sel(2) show ?thesis by (auto dest: history_det)
qed

text \<open>A turn of the plan with an output: its attempt is completed, and the output is the items of that attempt.\<close>

definition output_of_items :: "turn_db \<Rightarrow> owner \<Rightarrow> selected \<Rightarrow> plan_entry \<Rightarrow> bool" where
  "output_of_items db ow s e \<longleftrightarrow> (case pe_output e of None \<Rightarrow> True
     | Some out \<Rightarrow> (\<exists>x a. sl_attempt s = Some x \<and> tb_attempts db x = Some a \<and> owns ow a \<and> at_state a = Completed_attempt \<and>
         po_attempt out = x \<and> po_contents out = map (toRef \<circ> row_of db) (outputs db x)))"

lemma loaded_items:
  assumes w: "output_ok k w" and l: "loadDurableContextPlan ow cid bid seq budget (w_db w) = Inr entries"
    and b: "readBranch ow cid bid (w_db w) = Some b" and h: "history ow cid (w_db w) b seq None hs"
  shows "list_all2 (output_of_items (w_db w) ow) hs entries"
  using l
proof (cases rule: load_cases)
  case 1
  from 1(1) obtain b' where "readBranch ow cid bid (w_db w) = Some b'" "history ow cid (w_db w) b' seq None []" by (rule select_history)
  with b h 1(2) history_det show ?thesis by fastforce
next
  case (2 sel ids eligible byTurn)
  let ?db = "w_db w"
  let ?att = "readAttemptsByIds ow cid (List.map_filter sl_attempt sel) ?db"
  let ?pairs = "map (\<lambda>s. (sl_branch s, ct_id (sl_turn s))) sel"
  let ?items = "readItemsWithContent ow cid ?pairs ids ?db"
  note ok = output_okD(2) [OF w] and tok = world_okD(1) [OF output_okD(1) [OF w]]
  from 2(1) obtain b' where "readBranch ow cid bid ?db = Some b'" "history ow cid ?db b' seq None sel" by (rule select_history)
  with b h have hs: "sel = hs" by (auto dest: history_det)
  have home: "selected_home ow cid ?db s" if "s \<in> set sel" for s
    using history_home [OF h] that hs by auto
  from resolve_eligible [OF 2(3)] have sel: "\<And>s. s \<in> set sel \<Longrightarrow> \<exists>x a. sl_attempt s = Some x \<and> ?att x = Some a \<and> at_turn a = ct_id (sl_turn s)"
    and el: "\<And>x. eligible x = (case ?att x of None \<Rightarrow> None | Some a \<Rightarrow> if eligible_in sel x a then Some a else None)"
    and ids: "\<And>x a. ?att x = Some a \<Longrightarrow> eligible_in sel x a \<Longrightarrow> x \<in> set ids"
    by auto
  have "output_of_items ?db ow s e" if s: "s \<in> set sel" and e: "plan_entry_of ?items eligible byTurn s = Inr e" for s e
  proof -
    from sel [OF s] obtain x a where x: "sl_attempt s = Some x" "?att x = Some a" "at_turn a = ct_id (sl_turn s)" by blast
    then have a: "tb_attempts ?db x = Some a" "owns ow a" "at_conv a = cid"
      by (auto simp: readAttemptsByIds_def split: if_splits option.splits)
    show ?thesis
    proof (cases "eligible_in sel x a")
      case False
      with plan_entry_output [OF e] x el [of x] show ?thesis by (simp add: output_of_items_def)
    next
      case True
      with plan_entry_output [OF e] x el [of x] obtain out where out: "pe_output e = Some out" "po_attempt out = at_id a"
        "po_contents out = map toRef (filter (\<lambda>r. ir_turn r = ct_id (sl_turn s) \<and> ir_attempt r = Some (at_id a)) ?items)" by auto
      from tables_okD(1) [OF tok a(1)] obtain u where u: "at_id a = x" "u \<in> set (tb_turns ?db)" "on_branch a u" "ct_id u = at_turn a"
        by (auto simp: attempt_row_ok_def)
      have "inj_on ct_id (set (tb_turns ?db))" using tables_okD(3) [OF tok] by (simp add: distinct_map)
      from inj_onD [OF this _ u(2), of "sl_turn s"] home [OF s] u(4) x(3) have "sl_turn s = u" by (auto simp: selected_home_def)
      with home [OF s] u(3) x(3) have br: "at_branch a = sl_branch s" by (simp add: selected_home_def on_branch_def)
      with s x(3) have p: "(at_branch a, at_turn a) \<in> set ?pairs" by force
      have "filter (\<lambda>r. ir_turn r = at_turn a \<and> ir_attempt r = Some x) ?items = map (row_of ?db) (outputs ?db x)"
        unfolding readItemsWithContent_def using ok a(1)
        by (rule rows_of_attempt) (use a p ids [OF x(2) True] in \<open>auto simp: item_of_attempt_def owns_def\<close>)
      with out u(1) x a True show ?thesis by (auto simp: output_of_items_def eligible_in_def)
    qed
  qed
  with 2(4) have "list_all2 (output_of_items ?db ow) sel entries"
    by (auto simp: list_all2_conv_all_nth list_eq_iff_nth_eq)
  with hs show ?thesis by simp
qed

lemma items_open:
  assumes k: "kms_ok k" and w: "output_ok k w" and e: "output_of_items (w_db w) ow s e"
  shows "output_opens k (ow_org ow) w e"
proof (cases "pe_output e")
  case (Some out)
  let ?db = "w_db w"
  from e Some obtain x a where x: "tb_attempts ?db x = Some a" "owns ow a" "at_state a = Completed_attempt" "po_attempt out = x"
    "po_contents out = map (toRef \<circ> row_of ?db) (outputs ?db x)" by (auto simp: output_of_items_def)
  from output_okD(6) [OF w x(1)] x(3) obtain parts where p: "list_all2 (sealed_as k ?db) (outputs ?db x) parts" "concat parts = w_wire w x"
    by (auto simp: stored_def)
  have "joins ?db i \<and> it_org i = ow_org ow" if "i \<in> set (outputs ?db x)" for i
  proof -
    from that output_okD(2) [OF w] have "item_home ?db i" "it_attempt i = Some x" by (auto simp: outputs_def items_ok_def)
    with x show ?thesis by (auto simp: item_home_def item_of_attempt_def owns_def)
  qed
  from refs_open [OF k p(1) this] p(2) x Some show ?thesis by (auto simp: output_opens_def)
qed (simp add: output_opens_def)

lemma any_loaded_opens:
  assumes k: "kms_ok k" and w: "output_ok k w" and l: "loadDurableContextPlan ow cid bid seq budget (w_db w) = Inr entries"
  shows "list_all (output_opens k (ow_org ow) w) entries"
proof -
  from l obtain sel where "selectContext ow cid bid seq budget (w_db w) = Inr sel" by (auto elim: load_cases)
  then obtain b where "readBranch ow cid bid (w_db w) = Some b" "history ow cid (w_db w) b seq None sel" by (rule select_history)
  from loaded_items [OF w l this] show ?thesis
    using items_open [OF k w] by (auto simp: list_all2_conv_all_nth list_all_length)
qed

section \<open>A silent answer closes its branch\<close>

lemma root_error:
  assumes w: "output_ok k w" and b: "readBranch ow cid bid (w_db w) = Some b" "br_parent b = None"
    and e: "loadDurableContextPlan ow cid bid seq budget (w_db w) = Inl e"
  shows "e \<in> {Context_budget_exceeded, Completed_output_missing}"
  using root_load [OF w b, of seq budget]
proof (elim disjE exE conjE)
  fix f assume l: "loadDurableContextPlan ow cid bid seq budget (w_db w) = collectE (map f (branch_part ow cid (w_db w) b seq None))"
    and f: "\<forall>s \<in> set (branch_part ow cid (w_db w) b seq None). \<exists>x a. answered ow cid (w_db w) b s x a \<and> entry_fate (w_db w) x a (f s)"
  from e [unfolded l] have "Inl e \<in> set (map f (branch_part ow cid (w_db w) b seq None))" by (rule collectE_error)
  then obtain s where "s \<in> set (branch_part ow cid (w_db w) b seq None)" "f s = Inl e" by auto
  with f fate_missing [OF w] show ?thesis by fastforce
qed (use e in simp)

lemma silent_refused:
  assumes w: "output_ok k w" and x: "tb_attempts (w_db w) x = Some a" "at_state a = Completed_attempt" "outputs (w_db w) x = []"
    and b: "readBranch ow cid bid (w_db w) = Some b" and h: "history ow cid (w_db w) b seq None hs"
    and s: "s \<in> set hs" "sl_attempt s = Some x" "sl_exempt s \<or> \<not> at_excluded a"
  shows "loadDurableContextPlan ow cid bid seq budget (w_db w) \<noteq> Inr entries"
proof
  assume l: "loadDurableContextPlan ow cid bid seq budget (w_db w) = Inr entries"
  from context_part [OF l b h] have whole: "list_all2 (entry_for ow cid (w_db w) hs) hs entries" .
  from s(1) obtain i where i: "i < length hs" "hs ! i = s" by (auto simp: in_set_conv_nth)
  let ?e = "entries ! i"
  have "output_of_items (w_db w) ow s ?e" "entry_for ow cid (w_db w) hs s ?e"
    using list_all2_nthD [OF loaded_items [OF w l b h] i(1)] list_all2_nthD [OF whole i(1)] i(2) by simp_all
  moreover have "eligible_in hs x a" using s x(2) by (auto simp: eligible_in_def list_ex_iff)
  ultimately show False using x s(2) by (auto simp: entry_for_def output_of_items_def split: option.splits)
qed

text \<open>C24. An answer that ends without a byte closes its branch: an attempt is completed by a stream
that reaches its end even if nothing came and no output item was written; from then on, whatever
happens, the context of every turn in whose history that attempt is selected (on its own branch or
on any branch forked below it, however deep) is refused, unless the attempt is excluded from
contexts and no fork pins it. On a branch that was not forked the reason given is the missing
output, or the budget.\<close>

theorem silent_answer_closes_branch:
  assumes "reach initial (turn_step k dp) w" "tb_attempts (w_db w) x = Some a" "at_state a = Completed_attempt"
    "outputs (w_db w) x = []" "(turn_step k dp)\<^sup>*\<^sup>* w w'"
    "readBranch ow cid bid (w_db w') = Some b" "history ow cid (w_db w') b seq None hs"
    "s \<in> set hs" "sl_attempt s = Some x" "sl_exempt s \<or> \<not> at_excluded a"
  shows "\<exists>e. loadDurableContextPlan ow cid bid seq budget (w_db w') = Inl e \<and>
    (br_parent b = None \<longrightarrow> e \<in> {Context_budget_exceeded, Completed_output_missing})"
proof -
  from completed_steps [OF assms(5,1-3)] have r: "reach initial (turn_step k dp) w'" and kept: "answer_kept x w w'" by auto
  from kept assms(2,4) have x: "tb_attempts (w_db w') x = Some a" "outputs (w_db w') x = []" by (auto simp: answer_kept_def out_kept_def)
  have w: "output_ok k w'" using r by (rule recorded.inv_reach)
  from silent_refused [OF w x(1) assms(3) x(2) assms(6-10)] root_error [OF w assms(6)] show ?thesis
    by (cases "loadDurableContextPlan ow cid bid seq budget (w_db w')") auto
qed

text \<open>A run in which the provider opens a stream and ends it at once.\<close>

definition silent_dispatch :: dispatch where
  "silent_dispatch = demo_dispatch\<lparr> ds_stream := True \<rparr>"

definition silent_final :: turn_db where
  "silent_final = (demo_tables demo_completed_row)\<lparr> tb_branches := [''b'' \<mapsto> demo_branch\<lparr> br_causal := 1 \<rparr>] \<rparr>"

lemma silent_jobs [simp]:
  "jb_owner silent_dispatch = demo_owner" "jb_attempt silent_dispatch = ''a1''" "jb_token silent_dispatch = ''k''"
  "ds_credential silent_dispatch = ''p''" "ds_body silent_dispatch = [5]" "pl_provider (ds_plan silent_dispatch) = ''anthropic''"
  "ds_context silent_dispatch = demo_context" "job_of_dispatch silent_dispatch = demo_job"
  by (simp_all add: silent_dispatch_def demo_dispatch_def demo_plan_def job_of_dispatch_def demo_job_def)

lemma stage_advance:
  assumes "demo_reaches (stage p db sent wire)" "advance demo_kms demo_deps 0 p db Silent p' db'"
  shows "demo_reaches (stage p' db' sent wire)"
proof -
  let ?w = "stage p db sent wire"
  from assms(2) have "advance demo_kms demo_deps (w_now ?w) (w_workers ?w 0) (w_db ?w) Silent p' db'" by (simp add: stage_def)
  then have "turn_step demo_kms demo_deps ?w (effected Silent (?w\<lparr> w_db := db', w_workers := (w_workers ?w)(0 := p') \<rparr>))"
    by (rule turn_step.worker) (simp add: fresh_effect_def)
  with assms(1) show ?thesis by (auto simp: stage_def effected_def intro: reach_step)
qed

lemma silent_boundary: "worked (stage (At_boundary demo_job demo_context demo_plan ''p'' True [5] None) (demo_tables demo_claimed_row) False []) =
    stage (At_gate silent_dispatch) (demo_tables demo_crossed_row) False []"
proof -
  have root: "lockRootForDispatch demo_owner ''c'' (demo_tables demo_claimed_row) = Some ''active''"
    by (simp add: lockRootForDispatch_def conv_db_def demo_owner_def)
  have "job.extend demo_job (dispatch.fields demo_context demo_plan True [5] ''p'' ''q'') = silent_dispatch"
    by (simp add: demo_job_def demo_dispatch_def silent_dispatch_def job.defs dispatch.defs)
  then show ?thesis
    by (simp add: stage_eval boundaryClaimed_def boundaryTx_def root isRootExecutionEligible_def demo_cross)
qed

lemma silent_gate: "worked (stage (At_gate silent_dispatch) (demo_tables demo_crossed_row) False []) =
    stage (At_forward silent_dispatch) (demo_tables demo_bound_row) False []"
proof -
  have "readPrePostAuthority demo_owner 0 ''a1'' ''k'' (demo_tables demo_crossed_row) =
      Some \<lparr> au_state = Dispatching, au_lease_valid = True, au_stop = False \<rparr>"
    by (simp add: readPrePostAuthority_def select_attempt_def row_eval)
  then show ?thesis by (simp add: stage_eval beforeDispatch_def gateTx_def demo_bind)
qed

lemma silent_forward: "worked (stage (At_forward silent_dispatch) (demo_tables demo_bound_row) False []) =
    stage (At_response silent_dispatch) (demo_tables demo_bound_row) True []"
  by (simp add: stage_eval)

lemma silent_reach_response: "demo_reaches (stage (At_response silent_dispatch) (demo_tables demo_bound_row) True [])"
proof -
  have "demo_reaches (stage (At_build demo_job demo_context demo_plan ''p'') (demo_tables demo_claimed_row) False [])"
    using demo_reach_claimed by (auto dest!: worked_stage simp: step2)
  then have "demo_reaches (stage (At_boundary demo_job demo_context demo_plan ''p'' True [5] None) (demo_tables demo_claimed_row) False [])"
    by (rule stage_advance) (use advance.build [of demo_kms demo_deps 0 demo_job demo_context demo_plan "''p''" _ "Built True [5] None"] in \<open>simp add: buildClaimed_def\<close>)
  then show ?thesis by (auto dest!: worked_stage simp: silent_boundary silent_gate silent_forward)
qed

lemma silent_finish: "finalizeTx 0 demo_job demo_context Completed_attempt None (demo_tables demo_streaming_row) = Inr (True, silent_final)"
  by (simp add: finalizeTx_def finalizeAttempt_def update_attempt_def select_attempt_def put_attempt_def bumpBranchCausalVersion_def
      silent_final_def demo_defs row_eval)

lemma silent_reach_final: "demo_reaches (stage (Ended O_completed) silent_final True [])"
proof -
  have "demo_reaches (stage (At_mark silent_dispatch (Opened 200)) (demo_tables demo_bound_row) True [])"
    using silent_reach_response advance.opens by (rule stage_advance)
  then have "demo_reaches (stage (At_drain silent_dispatch 200 []) (demo_tables demo_streaming_row) True [])"
    by (rule stage_advance) (rule advance.mark [where fl = Tx_ok], simp add: recordResult_def run_tx_def demo_stream)
  then have "demo_reaches (stage (drainEnd silent_dispatch 200 []) (demo_tables demo_streaming_row) True [])"
    using advance.eof by (rule stage_advance)
  then have "demo_reaches (stage (At_evidence silent_dispatch 200 Finished) (demo_tables demo_streaming_row) True [])"
    by (simp add: drainEnd_def)
  then have "demo_reaches (stage (streamEvidence silent_dispatch 200 Finished True) (demo_tables demo_streaming_row) True [])"
    using advance.evidence by (rule stage_advance)
  then have "demo_reaches (stage (At_finalize demo_job demo_context Completed_attempt None O_completed (Some (silent_dispatch, True, Persist_failed))) (demo_tables demo_streaming_row) True [])"
    by (simp add: streamEvidence_def finalizeKnownResult_def classifyStatus_def)
  then show ?thesis
    by (rule stage_advance) (rule advance.finalize [where fl = Tx_ok], simp add: finalizeAndWake_def run_tx_def silent_finish)
qed

theorem silent_answer_closes_branch_witness:
  "\<exists>e \<in> {Context_budget_exceeded, Completed_output_missing}.
     loadDurableContextPlan demo_owner ''c'' ''b'' 2 DEFAULT_CONTEXT_BUDGET silent_final = Inl e"
proof -
  let ?w = "stage (Ended O_completed) silent_final True []"
  let ?b = "demo_branch\<lparr> br_causal := 1 \<rparr>"
  have a: "tb_attempts (w_db ?w) ''a1'' = Some demo_completed_row" "at_state demo_completed_row = Completed_attempt"
    "\<not> at_excluded demo_completed_row" "outputs (w_db ?w) ''a1'' = []"
    by (simp_all add: silent_final_def demo_rows outputs_def demo_tables_def input_item_def)
  have b: "readBranch demo_owner ''c'' ''b'' (w_db ?w) = Some ?b" "br_parent ?b = None"
    by (simp_all add: readBranch_def silent_final_def demo_branch_def demo_owner_def)
  from b(2) have h: "history demo_owner ''c'' (w_db ?w) ?b 2 None (branch_part demo_owner ''c'' (w_db ?w) ?b 2 None)" by (rule history.root)
  have s: "select_turn ?b demo_turn \<in> set (branch_part demo_owner ''c'' (w_db ?w) ?b 2 None)" "sl_attempt (select_turn ?b demo_turn) = Some ''a1''"
    by (simp_all add: branch_part_def branch_turns_def silent_final_def demo_tables_def demo_turn_def new_turn_def own_turn_def demo_branch_def
        demo_owner_def demo_send_env_def select_turn_def)
  from silent_answer_closes_branch [OF silent_reach_final a(1,2,4) rtranclp.rtrancl_refl b(1) h s disjI2 [OF a(3)], of DEFAULT_CONTEXT_BUDGET] b(2)
  show ?thesis by auto
qed
end
