(* ===== verification/Adapter_Base.thy ===== *)
theory Adapter_Base
  imports Turn_Context Native_Policy
begin

text \<open>
  What the two conversation adapters share (\<open>execution/adapters/conversation-adapter.ts\<close> and the
  parts both restate): the input and the result of a build, and the lines of a server-sent event
  stream. A decoded text is the list of its code points; the characters of a string inside a
  parsed value are the first 256 of them. \<open>JSON.parse\<close> is an argument.
\<close>

section \<open>Building a request\<close>

type_synonym fields = "(string \<times> jsval) list"

definition isObject :: "jsval \<Rightarrow> bool" where
  "isObject v = (case v of JObj _ \<Rightarrow> True | _ \<Rightarrow> False)"

abbreviation fget :: "fields \<Rightarrow> string \<Rightarrow> jsval" where
  "fget b k \<equiv> jget (JObj b) k"

lemma fget_list [simp]: "fget [] k = JUndef" "fget ((k', v) # b) k = (if k' = k then v else fget b k)"
  by simp_all

declare jget.simps(1) [simp del]

text \<open>\<open>o[k] = v\<close> and \<open>{ ...o, k: v }\<close> keep the place of a property that exists.\<close>

abbreviation set_field :: "string \<Rightarrow> jsval \<Rightarrow> fields \<Rightarrow> fields" where
  "set_field \<equiv> AList.update"

record build_input =
  bi_entries :: "assembled_entry list"
  bi_config :: jsval
  bi_branch_model :: string
  bi_credential :: string
  bi_now :: int

datatype build_continuation = Stateless_replay | Response_chain string

datatype refusal_reason = Reason_continuation_conflict | Reason_context_unreplayable

datatype build_result = Build_ok fields build_continuation | Build_refused refusal_reason string | Build_throws_type_error

text \<open>
  How the reading of a capture ends early: \<open>UnreplayableStream\<close> and \<open>Unreplayable\<close> with their
  detail, \<open>ProviderFailedStream\<close>, or an exception of the runtime that nothing catches.
\<close>

datatype halt = Unreplayable string | Provider_failed_stream | Runtime_type_error

section \<open>Lines and payloads\<close>

text \<open>\<open>text.split(/\r?\n/)\<close>.\<close>

function sse_lines :: "nat list \<Rightarrow> nat list list" where
  "sse_lines [] = [[]]"
| "sse_lines (c # cs) =
     (if c = 10 then [] # sse_lines cs
      else if c = 13 \<and> cs \<noteq> [] \<and> hd cs = 10 then [] # sse_lines (tl cs)
      else (case sse_lines cs of [] \<Rightarrow> [[c]] | l # ls \<Rightarrow> (c # l) # ls))"
  by pat_completeness auto
termination by (relation "measure length") auto

definition points :: "string \<Rightarrow> nat list" where
  "points s = map of_char s"

definition trimmed_point :: "nat \<Rightarrow> bool" where
  "trimmed_point c \<longleftrightarrow> 9 \<le> c \<and> c \<le> 13 \<or> 8192 \<le> c \<and> c \<le> 8202 \<or>
     c \<in> {32, 160, 5760, 8232, 8233, 8239, 8287, 12288, 65279}"

definition trim_points :: "nat list \<Rightarrow> nat list" where
  "trim_points cs = rev (dropWhile trimmed_point (rev (dropWhile trimmed_point cs)))"

definition sse_payload :: "nat list \<Rightarrow> nat list option" where
  "sse_payload l =
     (if take 5 l \<noteq> points ''data:'' then None
      else let p = trim_points (drop 5 l) in if p = [] \<or> p = points ''[DONE]'' then None else Some p)"

definition sse_payloads :: "nat list \<Rightarrow> nat list list" where
  "sse_payloads t = List.map_filter sse_payload (sse_lines t)"

section \<open>A stream written line by line\<close>

text \<open>The text of an event: on one line, not blank, not the sentinel, without outer white space.\<close>

definition unbroken :: "nat list \<Rightarrow> bool" where
  "unbroken l \<longleftrightarrow> list_all (\<lambda>c. c \<noteq> 10 \<and> c \<noteq> 13) l"

definition one_line :: "nat list \<Rightarrow> bool" where
  "one_line p \<longleftrightarrow> p \<noteq> [] \<and> p \<noteq> points ''[DONE]'' \<and> unbroken p \<and> \<not> trimmed_point (hd p) \<and> \<not> trimmed_point (last p)"

text \<open>
  The framing of server-sent events: a stream is a sequence of lines, each ended by a line feed or
  by carriage return and line feed. A \<open>data:\<close> line carries the text of an event, with white space
  around it or without; any other line carries nothing: the \<open>event:\<close> line that names the event, an
  \<open>id:\<close> or \<open>retry:\<close> line, a comment, the blank line that ends an event. Nor does the sentinel
  \<open>data: [DONE]\<close>. \<open>framed ps t\<close>: the stream \<open>t\<close> carries the texts \<open>ps\<close>.
\<close>

definition white :: "nat list \<Rightarrow> bool" where
  "white w \<longleftrightarrow> list_all (\<lambda>c. c = 32 \<or> c = 9) w"

definition line_end :: "nat list \<Rightarrow> bool" where
  "line_end e \<longleftrightarrow> e = [10] \<or> e = [13, 10]"

inductive framed :: "nat list list \<Rightarrow> nat list \<Rightarrow> bool" where
  finished: "framed [] []"
| data_line: "framed ps t \<Longrightarrow> one_line p \<Longrightarrow> white w \<Longrightarrow> white w' \<Longrightarrow> line_end e \<Longrightarrow>
     framed (p # ps) (points ''data:'' @ w @ p @ w' @ e @ t)"
| other_line: "framed ps t \<Longrightarrow> unbroken l \<Longrightarrow> take 5 l \<noteq> points ''data:'' \<Longrightarrow> line_end e \<Longrightarrow> framed ps (l @ e @ t)"
| sentinel: "framed ps t \<Longrightarrow> white w \<Longrightarrow> line_end e \<Longrightarrow> framed ps (points ''data:'' @ w @ points ''[DONE]'' @ e @ t)"

text \<open>The two framings of an event: with the line that names it, and without.\<close>

definition sse_event :: "string option \<Rightarrow> nat list \<Rightarrow> nat list" where
  "sse_event name p = (case name of None \<Rightarrow> [] | Some n \<Rightarrow> points ''event: '' @ points n @ [10]) @
     points ''data: '' @ p @ [10, 10]"

lemma sse_lines_line: "unbroken p \<Longrightarrow> line_end e \<Longrightarrow> sse_lines (p @ e @ cs) = p # sse_lines cs"
  by (induction p) (auto simp: unbroken_def line_end_def)

lemma trim_solid:
  assumes p: "one_line p \<or> p = points ''[DONE]''" and w: "white w" "white w'"
  shows "trim_points (w @ p @ w') = p"
proof -
  have ends: "p \<noteq> []" "\<not> trimmed_point (hd p)" "\<not> trimmed_point (last p)"
    using p by (auto simp: one_line_def points_def trimmed_point_def)
  have drop: "dropWhile trimmed_point (v @ q) = q" if "white v" "q \<noteq> []" "\<not> trimmed_point (hd q)" for v q
    using that by (induction v) (auto simp: white_def trimmed_point_def neq_Nil_conv)
  have "white (rev w')" using w(2) by (simp add: white_def)
  from drop [OF this, of "rev p"] ends have "dropWhile trimmed_point (rev w' @ rev p) = rev p" by (simp add: hd_rev)
  moreover have "dropWhile trimmed_point (w @ p @ w') = p @ w'" using drop [OF w(1), of "p @ w'"] ends by simp
  ultimately show ?thesis by (simp add: trim_points_def)
qed

lemma payload_of_event: "one_line p \<Longrightarrow> white w \<Longrightarrow> white w' \<Longrightarrow> sse_payload (points ''data:'' @ w @ p @ w') = Some p"
  using trim_solid [of p w w'] by (auto simp: sse_payload_def points_def one_line_def Let_def)

lemma payload_of_sentinel: "white w \<Longrightarrow> sse_payload (points ''data:'' @ w @ points ''[DONE]'') = None"
  using trim_solid [of "points ''[DONE]''" w "[]"] by (simp add: sse_payload_def points_def white_def)

lemma unbroken_simps [simp]:
  "unbroken (l @ l') = (unbroken l \<and> unbroken l')" "white w \<Longrightarrow> unbroken w" "unbroken (points ''data:'')"
  "unbroken (points ''[DONE]'')" "one_line p \<Longrightarrow> unbroken p"
  by (auto simp: unbroken_def white_def points_def one_line_def list_all_iff)

lemma payloads_of_framed: "framed ps t \<Longrightarrow> sse_payloads t = ps"
proof (induction rule: framed.induct)
  case finished
  then show ?case by (simp add: sse_payloads_def sse_payload_def points_def map_filter_simps)
next
  case (data_line ps t p w w' e)
  then have "sse_lines ((points ''data:'' @ w @ p @ w') @ e @ t) = (points ''data:'' @ w @ p @ w') # sse_lines t"
    by (intro sse_lines_line) simp_all
  with data_line show ?case by (simp add: sse_payloads_def map_filter_simps payload_of_event)
next
  case (other_line ps t l e)
  then show ?case by (simp add: sse_payloads_def map_filter_simps sse_lines_line sse_payload_def)
next
  case (sentinel ps t w e)
  then have "sse_lines ((points ''data:'' @ w @ points ''[DONE]'') @ e @ t) = (points ''data:'' @ w @ points ''[DONE]'') # sse_lines t"
    by (intro sse_lines_line) simp_all
  with sentinel show ?case by (simp add: sse_payloads_def map_filter_simps payload_of_sentinel)
qed

lemma framed_event:
  assumes "framed ps t" "one_line p" "\<And>n. name = Some n \<Longrightarrow> unbroken (points n)"
  shows "framed (p # ps) (sse_event name p @ t)"
proof -
  have "framed ps ([] @ [10] @ t)"
    by (rule framed.other_line [OF assms(1)]) (simp_all add: unbroken_def points_def line_end_def)
  then have d: "framed (p # ps) (points ''data:'' @ [32] @ p @ [] @ [10] @ [10] @ t)"
    using framed.data_line [of ps "[10] @ t" p "[32]" "[]" "[10]"] assms(2) by (simp add: white_def line_end_def)
  show ?thesis
  proof (cases name)
    case None
    with d show ?thesis by (simp add: sse_event_def points_def)
  next
    case (Some n)
    have "framed (p # ps) ((points ''event: '' @ points n) @ [10] @ (points ''data:'' @ [32] @ p @ [] @ [10] @ [10] @ t))"
    proof (rule framed.other_line [OF d])
      show "unbroken (points ''event: '' @ points n)" using assms(3) [OF Some] by (simp add: unbroken_def points_def)
    qed (simp_all add: points_def line_end_def)
    with Some show ?thesis by (simp add: sse_event_def points_def)
  qed
qed

section \<open>Fields\<close>

lemma fget_set [simp]: "fget (set_field k v b) k' = (if k' = k then v else fget b k')"
  by (simp add: update_conv' jget.simps(1))

lemma set_set [simp]: "set_field k v (set_field k w b) = set_field k v b"
  by (induction b) auto

lemma set_same: "fget b k = v \<Longrightarrow> v \<noteq> JUndef \<Longrightarrow> set_field k v b = b"
  by (induction b) (auto split: if_splits)

lemma set_swap: "fget b k \<noteq> JUndef \<Longrightarrow> k \<noteq> k' \<Longrightarrow> set_field k v (set_field k' w b) = set_field k' w (set_field k v b)"
  by (induction b) (auto split: if_splits)

end
