(* ===== verification/Adapter_Anthropic.thy ===== *)
theory Adapter_Anthropic
  imports Adapter_Base
begin

text \<open>
  The Anthropic continuation (\<open>execution/adapters/anthropic-messages.ts\<close>): the reassembly of a
  captured event stream into the assistant message, the laws a message must satisfy before it is
  replayed, and the request built from the history. A property that is absent reads as \<open>JUndef\<close>.
\<close>

section \<open>The replay law\<close>

definition parseSseEvents :: "(nat list \<Rightarrow> jsval option) \<Rightarrow> nat list \<Rightarrow> halt + jsval list" where
  "parseSseEvents parse t = collectE (map (\<lambda>p. case parse p of None \<Rightarrow> Inl (Unreplayable ''sse_data_not_json'') | Some v \<Rightarrow> Inr v)
     (sse_payloads t))"

definition roleInvalid :: "jsval \<Rightarrow> bool" where
  "roleInvalid r \<longleftrightarrow> r \<noteq> JUndef \<and> r \<noteq> JStr ''assistant''"

definition providerModelOf :: "jsval \<Rightarrow> halt + string option" where
  "providerModelOf m = (case jget m ''model'' of JUndef \<Rightarrow> Inr None | JStr s \<Rightarrow> Inr (Some s)
     | _ \<Rightarrow> Inl (Unreplayable ''message_model_not_string''))"

definition citationsInvalid :: "jsval \<Rightarrow> bool" where
  "citationsInvalid c = (case c of JUndef \<Rightarrow> False | JNull \<Rightarrow> False | JArr cs \<Rightarrow> list_ex (\<lambda>x. \<not> isObject x) cs | _ \<Rightarrow> True)"

datatype seed_kind = Empty_string | Empty_object

definition replacedSeedCarriesEvidence :: "jsval \<Rightarrow> seed_kind \<Rightarrow> bool" where
  "replacedSeedCarriesEvidence seed op \<longleftrightarrow> seed \<noteq> JUndef \<and>
     (case op of Empty_string \<Rightarrow> seed \<noteq> JStr '''' | Empty_object \<Rightarrow> seed \<noteq> JObj [])"

definition is_str :: "jsval \<Rightarrow> bool" where
  "is_str v = (case v of JStr _ \<Rightarrow> True | _ \<Rightarrow> False)"

datatype law_phase = Law_start | Law_final

definition tool_type :: "jsval \<Rightarrow> bool" where
  "tool_type t \<longleftrightarrow> t \<in> {JStr ''tool_use'', JStr ''server_tool_use'', JStr ''mcp_tool_use''}"

definition blockPayloadInvalid :: "fields \<Rightarrow> law_phase \<Rightarrow> bool" where
  "blockPayloadInvalid b ph \<longleftrightarrow> (let ty = fget b ''type'' in
     (ty = JStr ''text'' \<and> (\<not> is_str (fget b ''text'') \<or> citationsInvalid (fget b ''citations''))) \<or>
     (ty = JStr ''thinking'' \<and> (\<not> is_str (fget b ''thinking'') \<or> (ph = Law_final \<and> \<not> is_str (fget b ''signature'')))) \<or>
     (ty = JStr ''redacted_thinking'' \<and> \<not> is_str (fget b ''data'')) \<or>
     (tool_type ty \<and> (\<not> is_str (fget b ''id'') \<or> \<not> is_str (fget b ''name'') \<or> \<not> isObject (fget b ''input''))))"

fun validate_blocks :: "jsval list \<Rightarrow> halt + unit" where
  "validate_blocks [] = Inr ()"
| "validate_blocks (v # vs) = (case v of
       JObj b \<Rightarrow>
         if \<not> is_str (fget b ''type'') then Inl (Unreplayable ''content_block_type_invalid'')
         else if blockPayloadInvalid b Law_final then Inl (Unreplayable ''content_block_payload_invalid'')
         else validate_blocks vs
     | _ \<Rightarrow> Inl (Unreplayable ''content_block_not_object''))"

definition validateReplayableMessage :: "jsval \<Rightarrow> jsval list \<Rightarrow> halt + unit" where
  "validateReplayableMessage role content =
     (if roleInvalid role then Inl (Unreplayable ''message_role_not_assistant'')
      else if content = [] then Inl Provider_failed_stream
      else validate_blocks content)"

section \<open>Reassembly of a stream\<close>

record reassembly =
  rs_role :: jsval
  rs_model :: "string option"
  rs_blocks :: "js_num \<Rightarrow> fields option"
  rs_partial :: "js_num \<Rightarrow> string option"
  rs_order :: "js_num list"
  rs_open :: "js_num list"
  rs_signed :: "js_num list"
  rs_started :: bool
  rs_stopped :: bool
  rs_error :: bool
  rs_delta :: bool
  rs_next :: nat

definition reassembly_start :: reassembly where
  "reassembly_start = \<lparr> rs_role = JUndef, rs_model = None, rs_blocks = Map.empty, rs_partial = Map.empty, rs_order = [], rs_open = [],
     rs_signed = [], rs_started = False, rs_stopped = False, rs_error = False, rs_delta = False, rs_next = 0 \<rparr>"

definition on_message_start :: "jsval \<Rightarrow> reassembly \<Rightarrow> halt + reassembly" where
  "on_message_start raw s =
     (let message = jget raw ''message''; role = jget message ''role''; content = jget message ''content'' in
      if rs_started s then Inl (Unreplayable ''duplicate_message_start'')
      else if \<not> isObject message then Inl (Unreplayable ''message_start_shape_unknown'')
      else if roleInvalid role then Inl (Unreplayable ''message_role_not_assistant'')
      else if content \<noteq> JUndef \<and> content \<noteq> JArr [] then Inl (Unreplayable ''message_start_content_not_empty'')
      else bindE (providerModelOf message) (\<lambda>m. Inr (s\<lparr> rs_started := True, rs_role := role, rs_model := m \<rparr>)))"

definition on_block_start :: "jsval \<Rightarrow> reassembly \<Rightarrow> halt + reassembly" where
  "on_block_start raw s =
     (if \<not> rs_started s then Inl (Unreplayable ''content_before_message_start'')
      else (case (jget raw ''index'', jget raw ''content_block'') of
          (JNum n, JObj b) \<Rightarrow>
            if rs_blocks s n \<noteq> None then Inl (Unreplayable ''block_index_reused'')
            else if n \<noteq> Finite (of_nat (rs_next s)) then Inl (Unreplayable ''block_index_not_contiguous'')
            else if \<not> is_str (fget b ''type'') \<or> blockPayloadInvalid b Law_start then Inl (Unreplayable ''block_start_payload_invalid'')
            else Inr (s\<lparr> rs_next := rs_next s + 1, rs_blocks := (rs_blocks s)(n \<mapsto> b), rs_order := rs_order s @ [n],
                        rs_open := n # rs_open s \<rparr>)
        | _ \<Rightarrow> Inl (Unreplayable ''content_block_start_shape_unknown'')))"

text \<open>
  The table of expected block types is an object literal, so a delta type that names a property
  of \<open>Object.prototype\<close> finds a value that is not an array, and calling \<open>includes\<close> on it throws.
\<close>

definition expectation :: "string \<Rightarrow> string list option" where
  "expectation = map_of [(''text_delta'', [''text'']), (''citations_delta'', [''text'']), (''thinking_delta'', [''thinking'']),
     (''signature_delta'', [''thinking'']), (''input_json_delta'', [''tool_use'', ''server_tool_use'', ''mcp_tool_use''])]"

definition object_prototype :: "string list" where
  "object_prototype = [''constructor'', ''__proto__'', ''hasOwnProperty'', ''isPrototypeOf'', ''propertyIsEnumerable'',
     ''toLocaleString'', ''toString'', ''valueOf'', ''__defineGetter__'', ''__defineSetter__'', ''__lookupGetter__'', ''__lookupSetter__'']"

definition delta_fits :: "string \<Rightarrow> jsval \<Rightarrow> halt + unit" where
  "delta_fits ty bt =
     (let mismatch = Inl (Unreplayable ''delta_block_type_mismatch'') in
      case expectation ty of
        Some allowed \<Rightarrow> (case bt of JStr b \<Rightarrow> if b \<in> set allowed then Inr () else mismatch | _ \<Rightarrow> mismatch)
      | None \<Rightarrow> if ty \<in> set object_prototype then (if is_str bt then Inl Runtime_type_error else mismatch) else Inr ())"

definition str_or_empty :: "jsval \<Rightarrow> string" where
  "str_or_empty v = (case v of JStr s \<Rightarrow> s | _ \<Rightarrow> [])"

definition put_block :: "js_num \<Rightarrow> fields \<Rightarrow> reassembly \<Rightarrow> reassembly" where
  "put_block n b s = s\<lparr> rs_blocks := (rs_blocks s)(n \<mapsto> b) \<rparr>"

definition apply_delta :: "js_num \<Rightarrow> fields \<Rightarrow> string \<Rightarrow> jsval \<Rightarrow> reassembly \<Rightarrow> halt + reassembly" where
  "apply_delta n b ty d s =
     (let invalid = Inl (Unreplayable ''delta_payload_invalid'') in
      if ty = ''text_delta'' then (case jget d ''text'' of
          JStr t \<Rightarrow> Inr (put_block n (set_field ''text'' (JStr (str_or_empty (fget b ''text'') @ t)) b) s) | _ \<Rightarrow> invalid)
      else if ty = ''thinking_delta'' then (case jget d ''thinking'' of
          JStr t \<Rightarrow> Inr (put_block n (set_field ''thinking'' (JStr (str_or_empty (fget b ''thinking'') @ t)) b) s) | _ \<Rightarrow> invalid)
      else if ty = ''signature_delta'' then (case jget d ''signature'' of
          JStr t \<Rightarrow>
            if replacedSeedCarriesEvidence (fget b ''signature'') Empty_string then Inl (Unreplayable ''thinking_signature_seed_not_empty'')
            else Inr ((put_block n (set_field ''signature'' (JStr t) b) s)\<lparr> rs_signed := n # rs_signed s \<rparr>)
        | _ \<Rightarrow> invalid)
      else if ty = ''input_json_delta'' then (case jget d ''partial_json'' of
          JStr t \<Rightarrow> Inr (s\<lparr> rs_partial := (rs_partial s)(n \<mapsto> (case rs_partial s n of None \<Rightarrow> [] | Some a \<Rightarrow> a) @ t) \<rparr>) | _ \<Rightarrow> invalid)
      else if ty = ''citations_delta'' then
        (if \<not> isObject (jget d ''citation'') then invalid
         else if citationsInvalid (fget b ''citations'') then Inl (Unreplayable ''block_citations_invalid'')
         else Inr (put_block n (set_field ''citations'' (JArr (elements (fget b ''citations'') @ [jget d ''citation''])) b) s))
      else Inl (Unreplayable ''delta_type_unknown''))"

definition on_block_delta :: "jsval \<Rightarrow> reassembly \<Rightarrow> halt + reassembly" where
  "on_block_delta raw s =
     (case (jget raw ''index'', jget raw ''delta'') of
        (JNum n, JObj d) \<Rightarrow> (case fget d ''type'' of
          JStr ty \<Rightarrow> (case rs_blocks s n of
              None \<Rightarrow> Inl (Unreplayable ''delta_without_block'')
            | Some b \<Rightarrow>
                if n \<notin> set (rs_open s) then Inl (Unreplayable ''delta_after_stop'')
                else if n \<in> set (rs_signed s) then Inl (Unreplayable ''delta_after_signature'')
                else bindE (delta_fits ty (fget b ''type'')) (\<lambda>_. apply_delta n b ty (JObj d) s))
        | _ \<Rightarrow> Inl (Unreplayable ''content_block_delta_shape_unknown''))
      | _ \<Rightarrow> Inl (Unreplayable ''content_block_delta_shape_unknown''))"

definition stop_input :: "(nat list \<Rightarrow> jsval option) \<Rightarrow> string \<Rightarrow> fields \<Rightarrow> halt + fields" where
  "stop_input parse acc b =
     (case (if acc = [] then Some (JObj []) else parse (points acc)) of
        Some (JObj ps) \<Rightarrow>
          if replacedSeedCarriesEvidence (fget b ''input'') Empty_object then Inl (Unreplayable ''tool_input_seed_not_empty'')
          else Inr (set_field ''input'' (JObj ps) b)
      | _ \<Rightarrow> Inl (Unreplayable ''tool_input_json_invalid''))"

definition on_block_stop :: "(nat list \<Rightarrow> jsval option) \<Rightarrow> jsval \<Rightarrow> reassembly \<Rightarrow> halt + reassembly" where
  "on_block_stop parse raw s =
     (case jget raw ''index'' of
        JNum n \<Rightarrow> (case rs_blocks s n of
            None \<Rightarrow> Inl (Unreplayable ''stop_without_block'')
          | Some b \<Rightarrow>
              if n \<notin> set (rs_open s) then Inl (Unreplayable ''block_already_stopped'')
              else if fget b ''type'' = JStr ''thinking'' \<and> n \<notin> set (rs_signed s) then Inl (Unreplayable ''thinking_block_unsigned'')
              else bindE (case rs_partial s n of None \<Rightarrow> Inr s
                  | Some acc \<Rightarrow> bindE (stop_input parse acc b) (\<lambda>b'. Inr ((put_block n b' s)\<lparr> rs_partial := (rs_partial s)(n := None) \<rparr>)))
                (\<lambda>s'. Inr (s'\<lparr> rs_open := removeAll n (rs_open s') \<rparr>)))
      | _ \<Rightarrow> Inl (Unreplayable ''content_block_stop_shape_unknown''))"

definition on_message_delta :: "reassembly \<Rightarrow> halt + reassembly" where
  "on_message_delta s =
     (if \<not> rs_started s then Inl (Unreplayable ''message_delta_before_message_start'')
      else if rs_open s \<noteq> [] then Inl (Unreplayable ''message_delta_before_block_stop'')
      else Inr (s\<lparr> rs_delta := True \<rparr>))"

definition on_event :: "(nat list \<Rightarrow> jsval option) \<Rightarrow> jsval \<Rightarrow> reassembly \<Rightarrow> halt + reassembly" where
  "on_event parse raw s =
     (case jget raw ''type'' of
        JStr ty \<Rightarrow>
          if rs_stopped s then Inl (Unreplayable ''frame_after_message_stop'')
          else if rs_error s then Inl (Unreplayable ''frame_after_error'')
          else if rs_delta s \<and> ty \<in> {''content_block_start'', ''content_block_delta'', ''content_block_stop''}
            then Inl (Unreplayable ''content_after_message_delta'')
          else if ty = ''message_start'' then on_message_start raw s
          else if ty = ''content_block_start'' then on_block_start raw s
          else if ty = ''content_block_delta'' then on_block_delta raw s
          else if ty = ''content_block_stop'' then on_block_stop parse raw s
          else if ty = ''message_stop'' then
            (if \<not> rs_started s then Inl (Unreplayable ''message_stop_before_message_start'') else Inr (s\<lparr> rs_stopped := True \<rparr>))
          else if ty = ''message_delta'' then on_message_delta s
          else if ty = ''ping'' then Inr s
          else if ty = ''error'' then Inr (s\<lparr> rs_error := True \<rparr>)
          else Inl (Unreplayable ''event_type_unknown'')
      | _ \<Rightarrow> Inl (Unreplayable ''sse_event_shape_unknown''))"

fun run_events :: "(nat list \<Rightarrow> jsval option) \<Rightarrow> jsval list \<Rightarrow> reassembly \<Rightarrow> halt + reassembly" where
  "run_events parse [] s = Inr s"
| "run_events parse (e # es) s = bindE (on_event parse e s) (run_events parse es)"

definition reassembled :: "reassembly \<Rightarrow> halt + jsval \<times> jsval list \<times> string option" where
  "reassembled s =
     (if rs_error s then Inl Provider_failed_stream
      else if rs_open s \<noteq> [] \<or> \<not> rs_stopped s then Inl (Unreplayable ''stream_truncated'')
      else if rs_order s = [] then Inl Provider_failed_stream
      else Inr (rs_role s, map (\<lambda>i. case rs_blocks s i of Some b \<Rightarrow> JObj b | None \<Rightarrow> JUndef) (rs_order s), rs_model s))"

definition assistantMessageFromStream ::
  "(nat list \<Rightarrow> jsval option) \<Rightarrow> nat list \<Rightarrow> halt + jsval \<times> jsval list \<times> string option" where
  "assistantMessageFromStream parse t =
     bindE (parseSseEvents parse t) (\<lambda>evs. bindE (run_events parse evs reassembly_start) reassembled)"

section \<open>The request\<close>

definition stripForeignThinking :: "jsval list \<Rightarrow> jsval list" where
  "stripForeignThinking = filter (\<lambda>b. \<not> isObject b \<or> (jget b ''type'' \<noteq> JStr ''thinking'' \<and> jget b ''type'' \<noteq> JStr ''redacted_thinking''))"

definition nativeModelOf :: "jsval \<Rightarrow> string option" where
  "nativeModelOf v = (case jget v ''model'' of JStr s \<Rightarrow> Some s | _ \<Rightarrow> None)"

definition raw_message :: "(nat list \<Rightarrow> jsval option) \<Rightarrow> native_output \<Rightarrow> halt + jsval \<times> jsval list \<times> string option" where
  "raw_message parse out = (case out of
       Body b \<Rightarrow> (case jget b ''content'' of
           JArr c \<Rightarrow> bindE (providerModelOf b) (\<lambda>m. Inr (jget b ''role'', c, m))
         | _ \<Rightarrow> Inl (Unreplayable ''response_body_shape_unknown''))
     | Sse_text t \<Rightarrow> assistantMessageFromStream parse t)"

definition produced_by :: "assembled_entry \<Rightarrow> string option \<Rightarrow> string" where
  "produced_by e m = (case m of Some x \<Rightarrow> x | None \<Rightarrow> (case nativeModelOf (as_user e) of Some x \<Rightarrow> x | None \<Rightarrow> as_model e))"

definition assistantMessageFromEntry ::
  "(nat list \<Rightarrow> jsval option) \<Rightarrow> assembled_entry \<Rightarrow> native_output \<Rightarrow> string \<Rightarrow> halt + jsval" where
  "assistantMessageFromEntry parse e out current =
     bindE (raw_message parse out) (\<lambda>(role, content, m).
     bindE (validateReplayableMessage role content) (\<lambda>_.
       let kept = (if produced_by e m \<noteq> current then stripForeignThinking content else content) in
       if kept = [] then Inl (Unreplayable ''model_switch_leaves_empty_message'')
       else Inr (JObj [(''role'', JStr ''assistant''), (''content'', JArr kept)])))"

text \<open>One entry of the history; the refusals that are returned and those that are thrown.\<close>

definition history_entry :: "(nat list \<Rightarrow> jsval option) \<Rightarrow> string \<Rightarrow> assembled_entry \<Rightarrow> halt + jsval list" where
  "history_entry parse current e =
     (if as_provider e \<noteq> ''anthropic'' then Inl (Unreplayable ''cross_provider_replay_not_implemented'')
      else (case jget (as_user e) ''messages'' of
          JArr ms \<Rightarrow> (case as_assistant e of
              None \<Rightarrow> Inr ms
            | Some (po, out) \<Rightarrow> (case assistantMessageFromEntry parse e out current of
                  Inr m \<Rightarrow> Inr (ms @ [m])
                | Inl Provider_failed_stream \<Rightarrow> Inr ms
                | Inl h \<Rightarrow> Inl h))
        | _ \<Rightarrow> Inl (Unreplayable ''history_input_shape_unknown'')))"

definition anthropicBuildRequest :: "(nat list \<Rightarrow> jsval option) \<Rightarrow> build_input \<Rightarrow> build_result" where
  "anthropicBuildRequest parse inp =
     (case bi_config inp of
        JObj cfg \<Rightarrow>
          if bi_entries inp = [] then Build_ok cfg Stateless_replay
          else (case fget cfg ''messages'' of
              JArr own \<Rightarrow>
                (let current = (case nativeModelOf (JObj cfg) of Some m \<Rightarrow> m | None \<Rightarrow> bi_branch_model inp) in
                 case collectE (map (history_entry parse current) (bi_entries inp)) of
                   Inr pieces \<Rightarrow> Build_ok (set_field ''messages'' (JArr (concat pieces @ own)) cfg) Stateless_replay
                 | Inl (Unreplayable d) \<Rightarrow> Build_refused Reason_context_unreplayable d
                 | Inl _ \<Rightarrow> Build_throws_type_error)
            | _ \<Rightarrow> Build_refused Reason_context_unreplayable ''config_messages_not_array'')
      | _ \<Rightarrow> Build_refused Reason_context_unreplayable ''config_not_object'')"

end
