(* ===== verification/Adapter_Openai.thy ===== *)
theory Adapter_Openai
  imports Adapter_Base
begin

text \<open>
  The OpenAI continuation (\<open>execution/adapters/openai-responses.ts\<close>): the terminal response of a
  capture, the choice between chaining from a stored response and replaying the history, and the
  request of either.
\<close>

section \<open>The terminal response of a capture\<close>

definition ANCHOR_MAX_AGE_MS :: int where
  "ANCHOR_MAX_AGE_MS = 14 * 24 * 60 * 60 * 1000"

datatype terminal_resolution = Terminal fields "jsval list" | Provider_failed_response

definition terminalOf :: "fields \<Rightarrow> halt + terminal_resolution" where
  "terminalOf b = (case fget b ''output'' of
       JArr out \<Rightarrow> if list_ex (\<lambda>v. \<not> isObject v) out then Inl (Unreplayable ''response_output_item_not_object'') else Inr (Terminal b out)
     | _ \<Rightarrow> Inl (Unreplayable ''response_output_shape_unknown''))"

definition statusOf :: "fields \<Rightarrow> halt + string option" where
  "statusOf b = (case fget b ''status'' of JUndef \<Rightarrow> Inr None | JStr s \<Rightarrow> Inr (Some s)
     | _ \<Rightarrow> Inl (Unreplayable ''response_status_shape_unknown''))"

definition TERMINAL_RESPONSE_STATUSES :: "string list" where
  "TERMINAL_RESPONSE_STATUSES = [''completed'', ''incomplete'']"

definition FAILED_RESPONSE_STATUSES :: "string list" where
  "FAILED_RESPONSE_STATUSES = [''failed'', ''cancelled'']"

text \<open>One event of the stream: the success terminal seen so far, and whether a failure was seen.\<close>

definition scan_event :: "jsval \<Rightarrow> fields option \<times> bool \<Rightarrow> halt + fields option \<times> bool" where
  "scan_event v acc = (case acc of (terminal, failed) \<Rightarrow>
     if \<not> isObject v then Inr (terminal, failed)
     else let ty = jget v ''type''; failed' = (failed \<or> ty = JStr ''response.failed'' \<or> ty = JStr ''error'') in
       if ty \<noteq> JStr ''response.completed'' \<and> ty \<noteq> JStr ''response.incomplete'' then Inr (terminal, failed')
       else (case jget v ''response'' of
           JObj nested \<Rightarrow>
             if terminal \<noteq> None then Inl (Unreplayable ''duplicate_terminal_verdicts'')
             else bindE (statusOf nested) (\<lambda>st.
               let expected = (if ty = JStr ''response.completed'' then ''completed'' else ''incomplete'') in
               if st \<noteq> None \<and> st \<noteq> Some expected then Inl (Unreplayable ''terminal_status_mismatch'')
               else Inr (Some nested, failed'))
         | _ \<Rightarrow> Inr (terminal, failed')))"

fun scan_terminal :: "(nat list \<Rightarrow> jsval option) \<Rightarrow> nat list list \<Rightarrow> fields option \<times> bool \<Rightarrow> halt + fields option \<times> bool" where
  "scan_terminal parse [] acc = Inr acc"
| "scan_terminal parse (p # ps) acc = (case parse p of
       None \<Rightarrow> Inl (Unreplayable ''sse_data_not_json'')
     | Some v \<Rightarrow> bindE (scan_event v acc) (scan_terminal parse ps))"

definition terminalResponseOf :: "(nat list \<Rightarrow> jsval option) \<Rightarrow> native_output \<Rightarrow> halt + terminal_resolution" where
  "terminalResponseOf parse out = (case out of
       Body v \<Rightarrow> (case v of
           JObj b \<Rightarrow> bindE (statusOf b) (\<lambda>st. case st of
               None \<Rightarrow> terminalOf b
             | Some s \<Rightarrow>
                 if s \<in> set FAILED_RESPONSE_STATUSES then Inr Provider_failed_response
                 else if s \<notin> set TERMINAL_RESPONSE_STATUSES then Inl (Unreplayable ''anchor_response_not_terminal'')
                 else terminalOf b)
         | _ \<Rightarrow> Inl (Unreplayable ''response_body_shape_unknown''))
     | Sse_text t \<Rightarrow> bindE (scan_terminal parse (sse_payloads t) (None, False)) (\<lambda>(terminal, failed).
         if failed \<and> terminal \<noteq> None then Inl (Unreplayable ''conflicting_terminal_verdicts'')
         else if failed then Inr Provider_failed_response
         else (case terminal of None \<Rightarrow> Inl (Unreplayable ''stream_has_no_terminal_response'') | Some b \<Rightarrow> terminalOf b)))"

definition isChainableTerminal :: "fields \<Rightarrow> bool" where
  "isChainableTerminal b \<longleftrightarrow> fget b ''status'' = JUndef \<or> fget b ''status'' = JStr ''completed''"

definition responseIdOf :: "fields \<Rightarrow> string option" where
  "responseIdOf b = (case fget b ''id'' of JStr s \<Rightarrow> if s = [] then None else Some s | _ \<Rightarrow> None)"

datatype input_origin = Origin_history | Origin_own_turn

definition inputItemsOf :: "jsval \<Rightarrow> input_origin \<Rightarrow> halt + jsval list" where
  "inputItemsOf native orig =
     (let unknown = Inl (Unreplayable (if orig = Origin_history then ''history_input_shape_unknown'' else ''config_input_shape_unknown'')) in
      if \<not> isObject native then unknown
      else (case jget native ''input'' of
          JStr s \<Rightarrow> Inr [JObj [(''role'', JStr ''user''), (''content'', JStr s)]]
        | JArr vs \<Rightarrow> Inr vs
        | JUndef \<Rightarrow> if orig = Origin_own_turn then Inr [] else unknown
        | _ \<Rightarrow> unknown))"

definition configStoreAllowsChaining :: "jsval \<Rightarrow> bool" where
  "configStoreAllowsChaining native \<longleftrightarrow> \<not> isObject native \<or> jget native ''store'' \<noteq> JBool False"

section \<open>The request\<close>

definition carries :: "string \<Rightarrow> jsval \<Rightarrow> bool" where
  "carries k v \<longleftrightarrow> (case v of JObj b \<Rightarrow> map_of b k \<noteq> None | _ \<Rightarrow> False)"

definition client_continuation :: "jsval \<Rightarrow> bool" where
  "client_continuation v \<longleftrightarrow> carries ''previous_response_id'' v \<or> carries ''conversation'' v"

fun history_refusal :: "assembled_entry list \<Rightarrow> (refusal_reason \<times> string) option" where
  "history_refusal [] = None"
| "history_refusal (e # es) =
     (if as_provider e \<noteq> ''openai'' then Some (Reason_context_unreplayable, ''cross_provider_replay_not_implemented'')
      else if client_continuation (as_user e) then Some (Reason_continuation_conflict, ''history_carries_client_continuation'')
      else history_refusal es)"

text \<open>
  The walk from the end to the anchor: the anchor with its response, the entries after it, and
  whether a capture after it was a failure the provider declared.
\<close>

record anchor =
  an_entry :: assembled_entry
  an_output :: plan_output
  an_terminal :: fields
  an_after :: "assembled_entry list"

fun scan_anchor ::
  "(nat list \<Rightarrow> jsval option) \<Rightarrow> assembled_entry list \<Rightarrow> assembled_entry list \<Rightarrow> bool \<Rightarrow> halt + anchor option \<times> bool" where
  "scan_anchor parse [] after failed = Inr (None, failed)"
| "scan_anchor parse (e # earlier) after failed = (case as_assistant e of
       None \<Rightarrow> scan_anchor parse earlier (e # after) failed
     | Some (po, out) \<Rightarrow> bindE (terminalResponseOf parse out) (\<lambda>r. case r of
           Provider_failed_response \<Rightarrow> scan_anchor parse earlier (e # after) True
         | Terminal b output \<Rightarrow> Inr (Some \<lparr> an_entry = e, an_output = po, an_terminal = b, an_after = after \<rparr>, failed)))"

definition chain_anchor :: "build_input \<Rightarrow> fields \<Rightarrow> anchor option \<times> bool \<Rightarrow> (anchor \<times> string) option" where
  "chain_anchor inp cfg scan = (case scan of
       (None, failed) \<Rightarrow> None
     | (Some a, failed) \<Rightarrow> (case responseIdOf (an_terminal a) of
           None \<Rightarrow> None
         | Some i \<Rightarrow>
             if \<not> (failed \<or> list_ex as_failed (an_after a)) \<and> isChainableTerminal (an_terminal a) \<and>
                po_credential (an_output a) = Some (bi_credential inp) \<and> configStoreAllowsChaining (as_user (an_entry a)) \<and>
                configStoreAllowsChaining (JObj cfg) \<and> bi_now inp - po_completed (an_output a) < ANCHOR_MAX_AGE_MS
             then Some (a, i) else None))"

definition inputs_of :: "assembled_entry list \<Rightarrow> halt + jsval list" where
  "inputs_of es = bindE (collectE (map (\<lambda>e. inputItemsOf (as_user e) Origin_history) es)) (\<lambda>vs. Inr (concat vs))"

definition chained_body :: "fields \<Rightarrow> anchor \<Rightarrow> string \<Rightarrow> halt + fields" where
  "chained_body cfg a i =
     bindE (inputs_of (an_after a)) (\<lambda>trailing.
       if trailing = [] then Inr (set_field ''previous_response_id'' (JStr i) cfg)
       else bindE (inputItemsOf (JObj cfg) Origin_own_turn) (\<lambda>own.
         Inr (set_field ''previous_response_id'' (JStr i) (set_field ''input'' (JArr (trailing @ own)) cfg))))"

definition replay_entry :: "(nat list \<Rightarrow> jsval option) \<Rightarrow> assembled_entry \<Rightarrow> halt + jsval list" where
  "replay_entry parse e =
     bindE (inputItemsOf (as_user e) Origin_history) (\<lambda>q. case as_assistant e of
         None \<Rightarrow> Inr q
       | Some (po, out) \<Rightarrow> bindE (terminalResponseOf parse out) (\<lambda>r. case r of
             Provider_failed_response \<Rightarrow> Inr q
           | Terminal b output \<Rightarrow> Inr (q @ output)))"

definition replay_history :: "(nat list \<Rightarrow> jsval option) \<Rightarrow> assembled_entry list \<Rightarrow> halt + jsval list" where
  "replay_history parse es = bindE (collectE (map (replay_entry parse) es)) (\<lambda>vs. Inr (concat vs))"

definition replayed_body :: "(nat list \<Rightarrow> jsval option) \<Rightarrow> assembled_entry list \<Rightarrow> fields \<Rightarrow> halt + fields" where
  "replayed_body parse es cfg =
     bindE (replay_history parse es) (\<lambda>h. bindE (inputItemsOf (JObj cfg) Origin_own_turn) (\<lambda>own.
       Inr (set_field ''input'' (JArr (h @ own)) cfg)))"

definition refused_or :: "build_continuation \<Rightarrow> halt + fields \<Rightarrow> build_result" where
  "refused_or c r = (case r of
       Inr b \<Rightarrow> Build_ok b c
     | Inl (Unreplayable d) \<Rightarrow> Build_refused Reason_context_unreplayable d
     | Inl _ \<Rightarrow> Build_throws_type_error)"

definition openaiBuildRequest :: "(nat list \<Rightarrow> jsval option) \<Rightarrow> build_input \<Rightarrow> build_result" where
  "openaiBuildRequest parse inp =
     (case bi_config inp of
        JObj cfg \<Rightarrow>
          if carries ''previous_response_id'' (JObj cfg) then Build_refused Reason_continuation_conflict ''config_carries_previous_response_id''
          else if carries ''conversation'' (JObj cfg) then Build_refused Reason_continuation_conflict ''config_carries_conversation''
          else if fget cfg ''background'' = JBool True then Build_refused Reason_continuation_conflict ''config_requests_background_mode''
          else if bi_entries inp = [] then Build_ok cfg Stateless_replay
          else (case history_refusal (bi_entries inp) of
              Some (why, detail) \<Rightarrow> Build_refused why detail
            | None \<Rightarrow> (case scan_anchor parse (rev (bi_entries inp)) [] False of
                Inl (Unreplayable d) \<Rightarrow> Build_refused Reason_context_unreplayable d
              | Inl _ \<Rightarrow> Build_throws_type_error
              | Inr scan \<Rightarrow> (case chain_anchor inp cfg scan of
                  Some (a, i) \<Rightarrow> refused_or (Response_chain i) (chained_body cfg a i)
                | None \<Rightarrow> refused_or Stateless_replay (replayed_body parse (bi_entries inp) cfg))))
      | _ \<Rightarrow> Build_refused Reason_context_unreplayable ''config_not_object'')"

end
