(* ===== verification/Turn_Build.thy ===== *)
theory Turn_Build
  imports Turn_History Adapter_Anthropic Adapter_Openai
begin

text \<open>
  From the loaded context to the bytes of a request (\<open>execute-turn.ts\<close> between the load and the
  dispatch boundary, \<open>adapters/registry.ts\<close>): the configuration and the key are decrypted, the
  context is assembled, the adapter of the provider builds the body. The result is the \<open>build\<close> a
  worker's phase consumes. The main result puts the executor, the context loader and the
  assembly together: what an adapter is given as the answer of an earlier turn is the text the
  provider sent.
\<close>

definition resolveConversationAdapter :: "dispatch_plan \<Rightarrow> (nat list \<Rightarrow> jsval option) \<Rightarrow> build_input \<Rightarrow> build_result" where
  "resolveConversationAdapter plan = (if pl_provider plan = ''anthropic'' then anthropicBuildRequest else openaiBuildRequest)"

definition encryptContinuationParent :: "conv_kms \<Rightarrow> string \<Rightarrow> nat \<Rightarrow> string \<Rightarrow> envelope option" where
  "encryptContinuationParent k org nonce parent = map_option fst (ck_encrypt k org nonce (utf8 parent))"

text \<open>What the build reads besides the context: the configuration row, and whether the key opens.\<close>

record build_args =
  ba_config :: content
  ba_key_opens :: bool
  ba_model :: string
  ba_credential :: string
  ba_now :: int
  ba_nonce :: nat

definition built_request :: "crypto \<Rightarrow> conv_kms \<Rightarrow> owner \<Rightarrow> build_args \<Rightarrow> build_result \<Rightarrow> build" where
  "built_request cr k ow args r = (case r of
       Build_refused Reason_continuation_conflict d \<Rightarrow> Continuation_conflict
     | Build_refused Reason_context_unreplayable d \<Rightarrow> Context_unbuildable
     | Build_throws_type_error \<Rightarrow> Build_throws
     | Build_ok body cont \<Rightarrow>
         (let stream = isStreamingNativeRequest (JObj body); bytes = nativeRequestBytes cr (JObj body) in
          case cont of
            Stateless_replay \<Rightarrow> Built stream bytes None
          | Response_chain i \<Rightarrow> (case encryptContinuationParent k (ow_org ow) (ba_nonce args) i of
                None \<Rightarrow> Build_throws | Some e \<Rightarrow> Built stream bytes (Some e))))"

definition buildTurn ::
  "crypto \<Rightarrow> conv_kms \<Rightarrow> (nat list \<Rightarrow> jsval option) \<Rightarrow> owner \<Rightarrow> dispatch_plan \<Rightarrow> build_args \<Rightarrow> plan_entry list \<Rightarrow> build" where
  "buildTurn cr k parse ow plan args ctx =
     (case Option.bind (decryptConversationContent k ow (ba_config args)) (ck_parse k) of
        None \<Rightarrow> Config_unreadable
      | Some native \<Rightarrow>
          if \<not> ba_key_opens args then Key_unreadable
          else (case assembleDurableContext k parse (ow_org ow) ctx of
              Inl e \<Rightarrow> Context_unbuildable
            | Inr entries \<Rightarrow> built_request cr k ow args (resolveConversationAdapter plan parse
                \<lparr> bi_entries = entries, bi_config = native, bi_branch_model = ba_model args, bi_credential = ba_credential args,
                  bi_now = ba_now args \<rparr>)))"

section \<open>What an adapter is given\<close>

text \<open>The answer of an entry is the text the provider sent for its attempt, as JSON or as a stream.\<close>

definition given_as_received :: "(nat list \<Rightarrow> jsval option) \<Rightarrow> world \<Rightarrow> plan_entry \<Rightarrow> assembled_entry \<Rightarrow> bool" where
  "given_as_received parse w e a \<longleftrightarrow> as_turn a = pe_turn e \<and> as_provider a = pe_provider e \<and> as_model a = pe_model e \<and>
     (case pe_output e of None \<Rightarrow> as_assistant a = None
      | Some out \<Rightarrow> (\<exists>t. text_decode (w_wire w (po_attempt out)) = Some t \<and>
          (case po_kind out of
             Response_output \<Rightarrow> (\<exists>v. parse t = Some v \<and> as_assistant a = Some (out, Body v))
           | Stream_output \<Rightarrow> as_assistant a = Some (out, Sse_text t))))"

lemma plan_output_single:
  assumes "plan_output_of items s a = Inr out" "po_kind out = Response_output"
  shows "length (po_contents out) = 1"
  using assms by (auto simp: plan_output_of_def Let_def split: if_splits option.splits)

lemma loaded_single:
  assumes "loadDurableContextPlan ow cid bid seq budget db = Inr entries" "e \<in> set entries" "pe_output e = Some out" "po_kind out = Response_output"
  shows "length (po_contents out) = 1"
  using assms(1)
proof (cases rule: load_cases)
  case 1
  with assms(2) show ?thesis by simp
next
  case (2 sel ids eligible byTurn)
  let ?f = "plan_entry_of (readItemsWithContent ow cid (map (\<lambda>s. (sl_branch s, ct_id (sl_turn s))) sel) ids db) eligible byTurn"
  from assms(2) have "Inr e \<in> set (map ?f sel)" by (simp only: 2(4)) simp
  then obtain s where "?f s = Inr e" by auto
  with assms(3) obtain a where "plan_output_of (readItemsWithContent ow cid (map (\<lambda>s. (sl_branch s, ct_id (sl_turn s))) sel) ids db) s a = Inr out"
    by (auto simp: plan_entry_of_def Let_def bindE_Inr_iff split: if_splits option.splits)
  then show ?thesis using assms(4) by (rule plan_output_single)
qed

definition assembled_one ::
  "conv_kms \<Rightarrow> (nat list \<Rightarrow> jsval option) \<Rightarrow> string \<Rightarrow> plan_entry \<Rightarrow> assembled_entry \<Rightarrow> bool" where
  "assembled_one k parse org e a \<longleftrightarrow> (\<exists>u t v parts out. decryptRef k org (pe_user e) = Inr u \<and>
     map (decryptRef k org) (entry_outputs e) = map Inr parts \<and> text_decode u = Some t \<and> parse t = Some v \<and>
     assemble_output parse (pe_output e) parts = Inr out \<and>
     a = \<lparr> as_turn = pe_turn e, as_provider = pe_provider e, as_model = pe_model e, as_failed = pe_failed e, as_user = v,
           as_assistant = out \<rparr>)"

lemma collectE_rel:
  assumes "collectE (map f xs) = Inr ys"
  shows "list_all2 (\<lambda>x y. f x = Inr y) xs ys"
proof -
  from assms have m: "map f xs = map Inr ys" by (simp only: collectE_Inr_iff)
  then have "length xs = length ys" by (metis length_map)
  with m show ?thesis by (auto simp: list_all2_conv_all_nth list_eq_iff_nth_eq)
qed

lemma assembled_all:
  assumes "assembleDurableContext k parse org plan = Inr es"
  shows "list_all2 (assembled_one k parse org) plan es"
proof -
  let ?open = "\<lambda>e. bindE (decryptRef k org (pe_user e)) (\<lambda>u.
    bindE (collectE (map (decryptRef k org) (entry_outputs e))) (\<lambda>parts. Inr (e, u, parts)))"
  let ?read = "\<lambda>(e, u, parts). bindE (decodeUtf8Strict u Context_input_not_utf8) (\<lambda>t.
    bindE (parseJson parse t Context_input_not_json) (\<lambda>v. bindE (assemble_output parse (pe_output e) parts) (\<lambda>out.
      Inr \<lparr> as_turn = pe_turn e, as_provider = pe_provider e, as_model = pe_model e, as_failed = pe_failed e, as_user = v, as_assistant = out \<rparr>)))"
  from assms obtain opened where o: "collectE (map ?open plan) = Inr opened" "collectE (map ?read opened) = Inr es"
    by (auto simp: assembleDurableContext_def bindE_Inr_iff)
  have "assembled_one k parse org e a" if op: "?open e = Inr x" and rd: "?read x = Inr a" for e x a
  proof -
    from op obtain u parts where x: "x = (e, u, parts)" "decryptRef k org (pe_user e) = Inr u"
      "collectE (map (decryptRef k org) (entry_outputs e)) = Inr parts" by (auto simp: bindE_Inr_iff)
    then have "map (decryptRef k org) (entry_outputs e) = map Inr parts" by (simp only: collectE_Inr_iff)
    with x rd show ?thesis
      by (auto simp: assembled_one_def bindE_Inr_iff decodeUtf8Strict_def parseJson_def split: option.splits)
  qed
  with list_all2_trans [OF _ collectE_rel [OF o(1)] collectE_rel [OF o(2)]] show ?thesis by blast
qed

lemma given_one:
  assumes opens: "output_opens k org w e" and one: "\<And>out. pe_output e = Some out \<Longrightarrow> po_kind out = Response_output \<Longrightarrow> length (po_contents out) = 1"
    and a: "assembled_one k parse org e a"
  shows "given_as_received parse w e a"
proof -
  from a obtain u t v parts out where x: "map (decryptRef k org) (entry_outputs e) = map Inr parts"
    "assemble_output parse (pe_output e) parts = Inr out"
    "a = \<lparr> as_turn = pe_turn e, as_provider = pe_provider e, as_model = pe_model e, as_failed = pe_failed e, as_user = v, as_assistant = out \<rparr>"
    unfolding assembled_one_def by blast
  show ?thesis
  proof (cases "pe_output e")
    case None
    with x show ?thesis by (simp add: given_as_received_def assemble_output_def)
  next
    case (Some po)
    with opens obtain ps where p: "map (decryptRef k org) (po_contents po) = map Inr ps" "concat ps = w_wire w (po_attempt po)"
      by (auto simp: output_opens_def)
    have "map Inr parts = (map Inr ps :: (unbuildable + bytes) list)" using x(1) p(1) Some by (simp add: entry_outputs_def)
    then have ps: "ps = parts" by (simp add: inj_map_eq_map inj_def)
    show ?thesis
    proof (cases "po_kind po")
      case Response_output
      then have "length parts = 1" using one [OF Some Response_output] p(1) ps by (metis length_map)
      then obtain bs where bs: "parts = [bs]" by (cases parts) auto
      with p ps Some x Response_output show ?thesis
        by (auto simp: given_as_received_def assemble_output_def bindE_Inr_iff decodeUtf8Strict_def parseJson_def split: option.splits)
    next
      case Stream_output
      with p ps Some x show ?thesis
        by (auto simp: given_as_received_def assemble_output_def bindE_Inr_iff decodeUtf8Strict_def split: option.splits)
    qed
  qed
qed

text \<open>C16. The model is told what it said: on every reachable state, for the context of a turn on any
branch, forked or not, the answer of each earlier turn that is handed to the adapter is the
decoding of exactly the bytes the provider sent for that attempt, parsed if it came as one body,
as stream text if it came in chunks, in the order of the turns, however many flushes, workers,
restarts and encryptions lay between.\<close>

theorem adapter_is_given_what_was_received:
  assumes k: "kms_ok k" and r: "reach initial (turn_step k dp) w"
    and l: "loadDurableContextPlan ow cid bid seq budget (w_db w) = Inr plan"
    and a: "assembleDurableContext k parse (ow_org ow) plan = Inr entries"
  shows "list_all2 (given_as_received parse w) plan entries"
proof -
  have "output_ok k w" using r by (rule recorded.inv_reach)
  from any_loaded_opens [OF k this l] have o: "output_opens k (ow_org ow) w e" if "e \<in> set plan" for e using that by (simp add: list_all_iff)
  have "given_as_received parse w e x" if "e \<in> set plan" "assembled_one k parse (ow_org ow) e x" for e x
    using o [OF that(1)] loaded_single [OF l that(1)] that(2) by (rule given_one)
  with assembled_all [OF a] show ?thesis by (auto simp: list_all2_conv_all_nth)
qed


definition told_parse :: "nat list \<Rightarrow> jsval option" where
  "told_parse t = Some (if t = [7, 8] then JStr ''answer'' else JNull)"

definition told_entry :: assembled_entry where
  "told_entry = \<lparr> as_turn = ''t1'', as_provider = ''anthropic'', as_model = ''m'', as_failed = False, as_user = JNull,
     as_assistant = Some (the (pe_output demo_entry), Body (JStr ''answer'')) \<rparr>"

lemma told_assembled: "assembleDurableContext demo_kms told_parse ''o'' [demo_entry] = Inr [told_entry]"
proof -
  have d: "text_decode [3] = Some [3]" "text_decode [7, 8] = Some [7, 8]" by code_simp+
  show ?thesis
    by (simp add: assembleDurableContext_def decryptRef_def demo_entry_def demo_kms_def demo_key_def entry_outputs_def decodeUtf8Strict_def
        parseJson_def assemble_output_def d told_parse_def told_entry_def)
qed

theorem adapter_is_given_what_was_received_witness:
  "list_all2 (given_as_received told_parse (stage (Ended O_completed) demo_final True [7, 8])) [demo_entry] [told_entry]"
proof (rule adapter_is_given_what_was_received [OF demo_kms_ok demo_reach_final])
  show "loadDurableContextPlan demo_owner ''c'' ''b'' 2 DEFAULT_CONTEXT_BUDGET (w_db (stage (Ended O_completed) demo_final True [7, 8])) = Inr [demo_entry]"
    using demo_final_plan by simp
  have "ow_org demo_owner = ''o''" by (simp add: demo_owner_def)
  with told_assembled show "assembleDurableContext demo_kms told_parse (ow_org demo_owner) [demo_entry] = Inr [told_entry]" by simp
qed

end
