(* ===== verification/Anthropic_Replay.thy ===== *)
theory Anthropic_Replay
  imports Adapter_Anthropic
begin

text \<open>
  What the Anthropic adapter makes of a capture: a stream a provider writes for a message is
  reassembled into exactly that message, however it was cut and wherever pings came, so a turn is
  replayed the same whichever way its answer arrived; and a built request is the stored
  configuration with the history in front of its own messages.
\<close>

section \<open>How a provider says a message\<close>

definition idx :: "nat \<Rightarrow> js_num" where
  "idx i = Finite (of_nat i)"

lemma idx_eq [simp]: "idx i = idx j \<longleftrightarrow> i = j"
  by (simp add: idx_def)

definition start_frame :: "nat \<Rightarrow> fields \<Rightarrow> jsval" where
  "start_frame i b = JObj [(''type'', JStr ''content_block_start''), (''index'', JNum (idx i)), (''content_block'', JObj b)]"

definition delta_frame :: "nat \<Rightarrow> fields \<Rightarrow> jsval" where
  "delta_frame i d = JObj [(''type'', JStr ''content_block_delta''), (''index'', JNum (idx i)), (''delta'', JObj d)]"

definition stop_frame :: "nat \<Rightarrow> jsval" where
  "stop_frame i = JObj [(''type'', JStr ''content_block_stop''), (''index'', JNum (idx i))]"

definition message_frame :: "fields \<Rightarrow> jsval" where
  "message_frame m = JObj [(''type'', JStr ''message_start''), (''message'', JObj m)]"

definition closing_frames :: "fields list \<Rightarrow> jsval list" where
  "closing_frames ds = map (\<lambda>d. JObj ((''type'', JStr ''message_delta'') # d)) ds @ [JObj [(''type'', JStr ''message_stop'')]]"

text \<open>What a delta carries: a piece of the text, or a citation.\<close>

datatype piece = Piece string | Cite jsval

definition said :: "piece list \<Rightarrow> string" where
  "said ps = concat (map (\<lambda>p. case p of Piece t \<Rightarrow> t | Cite c \<Rightarrow> []) ps)"

definition cited :: "piece list \<Rightarrow> jsval list" where
  "cited ps = concat (map (\<lambda>p. case p of Piece t \<Rightarrow> [] | Cite c \<Rightarrow> [c]) ps)"

lemma said_simps [simp]: "said [] = []" "said (Piece t # ps) = t @ said ps" "said (Cite c # ps) = said ps"
  by (simp_all add: said_def)

lemma cited_simps [simp]: "cited [] = []" "cited (Piece t # ps) = cited ps" "cited (Cite c # ps) = c # cited ps"
  by (simp_all add: cited_def)

definition is_text :: "fields \<Rightarrow> bool" where "is_text b \<longleftrightarrow> fget b ''type'' = JStr ''text''"
definition is_thinking :: "fields \<Rightarrow> bool" where "is_thinking b \<longleftrightarrow> fget b ''type'' = JStr ''thinking''"
definition is_tool :: "fields \<Rightarrow> bool" where "is_tool b \<longleftrightarrow> tool_type (fget b ''type'')"

text \<open>The documented opening of a block, and the deltas that follow it.\<close>

definition opened :: "fields \<Rightarrow> piece list \<Rightarrow> fields" where
  "opened b ps =
     (if is_text b then set_field ''text'' (JStr []) (if cited ps = [] then b else set_field ''citations'' JNull b)
      else if is_thinking b then set_field ''thinking'' (JStr []) (set_field ''signature'' (JStr []) b)
      else if is_tool b then set_field ''input'' (JObj []) b
      else b)"

fun text_piece :: "piece \<Rightarrow> fields" where
  "text_piece (Piece t) = [(''type'', JStr ''text_delta''), (''text'', JStr t)]"
| "text_piece (Cite c) = [(''type'', JStr ''citations_delta''), (''citation'', c)]"

definition thinking_piece :: "string \<Rightarrow> fields" where
  "thinking_piece t = [(''type'', JStr ''thinking_delta''), (''thinking'', JStr t)]"

definition signature_piece :: "jsval \<Rightarrow> fields" where
  "signature_piece v = [(''type'', JStr ''signature_delta''), (''signature'', v)]"

definition json_piece :: "string \<Rightarrow> fields" where
  "json_piece t = [(''type'', JStr ''input_json_delta''), (''partial_json'', JStr t)]"

fun piece_text :: "piece \<Rightarrow> string" where
  "piece_text (Piece t) = t"
| "piece_text (Cite c) = []"

definition deltas :: "fields \<Rightarrow> piece list \<Rightarrow> fields list" where
  "deltas b ps =
     (if is_text b then map text_piece ps
      else if is_thinking b then map (thinking_piece \<circ> piece_text) ps @ [signature_piece (fget b ''signature'')]
      else if is_tool b then map (json_piece \<circ> piece_text) ps
      else [])"

definition block_frames :: "nat \<Rightarrow> fields \<Rightarrow> piece list \<Rightarrow> jsval list" where
  "block_frames i b ps = start_frame i (opened b ps) # map (delta_frame i) (deltas b ps) @ [stop_frame i]"

fun blocks_frames :: "nat \<Rightarrow> (fields \<times> piece list) list \<Rightarrow> jsval list" where
  "blocks_frames i [] = []"
| "blocks_frames i ((b, ps) # bs) = block_frames i b ps @ blocks_frames (Suc i) bs"

text \<open>The pieces are a way to cut the block: the text, the thinking, the JSON text of the input.\<close>

definition cut_of :: "(nat list \<Rightarrow> jsval option) \<Rightarrow> fields \<Rightarrow> piece list \<Rightarrow> bool" where
  "cut_of parse b ps \<longleftrightarrow>
     (if is_text b then fget b ''text'' = JStr (said ps) \<and> (cited ps \<noteq> [] \<longrightarrow> fget b ''citations'' = JArr (cited ps))
      else if is_thinking b then fget b ''thinking'' = JStr (said ps)
      else if is_tool b then
        (if said ps = [] then fget b ''input'' = JObj [] else parse (points (said ps)) = Some (fget b ''input''))
      else True)"

definition lawful_block :: "fields \<Rightarrow> bool" where
  "lawful_block b \<longleftrightarrow> is_str (fget b ''type'') \<and> \<not> blockPayloadInvalid b Law_final"

definition lawful_start :: "fields \<Rightarrow> bool" where
  "lawful_start m \<longleftrightarrow> \<not> roleInvalid (fget m ''role'') \<and> fget m ''content'' \<in> {JUndef, JArr []} \<and>
     (fget m ''model'' = JUndef \<or> is_str (fget m ''model''))"

section \<open>A block is reassembled as it was said\<close>

text \<open>The reassembler between two blocks, after the blocks \<open>bs\<close>.\<close>

definition between :: "jsval \<Rightarrow> string option \<Rightarrow> fields list \<Rightarrow> reassembly \<Rightarrow> bool" where
  "between role m bs s \<longleftrightarrow> rs_role s = role \<and> rs_model s = m \<and> rs_started s \<and> \<not> rs_stopped s \<and> \<not> rs_error s \<and> \<not> rs_delta s \<and>
     rs_next s = length bs \<and> rs_order s = map idx [0..<length bs] \<and> rs_open s = [] \<and> rs_partial s = Map.empty \<and>
     (\<forall>i. rs_blocks s (idx i) = (if i < length bs then Some (bs ! i) else None)) \<and>
     set (rs_signed s) \<subseteq> idx ` {..<length bs}"

text \<open>The reassembler inside block \<open>i\<close>.\<close>

definition inside :: "nat \<Rightarrow> fields \<Rightarrow> reassembly \<Rightarrow> bool" where
  "inside i b s \<longleftrightarrow> rs_started s \<and> \<not> rs_stopped s \<and> \<not> rs_error s \<and> \<not> rs_delta s \<and> rs_open s = [idx i] \<and>
     rs_blocks s (idx i) = Some b"

lemma put_block_simps [simp]:
  "put_block n b (put_block n c s) = put_block n b s" "rs_blocks (put_block n b s) = (rs_blocks s)(n \<mapsto> b)"
  "rs_open (put_block n b s) = rs_open s" "rs_signed (put_block n b s) = rs_signed s" "rs_partial (put_block n b s) = rs_partial s"
  "rs_started (put_block n b s) = rs_started s" "rs_stopped (put_block n b s) = rs_stopped s" "rs_error (put_block n b s) = rs_error s"
  "rs_delta (put_block n b s) = rs_delta s" "rs_role (put_block n b s) = rs_role s" "rs_model (put_block n b s) = rs_model s"
  "rs_next (put_block n b s) = rs_next s" "rs_order (put_block n b s) = rs_order s"
  by (simp_all add: put_block_def)

lemma put_block_same: "rs_blocks s n = Some b \<Longrightarrow> put_block n b s = s"
  by (simp add: put_block_def fun_upd_idem)

lemma run_append: "run_events parse (xs @ ys) s = bindE (run_events parse xs s) (run_events parse ys)"
  by (induction xs arbitrary: s) (auto simp: bindE_def split: sum.split)

lemma delta_event:
  assumes "inside i b s" "idx i \<notin> set (rs_signed s)" "fget d ''type'' = JStr ty"
  shows "on_event parse (delta_frame i d) s = bindE (delta_fits ty (fget b ''type'')) (\<lambda>_. apply_delta (idx i) b ty (JObj d) s)"
  using assms by (simp add: on_event_def delta_frame_def on_block_delta_def inside_def)

fun told :: "fields \<Rightarrow> piece list \<Rightarrow> fields" where
  "told b [] = b"
| "told b (Piece t # ps) = told (set_field ''text'' (JStr (str_or_empty (fget b ''text'') @ t)) b) ps"
| "told b (Cite c # ps) = told (set_field ''citations'' (JArr (elements (fget b ''citations'') @ [c])) b) ps"

lemma text_citations: "fget b ''text'' = JStr t \<Longrightarrow>
    set_field ''citations'' w (set_field ''text'' v b) = set_field ''text'' v (set_field ''citations'' w b)"
  by (rule set_swap [symmetric]) simp_all

lemma told_closed:
  "fget b ''text'' = JStr t \<Longrightarrow> told b ps = set_field ''text'' (JStr (t @ said ps))
     (if cited ps = [] then b else set_field ''citations'' (JArr (elements (fget b ''citations'') @ cited ps)) b)"
proof (induction ps arbitrary: b t)
  case Nil
  then show ?case by (simp add: set_same)
next
  case (Cons p ps)
  show ?case
  proof (cases p)
    case (Piece u)
    from Cons.IH [of "set_field ''text'' (JStr (t @ u)) b" "t @ u"] Cons.prems show ?thesis
      by (simp add: Piece str_or_empty_def text_citations)
  next
    case (Cite c)
    from Cons.IH [of "set_field ''citations'' (JArr (elements (fget b ''citations'') @ [c])) b" t] Cons.prems show ?thesis
      by (simp add: Cite)
  qed
qed

lemma inside_put: "inside i b s \<Longrightarrow> inside i c (put_block (idx i) c s)"
  by (simp add: inside_def)

lemma text_run:
  assumes "inside i b s" "idx i \<notin> set (rs_signed s)" "is_text b" "fget b ''text'' = JStr t" "citationsInvalid (fget b ''citations'') = False"
    "list_all isObject (cited ps)"
  shows "run_events parse (map (delta_frame i) (map text_piece ps)) s = Inr (put_block (idx i) (told b ps) s)"
  using assms
proof (induction ps arbitrary: b t s)
  case Nil
  then show ?case by (simp add: inside_def put_block_same)
next
  case (Cons p ps)
  have fits: "delta_fits ty (fget b ''type'') = Inr ()" if "ty \<in> {''text_delta'', ''citations_delta''}" for ty
    using that Cons.prems(3) by (auto simp: delta_fits_def expectation_def is_text_def)
  show ?case
  proof (cases p)
    case (Piece u)
    let ?b = "set_field ''text'' (JStr (str_or_empty (fget b ''text'') @ u)) b"
    have "on_event parse (delta_frame i (text_piece p)) s = Inr (put_block (idx i) ?b s)"
      by (subst delta_event [OF Cons.prems(1,2), where ty = "''text_delta''"])
         (simp_all add: Piece fits apply_delta_def Let_def)
    moreover have "run_events parse (map (delta_frame i) (map text_piece ps)) (put_block (idx i) ?b s) =
        Inr (put_block (idx i) (told ?b ps) (put_block (idx i) ?b s))"
      by (rule Cons.IH [OF inside_put [OF Cons.prems(1)], where t = "str_or_empty (fget b ''text'') @ u"])
         (use Cons.prems Piece in \<open>simp_all add: is_text_def\<close>)
    ultimately show ?thesis by (simp add: Piece)
  next
    case (Cite c)
    let ?b = "set_field ''citations'' (JArr (elements (fget b ''citations'') @ [c])) b"
    have "citationsInvalid (fget ?b ''citations'') = False"
      using Cons.prems(5,6) Cite by (auto simp: citationsInvalid_def split: jsval.splits)
    moreover have "on_event parse (delta_frame i (text_piece p)) s = Inr (put_block (idx i) ?b s)"
      using Cons.prems(5,6) Cite
      by (subst delta_event [OF Cons.prems(1,2), where ty = "''citations_delta''"])
         (simp_all add: fits apply_delta_def Let_def)
    moreover have "run_events parse (map (delta_frame i) (map text_piece ps)) (put_block (idx i) ?b s) =
        Inr (put_block (idx i) (told ?b ps) (put_block (idx i) ?b s))" if "citationsInvalid (fget ?b ''citations'') = False"
      by (rule Cons.IH [OF inside_put [OF Cons.prems(1)], where t = t])
         (use Cons.prems Cite that in \<open>simp_all add: is_text_def\<close>)
    ultimately show ?thesis by (simp add: Cite)
  qed
qed

lemma thinking_run:
  assumes "inside i b s" "idx i \<notin> set (rs_signed s)" "is_thinking b" "fget b ''thinking'' = JStr t"
  shows "run_events parse (map (delta_frame i) (map thinking_piece ts)) s =
    Inr (put_block (idx i) (set_field ''thinking'' (JStr (t @ concat ts)) b) s)"
  using assms
proof (induction ts arbitrary: b t s)
  case Nil
  then show ?case by (simp add: inside_def put_block_same set_same)
next
  case (Cons u ts)
  let ?b = "set_field ''thinking'' (JStr (t @ u)) b"
  have "delta_fits ''thinking_delta'' (fget b ''type'') = Inr ()"
    using Cons.prems(3) by (auto simp: delta_fits_def expectation_def is_thinking_def)
  then have "on_event parse (delta_frame i (thinking_piece u)) s = Inr (put_block (idx i) ?b s)"
    using Cons.prems(4)
    by (subst delta_event [OF Cons.prems(1,2), where ty = "''thinking_delta''"])
       (simp_all add: thinking_piece_def apply_delta_def Let_def str_or_empty_def)
  moreover have "run_events parse (map (delta_frame i) (map thinking_piece ts)) (put_block (idx i) ?b s) =
      Inr (put_block (idx i) (set_field ''thinking'' (JStr ((t @ u) @ concat ts)) ?b) (put_block (idx i) ?b s))"
    by (rule Cons.IH [OF inside_put [OF Cons.prems(1)]]) (use Cons.prems in \<open>simp_all add: is_thinking_def\<close>)
  ultimately show ?case by simp
qed

definition add_partial :: "js_num \<Rightarrow> string \<Rightarrow> reassembly \<Rightarrow> reassembly" where
  "add_partial n t s = s\<lparr> rs_partial := (rs_partial s)(n \<mapsto> (case rs_partial s n of None \<Rightarrow> [] | Some a \<Rightarrow> a) @ t) \<rparr>"

lemma json_run:
  assumes "inside i b s" "idx i \<notin> set (rs_signed s)" "is_tool b" "ts \<noteq> []"
  shows "run_events parse (map (delta_frame i) (map json_piece ts)) s = Inr (add_partial (idx i) (concat ts) s)"
  using assms
proof (induction ts arbitrary: s)
  case (Cons u ts)
  have "delta_fits ''input_json_delta'' (fget b ''type'') = Inr ()"
    using Cons.prems(3) by (auto simp: delta_fits_def expectation_def is_tool_def tool_type_def)
  then have e: "on_event parse (delta_frame i (json_piece u)) s = Inr (add_partial (idx i) u s)"
    by (subst delta_event [OF Cons.prems(1,2), where ty = "''input_json_delta''"])
       (simp_all add: json_piece_def apply_delta_def Let_def add_partial_def)
  show ?case
  proof (cases "ts = []")
    case False
    have "run_events parse (map (delta_frame i) (map json_piece ts)) (add_partial (idx i) u s) =
        Inr (add_partial (idx i) (concat ts) (add_partial (idx i) u s))"
      by (rule Cons.IH) (use Cons.prems False in \<open>simp_all add: inside_def add_partial_def\<close>)
    with e show ?thesis by (simp add: add_partial_def)
  qed (use e in simp)
qed simp

definition started_block :: "nat \<Rightarrow> fields \<Rightarrow> reassembly \<Rightarrow> reassembly" where
  "started_block i b s = s\<lparr> rs_next := rs_next s + 1, rs_blocks := (rs_blocks s)(idx i \<mapsto> b), rs_order := rs_order s @ [idx i],
     rs_open := idx i # rs_open s \<rparr>"

lemma opened_start:
  assumes "lawful_block b"
  shows "fget (opened b ps) ''type'' = fget b ''type''" "is_str (fget (opened b ps) ''type'')" "\<not> blockPayloadInvalid (opened b ps) Law_start"
  using assms
  by (auto simp: lawful_block_def opened_def is_text_def is_thinking_def is_tool_def tool_type_def blockPayloadInvalid_def Let_def
      is_str_def isObject_def citationsInvalid_def)

lemma start_event:
  assumes s: "between role m bs s" and b: "is_str (fget b ''type'')" "\<not> blockPayloadInvalid b Law_start"
  shows "on_event parse (start_frame (length bs) b) s = Inr (started_block (length bs) b s)"
    "inside (length bs) b (started_block (length bs) b s)" "idx (length bs) \<notin> set (rs_signed (started_block (length bs) b s))"
proof -
  have n: "idx (length bs) = Finite (of_nat (rs_next s))" using s by (simp add: between_def idx_def)
  have free: "rs_blocks s (idx (length bs)) = None" using s by (simp add: between_def)
  from s b n free show "on_event parse (start_frame (length bs) b) s = Inr (started_block (length bs) b s)"
    by (simp add: on_event_def start_frame_def on_block_start_def started_block_def between_def)
  from s show "inside (length bs) b (started_block (length bs) b s)"
    "idx (length bs) \<notin> set (rs_signed (started_block (length bs) b s))"
    by (auto simp: inside_def started_block_def between_def)
qed

text \<open>After the last delta the block is stopped: its final fields, and whether it was signed.\<close>

definition stopped_block :: "nat \<Rightarrow> fields \<Rightarrow> js_num list \<Rightarrow> reassembly \<Rightarrow> reassembly" where
  "stopped_block i b sg s = (started_block i b s)\<lparr> rs_signed := sg, rs_open := removeAll (idx i) (rs_open s) \<rparr>"

lemma stopped_between:
  assumes "between role m bs s" "set sg \<subseteq> insert (idx (length bs)) (set (rs_signed s))"
  shows "between role m (bs @ [b]) (stopped_block (length bs) b sg s)"
proof -
  have "set sg \<subseteq> idx ` {..<Suc (length bs)}" using assms by (auto simp: between_def lessThan_Suc)
  with assms(1) show ?thesis by (auto simp: between_def stopped_block_def started_block_def nth_append less_Suc_eq)
qed

lemma stop_event:
  assumes "inside i b s" "rs_partial s (idx i) = None" "is_thinking b \<Longrightarrow> idx i \<in> set (rs_signed s)"
  shows "on_event parse (stop_frame i) s = Inr (s\<lparr> rs_open := [] \<rparr>)"
  using assms by (auto simp: on_event_def stop_frame_def on_block_stop_def inside_def is_thinking_def)

lemma stop_event_json:
  assumes "inside i b s" "rs_partial s (idx i) = Some acc" "is_tool b" "fget b ''input'' = JObj []"
    "(if acc = [] then Some (JObj []) else parse (points acc)) = Some (JObj v)"
  shows "on_event parse (stop_frame i) s =
    Inr ((put_block (idx i) (set_field ''input'' (JObj v) b) s)\<lparr> rs_partial := (rs_partial s)(idx i := None), rs_open := [] \<rparr>)"
  using assms
  by (auto simp: on_event_def stop_frame_def on_block_stop_def inside_def is_tool_def tool_type_def stop_input_def
      replacedSeedCarriesEvidence_def)

lemma text_back:
  assumes "is_text b" "lawful_block b" "cut_of parse b ps"
  shows "told (opened b ps) ps = b" "citationsInvalid (fget (opened b ps) ''citations'') = False" "list_all isObject (cited ps)"
proof -
  from assms have t: "fget b ''text'' = JStr (said ps)" and c: "cited ps \<noteq> [] \<longrightarrow> fget b ''citations'' = JArr (cited ps)"
    and v: "\<not> citationsInvalid (fget b ''citations'')"
    by (simp_all add: cut_of_def lawful_block_def blockPayloadInvalid_def is_text_def Let_def)
  have o: "fget (opened b ps) ''text'' = JStr []" using assms(1) by (simp add: opened_def)
  show "told (opened b ps) ps = b"
  proof (cases "cited ps = []")
    case True
    with t assms(1) show ?thesis unfolding told_closed [OF o] by (simp add: opened_def set_same)
  next
    case False
    have "set_field ''citations'' (JArr (cited ps)) b = b" using False c by (intro set_same) simp_all
    with False t c assms(1) show ?thesis
      unfolding told_closed [OF o] by (simp add: opened_def set_same text_citations)
  qed
  show "citationsInvalid (fget (opened b ps) ''citations'') = False"
    using v assms(1) by (simp add: opened_def citationsInvalid_def)
  show "list_all isObject (cited ps)"
    using v c by (cases "cited ps = []") (auto simp: citationsInvalid_def list_ex_iff list_all_iff)
qed

lemma thinking_back:
  assumes "is_thinking b" "lawful_block b" "cut_of parse b ps"
  shows "set_field ''signature'' (fget b ''signature'') (set_field ''thinking'' (JStr (said ps)) (opened b ps)) = b"
    "is_thinking (opened b ps)" "fget (opened b ps) ''thinking'' = JStr []" "fget (opened b ps) ''signature'' = JStr []"
    "\<exists>sig. fget b ''signature'' = JStr sig"
proof -
  from assms have t: "fget b ''thinking'' = JStr (said ps)" and g: "is_str (fget b ''signature'')"
    by (simp_all add: cut_of_def lawful_block_def blockPayloadInvalid_def is_thinking_def is_text_def Let_def)
  have no: "\<not> is_text b" using assms(1) by (simp add: is_thinking_def is_text_def)
  have nu: "fget b ''signature'' \<noteq> JUndef" using g by (auto simp: is_str_def)
  have "set_field ''signature'' (fget b ''signature'') (set_field ''thinking'' (JStr (said ps)) (set_field ''signature'' (JStr []) b)) =
      set_field ''thinking'' (JStr (said ps)) (set_field ''signature'' (fget b ''signature'') b)"
    using nu by (subst set_swap) simp_all
  also have "\<dots> = b" using t nu by (simp add: set_same)
  finally show "set_field ''signature'' (fget b ''signature'') (set_field ''thinking'' (JStr (said ps)) (opened b ps)) = b"
    using no assms(1) by (simp add: opened_def)
  show "is_thinking (opened b ps)" "fget (opened b ps) ''thinking'' = JStr []" "fget (opened b ps) ''signature'' = JStr []"
    using no assms(1) by (simp_all add: opened_def is_thinking_def)
  show "\<exists>sig. fget b ''signature'' = JStr sig" using g by (auto simp: is_str_def split: jsval.splits)
qed

lemma signature_event:
  assumes "inside i b s" "idx i \<notin> set (rs_signed s)" "is_thinking b" "fget b ''signature'' = JStr []"
  shows "on_event parse (delta_frame i (signature_piece (JStr sig))) s =
    Inr ((put_block (idx i) (set_field ''signature'' (JStr sig) b) s)\<lparr> rs_signed := idx i # rs_signed s \<rparr>)"
proof -
  have "delta_fits ''signature_delta'' (fget b ''type'') = Inr ()"
    using assms(3) by (auto simp: delta_fits_def expectation_def is_thinking_def)
  with assms(4) show ?thesis
    by (subst delta_event [OF assms(1,2), where ty = "''signature_delta''"])
       (simp_all add: signature_piece_def apply_delta_def Let_def replacedSeedCarriesEvidence_def)
qed

lemma concat_pieces: "concat (map piece_text ps) = said ps"
  by (induction ps) (auto simp: said_def split: piece.splits)

text \<open>One block, from its start to its stop.\<close>

lemma block_reassembled:
  assumes s: "between role m bs s" and b: "lawful_block b" and c: "cut_of parse b ps"
  shows "\<exists>s'. run_events parse (block_frames (length bs) b ps) s = Inr s' \<and> between role m (bs @ [b]) s'"
proof -
  let ?i = "length bs"
  let ?o = "opened b ps"
  let ?s = "started_block ?i ?o s"
  note st = start_event [OF s opened_start(2,3) [OF b, of ps]]
  have part: "rs_partial ?s = Map.empty" using s by (simp add: between_def started_block_def)
  have signed: "rs_signed ?s = rs_signed s" by (simp add: started_block_def)
  have opn: "rs_open ?s = [idx ?i]" using s by (simp add: between_def started_block_def)
  have done1: "\<exists>s'. run_events parse (block_frames ?i b ps) s = Inr s' \<and> between role m (bs @ [b]) s'"
    if d: "run_events parse (map (delta_frame ?i) (deltas b ps)) ?s = Inr s2" and e: "on_event parse (stop_frame ?i) s2 = Inr s3"
      and w: "between role m (bs @ [b]) s3" for s2 s3
    using st(1) d e w by (simp add: block_frames_def run_append)
  have fin: "between role m (bs @ [b]) s3"
    if "s3 = stopped_block ?i b sg s" "set sg \<subseteq> insert (idx ?i) (set (rs_signed s))" for s3 sg
    using stopped_between [OF s that(2), of b] that(1) by simp
  have r: "removeAll (idx ?i) (rs_open s) = []" using s by (simp add: between_def)
  consider "is_text b" | "is_thinking b" "\<not> is_text b" | "is_tool b" "\<not> is_text b" "\<not> is_thinking b"
    | "\<not> is_text b" "\<not> is_thinking b" "\<not> is_tool b" by blast
  then show ?thesis
  proof cases
    case 1
    note shape = text_back [OF 1 b c]
    have ot: "is_text ?o" "fget ?o ''text'' = JStr []" using 1 opened_start(1) [OF b, of ps] by (simp_all add: is_text_def opened_def)
    let ?s2 = "put_block (idx ?i) b ?s"
    have d: "run_events parse (map (delta_frame ?i) (deltas b ps)) ?s = Inr ?s2"
      using text_run [OF st(2,3) ot shape(2,3), of parse] 1 shape(1) by (simp add: deltas_def)
    have "inside ?i b ?s2" using st(2) by (rule inside_put)
    then have e: "on_event parse (stop_frame ?i) ?s2 = Inr (?s2\<lparr> rs_open := [] \<rparr>)"
      by (rule stop_event) (use 1 part in \<open>simp_all add: is_text_def is_thinking_def\<close>)
    have "?s2\<lparr> rs_open := [] \<rparr> = stopped_block ?i b (rs_signed s) s"
      by (simp add: stopped_block_def started_block_def put_block_def r)
    from done1 [OF d e fin [OF this]] show ?thesis by auto
  next
    case 2
    note shape = thinking_back [OF 2(1) b c]
    from shape(5) obtain sig where sig: "fget b ''signature'' = JStr sig" by blast
    let ?b2 = "set_field ''thinking'' (JStr (said ps)) ?o"
    let ?s1 = "put_block (idx ?i) ?b2 ?s"
    let ?s2 = "(put_block (idx ?i) b ?s)\<lparr> rs_signed := idx ?i # rs_signed s \<rparr>"
    have "run_events parse (map (delta_frame ?i) (map thinking_piece (map piece_text ps))) ?s = Inr ?s1"
      using thinking_run [OF st(2,3) shape(2,3), of parse "map piece_text ps"] by (simp add: concat_pieces)
    moreover have "on_event parse (delta_frame ?i (signature_piece (JStr sig))) ?s1 = Inr ?s2"
      using signature_event [OF inside_put [OF st(2), of ?b2], of parse sig] st(3) shape sig by (simp add: is_thinking_def signed)
    ultimately have d: "run_events parse (map (delta_frame ?i) (deltas b ps)) ?s = Inr ?s2"
      using 2 sig by (simp add: deltas_def run_append comp_def)
    have "inside ?i b ?s2" using st(2) by (simp add: inside_def)
    then have e: "on_event parse (stop_frame ?i) ?s2 = Inr (?s2\<lparr> rs_open := [] \<rparr>)"
      by (rule stop_event) (use part in simp_all)
    have "?s2\<lparr> rs_open := [] \<rparr> = stopped_block ?i b (idx ?i # rs_signed s) s"
      by (simp add: stopped_block_def started_block_def put_block_def r)
    from done1 [OF d e fin [OF this]] show ?thesis by auto
  next
    case 3
    have o: "?o = set_field ''input'' (JObj []) b" "is_tool ?o" "fget ?o ''input'' = JObj []" "\<not> is_thinking ?o"
      using 3 by (simp_all add: opened_def is_tool_def is_thinking_def)
    from b 3 obtain v where v: "fget b ''input'' = JObj v"
      by (auto simp: lawful_block_def blockPayloadInvalid_def is_tool_def isObject_def Let_def split: jsval.splits)
    then have same: "set_field ''input'' (JObj v) ?o = b" by (simp add: o(1) set_same)
    show ?thesis
    proof (cases "ps = []")
      case True
      then have "v = []" using c 3 v by (auto simp: cut_of_def)
      then have "b = ?o" using v o(1) by (simp add: set_same)
      have d: "run_events parse (map (delta_frame ?i) (deltas b ps)) ?s = Inr ?s" using 3 True by (simp add: deltas_def)
      have e: "on_event parse (stop_frame ?i) ?s = Inr (?s\<lparr> rs_open := [] \<rparr>)"
        using st(2) by (rule stop_event) (use part o in simp_all)
      have "?s\<lparr> rs_open := [] \<rparr> = stopped_block ?i b (rs_signed s) s"
        using \<open>b = ?o\<close> by (simp add: stopped_block_def started_block_def r)
      from done1 [OF d e fin [OF this]] show ?thesis by auto
    next
      case False
      let ?s2 = "add_partial (idx ?i) (said ps) ?s"
      have d: "run_events parse (map (delta_frame ?i) (deltas b ps)) ?s = Inr ?s2"
        using json_run [OF st(2,3) o(2), of "map piece_text ps" parse] 3 False by (simp add: deltas_def concat_pieces comp_def)
      have i: "inside ?i ?o ?s2" using st(2) by (simp add: inside_def add_partial_def)
      let ?s3 = "(put_block (idx ?i) (set_field ''input'' (JObj v) ?o) ?s2)\<lparr> rs_partial := (rs_partial ?s2)(idx ?i := None), rs_open := [] \<rparr>"
      have acc: "rs_partial ?s2 (idx ?i) = Some (said ps)" using part by (simp add: add_partial_def)
      have val: "(if said ps = [] then Some (JObj []) else parse (points (said ps))) = Some (JObj v)"
        using c 3 v by (auto simp: cut_of_def split: if_splits)
      have e: "on_event parse (stop_frame ?i) ?s2 = Inr ?s3"
        using i acc o(2,3) val by (rule stop_event_json)
      have "(rs_partial ?s2)(idx ?i := None) = rs_partial s" using s part by (auto simp: add_partial_def between_def)
      then have "?s3 = stopped_block ?i b (rs_signed s) s"
        using same by (simp add: stopped_block_def started_block_def put_block_def add_partial_def r)
      from done1 [OF d e fin [OF this]] show ?thesis by auto
    qed
  next
    case 4
    then have o: "?o = b" and d: "run_events parse (map (delta_frame ?i) (deltas b ps)) ?s = Inr ?s"
      by (simp_all add: opened_def deltas_def)
    have e: "on_event parse (stop_frame ?i) ?s = Inr (?s\<lparr> rs_open := [] \<rparr>)"
      using st(2) by (rule stop_event) (use part o 4 in simp_all)
    have "?s\<lparr> rs_open := [] \<rparr> = stopped_block ?i b (rs_signed s) s"
      using o by (simp add: stopped_block_def started_block_def r)
    from done1 [OF d e fin [OF this]] show ?thesis by auto
  qed
qed

section \<open>A message is reassembled as it was said\<close>

definition message_frames :: "fields \<Rightarrow> (fields \<times> piece list) list \<Rightarrow> fields list \<Rightarrow> jsval list" where
  "message_frames m bs ds = message_frame m # blocks_frames 0 bs @ closing_frames ds"

lemma blocks_reassembled:
  "between role m bs s \<Longrightarrow> list_all (\<lambda>(b, ps). lawful_block b \<and> cut_of parse b ps) xs \<Longrightarrow>
   \<exists>s'. run_events parse (blocks_frames (length bs) xs) s = Inr s' \<and> between role m (bs @ map fst xs) s'"
proof (induction xs arbitrary: bs s)
  case (Cons x xs)
  obtain b ps where x: "x = (b, ps)" by (cases x)
  with Cons.prems block_reassembled [of role m bs s b parse ps] obtain s1 where
    s1: "run_events parse (block_frames (length bs) b ps) s = Inr s1" "between role m (bs @ [b]) s1" by auto
  with Cons.IH [OF s1(2)] Cons.prems(2) show ?case by (auto simp: x run_append)
qed simp

definition model_name :: "fields \<Rightarrow> string option" where
  "model_name m = (case fget m ''model'' of JStr s \<Rightarrow> Some s | _ \<Rightarrow> None)"

lemma lawful_model: "fget m ''model'' = JUndef \<or> is_str (fget m ''model'') \<Longrightarrow> providerModelOf (JObj m) = Inr (model_name m)"
  by (auto simp: providerModelOf_def model_name_def is_str_def split: jsval.splits)

lemma start_message:
  assumes "lawful_start m"
  shows "\<exists>s. on_event parse (message_frame m) reassembly_start = Inr s \<and> between (fget m ''role'') (model_name m) [] s"
  using assms lawful_model [of m]
  by (auto simp: on_event_def message_frame_def on_message_start_def reassembly_start_def lawful_start_def isObject_def Let_def between_def)

lemma closing_run:
  assumes "between role m bs s"
  shows "\<exists>s'. run_events parse (closing_frames ds) s = Inr s' \<and> rs_role s' = role \<and> rs_model s' = m \<and> rs_blocks s' = rs_blocks s \<and>
    rs_order s' = rs_order s \<and> rs_open s' = [] \<and> rs_stopped s' \<and> \<not> rs_error s'"
proof -
  have "\<exists>s'. run_events parse (map (\<lambda>d. JObj ((''type'', JStr ''message_delta'') # d)) ds) s = Inr s' \<and> rs_role s' = rs_role s \<and>
      rs_model s' = rs_model s \<and> rs_blocks s' = rs_blocks s \<and> rs_order s' = rs_order s \<and> rs_open s' = [] \<and> rs_started s' \<and>
      \<not> rs_stopped s' \<and> \<not> rs_error s'"
    if "rs_started s" "\<not> rs_stopped s" "\<not> rs_error s" "rs_open s = []"
    using that
  proof (induction ds arbitrary: s)
    case (Cons d ds)
    then have "on_event parse (JObj ((''type'', JStr ''message_delta'') # d)) s = Inr (s\<lparr> rs_delta := True \<rparr>)"
      by (simp add: on_event_def on_message_delta_def)
    with Cons.IH [of "s\<lparr> rs_delta := True \<rparr>"] Cons.prems show ?case by auto
  qed auto
  with assms obtain s1 where s1: "run_events parse (map (\<lambda>d. JObj ((''type'', JStr ''message_delta'') # d)) ds) s = Inr s1"
    "rs_role s1 = role" "rs_model s1 = m" "rs_blocks s1 = rs_blocks s" "rs_order s1 = rs_order s" "rs_open s1 = []" "rs_started s1"
    "\<not> rs_stopped s1" "\<not> rs_error s1" by (auto simp: between_def)
  then have "on_event parse (JObj [(''type'', JStr ''message_stop'')]) s1 = Inr (s1\<lparr> rs_stopped := True \<rparr>)"
    by (simp add: on_event_def)
  with s1 show ?thesis by (simp add: closing_frames_def run_append)
qed

lemma message_reassembled:
  assumes m: "lawful_start m" and xs: "list_all (\<lambda>(b, ps). lawful_block b \<and> cut_of parse b ps) xs"
  shows "bindE (run_events parse (message_frames m xs ds) reassembly_start) reassembled =
    (if xs = [] then Inl Provider_failed_stream else Inr (fget m ''role'', map (JObj \<circ> fst) xs, model_name m))"
proof -
  from start_message [OF m] obtain s where s: "on_event parse (message_frame m) reassembly_start = Inr s"
    "between (fget m ''role'') (model_name m) [] s" by blast
  from blocks_reassembled [OF s(2) xs] obtain s1 where s1: "run_events parse (blocks_frames 0 xs) s = Inr s1"
    "between (fget m ''role'') (model_name m) (map fst xs) s1" by auto
  from closing_run [OF s1(2)] obtain s2 where s2: "run_events parse (closing_frames ds) s1 = Inr s2" "rs_role s2 = fget m ''role''"
    "rs_model s2 = model_name m" "rs_blocks s2 = rs_blocks s1" "rs_order s2 = rs_order s1" "rs_open s2 = []" "rs_stopped s2" "\<not> rs_error s2"
    by blast
  have order: "rs_order s2 = map idx [0..<length xs]" using s1(2) s2(5) by (simp add: between_def)
  have "map (\<lambda>i. case rs_blocks s2 i of Some b \<Rightarrow> JObj b | None \<Rightarrow> JUndef) (rs_order s2) = map (JObj \<circ> fst) xs"
    using s1(2) s2(4) by (auto simp: order between_def intro!: nth_equalityI)
  moreover have "(rs_order s2 = []) = (xs = [])" by (simp add: order)
  ultimately have "reassembled s2 = (if xs = [] then Inl Provider_failed_stream else Inr (fget m ''role'', map (JObj \<circ> fst) xs, model_name m))"
    using s2 by (simp add: reassembled_def)
  then show ?thesis using s(1) s1(1) s2(1) by (simp add: message_frames_def run_append)
qed

section \<open>Pings\<close>

definition is_ping :: "jsval \<Rightarrow> bool" where
  "is_ping v \<longleftrightarrow> jget v ''type'' = JStr ''ping''"

definition terminal_event :: "jsval \<Rightarrow> bool" where
  "terminal_event v \<longleftrightarrow> jget v ''type'' \<in> {JStr ''message_stop'', JStr ''error''}"

definition ended :: "reassembly \<Rightarrow> bool" where
  "ended s \<longleftrightarrow> rs_stopped s \<or> rs_error s"

lemma ended_put [simp]: "ended (put_block n b s) = ended s"
  by (simp add: ended_def)

lemma delta_ended: "apply_delta n b ty d s = Inr s' \<Longrightarrow> ended s' = ended s"
  by (auto simp: apply_delta_def Let_def ended_def split: if_splits jsval.splits)

lemma part_ended:
  "on_message_start e s = Inr s' \<Longrightarrow> ended s' = ended s"
  "on_block_start e s = Inr s' \<Longrightarrow> ended s' = ended s"
  "on_block_delta e s = Inr s' \<Longrightarrow> ended s' = ended s"
  "on_block_stop parse e s = Inr s' \<Longrightarrow> ended s' = ended s"
  "on_message_delta s = Inr s' \<Longrightarrow> ended s' = ended s"
proof -
  show "on_message_start e s = Inr s' \<Longrightarrow> ended s' = ended s"
    by (auto simp: on_message_start_def Let_def bindE_Inr_iff ended_def split: if_splits)
  show "on_block_start e s = Inr s' \<Longrightarrow> ended s' = ended s"
    by (auto simp: on_block_start_def ended_def split: if_splits jsval.splits)
  show "on_block_delta e s = Inr s' \<Longrightarrow> ended s' = ended s"
    by (auto simp: on_block_delta_def bindE_Inr_iff split: if_splits jsval.splits option.splits dest: delta_ended)
  show "on_block_stop parse e s = Inr s' \<Longrightarrow> ended s' = ended s"
    by (auto simp: on_block_stop_def bindE_Inr_iff ended_def split: if_splits jsval.splits option.splits)
  show "on_message_delta s = Inr s' \<Longrightarrow> ended s' = ended s"
    by (auto simp: on_message_delta_def ended_def split: if_splits)
qed

lemma event_ended:
  assumes "on_event parse e s = Inr s'" "\<not> terminal_event e"
  shows "\<not> ended s'"
  using assms part_ended(1-3) [of e s s'] part_ended(4) [of parse e s s'] part_ended(5) [of s s']
  by (auto simp: on_event_def terminal_event_def ended_def split: jsval.splits if_splits)

lemma ping_event: "is_ping e \<Longrightarrow> \<not> ended s \<Longrightarrow> on_event parse e s = Inr s"
  by (simp add: on_event_def is_ping_def ended_def)

lemma pings_skipped:
  "list_all (\<lambda>e. \<not> terminal_event e) es \<Longrightarrow> \<not> ended s \<Longrightarrow>
   run_events parse es s = run_events parse (filter (\<lambda>e. \<not> is_ping e) es) s"
proof (induction es arbitrary: s)
  case (Cons e es)
  show ?case
  proof (cases "is_ping e")
    case True
    with Cons show ?thesis by (simp add: ping_event)
  next
    case False
    then show ?thesis
      using Cons event_ended [of parse e s] by (cases "on_event parse e s") auto
  qed
qed simp

lemma frame_types [simp]:
  "\<not> terminal_event (message_frame m)" "\<not> terminal_event (start_frame i b)" "\<not> terminal_event (delta_frame i d)"
  "\<not> terminal_event (stop_frame i)" "\<not> terminal_event (JObj ((''type'', JStr ''message_delta'') # d))"
  by (simp_all add: terminal_event_def message_frame_def start_frame_def delta_frame_def stop_frame_def)

lemma blocks_not_terminal: "list_all (\<lambda>e. \<not> terminal_event e) (blocks_frames i xs)"
  by (induction i xs rule: blocks_frames.induct) (auto simp: block_frames_def list_all_iff)

text \<open>A conforming stream: the frames of a message with any pings before the last frame.\<close>

definition conforming :: "fields \<Rightarrow> (fields \<times> piece list) list \<Rightarrow> fields list \<Rightarrow> jsval list \<Rightarrow> bool" where
  "conforming m xs ds evs \<longleftrightarrow> evs \<noteq> [] \<and> \<not> is_ping (last evs) \<and> filter (\<lambda>e. \<not> is_ping e) evs = message_frames m xs ds"

lemma conforming_run:
  assumes "conforming m xs ds evs"
  shows "run_events parse evs reassembly_start = run_events parse (message_frames m xs ds) reassembly_start"
proof -
  let ?stop = "JObj [(''type'', JStr ''message_stop'')]"
  let ?rest = "message_frame m # blocks_frames 0 xs @ map (\<lambda>d. JObj ((''type'', JStr ''message_delta'') # d)) ds"
  have evs: "evs = butlast evs @ [last evs]" "\<not> is_ping (last evs)" using assms by (simp_all add: conforming_def)
  have "filter (\<lambda>e. \<not> is_ping e) (butlast evs) @ [last evs] = ?rest @ [?stop]"
    using assms arg_cong [OF evs(1), of "filter (\<lambda>e. \<not> is_ping e)"] evs(2)
    by (simp add: conforming_def message_frames_def closing_frames_def)
  then have f: "filter (\<lambda>e. \<not> is_ping e) (butlast evs) = ?rest" and l: "last evs = ?stop" by (simp_all add: append_eq_append_conv2)
  have "\<not> terminal_event e" if e: "e \<in> set (butlast evs)" for e
  proof (cases "is_ping e")
    case True
    then show ?thesis by (simp add: is_ping_def terminal_event_def)
  next
    case False
    with e have "e \<in> set ?rest" unfolding f [symmetric] by simp
    then show ?thesis using blocks_not_terminal [of 0 xs] by (auto simp: list_all_iff)
  qed
  then have "run_events parse (butlast evs) reassembly_start = run_events parse ?rest reassembly_start"
    using pings_skipped [of "butlast evs" reassembly_start parse] by (simp add: list_all_iff f ended_def reassembly_start_def)
  moreover have "message_frames m xs ds = ?rest @ [?stop]" by (simp add: message_frames_def closing_frames_def)
  moreover have "run_events parse evs reassembly_start = bindE (run_events parse (butlast evs) reassembly_start) (run_events parse [last evs])"
    using evs(1) run_append [of parse "butlast evs" "[last evs]"] by simp
  ultimately show ?thesis by (simp only: l run_append)
qed

lemma parse_events:
  assumes t: "framed ps t" and a: "list_all2 (\<lambda>p e. parse p = Some e) ps evs"
  shows "parseSseEvents parse t = Inr evs"
proof -
  have "collectE (map (\<lambda>p. case parse p of None \<Rightarrow> Inl (Unreplayable ''sse_data_not_json'') | Some v \<Rightarrow> Inr v) ps) = Inr evs"
    using a by (induction rule: list_all2_induct) auto
  then show ?thesis by (simp add: parseSseEvents_def payloads_of_framed [OF t])
qed

lemma stream_message:
  assumes "lawful_start m" "list_all (\<lambda>(b, ps). lawful_block b \<and> cut_of parse b ps) xs" "conforming m xs ds evs"
    "framed texts t" "list_all2 (\<lambda>p e. parse p = Some e) texts evs"
  shows "assistantMessageFromStream parse t =
    (if xs = [] then Inl Provider_failed_stream else Inr (fget m ''role'', map (JObj \<circ> fst) xs, model_name m))"
  using message_reassembled [OF assms(1,2), of ds] conforming_run [OF assms(3), of parse] parse_events [OF assms(4,5)]
  by (simp add: assistantMessageFromStream_def)

section \<open>The same answer over either transport\<close>

lemma validated: "validate_blocks (map (JObj \<circ> fst) xs) = Inr ()" if "list_all (\<lambda>(b, ps). lawful_block b \<and> cut_of parse b ps) xs"
  using that by (induction xs) (auto simp: lawful_block_def split: prod.splits)

lemma raw_body:
  assumes "fget b ''content'' = JArr c" "fget b ''model'' = JUndef \<or> is_str (fget b ''model'')"
  shows "raw_message parse (Body (JObj b)) = Inr (fget b ''role'', c, model_name b)"
  using assms lawful_model [OF assms(2)] by (simp add: raw_message_def)

text \<open>
  \<open>e'\<close> has the answer of \<open>e\<close> as a conforming stream, cut and padded in any way, where \<open>e\<close> has it as
  one body.
\<close>

definition streamed :: "(nat list \<Rightarrow> jsval option) \<Rightarrow> assembled_entry \<Rightarrow> assembled_entry \<Rightarrow> bool" where
  "streamed parse e e' \<longleftrightarrow> (\<exists>po po' b m xs ds evs texts t.
     as_assistant e = Some (po, Body (JObj b)) \<and>
     e' = e\<lparr> as_assistant := Some (po', Sse_text t) \<rparr> \<and>
     lawful_start m \<and> list_all (\<lambda>(b, ps). lawful_block b \<and> cut_of parse b ps) xs \<and> conforming m xs ds evs \<and>
     framed texts t \<and> list_all2 (\<lambda>p e. parse p = Some e) texts evs \<and>
     fget b ''content'' = JArr (map (JObj \<circ> fst) xs) \<and> fget b ''role'' = fget m ''role'' \<and> fget b ''model'' = fget m ''model'')"

lemma produced_by_answer [simp]: "produced_by (e\<lparr> as_assistant := x \<rparr>) m = produced_by e m"
  by (simp add: produced_by_def split: option.split)

lemma streamed_entry:
  assumes "streamed parse e e'"
  shows "history_entry parse cur e' = history_entry parse cur e"
proof -
  from assms obtain po po' b m xs ds evs texts t where a: "as_assistant e = Some (po, Body (JObj b))"
    "e' = e\<lparr> as_assistant := Some (po', Sse_text t) \<rparr>" "lawful_start m"
    "list_all (\<lambda>(b, ps). lawful_block b \<and> cut_of parse b ps) xs" "conforming m xs ds evs"
    "framed texts t" "list_all2 (\<lambda>p e. parse p = Some e) texts evs" and b: "fget b ''content'' = JArr (map (JObj \<circ> fst) xs)"
    "fget b ''role'' = fget m ''role''" "fget b ''model'' = fget m ''model''" unfolding streamed_def by blast
  have mo: "model_name b = model_name m" using b(3) by (simp add: model_name_def)
  have r1: "raw_message parse (Body (JObj b)) = Inr (fget m ''role'', map (JObj \<circ> fst) xs, model_name m)"
    using raw_body [OF b(1)] a(3) b(2,3) mo by (simp add: lawful_start_def)
  have r2: "raw_message parse (Sse_text t) =
      (if xs = [] then Inl Provider_failed_stream else Inr (fget m ''role'', map (JObj \<circ> fst) xs, model_name m))"
    using stream_message [OF a(3-7)] by (simp add: raw_message_def)
  have role: "\<not> roleInvalid (fget m ''role'')" using a(3) by (simp add: lawful_start_def)
  show ?thesis
    using validated [OF a(4)]
    by (cases "xs = []")
       (simp_all add: history_entry_def a(1,2) assistantMessageFromEntry_def r1 r2 validateReplayableMessage_def role
         split: jsval.split)
qed

text \<open>C18. A turn is replayed the same whichever way its answer arrived: replace any stored bodies of
the history by conforming event streams of the same messages, framed as server-sent events in any
way (with or without \<open>event:\<close> lines, comments, other fields and blank lines, line feeds or carriage
returns with line feeds), cut into deltas in any way, with pings anywhere and citations among the
text, and the adapter builds the same request or refuses
for the same reason.\<close>

theorem transport_is_invisible:
  assumes "list_all2 (\<lambda>e e'. e' = e \<or> streamed parse e e') es es'"
  shows "anthropicBuildRequest parse (inp\<lparr> bi_entries := es' \<rparr>) = anthropicBuildRequest parse (inp\<lparr> bi_entries := es \<rparr>)"
proof -
  have "map (history_entry parse cur) es' = map (history_entry parse cur) es" for cur
    using assms by (induction rule: list_all2_induct) (auto simp: streamed_entry)
  moreover have "(es' = []) = (es = [])" using list_all2_lengthD [OF assms] by auto
  ultimately show ?thesis by (simp add: anthropicBuildRequest_def split: jsval.split option.split)
qed


text \<open>One answer over both transports.\<close>

definition hello :: fields where
  "hello = [(''type'', JStr ''text''), (''text'', JStr ''hi'')]"

definition hello_start :: fields where
  "hello_start = [(''role'', JStr ''assistant''), (''model'', JStr ''m'')]"

definition hello_parse :: "nat list \<Rightarrow> jsval option" where
  "hello_parse = map_of [(points ''s'', message_frame hello_start), (points ''b'', start_frame 0 (opened hello [Piece ''hi''])),
     (points ''d'', delta_frame 0 (text_piece (Piece ''hi''))), (points ''p'', JObj [(''type'', JStr ''ping'')]),
     (points ''e'', stop_frame 0), (points ''z'', JObj [(''type'', JStr ''message_stop'')])]"

definition hello_text :: "nat list" where
  "hello_text = sse_event (Some ''message_start'') (points ''s'') @ sse_event (Some ''content_block_start'') (points ''b'') @
     sse_event (Some ''ping'') (points ''p'') @ points '': still here'' @ [13, 10] @
     sse_event (Some ''content_block_delta'') (points ''d'') @ sse_event None (points ''e'') @ sse_event (Some ''message_stop'') (points ''z'')"

lemma hello_framed: "framed [points ''s'', points ''b'', points ''p'', points ''d'', points ''e'', points ''z''] hello_text"
proof -
  have "framed [points ''d'', points ''e'', points ''z'']
     (sse_event (Some ''content_block_delta'') (points ''d'') @ sse_event None (points ''e'') @ sse_event (Some ''message_stop'') (points ''z'') @ [])"
    by (intro framed_event framed.finished) (simp_all add: one_line_def unbroken_def points_def trimmed_point_def)
  then have "framed [points ''d'', points ''e'', points ''z''] (points '': still here'' @ [13, 10] @
     sse_event (Some ''content_block_delta'') (points ''d'') @ sse_event None (points ''e'') @ sse_event (Some ''message_stop'') (points ''z'') @ [])"
    by (rule framed.other_line) (simp_all add: unbroken_def points_def line_end_def)
  then show ?thesis
    unfolding hello_text_def append_Nil2 by (intro framed_event) (auto simp: one_line_def unbroken_def points_def trimmed_point_def)
qed

definition hello_out :: plan_output where
  "hello_out = \<lparr> po_attempt = ''a'', po_credential = None, po_completed = 0, po_kind = Response_output, po_contents = [] \<rparr>"

definition hello_entry :: "native_output \<Rightarrow> assembled_entry" where
  "hello_entry out = \<lparr> as_turn = ''t'', as_provider = ''anthropic'', as_model = ''m'', as_failed = False,
     as_user = JObj [(''messages'', JArr [])], as_assistant = Some (hello_out, out) \<rparr>"

definition hello_body :: fields where
  "hello_body = [(''role'', JStr ''assistant''), (''content'', JArr [JObj hello]), (''model'', JStr ''m'')]"

definition hello_input :: build_input where
  "hello_input = \<lparr> bi_entries = [], bi_config = JObj [(''model'', JStr ''m''), (''messages'', JArr [JNull])], bi_branch_model = ''m'',
     bi_credential = ''p'', bi_now = 0 \<rparr>"

lemma hello_streamed: "streamed hello_parse (hello_entry (Body (JObj hello_body))) (hello_entry (Sse_text hello_text))"
proof -
  let ?ps = "[Piece ''hi'']"
  let ?evs = "[message_frame hello_start, start_frame 0 (opened hello ?ps), JObj [(''type'', JStr ''ping'')],
    delta_frame 0 (text_piece (Piece ''hi'')), stop_frame 0, JObj [(''type'', JStr ''message_stop'')]]"
  let ?texts = "[points ''s'', points ''b'', points ''p'', points ''d'', points ''e'', points ''z'']"
  have kind: "is_text hello" by (simp add: is_text_def hello_def)
  have l: "lawful_block hello" "cut_of hello_parse hello ?ps"
    by (simp_all add: lawful_block_def blockPayloadInvalid_def hello_def is_str_def citationsInvalid_def tool_type_def Let_def cut_of_def is_text_def)
  have "conforming hello_start [(hello, ?ps)] [] ?evs"
    using kind by (simp add: conforming_def is_ping_def message_frames_def message_frame_def start_frame_def delta_frame_def stop_frame_def
        block_frames_def deltas_def closing_frames_def)
  moreover have "list_all2 (\<lambda>p e. hello_parse p = Some e) ?texts ?evs"
    by (simp add: points_def hello_parse_def)
  moreover have "lawful_start hello_start" by (simp add: lawful_start_def roleInvalid_def hello_start_def is_str_def)
  ultimately show ?thesis
    using l hello_framed unfolding streamed_def
    by (intro exI [of _ hello_out] exI [of _ hello_body] exI [of _ hello_start] exI [of _ "[(hello, ?ps)]"] exI [of _ "[]"] exI [of _ ?evs]
        exI [of _ ?texts] exI [of _ hello_text]) (simp add: hello_entry_def hello_body_def hello_start_def)
qed

theorem transport_is_invisible_witness:
  "anthropicBuildRequest hello_parse (hello_input\<lparr> bi_entries := [hello_entry (Sse_text hello_text)] \<rparr>) =
   Build_ok [(''model'', JStr ''m''), (''messages'', JArr [JObj [(''role'', JStr ''assistant''), (''content'', JArr [JObj hello])], JNull])]
     Stateless_replay"
proof -
  have "list_all2 (\<lambda>e e'. e' = e \<or> streamed hello_parse e e') [hello_entry (Body (JObj hello_body))] [hello_entry (Sse_text hello_text)]"
    using hello_streamed by simp
  from transport_is_invisible [OF this, of hello_input] show ?thesis
    by (simp add: anthropicBuildRequest_def hello_input_def nativeModelOf_def history_entry_def hello_entry_def assistantMessageFromEntry_def
        raw_message_def hello_body_def providerModelOf_def validateReplayableMessage_def roleInvalid_def hello_def is_str_def
        blockPayloadInvalid_def tool_type_def citationsInvalid_def produced_by_def Let_def)
qed

section \<open>What a built request contains\<close>

text \<open>
  What an entry adds to the history: the messages of its turn, and the answer as one assistant
  message of lawful blocks; only another model's thinking is left out, and a turn whose answer the
  provider itself reported as failed or empty adds its question alone.
\<close>

definition thinks :: "jsval \<Rightarrow> bool" where
  "thinks b \<longleftrightarrow> jget b ''type'' \<in> {JStr ''thinking'', JStr ''redacted_thinking''}"

definition replayed :: "(nat list \<Rightarrow> jsval option) \<Rightarrow> string \<Rightarrow> assembled_entry \<Rightarrow> jsval list \<Rightarrow> bool" where
  "replayed parse current e piece \<longleftrightarrow> as_provider e = ''anthropic'' \<and> (\<exists>ms. jget (as_user e) ''messages'' = JArr ms \<and>
     (case as_assistant e of None \<Rightarrow> piece = ms
      | Some (po, out) \<Rightarrow> (case raw_message parse out of
          Inl h \<Rightarrow> h = Provider_failed_stream \<and> piece = ms
        | Inr (role, content, m) \<Rightarrow>
            if content = [] then piece = ms
            else list_all (\<lambda>v. \<exists>b. v = JObj b \<and> lawful_block b) content \<and> (\<exists>kept. kept \<noteq> [] \<and>
              kept = (if produced_by e m = current then content else filter (\<lambda>b. \<not> thinks b) content) \<and>
              piece = ms @ [JObj [(''role'', JStr ''assistant''), (''content'', JArr kept)]]))))"

lemma validate_lawful: "validate_blocks vs = Inr () \<Longrightarrow> list_all (\<lambda>v. \<exists>b. v = JObj b \<and> lawful_block b) vs"
  by (induction vs) (auto simp: lawful_block_def split: jsval.splits if_splits)

lemma strip_thinks: "list_all (\<lambda>v. \<exists>b. v = JObj b \<and> lawful_block b) vs \<Longrightarrow> stripForeignThinking vs = filter (\<lambda>b. \<not> thinks b) vs"
  unfolding stripForeignThinking_def by (rule filter_cong) (auto simp: list_all_iff thinks_def isObject_def)

lemma validate_halts: "validate_blocks vs \<noteq> Inl Provider_failed_stream"
  by (induction vs) (auto split: jsval.splits if_splits)

lemma entry_replayed:
  assumes "history_entry parse current e = Inr piece"
  shows "replayed parse current e piece"
proof -
  from assms obtain ms where p: "as_provider e = ''anthropic''" "jget (as_user e) ''messages'' = JArr ms"
    by (auto simp: history_entry_def split: if_splits jsval.splits)
  show ?thesis
  proof (cases "as_assistant e")
    case None
    with assms p show ?thesis by (simp add: history_entry_def replayed_def)
  next
    case (Some ans)
    obtain po out where a: "as_assistant e = Some (po, out)" using Some by (cases ans) auto
    show ?thesis
    proof (cases "raw_message parse out")
      case (Inl h)
      with assms p a show ?thesis by (cases h) (simp_all add: history_entry_def replayed_def assistantMessageFromEntry_def)
    next
      case (Inr r)
      obtain role content m where r: "raw_message parse out = Inr (role, content, m)" using Inr by (cases r) auto
      show ?thesis
      proof (cases "validateReplayableMessage role content")
        case (Inl h)
        with assms p a r show ?thesis
          by (cases h) (auto simp: history_entry_def replayed_def assistantMessageFromEntry_def validateReplayableMessage_def validate_halts split: if_splits)
      next
        case (Inr u)
        then have v: "content \<noteq> []" "list_all (\<lambda>v. \<exists>b. v = JObj b \<and> lawful_block b) content"
          by (auto simp: validateReplayableMessage_def split: if_splits intro: validate_lawful)
        with assms p a r Inr strip_thinks [OF v(2)] show ?thesis
          by (auto simp: history_entry_def replayed_def assistantMessageFromEntry_def Let_def split: if_splits)
      qed
    qed
  qed
qed

text \<open>C21. A built request is the stored configuration with the history in front: every property
except \<open>messages\<close> is the one the turn was sent with, and \<open>messages\<close> is, for each entry of the
context in order, what that turn contributes, followed by the turn's own messages; nothing is
reordered, nothing is left out but thinking blocks of another model, and every replayed block is
one the provider accepts back.\<close>

theorem request_is_config_and_history:
  assumes "anthropicBuildRequest parse inp = Build_ok body cont" "bi_entries inp \<noteq> []"
  shows "\<exists>cfg own pieces. bi_config inp = JObj cfg \<and> fget cfg ''messages'' = JArr own \<and> (\<forall>k. k \<noteq> ''messages'' \<longrightarrow> fget body k = fget cfg k) \<and>
    fget body ''messages'' = JArr (concat pieces @ own) \<and>
    list_all2 (replayed parse (case nativeModelOf (bi_config inp) of Some m \<Rightarrow> m | None \<Rightarrow> bi_branch_model inp)) (bi_entries inp) pieces"
proof -
  let ?current = "case nativeModelOf (bi_config inp) of Some m \<Rightarrow> m | None \<Rightarrow> bi_branch_model inp"
  from assms obtain cfg where cfg: "bi_config inp = JObj cfg" by (auto simp: anthropicBuildRequest_def split: jsval.splits)
  with assms obtain own where own: "fget cfg ''messages'' = JArr own" by (auto simp: anthropicBuildRequest_def split: jsval.splits)
  from assms cfg own obtain pieces where "collectE (map (history_entry parse ?current) (bi_entries inp)) = Inr pieces"
    and body: "body = set_field ''messages'' (JArr (concat pieces @ own)) cfg"
    by (auto simp: anthropicBuildRequest_def split: sum.splits halt.splits)
  then have m: "map (history_entry parse ?current) (bi_entries inp) = map Inr pieces" by (simp only: collectE_Inr_iff)
  have "list_all2 (replayed parse ?current) (bi_entries inp) pieces"
  proof (rule list_all2_all_nthI)
    show len: "length (bi_entries inp) = length pieces" using arg_cong [OF m, of length] by simp
    fix n assume n: "n < length (bi_entries inp)"
    with len have "map (history_entry parse ?current) (bi_entries inp) ! n = map Inr pieces ! n" by (simp only: m)
    with n len have "history_entry parse ?current (bi_entries inp ! n) = Inr (pieces ! n)" by simp
    then show "replayed parse ?current (bi_entries inp ! n) (pieces ! n)" by (rule entry_replayed)
  qed
  with cfg own body show ?thesis by auto
qed


theorem request_is_config_and_history_witness:
  "\<exists>pieces. JArr [JObj [(''role'', JStr ''assistant''), (''content'', JArr [JObj hello])], JNull] = JArr (concat pieces @ [JNull]) \<and>
     list_all2 (replayed hello_parse ''m'') [hello_entry (Body (JObj hello_body))] pieces"
proof -
  let ?inp = "hello_input\<lparr> bi_entries := [hello_entry (Body (JObj hello_body))] \<rparr>"
  let ?body = "[(''model'', JStr ''m''), (''messages'', JArr [JObj [(''role'', JStr ''assistant''), (''content'', JArr [JObj hello])], JNull])]"
  have "anthropicBuildRequest hello_parse ?inp = Build_ok ?body Stateless_replay"
    by (simp add: anthropicBuildRequest_def hello_input_def nativeModelOf_def history_entry_def hello_entry_def assistantMessageFromEntry_def
        raw_message_def hello_body_def providerModelOf_def validateReplayableMessage_def roleInvalid_def hello_def is_str_def
        blockPayloadInvalid_def tool_type_def citationsInvalid_def produced_by_def Let_def)
  from request_is_config_and_history [OF this] obtain cfg own pieces where c: "bi_config ?inp = JObj cfg" "fget cfg ''messages'' = JArr own"
    "fget ?body ''messages'' = JArr (concat pieces @ own)"
    "list_all2 (replayed hello_parse (case nativeModelOf (bi_config ?inp) of Some m \<Rightarrow> m | None \<Rightarrow> bi_branch_model ?inp)) (bi_entries ?inp) pieces"
    by auto
  from c(1,2) have "own = [JNull]" by (auto simp: hello_input_def)
  with c(3,4) show ?thesis by (auto simp: hello_input_def nativeModelOf_def)
qed

section \<open>A delta type the table inherits\<close>

lemma build_throws:
  assumes "bi_config inp = JObj cfg" "fget cfg ''messages'' = JArr own" "bi_entries inp = e # es" "as_provider e = ''anthropic''"
    "jget (as_user e) ''messages'' = JArr ms" "as_assistant e = Some (po, Sse_text t)"
    "assistantMessageFromStream parse t = Inl Runtime_type_error"
  shows "anthropicBuildRequest parse inp = Build_throws_type_error"
  using assms by (simp add: anthropicBuildRequest_def history_entry_def assistantMessageFromEntry_def raw_message_def)

text \<open>C25. A capture can make the adapter throw instead of refuse: if, inside an open block, the
captured stream has a delta whose type names a property every object inherits, such as
\<open>constructor\<close> or \<open>toString\<close>, then whatever follows, the build ends in an exception of the runtime,
and not in the refusal the code intends for a delta type it does not know.\<close>

theorem inherited_delta_type_throws:
  assumes ty: "ty \<in> set object_prototype" and m: "lawful_start m" and b: "is_str (fget b ''type'')" "\<not> blockPayloadInvalid b Law_start"
    and texts: "framed texts t" "list_all2 (\<lambda>p e. parse p = Some e) texts
        (message_frame m # start_frame 0 b # delta_frame 0 ((''type'', JStr ty) # d) # rest)"
    and inp: "bi_config inp = JObj cfg" "fget cfg ''messages'' = JArr own" "bi_entries inp = e # es" "as_provider e = ''anthropic''"
      "jget (as_user e) ''messages'' = JArr ms" "as_assistant e = Some (po, Sse_text t)"
  shows "anthropicBuildRequest parse inp = Build_throws_type_error"
proof -
  from start_message [OF m] obtain s where s: "on_event parse (message_frame m) reassembly_start = Inr s"
    "between (fget m ''role'') (model_name m) [] s" by blast
  from start_event [OF s(2) b] have st: "on_event parse (start_frame 0 b) s = Inr (started_block 0 b s)"
    "inside 0 b (started_block 0 b s)" "idx 0 \<notin> set (rs_signed (started_block 0 b s))" by simp_all
  have "delta_fits ty (fget b ''type'') = Inl Runtime_type_error"
    using ty b(1) by (auto simp: delta_fits_def object_prototype_def expectation_def Let_def)
  then have "on_event parse (delta_frame 0 ((''type'', JStr ty) # d)) (started_block 0 b s) = Inl Runtime_type_error"
    by (subst delta_event [OF st(2,3), where ty = ty]) simp_all
  with s(1) st(1) have "assistantMessageFromStream parse t = Inl Runtime_type_error"
    by (simp add: assistantMessageFromStream_def parse_events [OF texts])
  with inp show ?thesis by (rule build_throws)
qed

definition odd_parse :: "nat list \<Rightarrow> jsval option" where
  "odd_parse = map_of [(points ''s'', message_frame hello_start), (points ''b'', start_frame 0 hello),
     (points ''d'', delta_frame 0 [(''type'', JStr ''constructor'')])]"

definition odd_text :: "nat list" where
  "odd_text = sse_event (Some ''message_start'') (points ''s'') @ sse_event (Some ''content_block_start'') (points ''b'') @
     sse_event None (points ''d'')"

theorem inherited_delta_type_throws_witness:
  "anthropicBuildRequest odd_parse (hello_input\<lparr> bi_entries := [hello_entry (Sse_text odd_text)] \<rparr>)
   = Build_throws_type_error"
proof (rule inherited_delta_type_throws [where ty = "''constructor''" and m = hello_start and b = hello and d = "[]" and rest = "[]" and
      t = odd_text and texts = "[points ''s'', points ''b'', points ''d'']" and cfg = "[(''model'', JStr ''m''), (''messages'', JArr [JNull])]" and
      own = "[JNull]" and ms = "[]" and es = "[]" and po = hello_out and
      e = "hello_entry (Sse_text odd_text)"])
  show "''constructor'' \<in> set object_prototype" by (simp add: object_prototype_def)
  show "lawful_start hello_start" by (simp add: lawful_start_def roleInvalid_def hello_start_def is_str_def)
  show "is_str (fget hello ''type'')" "\<not> blockPayloadInvalid hello Law_start"
    by (simp_all add: hello_def is_str_def blockPayloadInvalid_def tool_type_def citationsInvalid_def Let_def)
  show "list_all2 (\<lambda>p e. odd_parse p = Some e) [points ''s'', points ''b'', points ''d'']
      [message_frame hello_start, start_frame 0 hello, delta_frame 0 [(''type'', JStr ''constructor'')]]"
    by (simp add: points_def odd_parse_def)
  have "framed [points ''s'', points ''b'', points ''d''] (sse_event (Some ''message_start'') (points ''s'') @
     sse_event (Some ''content_block_start'') (points ''b'') @ sse_event None (points ''d'') @ [])"
    by (intro framed_event framed.finished) (simp_all add: one_line_def unbroken_def points_def trimmed_point_def)
  then show "framed [points ''s'', points ''b'', points ''d''] odd_text" by (simp add: odd_text_def)
qed (simp_all add: hello_input_def hello_entry_def)

end
