(* ===== verification/Openai_Chain.thy ===== *)
theory Openai_Chain
  imports Adapter_Openai
begin

text \<open>
  When the OpenAI adapter chains and what it then sends: the anchor is the last answer of the
  history, replayable in itself, and the chained request continues it with exactly the items the
  stateless replay would put after it.
\<close>

section \<open>The anchor\<close>

text \<open>An entry whose answer the provider itself declared failed, or that has none.\<close>

definition answerless :: "(nat list \<Rightarrow> jsval option) \<Rightarrow> assembled_entry \<Rightarrow> bool" where
  "answerless parse e \<longleftrightarrow> (case as_assistant e of None \<Rightarrow> True | Some (po, out) \<Rightarrow> terminalResponseOf parse out = Inr Provider_failed_response)"

lemma scan_found:
  "scan_anchor parse es after failed = Inr (Some a, failed') \<Longrightarrow> \<exists>earlier between out outs.
     es = rev between @ an_entry a # earlier \<and> an_after a = between @ after \<and> list_all (answerless parse) between \<and>
     as_assistant (an_entry a) = Some (an_output a, out) \<and> terminalResponseOf parse out = Inr (Terminal (an_terminal a) outs) \<and>
     (\<not> failed' \<longrightarrow> \<not> failed \<and> list_all (\<lambda>e. as_assistant e = None) between)"
proof (induction parse es after failed rule: scan_anchor.induct)
  case (2 parse e earlier after failed)
  show ?case
  proof (cases "as_assistant e")
    case None
    with 2(1) 2(3) obtain rest btw out outs where "earlier = rev btw @ an_entry a # rest" "an_after a = btw @ e # after"
      "list_all (answerless parse) btw" "as_assistant (an_entry a) = Some (an_output a, out)"
      "terminalResponseOf parse out = Inr (Terminal (an_terminal a) outs)"
      "\<not> failed' \<longrightarrow> \<not> failed \<and> list_all (\<lambda>e. as_assistant e = None) btw" by fastforce
    moreover have "answerless parse e" using None by (simp add: answerless_def)
    ultimately show ?thesis using None by - (rule exI [of _ rest], rule exI [of _ "btw @ [e]"], rule exI [of _ out], rule exI [of _ outs], auto)
  next
    case (Some ans)
    obtain po out0 where ans: "as_assistant e = Some (po, out0)" using Some by (cases ans) auto
    with 2(3) obtain r where r: "terminalResponseOf parse out0 = Inr r" by (auto simp: bindE_Inr_iff)
    show ?thesis
    proof (cases r)
      case (Terminal b outs)
      with 2(3) ans r have "a = \<lparr> an_entry = e, an_output = po, an_terminal = b, an_after = after \<rparr>" "failed' = failed" by simp_all
      with ans r Terminal show ?thesis by - (rule exI [of _ earlier], rule exI [of _ "[]"], rule exI [of _ out0], rule exI [of _ outs], simp)
    next
      case Provider_failed_response
      with 2(3) ans r have "scan_anchor parse earlier (e # after) True = Inr (Some a, failed')" by simp
      with 2(2) [OF ans refl] obtain rest btw out outs where "earlier = rev btw @ an_entry a # rest" "an_after a = btw @ e # after"
        "list_all (answerless parse) btw" "as_assistant (an_entry a) = Some (an_output a, out)"
        "terminalResponseOf parse out = Inr (Terminal (an_terminal a) outs)" "failed'" by fastforce
      moreover have "answerless parse e" using ans r Provider_failed_response by (simp add: answerless_def)
      ultimately show ?thesis
        by - (rule exI [of _ rest], rule exI [of _ "btw @ [e]"], rule exI [of _ out], rule exI [of _ outs], auto)
    qed
  qed
qed simp

text \<open>Everything a chained request rests on.\<close>

definition chain_ok ::
  "(nat list \<Rightarrow> jsval option) \<Rightarrow> build_input \<Rightarrow> fields \<Rightarrow> assembled_entry list \<Rightarrow> anchor \<Rightarrow> string \<Rightarrow> bool" where
  "chain_ok parse inp cfg before a i \<longleftrightarrow>
     bi_entries inp = before @ an_entry a # an_after a \<and>
     (\<exists>out outs. as_assistant (an_entry a) = Some (an_output a, out) \<and> terminalResponseOf parse out = Inr (Terminal (an_terminal a) outs)) \<and>
     responseIdOf (an_terminal a) = Some i \<and> isChainableTerminal (an_terminal a) \<and>
     list_all (\<lambda>e. as_assistant e = None \<and> \<not> as_failed e) (an_after a) \<and>
     po_credential (an_output a) = Some (bi_credential inp) \<and> bi_now inp - po_completed (an_output a) < ANCHOR_MAX_AGE_MS \<and>
     configStoreAllowsChaining (as_user (an_entry a)) \<and> configStoreAllowsChaining (JObj cfg) \<and>
     list_all (\<lambda>e. as_provider e = ''openai'' \<and> \<not> client_continuation (as_user e)) (bi_entries inp)"

lemma no_refusal: "history_refusal es = None \<Longrightarrow> list_all (\<lambda>e. as_provider e = ''openai'' \<and> \<not> client_continuation (as_user e)) es"
  by (induction es) (auto split: if_splits)

lemma refused_or_ok: "refused_or c r = Build_ok b c' \<longleftrightarrow> r = Inr b \<and> c' = c"
  by (auto simp: refused_or_def split: sum.splits halt.splits)

lemma chained_build:
  assumes "openaiBuildRequest parse inp = Build_ok body (Response_chain i)"
  shows "\<exists>cfg before a. bi_config inp = JObj cfg \<and> chain_ok parse inp cfg before a i \<and> chained_body cfg a i = Inr body"
proof -
  from assms obtain cfg where cfg: "bi_config inp = JObj cfg" by (auto simp: openaiBuildRequest_def split: jsval.splits)
  with assms have h: "history_refusal (bi_entries inp) = None"
    by (auto simp: openaiBuildRequest_def split: if_splits option.splits)
  with assms cfg obtain scan where s: "scan_anchor parse (rev (bi_entries inp)) [] False = Inr scan"
    by (auto simp: openaiBuildRequest_def split: if_splits sum.splits halt.splits)
  with assms cfg h obtain a where c: "chain_anchor inp cfg scan = Some (a, i)" and b: "chained_body cfg a i = Inr body"
    by (auto simp: openaiBuildRequest_def refused_or_ok split: if_splits option.splits)
  from c obtain failed where scan: "scan = (Some a, failed)" and chain: "responseIdOf (an_terminal a) = Some i" "\<not> failed"
    "\<not> list_ex as_failed (an_after a)" "isChainableTerminal (an_terminal a)" "po_credential (an_output a) = Some (bi_credential inp)"
    "configStoreAllowsChaining (as_user (an_entry a))" "configStoreAllowsChaining (JObj cfg)"
    "bi_now inp - po_completed (an_output a) < ANCHOR_MAX_AGE_MS"
    by (auto simp: chain_anchor_def split: prod.splits option.splits if_splits)
  from scan_found [OF s [unfolded scan]] chain(2) obtain earlier btw out outs where f: "rev (bi_entries inp) = rev btw @ an_entry a # earlier"
    "an_after a = btw" "as_assistant (an_entry a) = Some (an_output a, out)"
    "terminalResponseOf parse out = Inr (Terminal (an_terminal a) outs)" "list_all (\<lambda>e. as_assistant e = None) btw" by auto
  from arg_cong [OF f(1), of rev] f(2) have es: "bi_entries inp = rev earlier @ an_entry a # an_after a" by simp
  have "chain_ok parse inp cfg (rev earlier) a i"
    using es f chain no_refusal [OF h] by (auto simp: chain_ok_def list_all_iff list_ex_iff)
  with cfg b show ?thesis by blast
qed

lemma terminal_objects:
  assumes "terminalResponseOf parse out = Inr (Terminal b outs)"
  shows "fget b ''output'' = JArr outs \<and> list_all isObject outs"
proof -
  have t: "fget c ''output'' = JArr vs \<and> list_all isObject vs" if "terminalOf c = Inr (Terminal b' vs)" "b' = c" for b' c vs
    using that by (auto simp: terminalOf_def list_all_iff list_ex_iff split: jsval.splits if_splits)
  have same: "b' = c" if "terminalOf c = Inr (Terminal b' vs)" for b' c vs
    using that by (auto simp: terminalOf_def split: jsval.splits if_splits)
  from assms have "\<exists>c. terminalOf c = Inr (Terminal b outs)"
    by (auto simp: terminalResponseOf_def bindE_Inr_iff split: native_output.splits jsval.splits option.splits if_splits)
  with t same show ?thesis by blast
qed

text \<open>C20. A request is chained only from an answer GovAI could replay itself: the anchor is the last
answer of the history, nothing after it has an answer or a provider failure, its capture has a
terminal response whose output is an array of objects, it is fully completed and not older than
fourteen days, it was made with the credential that will sign this request, neither it nor this
turn opted out of storage, and no turn of the history is bound to a client's own continuation or
to another provider.\<close>

theorem chained_only_from_replayable_answer:
  assumes "openaiBuildRequest parse inp = Build_ok body (Response_chain i)"
  shows "\<exists>before e after po out b outs cfg. bi_config inp = JObj cfg \<and> bi_entries inp = before @ e # after \<and> as_assistant e = Some (po, out) \<and>
    terminalResponseOf parse out = Inr (Terminal b outs) \<and> fget b ''output'' = JArr outs \<and> list_all isObject outs \<and>
    fget b ''id'' = JStr i \<and> isChainableTerminal b \<and> list_all (\<lambda>x. as_assistant x = None \<and> \<not> as_failed x) after \<and>
    po_credential po = Some (bi_credential inp) \<and> bi_now inp - po_completed po < 1209600000 \<and>
    configStoreAllowsChaining (as_user e) \<and> configStoreAllowsChaining (JObj cfg) \<and>
    list_all (\<lambda>x. as_provider x = ''openai'' \<and> \<not> client_continuation (as_user x)) (bi_entries inp)"
proof -
  from chained_build [OF assms] obtain cfg before a where c: "bi_config inp = JObj cfg" "chain_ok parse inp cfg before a i" by blast
  from c(2) obtain out outs where o: "as_assistant (an_entry a) = Some (an_output a, out)"
    "terminalResponseOf parse out = Inr (Terminal (an_terminal a) outs)" by (auto simp: chain_ok_def)
  have "fget (an_terminal a) ''id'' = JStr i"
    using c(2) by (auto simp: chain_ok_def responseIdOf_def split: jsval.splits if_splits)
  with c o terminal_objects [OF o(2)] show ?thesis
    by - (rule exI [of _ before], rule exI [of _ "an_entry a"], rule exI [of _ "an_after a"], rule exI [of _ "an_output a"], rule exI [of _ out], rule exI [of _ "an_terminal a"], rule exI [of _ outs], rule exI [of _ cfg], auto simp: chain_ok_def ANCHOR_MAX_AGE_MS_def)
qed

text \<open>A history of two turns, the second without an answer, and a third that continues it.\<close>

definition story_response :: fields where
  "story_response = [(''id'', JStr ''r1''), (''status'', JStr ''completed''), (''output'', JArr [JObj [(''type'', JStr ''message'')]])]"

definition story_entry :: "string \<Rightarrow> (plan_output \<times> native_output) option \<Rightarrow> assembled_entry" where
  "story_entry q ans = \<lparr> as_turn = q, as_provider = ''openai'', as_model = ''m'', as_failed = False,
     as_user = JObj [(''input'', JStr q)], as_assistant = ans \<rparr>"

definition story :: build_input where
  "story = \<lparr> bi_entries = [story_entry ''q1'' (Some (\<lparr> po_attempt = ''a'', po_credential = Some ''p'', po_completed = 0,
       po_kind = Response_output, po_contents = [] \<rparr>, Body (JObj story_response))), story_entry ''q2'' None],
     bi_config = JObj [(''input'', JStr ''q3'')], bi_branch_model = ''m'', bi_credential = ''p'', bi_now = 5 \<rparr>"

definition user_item :: "string \<Rightarrow> jsval" where
  "user_item q = JObj [(''role'', JStr ''user''), (''content'', JStr q)]"

lemmas story_eval = story_def story_entry_def story_response_def user_item_def terminalResponseOf_def statusOf_def terminalOf_def
  inputItemsOf_def isObject_def

lemma story_chains: "openaiBuildRequest (\<lambda>_. None) story =
    Build_ok [(''input'', JArr [user_item ''q2'', user_item ''q3'']), (''previous_response_id'', JStr ''r1'')] (Response_chain ''r1'')"
  by (simp add: openaiBuildRequest_def story_eval carries_def client_continuation_def chain_anchor_def
      responseIdOf_def isChainableTerminal_def configStoreAllowsChaining_def ANCHOR_MAX_AGE_MS_def chained_body_def inputs_of_def
      refused_or_def FAILED_RESPONSE_STATUSES_def TERMINAL_RESPONSE_STATUSES_def)

theorem chained_only_from_replayable_answer_witness:
  "\<exists>before e after po out b outs. bi_entries story = before @ e # after \<and> as_assistant e = Some (po, out) \<and>
     terminalResponseOf (\<lambda>_. None) out = Inr (Terminal b outs) \<and> fget b ''id'' = JStr ''r1'' \<and> list_all isObject outs \<and>
     list_all (\<lambda>x. as_assistant x = None) after"
  using chained_only_from_replayable_answer [OF story_chains] by (auto simp: list_all_iff) blast

section \<open>Chaining and replaying say the same\<close>

lemma replay_append:
  "replay_history parse (xs @ ys) = bindE (replay_history parse xs) (\<lambda>u. bindE (replay_history parse ys) (\<lambda>v. Inr (u @ v)))"
proof -
  have "collectE (xs' @ ys') = bindE (collectE xs') (\<lambda>u. bindE (collectE ys') (\<lambda>v. Inr (u @ v)))" for xs' ys' :: "(halt + jsval list) list"
    by (induction xs' rule: collectE.induct) (auto simp: bindE_def split: sum.split)
  then show ?thesis by (simp add: replay_history_def bindE_def split: sum.split)
qed

lemma replay_questions: "list_all (\<lambda>e. as_assistant e = None) es \<Longrightarrow> replay_history parse es = inputs_of es"
proof -
  assume "list_all (\<lambda>e. as_assistant e = None) es"
  then have "map (replay_entry parse) es = map (\<lambda>e. inputItemsOf (as_user e) Origin_history) es"
    by (auto simp: list_all_iff replay_entry_def bindE_def split: sum.split)
  then show ?thesis unfolding replay_history_def inputs_of_def by (simp only:)
qed

lemma replay_last:
  assumes "replay_history parse (before @ [e]) = Inr held" "as_assistant e = Some (po, out)"
    "terminalResponseOf parse out = Inr (Terminal b outs)"
  shows "\<exists>pre. held = pre @ outs"
proof -
  from assms(1) obtain u v where h: "replay_history parse before = Inr u" "replay_history parse [e] = Inr v" "held = u @ v"
    by (auto simp: replay_append bindE_Inr_iff)
  from h(2) assms(2,3) have "\<exists>q. v = q @ outs"
    by (cases "inputItemsOf (as_user e) Origin_history") (auto simp: replay_history_def replay_entry_def)
  with h(3) show ?thesis by auto
qed

text \<open>C19. Chaining sends what replaying would send. The history splits at one entry, the one whose
answer has the response id the request chains from and is the last answer: take what the provider
holds behind that response to be the replay of the history up to and with that entry, which ends
with the entry's own output. Then that, followed by the input of the chained request, is exactly
the input of the stateless replay of the whole history, item for item: the questions after the
anchor and the input of this turn, each once; and no other property of the configuration is
touched.\<close>

theorem chain_continues_the_replay:
  assumes "openaiBuildRequest parse inp = Build_ok body (Response_chain i)" "bi_config inp = JObj cfg"
    "replay_history parse (bi_entries inp) = Inr whole" "inputItemsOf (JObj cfg) Origin_own_turn = Inr own"
  shows "\<exists>before e after po out b outs pre items. bi_entries inp = before @ e # after \<and>
    as_assistant e = Some (po, out) \<and> terminalResponseOf parse out = Inr (Terminal b outs) \<and> fget b ''id'' = JStr i \<and>
    list_all (\<lambda>e. as_assistant e = None) after \<and>
    replay_history parse (before @ [e]) = Inr (pre @ outs) \<and>
    inputItemsOf (JObj body) Origin_own_turn = Inr items \<and> (pre @ outs) @ items = whole @ own \<and>
    fget body ''previous_response_id'' = JStr i \<and>
    (\<forall>k. k \<noteq> ''input'' \<and> k \<noteq> ''previous_response_id'' \<longrightarrow> fget body k = fget cfg k)"
proof -
  from chained_build [OF assms(1)] assms(2) obtain before a where c: "chain_ok parse inp cfg before a i" "chained_body cfg a i = Inr body" by auto
  let ?e = "an_entry a"
  have es: "bi_entries inp = before @ ?e # an_after a" and quiet: "list_all (\<lambda>e. as_assistant e = None) (an_after a)"
    using c(1) by (auto simp: chain_ok_def list_all_iff)
  from c(1) obtain out outs where o: "as_assistant ?e = Some (an_output a, out)" "terminalResponseOf parse out = Inr (Terminal (an_terminal a) outs)"
    by (auto simp: chain_ok_def)
  have id: "fget (an_terminal a) ''id'' = JStr i"
    using c(1) by (auto simp: chain_ok_def responseIdOf_def split: jsval.splits if_splits)
  have "replay_history parse ((before @ [?e]) @ an_after a) = Inr whole" using assms(3) es by simp
  then obtain held tail where r: "replay_history parse (before @ [?e]) = Inr held" "replay_history parse (an_after a) = Inr tail"
    "whole = held @ tail" unfolding replay_append [of parse "before @ [?e]"] by (auto simp: bindE_Inr_iff)
  from replay_last [OF r(1) o] obtain pre where pre: "held = pre @ outs" by blast
  have trailing: "inputs_of (an_after a) = Inr tail" using r(2) quiet by (simp add: replay_questions)
  have "\<exists>items. inputItemsOf (JObj body) Origin_own_turn = Inr items \<and> held @ items = whole @ own \<and>
    fget body ''previous_response_id'' = JStr i \<and> (\<forall>k. k \<noteq> ''input'' \<and> k \<noteq> ''previous_response_id'' \<longrightarrow> fget body k = fget cfg k)"
  proof (cases "tail = []")
    case True
    with c(2) trailing have b: "body = set_field ''previous_response_id'' (JStr i) cfg" by (simp add: chained_body_def)
    with assms(4) have "inputItemsOf (JObj body) Origin_own_turn = Inr own" by (simp add: inputItemsOf_def isObject_def)
    with r True b show ?thesis by simp
  next
    case False
    with c(2) trailing assms(4) have b: "body = set_field ''previous_response_id'' (JStr i) (set_field ''input'' (JArr (tail @ own)) cfg)"
      by (simp add: chained_body_def)
    then have "inputItemsOf (JObj body) Origin_own_turn = Inr (tail @ own)" by (simp add: inputItemsOf_def isObject_def)
    with r b show ?thesis by simp
  qed
  then obtain items where sent: "inputItemsOf (JObj body) Origin_own_turn = Inr items" "(pre @ outs) @ items = whole @ own"
    "fget body ''previous_response_id'' = JStr i" "\<forall>k. k \<noteq> ''input'' \<and> k \<noteq> ''previous_response_id'' \<longrightarrow> fget body k = fget cfg k"
    by (auto simp: pre)
  have held: "replay_history parse (before @ [?e]) = Inr (pre @ outs)" using r(1) pre by simp
  show ?thesis
    by (rule exI [of _ before], rule exI [of _ ?e], rule exI [of _ "an_after a"], rule exI [of _ "an_output a"], rule exI [of _ out],
        rule exI [of _ "an_terminal a"], rule exI [of _ outs], rule exI [of _ pre], rule exI [of _ items])
      (intro conjI es o id quiet held sent)
qed

lemma story_replay: "replay_history (\<lambda>_. None) (bi_entries story) =
    Inr [user_item ''q1'', JObj [(''type'', JStr ''message'')], user_item ''q2'']"
  by (simp add: replay_history_def replay_entry_def story_eval FAILED_RESPONSE_STATUSES_def TERMINAL_RESPONSE_STATUSES_def)

theorem chain_continues_the_replay_witness:
  "\<exists>before e after b outs pre. bi_entries story = before @ e # after \<and> fget b ''id'' = JStr ''r1'' \<and>
     replay_history (\<lambda>_. None) (before @ [e]) = Inr (pre @ outs) \<and>
     (pre @ outs) @ [user_item ''q2'', user_item ''q3''] =
       [user_item ''q1'', JObj [(''type'', JStr ''message'')], user_item ''q2'', user_item ''q3'']"
proof -
  have own: "inputItemsOf (JObj [(''input'', JStr ''q3'')]) Origin_own_turn = Inr [user_item ''q3'']"
    by (simp add: inputItemsOf_def isObject_def user_item_def)
  have cfg: "bi_config story = JObj [(''input'', JStr ''q3'')]" by (simp add: story_def)
  from chain_continues_the_replay [OF story_chains cfg story_replay own] obtain before e after po out b outs pre items where c:
    "bi_entries story = before @ e # after" "fget b ''id'' = JStr ''r1''" "replay_history (\<lambda>_. None) (before @ [e]) = Inr (pre @ outs)"
    "inputItemsOf (JObj [(''input'', JArr [user_item ''q2'', user_item ''q3'']), (''previous_response_id'', JStr ''r1'')]) Origin_own_turn = Inr items"
    "(pre @ outs) @ items = [user_item ''q1'', JObj [(''type'', JStr ''message'')], user_item ''q2''] @ [user_item ''q3'']"
    by (elim exE conjE) (rule that, assumption+)
  from c(4) have "items = [user_item ''q2'', user_item ''q3'']" by (simp add: inputItemsOf_def isObject_def)
  with c(5) have "(pre @ outs) @ [user_item ''q2'', user_item ''q3''] =
      [user_item ''q1'', JObj [(''type'', JStr ''message'')], user_item ''q2'', user_item ''q3'']" by simp
  with c(1-3) show ?thesis by blast
qed

end
