(* ===== verification/Spec2Isabelle.thy ===== *)
theory Spec2Isabelle
  imports Sealer Run_Replay Dispatch_Recovery Governance Native_Policy Dlp Turn_Claims Turn_Build Anthropic_Replay
    Openai_Chain
begin

text \<open>
  A model of the audit, dispatch, conversation and governance core of the platform.

  \<^bold>\<open>How the parts interact.\<close> A request reaches a provider surface
  (\<open>packages/provider-anthropic\<close>, \<open>packages/provider-openai\<close>), which scans its text
  (\<open>packages/dlp-br\<close>, \<open>apps/api/src/pipeline/dlp.ts\<close>), classifies its tools and beta tokens and
  asks \<open>packages/core-governance\<close> for the risk class and the enforcement mode. A run is executed
  by the durable dispatch protocol of \<open>apps/api/src/pipeline/run-dispatch-state.ts\<close>. Every step
  that matters is recorded as an event of a tenant's HMAC chain (\<open>packages/core-audit\<close>), either
  directly by \<open>auditAppend\<close> inside the caller's transaction, or through the capture outbox, whose
  rows the sealer (\<open>apps/audit-sealer\<close>) turns into events in order.

  \<^bold>\<open>Reading the model.\<close> A table is a list of records in a database record, an exported function
  that runs one transaction is one HOL function from the database to \<open>error + result \<times> database\<close>;
  \<open>Inl\<close> is a raised error, and because the caller rolls back, an error carries no database. Row
  level security is a visibility predicate on rows, unique keys, checks and triggers are tests
  on the new row. Clocks and \<open>randomUUID()\<close> are arguments. Step relations
  (\<open>dispatch_step\<close>, \<open>worker_step\<close>, \<open>turn_step\<close>) interleave the transactions of any number of
  sessions; a crash is a session that makes no further step.

  \<^bold>\<open>Theories.\<close>

  \<^item> \<open>Prelude\<close>: results, bytes, hexadecimal, UUID syntax, UTF-8, dates, string helpers; the
    interface contracts \<open>kept_invariant\<close> (an invariant kept by every step), \<open>append_log\<close> (a log
    that only grows) and \<open>ranked\<close> (the maximum over a finite vocabulary).
  \<^item> \<open>Canonical_Json\<close>: \<open>core-audit/src/canonical-json.ts\<close>. The canonical text is independent of
    key order and determines the value.
  \<^item> \<open>Audit_Chain\<close>: \<open>append.ts\<close>, \<open>verify.ts\<close>, \<open>hmac.ts\<close>, \<open>lock-key.ts\<close> and migration 0001.
    Chains built by appends verify; the verifier reports exactly the first bad row; the head HMAC
    commits to the chain; an explicit event id makes a retry idempotent; what the verifier does
    not see.
  \<^item> \<open>Capture_Outbox\<close>: \<open>capture.ts\<close>, migrations 0025 and 0026. Captures are numbered without
    gaps, sealed in order, and retried idempotently; a failed capture stalls its chain.
  \<^item> \<open>Sealer\<close>: \<open>sealer.ts\<close>, \<open>sealer-event-id.ts\<close> and the recovery, drain and backoff of
    \<open>apps/audit-sealer\<close>. Every sealed capture has exactly one event; recovery never duplicates.
  \<^item> \<open>Audit_Progress\<close>: sealing drains a chain without failures.
  \<^item> \<open>Run_Dispatch\<close>, \<open>Run_Lifecycle\<close>, \<open>Run_Replay\<close>: every transaction of
    \<open>run-dispatch-state.ts\<close> with its event schemas and the state matrix of migration 0029; the
    reachable states, one boundary per run, one executor per run, results checked on replay.
  \<^item> \<open>Dispatch_Recovery\<close>: \<open>run-dispatch-recovery.ts\<close> and its configuration; a complete sweep
    leaves no stale run, the worker never holds more clients than its cap.
  \<^item> \<open>Governance\<close>: risk escalation, the enforcement matrix, beta tokens, capability resolution,
    roles. \<open>Native_Policy\<close>: tool classifiers, beta headers, text extraction, outbound headers and
    the governed decision of both providers. \<open>Dlp\<close>: checksums, detection, span merge, redaction
    and the policy decision.
  \<^item> \<open>Turn_Store\<close>: the tables of a durable conversation with the checks and triggers of their
    migrations, and \<open>ai-conversations/execution/execution-store.ts\<close>, one definition per function.
    \<open>Turn_Reservation\<close>: sending a turn (\<open>turn-service.ts\<close>, \<open>turn-store.ts\<close>, \<open>send-intent.ts\<close>,
    \<open>dispatch-registry.ts\<close>); a repeated send is a read of the first. \<open>Turn_Executor\<close>:
    \<open>execute-turn.ts\<close>, one definition per transaction and per stretch of code between two of
    them, the phases of a worker, and the step relation \<open>turn_step\<close> of the whole system.
  \<^item> \<open>Turn_Safety\<close> and \<open>Turn_World\<close>: how a row can move, what each phase knows of its row, and the
    invariant of any interleaving of workers, sends, stops, rotations and clock ticks.
    \<open>Turn_Run\<close> is a sample run that sends and completes; the witnesses are its states.
    \<open>Turn_Claims\<close>: a request is sent at most once, the recorded verdict agrees with what was
    sent, no statement of a worker is refused by the schema. \<open>Turn_Branch\<close>: the turns of a branch
    run one after the other, on a context that is still fresh when the boundary is crossed, and a
    worker that lost its claim changes nothing.
  \<^item> \<open>Turn_Items\<close> and \<open>Turn_Output\<close>: every item of the tables has its home and its content, and the
    output of a completed attempt, decrypted, is byte for byte what the provider sent.
  \<^item> \<open>Text_Decode\<close>: \<open>TextDecoder\<close> in its fatal mode, with the byte order mark. \<open>Turn_Reads\<close>: reading
    turns back (\<open>getTurn\<close> and the projections of \<open>turn-service.ts\<close>); a completed answer reads back
    as the bytes that came in, except that a leading mark of a chunk is lost.
  \<^item> \<open>Turn_Context\<close>: \<open>execution/durable-context.ts\<close>, the ancestry walk, the selection, the
    eligibility, the budget, and the decryption and parsing of the plan; the plan is the whole
    history of the branch or an error. \<open>Turn_History\<close>: the loader on the tables the executor can
    reach; which of its errors can occur, and that an empty stream closes its branch.
  \<^item> \<open>Adapter_Base\<close>, \<open>Adapter_Anthropic\<close>, \<open>Adapter_Openai\<close>: the conversation adapters
    (\<open>execution/adapters\<close>), the reassembly of an event stream, the laws of a replayable message,
    the anchor scan and the chaining conditions, and the request bodies. \<open>Anthropic_Replay\<close>: an
    answer is replayed the same from a body and from any conforming stream; a request is the
    stored configuration with the history in front. \<open>Openai_Chain\<close>: chaining is safe and sends
    what the replay would. \<open>Turn_Build\<close>: from the loaded context to the bytes of a request; an
    adapter is given what the provider sent.

  \<^bold>\<open>Parameters.\<close> SHA-1, SHA-256, the KMS MAC and encryption, \<open>JSON.parse\<close>, \<open>JSON.stringify\<close> of a
  number, the regular expression matcher, \<open>localeCompare\<close>, the URL parser and the formats of the
  schema library are arguments of the definitions. Where a theorem relies on one of them, the
  documented behaviour is a named hypothesis (an injective MAC, a match inside the text) and a
  witness instantiates it.

  \<^bold>\<open>Bounds.\<close> Loops of the code are structural recursion, except where their progress is the point:
  \<open>findAll_from\<close> and \<open>drain_loop\<close> are \<open>partial_function (option)\<close>, and that they return is a
  theorem. A sweep of dispatch recovery reads at most twenty pages, as the code bounds it. Database
  integers are \<open>int\<close> with their range checks written out where the code relies on them.

  \<^bold>\<open>Not modelled.\<close> HTTP routes and their validation, the regulatory registry, the user interface,
  the KMS adapters, connection pools, metrics and logging, the advisory sensitive-data stream, the
  Codex harness and the crypto-shredding SQL function no code calls: input and output plumbing, CRUD
  over single tables, third-party protocols, or wrappers of libraries; the manifest lists each of them with its reason.
\<close>

end
